(* ===== verification/Prelude.thy ===== *)
theory Prelude
  imports Main "HOL-Library.Word" "HOL-Library.Sublist"
begin

text \<open>
  Shared vocabulary of the development: machine sizes, half-open ranges, total slices, the
  "walk while the two sequences agree" loops the engine uses in several places, and the generic
  list facts the component theories rest on.

  Sizes and indices of type \<open>usize\<close> are natural numbers; where the code asks for saturation the
  saturating operations below are used. A slice \<open>&xs[i..j]\<close> is \<open>slice xs i j\<close>; the theories that
  take slices prove that their bounds are in range, where Rust would panic otherwise.
\<close>

named_theorems col_simps \<open>how the operations on aligned rows act on one source column\<close>
named_theorems plan_simps \<open>unfolding rules of the merge plan operations\<close>

section \<open>Sizes, ranges and slices\<close>

type_synonym range = "nat \<times> nat"

definition usize_max :: nat where
  "usize_max = 2 ^ 64 - 1"

definition isize_max :: nat where
  "isize_max = 2 ^ 63 - 1"

definition u32_max :: nat where
  "u32_max = 2 ^ 32 - 1"

definition sat_add :: "nat \<Rightarrow> nat \<Rightarrow> nat" where
  "sat_add a b = min (a + b) usize_max"

definition sat_mul :: "nat \<Rightarrow> nat \<Rightarrow> nat" where
  "sat_mul a b = min (a * b) usize_max"

abbreviation rng_start :: "range \<Rightarrow> nat" where "rng_start \<equiv> fst"
abbreviation rng_end :: "range \<Rightarrow> nat" where "rng_end \<equiv> snd"

definition rng_empty :: "range \<Rightarrow> bool" where
  "rng_empty r \<longleftrightarrow> \<not> fst r < snd r"

definition rng_len :: "range \<Rightarrow> nat" where
  "rng_len r = snd r - fst r"

definition rng_contains :: "range \<Rightarrow> nat \<Rightarrow> bool" where
  "rng_contains r i \<longleftrightarrow> fst r \<le> i \<and> i < snd r"

definition slice :: "'a list \<Rightarrow> nat \<Rightarrow> nat \<Rightarrow> 'a list" where
  "slice xs i j = take (j - i) (drop i xs)"

lemma slice_0 [simp]: "slice xs 0 j = take j xs"
  by (simp add: slice_def)

lemma slice_end [simp]: "length xs \<le> j \<Longrightarrow> slice xs i j = drop i xs"
  by (simp add: slice_def)

lemma slice_empty [simp]: "j \<le> i \<Longrightarrow> slice xs i j = []"
  by (simp add: slice_def)

lemma slice_Nil [simp]: "slice [] i j = []"
  by (simp add: slice_def)

lemma length_slice [simp]: "length (slice xs i j) = min (j - i) (length xs - i)"
  by (simp add: slice_def)

lemma slice_append_slice:
  "i \<le> j \<Longrightarrow> j \<le> k \<Longrightarrow> slice xs i j @ slice xs j k = slice xs i k"
proof -
  assume "i \<le> j" "j \<le> k"
  then have "k - i = (j - i) + (k - j)" "drop j xs = drop (j - i) (drop i xs)"
    by simp_all
  then show ?thesis
    by (simp only: slice_def take_add)
qed

lemma take_append_slice: "i \<le> j \<Longrightarrow> take i xs @ slice xs i j = take j xs"
  using slice_append_slice [of 0 i j xs] by simp

lemma slice_append_drop: "i \<le> j \<Longrightarrow> slice xs i j @ drop j xs = drop i xs"
  using append_take_drop_id [of "j - i" "drop i xs"]
  by (simp add: slice_def del: append_take_drop_id)

lemma nth_slice: "k < j - i \<Longrightarrow> i + k < length xs \<Longrightarrow> slice xs i j ! k = xs ! (i + k)"
  by (simp add: slice_def)

lemma slice_Suc: "i < j \<Longrightarrow> i < length xs \<Longrightarrow> slice xs i j = xs ! i # slice xs (Suc i) j"
  by (simp add: slice_def Cons_nth_drop_Suc [symmetric] take_Cons' )

lemma set_slice_subset: "set (slice xs i j) \<subseteq> set xs"
  by (auto simp: slice_def dest: in_set_takeD in_set_dropD)

lemma map_slice: "map f (slice xs i j) = slice (map f xs) i j"
  by (simp add: slice_def take_map drop_map)

section \<open>Common prefixes and suffixes\<close>

text \<open>
  \<open>while p < xs.len() && p < ys.len() && xs[p] == ys[p] { p += 1 }\<close>. The suffix walk compares
  from the end and stops where it would meet the prefix already counted.
\<close>

fun common_prefix_len :: "'a list \<Rightarrow> 'a list \<Rightarrow> nat" where
  "common_prefix_len (x # xs) (y # ys) = (if x = y then Suc (common_prefix_len xs ys) else 0)"
| "common_prefix_len _ _ = 0"

definition common_suffix_len :: "nat \<Rightarrow> 'a list \<Rightarrow> 'a list \<Rightarrow> nat" where
  "common_suffix_len p xs ys = common_prefix_len (rev (drop p xs)) (rev (drop p ys))"

lemma common_prefix_len_le1 [simp]: "common_prefix_len xs ys \<le> length xs"
  and common_prefix_len_le2 [simp]: "common_prefix_len xs ys \<le> length ys"
  by (induction xs ys rule: common_prefix_len.induct) auto

lemma common_prefix_len_same [simp]: "common_prefix_len xs xs = length xs"
  by (induction xs) auto

lemma common_prefix_len_comm: "common_prefix_len xs ys = common_prefix_len ys xs"
  by (induction xs ys rule: common_prefix_len.induct) auto

lemma take_common_prefix:
  "take (common_prefix_len xs ys) xs = take (common_prefix_len xs ys) ys"
  by (induction xs ys rule: common_prefix_len.induct) auto

lemma common_prefix_maximal:
  "common_prefix_len xs ys < length xs \<Longrightarrow> common_prefix_len xs ys < length ys \<Longrightarrow>
    xs ! common_prefix_len xs ys \<noteq> ys ! common_prefix_len xs ys"
  by (induction xs ys rule: common_prefix_len.induct) (auto split: if_splits)

lemma common_suffix_len_le:
  "common_suffix_len p xs ys \<le> length xs - p" "common_suffix_len p xs ys \<le> length ys - p"
  using common_prefix_len_le1 [of "rev (drop p xs)" "rev (drop p ys)"]
    common_prefix_len_le2 [of "rev (drop p xs)" "rev (drop p ys)"]
  by (simp_all add: common_suffix_len_def)

lemma drop_common_suffix:
  assumes "s = common_suffix_len p xs ys"
  shows "drop (length xs - s) xs = drop (length ys - s) ys"
proof -
  let ?a = "rev (drop p xs)" and ?b = "rev (drop p ys)"
  have le: "s \<le> length xs - p" "s \<le> length ys - p"
    using assms common_suffix_len_le by blast+
  have "take s ?a = take s ?b"
    using take_common_prefix [of ?a ?b] assms by (simp add: common_suffix_len_def)
  then have "drop (length xs - p - s) (drop p xs) = drop (length ys - p - s) (drop p ys)"
    by (simp add: take_rev)
  moreover have "length xs - s = (length xs - p - s) + p \<or> s = 0"
    "length ys - s = (length ys - p - s) + p \<or> s = 0"
    using le by auto
  ultimately show ?thesis
    by (metis add.commute diff_zero drop_all drop_drop
        order_refl)
qed

text \<open>The two walks together: both lists share the prefix and the suffix counted.\<close>

lemma common_affix_split:
  assumes "p = common_prefix_len xs ys" and "s = common_suffix_len p xs ys"
  obtains pre xm ym suf where
    "xs = pre @ xm @ suf" "ys = pre @ ym @ suf" "length pre = p" "length suf = s"
    "slice xs p (length xs - s) = xm" "slice ys p (length ys - s) = ym"
proof -
  have p: "p \<le> length xs" "p \<le> length ys"
    using assms(1) by simp_all
  have s: "s \<le> length xs - p" "s \<le> length ys - p"
    using assms(2) common_suffix_len_le by blast+
  have pre: "take p xs = take p ys"
    using assms(1) take_common_prefix by blast
  have suf: "drop (length xs - s) xs = drop (length ys - s) ys"
    using drop_common_suffix [OF assms(2)] .
  show ?thesis
  proof (rule that [of "take p xs" "slice xs p (length xs - s)" "drop (length xs - s) xs"
          "slice ys p (length ys - s)"])
    show "xs = take p xs @ slice xs p (length xs - s) @ drop (length xs - s) xs"
      using p s by (simp add: slice_append_drop)
    show "ys = take p xs @ slice ys p (length ys - s) @ drop (length xs - s) xs"
      unfolding pre suf using p s by (simp add: slice_append_drop)
  qed (use p s in simp_all)
qed

section \<open>Lists\<close>

text \<open>\<open>filter_map\<close> of the iterators.\<close>

primrec filter_map :: "('a \<Rightarrow> 'b option) \<Rightarrow> 'a list \<Rightarrow> 'b list" where
  "filter_map f [] = []"
| "filter_map f (x # xs) = (case f x of None \<Rightarrow> filter_map f xs | Some y \<Rightarrow> y # filter_map f xs)"

lemma filter_map_append [simp]: "filter_map f (xs @ ys) = filter_map f xs @ filter_map f ys"
  by (induction xs) (auto split: option.splits)

lemma filter_map_cong [fundef_cong]:
  "xs = ys \<Longrightarrow> (\<And>x. x \<in> set ys \<Longrightarrow> f x = g x) \<Longrightarrow> filter_map f xs = filter_map g ys"
  by (induction ys arbitrary: xs) (auto split: option.splits)

lemma filter_map_map [simp]: "filter_map f (map g xs) = filter_map (\<lambda>x. f (g x)) xs"
  by (induction xs) (auto split: option.splits)

lemma set_filter_map: "set (filter_map f xs) = {y. \<exists>x\<in>set xs. f x = Some y}"
  by (induction xs) (auto split: option.splits)

lemma filter_map_None: "(\<And>x. x \<in> set xs \<Longrightarrow> f x = None) \<Longrightarrow> filter_map f xs = []"
  by (induction xs) auto

lemma filter_map_Some: "(\<And>x. x \<in> set xs \<Longrightarrow> f x = Some (g x)) \<Longrightarrow> filter_map f xs = map g xs"
  by (induction xs) auto

lemma length_filter_map_le: "length (filter_map f xs) \<le> length xs"
  by (induction xs) (auto split: option.splits)

lemma filter_map_filter:
  "(\<And>x. x \<in> set xs \<Longrightarrow> \<not> P x \<Longrightarrow> f x = None) \<Longrightarrow> filter_map f (filter P xs) = filter_map f xs"
  by (induction xs) (auto split: option.splits)

text \<open>\<open>slice.get(i)\<close>\<close>

definition nth_opt :: "'a list \<Rightarrow> nat \<Rightarrow> 'a option" where
  "nth_opt xs i = (if i < length xs then Some (xs ! i) else None)"

lemma nth_opt_simps [simp]:
  "i < length xs \<Longrightarrow> nth_opt xs i = Some (xs ! i)"
  "length xs \<le> i \<Longrightarrow> nth_opt xs i = None"
  by (simp_all add: nth_opt_def)

lemma nth_opt_Some: "nth_opt xs i = Some x \<longleftrightarrow> i < length xs \<and> xs ! i = x"
  by (simp add: nth_opt_def)

text \<open>\<open>iter().position(p)\<close>: the index of the first element that satisfies \<open>p\<close>.\<close>

fun position :: "('a \<Rightarrow> bool) \<Rightarrow> 'a list \<Rightarrow> nat option" where
  "position p [] = None"
| "position p (x # xs) = (if p x then Some 0 else map_option Suc (position p xs))"

lemma position_None: "position p xs = None \<longleftrightarrow> (\<forall>x\<in>set xs. \<not> p x)"
  by (induction xs) auto

lemma position_append:
  "\<forall>x\<in>set xs. \<not> p x \<Longrightarrow> ys \<noteq> [] \<Longrightarrow> p (hd ys) \<Longrightarrow> position p (xs @ ys) = Some (length xs)"
  by (induction xs) (auto simp: neq_Nil_conv)

lemma position_SomeD:
  "position p xs = Some i \<Longrightarrow> i < length xs \<and> p (xs ! i) \<and> (\<forall>j<i. \<not> p (xs ! j))"
  by (induction xs arbitrary: i) (auto simp: less_Suc_eq_0_disj split: if_splits)

lemma list_update_split:
  "i < length xs \<Longrightarrow> xs[i := x] = take i xs @ x # drop (Suc i) xs"
  by (rule upd_conv_take_nth_drop)

lemma nat_sum_mono_split: "(xs :: 'a list) \<noteq> [] \<Longrightarrow> \<exists>ys y. xs = ys @ [y]"
  by (rule exI [of _ "butlast xs"], rule exI [of _ "last xs"]) simp

text \<open>The elements that satisfy a predicate, by index.\<close>

definition indices_where :: "('a \<Rightarrow> bool) \<Rightarrow> 'a list \<Rightarrow> nat list" where
  "indices_where p xs = filter (\<lambda>i. p (xs ! i)) [0..<length xs]"

lemma set_indices_where [simp]: "set (indices_where p xs) = {i. i < length xs \<and> p (xs ! i)}"
  by (auto simp: indices_where_def)

lemma sorted_indices_where [simp]: "sorted (indices_where p xs)"
  by (simp add: indices_where_def sorted_wrt_filter)

lemma distinct_indices_where [simp]: "distinct (indices_where p xs)"
  by (simp add: indices_where_def)

lemma length_indices_where: "length (indices_where p xs) = length (filter p xs)"
proof -
  have "map ((!) xs) (indices_where p xs) = filter p (map ((!) xs) [0..<length xs])"
    by (simp add: indices_where_def filter_map o_def)
  then have "map ((!) xs) (indices_where p xs) = filter p xs"
    by (simp only: map_nth)
  then show ?thesis
    by (metis length_map)
qed

text \<open>\<open>Vec::remove(index)\<close>\<close>

definition remove_nth :: "nat \<Rightarrow> 'a list \<Rightarrow> 'a list" where
  "remove_nth i xs = take i xs @ drop (Suc i) xs"

lemma subset_subseq_set: "subseq xs ys \<Longrightarrow> set xs \<subseteq> set ys"
  by (auto dest: list_emb_set)

lemma sorted_wrt_subseq: "subseq xs ys \<Longrightarrow> sorted_wrt R ys \<Longrightarrow> sorted_wrt R xs"
  by (induction rule: list_emb.induct) (auto dest: list_emb_set)

lemma subseq_remove_nth: "subseq (remove_nth i xs) xs"
proof -
  have "subseq (drop (Suc i) xs) (drop i xs)"
    by (metis drop_drop plus_1_eq_Suc suffix_drop suffix_imp_subseq)
  then have "subseq (take i xs @ drop (Suc i) xs) (take i xs @ drop i xs)"
    by (simp only: subseq_append')
  then show ?thesis
    by (simp add: remove_nth_def)
qed

lemma sorted_wrt_insert:
  "sorted_wrt R (xs @ ys) \<Longrightarrow> \<forall>x\<in>set xs. R x e \<Longrightarrow> \<forall>y\<in>set ys. R e y \<Longrightarrow> sorted_wrt R (xs @ e # ys)"
  by (auto simp: sorted_wrt_append)

end
