(* ===== verification/Strings.thy ===== *)
theory Strings
  imports Prelude
begin

text \<open>
  Text as the engine sees it. A Rust \<open>char\<close> is a Unicode scalar value, here its code point; a
  \<open>str\<close> is a list of them. \<open>str ''...''\<close> writes an ASCII literal. The operations are those of
  Rust's standard library that the sources use (\<open>str::lines\<close>, \<open>trim\<close>, \<open>starts_with\<close>,
  \<open>as_bytes\<close>) and the helpers of \<open>text_utils.rs\<close>, \<open>file_diff.rs\<close> and \<open>merge/plan.rs\<close> that work on
  whole texts: line splitting and counting, line ending detection, whitespace-insensitive
  comparison, shell quoting and URL redaction. Searches for an ASCII byte in the UTF-8 bytes of
  a text are searches for that code point, since no byte of a multi-byte sequence is ASCII.
\<close>

type_synonym uchar = nat
type_synonym utext = "uchar list"
type_synonym byte = nat

definition str :: "string \<Rightarrow> utext" where
  "str s = map of_char s"

abbreviation LF :: uchar where "LF \<equiv> 10"
abbreviation CR :: uchar where "CR \<equiv> 13"

definition starts_with :: "'a list \<Rightarrow> 'a list \<Rightarrow> bool" where
  "starts_with t p \<longleftrightarrow> take (length p) t = p"

definition ends_with :: "'a list \<Rightarrow> 'a list \<Rightarrow> bool" where
  "ends_with t s \<longleftrightarrow> length s \<le> length t \<and> drop (length t - length s) t = s"

lemma starts_with_append [simp]: "starts_with (p @ t) p"
  by (simp add: starts_with_def)

lemma starts_with_prefix: "starts_with t p \<longleftrightarrow> prefix p t"
  by (metis append_eq_conv_conj append_take_drop_id prefix_def starts_with_def)

lemma ends_with_append [simp]: "ends_with (t @ s) s"
  by (simp add: ends_with_def)

lemma ends_with_suffix: "ends_with t s \<longleftrightarrow> suffix s t"
  by (metis diff_diff_cancel ends_with_append ends_with_def suffix_def suffix_drop)

lemma ends_with_singleton [simp]: "ends_with t [c] \<longleftrightarrow> t \<noteq> [] \<and> last t = c"
  by (cases t rule: rev_cases) (auto simp: ends_with_suffix)

section \<open>Whitespace\<close>

text \<open>\<open>char::is_whitespace\<close>: the code points with the Unicode property White\_Space.\<close>

definition is_whitespace :: "uchar \<Rightarrow> bool" where
  "is_whitespace c \<longleftrightarrow> (9 \<le> c \<and> c \<le> 13) \<or> c = 32 \<or> c = 133 \<or> c = 160 \<or> c = 5760 \<or>
    (8192 \<le> c \<and> c \<le> 8202) \<or> c = 8232 \<or> c = 8233 \<or> c = 8239 \<or> c = 8287 \<or> c = 12288"

definition trim :: "utext \<Rightarrow> utext" where
  "trim t = rev (dropWhile is_whitespace (rev (dropWhile is_whitespace t)))"

lemma trim_Nil_iff: "trim t = [] \<longleftrightarrow> (\<forall>c\<in>set t. is_whitespace c)"
proof -
  have "trim t = [] \<longleftrightarrow> (\<forall>c\<in>set (dropWhile is_whitespace t). is_whitespace c)"
    by (simp add: trim_def)
  also have "\<dots> \<longleftrightarrow> dropWhile is_whitespace t = []"
    by (metis dropWhile_eq_Nil_conv hd_dropWhile hd_in_set set_empty2 empty_iff)
  finally show ?thesis
    by simp
qed

definition normalized_without_whitespace :: "utext \<Rightarrow> utext" where
  "normalized_without_whitespace t = filter (\<lambda>c. \<not> is_whitespace c) t"

text \<open>
  \<open>equal_ignoring_whitespace\<close> answers at once on equal texts and otherwise walks the two
  filtered character iterators in step.
\<close>

fun chars_agree :: "utext \<Rightarrow> utext \<Rightarrow> bool" where
  "chars_agree [] [] = True"
| "chars_agree (l # ls) (r # rs) = (l = r \<and> chars_agree ls rs)"
| "chars_agree _ _ = False"

definition equal_ignoring_whitespace :: "utext \<Rightarrow> utext \<Rightarrow> bool" where
  "equal_ignoring_whitespace l r =
     (if l = r then True
      else chars_agree (filter (\<lambda>c. \<not> is_whitespace c) l) (filter (\<lambda>c. \<not> is_whitespace c) r))"

lemma chars_agree_eq: "chars_agree ls rs \<longleftrightarrow> ls = rs"
  by (induction ls rs rule: chars_agree.induct) auto

lemma equal_ignoring_whitespace_iff:
  "equal_ignoring_whitespace l r \<longleftrightarrow>
    normalized_without_whitespace l = normalized_without_whitespace r"
  by (auto simp: equal_ignoring_whitespace_def normalized_without_whitespace_def chars_agree_eq)

lemma equal_ignoring_whitespace_refl [simp]: "equal_ignoring_whitespace t t"
  by (simp add: equal_ignoring_whitespace_def)

section \<open>Lines\<close>

text \<open>
  \<open>str::lines\<close>: cut after every line feed, then drop from each piece a final line feed and, if
  one was dropped, a carriage return before it. An unterminated last piece is kept as it is.
\<close>

fun split_inclusive :: "utext \<Rightarrow> utext list" where
  "split_inclusive [] = []"
| "split_inclusive (c # cs) =
     (if c = LF then [c] # split_inclusive cs
      else (case split_inclusive cs of [] \<Rightarrow> [[c]] | l # ls \<Rightarrow> (c # l) # ls))"

definition strip_line_end :: "utext \<Rightarrow> utext" where
  "strip_line_end l =
     (if ends_with l [LF]
      then (let l' = butlast l in if ends_with l' [CR] then butlast l' else l')
      else l)"

definition lines :: "utext \<Rightarrow> utext list" where
  "lines t = map strip_line_end (split_inclusive t)"

definition split_lines :: "utext \<Rightarrow> utext list" where
  "split_lines t = (if t = [] then [] else lines t)"

definition line_count :: "utext \<Rightarrow> nat" where
  "line_count t =
     (if t = [] then 0
      else length (filter (\<lambda>c. c = LF) t) + (if ends_with t [LF] then 0 else 1))"

lemma split_lines_eq [simp]: "split_lines t = lines t"
  by (simp add: split_lines_def lines_def)

lemma lines_Nil [simp]: "lines [] = []"
  by (simp add: lines_def)

lemma concat_split_inclusive [simp]: "concat (split_inclusive t) = t"
  by (induction t rule: split_inclusive.induct) (auto split: list.splits)

lemma split_inclusive_Nil_iff [simp]: "split_inclusive t = [] \<longleftrightarrow> t = []"
  by (cases t) (auto split: list.splits)

lemma split_inclusive_nonempty: "p \<in> set (split_inclusive t) \<Longrightarrow> p \<noteq> []"
  by (induction t rule: split_inclusive.induct) (auto split: list.splits if_splits)

lemma length_lines [simp]: "length (lines t) = length (split_inclusive t)"
  by (simp add: lines_def)

lemma split_inclusive_length: "length (split_inclusive t) = line_count t"
proof (induction t rule: split_inclusive.induct)
  case (2 c cs)
  then show ?case
    by (cases "cs = []") (auto simp: line_count_def split: list.splits)
qed (simp add: line_count_def)

lemma split_inclusive_LF: "split_inclusive (l @ LF # t) = split_inclusive (l @ [LF]) @ split_inclusive t"
proof (induction l)
  case (Cons c l)
  then show ?case
    by (cases "split_inclusive (l @ [LF])") (auto split: list.splits)
qed simp

lemma split_inclusive_no_LF: "LF \<notin> set l \<Longrightarrow> l \<noteq> [] \<Longrightarrow> split_inclusive l = [l]"
proof (induction l)
  case (Cons c l)
  then show ?case
    by (cases "l = []") auto
qed simp

lemma split_inclusive_line: "LF \<notin> set l \<Longrightarrow> split_inclusive (l @ [LF]) = [l @ [LF]]"
proof (induction l)
  case (Cons c l)
  then show ?case
    by (auto split: list.splits)
qed simp

text \<open>A line that survives being written out and read back: no line feed, no final carriage return.\<close>

definition clean_line :: "utext \<Rightarrow> bool" where
  "clean_line l \<longleftrightarrow> LF \<notin> set l \<and> \<not> ends_with l [CR]"

definition eol_ok :: "utext \<Rightarrow> bool" where
  "eol_ok e \<longleftrightarrow> e = [LF] \<or> e = [CR, LF]"

definition join_lines :: "utext \<Rightarrow> utext list \<Rightarrow> utext" where
  "join_lines e ls = concat (map (\<lambda>l. l @ e) ls)"

lemma join_lines_simps [simp]:
  "join_lines e [] = []"
  "join_lines e (l # ls) = l @ e @ join_lines e ls"
  "join_lines e (ls @ ls') = join_lines e ls @ join_lines e ls'"
  by (simp_all add: join_lines_def)

lemma split_inclusive_eol:
  assumes "LF \<notin> set l" "eol_ok e"
  shows "split_inclusive (l @ e @ t) = (l @ e) # split_inclusive t"
proof (cases "e = [LF]")
  case True
  then show ?thesis
    using split_inclusive_LF [of l t] split_inclusive_line [OF assms(1)] by simp
next
  case False
  then have e: "e = [CR, LF]"
    using assms(2) by (simp add: eol_ok_def)
  have "LF \<notin> set (l @ [CR])"
    using assms(1) by simp
  then show ?thesis
    using split_inclusive_LF [of "l @ [CR]" t] split_inclusive_line [of "l @ [CR]"] e by simp
qed

lemma strip_line_end_eol:
  assumes "clean_line l" "eol_ok e"
  shows "strip_line_end (l @ e) = l"
proof (cases "e = [LF]")
  case True
  with assms(1) show ?thesis
    by (auto simp: strip_line_end_def clean_line_def Let_def)
next
  case False
  with assms(2) have "l @ e = (l @ [CR]) @ [LF]"
    by (simp add: eol_ok_def)
  then show ?thesis
    by (simp add: strip_line_end_def Let_def del: append_assoc)
qed

lemma lines_cons: "clean_line l \<Longrightarrow> eol_ok e \<Longrightarrow> lines (l @ e @ t) = l # lines t"
  by (simp add: lines_def split_inclusive_eol strip_line_end_eol clean_line_def)

text \<open>Writing clean lines out with one ending and splitting again returns them.\<close>

lemma lines_join_lines:
  "eol_ok e \<Longrightarrow> \<forall>l\<in>set ls. clean_line l \<Longrightarrow> lines (join_lines e ls) = ls"
  by (induction ls) (auto simp: lines_cons)

lemma LF_in_split_inclusive: "p \<in> set (split_inclusive t) \<Longrightarrow> LF \<notin> set (butlast p)"
proof (induction t arbitrary: p rule: split_inclusive.induct)
  case (2 c cs)
  show ?case
  proof (cases "split_inclusive cs")
    case Nil
    then show ?thesis
      using 2 by (auto split: if_splits)
  next
    case (Cons q qs)
    then have "q \<noteq> []"
      using split_inclusive_nonempty [of q cs] by simp
    with Cons 2 show ?thesis
      by (auto split: if_splits)
  qed
qed simp

lemma lines_no_LF: "l \<in> set (lines t) \<Longrightarrow> LF \<notin> set l"
proof -
  assume "l \<in> set (lines t)"
  then obtain p where p: "p \<in> set (split_inclusive t)" "l = strip_line_end p"
    by (auto simp: lines_def)
  have np: "p \<noteq> []" and lf: "LF \<notin> set (butlast p)"
    using p(1) split_inclusive_nonempty LF_in_split_inclusive by blast+
  show ?thesis
  proof (cases "last p = LF")
    case True
    then show ?thesis
      using np lf p(2) by (auto simp: strip_line_end_def Let_def dest: in_set_butlastD)
  next
    case False
    then have "p = butlast p @ [last p]" "l = p"
      using np p(2) by (simp_all add: strip_line_end_def)
    then show ?thesis
      using lf False by (metis Un_iff empty_iff empty_set set_ConsD set_append)
  qed
qed

section \<open>Line endings\<close>

text \<open>\<open>count_line_feeds\<close>: (CRLF count, total LF count); \<open>prev\<close> is the byte before the scan position.\<close>

fun count_line_feeds_from :: "uchar option \<Rightarrow> utext \<Rightarrow> nat \<times> nat" where
  "count_line_feeds_from prev [] = (0, 0)"
| "count_line_feeds_from prev (c # cs) =
     (let (crlf, lf) = count_line_feeds_from (Some c) cs
      in if c = LF then (if prev = Some CR then Suc crlf else crlf, Suc lf) else (crlf, lf))"

definition count_line_feeds :: "utext \<Rightarrow> nat \<times> nat" where
  "count_line_feeds t = count_line_feeds_from None t"

datatype line_ending_detection_mode = Presence | DominantCrlfVsLf

fun contains_sub :: "utext \<Rightarrow> utext \<Rightarrow> bool" where
  "contains_sub [] p = (p = [])"
| "contains_sub (c # cs) p = (starts_with (c # cs) p \<or> contains_sub cs p)"

fun detect_by_presence_from :: "bool \<Rightarrow> utext list \<Rightarrow> utext" where
  "detect_by_presence_from saw_cr [] = (if saw_cr then [CR] else [LF])"
| "detect_by_presence_from saw_cr (t # ts) =
     (if contains_sub t [CR, LF] then [CR, LF]
      else detect_by_presence_from (saw_cr \<or> CR \<in> set t) ts)"

definition detect_by_presence :: "utext list \<Rightarrow> utext" where
  "detect_by_presence ts = detect_by_presence_from False ts"

fun dominant_counts :: "nat \<Rightarrow> nat \<Rightarrow> utext list \<Rightarrow> nat \<times> nat" where
  "dominant_counts crlf lf_only [] = (crlf, lf_only)"
| "dominant_counts crlf lf_only (t # ts) =
     (let (c, l) = count_line_feeds t in dominant_counts (crlf + c) (lf_only + (l - c)) ts)"

definition detect_by_dominant_counts :: "utext list \<Rightarrow> utext" where
  "detect_by_dominant_counts ts =
     (let (crlf, lf_only) = dominant_counts 0 0 ts in if crlf > lf_only then [CR, LF] else [LF])"

definition detect_line_ending_from_texts ::
  "utext list \<Rightarrow> line_ending_detection_mode \<Rightarrow> utext" where
  "detect_line_ending_from_texts ts mode =
     (case mode of Presence \<Rightarrow> detect_by_presence ts
      | DominantCrlfVsLf \<Rightarrow> detect_by_dominant_counts ts)"

definition text_has_mixed_line_endings :: "utext \<Rightarrow> bool" where
  "text_has_mixed_line_endings t =
     (let (crlf, lf) = count_line_feeds t;
          bare_lf = lf - crlf;
          bare_cr = length (filter (\<lambda>c. c = CR) t) - crlf
      in length (filter (\<lambda>n. n > 0) [crlf, bare_lf, bare_cr]) > 1)"

text \<open>The planner's own detector (\<open>merge/plan.rs\<close>), over base, local and remote.\<close>

definition detect_line_ending :: "utext option \<Rightarrow> utext \<Rightarrow> utext \<Rightarrow> utext" where
  "detect_line_ending base local remote =
     (let texts = [case base of None \<Rightarrow> [] | Some b \<Rightarrow> b, local, remote];
          crlf = sum_list (map (\<lambda>t. fst (count_line_feeds t)) texts);
          lf = sum_list (map (\<lambda>t. snd (count_line_feeds t) - fst (count_line_feeds t)) texts)
      in if crlf > lf then [CR, LF] else [LF])"

lemma eol_ok_simps [simp]: "eol_ok [LF]" "eol_ok [CR, LF]"
  by (simp_all add: eol_ok_def)

lemma eol_ok_detect_dominant [simp]: "eol_ok (detect_line_ending_from_texts ts DominantCrlfVsLf)"
  by (simp add: detect_line_ending_from_texts_def detect_by_dominant_counts_def split: prod.splits)

lemma eol_ok_detect_line_ending [simp]: "eol_ok (detect_line_ending base local remote)"
  by (simp add: detect_line_ending_def Let_def)

lemma count_line_feeds_from_lf: "snd (count_line_feeds_from prev t) = length (filter (\<lambda>c. c = LF) t)"
  by (induction t arbitrary: prev) (auto simp: Let_def split: prod.splits, (metis snd_conv)+)

lemma count_line_feeds_crlf_le: "fst (count_line_feeds_from prev t) \<le> snd (count_line_feeds_from prev t)"
  by (induction t arbitrary: prev)
    (auto simp: Let_def split: prod.splits, (metis fst_conv snd_conv le_SucI)+)

lemma dominant_counts_sums:
  "dominant_counts c l ts =
    (c + sum_list (map (\<lambda>t. fst (count_line_feeds t)) ts),
     l + sum_list (map (\<lambda>t. snd (count_line_feeds t) - fst (count_line_feeds t)) ts))"
  by (induction ts arbitrary: c l) (auto simp: split: prod.splits)

text \<open>The planner and the subchunk merger choose the same ending.\<close>

lemma detect_line_ending_dominant:
  "detect_line_ending (Some base) local remote =
    detect_line_ending_from_texts [base, local, remote] DominantCrlfVsLf"
  by (simp add: detect_line_ending_def detect_line_ending_from_texts_def
      detect_by_dominant_counts_def dominant_counts_sums)

section \<open>UTF-8\<close>

definition utf8_char :: "uchar \<Rightarrow> byte list" where
  "utf8_char c =
     (if c < 128 then [c]
      else if c < 2048 then [192 + c div 64, 128 + c mod 64]
      else if c < 65536 then [224 + c div 4096, 128 + c div 64 mod 64, 128 + c mod 64]
      else [240 + c div 262144, 128 + c div 4096 mod 64, 128 + c div 64 mod 64, 128 + c mod 64])"

definition as_bytes :: "utext \<Rightarrow> byte list" where
  "as_bytes t = concat (map utf8_char t)"

section \<open>URLs and shell words\<close>

fun find_sub :: "'a list \<Rightarrow> 'a list \<Rightarrow> nat option" where
  "find_sub pat [] = (if pat = [] then Some 0 else None)"
| "find_sub pat (c # cs) =
     (if starts_with (c # cs) pat then Some 0 else map_option Suc (find_sub pat cs))"

definition split_once :: "'a list \<Rightarrow> 'a list \<Rightarrow> ('a list \<times> 'a list) option" where
  "split_once pat t = map_option (\<lambda>i. (take i t, drop (i + length pat) t)) (find_sub pat t)"

definition rposition :: "('a \<Rightarrow> bool) \<Rightarrow> 'a list \<Rightarrow> nat option" where
  "rposition P xs = map_option (\<lambda>i. length xs - Suc i) (position P (rev xs))"

definition ascii_lowercase :: "uchar \<Rightarrow> uchar" where
  "ascii_lowercase c = (if 65 \<le> c \<and> c \<le> 90 then c + 32 else c)"

definition eq_ignore_ascii_case :: "utext \<Rightarrow> utext \<Rightarrow> bool" where
  "eq_ignore_ascii_case a b \<longleftrightarrow> map ascii_lowercase a = map ascii_lowercase b"

definition redact_url_userinfo :: "utext \<Rightarrow> utext" where
  "redact_url_userinfo url =
     (case split_once (str ''://'') url of
        None \<Rightarrow> url
      | Some (scheme, rest) \<Rightarrow>
          let authority_end = (case position (\<lambda>c. c \<in> set (str ''/?#'')) rest of
                Some i \<Rightarrow> i | None \<Rightarrow> length rest)
          in case rposition (\<lambda>c. c = 64) (take authority_end rest) of
               None \<Rightarrow> url
             | Some pos \<Rightarrow>
                 let masked = (case split_once [58] (take pos rest) of
                       Some (user, _) \<Rightarrow> Some (user @ str '':***'')
                     | None \<Rightarrow> if eq_ignore_ascii_case scheme (str ''http'') \<or>
                           eq_ignore_ascii_case scheme (str ''https'')
                         then Some (str ''***'') else None)
                 in (case masked of
                       None \<Rightarrow> url
                     | Some m \<Rightarrow> scheme @ str ''://'' @ m @ drop pos rest))"

definition shell_single_quote :: "utext \<Rightarrow> utext" where
  "shell_single_quote raw =
     [39] @ concat (map (\<lambda>c. if c = 39 then [39, 34, 39, 34, 39] else [c]) raw) @ [39]"

text \<open>
  How \<open>sh\<close> reads a word: quoted runs \<open>'...'\<close> and \<open>"..."\<close> are copied, adjacent runs join. Inside double
  quotes only runs without \<open>$\<close>, a backquote or a backslash are read; anything else is not a word of
  this fragment.
\<close>

datatype quote_state = Unquoted | In_single | In_double

fun sh_word :: "quote_state \<Rightarrow> utext \<Rightarrow> utext option" where
  "sh_word Unquoted [] = Some []"
| "sh_word In_single [] = None"
| "sh_word In_double [] = None"
| "sh_word Unquoted (c # cs) =
     (if c = 39 then sh_word In_single cs else if c = 34 then sh_word In_double cs else None)"
| "sh_word In_single (c # cs) =
     (if c = 39 then sh_word Unquoted cs else map_option ((#) c) (sh_word In_single cs))"
| "sh_word In_double (c # cs) =
     (if c = 34 then sh_word Unquoted cs
      else if c \<in> {36, 96, 92} then None else map_option ((#) c) (sh_word In_double cs))"

lemma sh_word_escaped:
  "sh_word In_single (concat (map (\<lambda>c. if c = 39 then [39, 34, 39, 34, 39] else [c]) raw) @ [39]) = Some raw"
  by (induction raw) auto

lemma find_sub_Some: "find_sub pat t = Some i \<Longrightarrow> t = take i t @ pat @ drop (i + length pat) t"
proof (induction pat t arbitrary: i rule: find_sub.induct)
  case (2 pat c cs)
  show ?case
  proof (cases "starts_with (c # cs) pat")
    case True
    then show ?thesis
      using 2(2) append_take_drop_id [of "length pat" "c # cs"] by (auto simp: starts_with_def)
  qed (use 2 in auto)
qed (simp split: if_splits)

lemma split_once_Some: "split_once pat t = Some (a, b) \<Longrightarrow> t = a @ pat @ b"
  unfolding split_once_def using find_sub_Some by fastforce

lemma find_sub_skip:
  "x \<notin> set a \<Longrightarrow> find_sub (x # pat) (a @ (x # pat) @ b) = Some (length a)"
proof (induction a)
  case Nil
  then show ?case
    by (simp add: starts_with_def)
next
  case (Cons c a)
  then show ?case
    by (auto simp: starts_with_def)
qed

lemma split_once_skip:
  "x \<notin> set a \<Longrightarrow> split_once (x # pat) (a @ x # pat @ b) = Some (a, b)"
  using find_sub_skip [of x a pat b] by (simp add: split_once_def)

lemma rposition_split:
  "p x \<Longrightarrow> \<forall>y\<in>set b. \<not> p y \<Longrightarrow> rposition p (a @ x # b) = Some (length a)"
proof -
  assume p: "p x" and b: "\<forall>y\<in>set b. \<not> p y"
  have "position p (rev b @ x # rev a) = Some (length b)"
    using position_append [of "rev b" p "x # rev a"] p b by simp
  then show ?thesis
    by (simp add: rposition_def)
qed

lemma redact_password:
  assumes "58 \<notin> set scheme" "58 \<notin> set user"
    and "\<forall>c\<in>set (user @ secret @ host). c \<notin> set (str ''/?#'')" "64 \<notin> set host"
    and "path = [] \<or> hd path \<in> set (str ''/?#'')"
  shows "redact_url_userinfo (scheme @ str ''://'' @ user @ [58] @ secret @ [64] @ host @ path) =
    scheme @ str ''://'' @ user @ str '':***'' @ [64] @ host @ path"
proof -
  let ?info = "user @ 58 # secret"
  let ?auth = "?info @ 64 # host"
  have css: "str ''://'' = [58, 47, 47]"
    by (simp add: str_def)
  have delims: "set (str ''/?#'') = {47, 63, 35}"
    by (simp add: str_def)
  have url: "split_once (str ''://'') (scheme @ str ''://'' @ user @ [58] @ secret @ [64] @ host @ path)
      = Some (scheme, ?auth @ path)"
    using split_once_skip [of 58 scheme "[47, 47]" "?auth @ path"] assms(1) by (simp add: css)
  have no: "\<forall>c\<in>set ?auth. c \<notin> {47, 63, 35}"
    using assms(3) by (auto simp: delims)
  have auth: "(case position (\<lambda>c. c \<in> {47, 63, 35}) (?auth @ path) of
      Some i \<Rightarrow> i | None \<Rightarrow> length (?auth @ path)) = length ?auth"
  proof (cases path)
    case Nil
    then have "position (\<lambda>c. c \<in> {47, 63, 35}) (?auth @ path) = None"
      using no by (simp only: position_None append_Nil2)
    then show ?thesis
      using Nil by simp
  next
    case (Cons c cs)
    then have "position (\<lambda>c. c \<in> {47, 63, 35}) (?auth @ path) = Some (length ?auth)"
      using position_append [of ?auth "\<lambda>c. c \<in> {47, 63, 35}" path] no assms(5) by (simp add: delims)
    then show ?thesis
      by simp
  qed
  have pos: "rposition (\<lambda>c. c = 64) ?auth = Some (length ?info)"
    using rposition_split [of "\<lambda>c. c = 64" 64 host ?info] assms(4) by blast
  have user: "split_once [58] ?info = Some (user, secret)"
    using split_once_skip [of 58 user "[]" secret] assms(2) by simp
  have cut: "take (length ?auth) (?auth @ path) = ?auth" "take (length ?info) (?auth @ path) = ?info"
    "drop (length ?info) (?auth @ path) = 64 # host @ path"
    by simp_all
  show ?thesis
    unfolding redact_url_userinfo_def url option.case prod.case Let_def delims auth cut(1) pos
      cut(2) user cut(3)
    by simp
qed

section \<open>Properties\<close>

text \<open>Two lines are equal up to whitespace, as the comparison that skips whitespace character by
character decides, exactly when their normalised texts (all whitespace removed) are equal.\<close>

lemma whitespace_comparison_agrees:
  "equal_ignoring_whitespace l r \<longleftrightarrow>
    normalized_without_whitespace l = normalized_without_whitespace r"
  by (rule equal_ignoring_whitespace_iff)

text \<open>Lines that contain no line feed and do not end in a carriage return, written out each with
the line ending the merge detects for its three inputs, split back into the same lines.\<close>

lemma detected_ending_roundtrip:
  assumes "\<forall>l\<in>set ls. clean_line l"
  shows "split_lines (join_lines (detect_line_ending base local remote) ls) = ls"
  using lines_join_lines [OF eol_ok_detect_line_ending assms] by simp

lemma detected_ending_roundtrip_witness:
  "split_lines (join_lines (detect_line_ending None (str ''a'' @ [CR, LF]) []) [str ''x'', [], str ''y'']) =
    [str ''x'', [], str ''y'']"
  by (rule detected_ending_roundtrip) (simp add: clean_line_def str_def)

text \<open>The displayed form of a URL with a password does not depend on the password, and keeps
the scheme, the user, the host and the path.\<close>

lemma redaction_hides_password:
  assumes "58 \<notin> set scheme" "58 \<notin> set user"
    and "\<forall>c\<in>set (user @ secret @ host). c \<notin> set (str ''/?#'')" "64 \<notin> set host"
    and "path = [] \<or> hd path \<in> set (str ''/?#'')"
  shows "redact_url_userinfo (scheme @ str ''://'' @ user @ [58] @ secret @ [64] @ host @ path) =
    scheme @ str ''://'' @ user @ str '':***'' @ [64] @ host @ path"
  using assms by (rule redact_password)

lemma redaction_hides_password_witness:
  "redact_url_userinfo (str ''ssh'' @ str ''://'' @ str ''u'' @ [58] @ str ''p@:w'' @ [64] @ str ''h'' @ str ''/x@y'') =
    str ''ssh'' @ str ''://'' @ str ''u'' @ str '':***'' @ [64] @ str ''h'' @ str ''/x@y''"
  by (rule redaction_hides_password) (simp_all add: str_def)

text \<open>Whatever the text, the shell reads its single-quoted form as one word that is that text.\<close>

lemma shell_quote_roundtrip: "sh_word Unquoted (shell_single_quote raw) = Some raw"
  using sh_word_escaped [of raw] by (simp add: shell_single_quote_def)

end
