(* ===== verification/Payload.thy ===== *)
theory Payload
  imports Strings
begin

text \<open>
  What a conflicted file holds on each side (\<open>ConflictPayload\<close> and \<open>ConflictRegionText\<close> of
  \<open>conflict_session.rs\<close>), over a model of \<open>std::str::from_utf8\<close>. A text is a list of Unicode scalar
  values and bytes are numbers below 256; \<open>as_bytes\<close> encodes and \<open>utf8_decode\<close> decodes.
\<close>

section \<open>Decoding UTF-8\<close>

definition scalar :: "uchar \<Rightarrow> bool" where
  "scalar c \<longleftrightarrow> c < 1114112 \<and> \<not> (55296 \<le> c \<and> c \<le> 57343)"

definition continuation :: "byte \<Rightarrow> bool" where
  "continuation b \<longleftrightarrow> 128 \<le> b \<and> b < 192"

text \<open>The second byte after a lead byte of a three- or four-byte sequence: no overlong form, no
  surrogate, nothing above U+10FFFF.\<close>

definition second_of_three :: "byte \<Rightarrow> byte \<Rightarrow> bool" where
  "second_of_three a b \<longleftrightarrow> continuation b \<and>
     (a = 224 \<and> 160 \<le> b \<or> 225 \<le> a \<and> a \<le> 236 \<or> a = 237 \<and> b < 160 \<or> a = 238 \<or> a = 239)"

definition second_of_four :: "byte \<Rightarrow> byte \<Rightarrow> bool" where
  "second_of_four a b \<longleftrightarrow> continuation b \<and> (a = 240 \<and> 144 \<le> b \<or> 241 \<le> a \<and> a \<le> 243 \<or> a = 244 \<and> b < 144)"

fun utf8_first :: "byte list \<Rightarrow> (uchar \<times> byte list) option" where
  "utf8_first [] = None"
| "utf8_first (a # bs) =
     (if a < 128 then Some (a, bs)
      else case bs of [] \<Rightarrow> None
      | b # bs \<Rightarrow>
          if 194 \<le> a \<and> a \<le> 223 \<and> continuation b then Some ((a - 192) * 64 + (b - 128), bs)
          else (case bs of [] \<Rightarrow> None
          | c # bs \<Rightarrow>
              if second_of_three a b \<and> continuation c
              then Some ((a - 224) * 4096 + (b - 128) * 64 + (c - 128), bs)
              else (case bs of [] \<Rightarrow> None
              | d # bs \<Rightarrow>
                  if second_of_four a b \<and> continuation c \<and> continuation d
                  then Some ((a - 240) * 262144 + (b - 128) * 4096 + (c - 128) * 64 + (d - 128), bs)
                  else None)))"

lemma utf8_first_shorter: "utf8_first bs = Some (c, rest) \<Longrightarrow> length rest < length bs"
  by (cases bs) (auto split: if_splits list.splits)

function utf8_decode :: "byte list \<Rightarrow> utext option" where
  "utf8_decode bs =
     (if bs = [] then Some []
      else case utf8_first bs of
        None \<Rightarrow> None
      | Some (c, rest) \<Rightarrow> map_option (\<lambda>t. c # t) (utf8_decode rest))"
  by pat_completeness auto
termination
  by (relation "measure length") (auto dest: utf8_first_shorter)

declare utf8_decode.simps [simp del]

lemma split_digits2: "(c div 64) * 64 + c mod 64 = (c :: nat)"
  by simp

lemma split_digits3: "(c div 4096) * 4096 + (c div 64 mod 64) * 64 + c mod 64 = (c :: nat)"
proof -
  have "c div 4096 = c div 64 div 64"
    by (simp add: div_mult2_eq [symmetric])
  then show ?thesis
    using div_mult_mod_eq [of "c div 64" 64] div_mult_mod_eq [of c 64] by linarith
qed

lemma split_digits4:
  "(c div 262144) * 262144 + (c div 4096 mod 64) * 4096 + (c div 64 mod 64) * 64 + c mod 64 = (c :: nat)"
proof -
  have "c div 262144 = c div 4096 div 64"
    by (simp add: div_mult2_eq [symmetric])
  then show ?thesis
    using div_mult_mod_eq [of "c div 4096" 64] split_digits3 [of c] by linarith
qed

lemma digit: "z < 64 \<Longrightarrow> (q * 64 + z) div 64 = q \<and> (q * 64 + z) mod 64 = (z :: nat)"
  by simp

lemma join_digits3:
  assumes "c = x * 4096 + y * 64 + z" "y < 64" "z < (64 :: nat)"
  shows "c div 4096 = x" "c div 64 mod 64 = y" "c mod 64 = z"
proof -
  have c: "c = (x * 64 + y) * 64 + z" using assms(1) by simp
  have "c div 4096 = c div 64 div 64" by (simp add: div_mult2_eq [symmetric])
  then show "c div 4096 = x" "c div 64 mod 64 = y" "c mod 64 = z"
    using digit [OF assms(3), of "x * 64 + y"] digit [OF assms(2), of x] unfolding c by simp_all
qed

lemma join_digits4:
  assumes "c = w * 262144 + x * 4096 + y * 64 + z" "x < 64" "y < 64" "z < (64 :: nat)"
  shows "c div 262144 = w" "c div 4096 mod 64 = x" "c div 64 mod 64 = y" "c mod 64 = z"
proof -
  have c: "c = (w * 64 + x) * 4096 + y * 64 + z" using assms(1) by simp
  have "c div 262144 = c div 4096 div 64" by (simp add: div_mult2_eq [symmetric])
  then show "c div 262144 = w" "c div 4096 mod 64 = x" "c div 64 mod 64 = y" "c mod 64 = z"
    using join_digits3 [OF c assms(3,4)] digit [OF assms(2), of w] by simp_all
qed

lemma utf8_first_char: "scalar c \<Longrightarrow> utf8_first (utf8_char c @ bs) = Some (c, bs)"
proof -
  assume s: "scalar c"
  consider "c < 128" | "128 \<le> c" "c < 2048" | "2048 \<le> c" "c < 65536" | "65536 \<le> c" by linarith
  then show ?thesis
  proof cases
    case 2
    define x y where "x = c div 64" and "y = c mod 64"
    have "2 \<le> x" "x \<le> 31" "y < 64" "c = x * 64 + y"
      using 2 by (simp_all add: x_def y_def div_le_mono less_mult_imp_div_less)
    moreover have "utf8_char c = [192 + x, 128 + y]"
      using 2 by (simp add: utf8_char_def x_def y_def)
    ultimately show ?thesis
      by (simp add: continuation_def)
  next
    case 3
    have d: "c div 4096 < 16" "c div 64 mod 64 < 64" "c mod 64 < 64"
      using 3 by (auto simp: less_mult_imp_div_less)
    have "c div 4096 = 0 \<longrightarrow> 32 \<le> c div 64 mod 64" "c div 4096 = 13 \<longrightarrow> c div 64 mod 64 < 32"
      using 3(1) s split_digits3 [of c] d unfolding scalar_def by linarith+
    then have "second_of_three (224 + c div 4096) (128 + c div 64 mod 64)"
      using d by (auto simp: second_of_three_def continuation_def)
    then show ?thesis
      using 3 d split_digits3 [of c] by (simp add: utf8_char_def continuation_def)
  next
    case 4
    define w x y z where "w = c div 262144" and "x = c div 4096 mod 64" and "y = c div 64 mod 64" and "z = c mod 64"
    have d: "x < 64" "y < 64" "z < 64" "c = w * 262144 + x * 4096 + y * 64 + z"
      using split_digits4 [of c] by (simp_all add: w_def x_def y_def z_def)
    have w: "w \<le> 4" "w = 0 \<Longrightarrow> 16 \<le> x" "w = 4 \<Longrightarrow> x < 16"
      using d 4 s unfolding scalar_def by linarith+
    then have "second_of_four (240 + w) (128 + x)"
      using d by (cases "w = 0"; cases "w = 4") (auto simp: second_of_four_def continuation_def)
    moreover have "\<not> second_of_three (240 + w) b" for b
      by (auto simp: second_of_three_def)
    moreover have "utf8_char c = [240 + w, 128 + x, 128 + y, 128 + z]"
      using 4 by (simp add: utf8_char_def w_def x_def y_def z_def)
    ultimately show ?thesis
      using d by (simp add: continuation_def)
  qed (simp add: utf8_char_def)
qed

lemma utf8_first_sound:
  assumes "utf8_first bs = Some (c, rest)"
  shows "scalar c \<and> bs = utf8_char c @ rest"
proof -
  have two: "scalar c \<and> utf8_char c = [a, b]"
    if "c = (a - 192) * 64 + (b - 128)" "194 \<le> a" "a \<le> 223" "continuation b" for a b
  proof -
    define x y where "x = a - 192" and "y = b - 128"
    have "a = 192 + x" "b = 128 + y" "2 \<le> x" "x \<le> 31" "y < 64"
      using that(2-4) by (auto simp: continuation_def x_def y_def)
    then show ?thesis
      using that(1) by (auto simp: scalar_def utf8_char_def)
  qed
  have three: "scalar c \<and> utf8_char c = [a, b, d]"
    if "c = (a - 224) * 4096 + (b - 128) * 64 + (d - 128)" "second_of_three a b" "continuation d" for a b d
  proof -
    define x y z where "x = a - 224" and "y = b - 128" and "z = d - 128"
    have v: "a = 224 + x" "b = 128 + y" "d = 128 + z" "x \<le> 15" "y < 64" "z < 64"
      "x = 0 \<longrightarrow> 32 \<le> y" "x = 13 \<longrightarrow> y < 32"
      using that(2,3) by (auto simp: continuation_def second_of_three_def x_def y_def z_def)
    then have c: "c = x * 4096 + y * 64 + z" using that(1) by simp
    moreover note join_digits3 [OF c v(5,6)]
    moreover have "2048 \<le> c"
      using v(7) c by (cases "x = 0") linarith+
    moreover have "c < 65536"
      using v(4-6) c by linarith
    moreover have "\<not> (55296 \<le> c \<and> c \<le> 57343)"
    proof -
      consider "x \<le> 12" | "x = 13" "y < 32" | "14 \<le> x" using v(8) by linarith
      then show ?thesis
        by cases (use v(5,6) c in linarith)+
    qed
    ultimately show ?thesis
      using v by (simp add: scalar_def utf8_char_def)
  qed
  have four: "scalar c \<and> utf8_char c = [a, b, d, e]"
    if "c = (a - 240) * 262144 + (b - 128) * 4096 + (d - 128) * 64 + (e - 128)" "second_of_four a b"
      "continuation d" "continuation e" for a b d e
  proof -
    define w x y z where "w = a - 240" and "x = b - 128" and "y = d - 128" and "z = e - 128"
    have v: "a = 240 + w" "b = 128 + x" "d = 128 + y" "e = 128 + z" "w \<le> 4" "x < 64" "y < 64" "z < 64"
      "w = 0 \<longrightarrow> 16 \<le> x" "w = 4 \<longrightarrow> x < 16"
      using that(2-4) by (auto simp: continuation_def second_of_four_def w_def x_def y_def z_def)
    then have c: "c = w * 262144 + x * 4096 + y * 64 + z" using that(1) by simp
    moreover note join_digits4 [OF c v(6-8)]
    moreover have "65536 \<le> c"
      using v(9) c by (cases "w = 0") linarith+
    moreover have "c < 1114112"
      using v(5-8,10) c by (cases "w = 4") linarith+
    ultimately show ?thesis
      using v by (simp add: scalar_def utf8_char_def)
  qed
  obtain a bs1 where bs: "bs = a # bs1"
    using assms by (cases bs) auto
  consider (1) "a < 128" "c = a" "rest = bs1"
    | (2) b where "bs1 = b # rest" "194 \<le> a" "a \<le> 223" "continuation b" "c = (a - 192) * 64 + (b - 128)"
    | (3) b d where "bs1 = b # d # rest" "second_of_three a b" "continuation d"
        "c = (a - 224) * 4096 + (b - 128) * 64 + (d - 128)"
    | (4) b d e where "bs1 = b # d # e # rest" "second_of_four a b" "continuation d" "continuation e"
        "c = (a - 240) * 262144 + (b - 128) * 4096 + (d - 128) * 64 + (e - 128)"
    using assms unfolding bs by (auto split: if_splits list.splits)
  then show ?thesis
  proof cases
    case 1
    then show ?thesis by (simp add: bs scalar_def utf8_char_def)
  next
    case 2
    from two [OF 2(5,2-4)] show ?thesis by (simp add: bs 2(1))
  next
    case 3
    from three [OF 3(4,2,3)] show ?thesis by (simp add: bs 3(1))
  next
    case 4
    from four [OF 4(5,2-4)] show ?thesis by (simp add: bs 4(1))
  qed
qed

lemma utf8_char_nonempty [simp]: "utf8_char c \<noteq> []"
  by (simp add: utf8_char_def)

lemma as_bytes_simps [simp]: "as_bytes [] = []" "as_bytes (c # t) = utf8_char c @ as_bytes t"
  by (simp_all add: as_bytes_def)

lemma decode_encode: "list_all scalar t \<Longrightarrow> utf8_decode (as_bytes t) = Some t"
  by (induction t) (simp_all add: utf8_decode.simps [of "utf8_char _ @ _"] utf8_decode.simps [of "[]"] utf8_first_char)

lemma encode_decode: "utf8_decode bs = Some t \<Longrightarrow> list_all scalar t \<and> as_bytes t = bs"
proof (induction bs arbitrary: t rule: utf8_decode.induct)
  case (1 bs)
  show ?case
  proof (cases "bs = []")
    case True
    then show ?thesis using 1(2) by (simp add: utf8_decode.simps [of "[]"])
  next
    case False
    then obtain c rest t' where "utf8_first bs = Some (c, rest)" "utf8_decode rest = Some t'" "t = c # t'"
      using 1(2) by (auto simp: utf8_decode.simps [of bs] split: option.splits)
    with 1(1) [OF False this(1) refl this(2)] utf8_first_sound [OF this(1)] show ?thesis
      by simp
  qed
qed

section \<open>Payloads\<close>

datatype conflict_payload = Payload_Text utext | Payload_Binary "byte list" | Payload_Absent

type_synonym conflict_stage_parts = "byte list option \<times> utext option"

definition canonicalize_stage_parts :: "byte list option \<Rightarrow> utext option \<Rightarrow> conflict_stage_parts" where
  "canonicalize_stage_parts bytes t =
     (case t of
        Some t \<Rightarrow> (None, Some t)
      | None \<Rightarrow>
          (case bytes of
             Some bs \<Rightarrow> (case utf8_decode bs of Some t \<Rightarrow> (None, Some t) | None \<Rightarrow> (Some bs, None))
           | None \<Rightarrow> (None, None)))"

fun payload_as_text :: "conflict_payload \<Rightarrow> utext option" where
  "payload_as_text (Payload_Text t) = Some t"
| "payload_as_text (Payload_Binary bs) = None"
| "payload_as_text Payload_Absent = None"

fun payload_as_bytes :: "conflict_payload \<Rightarrow> byte list option" where
  "payload_as_bytes (Payload_Text t) = Some (as_bytes t)"
| "payload_as_bytes (Payload_Binary bs) = Some bs"
| "payload_as_bytes Payload_Absent = None"

definition payload_byte_len :: "conflict_payload \<Rightarrow> nat option" where
  "payload_byte_len p = map_option length (payload_as_bytes p)"

fun payload_is_absent :: "conflict_payload \<Rightarrow> bool" where
  "payload_is_absent Payload_Absent = True"
| "payload_is_absent p = False"

fun payload_is_binary :: "conflict_payload \<Rightarrow> bool" where
  "payload_is_binary (Payload_Binary bs) = True"
| "payload_is_binary p = False"

definition payload_from_bytes :: "byte list \<Rightarrow> conflict_payload" where
  "payload_from_bytes bs = (case utf8_decode bs of Some t \<Rightarrow> Payload_Text t | None \<Rightarrow> Payload_Binary bs)"

definition payload_from_stage_parts :: "byte list option \<Rightarrow> utext option \<Rightarrow> conflict_payload" where
  "payload_from_stage_parts bytes t =
     (case t of
        Some t \<Rightarrow> Payload_Text t
      | None \<Rightarrow> (case bytes of Some bs \<Rightarrow> Payload_Binary bs | None \<Rightarrow> Payload_Absent))"

fun payload_into_stage_parts :: "conflict_payload \<Rightarrow> conflict_stage_parts" where
  "payload_into_stage_parts (Payload_Text t) = (None, Some t)"
| "payload_into_stage_parts (Payload_Binary bs) = (Some bs, None)"
| "payload_into_stage_parts Payload_Absent = (None, None)"

section \<open>The text of a region\<close>

text \<open>A region text owns its characters or is a range of a shared text; it is compared by content.\<close>

datatype conflict_region_text = Owned utext | Shared_Slice utext range

definition region_text_shared :: "utext \<Rightarrow> conflict_region_text" where
  "region_text_shared t = Shared_Slice t (0, length t)"

fun as_str :: "conflict_region_text \<Rightarrow> utext" where
  "as_str (Owned t) = t"
| "as_str (Shared_Slice t r) = slice t (rng_start r) (rng_end r)"

definition region_text_eq :: "conflict_region_text \<Rightarrow> conflict_region_text \<Rightarrow> bool" where
  "region_text_eq a b \<longleftrightarrow> as_str a = as_str b"

lemma as_str_shared [simp]: "as_str (region_text_shared t) = t"
  by (simp add: region_text_shared_def)

section \<open>Properties\<close>

text \<open>C30: payloads keep the bytes of a side. Every byte string becomes a payload with those bytes, a text
  exactly when it is UTF-8, and then one that holds scalar values only; the two stage fields of a payload
  give it back, and canonical stage fields carry the content once: canonicalizing bytes is decomposing
  the payload made from them.\<close>

theorem payloads_keep_their_bytes:
  "payload_as_bytes (payload_from_bytes bs) = Some bs \<and>
   (case payload_from_bytes bs of Payload_Text t \<Rightarrow> list_all scalar t | p \<Rightarrow> payload_is_binary p) \<and>
   (if list_all scalar t then payload_from_bytes (as_bytes t) = Payload_Text t else True) \<and>
   (case payload_into_stage_parts p of (b, t) \<Rightarrow> payload_from_stage_parts b t = p) \<and>
   canonicalize_stage_parts (Some bs) None = payload_into_stage_parts (payload_from_bytes bs)"
  using encode_decode [of bs] decode_encode [of t]
  by (cases p) (auto simp: payload_from_bytes_def payload_from_stage_parts_def canonicalize_stage_parts_def
      split: option.splits)

end
