(* ===== verification/Edits.thy ===== *)
theory Edits
  imports Prelude
begin

text \<open>
  Edit scripts (\<open>file_diff.rs\<close>): what a diff algorithm returns, what it means for a script to be one
  for two given sequences, the linear fallback scripts, and the conversion of a script into hunks
  and back. The algorithms compare lines with \<open>==\<close> only, so everything is generic in the line type.
  The locale \<open>diff_algorithm\<close> is the contract the rest of the engine needs from an algorithm.
\<close>

section \<open>Scripts\<close>

datatype edit_kind = Equal | Insert | Delete

record 'a edit =
  ed_kind :: edit_kind
  ed_old :: "'a option"
  ed_new :: "'a option"

abbreviation equal_edit :: "'a \<Rightarrow> 'a edit" where
  "equal_edit x \<equiv> \<lparr>ed_kind = Equal, ed_old = Some x, ed_new = Some x\<rparr>"

abbreviation insert_edit :: "'a \<Rightarrow> 'a edit" where
  "insert_edit x \<equiv> \<lparr>ed_kind = Insert, ed_old = None, ed_new = Some x\<rparr>"

abbreviation delete_edit :: "'a \<Rightarrow> 'a edit" where
  "delete_edit x \<equiv> \<lparr>ed_kind = Delete, ed_old = Some x, ed_new = None\<rparr>"

definition edit_ok :: "'a edit \<Rightarrow> bool" where
  "edit_ok e \<longleftrightarrow>
     (case ed_kind e of
        Equal \<Rightarrow> ed_old e \<noteq> None \<and> ed_new e = ed_old e
      | Insert \<Rightarrow> ed_old e = None \<and> ed_new e \<noteq> None
      | Delete \<Rightarrow> ed_old e \<noteq> None \<and> ed_new e = None)"

definition old_side :: "'a edit list \<Rightarrow> 'a list" where
  "old_side es = filter_map ed_old es"

definition new_side :: "'a edit list \<Rightarrow> 'a list" where
  "new_side es = filter_map ed_new es"

definition script_for :: "'a edit list \<Rightarrow> 'a list \<Rightarrow> 'a list \<Rightarrow> bool" where
  "script_for es old new \<longleftrightarrow> (\<forall>e\<in>set es. edit_ok e) \<and> old_side es = old \<and> new_side es = new"

text \<open>The edit distance a script realises: its insertions and deletions.\<close>

definition script_cost :: "'a edit list \<Rightarrow> nat" where
  "script_cost es = length (filter (\<lambda>e. ed_kind e \<noteq> Equal) es)"

lemma side_simps [simp]:
  "old_side [] = []" "new_side [] = []"
  "old_side (es @ es') = old_side es @ old_side es'"
  "new_side (es @ es') = new_side es @ new_side es'"
  "old_side (equal_edit x # es) = x # old_side es"
  "new_side (equal_edit x # es) = x # new_side es"
  "old_side (insert_edit x # es) = old_side es"
  "new_side (insert_edit x # es) = x # new_side es"
  "old_side (delete_edit x # es) = x # old_side es"
  "new_side (delete_edit x # es) = new_side es"
  by (simp_all add: old_side_def new_side_def)

lemma side_map_simps [simp]:
  "old_side (map equal_edit xs) = xs" "new_side (map equal_edit xs) = xs"
  "old_side (map insert_edit xs) = []" "new_side (map insert_edit xs) = xs"
  "old_side (map delete_edit xs) = xs" "new_side (map delete_edit xs) = []"
  by (induction xs) simp_all

lemma edit_ok_simps [simp]:
  "edit_ok (equal_edit x)" "edit_ok (insert_edit x)" "edit_ok (delete_edit x)"
  by (simp_all add: edit_ok_def)

lemma edit_ok_cases:
  assumes "edit_ok e"
  obtains (Equal) x where "e = equal_edit x" | (Insert) x where "e = insert_edit x"
    | (Delete) x where "e = delete_edit x"
  using assms by (cases e) (auto simp: edit_ok_def split: edit_kind.splits)

lemma script_cost_simps [simp]:
  "script_cost [] = 0"
  "script_cost (es @ es') = script_cost es + script_cost es'"
  "script_cost (equal_edit x # es) = script_cost es"
  "script_cost (insert_edit x # es) = Suc (script_cost es)"
  "script_cost (delete_edit x # es) = Suc (script_cost es)"
  by (simp_all add: script_cost_def)

lemma script_for_Nil [simp]: "script_for [] old new \<longleftrightarrow> old = [] \<and> new = []"
  by (auto simp: script_for_def)

lemma script_for_append:
  "script_for es o1 n1 \<Longrightarrow> script_for es' o2 n2 \<Longrightarrow> script_for (es @ es') (o1 @ o2) (n1 @ n2)"
  by (auto simp: script_for_def)

lemma script_for_equals [simp]: "script_for (map equal_edit xs) xs xs"
  and script_for_inserts [simp]: "script_for (map insert_edit xs) [] xs"
  and script_for_deletes [simp]: "script_for (map delete_edit xs) xs []"
  by (auto simp: script_for_def)

lemma script_for_length:
  "script_for es old new \<Longrightarrow> length old + length new = script_cost es + 2 * length (filter (\<lambda>e. ed_kind e = Equal) es)"
proof (induction es arbitrary: old new)
  case (Cons e es)
  then have ok: "edit_ok e" and es: "script_for es (old_side es) (new_side es)"
    by (simp_all add: script_for_def)
  from ok show ?case
    by (cases rule: edit_ok_cases) (use Cons.IH [OF es] Cons.prems in \<open>auto simp: script_for_def\<close>)
qed simp

section \<open>Linear fallback scripts\<close>

text \<open>
  \<open>myers_fallback_edits\<close>: keep the common prefix and suffix, delete the old middle, insert the new
  one. \<open>positional_fallback_edits\<close> pairs the middles position by position first.
\<close>

definition myers_fallback_edits :: "'a list \<Rightarrow> 'a list \<Rightarrow> 'a edit list" where
  "myers_fallback_edits old new =
     (let p = common_prefix_len old new;
          s = common_suffix_len p old new;
          old_mid_end = length old - s;
          new_mid_end = length new - s
      in map equal_edit (take p old)
         @ map delete_edit (slice old p old_mid_end)
         @ map insert_edit (slice new p new_mid_end)
         @ map equal_edit (drop old_mid_end old))"

fun positional_pairs :: "'a list \<Rightarrow> 'a list \<Rightarrow> 'a edit list" where
  "positional_pairs (x # xs) (y # ys) =
     (if x = y then equal_edit x # positional_pairs xs ys
      else delete_edit x # insert_edit y # positional_pairs xs ys)"
| "positional_pairs xs ys = map delete_edit xs @ map insert_edit ys"

definition positional_fallback_edits :: "'a list \<Rightarrow> 'a list \<Rightarrow> 'a edit list" where
  "positional_fallback_edits old new =
     (let p = common_prefix_len old new;
          s = common_suffix_len p old new;
          old_mid_end = length old - s;
          new_mid_end = length new - s
      in map equal_edit (take p old)
         @ positional_pairs (slice old p old_mid_end) (slice new p new_mid_end)
         @ map equal_edit (drop old_mid_end old))"

lemma script_for_affix:
  assumes "p = common_prefix_len old new" "s = common_suffix_len p old new"
    and "script_for mid (slice old p (length old - s)) (slice new p (length new - s))"
  shows "script_for (map equal_edit (take p old) @ mid @ map equal_edit (drop (length old - s) old)) old new"
proof -
  obtain pre om nm suf where *: "old = pre @ om @ suf" "new = pre @ nm @ suf"
    "length pre = p" "length suf = s"
    "slice old p (length old - s) = om" "slice new p (length new - s) = nm"
    using common_affix_split [OF assms(1,2)] .
  have sides: "take p old = pre" "drop (length old - s) old = suf"
    using *(1,3,4) by simp_all
  have "script_for (map equal_edit pre @ mid @ map equal_edit suf) (pre @ om @ suf) (pre @ nm @ suf)"
    by (intro script_for_append script_for_equals) (use assms(3) *(5,6) in simp)
  then show ?thesis
    unfolding sides using *(1,2) by simp
qed

lemma myers_fallback_script: "script_for (myers_fallback_edits old new) old new"
proof -
  have "script_for (map delete_edit a @ map insert_edit b) a b" for a b :: "'a list"
    using script_for_append [OF script_for_deletes [of a] script_for_inserts [of b]] by simp
  from script_for_affix [OF refl refl this] show ?thesis
    by (simp add: myers_fallback_edits_def Let_def)
qed

lemma positional_pairs_script: "script_for (positional_pairs xs ys) xs ys"
  by (induction xs ys rule: positional_pairs.induct) (auto simp: script_for_def)

lemma positional_fallback_script: "script_for (positional_fallback_edits old new) old new"
  using script_for_affix [OF refl refl positional_pairs_script [of "slice old (common_prefix_len old new)
      (length old - common_suffix_len (common_prefix_len old new) old new)"]]
  by (simp add: positional_fallback_edits_def Let_def)

section \<open>Hunks\<close>

record 'a diff_hunk =
  base_start :: nat
  base_end :: nat
  new_lines :: "'a list"

text \<open>
  One pass over the script: an \<open>Equal\<close> advances the base index; a maximal run of other edits is one
  hunk. The inner loop's effect on \<open>base_ix\<close> and \<open>new_lines\<close> is read off the run.
\<close>

function edits_to_hunks_from :: "nat \<Rightarrow> 'a edit list \<Rightarrow> 'a diff_hunk list" where
  "edits_to_hunks_from base_ix [] = []"
| "edits_to_hunks_from base_ix (e # es) =
     (if ed_kind e = Equal then edits_to_hunks_from (Suc base_ix) es
      else let run = takeWhile (\<lambda>e. ed_kind e \<noteq> Equal) (e # es);
               rest = dropWhile (\<lambda>e. ed_kind e \<noteq> Equal) (e # es);
               base_end = base_ix + length (filter (\<lambda>e. ed_kind e = Delete) run);
               inserted = filter_map ed_new (filter (\<lambda>e. ed_kind e = Insert) run)
           in \<lparr>base_start = base_ix, base_end = base_end, new_lines = inserted\<rparr>
              # edits_to_hunks_from base_end rest)"
  by pat_completeness auto
termination
  by (relation "measure (\<lambda>(b, es). length es)") (auto simp: le_imp_less_Suc length_dropWhile_le)

definition edits_to_hunks_with :: "'a edit list \<Rightarrow> 'a diff_hunk list" where
  "edits_to_hunks_with es = edits_to_hunks_from 0 es"

fun reconstruct_from :: "'a list \<Rightarrow> nat \<Rightarrow> nat \<Rightarrow> 'a diff_hunk list \<Rightarrow> 'a list" where
  "reconstruct_from base_lines range_end pos [] = slice base_lines pos range_end"
| "reconstruct_from base_lines range_end pos (h # hs) =
     (let base_limit = max (min (base_start h) range_end) pos;
          pos' = max (min (base_end h) range_end) pos
      in slice base_lines pos base_limit @ new_lines h
         @ reconstruct_from base_lines range_end pos' hs)"

definition reconstruct_side_with :: "'a list \<Rightarrow> range \<Rightarrow> 'a diff_hunk list \<Rightarrow> 'a list" where
  "reconstruct_side_with base_lines r hunks =
     (let range_end = min (rng_end r) (length base_lines)
      in reconstruct_from base_lines range_end (min (rng_start r) range_end) hunks)"

text \<open>A run of insertions and deletions is a script of its own, and the rest is one for what follows.\<close>

lemma change_run_sides:
  "\<forall>e\<in>set xs. edit_ok e \<and> ed_kind e \<noteq> Equal \<Longrightarrow>
    length (old_side xs) = length (filter (\<lambda>e. ed_kind e = Delete) xs) \<and>
    new_side xs = filter_map ed_new (filter (\<lambda>e. ed_kind e = Insert) xs)"
proof (induction xs)
  case (Cons e xs)
  then have "edit_ok e" "ed_kind e \<noteq> Equal"
    by simp_all
  then show ?case
    by (cases rule: edit_ok_cases) (use Cons in auto)
qed simp

lemma script_for_run_split:
  assumes "script_for es old new"
  defines "run \<equiv> takeWhile (\<lambda>e. ed_kind e \<noteq> Equal) es"
    and "rest \<equiv> dropWhile (\<lambda>e. ed_kind e \<noteq> Equal) es"
  shows "script_for rest (drop (length (filter (\<lambda>e. ed_kind e = Delete) run)) old) (new_side rest)"
    and "length (filter (\<lambda>e. ed_kind e = Delete) run) \<le> length old"
    and "new = filter_map ed_new (filter (\<lambda>e. ed_kind e = Insert) run) @ new_side rest"
proof -
  have es: "es = run @ rest"
    by (simp add: run_def rest_def)
  have ok: "\<forall>e\<in>set es. edit_ok e"
    and old: "old = old_side run @ old_side rest" and new: "new = new_side run @ new_side rest"
    using assms(1) unfolding script_for_def es by auto
  have "\<forall>e\<in>set run. ed_kind e \<noteq> Equal"
    unfolding run_def by (auto dest: set_takeWhileD)
  moreover have "\<forall>e\<in>set run. edit_ok e" "\<forall>e\<in>set rest. edit_ok e"
    using ok es by auto
  ultimately have run: "length (old_side run) = length (filter (\<lambda>e. ed_kind e = Delete) run)"
    "new_side run = filter_map ed_new (filter (\<lambda>e. ed_kind e = Insert) run)"
    using change_run_sides [of run] by simp_all
  show "script_for rest (drop (length (filter (\<lambda>e. ed_kind e = Delete) run)) old) (new_side rest)"
    unfolding script_for_def run(1) [symmetric] old using \<open>\<forall>e\<in>set rest. edit_ok e\<close> by simp
  show "length (filter (\<lambda>e. ed_kind e = Delete) run) \<le> length old"
    unfolding run(1) [symmetric] old by simp
  show "new = filter_map ed_new (filter (\<lambda>e. ed_kind e = Insert) run) @ new_side rest"
    using new run(2) by simp
qed

lemma reconstruct_from_hunks:
  "script_for es (drop i base) new \<Longrightarrow> p \<le> i \<Longrightarrow> i \<le> length base \<Longrightarrow>
    reconstruct_from base (length base) p (edits_to_hunks_from i es) = slice base p i @ new"
proof (induction i es arbitrary: p new rule: edits_to_hunks_from.induct)
  case (1 i)
  then show ?case by simp
next
  case (2 i e es)
  show ?case
  proof (cases "ed_kind e = Equal")
    case True
    from 2 have "edit_ok e"
      by (simp add: script_for_def)
    then obtain x where e: "e = equal_edit x"
      by (cases rule: edit_ok_cases) (use True in auto)
    with 2 have split: "drop i base = x # old_side es" "new = x # new_side es" "\<forall>e\<in>set es. edit_ok e"
      by (simp_all add: script_for_def)
    have "drop i base \<noteq> []"
      using split(1) by simp
    then have "i < length base"
      by simp
    moreover have "base ! i = x"
      using split(1) by (rule nth_via_drop)
    moreover have "drop (Suc i) base = old_side es"
      using split(1) by (simp add: drop_Suc flip: tl_drop)
    ultimately have i: "i < length base" "base ! i = x" "drop (Suc i) base = old_side es"
      by simp_all
    have "script_for es (drop (Suc i) base) (new_side es)"
      using split(3) i(3) by (simp add: script_for_def)
    from 2(1) [OF True this] i(1) 2(4)
    have "reconstruct_from base (length base) p (edits_to_hunks_from (Suc i) es)
        = slice base p (Suc i) @ new_side es"
      by simp
    moreover have "slice base p (Suc i) = slice base p i @ [x]"
      using slice_append_slice [of p i "Suc i" base] slice_Suc [of i "Suc i" base] 2(4) i by simp
    ultimately show ?thesis
      using True split(2) by simp
  next
    case False
    let ?run = "takeWhile (\<lambda>e. ed_kind e \<noteq> Equal) (e # es)"
    let ?rest = "dropWhile (\<lambda>e. ed_kind e \<noteq> Equal) (e # es)"
    let ?n = "length (filter (\<lambda>e. ed_kind e = Delete) ?run)"
    let ?ins = "filter_map ed_new (filter (\<lambda>e. ed_kind e = Insert) ?run)"
    note split = script_for_run_split [OF 2(3)]
    have le: "i + ?n \<le> length base"
      using split(2) 2(5) by simp
    have "script_for ?rest (drop (i + ?n) base) (new_side ?rest)"
      using split(1) by (simp add: add.commute)
    from 2(2) [OF False refl refl refl refl this _ le]
    have "reconstruct_from base (length base) (i + ?n) (edits_to_hunks_from (i + ?n) ?rest)
        = new_side ?rest"
      by simp
    moreover have "edits_to_hunks_from i (e # es)
        = \<lparr>base_start = i, base_end = i + ?n, new_lines = ?ins\<rparr> # edits_to_hunks_from (i + ?n) ?rest"
      by (simp only: edits_to_hunks_from.simps if_not_P [OF False] Let_def)
    moreover have "max (min i (length base)) p = i" "max (min (i + ?n) (length base)) p = i + ?n"
      using le 2(4,5) by auto
    ultimately have "reconstruct_from base (length base) p (edits_to_hunks_from i (e # es))
        = slice base p i @ ?ins @ new_side ?rest"
      by (simp only: reconstruct_from.simps Let_def diff_hunk.simps)
    with split(3) show ?thesis
      by simp
  qed
qed

section \<open>The contract of a diff algorithm\<close>

locale diff_algorithm =
  fixes diff :: "'a list \<Rightarrow> 'a list \<Rightarrow> 'a edit list"
  assumes diff_script: "script_for (diff old new) old new"
begin

lemma old_side_diff: "old_side (diff old new) = old"
  and new_side_diff: "new_side (diff old new) = new"
  using diff_script by (auto simp: script_for_def)

lemma hunks_roundtrip:
  "reconstruct_side_with old (0, length old) (edits_to_hunks_with (diff old new)) = new"
proof -
  have "script_for (diff old new) (drop 0 old) new"
    using diff_script by simp
  from reconstruct_from_hunks [OF this, of 0] show ?thesis
    by (simp add: reconstruct_side_with_def edits_to_hunks_with_def Let_def)
qed

end

interpretation fallback: diff_algorithm myers_fallback_edits
  by unfold_locales (rule myers_fallback_script)

interpretation positional: diff_algorithm positional_fallback_edits
  by unfold_locales (rule positional_fallback_script)

end
