(* ===== verification/Myers_Correct.thy ===== *)
theory Myers_Correct
  imports Myers
begin

text \<open>
  Correctness of \<open>myers_edits\<close>: the in-place frontier and the compact trace hold the furthest
  reaching points, backtracking over them yields a script for the two inputs, and no script is
  cheaper.
\<close>

section \<open>The search computes the furthest reaching points\<close>

definition frontier_ok :: "'a list \<Rightarrow> 'a list \<Rightarrow> nat \<Rightarrow> (int \<Rightarrow> nat) \<Rightarrow> bool" where
  "frontier_ok old new d v \<longleftrightarrow> (\<forall>k. active d k \<longrightarrow> v k = nat (furthest old new d k))"

lemma as_u32_id: "0 \<le> x \<Longrightarrow> x \<le> int u32_max \<Longrightarrow> as_u32 x = nat x"
  by (simp add: as_u32_def u32_max_def)

lemma frontier_step:
  assumes "frontier_ok old new e v" "active (Suc e) k"
  shows "fst (snake old new (int (frontier_start v (Suc e) k)) (int (frontier_start v (Suc e) k) - k))
    = furthest old new (Suc e) k"
  using assms(2)
proof (cases rule: furthest_Suc_cases [of e k old new])
  case Down
  have up: "int (v (k + 1)) = furthest old new e (k + 1)"
    using assms(1) Down(1) furthest_nonneg [OF Down(1), of old new] by (auto simp: frontier_ok_def)
  have "k = - int (Suc e) \<or> (k \<noteq> int (Suc e) \<and> v (k - 1) < v (k + 1))"
  proof (cases "k = - int (Suc e)")
    case False
    then have "active e (k - 1)" "furthest old new e (k - 1) < furthest old new e (k + 1)"
      using Down(1,3) assms(2) unfolding active_def by (presburger, blast)
    then have "int (v (k - 1)) < int (v (k + 1))"
      using assms(1) furthest_nonneg [of e "k - 1" old new] up by (auto simp: frontier_ok_def)
    with False Down(3) show ?thesis
      by simp
  qed simp
  then have "int (frontier_start v (Suc e) k) = furthest old new e (k + 1)"
    using up by (simp add: frontier_start_def)
  with Down(2) show ?thesis
    by simp
next
  case Right
  have down: "int (v (k - 1)) = furthest old new e (k - 1)"
    using assms(1) Right(1) furthest_nonneg [OF Right(1), of old new] by (auto simp: frontier_ok_def)
  have "\<not> (k = - int (Suc e) \<or> (k \<noteq> int (Suc e) \<and> v (k - 1) < v (k + 1)))"
  proof (cases "k = int (Suc e)")
    case False
    then have "active e (k + 1)" "\<not> furthest old new e (k - 1) < furthest old new e (k + 1)"
      using Right(1,3) assms(2) unfolding active_def by (presburger, blast)
    then have "\<not> int (v (k - 1)) < int (v (k + 1))"
      using assms(1) furthest_nonneg [of e "k + 1" old new] down by (auto simp: frontier_ok_def)
    with Right(3) show ?thesis
      by auto
  qed (use Right(3) in auto)
  then have "int (frontier_start v (Suc e) k) = furthest old new e (k - 1) + 1"
    using down by (simp only: frontier_start_def if_False of_nat_add of_nat_1)
  with Right(2) show ?thesis
    by simp
qed

lemma frontier_ok_update:
  assumes "frontier_ok old new e v" "active (Suc e) k"
  shows "frontier_ok old new e (v(k := x))"
proof -
  have "\<not> active e k"
    using assms(2) unfolding active_def by presburger
  then show ?thesis
    using assms(1) by (auto simp: frontier_ok_def)
qed

lemma search_depth_spec:
  assumes "no_end_before old new (Suc e)" "length old + length new \<le> u32_max"
    and "frontier_ok old new e v" "diagonals (Suc e) = ds @ ks"
    and "\<forall>k\<in>set ds. v k = nat (furthest old new (Suc e) k) \<and> \<not> at_end old new (Suc e) k"
    and "search_depth old new (Suc e) ks v = (found, v')"
  shows "found \<Longrightarrow> \<exists>k. active (Suc e) k \<and> at_end old new (Suc e) k"
    and "\<not> found \<Longrightarrow> frontier_ok old new (Suc e) v' \<and> no_end_before old new (Suc (Suc e))"
proof -
  have "(found \<longrightarrow> (\<exists>k. active (Suc e) k \<and> at_end old new (Suc e) k)) \<and>
    (\<not> found \<longrightarrow> frontier_ok old new (Suc e) v' \<and> no_end_before old new (Suc (Suc e)))"
    using assms(3-)
  proof (induction ks arbitrary: v ds)
    case Nil
    then have "\<forall>k. active (Suc e) k \<longrightarrow> v k = nat (furthest old new (Suc e) k) \<and> \<not> at_end old new (Suc e) k"
      using set_diagonals [of "Suc e"] by auto
    with Nil assms(1) show ?case
      by (auto simp: frontier_ok_def no_end_before_def less_Suc_eq)
  next
    case (Cons k ks)
    have k: "active (Suc e) k"
      using set_diagonals [of "Suc e"] Cons.prems(2) by auto
    let ?st = "int (frontier_start v (Suc e) k)"
    let ?x = "furthest old new (Suc e) k"
    obtain x y where xy: "snake old new ?st (?st - k) = (x, y)"
      by fastforce
    have x: "x = ?x"
      using frontier_step [OF Cons.prems(1) k] unfolding xy by simp
    have y: "y = ?x - k"
      using snake_diagonal [of old new ?st "?st - k"] x unfolding xy by simp
    have store: "as_u32 ?x = nat ?x"
      using furthest_nonneg [OF k, of old new] furthest_bound [OF assms(1) k] assms(2)
      by (intro as_u32_id) auto
    let ?v = "v(k := nat ?x)"
    show ?case
    proof (cases "at_end old new (Suc e) k")
      case True
      then have "found"
        using Cons.prems(4) xy x y by (simp add: at_end_def Let_def)
      with True k show ?thesis
        by blast
    next
      case False
      have rest: "search_depth old new (Suc e) ks ?v = (found, v')"
        using False Cons.prems(4) xy x y store by (auto simp: at_end_def Let_def)
      have split: "diagonals (Suc e) = (ds @ [k]) @ ks"
        using Cons.prems(2) by simp
      then have "k \<notin> set ds"
        using distinct_diagonals [of "Suc e"] by auto
      then have "\<forall>j\<in>set (ds @ [k]). ?v j = nat (furthest old new (Suc e) j) \<and> \<not> at_end old new (Suc e) j"
        using Cons.prems(3) False by auto
      from Cons.IH [OF frontier_ok_update [OF Cons.prems(1) k] split this rest]
      show ?thesis .
    qed
  qed
  then show "found \<Longrightarrow> \<exists>k. active (Suc e) k \<and> at_end old new (Suc e) k"
    and "\<not> found \<Longrightarrow> frontier_ok old new (Suc e) v' \<and> no_end_before old new (Suc (Suc e))"
    by blast+
qed

section \<open>The compact trace\<close>

definition trace_row :: "'a list \<Rightarrow> 'a list \<Rightarrow> nat \<Rightarrow> nat list" where
  "trace_row old new d = map (\<lambda>k. nat (furthest old new d k)) (diagonals d)"

definition trace_rows :: "'a list \<Rightarrow> 'a list \<Rightarrow> nat \<Rightarrow> nat list" where
  "trace_rows old new d = concat (map (trace_row old new) [0..<d])"

lemma trace_rows_Suc: "trace_rows old new (Suc d) = trace_rows old new d @ trace_row old new d"
  by (simp add: trace_rows_def)

lemma length_trace_row [simp]: "length (trace_row old new d) = Suc d"
  by (simp add: trace_row_def diagonals_def)

lemma length_trace_rows: "length (trace_rows old new d) = d * (d + 1) div 2"
  by (induction d) (simp_all add: trace_rows_Suc, simp add: trace_rows_def)

lemma nth_trace_row:
  assumes "active d k"
  shows "trace_row old new d ! nat ((k + int d) div 2) = nat (furthest old new d k)"
    and "nat ((k + int d) div 2) < Suc d"
proof -
  from assms have "even (k + int d)"
    by (simp add: active_def)
  then obtain i where i: "k + int d = 2 * i"
    by (rule evenE)
  with assms have "nat ((k + int d) div 2) = nat i" "0 \<le> i" "nat i < Suc d" "k = 2 * int (nat i) - int d"
    by (auto simp: active_def)
  then show "trace_row old new d ! nat ((k + int d) div 2) = nat (furthest old new d k)"
    and "nat ((k + int d) div 2) < Suc d"
    by (simp_all add: trace_row_def diagonals_def del: upt_Suc)
qed

lemma trace_lookup:
  "e < d \<Longrightarrow> active e k \<Longrightarrow>
    compact_trace_get (trace_rows old new d @ rest) e k = nat (furthest old new e k)"
proof (induction d arbitrary: rest)
  case (Suc d)
  show ?case
  proof (cases "e = d")
    case True
    then show ?thesis
      using nth_trace_row(1) [OF Suc.prems(2), of old new] nth_trace_row(2) [OF Suc.prems(2)]
      by (simp add: compact_trace_get_def trace_rows_Suc nth_append length_trace_rows)
  next
    case False
    then show ?thesis
      using Suc by (simp add: trace_rows_Suc)
  qed
qed simp

lemma map_frontier: "frontier_ok old new d v \<Longrightarrow> map v (diagonals d) = trace_row old new d"
  using set_diagonals [of d] by (auto simp: trace_row_def frontier_ok_def)

lemma search_from_spec:
  assumes "length old + length new \<le> u32_max"
  shows "no_end_before old new (Suc e) \<Longrightarrow> frontier_ok old new e v \<Longrightarrow>
    length old + length new \<le> e + rounds \<Longrightarrow>
    search_from old new rounds (Suc e) v (trace_rows old new (Suc e)) = (d, v', trace) \<Longrightarrow>
    0 < d \<and> no_end_before old new d \<and> (\<exists>k. active d k \<and> at_end old new d k) \<and>
      (\<exists>rest. trace = trace_rows old new d @ rest)"
proof (induction rounds arbitrary: e v)
  case 0
  from end_reached [of old new] 0 show ?case
    by (auto simp: no_end_before_def)
next
  case (Suc rounds)
  obtain found v1 where s: "search_depth old new (Suc e) (diagonals (Suc e)) v = (found, v1)"
    by fastforce
  note spec = search_depth_spec [OF Suc.prems(1) assms Suc.prems(2) _ _ s, of "[]", simplified]
  show ?case
  proof (cases found)
    case True
    with spec(1) Suc.prems(1,4) s show ?thesis
      by auto
  next
    case False
    then have ok: "frontier_ok old new (Suc e) v1" "no_end_before old new (Suc (Suc e))"
      using spec(2) by blast+
    have "search_from old new rounds (Suc (Suc e)) v1 (trace_rows old new (Suc (Suc e))) = (d, v', trace)"
      using Suc.prems(4) s False
      by (simp add: trace_rows_Suc [of old new "Suc e"] map_frontier [OF ok(1)])
    from Suc.IH [OF ok(2,1) _ this] Suc.prems(3) show ?thesis
      by simp
  qed
qed

section \<open>Backtracking yields a script\<close>

definition seg :: "'a list \<Rightarrow> int \<Rightarrow> int \<Rightarrow> 'a list" where
  "seg xs i j = slice xs (nat i) (nat j)"

lemma seg_append: "0 \<le> i \<Longrightarrow> i \<le> j \<Longrightarrow> j \<le> k \<Longrightarrow> seg xs i j @ seg xs j k = seg xs i k"
  unfolding seg_def by (rule slice_append_slice) auto

lemma seg_empty [simp]: "seg xs i i = []"
  by (simp add: seg_def)

lemma seg_single: "0 \<le> i \<Longrightarrow> i < int (length xs) \<Longrightarrow> seg xs i (i + 1) = [xs ! nat i]"
  unfolding seg_def using slice_Suc [of "nat i" "nat (i + 1)" xs] by (simp add: nat_add_distrib)

lemma seg_eqI:
  assumes "0 \<le> x" "0 \<le> y" "x + int t \<le> int (length xs)" "y + int t \<le> int (length ys)"
    and "\<And>i. x \<le> i \<Longrightarrow> i < x + int t \<Longrightarrow> xs ! nat i = ys ! nat (i - (x - y))"
  shows "seg xs x (x + int t) = seg ys y (y + int t)"
proof (rule nth_equalityI)
  show "length (seg xs x (x + int t)) = length (seg ys y (y + int t))"
    using assms(1-4) by (simp add: seg_def)
next
  fix i assume "i < length (seg xs x (x + int t))"
  then have i: "i < t" "nat x + i < length xs"
    using assms(1-4) by (auto simp: seg_def)
  have "xs ! nat (x + int i) = ys ! nat (y + int i)"
    using assms(5) [of "x + int i"] i by (simp add: algebra_simps)
  then show "seg xs x (x + int t) ! i = seg ys y (y + int t) ! i"
    using i assms(1-4) by (simp add: seg_def nth_slice nat_add_distrib)
qed

lemma back_equal_steps:
  assumes "lo_x \<le> x" "lo_y \<le> y" "x = lo_x \<or> y = lo_y" "0 \<le> x" "0 \<le> y"
    and "x + int t \<le> int (length old)" "y + int t \<le> int (length new)"
    and "\<And>i. x \<le> i \<Longrightarrow> i < x + int t \<Longrightarrow> old ! nat i = new ! nat (i - (x - y))"
  shows "back_equal old new lo_x lo_y (x + int t) (y + int t) acc
    = (x, y, map equal_edit (seg old x (x + int t)) @ acc)"
  using assms(6-8)
proof (induction t arbitrary: acc)
  case 0
  then show ?case
    using assms(1-3) by (subst back_equal.simps) auto
next
  case (Suc t)
  have last: "old ! nat (x + int t) = new ! nat (y + int t)"
    using Suc.prems(3) [of "x + int t"] by (simp add: algebra_simps)
  have "seg old x (x + int (Suc t)) = seg old x (x + int t) @ [old ! nat (x + int t)]"
    using seg_append [of x "x + int t" "x + int (Suc t)" old] seg_single [of "x + int t" old]
      Suc.prems assms(4) by (simp add: algebra_simps)
  moreover have "back_equal old new lo_x lo_y (x + int t) (y + int t) acc' =
      (x, y, map equal_edit (seg old x (x + int t)) @ acc')" for acc'
    using Suc.IH Suc.prems by simp
  moreover have "lo_x < x + int (Suc t)" "lo_y < y + int (Suc t)"
    using assms(1,2) by simp_all
  ultimately show ?case
    using last by (subst back_equal.simps) (simp add: algebra_simps)
qed

text \<open>A script for the part of the two inputs between two points.\<close>

definition covers :: "'a list \<Rightarrow> 'a list \<Rightarrow> 'a edit list \<Rightarrow> int \<Rightarrow> int \<Rightarrow> int \<Rightarrow> int \<Rightarrow> bool" where
  "covers old new es x0 y0 x y \<longleftrightarrow> 0 \<le> x0 \<and> x0 \<le> x \<and> x \<le> int (length old) \<and> 0 \<le> y0 \<and> y0 \<le> y \<and>
     y \<le> int (length new) \<and> script_for es (seg old x0 x) (seg new y0 y)"

lemma covers_trans:
  "covers old new es x0 y0 x1 y1 \<Longrightarrow> covers old new es' x1 y1 x2 y2 \<Longrightarrow>
    covers old new (es @ es') x0 y0 x2 y2"
  using script_for_append by (fastforce simp: covers_def seg_append dest: script_for_append)

lemma covers_insert:
  "0 \<le> x \<Longrightarrow> x \<le> int (length old) \<Longrightarrow> 0 \<le> y \<Longrightarrow> y < int (length new) \<Longrightarrow>
    covers old new [insert_edit (new ! nat y)] x y x (y + 1)"
  by (simp add: covers_def seg_single script_for_def)

lemma covers_delete:
  "0 \<le> x \<Longrightarrow> x < int (length old) \<Longrightarrow> 0 \<le> y \<Longrightarrow> y \<le> int (length new) \<Longrightarrow>
    covers old new [delete_edit (old ! nat x)] x y (x + 1) y"
  by (simp add: covers_def seg_single script_for_def)

text \<open>A snake walked backwards, and the equal edits it leaves.\<close>

lemma back_equal_snake:
  assumes "(x, y) = snake old new x0 y0" "0 \<le> x0" "0 \<le> y0" "x \<le> int (length old)" "y \<le> int (length new)"
    and "lo_x \<le> x0" "lo_y \<le> y0" "x0 = lo_x \<or> y0 = lo_y"
  shows "\<exists>es. back_equal old new lo_x lo_y x y acc = (x0, y0, es @ acc) \<and> covers old new es x0 y0 x y \<and>
    script_cost es = 0"
proof -
  have x: "x0 \<le> x"
    using snake_ge [of x0 old new y0] assms(1) by (metis fst_conv)
  have y: "y = x - (x0 - y0)"
    using snake_diagonal [of old new x0 y0] assms(1) by (metis fst_conv snd_conv)
  obtain t where t: "x = x0 + int t"
    using x by (metis zle_iff_zadd)
  then have ty: "y = y0 + int t"
    using y by simp
  have m: "old ! nat i = new ! nat (i - (x0 - y0))" if "x0 \<le> i" "i < x0 + int t" for i
    using snake_matches [of x0 i old new y0] that assms(1) t by (metis fst_conv)
  let ?es = "map equal_edit (seg old x0 x)"
  have "back_equal old new lo_x lo_y x y acc = (x0, y0, ?es @ acc)"
    unfolding t ty using assms(2-8) t ty by (intro back_equal_steps m) auto
  moreover have "seg old x0 x = seg new y0 y"
    unfolding t ty using assms(2-5) t ty by (intro seg_eqI m) auto
  then have "covers old new ?es x0 y0 x y"
    using assms(2-5) x ty t by (auto simp: covers_def script_for_def)
  moreover have "script_cost ?es = 0"
    by (simp add: script_cost_def)
  ultimately show ?thesis
    by blast
qed

lemma backtrack_script:
  assumes "\<And>e k. e < d \<Longrightarrow> active e k \<Longrightarrow> compact_trace_get trace e k = nat (furthest old new e k)"
    and "active d k" "x = furthest old new d k" "y = x - k"
    and "x \<le> int (length old)" "y \<le> int (length new)"
  shows "\<exists>es x0. backtrack old new trace d x y acc = (x0, x0, es @ acc) \<and>
    (x0, x0) = snake old new 0 0 \<and> covers old new es x0 x0 x y \<and> script_cost es = d"
  using assms
proof (induction d arbitrary: k x y acc)
  case 0
  then have k: "k = 0" and x: "x = fst (snake old new 0 0)" "y = x"
    by (auto simp: active_def furthest_0)
  then have "(x, x) = snake old new 0 0"
    using snake_diagonal [of old new 0 0] by (simp add: prod_eq_iff)
  moreover have "covers old new [] x x x x"
    using 0 x snake_ge [of 0 old new 0] by (auto simp: covers_def)
  ultimately show ?case
    using x by simp
next
  case (Suc d)
  let ?F = "furthest old new"
  have get: "int (compact_trace_get trace d j) = ?F d j" if "active d j" for j
    using Suc.prems(1) [of d j] furthest_nonneg [OF that, of old new] that by simp
  have pos: "0 \<le> ?F d j \<and> j \<le> ?F d j" if "active d j" for j
    using furthest_nonneg [OF that] .
  have k: "x - y = k"
    using Suc.prems(4) by simp
  from Suc.prems(2) show ?case
  proof (cases rule: furthest_Suc_cases [of d k old new])
    case Down
    let ?px = "?F d (k + 1)"
    have cond: "k = - int (Suc d) \<or> (k \<noteq> int (Suc d) \<and>
        compact_trace_get trace d (k - 1) < compact_trace_get trace d (k + 1))"
    proof (cases "k = - int (Suc d)")
      case False
      then have "active d (k - 1)"
        using Down(1) Suc.prems(2) unfolding active_def by presburger
      then have "int (compact_trace_get trace d (k - 1)) < int (compact_trace_get trace d (k + 1))"
        using Down(3) False get Down(1) by simp
      with False Down(3) show ?thesis
        by simp
    qed simp
    have sn: "(x, y) = snake old new ?px (?px - k)"
      using Down(2) Suc.prems(3,4) snake_diagonal [of old new ?px "?px - k"] by (simp add: prod_eq_iff)
    from back_equal_snake [OF sn, of ?px "?px - (k + 1)"] pos [OF Down(1)] Suc.prems(5,6)
    obtain es1 where es1: "back_equal old new ?px (?px - (k + 1)) x y acc = (?px, ?px - k, es1 @ acc)"
      "covers old new es1 ?px (?px - k) x y" "script_cost es1 = 0"
      by auto
    let ?ins = "insert_edit (new ! nat (?px - (k + 1)))"
    have bnd: "?px \<le> int (length old)" "?px - k \<le> int (length new)"
      using es1(2) by (auto simp: covers_def)
    have ins: "covers old new [?ins] ?px (?px - (k + 1)) ?px (?px - k)"
      using covers_insert [of ?px old "?px - (k + 1)" new] pos [OF Down(1)] bnd by simp
    have "?px - (k + 1) \<le> int (length new)"
      using bnd by simp
    from Suc.IH [OF Suc.prems(1) Down(1) refl refl bnd(1) this, of "?ins # es1 @ acc"]
    obtain es x0 where es: "backtrack old new trace d ?px (?px - (k + 1)) (?ins # es1 @ acc)
        = (x0, x0, es @ ?ins # es1 @ acc)" "(x0, x0) = snake old new 0 0"
      "covers old new es x0 x0 ?px (?px - (k + 1))" "script_cost es = d"
      by auto
    have "backtrack old new trace (Suc d) x y acc = (x0, x0, (es @ [?ins] @ es1) @ acc)"
      using cond es1(1) es(1) get [OF Down(1)] by (simp add: k Let_def diff_diff_eq)
    moreover have "covers old new (es @ [?ins] @ es1) x0 x0 x y"
      using es(3) ins es1(2) by (blast intro: covers_trans)
    ultimately show ?thesis
      using es(2,4) es1(3) by (intro exI [of _ "es @ [?ins] @ es1"] exI [of _ x0]) simp
  next
    case Right
    let ?px = "?F d (k - 1)"
    have cond: "\<not> (k = - int (Suc d) \<or> (k \<noteq> int (Suc d) \<and>
        compact_trace_get trace d (k - 1) < compact_trace_get trace d (k + 1)))"
    proof (cases "k = int (Suc d)")
      case False
      then have "active d (k + 1)"
        using Right(1) Right(3) Suc.prems(2) unfolding active_def by presburger
      then have "\<not> int (compact_trace_get trace d (k - 1)) < int (compact_trace_get trace d (k + 1))"
        using Right(3) False get Right(1) by simp
      with Right(3) show ?thesis
        by simp
    qed (use Right(3) in auto)
    have sn: "(x, y) = snake old new (?px + 1) (?px + 1 - k)"
      using Right(2) Suc.prems(3,4) snake_diagonal [of old new "?px + 1" "?px + 1 - k"]
      by (simp add: prod_eq_iff)
    from back_equal_snake [OF sn, of ?px "?px - (k - 1)"] pos [OF Right(1)] Suc.prems(5,6)
    obtain es1 where es1:
      "back_equal old new ?px (?px - (k - 1)) x y acc = (?px + 1, ?px + 1 - k, es1 @ acc)"
      "covers old new es1 (?px + 1) (?px + 1 - k) x y" "script_cost es1 = 0"
      by auto
    let ?del = "delete_edit (old ! nat ?px)"
    have bnd: "?px + 1 \<le> int (length old)" "?px + 1 - k \<le> int (length new)"
      using es1(2) by (auto simp: covers_def)
    have del: "covers old new [?del] ?px (?px - (k - 1)) (?px + 1) (?px + 1 - k)"
      using covers_delete [of ?px old "?px - (k - 1)" new] pos [OF Right(1)] bnd
      by (simp add: algebra_simps)
    have "?px \<le> int (length old)" "?px - (k - 1) \<le> int (length new)"
      using bnd by simp_all
    from Suc.IH [OF Suc.prems(1) Right(1) refl refl this, of "?del # es1 @ acc"]
    obtain es x0 where es: "backtrack old new trace d ?px (?px - (k - 1)) (?del # es1 @ acc)
        = (x0, x0, es @ ?del # es1 @ acc)" "(x0, x0) = snake old new 0 0"
      "covers old new es x0 x0 ?px (?px - (k - 1))" "script_cost es = d"
      by auto
    have y1: "?px + 1 - k = ?px - (k - 1)"
      by simp
    have pk: "(if k = - int (Suc d) \<or> (k \<noteq> int (Suc d) \<and>
        compact_trace_get trace d (k - 1) < compact_trace_get trace d (k + 1)) then k + 1 else k - 1) = k - 1"
      using cond by (rule if_not_P)
    have "backtrack old new trace (Suc d) x y acc = (x0, x0, (es @ [?del] @ es1) @ acc)"
      unfolding backtrack.simps k Let_def pk get [OF Right(1)] es1(1) y1 using es(1) by simp
    moreover have "covers old new (es @ [?del] @ es1) x0 x0 x y"
      using es(3) del es1(2) by (blast intro: covers_trans)
    ultimately show ?thesis
      using es(2,4) es1(3) by (intro exI [of _ "es @ [?del] @ es1"] exI [of _ x0]) simp
  qed
qed

section \<open>The algorithm returns a script\<close>

lemma backtrack_rest_start:
  "(x, y) = snake old new 0 0 \<Longrightarrow> \<exists>es. backtrack_rest old new (x, y, acc) = es @ acc \<and>
    covers old new es 0 0 x y \<and> script_cost es = 0"
proof -
  assume sn: "(x, y) = snake old new 0 0"
  then have "x \<le> int (length old)" "y \<le> int (length new)"
    using snake_bound [of old new 0 0] snake_diagonal [of old new 0 0] by (auto simp: prod_eq_iff)
  from back_equal_snake [OF sn _ _ this, of 0 0] obtain es where
    "back_equal old new 0 0 x y acc = (0, 0, es @ acc)" "covers old new es 0 0 x y" "script_cost es = 0"
    by auto
  then show ?thesis
    by (auto simp: backtrack_rest_def)
qed

lemma covers_all: "covers old new es 0 0 (int (length old)) (int (length new)) \<longleftrightarrow> script_for es old new"
  by (auto simp: covers_def seg_def)

text \<open>Where the guards let the search run, its result is a script that costs the first depth reaching the end.\<close>

lemma start_frontier_0:
  "length old + length new \<le> u32_max \<Longrightarrow> int (start_frontier old new 0) = furthest old new 0 0"
  using snake_ge [of 0 old new 0] snake_bound [of old new 0 0]
    as_u32_id [of "fst (snake old new 0 0)"]
  by (auto simp: start_frontier_def furthest_0)

lemma myers_edits_search:
  assumes "old \<noteq> []" "new \<noteq> []" "length old + length new \<le> u32_max"
    and "myers_search old new = (d, v, trace)"
  shows "myers_edits old new = (if d = 0 \<and> length old = length new \<and> v 0 = length old
    then map equal_edit old
    else backtrack_rest old new (backtrack old new trace d (int (length old)) (int (length new)) []))"
  using assms by (simp add: myers_edits_def usize_max_def isize_max_def u32_max_def)

lemma script_from_depth:
  assumes "no_end_before old new d" "active d k" "at_end old new d k"
    and look: "\<And>e j. e < d \<Longrightarrow> active e j \<Longrightarrow> compact_trace_get trace e j = nat (furthest old new e j)"
  defines "es \<equiv> backtrack_rest old new
    (backtrack old new trace d (int (length old)) (int (length new)) [])"
  shows "script_for es old new \<and> script_cost es = d"
proof -
  have end_eq: "int (length old) = furthest old new d k" "int (length new) = int (length old) - k"
    using first_end_exact [OF assms(1-3)] by simp_all
  from backtrack_script [OF look assms(2) end_eq order_refl order_refl, of "[]"]
  obtain es1 x0 where es1:
    "backtrack old new trace d (int (length old)) (int (length new)) [] = (x0, x0, es1)"
    "(x0, x0) = snake old new 0 0" "covers old new es1 x0 x0 (int (length old)) (int (length new))"
    "script_cost es1 = d"
    by auto
  from backtrack_rest_start [OF es1(2), of es1] obtain es0 where
    es0: "es = es0 @ es1" "covers old new es0 0 0 x0 x0" "script_cost es0 = 0"
    unfolding es_def es1(1) by blast
  show ?thesis
    using covers_trans [OF es0(2) es1(3)] es0 es1(4) by (simp add: covers_all)
qed

lemma at_end_start:
  assumes "at_end old new 0 0"
  shows "furthest old new 0 0 = int (length old)" "new = old"
proof -
  have end0: "furthest old new 0 0 = int (length old)" "length old = length new"
    using first_end_exact [of old new 0 0] assms by (simp_all add: no_end_before_def active_def)
  then show "furthest old new 0 0 = int (length old)"
    by simp
  have "old ! i = new ! i" if "i < length old" for i
    using snake_matches [of 0 "int i" old new 0] that end0(1) by (simp add: furthest_0)
  then show "new = old"
    using end0(2) by (simp add: list_eq_iff_nth_eq)
qed

lemma at_end_start_iff:
  "length old + length new \<le> u32_max \<Longrightarrow>
    at_end old new 0 0 \<longleftrightarrow> length old \<le> start_frontier old new 0 \<and> length new \<le> start_frontier old new 0"
  using start_frontier_0 [of old new] by (simp add: at_end_def) linarith

lemma myers_search_start:
  assumes "length old + length new \<le> u32_max" "at_end old new 0 0"
  shows "myers_search old new = (0, start_frontier old new, [start_frontier old new 0])"
  using at_end_start_iff [OF assms(1)] assms(2) by (simp add: myers_search_def Let_def)

lemma myers_search_deep:
  assumes "length old + length new \<le> u32_max" "\<not> at_end old new 0 0" "myers_search old new = (d, v, trace)"
  obtains k rest where "0 < d" "no_end_before old new d" "active d k" "at_end old new d k"
    "trace = trace_rows old new d @ rest"
proof -
  have ok0: "frontier_ok old new 0 (start_frontier old new)"
    unfolding frontier_ok_def active_def
  proof (intro allI impI)
    fix k :: int
    assume "- int 0 \<le> k \<and> k \<le> int 0 \<and> even (k + int 0)"
    then have "k = 0"
      by simp
    then show "start_frontier old new k = nat (furthest old new 0 k)"
      using start_frontier_0 [OF assms(1)] by simp
  qed
  have "start_frontier old new 0 = nat (furthest old new 0 0)"
    using start_frontier_0 [OF assms(1)] by simp
  then have row0: "[start_frontier old new 0] = trace_rows old new (Suc 0)"
    by (simp add: trace_rows_def trace_row_def diagonals_def)
  have none: "no_end_before old new (Suc 0)"
    unfolding no_end_before_def active_def
  proof (intro allI impI)
    fix e k
    assume "e < Suc 0" "- int e \<le> k \<and> k \<le> int e \<and> even (k + int e)"
    then have "e = 0" "k = 0"
      by simp_all
    then show "\<not> at_end old new e k"
      using assms(2) by simp
  qed
  have "search_from old new (length old + length new) (Suc 0) (start_frontier old new)
      (trace_rows old new (Suc 0)) = (d, v, trace)"
    using assms(3) at_end_start_iff [OF assms(1)] assms(2)
    unfolding myers_search_def Let_def row0 One_nat_def by (simp only: if_False simp_thms)
  from search_from_spec [OF assms(1) none ok0 _ this] that show ?thesis
    by auto
qed

lemma myers_search_result:
  assumes "old \<noteq> []" "new \<noteq> []" "length old + length new \<le> u32_max"
  obtains d where "script_for (myers_edits old new) old new" "script_cost (myers_edits old new) = d"
    "no_end_before old new d"
proof (cases "at_end old new 0 0")
  case True
  have "int (start_frontier old new 0) = int (length old)"
    using start_frontier_0 [OF assms(3)] at_end_start(1) [OF True] by simp
  then have "myers_edits old new = map equal_edit old"
    using myers_edits_search [OF assms myers_search_start [OF assms(3) True]] at_end_start(2) [OF True]
    by simp
  then have "script_for (myers_edits old new) old new" "script_cost (myers_edits old new) = 0"
    using at_end_start(2) [OF True] by (simp_all add: script_cost_def)
  then show ?thesis
    by (intro that [of 0]) (simp_all add: no_end_before_def)
next
  case False
  obtain d v trace where s: "myers_search old new = (d, v, trace)"
    by (metis prod_cases3)
  from myers_search_deep [OF assms(3) False s] obtain k rest where d: "0 < d" "no_end_before old new d"
    "active d k" "at_end old new d k" "trace = trace_rows old new d @ rest"
    by blast
  have look: "compact_trace_get trace e j = nat (furthest old new e j)" if "e < d" "active e j" for e j
    unfolding d(5) using that by (rule trace_lookup)
  have "myers_edits old new = backtrack_rest old new
      (backtrack old new trace d (int (length old)) (int (length new)) [])"
    using myers_edits_search [OF assms s] d(1) by simp
  with script_from_depth [OF d(2-4) look] that [of d] d(2) show ?thesis
    by simp
qed

lemma myers_script: "script_for (myers_edits old new) old new"
proof (cases "old = [] \<or> new = [] \<or> length old + length new > u32_max")
  case True
  then have "myers_edits old new = myers_fallback_edits old new"
    by (auto simp: myers_edits_def)
  then show ?thesis
    by (simp add: myers_fallback_script)
next
  case False
  then show ?thesis
    by (meson myers_search_result not_le_imp_less)
qed

interpretation myers: diff_algorithm myers_edits
  by unfold_locales (rule myers_script)

section \<open>No script is cheaper\<close>

lemma furthest_stops:
  assumes "active d k"
  shows "\<not> (furthest old new d k < int (length old) \<and> furthest old new d k - k < int (length new) \<and>
    old ! nat (furthest old new d k) = new ! nat (furthest old new d k - k))"
proof -
  have *: "\<not> (x < int (length old) \<and> x - k < int (length new) \<and> old ! nat x = new ! nat (x - k))"
    if "x = fst (snake old new x0 (x0 - k))" for x x0
    using snake_stops [of x "x - k" old new x0 "x0 - k"] snake_diagonal [of old new x0 "x0 - k"] that
    by (auto simp: prod_eq_iff)
  show ?thesis
  proof (cases d)
    case 0
    then show ?thesis
      using assms * [of "furthest old new 0 0" 0] by (auto simp: active_def furthest_0)
  next
    case (Suc e)
    with assms have "active (Suc e) k"
      by simp
    then show ?thesis
      by (cases rule: furthest_Suc_cases [of e k old new]) (use * Suc in metis)+
  qed
qed

lemma take_snoc:
  assumes "take a xs = ys @ [x]" "a \<le> length xs"
  obtains b where "a = Suc b" "take b xs = ys" "b < length xs" "xs ! b = x"
proof -
  have "length (take a xs) = Suc (length ys)"
    using assms(1) by simp
  then have a: "a = Suc (length ys)"
    using assms(2) by simp
  then have "take (length ys) xs @ [xs ! length ys] = ys @ [x]"
    using assms by (simp add: take_Suc_conv_app_nth)
  with a assms(2) that show ?thesis
    by simp
qed

lemma script_reach:
  "script_for es (take a old) (take b new) \<Longrightarrow> a \<le> length old \<Longrightarrow> b \<le> length new \<Longrightarrow>
    active (script_cost es) (int a - int b) \<and> int a \<le> furthest old new (script_cost es) (int a - int b)"
proof (induction es arbitrary: a b rule: rev_induct)
  case Nil
  then have "a = 0" "b = 0"
    by auto
  then show ?case
    using snake_ge [of 0 old new 0] by (simp add: active_def furthest_0)
next
  case (snoc e es)
  then have ok: "edit_ok e" and sides: "old_side es @ old_side [e] = take a old"
    "new_side es @ new_side [e] = take b new" "\<forall>e\<in>set es. edit_ok e"
    by (simp_all add: script_for_def flip: append_assoc)
  from ok show ?case
  proof (cases rule: edit_ok_cases)
    case (Equal x)
    then have "take a old = old_side es @ [x]" "take b new = new_side es @ [x]"
      using sides by simp_all
    then obtain a' b' where a: "a = Suc a'" "take a' old = old_side es" "a' < length old" "old ! a' = x"
      and b: "b = Suc b'" "take b' new = new_side es" "b' < length new" "new ! b' = x"
      using snoc.prems(2,3) by (metis take_snoc)
    have "script_for es (take a' old) (take b' new)"
      using sides(3) a(2) b(2) by (simp add: script_for_def)
    from snoc.IH [OF this] a(3) b(3)
    have IH: "active (script_cost es) (int a' - int b')"
      "int a' \<le> furthest old new (script_cost es) (int a' - int b')"
      by simp_all
    have "furthest old new (script_cost es) (int a' - int b') \<noteq> int a'"
      using furthest_stops [OF IH(1), of old new] a(3,4) b(3,4) by auto
    with IH a(1) b(1) Equal show ?thesis
      by simp
  next
    case (Insert x)
    then have "take a old = old_side es" "take b new = new_side es @ [x]"
      using sides by simp_all
    then obtain b' where b: "b = Suc b'" "take b' new = new_side es" "b' < length new"
      using snoc.prems(3) by (metis take_snoc)
    have "script_for es (take a old) (take b' new)"
      using sides(3) \<open>take a old = old_side es\<close> b(2) by (simp add: script_for_def)
    from snoc.IH [OF this] snoc.prems(2) b(3)
    have IH: "active (script_cost es) (int a - int b')"
      "int a \<le> furthest old new (script_cost es) (int a - int b')"
      by simp_all
    have "active (Suc (script_cost es)) (int a - int b)"
      using IH(1) b(1) unfolding active_def by presburger
    moreover have "furthest old new (script_cost es) (int a - int b')
        \<le> furthest old new (Suc (script_cost es)) (int a - int b)"
      using furthest_down [OF IH(1), of old new] b(1) by (simp add: algebra_simps)
    ultimately show ?thesis
      using IH(2) Insert by simp
  next
    case (Delete x)
    then have "take a old = old_side es @ [x]" "take b new = new_side es"
      using sides by simp_all
    then obtain a' where a: "a = Suc a'" "take a' old = old_side es" "a' < length old"
      using snoc.prems(2) by (metis take_snoc)
    have "script_for es (take a' old) (take b new)"
      using sides(3) \<open>take b new = new_side es\<close> a(2) by (simp add: script_for_def)
    from snoc.IH [OF this] snoc.prems(3) a(3)
    have IH: "active (script_cost es) (int a' - int b)"
      "int a' \<le> furthest old new (script_cost es) (int a' - int b)"
      by simp_all
    have "active (Suc (script_cost es)) (int a - int b)"
      using IH(1) a(1) unfolding active_def by presburger
    moreover have "furthest old new (script_cost es) (int a' - int b) + 1
        \<le> furthest old new (Suc (script_cost es)) (int a - int b)"
      using furthest_right [OF IH(1), of old new] a(1) by (simp add: algebra_simps)
    ultimately show ?thesis
      using IH(2) Delete a(1) by simp
  qed
qed

lemma script_cost_ge:
  assumes "no_end_before old new d" "script_for es old new"
  shows "d \<le> script_cost es"
proof (rule ccontr)
  assume "\<not> ?thesis"
  moreover have "active (script_cost es) (int (length old) - int (length new))"
    and reach: "int (length old) \<le> furthest old new (script_cost es) (int (length old) - int (length new))"
    using script_reach [of es "length old" old "length new" new] assms(2) by simp_all
  moreover have "at_end old new (script_cost es) (int (length old) - int (length new))"
    using reach by (simp add: at_end_def)
  ultimately show False
    using assms(1) by (meson no_end_before_def not_le_imp_less)
qed

lemma one_side_cost: "script_for es old new \<Longrightarrow> old = [] \<or> new = [] \<Longrightarrow> script_cost es = length old + length new"
proof (induction es arbitrary: old new)
  case (Cons e es)
  then have ok: "edit_ok e" and es: "script_for es (old_side es) (new_side es)"
    by (simp_all add: script_for_def)
  from ok show ?case
    by (cases rule: edit_ok_cases) (use Cons.IH [OF es] Cons.prems in \<open>auto simp: script_for_def\<close>)
qed simp

lemma myers_least_cost:
  assumes "length old + length new \<le> u32_max" "script_for es old new"
  shows "script_cost (myers_edits old new) \<le> script_cost es"
proof (cases "old = [] \<or> new = []")
  case True
  then show ?thesis
    using one_side_cost [OF myers_script True] one_side_cost [OF assms(2) True] by simp
next
  case False
  then show ?thesis
    using myers_search_result [OF _ _ assms(1)] script_cost_ge [OF _ assms(2)] by metis
qed

section \<open>Properties\<close>

text \<open>C39: when the two inputs have at most \<open>u32::MAX\<close> lines together, the search returns a script that
deletes and inserts no more lines than any other script that turns the old lines into the new ones.\<close>

theorem myers_edits_optimal:
  assumes "length old + length new \<le> u32_max" "script_for es old new"
  shows "script_for (myers_edits old new) old new \<and> script_cost (myers_edits old new) \<le> script_cost es"
  using myers_script myers_least_cost [OF assms] by blast

lemma myers_edits_optimal_witness:
  "script_for (myers_edits [1, 2, 3 :: nat] [2, 3, 4]) [1, 2, 3] [2, 3, 4] \<and>
    script_cost (myers_edits [1, 2, 3 :: nat] [2, 3, 4]) \<le> 2"
  using myers_edits_optimal [of "[1, 2, 3 :: nat]" "[2, 3, 4]"
      "[delete_edit 1, equal_edit 2, equal_edit 3, insert_edit 4]"]
  by (simp add: u32_max_def script_for_def script_cost_def old_side_def new_side_def edit_ok_def)

text \<open>Applying the hunks of the computed script to the old lines gives the new lines.\<close>

lemma myers_hunks_roundtrip:
  "reconstruct_side_with old (0, length old) (edits_to_hunks_with (myers_edits old new)) = new"
  by (rule myers.hunks_roundtrip)

end
