(* ===== verification/Patience.thy ===== *)
theory Patience
  imports Myers_Correct
begin

text \<open>
  The histogram (patience) algorithm of \<open>file_diff.rs\<close>: lines unique on both sides are anchors, the
  longest increasing subsequence of the anchors is kept, and the gaps between them are compared
  recursively, with the shortest-edit-script search or the positional script where no anchor is
  found. The theory proves that the kept subsequence is a longest one, and that the result is a
  script for its inputs (it interprets the contract of a diff algorithm).
\<close>

section \<open>The longest increasing subsequence\<close>

text \<open>\<open>partition_point\<close> is read as the length of the longest prefix below the key, which is what it returns on
  a partitioned slice; \<open>tails\<close> is sorted by its keys, so it is one.\<close>

definition lis_step ::
  "(nat \<times> nat) list \<Rightarrow> nat \<Rightarrow> nat list \<times> nat option list \<Rightarrow> nat list \<times> nat option list" where
  "lis_step pairs i = (\<lambda>(tails, prev).
     let new_idx = snd (pairs ! i);
         pos = length (takeWhile (\<lambda>t. snd (pairs ! t) < new_idx) tails);
         tails = (if pos = length tails then tails @ [i] else tails[pos := i])
     in (tails, if 0 < pos then prev[i := Some (tails ! (pos - 1))] else prev))"

definition lis_loop :: "(nat \<times> nat) list \<Rightarrow> nat \<Rightarrow> nat list \<times> nat option list" where
  "lis_loop pairs n = fold (lis_step pairs) [0..<n] ([], replicate (length pairs) None)"

text \<open>The walk along \<open>prev\<close>. Every link leads to a smaller index, so as much fuel as there are pairs is enough.\<close>

primrec lis_chain :: "(nat \<times> nat) list \<Rightarrow> nat option list \<Rightarrow> nat \<Rightarrow> nat \<Rightarrow> (nat \<times> nat) list" where
  "lis_chain pairs prev 0 idx = []"
| "lis_chain pairs prev (Suc fuel) idx =
     pairs ! idx # (case prev ! idx of Some p \<Rightarrow> lis_chain pairs prev fuel p | None \<Rightarrow> [])"

definition patience_lis :: "(nat \<times> nat) list \<Rightarrow> (nat \<times> nat) list" where
  "patience_lis pairs =
     (if pairs = [] then []
      else let (tails, prev) = lis_loop pairs (length pairs)
           in rev (lis_chain pairs prev (length pairs) (last tails)))"

section \<open>Anchors\<close>

text \<open>Count and last position of every line of \<open>lines[start..end]\<close>.\<close>

definition line_info :: "'a list \<Rightarrow> nat \<Rightarrow> nat \<Rightarrow> 'a \<rightharpoonup> nat \<times> nat" where
  "line_info ls start stop = fold (\<lambda>i info. info(ls ! i \<mapsto>
     (case info (ls ! i) of None \<Rightarrow> (1, i) | Some (n, _) \<Rightarrow> (Suc n, i)))) [start..<stop] Map.empty"

text \<open>
  The code walks the hash map of old lines and then sorts by the old index. A line with count 1 has
  one index, so walking the indices in order gives the sorted list.
\<close>

definition unique_pair :: "(nat \<times> nat) option \<Rightarrow> (nat \<times> nat) option \<Rightarrow> (nat \<times> nat) option" where
  "unique_pair old_entry new_entry =
     (case old_entry of None \<Rightarrow> None
      | Some (old_count, old_idx) \<Rightarrow>
          if old_count \<noteq> 1 then None
          else (case new_entry of None \<Rightarrow> None
            | Some (new_count, new_idx) \<Rightarrow> if new_count = 1 then Some (old_idx, new_idx) else None))"

definition unique_pairs :: "'a list \<Rightarrow> 'a list \<Rightarrow> nat \<Rightarrow> nat \<Rightarrow> nat \<Rightarrow> nat \<Rightarrow> (nat \<times> nat) list" where
  "unique_pairs old new old_start old_end new_start new_end =
     (let old_info = line_info old old_start old_end;
          new_info = line_info new new_start new_end
      in filter_map (\<lambda>i. unique_pair (old_info (old ! i)) (new_info (old ! i))) [old_start..<old_end])"

definition find_patience_anchors ::
  "'a list \<Rightarrow> 'a list \<Rightarrow> nat \<Rightarrow> nat \<Rightarrow> nat \<Rightarrow> nat \<Rightarrow> (nat \<times> nat) list" where
  "find_patience_anchors old new old_start old_end new_start new_end =
     patience_lis (unique_pairs old new old_start old_end new_start new_end)"

section \<open>The recursion\<close>

definition patience_max_depth :: nat where "patience_max_depth = 32"
definition patience_positional_fallback_line_threshold :: nat where
  "patience_positional_fallback_line_threshold = 2048"

definition should_use_patience_positional_fallback :: "'a list \<Rightarrow> 'a list \<Rightarrow> bool" where
  "should_use_patience_positional_fallback old new \<longleftrightarrow>
     length old = length new \<and>
     patience_positional_fallback_line_threshold \<le> sat_add (length old) (length new)"

text \<open>The gaps between the anchors and the one after the last; \<open>rec\<close> compares one gap.\<close>

fun patience_gaps ::
  "(nat \<Rightarrow> nat \<Rightarrow> nat \<Rightarrow> nat \<Rightarrow> 'a edit list) \<Rightarrow> 'a list \<Rightarrow> 'a list \<Rightarrow> nat \<Rightarrow> nat \<Rightarrow> nat \<Rightarrow> nat \<Rightarrow>
    (nat \<times> nat) list \<Rightarrow> 'a edit list" where
  "patience_gaps rec old new old_end new_end oi ni [] =
     (if oi < old_end \<or> ni < new_end then rec oi old_end ni new_end else [])"
| "patience_gaps rec old new old_end new_end oi ni ((old_idx, new_idx) # anchors) =
     (if oi < old_idx \<or> ni < new_idx then rec oi old_idx ni new_idx else [])
     @ \<lparr>ed_kind = Equal, ed_old = Some (old ! old_idx), ed_new = Some (new ! new_idx)\<rparr>
     # patience_gaps rec old new old_end new_end (Suc old_idx) (Suc new_idx) anchors"

text \<open>\<open>left\<close> is \<open>PATIENCE_MAX_DEPTH - depth\<close>.\<close>

primrec patience_recurse ::
  "'a list \<Rightarrow> 'a list \<Rightarrow> nat \<Rightarrow> nat \<Rightarrow> nat \<Rightarrow> nat \<Rightarrow> nat \<Rightarrow> 'a edit list" where
  "patience_recurse old new 0 = (\<lambda>old_start old_end new_start new_end.
     myers_edits (slice old old_start old_end) (slice new new_start new_end))"
| "patience_recurse old new (Suc left) = (\<lambda>old_start old_end new_start new_end.
     let olds = slice old old_start old_end;
         news = slice new new_start new_end;
         p = common_prefix_len olds news;
         s = common_suffix_len p olds news;
         old_start' = old_start + p;
         old_end' = old_end - s;
         new_start' = new_start + p;
         new_end' = new_end - s
     in map equal_edit (take p olds)
        @ (if old_start' = old_end' \<and> new_start' = new_end' then []
           else if old_start' = old_end' then map insert_edit (slice new new_start' new_end')
           else if new_start' = new_end' then map delete_edit (slice old old_start' old_end')
           else
             let anchors = find_patience_anchors old new old_start' old_end' new_start' new_end'
             in if anchors = [] then
                  (let old_inner = slice old old_start' old_end';
                       new_inner = slice new new_start' new_end'
                   in if should_use_patience_positional_fallback old_inner new_inner
                      then positional_fallback_edits old_inner new_inner
                      else myers_edits old_inner new_inner)
                else patience_gaps (patience_recurse old new left) old new old_end' new_end'
                       old_start' new_start' anchors)
        @ map equal_edit (drop (length olds - s) olds))"

definition histogram_edits :: "'a list \<Rightarrow> 'a list \<Rightarrow> 'a edit list" where
  "histogram_edits old new = patience_recurse old new patience_max_depth 0 (length old) 0 (length new)"

section \<open>The subsequence kept is increasing and longest\<close>

abbreviation increasing :: "(nat \<times> nat) list \<Rightarrow> bool" where
  "increasing ys \<equiv> sorted_wrt (\<lambda>a b. snd a < snd b) ys"

text \<open>The chain from \<open>j\<close> has \<open>n\<close> elements.\<close>

primrec chain_of :: "nat option list \<Rightarrow> nat \<Rightarrow> nat \<Rightarrow> bool" where
  "chain_of prev 0 j \<longleftrightarrow> False"
| "chain_of prev (Suc n) j \<longleftrightarrow>
     (if n = 0 then prev ! j = None else \<exists>p. prev ! j = Some p \<and> chain_of prev n p)"

definition links_ok :: "(nat \<times> nat) list \<Rightarrow> nat \<Rightarrow> nat option list \<Rightarrow> bool" where
  "links_ok pairs i prev \<longleftrightarrow>
     (\<forall>j<i. \<forall>p. prev ! j = Some p \<longrightarrow> p < j \<and> snd (pairs ! p) < snd (pairs ! j))"

lemma chain_of_cong:
  "links_ok pairs i prev \<Longrightarrow> j < i \<Longrightarrow> chain_of (prev[i := x]) n j = chain_of prev n j"
proof (induction n arbitrary: j)
  case (Suc n)
  then have "(prev[i := x]) ! j = prev ! j"
    by simp
  moreover have "chain_of (prev[i := x]) n p = chain_of prev n p" if "prev ! j = Some p" for p
    using Suc that by (fastforce simp: links_ok_def intro: less_trans)
  ultimately show ?case
    by auto
qed simp

definition lis_inv :: "(nat \<times> nat) list \<Rightarrow> nat \<Rightarrow> nat list \<times> nat option list \<Rightarrow> bool" where
  "lis_inv pairs i = (\<lambda>(tails, prev).
     length prev = length pairs \<and> links_ok pairs i prev \<and>
     (\<forall>j. i \<le> j \<and> j < length pairs \<longrightarrow> prev ! j = None) \<and>
     (\<forall>t\<in>set tails. t < i) \<and>
     sorted_wrt (\<lambda>s t. snd (pairs ! s) < snd (pairs ! t)) tails \<and>
     (\<forall>k<length tails. chain_of prev (Suc k) (tails ! k)) \<and>
     (\<forall>ys. ys \<noteq> [] \<longrightarrow> subseq ys (take i pairs) \<longrightarrow> increasing ys \<longrightarrow>
        length ys \<le> length tails \<and>
        snd (pairs ! (tails ! (length ys - 1))) \<le> snd (last ys)))"

lemma lis_pos:
  fixes v :: "nat \<Rightarrow> nat" and x :: nat
  assumes "sorted_wrt (\<lambda>s t. v s < v t) tails"
  defines "pos \<equiv> length (takeWhile (\<lambda>t. v t < x) tails)"
  shows "pos \<le> length tails" and "k < pos \<Longrightarrow> v (tails ! k) < x"
    and "pos \<le> k \<Longrightarrow> k < length tails \<Longrightarrow> x \<le> v (tails ! k)"
proof -
  show "pos \<le> length tails"
    unfolding pos_def by (rule length_takeWhile_le)
  show "v (tails ! k) < x" if "k < pos"
    using nth_mem [of k "takeWhile (\<lambda>t. v t < x) tails"] that
    by (auto simp: pos_def takeWhile_nth dest: set_takeWhileD)
  show "x \<le> v (tails ! k)" if "pos \<le> k" "k < length tails"
  proof -
    have "\<not> v (tails ! pos) < x"
      using that nth_length_takeWhile [of "\<lambda>t. v t < x" tails] by (simp add: pos_def)
    moreover have "v (tails ! pos) \<le> v (tails ! k)"
      using sorted_wrt_nth_less [OF assms(1), of pos k] that by (cases "pos = k") auto
    ultimately show ?thesis
      by simp
  qed
qed


lemma sorted_wrt_list_update:
  assumes "sorted_wrt (\<lambda>s t. v s < v t) tails" "pos < length tails"
    and "\<And>k. k < pos \<Longrightarrow> v (tails ! k) < v i" "v i \<le> v (tails ! pos)"
  shows "sorted_wrt (\<lambda>s t. v s < (v t :: nat)) (tails[pos := i])"
  unfolding sorted_wrt_iff_nth_less
proof (intro allI impI)
  fix a b
  assume "a < b" "b < length (tails[pos := i])"
  moreover from this have "v (tails ! a) < v (tails ! b)"
    using sorted_wrt_nth_less [OF assms(1)] by simp
  moreover have "v (tails ! pos) < v (tails ! b)" if "pos < b" "b < length tails"
    using sorted_wrt_nth_less [OF assms(1)] that by simp
  ultimately show "v (tails[pos := i] ! a) < v (tails[pos := i] ! b)"
    using assms(2-4) by (cases "a = pos"; cases "b = pos") (auto intro: le_less_trans)
qed

lemma lis_inv_step:
  assumes inv: "lis_inv pairs i (tails, prev)" and i: "i < length pairs"
  shows "lis_inv pairs (Suc i) (lis_step pairs i (tails, prev))"
proof -
  let ?v = "\<lambda>t. snd (pairs ! t)"
  define pos where "pos = length (takeWhile (\<lambda>t. ?v t < ?v i) tails)"
  define tails' where "tails' = (if pos = length tails then tails @ [i] else tails[pos := i])"
  define prev' where "prev' = (if 0 < pos then prev[i := Some (tails' ! (pos - 1))] else prev)"
  have step: "lis_step pairs i (tails, prev) = (tails', prev')"
    by (simp add: lis_step_def pos_def tails'_def prev'_def Let_def)
  have inv: "length prev = length pairs" "links_ok pairs i prev"
    "\<And>j. i \<le> j \<Longrightarrow> j < length pairs \<Longrightarrow> prev ! j = None" "\<And>t. t \<in> set tails \<Longrightarrow> t < i"
    and sorted: "sorted_wrt (\<lambda>s t. ?v s < ?v t) tails"
    and chain: "\<And>k. k < length tails \<Longrightarrow> chain_of prev (Suc k) (tails ! k)"
    and best: "\<And>ys. ys \<noteq> [] \<Longrightarrow> subseq ys (take i pairs) \<Longrightarrow> increasing ys \<Longrightarrow>
      length ys \<le> length tails \<and> ?v (tails ! (length ys - 1)) \<le> snd (last ys)"
    using inv unfolding lis_inv_def by auto
  note pos = lis_pos [OF sorted, where x = "?v i", folded pos_def]
  have t_nth: "tails' ! k = (if k = pos then i else tails ! k)" if "k < length tails'" for k
    using that pos(1) by (auto simp: tails'_def nth_append)
  have t_len: "length tails \<le> length tails'" "pos < length tails'"
    using pos(1) by (auto simp: tails'_def)
  have in_len: "k < length tails" if "k < length tails'" "k \<noteq> pos" for k
    using that by (auto simp: tails'_def split: if_splits)
  have links: "links_ok pairs (Suc i) prev'"
  proof -
    have "tails' ! (pos - 1) = tails ! (pos - 1)" "tails ! (pos - 1) \<in> set tails" if "0 < pos"
      using that pos(1) t_nth [of "pos - 1"] t_len by auto
    then have "tails' ! (pos - 1) < i \<and> ?v (tails' ! (pos - 1)) < ?v i" if "0 < pos"
      using that inv(4) pos(2) [of "pos - 1"] by simp
    then show ?thesis
      using inv(1-3) i by (auto simp: links_ok_def prev'_def nth_list_update less_Suc_eq)
  qed
  have chain': "chain_of prev' (Suc k) (tails' ! k)" if k: "k < length tails'" for k
  proof -
    have old: "chain_of prev' n j \<longleftrightarrow> chain_of prev n j" if "j < i" for n j
      using chain_of_cong [OF inv(2) that] by (simp add: prev'_def)
    show ?thesis
    proof (cases "k = pos")
      case False
      then have "k < length tails"
        using in_len k by blast
      moreover from this have "tails ! k < i"
        using inv(4) nth_mem by blast
      ultimately show ?thesis
        using chain old t_nth [OF k] False by (simp del: chain_of.simps)
    next
      case True
      show ?thesis
      proof (cases pos)
        case 0
        then show ?thesis
          using True t_nth [OF k] inv(3) i by (simp add: prev'_def)
      next
        case (Suc q)
        then have q: "q < length tails" "tails' ! q = tails ! q" "q < length tails'"
          using pos(1) t_nth [of q] t_len by auto
        then have "tails ! q < i"
          using inv(4) nth_mem by blast
        then have "chain_of prev' (Suc q) (tails ! q)"
          using chain [OF q(1)] old by blast
        moreover have "prev' ! i = Some (tails ! q)"
          using Suc q(2) inv(1) i by (simp add: prev'_def)
        ultimately show ?thesis
          using True Suc t_nth [OF k] by simp
      qed
    qed
  qed
  have best': "length ys \<le> length tails' \<and> ?v (tails' ! (length ys - 1)) \<le> snd (last ys)"
    if ys: "ys \<noteq> []" "subseq ys (take (Suc i) pairs)" "increasing ys" for ys
  proof -
    obtain zs ws where split: "ys = zs @ ws" "subseq zs (take i pairs)" "subseq ws [pairs ! i]"
      using ys(2) i by (auto simp: take_Suc_conv_app_nth elim: subseq_appendE)
    have mono: "?v (tails' ! k) \<le> ?v (tails ! k)" if "k < length tails" for k
      using that t_nth [of k] t_len pos(3) [of k] by auto
    have "ws = [] \<or> ws = [pairs ! i]"
      using split(3) by (cases ws) (auto split: if_splits)
    then show ?thesis
    proof
      assume "ws = []"
      then have *: "length ys \<le> length tails" "?v (tails ! (length ys - 1)) \<le> snd (last ys)"
        using best [of ys] split ys by simp_all
      moreover have "?v (tails' ! (length ys - 1)) \<le> ?v (tails ! (length ys - 1))"
        using mono [of "length ys - 1"] *(1) ys(1) by (cases ys) auto
      ultimately show ?thesis
        using t_len by simp
    next
      assume ws: "ws = [pairs ! i]"
      have "length zs \<le> pos"
      proof (cases "zs = []")
        case False
        have "increasing zs" "snd (last zs) < ?v i"
          using ys(3) False unfolding split(1) ws by (auto simp: sorted_wrt_append)
        with best [OF False split(2)] have "length zs \<le> length tails" "?v (tails ! (length zs - 1)) < ?v i"
          by auto
        then show ?thesis
          using pos(3) [of "length zs - 1"] False by (cases zs) (simp, fastforce simp: not_le)
      qed simp
      moreover have "?v (tails' ! length zs) \<le> ?v i"
      proof (cases "length zs = pos")
        case True
        then show ?thesis
          using t_nth t_len by simp
      next
        case False
        then have "length zs < pos"
          using calculation by simp
        then show ?thesis
          using pos(1) pos(2) [of "length zs"] t_nth [of "length zs"] t_len by simp
      qed
      ultimately show ?thesis
        using t_len split(1) ws by simp
    qed
  qed
  have "sorted_wrt (\<lambda>s t. ?v s < ?v t) tails'"
  proof (cases "pos = length tails")
    case True
    then have "\<forall>t\<in>set tails. ?v t < ?v i"
      using pos(2) by (metis in_set_conv_nth)
    then show ?thesis
      using True sorted by (simp add: tails'_def sorted_wrt_append)
  next
    case False
    then show ?thesis
      using sorted_wrt_list_update [OF sorted] pos by (simp add: tails'_def)
  qed
  moreover have "t < Suc i" if "t \<in> set tails'" for t
  proof -
    have "t \<in> set tails \<or> t = i"
      using that set_update_subset_insert [of tails pos i] by (auto simp: tails'_def split: if_splits)
    then show ?thesis
      using inv(4) less_SucI by blast
  qed
  moreover have "prev' ! j = None" if "Suc i \<le> j" "j < length pairs" for j
    using inv(3) that by (simp add: prev'_def)
  moreover have "length prev' = length pairs"
    using inv(1) by (simp add: prev'_def)
  ultimately show ?thesis
    unfolding step lis_inv_def prod.case using links chain' best' by (intro conjI) blast+
qed

lemma lis_inv_loop: "n \<le> length pairs \<Longrightarrow> lis_inv pairs n (lis_loop pairs n)"
proof (induction n)
  case 0
  then show ?case
    by (auto simp: lis_inv_def lis_loop_def links_ok_def)
next
  case (Suc n)
  obtain tails prev where "lis_loop pairs n = (tails, prev)"
    by (cases "lis_loop pairs n")
  moreover from this have "lis_loop pairs (Suc n) = lis_step pairs n (tails, prev)"
    by (simp add: lis_loop_def)
  ultimately show ?case
    using lis_inv_step [of pairs n tails prev] Suc by simp
qed

lemma lis_chain_length:
  "chain_of prev n j \<Longrightarrow> n \<le> fuel \<Longrightarrow> length (lis_chain pairs prev fuel j) = n"
proof (induction n arbitrary: j fuel)
  case (Suc n)
  then show ?case
    by (cases fuel) (auto split: if_splits)
qed simp

lemma chain_of_bound: "links_ok pairs i prev \<Longrightarrow> chain_of prev n j \<Longrightarrow> j < i \<Longrightarrow> n \<le> Suc j"
proof (induction n arbitrary: j)
  case (Suc n)
  show ?case
  proof (cases "n = 0")
    case False
    with Suc.prems obtain p where "prev ! j = Some p" "chain_of prev n p"
      by auto
    moreover from this Suc.prems have "p < j"
      by (simp add: links_ok_def)
    ultimately show ?thesis
      using Suc.IH [of p] Suc.prems by simp
  qed simp
qed simp

lemma lis_chain_increasing:
  "links_ok pairs i prev \<Longrightarrow> j < i \<Longrightarrow> i \<le> length pairs \<Longrightarrow>
    subseq (rev (lis_chain pairs prev fuel j)) (take (Suc j) pairs) \<and>
    increasing (rev (lis_chain pairs prev fuel j)) \<and>
    (\<forall>y\<in>set (lis_chain pairs prev fuel j). snd y \<le> snd (pairs ! j))"
proof (induction fuel arbitrary: j)
  case (Suc fuel)
  have take: "take (Suc j) pairs = take j pairs @ [pairs ! j]"
    using Suc.prems by (simp add: take_Suc_conv_app_nth)
  show ?case
  proof (cases "prev ! j")
    case None
    then show ?thesis
      by (auto simp: take intro: subseq_drop_many)
  next
    case (Some p)
    then have p: "p < j" "snd (pairs ! p) < snd (pairs ! j)"
      using Suc.prems by (simp_all add: links_ok_def)
    let ?c = "lis_chain pairs prev fuel p"
    have IH: "subseq (rev ?c) (take (Suc p) pairs)" "increasing (rev ?c)"
      "\<forall>y\<in>set ?c. snd y \<le> snd (pairs ! p)"
      using Suc.IH [of p] Suc.prems p(1) by auto
    have "take j pairs = take (Suc p) pairs @ take (j - Suc p) (drop (Suc p) pairs)"
      using p(1) by (metis Suc_leI le_add_diff_inverse take_add)
    then have "subseq (rev ?c) (take j pairs)"
      using IH(1) by (metis subseq_rev_drop_many)
    then have "subseq (rev ?c @ [pairs ! j]) (take (Suc j) pairs)"
      unfolding take by (rule list_emb_append_mono) simp
    moreover have "\<forall>y\<in>set ?c. snd y < snd (pairs ! j)"
      using IH(3) p(2) le_less_trans by blast
    ultimately show ?thesis
      using Some IH(2) by (auto simp: sorted_wrt_append)
  qed
qed simp

lemma patience_lis_longest:
  shows "subseq (patience_lis pairs) pairs" "increasing (patience_lis pairs)"
    and "subseq ys pairs \<Longrightarrow> increasing ys \<Longrightarrow> length ys \<le> length (patience_lis pairs)"
proof -
  let ?n = "length pairs"
  obtain tails prev where loop: "lis_loop pairs ?n = (tails, prev)"
    by (cases "lis_loop pairs ?n")
  have inv: "lis_inv pairs ?n (tails, prev)"
    using lis_inv_loop [of ?n pairs] loop by simp
  then have best: "ys \<noteq> [] \<Longrightarrow> subseq ys pairs \<Longrightarrow> increasing ys \<Longrightarrow> length ys \<le> length tails" for ys
    by (auto simp: lis_inv_def)
  show "subseq (patience_lis pairs) pairs" "increasing (patience_lis pairs)"
    "subseq ys pairs \<Longrightarrow> increasing ys \<Longrightarrow> length ys \<le> length (patience_lis pairs)"
  proof (atomize (full), cases "pairs = []")
    case False
    then have "tails \<noteq> []"
      using best [of "[hd pairs]"] by (cases pairs) auto
    then have last: "last tails < ?n" "last tails = tails ! (length tails - 1)"
      using inv by (auto simp: lis_inv_def last_conv_nth)
    have links: "links_ok pairs ?n prev"
      and "\<forall>k<length tails. chain_of prev (Suc k) (tails ! k)"
      using inv by (simp_all add: lis_inv_def del: chain_of.simps)
    then have chain: "chain_of prev (length tails) (last tails)"
      using \<open>tails \<noteq> []\<close> last(2) by (metis Suc_pred' length_greater_0_conv lessI)
    let ?c = "lis_chain pairs prev ?n (last tails)"
    have lis: "patience_lis pairs = rev ?c"
      using False loop by (simp add: patience_lis_def)
    have "length tails \<le> ?n"
      using chain_of_bound [OF links chain last(1)] last(1) by simp
    then have len: "length (patience_lis pairs) = length tails"
      unfolding lis using lis_chain_length [OF chain] by simp
    have "subseq (rev ?c) pairs"
      using lis_chain_increasing [OF links last(1) order_refl]
      by (metis append_take_drop_id subseq_rev_drop_many)
    moreover have "increasing (rev ?c)"
      using lis_chain_increasing [OF links last(1) order_refl] by blast
    moreover have "length ys \<le> length tails" if "subseq ys pairs" "increasing ys"
      using best [OF _ that] by (cases "ys = []") auto
    ultimately show "subseq (patience_lis pairs) pairs \<and> increasing (patience_lis pairs) \<and>
        (subseq ys pairs \<longrightarrow> increasing ys \<longrightarrow> length ys \<le> length (patience_lis pairs))"
      unfolding len unfolding lis by blast
  qed (simp add: patience_lis_def)
qed


section \<open>Anchors are matching lines in order\<close>

lemma line_info_char:
  "line_info ls start stop x =
    (let hits = filter (\<lambda>i. ls ! i = x) [start..<stop]
     in if hits = [] then None else Some (length hits, last hits))"
proof (induction stop arbitrary: x)
  case (Suc stop)
  show ?case
  proof (cases "start \<le> stop")
    case True
    then have step: "line_info ls start (Suc stop) = (line_info ls start stop)(ls ! stop \<mapsto>
        (case line_info ls start stop (ls ! stop) of None \<Rightarrow> (1, stop) | Some (n, _) \<Rightarrow> (Suc n, stop)))"
      by (simp add: line_info_def)
    show ?thesis
    proof (cases "ls ! stop = x")
      case True
      then show ?thesis
        unfolding step using \<open>start \<le> stop\<close> Suc.IH [of x] by (simp add: Let_def)
    next
      case False
      then show ?thesis
        unfolding step using \<open>start \<le> stop\<close> Suc.IH [of x] by (simp add: Let_def)
    qed
  qed (simp add: line_info_def)
qed (simp add: line_info_def)

lemma line_info_Some:
  assumes "line_info ls start stop x = Some (n, i)"
  shows "start \<le> i \<and> i < stop \<and> ls ! i = x"
proof -
  let ?hits = "filter (\<lambda>i. ls ! i = x) [start..<stop]"
  have "?hits \<noteq> []" "i = last ?hits"
    using assms by (auto simp: line_info_char Let_def split: if_splits)
  then have "i \<in> set ?hits"
    using last_in_set by blast
  then show ?thesis
    by simp
qed

lemma line_info_single:
  assumes "line_info ls start stop x = Some (Suc 0, i)" "start \<le> j" "j < stop" "ls ! j = x"
  shows "i = j"
proof -
  let ?hits = "filter (\<lambda>i. ls ! i = x) [start..<stop]"
  have "length ?hits = 1" "i = last ?hits"
    using assms(1) by (auto simp: line_info_char Let_def split: if_splits)
  moreover have "j \<in> set ?hits"
    using assms(2-4) by simp
  ultimately show ?thesis
    by (cases ?hits) auto
qed

definition anchors_ok :: "'a list \<Rightarrow> 'a list \<Rightarrow> nat \<Rightarrow> nat \<Rightarrow> nat \<Rightarrow> nat \<Rightarrow> (nat \<times> nat) list \<Rightarrow> bool" where
  "anchors_ok old new old_start old_end new_start new_end anchors \<longleftrightarrow>
     sorted_wrt (\<lambda>a b. fst a < fst b \<and> snd a < snd b) anchors \<and>
     (\<forall>(i, j)\<in>set anchors. old_start \<le> i \<and> i < old_end \<and> new_start \<le> j \<and> j < new_end \<and> old ! i = new ! j)"

lemma unique_pair_Some:
  "unique_pair a b = Some p \<longleftrightarrow> a = Some (Suc 0, fst p) \<and> b = Some (Suc 0, snd p)"
  by (cases p) (auto simp: unique_pair_def split: option.splits)

lemma filter_map_sorted:
  assumes "\<And>i y. i \<in> set ixs \<Longrightarrow> f i = Some y \<Longrightarrow> fst y = i" "sorted_wrt (<) ixs"
  shows "sorted_wrt (\<lambda>a b. fst a < (fst b :: nat)) (filter_map f ixs)"
  using assms
proof (induction ixs)
  case (Cons i ixs)
  have IH: "sorted_wrt (\<lambda>a b. fst a < fst b) (filter_map f ixs)"
    by (rule Cons.IH) (use Cons.prems in simp_all)
  show ?case
  proof (cases "f i")
    case (Some y)
    have "fst y < fst z" if z: "z \<in> set (filter_map f ixs)" for z
    proof -
      obtain k where k: "k \<in> set ixs" "f k = Some z"
        using z by (auto simp: set_filter_map)
      moreover have "fst z = k"
        by (rule Cons.prems(1)) (use k in simp_all)
      moreover have "fst y = i"
        by (rule Cons.prems(1)) (use Some in simp_all)
      ultimately show ?thesis
        using Cons.prems(2) by simp
    qed
    then show ?thesis
      using IH Some by simp
  qed (simp add: IH)
qed simp

lemma unique_pairs_sorted:
  "sorted_wrt (\<lambda>a b. fst a < fst b) (unique_pairs old new old_start old_end new_start new_end)"
  unfolding unique_pairs_def Let_def
proof (rule filter_map_sorted)
  fix i y
  assume i: "i \<in> set [old_start..<old_end]"
    and "unique_pair (line_info old old_start old_end (old ! i)) (line_info new new_start new_end (old ! i)) = Some y"
  then have "line_info old old_start old_end (old ! i) = Some (Suc 0, fst y)"
    by (simp add: unique_pair_Some)
  from line_info_single [OF this] i show "fst y = i"
    by simp
qed simp

lemma unique_pairs_match:
  assumes "p \<in> set (unique_pairs old new old_start old_end new_start new_end)"
  shows "old_start \<le> fst p \<and> fst p < old_end \<and> new_start \<le> snd p \<and> snd p < new_end \<and>
    old ! fst p = new ! snd p"
proof -
  obtain x where "line_info old old_start old_end x = Some (Suc 0, fst p)"
    "line_info new new_start new_end x = Some (Suc 0, snd p)"
    using assms by (auto simp: unique_pairs_def set_filter_map unique_pair_Some)
  then show ?thesis
    using line_info_Some [of old old_start old_end x _ "fst p"]
      line_info_Some [of new new_start new_end x _ "snd p"]
    by simp
qed

lemma find_patience_anchors_ok:
  "anchors_ok old new old_start old_end new_start new_end
    (find_patience_anchors old new old_start old_end new_start new_end)"
proof -
  let ?u = "unique_pairs old new old_start old_end new_start new_end"
  have sub: "subseq (patience_lis ?u) ?u"
    by (rule patience_lis_longest)
  have "sorted_wrt (\<lambda>a b. fst a < fst b) (patience_lis ?u)"
    using sub unique_pairs_sorted by (rule sorted_wrt_subseq)
  moreover have "increasing (patience_lis ?u)"
    by (rule patience_lis_longest)
  ultimately have "sorted_wrt (\<lambda>a b. fst a < fst b \<and> snd a < snd b) (patience_lis ?u)"
    unfolding sorted_wrt_iff_nth_less by blast
  moreover have "set (patience_lis ?u) \<subseteq> set ?u"
    using subset_subseq_set [OF sub] .
  then have "\<forall>p\<in>set (patience_lis ?u). old_start \<le> fst p \<and> fst p < old_end \<and> new_start \<le> snd p \<and>
      snd p < new_end \<and> old ! fst p = new ! snd p"
    using unique_pairs_match by blast
  ultimately show ?thesis
    unfolding anchors_ok_def find_patience_anchors_def by (simp add: split_beta)
qed

section \<open>The result is a script\<close>

lemma script_for_anchor [simp]:
  "x = y \<Longrightarrow> script_for (\<lparr>ed_kind = Equal, ed_old = Some x, ed_new = Some y\<rparr> # es) (x # old) (y # new)
    \<longleftrightarrow> script_for es old new"
  by (auto simp: script_for_def)

lemma gap_script:
  assumes "\<And>a b c d. a \<le> b \<Longrightarrow> b \<le> length old \<Longrightarrow> c \<le> d \<Longrightarrow> d \<le> length new \<Longrightarrow>
      script_for (rec a b c d) (slice old a b) (slice new c d)"
    and "oi \<le> oe" "oe \<le> length old" "ni \<le> ne" "ne \<le> length new"
  shows "script_for (if oi < oe \<or> ni < ne then rec oi oe ni ne else []) (slice old oi oe) (slice new ni ne)"
  using assms(1) [OF assms(2-5)] by simp

lemma patience_gaps_script:
  assumes rec: "\<And>a b c d. a \<le> b \<Longrightarrow> b \<le> length old \<Longrightarrow> c \<le> d \<Longrightarrow> d \<le> length new \<Longrightarrow>
      script_for (rec a b c d) (slice old a b) (slice new c d)"
    and ends: "old_end \<le> length old" "new_end \<le> length new"
  shows "anchors_ok old new oi old_end ni new_end anchors \<Longrightarrow> oi \<le> old_end \<Longrightarrow> ni \<le> new_end \<Longrightarrow>
    script_for (patience_gaps rec old new old_end new_end oi ni anchors)
      (slice old oi old_end) (slice new ni new_end)"
proof (induction anchors arbitrary: oi ni)
  case Nil
  then show ?case
    using gap_script [OF rec Nil.prems(2) ends(1) Nil.prems(3) ends(2)] by simp
next
  case (Cons a anchors)
  obtain i j where a: "a = (i, j)"
    by (cases a)
  have i: "oi \<le> i" "i < old_end" and j: "ni \<le> j" "j < new_end" and eq: "old ! i = new ! j"
    using Cons.prems(1) by (auto simp: anchors_ok_def a)
  have rest: "anchors_ok old new (Suc i) old_end (Suc j) new_end anchors"
    using Cons.prems(1) by (fastforce simp: anchors_ok_def a)
  have gap: "script_for (if oi < i \<or> ni < j then rec oi i ni j else []) (slice old oi i) (slice new ni j)"
    using gap_script [OF rec i(1) _ j(1)] i j ends by simp
  have tail: "script_for (patience_gaps rec old new old_end new_end (Suc i) (Suc j) anchors)
      (slice old (Suc i) old_end) (slice new (Suc j) new_end)"
    using Cons.IH [OF rest] i j by simp
  have old: "slice old oi old_end = slice old oi i @ old ! i # slice old (Suc i) old_end"
    using slice_append_slice [of oi i old_end old] slice_Suc [of i old_end old] i ends by simp
  have new: "slice new ni new_end = slice new ni j @ new ! j # slice new (Suc j) new_end"
    using slice_append_slice [of ni j new_end new] slice_Suc [of j new_end new] j ends by simp
  show ?case
    unfolding a patience_gaps.simps old new
    by (rule script_for_append [OF gap]) (simp add: eq tail)
qed

lemma slice_slice:
  "i + b \<le> j \<Longrightarrow> j \<le> length xs \<Longrightarrow> slice (slice xs i j) a b = slice xs (i + a) (i + b)"
  by (simp add: slice_def take_drop min_def add.commute)

lemma patience_recurse_script:
  "old_start \<le> old_end \<Longrightarrow> old_end \<le> length old \<Longrightarrow> new_start \<le> new_end \<Longrightarrow> new_end \<le> length new \<Longrightarrow>
    script_for (patience_recurse old new left old_start old_end new_start new_end)
      (slice old old_start old_end) (slice new new_start new_end)"
proof (induction left arbitrary: old_start old_end new_start new_end)
  case 0
  then show ?case
    by (simp add: myers_script)
next
  case (Suc left)
  let ?olds = "slice old old_start old_end" and ?news = "slice new new_start new_end"
  let ?p = "common_prefix_len ?olds ?news"
  let ?s = "common_suffix_len ?p ?olds ?news"
  let ?os = "old_start + ?p" and ?oe = "old_end - ?s"
  let ?ns = "new_start + ?p" and ?ne = "new_end - ?s"
  have len: "length ?olds = old_end - old_start" "length ?news = new_end - new_start"
    using Suc.prems by simp_all
  have s: "?s \<le> length ?olds - ?p" "?s \<le> length ?news - ?p" and p: "?p \<le> length ?olds" "?p \<le> length ?news"
    by (rule common_suffix_len_le common_prefix_len_le1 common_prefix_len_le2)+
  have bounds: "?os \<le> ?oe" "?oe \<le> length old" "?ns \<le> ?ne" "?ne \<le> length new"
    using s p Suc.prems unfolding len by linarith+
  have inner: "slice ?olds ?p (length ?olds - ?s) = slice old ?os ?oe"
    "slice ?news ?p (length ?news - ?s) = slice new ?ns ?ne"
    using s p Suc.prems unfolding len by (subst slice_slice; simp)+
  let ?mid = "if ?os = ?oe \<and> ?ns = ?ne then []
           else if ?os = ?oe then map insert_edit (slice new ?ns ?ne)
           else if ?ns = ?ne then map delete_edit (slice old ?os ?oe)
           else
             let anchors = find_patience_anchors old new ?os ?oe ?ns ?ne
             in if anchors = [] then
                  (let old_inner = slice old ?os ?oe;
                       new_inner = slice new ?ns ?ne
                   in if should_use_patience_positional_fallback old_inner new_inner
                      then positional_fallback_edits old_inner new_inner
                      else myers_edits old_inner new_inner)
                else patience_gaps (patience_recurse old new left) old new ?oe ?ne ?os ?ns anchors"
  have "script_for (patience_gaps (patience_recurse old new left) old new ?oe ?ne ?os ?ns
      (find_patience_anchors old new ?os ?oe ?ns ?ne)) (slice old ?os ?oe) (slice new ?ns ?ne)"
    using Suc.IH bounds find_patience_anchors_ok by (intro patience_gaps_script)
  then have "script_for ?mid (slice old ?os ?oe) (slice new ?ns ?ne)"
    by (simp add: Let_def myers_script positional_fallback_script)
  then have "script_for ?mid (slice ?olds ?p (length ?olds - ?s)) (slice ?news ?p (length ?news - ?s))"
    unfolding inner .
  from script_for_affix [OF refl refl this] show ?case
    by (simp only: patience_recurse.simps Let_def)
qed

lemma histogram_script: "script_for (histogram_edits old new) old new"
  using patience_recurse_script [of 0 "length old" old 0 "length new" new]
  by (simp add: histogram_edits_def del: patience_recurse.simps)

interpretation histogram: diff_algorithm histogram_edits
  by unfold_locales (rule histogram_script)

section \<open>Properties\<close>

text \<open>The anchors kept are a subsequence of the candidate pairs with increasing new positions, and
no such subsequence is longer.\<close>

theorem patience_lis_is_longest:
  "subseq (patience_lis pairs) pairs \<and> increasing (patience_lis pairs) \<and>
    (\<forall>ys. subseq ys pairs \<longrightarrow> increasing ys \<longrightarrow> length ys \<le> length (patience_lis pairs))"
  using patience_lis_longest by blast

lemma patience_lis_is_longest_witness:
  "length [(0::nat, 1::nat), (2, 3)] \<le> length (patience_lis [(0, 1), (1, 0), (2, 3), (3, 2)])"
  using patience_lis_is_longest [of "[(0, 1), (1, 0), (2, 3), (3, 2)]", THEN conjunct2, THEN conjunct2,
      rule_format, of "[(0, 1), (2, 3)]"]
  by simp

text \<open>The histogram algorithm returns a script that turns the old lines into the new ones, and the
hunks read off that script rebuild the new lines from the old ones.\<close>

lemma histogram_edits_correct:
  "script_for (histogram_edits old new) old new \<and>
    reconstruct_side_with old (0, length old) (edits_to_hunks_with (histogram_edits old new)) = new"
  using histogram_script histogram.hunks_roundtrip by blast

end
