(* ===== verification/Selection.thy ===== *)
theory Selection
  imports Strings "HOL-Library.Multiset"
begin

text \<open>
  The small data types of \<open>merge/plan.rs\<close>: the sources A, B and C, the ordered selection of a merge
  block, manual alignment entries and their ordered list, and the budget of an interactive plan.

  The contract that an ordered set of sources has, whatever its representation, is the locale
  \<open>source_selection\<close>; the list of \<open>OrderedSelection\<close> provides it here, the fixed array of
  \<open>ConflictOutputChoice\<close> in the theory of the conflict output.
\<close>

section \<open>Sources\<close>

datatype merge_source = A | B | C

text \<open>The derived order of the enum.\<close>

primrec source_rank :: "merge_source \<Rightarrow> nat" where
  "source_rank A = 0" | "source_rank B = 1" | "source_rank C = 2"

instantiation merge_source :: linorder
begin

definition less_eq_merge_source :: "merge_source \<Rightarrow> merge_source \<Rightarrow> bool" where
  "less_eq_merge_source s t \<longleftrightarrow> source_rank s \<le> source_rank t"

definition less_merge_source :: "merge_source \<Rightarrow> merge_source \<Rightarrow> bool" where
  "less_merge_source s t \<longleftrightarrow> source_rank s < source_rank t"

instance
proof
  fix s t :: merge_source
  assume "s \<le> t" "t \<le> s"
  then show "s = t"
    by (cases s; cases t) (simp_all add: less_eq_merge_source_def)
qed (auto simp: less_eq_merge_source_def less_merge_source_def)

end

lemma card_merge_source: "card (UNIV :: merge_source set) = 3"
proof -
  have univ: "(UNIV :: merge_source set) = {A, B, C}"
    using merge_source.exhaust by auto
  show ?thesis
    unfolding univ by simp
qed

lemma finite_merge_source [simp]: "finite (S :: merge_source set)"
proof (rule finite_subset)
  show "S \<subseteq> {A, B, C}"
    using merge_source.exhaust by auto
qed simp

section \<open>Ordered sets of sources\<close>

locale source_selection =
  fixes inv :: "'sel \<Rightarrow> bool"
    and none :: 'sel
    and contents :: "'sel \<Rightarrow> 's list"
    and append :: "'sel \<Rightarrow> 's \<Rightarrow> 'sel"
    and toggle :: "'sel \<Rightarrow> 's \<Rightarrow> 'sel"
  assumes inv_none: "inv none"
    and contents_none: "contents none = []"
    and distinct_contents: "inv sel \<Longrightarrow> distinct (contents sel)"
    and inv_append: "inv sel \<Longrightarrow> inv (append sel s)"
    and inv_toggle: "inv sel \<Longrightarrow> inv (toggle sel s)"
    and contents_append: "inv sel \<Longrightarrow> contents (append sel s) =
      (if s \<in> set (contents sel) then contents sel else contents sel @ [s])"
    and contents_toggle: "inv sel \<Longrightarrow> contents (toggle sel s) =
      (if s \<in> set (contents sel) then remove1 s (contents sel) else contents sel @ [s])"
begin

lemma toggle_removes: "inv sel \<Longrightarrow> s \<in> set (contents sel) \<Longrightarrow> s \<notin> set (contents (toggle sel s))"
  by (simp add: contents_toggle distinct_contents)

lemma toggle_appends: "inv sel \<Longrightarrow> s \<notin> set (contents sel) \<Longrightarrow> contents (toggle sel s) = contents sel @ [s]"
  by (simp add: contents_toggle)

lemma toggle_twice: "inv sel \<Longrightarrow> s \<notin> set (contents sel) \<Longrightarrow> contents (toggle (toggle sel s) s) = contents sel"
  by (simp add: contents_toggle inv_toggle remove1_append)

lemma toggle_set: "inv sel \<Longrightarrow> set (contents (toggle sel s)) =
    (if s \<in> set (contents sel) then set (contents sel) - {s} else insert s (set (contents sel)))"
  by (simp add: contents_toggle distinct_contents set_remove1_eq)

lemma from_sources:
  "inv sel \<Longrightarrow> inv (foldl append sel xs) \<and>
    contents (foldl append sel xs) = contents sel @ rev (remdups (rev (filter (\<lambda>x. x \<notin> set (contents sel)) xs)))"
proof (induction xs rule: rev_induct)
  case (snoc x xs)
  then show ?case
    by (auto simp: inv_append contents_append)
qed simp

lemma from_sources_none:
  "contents (foldl append none xs) = rev (remdups (rev xs))"
  using from_sources [OF inv_none, of xs] by (simp add: contents_none)

end

record ordered_selection =
  sources :: "merge_source list"

definition selection_new :: ordered_selection where
  "selection_new = \<lparr>sources = []\<rparr>"

definition selection_from_source :: "merge_source \<Rightarrow> ordered_selection" where
  "selection_from_source s = \<lparr>sources = [s]\<rparr>"

definition selection_contains :: "ordered_selection \<Rightarrow> merge_source \<Rightarrow> bool" where
  "selection_contains sel s \<longleftrightarrow> s \<in> set (sources sel)"

definition selection_append :: "ordered_selection \<Rightarrow> merge_source \<Rightarrow> ordered_selection" where
  "selection_append sel s =
     (if \<not> selection_contains sel s then sel\<lparr>sources := sources sel @ [s]\<rparr> else sel)"

definition selection_from_sources :: "merge_source list \<Rightarrow> ordered_selection" where
  "selection_from_sources ss = foldl selection_append selection_new ss"

definition selection_toggle :: "ordered_selection \<Rightarrow> merge_source \<Rightarrow> ordered_selection" where
  "selection_toggle sel s =
     (case position (\<lambda>candidate. candidate = s) (sources sel) of
        Some index \<Rightarrow> sel\<lparr>sources := remove_nth index (sources sel)\<rparr>
      | None \<Rightarrow> sel\<lparr>sources := sources sel @ [s]\<rparr>)"

definition selection_is_empty :: "ordered_selection \<Rightarrow> bool" where
  "selection_is_empty sel \<longleftrightarrow> sources sel = []"

definition selection_ok :: "ordered_selection \<Rightarrow> bool" where
  "selection_ok sel \<longleftrightarrow> distinct (sources sel)"

lemma remove_nth_position:
  "position (\<lambda>x. x = s) xs = Some i \<Longrightarrow> remove_nth i xs = remove1 s xs"
  by (induction xs arbitrary: i) (auto simp: remove_nth_def split: if_splits)

lemma position_eq_None: "position (\<lambda>x. x = s) xs = None \<longleftrightarrow> s \<notin> set xs"
  by (auto simp: position_None)

interpretation ordsel: source_selection selection_ok selection_new sources selection_append selection_toggle
proof
  fix sel s
  assume "selection_ok sel"
  have "sources (selection_toggle sel s) =
      (if s \<in> set (sources sel) then remove1 s (sources sel) else sources sel @ [s])"
  proof (cases "position (\<lambda>x. x = s) (sources sel)")
    case None
    then show ?thesis
      using None [unfolded position_eq_None] by (simp add: selection_toggle_def)
  next
    case (Some i)
    then have "s \<in> set (sources sel)"
      using position_eq_None [of s "sources sel"] by auto
    then show ?thesis
      using Some remove_nth_position [OF Some] by (simp add: selection_toggle_def)
  qed
  then show "sources (selection_toggle sel s) =
      (if s \<in> set (sources sel) then remove1 s (sources sel) else sources sel @ [s])"
    and "selection_ok (selection_toggle sel s)"
    using \<open>selection_ok sel\<close> by (auto simp: selection_ok_def)
qed (auto simp: selection_ok_def selection_new_def selection_append_def selection_contains_def)

lemma selection_ok_basic [simp]:
  "selection_ok selection_new" "selection_ok (selection_from_source s)" "selection_ok \<lparr>sources = []\<rparr>"
  by (simp_all add: selection_ok_def selection_new_def selection_from_source_def)

lemma selection_ok_from_sources [simp]: "selection_ok (selection_from_sources ss)"
  using ordsel.from_sources [of selection_new ss] by (simp add: selection_from_sources_def)

text \<open>A valid selection has at most the three sources.\<close>

lemma selection_ok_length: "selection_ok sel \<Longrightarrow> length (sources sel) \<le> 3"
  using distinct_card [of "sources sel"] card_mono [of UNIV "set (sources sel)"] card_merge_source
  by (simp add: selection_ok_def)


section \<open>Manual alignments\<close>

record manual_alignment =
  al_base :: range
  al_local :: range
  al_remote :: range

definition normalize_range :: "range \<Rightarrow> range" where
  "normalize_range r = (if rng_start r \<le> rng_end r then r else (rng_start r, rng_start r))"

definition manual_alignment_new :: "range \<Rightarrow> range \<Rightarrow> range \<Rightarrow> manual_alignment" where
  "manual_alignment_new base local remote =
     \<lparr>al_base = normalize_range base, al_local = normalize_range local, al_remote = normalize_range remote\<rparr>"

definition manual_alignment_two_input :: "range \<Rightarrow> range \<Rightarrow> manual_alignment" where
  "manual_alignment_two_input local remote = manual_alignment_new (0, 0) local remote"

definition plan_ranges :: "manual_alignment \<Rightarrow> bool \<Rightarrow> range \<times> range \<times> range" where
  "plan_ranges al three_way =
     (if three_way then (al_base al, al_local al, al_remote al)
      else (al_local al, al_remote al, (0, 0)))"

definition source_range :: "manual_alignment \<Rightarrow> merge_source \<Rightarrow> bool \<Rightarrow> range" where
  "source_range al source three_way =
     (let (a, b, c) = plan_ranges al three_way
      in case source of A \<Rightarrow> a | B \<Rightarrow> b | C \<Rightarrow> c)"

definition alignment_is_empty :: "manual_alignment \<Rightarrow> bool" where
  "alignment_is_empty al \<longleftrightarrow> rng_empty (al_base al) \<and> rng_empty (al_local al) \<and> rng_empty (al_remote al)"

definition strictly_precedes :: "manual_alignment \<Rightarrow> manual_alignment \<Rightarrow> bool" where
  "strictly_precedes l r \<longleftrightarrow>
     (let pairs = [(al_base l, al_base r), (al_local l, al_local r), (al_remote l, al_remote r)]
      in list_all (\<lambda>(left, right). rng_end left \<le> rng_start right) pairs \<and>
         list_ex (\<lambda>(left, right). rng_end left < rng_start right) pairs)"

record manual_alignment_list =
  entries :: "manual_alignment list"

definition alignments_new :: manual_alignment_list where
  "alignments_new = \<lparr>entries = []\<rparr>"

definition alignments_insert :: "manual_alignment_list \<Rightarrow> manual_alignment \<Rightarrow> manual_alignment_list \<times> bool" where
  "alignments_insert l entry =
     (if alignment_is_empty entry then (l, False)
      else
        let at_index = length (takeWhile (\<lambda>existing. strictly_precedes existing entry) (entries l))
        in if list_ex (\<lambda>existing. \<not> strictly_precedes entry existing) (drop at_index (entries l))
           then (l, False)
           else (l\<lparr>entries := take at_index (entries l) @ entry # drop at_index (entries l)\<rparr>, True))"

definition alignments_remove_at ::
  "manual_alignment_list \<Rightarrow> merge_source \<Rightarrow> bool \<Rightarrow> nat \<Rightarrow> manual_alignment_list \<times> bool" where
  "alignments_remove_at l source three_way line =
     (case position (\<lambda>entry. let r = source_range entry source three_way
         in rng_contains r line \<or> (rng_empty r \<and> rng_start r = line)) (entries l) of
        Some index \<Rightarrow> (l\<lparr>entries := remove_nth index (entries l)\<rparr>, True)
      | None \<Rightarrow> (l, False))"

definition alignments_ok :: "manual_alignment_list \<Rightarrow> bool" where
  "alignments_ok l \<longleftrightarrow>
     sorted_wrt strictly_precedes (entries l) \<and> (\<forall>e\<in>set (entries l). \<not> alignment_is_empty e)"

lemma alignments_ok_new [simp]: "alignments_ok alignments_new"
  by (simp add: alignments_ok_def alignments_new_def)

lemma alignments_ok_insert:
  assumes "alignments_ok l"
  shows "alignments_ok (fst (alignments_insert l entry))"
proof -
  let ?n = "length (takeWhile (\<lambda>x. strictly_precedes x entry) (entries l))"
  let ?new = "take ?n (entries l) @ entry # drop ?n (entries l)"
  show ?thesis
  proof (cases "alignment_is_empty entry \<or> list_ex (\<lambda>x. \<not> strictly_precedes entry x) (drop ?n (entries l))")
    case True
    then have "fst (alignments_insert l entry) = l"
      by (auto simp: alignments_insert_def Let_def)
    then show ?thesis
      using assms by simp
  next
    case False
    then have after: "\<forall>x\<in>set (drop ?n (entries l)). strictly_precedes entry x"
      by (simp add: list_ex_iff)
    have before: "\<forall>x\<in>set (take ?n (entries l)). strictly_precedes x entry"
      by (auto simp flip: takeWhile_eq_take dest: set_takeWhileD)
    have "sorted_wrt strictly_precedes ?new"
      by (rule sorted_wrt_insert [OF _ before after]) (use assms in \<open>simp add: alignments_ok_def\<close>)
    moreover have "set ?new = insert entry (set (entries l))"
      by (metis append_take_drop_id list.simps(15) set_append Un_insert_right)
    moreover have "fst (alignments_insert l entry) = l\<lparr>entries := ?new\<rparr>"
      using False by (simp add: alignments_insert_def Let_def)
    ultimately show ?thesis
      using assms False by (simp add: alignments_ok_def)
  qed
qed

lemma alignments_ok_remove_at:
  assumes "alignments_ok l"
  shows "alignments_ok (fst (alignments_remove_at l source three_way line))"
proof -
  have "alignments_ok (l\<lparr>entries := remove_nth i (entries l)\<rparr>)" for i
    using assms sorted_wrt_subseq [OF subseq_remove_nth [of i "entries l"]]
      subset_subseq_set [OF subseq_remove_nth [of i "entries l"]]
    by (auto simp: alignments_ok_def)
  then show ?thesis
    using assms by (simp add: alignments_remove_at_def split: option.split)
qed

text \<open>An accepted entry is in the list, every earlier one stays; a refused one leaves the list as it was.\<close>

lemma alignments_insert_entries:
  "alignments_insert l entry = (l', ok) \<Longrightarrow>
    (if ok then mset (entries l') = add_mset entry (mset (entries l)) else l' = l)"
  by (auto simp: alignments_insert_def Let_def split: if_splits)
    (metis append_take_drop_id mset_append union_mset_add_mset_right)

text \<open>A list in order constrains disjoint ranges of every source, in the same order.\<close>

lemma alignments_disjoint:
  assumes "alignments_ok l" "i < j" "j < length (entries l)"
  shows "rng_end (source_range (entries l ! i) s t) \<le> rng_start (source_range (entries l ! j) s t)"
proof -
  have "strictly_precedes (entries l ! i) (entries l ! j)"
    using assms by (simp add: alignments_ok_def sorted_wrt_nth_less)
  then show ?thesis
    by (cases s; cases t) (auto simp: strictly_precedes_def source_range_def plan_ranges_def Let_def)
qed

inductive alignments_reachable :: "manual_alignment_list \<Rightarrow> bool" where
  new: "alignments_reachable alignments_new"
| insert: "alignments_reachable l \<Longrightarrow> alignments_reachable (fst (alignments_insert l entry))"
| remove_at: "alignments_reachable l \<Longrightarrow> alignments_reachable (fst (alignments_remove_at l source three_way line))"

lemma alignments_reachable_ok: "alignments_reachable l \<Longrightarrow> alignments_ok l"
  by (induction rule: alignments_reachable.induct) (simp_all add: alignments_ok_insert alignments_ok_remove_at)

section \<open>The budget of an interactive plan\<close>

record interactive_merge_plan_budget =
  always_plan_total_lines :: nat
  max_total_lines :: nat
  minimum_shared_line_numerator :: nat
  minimum_shared_line_denominator :: nat

definition default_budget :: interactive_merge_plan_budget where
  "default_budget = \<lparr>always_plan_total_lines = 2000, max_total_lines = 100000,
     minimum_shared_line_numerator = 1, minimum_shared_line_denominator = 4\<rparr>"

definition shared_enough :: "interactive_merge_plan_budget \<Rightarrow> nat \<Rightarrow> nat \<Rightarrow> bool" where
  "shared_enough budget shared side_count \<longleftrightarrow>
     side_count = 0 \<or>
     sat_mul side_count (minimum_shared_line_numerator budget)
       \<le> sat_mul shared (minimum_shared_line_denominator budget)"

definition shared_lines :: "utext \<Rightarrow> utext \<Rightarrow> nat" where
  "shared_lines known side = length (filter (\<lambda>l. l \<in> set (lines known)) (lines side))"

definition interactive_merge_plan_is_practical ::
  "utext option \<Rightarrow> utext \<Rightarrow> utext \<Rightarrow> interactive_merge_plan_budget \<Rightarrow> bool" where
  "interactive_merge_plan_is_practical base local remote budget \<longleftrightarrow>
     (let base_count = (case base of None \<Rightarrow> 0 | Some b \<Rightarrow> length (lines b));
          local_count = length (lines local);
          remote_count = length (lines remote);
          total = sat_add (sat_add base_count local_count) remote_count
      in if total > max_total_lines budget then False
         else if total \<le> always_plan_total_lines budget then True
         else if minimum_shared_line_denominator budget = 0 then False
         else (case base of
             Some b \<Rightarrow> shared_enough budget (shared_lines b local) local_count \<and>
               shared_enough budget (shared_lines b remote) remote_count
           | None \<Rightarrow> shared_enough budget (shared_lines local remote) remote_count))"

lemma alignments_insert_accepts:
  "snd (alignments_insert l entry) \<longleftrightarrow>
      \<not> alignment_is_empty entry \<and>
      (\<exists>before after. entries l = before @ after \<and>
        (\<forall>x\<in>set before. strictly_precedes x entry) \<and> (\<forall>x\<in>set after. strictly_precedes entry x))"
    (is "?ok \<longleftrightarrow> ?nonempty \<and> ?place")
proof -
  let ?P = "\<lambda>x. strictly_precedes x entry"
  have "?ok \<longleftrightarrow> ?nonempty \<and> (\<forall>x\<in>set (dropWhile ?P (entries l)). strictly_precedes entry x)"
    by (simp add: alignments_insert_def Let_def list_ex_iff flip: dropWhile_eq_drop)
  moreover have "(\<forall>x\<in>set (dropWhile ?P (entries l)). strictly_precedes entry x) \<longleftrightarrow> ?place"
  proof
    assume *: "\<forall>x\<in>set (dropWhile ?P (entries l)). strictly_precedes entry x"
    show ?place
      by (rule exI [of _ "takeWhile ?P (entries l)"], rule exI [of _ "dropWhile ?P (entries l)"])
        (use * in \<open>auto dest: set_takeWhileD\<close>)
  next
    assume ?place
    then obtain before after where "entries l = before @ after"
      "\<forall>x\<in>set before. ?P x" "\<forall>x\<in>set after. strictly_precedes entry x"
      by blast
    then show "\<forall>x\<in>set (dropWhile ?P (entries l)). strictly_precedes entry x"
      by (auto simp: dropWhile_append2 dest: set_dropWhileD)
  qed
  ultimately show ?thesis
    by blast
qed

section \<open>Properties\<close>

text \<open>C40: in every list of manual alignments built by inserting and removing entries, an earlier entry
ends at or before a later one starts, for every source and in both planning modes, and no entry is
empty.\<close>

theorem alignment_lists_stay_ordered:
  assumes "alignments_reachable l" "i < j" "j < length (entries l)"
  shows "rng_end (source_range (entries l ! i) s three_way) \<le> rng_start (source_range (entries l ! j) s three_way)
    \<and> \<not> alignment_is_empty (entries l ! j)"
  using alignments_disjoint [OF alignments_reachable_ok [OF assms(1)] assms(2,3)]
    alignments_reachable_ok [OF assms(1)] assms(3)
  by (simp add: alignments_ok_def)

lemma alignment_lists_stay_ordered_witness:
  "let e = (\<lambda>i j. manual_alignment_new (i, j) (i, j) (i, j));
       l = fst (alignments_insert (fst (alignments_insert alignments_new (e 5 7))) (e 1 3))
   in rng_end (source_range (entries l ! 0) C True) \<le> rng_start (source_range (entries l ! 1) C True)
      \<and> \<not> alignment_is_empty (entries l ! 1)"
proof -
  let ?e = "\<lambda>i j. manual_alignment_new (i, j) (i, j) (i, j)"
  let ?l = "fst (alignments_insert (fst (alignments_insert alignments_new (?e 5 7))) (?e 1 3))"
  have len: "1 < length (entries ?l)"
    by code_simp
  have "alignments_reachable ?l"
    by (intro alignments_reachable.intros)
  from alignment_lists_stay_ordered [OF this _ len, of 0 C True] show ?thesis
    unfolding Let_def by simp
qed

text \<open>An accepted entry is added to the list and nothing else changes; a refused one leaves the list
as it was. An entry is refused exactly when it pins nothing or an existing entry neither precedes nor
follows it at the place the ordered scan gives it.\<close>

lemma alignments_insert_behaviour:
  "(case alignments_insert l entry of (l', ok) \<Rightarrow>
      if ok then mset (entries l') = add_mset entry (mset (entries l)) else l' = l) \<and>
   (snd (alignments_insert l entry) \<longleftrightarrow>
      \<not> alignment_is_empty entry \<and>
      (\<exists>before after. entries l = before @ after \<and>
        (\<forall>x\<in>set before. strictly_precedes x entry) \<and> (\<forall>x\<in>set after. strictly_precedes entry x)))"
  using alignments_insert_entries [of l entry] alignments_insert_accepts [of l entry]
  by (auto split: prod.split)

lemma alignments_insert_behaviour_witness:
  "alignments_insert \<lparr>entries = [manual_alignment_new (0, 2) (0, 2) (0, 2)]\<rparr> (manual_alignment_new (1, 3) (4, 5) (4, 5))
    = (\<lparr>entries = [manual_alignment_new (0, 2) (0, 2) (0, 2)]\<rparr>, False)"
proof -
  let ?l = "\<lparr>entries = [manual_alignment_new (0, 2) (0, 2) (0, 2)]\<rparr>"
  let ?e = "manual_alignment_new (1, 3) (4, 5) (4, 5)"
  have "\<not> snd (alignments_insert ?l ?e)"
    by code_simp
  then show ?thesis
    using alignments_insert_behaviour [where l = ?l and entry = ?e] by (auto split: prod.splits)
qed

text \<open>A selection toggled on a source it does not hold gains it as the last one, and toggled again
is what it was; toggled on a source it holds, it loses that source and keeps the order of the others.
A selection built from any sequence of sources holds each of them once, in the order of its first
occurrence.\<close>

lemma selection_operations:
  assumes "selection_ok sel"
  shows "sources (selection_toggle sel s) =
      (if s \<in> set (sources sel) then filter (\<lambda>x. x \<noteq> s) (sources sel) else sources sel @ [s]) \<and>
    (s \<notin> set (sources sel) \<longrightarrow> sources (selection_toggle (selection_toggle sel s) s) = sources sel) \<and>
    sources (selection_from_sources ss) = rev (remdups (rev ss))"
proof -
  have "distinct (sources sel)"
    using ordsel.distinct_contents [OF assms] .
  then show ?thesis
    using ordsel.contents_toggle [OF assms, of s] ordsel.toggle_twice [OF assms, of s]
      ordsel.from_sources_none [of ss]
    by (simp add: distinct_remove1_removeAll removeAll_filter_not_eq selection_from_sources_def
        neq_commute [of s])
qed

lemma selection_operations_witness:
  "sources (selection_toggle (selection_from_source B) B) = [] \<and>
    sources (selection_from_sources [C, A, C]) = [C, A]"
  using selection_operations [of "selection_from_source B" B "[C, A, C]"]
  by (simp add: selection_from_source_def selection_ok_def)

end
