(* ===== verification/Chunks.thy ===== *)
theory Chunks
  imports Patience Selection
begin

text \<open>
  The first half of the alignment in \<open>merge/plan.rs\<close>: an edit script summed up as chunks of equal, left
  and right lines, the whitespace-insensitive comparison of two line lists, the segments that manual
  alignments force on a pair of sources, and the barriers that later passes respect.

  What later theories use of it is that the chunks count every line of both sides, with and without
  manual alignments.
\<close>

section \<open>Chunks\<close>

record pair_chunk =
  ch_equal :: nat
  ch_left :: nat
  ch_right :: nat

definition chunk_default :: pair_chunk where
  "chunk_default = \<lparr>ch_equal = 0, ch_left = 0, ch_right = 0\<rparr>"

text \<open>
  One round of the outer loop: a run of equal edits, then a run of the others. A round on a
  non-empty script always advances, so the check against the default chunk never drops one.
\<close>

function pair_chunks :: "'a edit list \<Rightarrow> pair_chunk list" where
  "pair_chunks [] = []"
| "pair_chunks (e # es) =
     (let equals = takeWhile (\<lambda>e. ed_kind e = Equal) (e # es);
          rest = dropWhile (\<lambda>e. ed_kind e = Equal) (e # es);
          changes = takeWhile (\<lambda>e. ed_kind e \<noteq> Equal) rest;
          chunk = \<lparr>ch_equal = length equals,
            ch_left = length (filter (\<lambda>e. ed_kind e = Delete) changes),
            ch_right = length (filter (\<lambda>e. ed_kind e = Insert) changes)\<rparr>
      in (if chunk \<noteq> chunk_default then [chunk] else [])
         @ pair_chunks (dropWhile (\<lambda>e. ed_kind e \<noteq> Equal) rest))"
  by pat_completeness auto
termination
  by (relation "measure length")
    (auto simp: le_imp_less_Suc length_dropWhile_le intro: le_less_trans [OF length_dropWhile_le])

datatype merge_diff_algorithm = Alg_Myers | Alg_Histogram

definition run_algorithm :: "merge_diff_algorithm \<Rightarrow> 'a list \<Rightarrow> 'a list \<Rightarrow> 'a edit list" where
  "run_algorithm algorithm old new =
     (case algorithm of Alg_Myers \<Rightarrow> myers_edits old new | Alg_Histogram \<Rightarrow> histogram_edits old new)"

interpretation chosen: diff_algorithm "run_algorithm algorithm" for algorithm
  by unfold_locales
    (cases algorithm; simp add: run_algorithm_def myers.diff_script histogram.diff_script)

definition equal_chunk :: "nat \<Rightarrow> pair_chunk list" where
  "equal_chunk n = (if 0 < n then [\<lparr>ch_equal = n, ch_left = 0, ch_right = 0\<rparr>] else [])"

definition diff_chunks :: "utext list \<Rightarrow> utext list \<Rightarrow> merge_diff_algorithm \<Rightarrow> pair_chunk list" where
  "diff_chunks left right algorithm =
     (let p = common_prefix_len left right;
          s = common_suffix_len p left right;
          left_mid = slice left p (length left - s);
          right_mid = slice right p (length right - s);
          edits = run_algorithm algorithm (map normalized_without_whitespace left_mid)
            (map normalized_without_whitespace right_mid)
      in equal_chunk p @ pair_chunks edits @ equal_chunk s)"

text \<open>The lines of either side that a list of chunks accounts for.\<close>

definition left_total :: "pair_chunk list \<Rightarrow> nat" where
  "left_total chunks = sum_list (map (\<lambda>ch. ch_equal ch + ch_left ch) chunks)"

definition right_total :: "pair_chunk list \<Rightarrow> nat" where
  "right_total chunks = sum_list (map (\<lambda>ch. ch_equal ch + ch_right ch) chunks)"

lemma total_simps [simp]:
  "left_total [] = 0" "right_total [] = 0"
  "left_total (ch # chs) = ch_equal ch + ch_left ch + left_total chs"
  "right_total (ch # chs) = ch_equal ch + ch_right ch + right_total chs"
  "left_total (xs @ ys) = left_total xs + left_total ys"
  "right_total (xs @ ys) = right_total xs + right_total ys"
  "left_total (equal_chunk n) = n" "right_total (equal_chunk n) = n"
  by (simp_all add: left_total_def right_total_def equal_chunk_def)

lemma equal_run_sides:
  "\<forall>e\<in>set xs. edit_ok e \<and> ed_kind e = Equal \<Longrightarrow>
    length (old_side xs) = length xs \<and> length (new_side xs) = length xs"
proof (induction xs)
  case (Cons e xs)
  then have "edit_ok e" "ed_kind e = Equal"
    by simp_all
  then show ?case
    by (cases rule: edit_ok_cases) (use Cons in auto)
qed simp

lemma change_run_new_length:
  "\<forall>e\<in>set xs. edit_ok e \<and> ed_kind e \<noteq> Equal \<Longrightarrow>
    length (new_side xs) = length (filter (\<lambda>e. ed_kind e = Insert) xs)"
proof (induction xs)
  case (Cons e xs)
  then have "edit_ok e" "ed_kind e \<noteq> Equal"
    by simp_all
  then show ?case
    by (cases rule: edit_ok_cases) (use Cons in auto)
qed simp

lemma pair_chunks_total:
  "\<forall>e\<in>set es. edit_ok e \<Longrightarrow>
    left_total (pair_chunks es) = length (old_side es) \<and> right_total (pair_chunks es) = length (new_side es)"
proof (induction es rule: pair_chunks.induct)
  case (2 e es)
  define eq where "eq = takeWhile (\<lambda>e. ed_kind e = Equal) (e # es)"
  define rest where "rest = dropWhile (\<lambda>e. ed_kind e = Equal) (e # es)"
  define ch where "ch = takeWhile (\<lambda>e. ed_kind e \<noteq> Equal) rest"
  define tail where "tail = dropWhile (\<lambda>e. ed_kind e \<noteq> Equal) rest"
  define chunk where "chunk = \<lparr>ch_equal = length eq, ch_left = length (filter (\<lambda>e. ed_kind e = Delete) ch),
      ch_right = length (filter (\<lambda>e. ed_kind e = Insert) ch)\<rparr>"
  have eqs: "pair_chunks (e # es) = (if chunk \<noteq> chunk_default then [chunk] else []) @ pair_chunks tail"
    unfolding eq_def rest_def ch_def tail_def chunk_def by (simp only: pair_chunks.simps Let_def)
  have split: "e # es = eq @ ch @ tail"
    unfolding eq_def ch_def tail_def rest_def by simp
  have ok: "\<forall>e\<in>set eq. edit_ok e \<and> ed_kind e = Equal" "\<forall>e\<in>set ch. edit_ok e \<and> ed_kind e \<noteq> Equal"
    "\<forall>e\<in>set tail. edit_ok e"
    using "2.prems" unfolding split by (auto simp: eq_def ch_def dest: set_takeWhileD)
  have IH: "left_total (pair_chunks tail) = length (old_side tail)"
    "right_total (pair_chunks tail) = length (new_side tail)"
    using "2.IH" [OF eq_def rest_def ch_def chunk_def, folded tail_def, OF ok(3)] by blast+
  have chunk: "left_total (if chunk \<noteq> chunk_default then [chunk] else []) = ch_equal chunk + ch_left chunk"
    "right_total (if chunk \<noteq> chunk_default then [chunk] else []) = ch_equal chunk + ch_right chunk"
    by (auto simp: chunk_default_def)
  show ?case
    unfolding eqs total_simps chunk IH unfolding split
    using equal_run_sides [OF ok(1)] change_run_sides [OF ok(2)] change_run_new_length [OF ok(2)]
    by (simp add: chunk_def)
qed simp

lemma diff_chunks_total:
  "left_total (diff_chunks left right algorithm) = length left"
  "right_total (diff_chunks left right algorithm) = length right"
proof -
  let ?p = "common_prefix_len left right"
  let ?s = "common_suffix_len ?p left right"
  let ?l = "map normalized_without_whitespace (slice left ?p (length left - ?s))"
  let ?r = "map normalized_without_whitespace (slice right ?p (length right - ?s))"
  have "\<forall>e\<in>set (run_algorithm algorithm ?l ?r). edit_ok e"
    using chosen.diff_script by (auto simp: script_for_def)
  then have "left_total (pair_chunks (run_algorithm algorithm ?l ?r)) = length ?l"
    "right_total (pair_chunks (run_algorithm algorithm ?l ?r)) = length ?r"
    using pair_chunks_total chosen.old_side_diff chosen.new_side_diff by metis+
  moreover have "length ?l = length left - ?s - ?p" "length ?r = length right - ?s - ?p"
    by simp_all
  moreover have "?s \<le> length left - ?p" "?s \<le> length right - ?p" "?p \<le> length left" "?p \<le> length right"
    by (rule common_suffix_len_le common_prefix_len_le1 common_prefix_len_le2)+
  moreover have "left_total (diff_chunks left right algorithm) =
      ?p + (left_total (pair_chunks (run_algorithm algorithm ?l ?r)) + ?s)"
    "right_total (diff_chunks left right algorithm) =
      ?p + (right_total (pair_chunks (run_algorithm algorithm ?l ?r)) + ?s)"
    unfolding diff_chunks_def Let_def total_simps by (rule refl)+
  ultimately show "left_total (diff_chunks left right algorithm) = length left"
    "right_total (diff_chunks left right algorithm) = length right"
    by linarith+
qed

lemma run_algorithm_Nil [simp]: "run_algorithm algorithm [] [] = []"
  by (cases algorithm) (simp_all add: run_algorithm_def myers_edits_def myers_fallback_edits_def
      histogram_edits_def patience_max_depth_def numeral_eq_Suc Let_def)

lemma diff_chunks_same: "diff_chunks ls ls algorithm = equal_chunk (length ls)"
  by (simp add: diff_chunks_def Let_def common_suffix_len_def) (simp add: equal_chunk_def)

section \<open>Segments of a manual alignment\<close>

definition push_segment :: "(range \<times> range) list \<Rightarrow> range \<Rightarrow> range \<Rightarrow> (range \<times> range) list" where
  "push_segment segments left right =
     (if \<not> rng_empty left \<or> \<not> rng_empty right then segments @ [(left, right)] else segments)"

definition segment_step ::
  "bool \<Rightarrow> merge_source \<Rightarrow> nat \<Rightarrow> merge_source \<Rightarrow> nat \<Rightarrow> manual_alignment \<Rightarrow>
    (range \<times> range) list \<times> nat \<times> nat \<Rightarrow> (range \<times> range) list \<times> nat \<times> nat" where
  "segment_step three_way left left_len right right_len entry = (\<lambda>(segments, left_cursor, right_cursor).
     let pinned_left = source_range entry left three_way;
         pinned_right = source_range entry right three_way
     in if rng_end pinned_left > left_len \<or> rng_end pinned_right > right_len
           \<or> rng_start pinned_left < left_cursor \<or> rng_start pinned_right < right_cursor
        then (segments, left_cursor, right_cursor)
        else (push_segment
                (push_segment segments (left_cursor, rng_start pinned_left) (right_cursor, rng_start pinned_right))
                pinned_left pinned_right,
              rng_end pinned_left, rng_end pinned_right))"

definition alignment_segments ::
  "manual_alignment list \<Rightarrow> bool \<Rightarrow> merge_source \<Rightarrow> nat \<Rightarrow> merge_source \<Rightarrow> nat \<Rightarrow> (range \<times> range) list" where
  "alignment_segments ents three_way left left_len right right_len =
     (let (segments, left_cursor, right_cursor) =
            fold (segment_step three_way left left_len right right_len) ents ([], 0, 0)
      in if segments = [] then segments
         else push_segment segments (left_cursor, left_len) (right_cursor, right_len))"

definition diff_chunks_segmented ::
  "utext list \<Rightarrow> utext list \<Rightarrow> merge_diff_algorithm \<Rightarrow> (range \<times> range) list \<Rightarrow> pair_chunk list" where
  "diff_chunks_segmented left right algorithm segments =
     (if segments = [] then diff_chunks left right algorithm
      else concat (map (\<lambda>(left_range, right_range).
        diff_chunks (slice left (rng_start left_range) (rng_end left_range))
          (slice right (rng_start right_range) (rng_end right_range)) algorithm) segments))"

text \<open>
  The ranges an entry holds when it was built by \<open>ManualAlignment::new\<close>; the slices above would be out
  of range without it.
\<close>

definition alignment_wf :: "manual_alignment \<Rightarrow> bool" where
  "alignment_wf al \<longleftrightarrow> (\<forall>r\<in>{al_base al, al_local al, al_remote al}. rng_start r \<le> rng_end r)"

lemma alignment_wf_new [simp]: "alignment_wf (manual_alignment_new base local remote)"
  by (simp add: alignment_wf_def manual_alignment_new_def normalize_range_def)

lemma source_range_wf: "alignment_wf al \<Longrightarrow> rng_start (source_range al s t) \<le> rng_end (source_range al s t)"
  by (cases s) (auto simp: alignment_wf_def source_range_def plan_ranges_def)

text \<open>Segments that follow one another without a gap, from one pair of positions to another.\<close>

fun contiguous :: "(range \<times> range) list \<Rightarrow> nat \<Rightarrow> nat \<Rightarrow> nat \<Rightarrow> nat \<Rightarrow> bool" where
  "contiguous [] l r l' r' \<longleftrightarrow> l = l' \<and> r = r'"
| "contiguous ((a, b) # ss) l r l' r' \<longleftrightarrow>
     fst a = l \<and> fst b = r \<and> fst a \<le> snd a \<and> fst b \<le> snd b \<and> contiguous ss (snd a) (snd b) l' r'"

lemma contiguous_append:
  "contiguous (ss @ ts) l r l' r' \<longleftrightarrow> (\<exists>m n. contiguous ss l r m n \<and> contiguous ts m n l' r')"
  by (induction ss l r l' r' rule: contiguous.induct) auto

lemma contiguous_le: "contiguous ss l r l' r' \<Longrightarrow> l \<le> l' \<and> r \<le> r'"
  by (induction ss l r l' r' rule: contiguous.induct) auto

lemma contiguous_push:
  assumes "contiguous ss l r m n" "m \<le> m'" "n \<le> n'"
  shows "contiguous (push_segment ss (m, m') (n, n')) l r m' n'"
  using assms by (auto simp: push_segment_def rng_empty_def contiguous_append)

lemma segment_step_contiguous:
  assumes "contiguous ss 0 0 m n" "m \<le> left_len" "n \<le> right_len" "alignment_wf entry"
    and "segment_step three_way left left_len right right_len entry (ss, m, n) = (ss', m', n')"
  shows "contiguous ss' 0 0 m' n' \<and> m' \<le> left_len \<and> n' \<le> right_len"
proof -
  let ?l = "source_range entry left three_way" and ?r = "source_range entry right three_way"
  have wf: "fst ?l \<le> snd ?l" "fst ?r \<le> snd ?r"
    using source_range_wf [OF assms(4)] by blast+
  show ?thesis
  proof (cases "snd ?l > left_len \<or> snd ?r > right_len \<or> fst ?l < m \<or> fst ?r < n")
    case True
    then show ?thesis
      using assms by (simp add: segment_step_def Let_def)
  next
    case False
    have "contiguous (push_segment ss (m, fst ?l) (n, fst ?r)) 0 0 (fst ?l) (fst ?r)"
      using contiguous_push [OF assms(1)] False by simp
    from contiguous_push [OF this wf]
    have "contiguous (push_segment (push_segment ss (m, fst ?l) (n, fst ?r)) ?l ?r) 0 0 (snd ?l) (snd ?r)"
      by simp
    then show ?thesis
      using assms(5) False by (auto simp: segment_step_def Let_def)
  qed
qed

lemma segments_fold_contiguous:
  "\<forall>e\<in>set ents. alignment_wf e \<Longrightarrow> contiguous ss 0 0 m n \<Longrightarrow> m \<le> left_len \<Longrightarrow> n \<le> right_len \<Longrightarrow>
    fold (segment_step three_way left left_len right right_len) ents (ss, m, n) = (ss', m', n') \<Longrightarrow>
    contiguous ss' 0 0 m' n' \<and> m' \<le> left_len \<and> n' \<le> right_len"
proof (induction ents arbitrary: ss m n)
  case (Cons e ents)
  obtain ss1 m1 n1 where step: "segment_step three_way left left_len right right_len e (ss, m, n) = (ss1, m1, n1)"
    by (metis prod_cases3)
  with segment_step_contiguous [OF Cons.prems(2-4) _ step] Cons.IH [of ss1 m1 n1] Cons.prems show ?case
    by simp
qed simp

lemma alignment_segments_contiguous:
  assumes "\<forall>e\<in>set ents. alignment_wf e"
    and "alignment_segments ents three_way left left_len right right_len \<noteq> []"
  shows "contiguous (alignment_segments ents three_way left left_len right right_len) 0 0 left_len right_len"
proof -
  obtain ss m n where f: "fold (segment_step three_way left left_len right right_len) ents ([], 0, 0) = (ss, m, n)"
    by (metis prod_cases3)
  from segments_fold_contiguous [OF assms(1) _ _ _ f] have "contiguous ss 0 0 m n" "m \<le> left_len" "n \<le> right_len"
    by simp_all
  then show ?thesis
    using assms(2) contiguous_push by (auto simp: alignment_segments_def f)
qed

lemma segmented_total:
  "contiguous ss l r l' r' \<Longrightarrow> l' \<le> length left \<Longrightarrow> r' \<le> length right \<Longrightarrow>
    left_total (concat (map (\<lambda>(a, b). diff_chunks (slice left (fst a) (snd a)) (slice right (fst b) (snd b)) algorithm) ss))
      = l' - l \<and>
    right_total (concat (map (\<lambda>(a, b). diff_chunks (slice left (fst a) (snd a)) (slice right (fst b) (snd b)) algorithm) ss))
      = r' - r"
proof (induction ss l r l' r' rule: contiguous.induct)
  case (2 a b ss l r l' r')
  then have "snd a \<le> l'" "snd b \<le> r'"
    using contiguous_le [of ss "snd a" "snd b" l' r'] by auto
  then show ?case
    using 2 by (auto simp: diff_chunks_total)
qed simp

lemma diff_chunks_segmented_total:
  fixes left right :: "utext list"
  assumes "\<forall>e\<in>set ents. alignment_wf e"
    and "segments = alignment_segments ents three_way s (length left) t (length right)"
  shows "left_total (diff_chunks_segmented left right algorithm segments) = length left \<and>
    right_total (diff_chunks_segmented left right algorithm segments) = length right"
proof (cases "segments = []")
  case True
  then show ?thesis
    by (simp add: diff_chunks_segmented_def diff_chunks_total)
next
  case False
  have "contiguous segments 0 0 (length left) (length right)"
    using alignment_segments_contiguous [OF assms(1)] False assms(2) by simp
  from segmented_total [OF this order_refl order_refl] show ?thesis
    using False by (simp add: diff_chunks_segmented_def)
qed

lemma alignment_segments_none [simp]: "alignment_segments [] three_way s m t n = []"
  by (simp add: alignment_segments_def)

section \<open>Barriers\<close>

record alignment_barriers =
  bar_a :: "nat list"
  bar_b :: "nat list"
  bar_c :: "nat list"

definition barriers_push :: "bool \<Rightarrow> manual_alignment \<Rightarrow> alignment_barriers \<Rightarrow> alignment_barriers" where
  "barriers_push three_way entry bar =
     (let bounds = (\<lambda>s. let r = source_range entry s three_way in [rng_start r, rng_end r])
      in \<lparr>bar_a = bar_a bar @ bounds A, bar_b = bar_b bar @ bounds B, bar_c = bar_c bar @ bounds C\<rparr>)"

definition barriers_new :: "manual_alignment list \<Rightarrow> bool \<Rightarrow> alignment_barriers" where
  "barriers_new ents three_way =
     fold (barriers_push three_way) ents \<lparr>bar_a = [], bar_b = [], bar_c = []\<rparr>"

definition barriers_empty :: "alignment_barriers \<Rightarrow> bool" where
  "barriers_empty bar \<longleftrightarrow> bar_a bar = [] \<and> bar_b bar = [] \<and> bar_c bar = []"

text \<open>
  \<open>partition_point\<close> is the length of the prefix of bounds at or below the line; the bounds of an ordered
  list of alignments are sorted, so this prefix holds all of them.
\<close>

definition barrier_segment :: "alignment_barriers \<Rightarrow> merge_source \<Rightarrow> nat \<Rightarrow> nat" where
  "barrier_segment bar source line =
     length (takeWhile (\<lambda>bound. bound \<le> line)
       (case source of A \<Rightarrow> bar_a bar | B \<Rightarrow> bar_b bar | C \<Rightarrow> bar_c bar))"

lemma barriers_new_Nil [simp]: "barriers_empty (barriers_new [] three_way)"
  by (simp add: barriers_new_def barriers_empty_def)

definition barrier_bounds :: "manual_alignment list \<Rightarrow> merge_source \<Rightarrow> bool \<Rightarrow> nat list" where
  "barrier_bounds ents s three_way =
     concat (map (\<lambda>e. [rng_start (source_range e s three_way), rng_end (source_range e s three_way)]) ents)"

lemma barriers_fold:
  "bar_a (fold (barriers_push t) ents bar) = bar_a bar @ barrier_bounds ents A t"
  "bar_b (fold (barriers_push t) ents bar) = bar_b bar @ barrier_bounds ents B t"
  "bar_c (fold (barriers_push t) ents bar) = bar_c bar @ barrier_bounds ents C t"
  by (induction ents arbitrary: bar) (simp_all add: barriers_push_def barrier_bounds_def Let_def)

lemma barrier_bounds_sorted:
  "sorted_wrt strictly_precedes ents \<Longrightarrow> \<forall>e\<in>set ents. alignment_wf e \<Longrightarrow> sorted (barrier_bounds ents s t)"
proof (induction ents)
  case (Cons e ents)
  have first: "rng_end (source_range e s t) \<le> rng_start (source_range f s t)" if "f \<in> set ents" for f
  proof -
    have "strictly_precedes e f"
      using Cons.prems(1) that by simp
    then show ?thesis
      by (cases s; cases t) (auto simp: strictly_precedes_def source_range_def plan_ranges_def Let_def)
  qed
  have "rng_end (source_range e s t) \<le> x" if "x \<in> set (barrier_bounds ents s t)" for x
  proof -
    obtain f where "f \<in> set ents" "x = rng_start (source_range f s t) \<or> x = rng_end (source_range f s t)"
      using \<open>x \<in> set (barrier_bounds ents s t)\<close> by (auto simp: barrier_bounds_def)
    then show ?thesis
      using first source_range_wf [of f s t] Cons.prems(2) by fastforce
  qed
  moreover have "rng_start (source_range e s t) \<le> rng_end (source_range e s t)"
    using source_range_wf Cons.prems(2) by simp
  moreover have "barrier_bounds (e # ents) s t
      = rng_start (source_range e s t) # rng_end (source_range e s t) # barrier_bounds ents s t"
    by (simp add: barrier_bounds_def)
  ultimately show ?case
    using Cons by fastforce
qed (simp add: barrier_bounds_def)

lemma takeWhile_sorted: "sorted xs \<Longrightarrow> takeWhile (\<lambda>x. x \<le> k) xs = filter (\<lambda>x. x \<le> (k :: nat)) xs"
proof (induction xs)
  case (Cons x xs)
  then show ?case
    by (cases "x \<le> k") (auto intro!: filter_False [symmetric])
qed simp

text \<open>Under sorted bounds the scan counts every bound at or below the line, as \<open>partition_point\<close> does.\<close>

lemma barrier_segment_counts:
  assumes "alignments_ok l" "\<forall>e\<in>set (entries l). alignment_wf e"
  shows "barrier_segment (barriers_new (entries l) t) s line =
    length (filter (\<lambda>bound. bound \<le> line) (barrier_bounds (entries l) s t))"
proof -
  have "sorted (barrier_bounds (entries l) s t)"
    using barrier_bounds_sorted assms by (simp add: alignments_ok_def)
  then have "takeWhile (\<lambda>b. b \<le> line) (barrier_bounds (entries l) s t) =
      filter (\<lambda>b. b \<le> line) (barrier_bounds (entries l) s t)"
    by (rule takeWhile_sorted)
  then show ?thesis
    by (cases s) (simp_all add: barrier_segment_def barriers_new_def barriers_fold)
qed

end
