(* ===== verification/Rows.thy ===== *)
theory Rows
  imports Chunks
begin

text \<open>
  Aligned rows and the row list of \<open>merge/plan.rs\<close>: rows with their equality metadata, the doubly linked
  \<open>RowList\<close> with its walks, and the first alignment pass \<open>build_ab\<close>.

  The list is modelled as it is stored (nodes with \<open>previous\<close> and \<open>next\<close> indices). \<open>linked rl ids\<close> is its
  invariant: \<open>ids\<close> is the order of the nodes. Under it every walk is a suffix of \<open>ids\<close>, and insertion
  puts the new node in front of its successor.
\<close>

section \<open>Rows\<close>

record aligned_row =
  row_a :: "nat option"
  row_b :: "nat option"
  row_c :: "nat option"
  equal_ab :: bool
  equal_ac :: bool
  equal_bc :: bool
  whitespace_equal_ab :: bool
  whitespace_equal_ac :: bool
  whitespace_equal_bc :: bool
  whitespace_a :: bool
  whitespace_b :: bool
  whitespace_c :: bool

definition row_default :: aligned_row where
  "row_default = \<lparr>row_a = None, row_b = None, row_c = None,
     equal_ab = False, equal_ac = False, equal_bc = False,
     whitespace_equal_ab = False, whitespace_equal_ac = False, whitespace_equal_bc = False,
     whitespace_a = True, whitespace_b = True, whitespace_c = True\<rparr>"

fun row_line :: "aligned_row \<Rightarrow> merge_source \<Rightarrow> nat option" where
  "row_line r A = row_a r"
| "row_line r B = row_b r"
| "row_line r C = row_c r"

fun set_line :: "merge_source \<Rightarrow> nat option \<Rightarrow> aligned_row \<Rightarrow> aligned_row" where
  "set_line A v r = r\<lparr>row_a := v\<rparr>"
| "set_line B v r = r\<lparr>row_b := v\<rparr>"
| "set_line C v r = r\<lparr>row_c := v\<rparr>"

lemma row_line_set_line [simp]: "row_line (set_line s v r) t = (if s = t then v else row_line r t)"
  by (cases s; cases t) simp_all

lemma row_line_default [simp]: "row_line row_default s = None"
  by (cases s) (simp_all add: row_default_def)

definition pair_metadata :: "nat option \<Rightarrow> nat option \<Rightarrow> utext list \<Rightarrow> utext list \<Rightarrow> bool \<times> bool" where
  "pair_metadata left right left_lines right_lines =
     (case (left, right) of
        (Some i, Some j) \<Rightarrow>
          (case nth_opt left_lines i of None \<Rightarrow> (False, False)
           | Some l \<Rightarrow> (case nth_opt right_lines j of None \<Rightarrow> (False, False)
             | Some r \<Rightarrow> let equal = (l = r) in (equal, equal \<or> equal_ignoring_whitespace l r)))
      | _ \<Rightarrow> (False, False))"

definition blank_or_missing :: "nat option \<Rightarrow> utext list \<Rightarrow> bool" where
  "blank_or_missing i ls =
     (case Option.bind i (nth_opt ls) of None \<Rightarrow> True | Some l \<Rightarrow> trim l = [])"

definition recompute_row_metadata ::
  "utext list \<Rightarrow> utext list \<Rightarrow> utext list \<Rightarrow> aligned_row \<Rightarrow> aligned_row" where
  "recompute_row_metadata al bl cl r =
     r\<lparr>equal_ab := fst (pair_metadata (row_a r) (row_b r) al bl),
       whitespace_equal_ab := snd (pair_metadata (row_a r) (row_b r) al bl),
       equal_ac := fst (pair_metadata (row_a r) (row_c r) al cl),
       whitespace_equal_ac := snd (pair_metadata (row_a r) (row_c r) al cl),
       equal_bc := fst (pair_metadata (row_b r) (row_c r) bl cl),
       whitespace_equal_bc := snd (pair_metadata (row_b r) (row_c r) bl cl),
       whitespace_a := blank_or_missing (row_a r) al,
       whitespace_b := blank_or_missing (row_b r) bl,
       whitespace_c := blank_or_missing (row_c r) cl\<rparr>"

lemma recompute_lines [simp]: "row_line (recompute_row_metadata al bl cl r) s = row_line r s"
  by (cases s) (simp_all add: recompute_row_metadata_def)

lemma recompute_fields [simp]:
  "row_a (recompute_row_metadata al bl cl r) = row_a r"
  "row_b (recompute_row_metadata al bl cl r) = row_b r"
  "row_c (recompute_row_metadata al bl cl r) = row_c r"
  by (simp_all add: recompute_row_metadata_def)

lemma recompute_idem [simp]:
  "recompute_row_metadata al bl cl (recompute_row_metadata al bl cl r) = recompute_row_metadata al bl cl r"
  by (simp add: recompute_row_metadata_def)

definition line_equal :: "nat option \<Rightarrow> nat option \<Rightarrow> utext list \<Rightarrow> utext list \<Rightarrow> bool" where
  "line_equal left right left_lines right_lines =
     (case (left, right) of (Some i, Some j) \<Rightarrow> nth_opt left_lines i = nth_opt right_lines j | _ \<Rightarrow> False)"

text \<open>The lines of one source in a list of rows.\<close>

definition column :: "merge_source \<Rightarrow> aligned_row list \<Rightarrow> nat list" where
  "column s rows = filter_map (\<lambda>r. row_line r s) rows"

lemma column_simps [simp]:
  "column s [] = []"
  "column s (r # rs) = (case row_line r s of None \<Rightarrow> column s rs | Some i \<Rightarrow> i # column s rs)"
  "column s (rs @ rs') = column s rs @ column s rs'"
  by (simp_all add: column_def split: option.split)

lemma column_recompute [simp]: "column s (map (recompute_row_metadata al bl cl) rows) = column s rows"
  by (simp add: column_def)

lemma column_empty: "(\<And>r. r \<in> set rows \<Longrightarrow> row_line r s = None) \<Longrightarrow> column s rows = []"
  unfolding column_def by (rule filter_map_None)

section \<open>The row list\<close>

record row_node =
  nd_row :: aligned_row
  nd_previous :: "nat option"
  nd_next :: "nat option"
  nd_alive :: bool

record row_list =
  nodes :: "row_node list"
  first :: "nat option"
  last_node :: "nat option"

definition rl_empty :: row_list where
  "rl_empty = \<lparr>nodes = [], first = None, last_node = None\<rparr>"

definition set_next :: "nat \<Rightarrow> nat option \<Rightarrow> row_list \<Rightarrow> row_list" where
  "set_next i v rl = rl\<lparr>nodes := (nodes rl)[i := (nodes rl ! i)\<lparr>nd_next := v\<rparr>]\<rparr>"

definition set_previous :: "nat \<Rightarrow> nat option \<Rightarrow> row_list \<Rightarrow> row_list" where
  "set_previous i v rl = rl\<lparr>nodes := (nodes rl)[i := (nodes rl ! i)\<lparr>nd_previous := v\<rparr>]\<rparr>"

definition upd_row :: "nat \<Rightarrow> (aligned_row \<Rightarrow> aligned_row) \<Rightarrow> row_list \<Rightarrow> row_list" where
  "upd_row i f rl = rl\<lparr>nodes := (nodes rl)[i := (nodes rl ! i)\<lparr>nd_row := f (nd_row (nodes rl ! i))\<rparr>]\<rparr>"

abbreviation rl_row :: "row_list \<Rightarrow> nat \<Rightarrow> aligned_row" where
  "rl_row rl i \<equiv> nd_row (nodes rl ! i)"

definition insert_before :: "row_list \<Rightarrow> nat option \<Rightarrow> aligned_row \<Rightarrow> row_list \<times> nat" where
  "insert_before rl pos row =
     (let previous = (case pos of
            Some i \<Rightarrow> Option.bind (nth_opt (nodes rl) i) nd_previous
          | None \<Rightarrow> last_node rl);
          new = length (nodes rl);
          rl = rl\<lparr>nodes := nodes rl @ [\<lparr>nd_row = row, nd_previous = previous, nd_next = pos, nd_alive = True\<rparr>]\<rparr>;
          rl = (case previous of Some p \<Rightarrow> set_next p (Some new) rl | None \<Rightarrow> rl\<lparr>first := Some new\<rparr>);
          rl = (case pos of Some i \<Rightarrow> set_previous i (Some new) rl | None \<Rightarrow> rl\<lparr>last_node := Some new\<rparr>)
      in (rl, new))"

definition push_back :: "row_list \<Rightarrow> aligned_row \<Rightarrow> row_list" where
  "push_back rl row = fst (insert_before rl None row)"

definition next_id :: "row_list \<Rightarrow> nat \<Rightarrow> nat option" where
  "next_id rl i = Option.bind (nth_opt (nodes rl) i) nd_next"

text \<open>
  The ids a \<open>while let Some(id) = cursor\<close> loop visits. The four loops of the list differ only in what they
  do with an id. A list of \<open>n\<close> nodes is walked with fuel \<open>n\<close>; under the invariant of the list no walk is longer.
\<close>

fun walk :: "row_list \<Rightarrow> nat \<Rightarrow> nat option \<Rightarrow> nat list" where
  "walk rl 0 cursor = []"
| "walk rl (Suc fuel) None = []"
| "walk rl (Suc fuel) (Some i) = i # walk rl fuel (next_id rl i)"

abbreviation ids_from :: "row_list \<Rightarrow> nat option \<Rightarrow> nat list" where
  "ids_from rl cursor \<equiv> walk rl (length (nodes rl)) cursor"

definition find_from :: "row_list \<Rightarrow> nat option \<Rightarrow> merge_source \<Rightarrow> nat \<Rightarrow> nat option" where
  "find_from rl cursor source line =
     find (\<lambda>i. nd_alive (nodes rl ! i) \<and> row_line (rl_row rl i) source = Some line) (ids_from rl cursor)"

definition comes_before :: "row_list \<Rightarrow> nat \<Rightarrow> nat \<Rightarrow> bool" where
  "comes_before rl left right \<longleftrightarrow> right \<in> set (ids_from rl (Some left))"

definition ids_between :: "row_list \<Rightarrow> nat \<Rightarrow> nat \<Rightarrow> nat list" where
  "ids_between rl start stop = takeWhile (\<lambda>i. i \<noteq> stop) (ids_from rl (Some start))"

definition into_rows :: "row_list \<Rightarrow> aligned_row list" where
  "into_rows rl = map (rl_row rl) (filter (\<lambda>i. nd_alive (nodes rl ! i)) (ids_from rl (first rl)))"

definition from_rows :: "aligned_row list \<Rightarrow> row_list" where
  "from_rows rows = foldl push_back rl_empty rows"

definition recompute_rows_in_list ::
  "utext list \<Rightarrow> utext list \<Rightarrow> utext list \<Rightarrow> row_list \<Rightarrow> row_list" where
  "recompute_rows_in_list al bl cl rl = rl\<lparr>nodes := map (\<lambda>n.
     if nd_alive n then n\<lparr>nd_row := recompute_row_metadata al bl cl (nd_row n)\<rparr> else n) (nodes rl)\<rparr>"

section \<open>The invariant of the list\<close>

definition linked :: "row_list \<Rightarrow> nat list \<Rightarrow> bool" where
  "linked rl ids \<longleftrightarrow>
     distinct ids \<and> set ids = {..<length (nodes rl)} \<and>
     first rl = (if ids = [] then None else Some (hd ids)) \<and>
     last_node rl = (if ids = [] then None else Some (last ids)) \<and>
     (\<forall>i<length ids. nd_alive (nodes rl ! (ids ! i)) \<and>
        nd_next (nodes rl ! (ids ! i)) = nth_opt ids (Suc i) \<and>
        nd_previous (nodes rl ! (ids ! i)) = (if i = 0 then None else Some (ids ! (i - 1))))"

abbreviation rows_of :: "row_list \<Rightarrow> nat list \<Rightarrow> aligned_row list" where
  "rows_of rl ids \<equiv> map (rl_row rl) ids"

lemma linked_length: "linked rl ids \<Longrightarrow> length ids = length (nodes rl)"
  by (metis card_lessThan distinct_card linked_def)

lemma linked_empty [simp]: "linked rl_empty []"
  by (simp add: linked_def rl_empty_def)

lemma linked_next:
  "linked rl (xs @ x # ys) \<Longrightarrow> next_id rl x = (if ys = [] then None else Some (hd ys))"
proof -
  assume l: "linked rl (xs @ x # ys)"
  then have "x < length (nodes rl)"
    by (auto simp: linked_def)
  moreover have "nd_next (nodes rl ! ((xs @ x # ys) ! length xs)) = nth_opt (xs @ x # ys) (Suc (length xs))"
    using l unfolding linked_def by (metis (no_types, lifting) add_lessD1 length_append length_Cons
        less_add_Suc1 add_Suc_right)
  ultimately show ?thesis
    by (cases ys) (simp_all add: next_id_def nth_opt_def nth_append)
qed

lemma walk_linked:
  "linked rl (xs @ ys) \<Longrightarrow> length ys \<le> fuel \<Longrightarrow>
    walk rl fuel (if ys = [] then None else Some (hd ys)) = ys"
proof (induction ys arbitrary: xs fuel)
  case Nil
  then show ?case
    by (cases fuel) simp_all
next
  case (Cons y ys)
  then obtain f where f: "fuel = Suc f" "length ys \<le> f"
    by (cases fuel) auto
  have "walk rl f (next_id rl y) = ys"
    using Cons.IH [of "xs @ [y]" f] Cons.prems(1) f(2) linked_next [OF Cons.prems(1)] by simp
  then show ?case
    by (simp add: f(1))
qed

lemma ids_from_linked:
  "linked rl (xs @ ys) \<Longrightarrow> ids_from rl (if ys = [] then None else Some (hd ys)) = ys"
  using walk_linked [of rl xs ys] linked_length [of rl "xs @ ys"] by simp

lemma ids_from_first: "linked rl ids \<Longrightarrow> ids_from rl (first rl) = ids"
  using ids_from_linked [of rl "[]" ids] by (simp add: linked_def)

lemma linked_bound: "linked rl ids \<Longrightarrow> i \<in> set ids \<longleftrightarrow> i < length (nodes rl)"
  by (auto simp: linked_def)

lemma linked_alive: "linked rl ids \<Longrightarrow> i \<in> set ids \<Longrightarrow> nd_alive (nodes rl ! i)"
  unfolding linked_def by (metis in_set_conv_nth)

lemma into_rows_linked: "linked rl ids \<Longrightarrow> into_rows rl = rows_of rl ids"
  using ids_from_first [of rl ids] linked_alive [of rl ids] by (auto simp: into_rows_def intro!: filter_True)

text \<open>What an insertion does to the nodes.\<close>

lemma insert_before_nodes:
  fixes rl :: row_list and before :: "nat option"
  assumes "prev = (case before of Some i \<Rightarrow> Option.bind (nth_opt (nodes rl) i) nd_previous | None \<Rightarrow> last_node rl)"
    and "\<forall>p. prev = Some p \<longrightarrow> p < length (nodes rl)" "\<forall>i. before = Some i \<longrightarrow> i < length (nodes rl)"
    and "(rl', new) = insert_before rl before row"
  shows "new = length (nodes rl)" "length (nodes rl') = Suc (length (nodes rl))"
    "nd_row (nodes rl' ! new) = row" "nd_alive (nodes rl' ! new)" "nd_next (nodes rl' ! new) = before"
    "nd_previous (nodes rl' ! new) = prev"
    "first rl' = (if prev = None then Some new else first rl)"
    "last_node rl' = (if before = None then Some new else last_node rl)"
    "\<And>i. i < length (nodes rl) \<Longrightarrow> nd_row (nodes rl' ! i) = nd_row (nodes rl ! i)"
    "\<And>i. i < length (nodes rl) \<Longrightarrow> nd_alive (nodes rl' ! i) = nd_alive (nodes rl ! i)"
    "\<And>i. i < length (nodes rl) \<Longrightarrow> nd_next (nodes rl' ! i) = (if prev = Some i then Some new else nd_next (nodes rl ! i))"
    "\<And>i. i < length (nodes rl) \<Longrightarrow>
      nd_previous (nodes rl' ! i) = (if before = Some i then Some new else nd_previous (nodes rl ! i))"
  using assms(2-4) unfolding insert_before_def Let_def assms(1) [symmetric]
  by (cases prev; cases before; simp add: set_next_def set_previous_def nth_append nth_list_update; fail)+

lemma linked_at:
  assumes "linked rl ids" "i < length ids"
  shows "nd_next (nodes rl ! (ids ! i)) = nth_opt ids (Suc i)"
    "nd_previous (nodes rl ! (ids ! i)) = (if i = 0 then None else Some (ids ! (i - 1)))"
  using assms unfolding linked_def by blast+

lemma linkedI:
  assumes "distinct ids" "set ids = {..<length (nodes rl)}"
    "first rl = (if ids = [] then None else Some (hd ids))"
    "last_node rl = (if ids = [] then None else Some (last ids))"
    "\<And>i. i < length (nodes rl) \<Longrightarrow> nd_alive (nodes rl ! i)"
    "\<And>i. i < length ids \<Longrightarrow> nd_next (nodes rl ! (ids ! i)) = nth_opt ids (Suc i)"
    "\<And>i. i < length ids \<Longrightarrow> nd_previous (nodes rl ! (ids ! i)) = (if i = 0 then None else Some (ids ! (i - 1)))"
  shows "linked rl ids"
proof -
  have "nd_alive (nodes rl ! (ids ! i))" if "i < length ids" for i
    using assms(2,5) that nth_mem by blast
  then show ?thesis
    unfolding linked_def using assms(1-4,6,7) by blast
qed

text \<open>Where a node sits in the order after the insertion.\<close>

lemma insert_position_cases:
  assumes "i < length (xs @ x # ys)"
  obtains (Left) "i < length xs" "(xs @ x # ys) ! i = xs ! i"
  | (New) "i = length xs" "(xs @ x # ys) ! i = x"
  | (Right) j where "j < length ys" "i = Suc (length xs + j)" "(xs @ x # ys) ! i = ys ! j"
proof (cases "i \<le> length xs")
  case True
  then show ?thesis
    using Left New by (cases "i = length xs") (auto simp: nth_append)
next
  case False
  then obtain j where "i = Suc (length xs + j)"
    using less_iff_Suc_add not_le by blast
  then show ?thesis
    using assms by (intro Right [of j]) (simp_all add: nth_append)
qed

lemma linked_insert:
  assumes l: "linked rl (xs @ ys)" and before: "before = (if ys = [] then None else Some (hd ys))"
    and ins: "(rl', new) = insert_before rl before row"
  shows "linked rl' (xs @ new # ys)" "new = length (nodes rl)"
    "rl_row rl' new = row" "\<And>i. i \<in> set (xs @ ys) \<Longrightarrow> rl_row rl' i = rl_row rl i"
proof -
  let ?prev = "if xs = [] then None else Some (last xs)"
  let ?n = "length (nodes rl)"
  have inv: "distinct (xs @ ys)" "set (xs @ ys) = {..<?n}"
    "first rl = (if xs @ ys = [] then None else Some (hd (xs @ ys)))"
    "last_node rl = (if xs @ ys = [] then None else Some (last (xs @ ys)))"
    using l unfolding linked_def by blast+
  have prev: "?prev = (case before of Some i \<Rightarrow> Option.bind (nth_opt (nodes rl) i) nd_previous | None \<Rightarrow> last_node rl)"
  proof (cases ys)
    case Nil
    then show ?thesis
      using inv(4) before by simp
  next
    case (Cons y ys')
    then have "y < ?n"
      using inv(2) by auto
    moreover have "nd_previous (nodes rl ! y) = ?prev"
      using linked_at(2) [OF l, of "length xs"] Cons by (simp add: nth_append last_conv_nth)
    ultimately show ?thesis
      using before Cons by simp
  qed
  have prev_bound: "\<forall>p. ?prev = Some p \<longrightarrow> p < ?n"
  proof (intro allI impI)
    fix p
    assume "?prev = Some p"
    then have "p \<in> set (xs @ ys)"
      by (cases xs rule: rev_cases) simp_all
    then show "p < ?n"
      unfolding inv(2) by simp
  qed
  have before_bound: "\<forall>i. before = Some i \<longrightarrow> i < ?n"
  proof (intro allI impI)
    fix i
    assume "before = Some i"
    then have "i \<in> set (xs @ ys)"
      unfolding before by (cases ys) simp_all
    then show "i < ?n"
      unfolding inv(2) by simp
  qed
  note nodes' = insert_before_nodes [OF prev prev_bound before_bound ins]
  show new: "new = ?n"
    by (fact nodes'(1))
  show "rl_row rl' new = row"
    by (fact nodes'(3))
  show "rl_row rl' i = rl_row rl i" if "i \<in> set (xs @ ys)" for i
    using nodes'(9) inv(2) that by blast
  have n_xs: "xs ! i < ?n" if "i < length xs" for i
  proof -
    have "xs ! i \<in> set (xs @ ys)"
      using that by simp
    then show ?thesis
      unfolding inv(2) by simp
  qed
  have n_ys: "ys ! i < ?n" if "i < length ys" for i
  proof -
    have "ys ! i \<in> set (xs @ ys)"
      using that by simp
    then show ?thesis
      unfolding inv(2) by simp
  qed
  show "linked rl' (xs @ new # ys)"
  proof (rule linkedI)
    show "distinct (xs @ new # ys)"
      using inv(1,2) new by auto
    show "set (xs @ new # ys) = {..<length (nodes rl')}"
      using inv(2) nodes'(2) new by (simp add: lessThan_Suc Un_commute)
    show "first rl' = (if xs @ new # ys = [] then None else Some (hd (xs @ new # ys)))"
      unfolding nodes'(7) using inv(3) by (cases xs) simp_all
    show "last_node rl' = (if xs @ new # ys = [] then None else Some (last (xs @ new # ys)))"
      unfolding nodes'(8) using inv(4) before by (cases ys) simp_all
    show "nd_alive (nodes rl' ! i)" if "i < length (nodes rl')" for i
    proof (cases "i = ?n")
      case True
      then show ?thesis
        using nodes'(4) new by simp
    next
      case False
      then have "i < ?n"
        using that nodes'(2) by simp
      then show ?thesis
        using nodes'(10) linked_alive [OF l] linked_bound [OF l] by blast
    qed
  next
    fix i
    assume "i < length (xs @ new # ys)"
    then show "nd_next (nodes rl' ! ((xs @ new # ys) ! i)) = nth_opt (xs @ new # ys) (Suc i)"
    proof (cases rule: insert_position_cases)
      case Left
      have "?prev = Some (xs ! i) \<longleftrightarrow> Suc i = length xs"
      proof -
        have "xs \<noteq> []" "distinct xs"
          using Left(1) inv(1) by auto
        then show ?thesis
          using Left(1) nth_eq_iff_index_eq [of xs i "length xs - 1"] by (auto simp: last_conv_nth)
      qed
      moreover have "nd_next (nodes rl ! (xs ! i)) = nth_opt (xs @ ys) (Suc i)"
        using linked_at(1) [OF l, of i] Left(1) by (simp add: nth_append)
      ultimately show ?thesis
        unfolding Left(2) nodes'(11) [OF n_xs [OF Left(1)]]
        using Left(1) by (simp add: nth_append nth_opt_def)
    next
      case New
      show ?thesis
        unfolding New(2) nodes'(5) before using New(1) by (cases ys) (simp_all add: nth_append nth_opt_def)
    next
      case (Right j)
      have "?prev \<noteq> Some (ys ! j)"
      proof -
        have "ys ! j \<notin> set xs"
          using inv(1) nth_mem [OF Right(1)] by auto
        then show ?thesis
          by (cases xs rule: rev_cases) auto
      qed
      moreover have "nd_next (nodes rl ! (ys ! j)) = nth_opt ys (Suc j)"
        using linked_at(1) [OF l, of "length xs + j"] Right(1) by (simp add: nth_append nth_opt_def)
      ultimately show ?thesis
        unfolding Right(3) nodes'(11) [OF n_ys [OF Right(1)]]
        using Right(1,2) by (simp add: nth_append nth_opt_def)
    qed
  next
    fix i
    assume "i < length (xs @ new # ys)"
    then show "nd_previous (nodes rl' ! ((xs @ new # ys) ! i)) =
        (if i = 0 then None else Some ((xs @ new # ys) ! (i - 1)))"
    proof (cases rule: insert_position_cases)
      case Left
      have "before \<noteq> Some (xs ! i)"
      proof -
        have "xs ! i \<notin> set ys"
          using inv(1) nth_mem [OF Left(1)] by auto
        then show ?thesis
          unfolding before by (cases ys) auto
      qed
      moreover have "nd_previous (nodes rl ! (xs ! i)) = (if i = 0 then None else Some (xs ! (i - 1)))"
        using linked_at(2) [OF l, of i] Left(1) by (simp add: nth_append less_imp_diff_less)
      ultimately show ?thesis
        unfolding Left(2) nodes'(12) [OF n_xs [OF Left(1)]]
        using Left(1) by (simp add: nth_append less_imp_diff_less)
    next
      case New
      show ?thesis
        unfolding New(2) nodes'(6) using New(1) by (cases xs rule: rev_cases) (simp_all add: nth_append)
    next
      case (Right j)
      have "before = Some (ys ! j) \<longleftrightarrow> j = 0"
      proof -
        have "distinct ys" "ys \<noteq> []"
          using inv(1) Right(1) by auto
        then show ?thesis
          using nth_eq_iff_index_eq [of ys 0 j] Right(1) unfolding before by (auto simp: hd_conv_nth)
      qed
      moreover have "nd_previous (nodes rl ! (ys ! j)) =
          (if length xs + j = 0 then None else Some ((xs @ ys) ! (length xs + j - 1)))"
        using linked_at(2) [OF l, of "length xs + j"] Right(1) by (simp add: nth_append)
      ultimately show ?thesis
        unfolding Right(3) nodes'(12) [OF n_ys [OF Right(1)]]
        using Right(1,2) by (cases j) (simp_all add: nth_append)
    qed
  qed
qed

lemma linked_upd_row:
  assumes "linked rl ids"
  shows "linked (upd_row i f rl) ids"
proof (cases "i < length (nodes rl)")
  case True
  have keep: "nd_alive (nodes (upd_row i f rl) ! j) = nd_alive (nodes rl ! j)"
    "nd_next (nodes (upd_row i f rl) ! j) = nd_next (nodes rl ! j)"
    "nd_previous (nodes (upd_row i f rl) ! j) = nd_previous (nodes rl ! j)" for j
    using True by (simp_all add: upd_row_def nth_list_update)
  show ?thesis
    using assms unfolding linked_def keep by (simp add: upd_row_def)
next
  case False
  then have "upd_row i f rl = rl"
    by (simp add: upd_row_def list_update_beyond not_less)
  then show ?thesis
    using assms by simp
qed

lemma upd_row_row:
  "i < length (nodes rl) \<Longrightarrow> rl_row (upd_row i f rl) j = (if j = i then f (rl_row rl i) else rl_row rl j)"
  by (auto simp: upd_row_def nth_list_update)

lemma upd_row_length [simp]: "length (nodes (upd_row i f rl)) = length (nodes rl)"
  by (simp add: upd_row_def)

lemma upd_row_id_eq: "next_id (upd_row i f rl) j = next_id rl j"
  by (cases "i < length (nodes rl)")
    (auto simp: next_id_def upd_row_def nth_opt_def nth_list_update list_update_beyond not_less)

lemma linked_push_back:
  assumes "linked rl ids"
  shows "linked (push_back rl row) (ids @ [length (nodes rl)])"
    "rows_of (push_back rl row) (ids @ [length (nodes rl)]) = rows_of rl ids @ [row]"
proof -
  obtain rl' new where ins: "(rl', new) = insert_before rl None row"
    by (metis surj_pair)
  have "linked rl (ids @ [])" "None = (if [] = [] then None else Some (hd []))"
    using assms by simp_all
  note l = linked_insert [OF this ins]
  have "push_back rl row = rl'"
    using ins by (metis fst_conv push_back_def)
  then show "linked (push_back rl row) (ids @ [length (nodes rl)])"
    "rows_of (push_back rl row) (ids @ [length (nodes rl)]) = rows_of rl ids @ [row]"
    using l by auto
qed

lemma linked_push_rows:
  "linked rl ids \<Longrightarrow> \<exists>ids'. linked (foldl push_back rl rows) ids' \<and>
    rows_of (foldl push_back rl rows) ids' = rows_of rl ids @ rows"
proof (induction rows arbitrary: rl ids)
  case (Cons r rows)
  from Cons.IH [OF linked_push_back(1) [OF Cons.prems], of r] show ?case
    using linked_push_back(2) [OF Cons.prems, of r] by auto
qed auto

lemma from_rows_linked:
  obtains ids where "linked (from_rows rows) ids" "rows_of (from_rows rows) ids = rows"
  using linked_push_rows [OF linked_empty, of rows] by (auto simp: from_rows_def)

lemma into_rows_from_rows: "into_rows (from_rows rows) = rows"
  using from_rows_linked [of rows] into_rows_linked by metis

lemma linked_recompute:
  assumes "linked rl ids"
  shows "linked (recompute_rows_in_list al bl cl rl) ids"
    "rows_of (recompute_rows_in_list al bl cl rl) ids = map (recompute_row_metadata al bl cl) (rows_of rl ids)"
proof -
  let ?rl = "recompute_rows_in_list al bl cl rl"
  have node: "nd_alive (nodes ?rl ! i) = nd_alive (nodes rl ! i)"
    "nd_next (nodes ?rl ! i) = nd_next (nodes rl ! i)"
    "nd_previous (nodes ?rl ! i) = nd_previous (nodes rl ! i)"
    "nd_alive (nodes rl ! i) \<Longrightarrow> rl_row ?rl i = recompute_row_metadata al bl cl (rl_row rl i)"
    if "i < length (nodes rl)" for i
    using that by (simp_all add: recompute_rows_in_list_def)
  have bound: "ids ! i < length (nodes rl)" if "i < length ids" for i
    using linked_bound [OF assms, of "ids ! i"] nth_mem [OF that] by blast
  show "linked ?rl ids"
  proof (rule linkedI)
    show "set ids = {..<length (nodes ?rl)}" "distinct ids"
      "first ?rl = (if ids = [] then None else Some (hd ids))"
      "last_node ?rl = (if ids = [] then None else Some (last ids))"
      using assms by (simp_all add: linked_def recompute_rows_in_list_def)
    show "nd_alive (nodes ?rl ! i)" if "i < length (nodes ?rl)" for i
      using that node(1) [of i] linked_alive [OF assms, of i] linked_bound [OF assms, of i]
      by (simp add: recompute_rows_in_list_def)
  next
    fix i assume i: "i < length ids"
    show "nd_next (nodes ?rl ! (ids ! i)) = nth_opt ids (Suc i)"
      "nd_previous (nodes ?rl ! (ids ! i)) = (if i = 0 then None else Some (ids ! (i - 1)))"
      unfolding node(2) [OF bound [OF i]] node(3) [OF bound [OF i]]
      by (rule linked_at [OF assms i])+
  qed
  have "rl_row ?rl i = recompute_row_metadata al bl cl (rl_row rl i)" if "i \<in> set ids" for i
    using node(4) [of i] linked_alive [OF assms that] linked_bound [OF assms, of i] that by blast
  then show "rows_of ?rl ids = map (recompute_row_metadata al bl cl) (rows_of rl ids)"
    by simp
qed

text \<open>The walks, read off the order.\<close>

lemma find_from_linked:
  assumes "linked rl (xs @ ys)" "cursor = (if ys = [] then None else Some (hd ys))"
  shows "find_from rl cursor s line = find (\<lambda>i. row_line (rl_row rl i) s = Some line) ys"
proof -
  have "ids_from rl cursor = ys"
    using ids_from_linked [OF assms(1)] assms(2) by simp
  moreover have "nd_alive (nodes rl ! i)" if "i \<in> set ys" for i
    using linked_alive [OF assms(1), of i] that by simp
  ultimately show ?thesis
    unfolding find_from_def by (metis (mono_tags, lifting) find_cong)
qed

lemma column_find_ex:
  "column s (rows_of rl ys) = line # rest \<Longrightarrow>
    \<exists>us x vs. ys = us @ x # vs \<and> row_line (rl_row rl x) s = Some line \<and>
      (\<forall>u\<in>set us. row_line (rl_row rl u) s = None) \<and> column s (rows_of rl vs) = rest \<and>
      find (\<lambda>i. row_line (rl_row rl i) s = Some line) ys = Some x"
proof (induction ys)
  case (Cons y ys)
  show ?case
  proof (cases "row_line (rl_row rl y) s")
    case None
    with Cons obtain us x vs where "ys = us @ x # vs" "row_line (rl_row rl x) s = Some line"
      "\<forall>u\<in>set us. row_line (rl_row rl u) s = None" "column s (rows_of rl vs) = rest"
      "find (\<lambda>i. row_line (rl_row rl i) s = Some line) ys = Some x"
      by auto
    with None show ?thesis
      by (intro exI [of _ "y # us"] exI [of _ x] exI [of _ vs]) simp
  next
    case (Some l)
    with Cons.prems show ?thesis
      by (intro exI [of _ "[]"] exI [of _ y] exI [of _ ys]) simp
  qed
qed simp

lemma column_find:
  assumes "column s (rows_of rl ys) = line # rest"
  obtains us x vs where "ys = us @ x # vs" "row_line (rl_row rl x) s = Some line"
    "column s (rows_of rl us) = []" "\<And>u. u \<in> set us \<Longrightarrow> row_line (rl_row rl u) s = None"
    "column s (rows_of rl vs) = rest"
    "find (\<lambda>i. row_line (rl_row rl i) s = Some line) ys = Some x"
  using column_find_ex [OF assms] column_empty by (metis (no_types, lifting) imageE set_map)

lemma comes_before_linked:
  "linked rl (xs @ x # ys) \<Longrightarrow> comes_before rl x z \<longleftrightarrow> z \<in> set (x # ys)"
  using ids_from_linked [of rl xs "x # ys"] by (simp add: comes_before_def)

lemma ids_between_linked:
  assumes "linked rl (xs @ x # us @ z # ys)"
  shows "ids_between rl x z = x # us"
proof -
  have "distinct (xs @ x # us @ z # ys)"
    using assms by (simp add: linked_def)
  then have "\<forall>i\<in>set (x # us). i \<noteq> z"
    by auto
  moreover have "ids_from rl (Some x) = (x # us) @ z # ys"
    using ids_from_linked [of rl xs "x # us @ z # ys"] assms by simp
  ultimately show ?thesis
    by (simp add: ids_between_def)
qed

section \<open>The first alignment\<close>

definition ab_rows :: "pair_chunk \<Rightarrow> nat \<Rightarrow> nat \<Rightarrow> aligned_row list" where
  "ab_rows ch a b =
     (let both = (\<lambda>i. row_default\<lparr>row_a := Some (a + i), row_b := Some (b + i)\<rparr>);
          equal = ch_equal ch;
          paired = min (ch_left ch) (ch_right ch)
      in map both [0..<equal]
         @ map both [equal..<equal + paired]
         @ map (\<lambda>i. row_default\<lparr>row_a := Some (a + equal + i)\<rparr>) [paired..<ch_left ch]
         @ map (\<lambda>i. row_default\<lparr>row_b := Some (b + equal + i)\<rparr>) [paired..<ch_right ch])"

fun build_ab_from :: "row_list \<Rightarrow> nat \<Rightarrow> nat \<Rightarrow> pair_chunk list \<Rightarrow> row_list" where
  "build_ab_from rl a b [] = rl"
| "build_ab_from rl a b (ch # chs) =
     build_ab_from (foldl push_back rl (ab_rows ch a b)) (a + ch_equal ch + ch_left ch)
       (b + ch_equal ch + ch_right ch) chs"

definition build_ab :: "pair_chunk list \<Rightarrow> row_list" where
  "build_ab chunks = build_ab_from rl_empty 0 0 chunks"

lemma column_map_some: "(\<And>x. x \<in> set xs \<Longrightarrow> row_line (f x) s = Some (g x)) \<Longrightarrow> column s (map f xs) = map g xs"
  by (simp add: column_def filter_map_Some)

lemma column_map_none: "(\<And>x. x \<in> set xs \<Longrightarrow> row_line (f x) s = None) \<Longrightarrow> column s (map f xs) = []"
  by (simp add: column_def filter_map_None)

lemma map_add_upt': "map (\<lambda>i. k + i) [m..<n] = [k + m..<k + n]"
  by (intro nth_equalityI) simp_all

lemma upt_join: "i \<le> j \<Longrightarrow> j \<le> k \<Longrightarrow> [i..<j] @ [j..<k] = [i..<k]"
  using upt_add_eq_append [of i j "k - j"] by simp

lemma ab_rows_columns:
  "column A (ab_rows ch a b) = [a..<a + ch_equal ch + ch_left ch]"
  "column B (ab_rows ch a b) = [b..<b + ch_equal ch + ch_right ch]"
  "column C (ab_rows ch a b) = []"
proof -
  define e p where "e = ch_equal ch" and "p = min (ch_left ch) (ch_right ch)"
  let ?both = "\<lambda>i. row_default\<lparr>row_a := Some (a + i), row_b := Some (b + i)\<rparr>"
  let ?left = "\<lambda>i. row_default\<lparr>row_a := Some (a + e + i)\<rparr>"
  let ?right = "\<lambda>i. row_default\<lparr>row_b := Some (b + e + i)\<rparr>"
  have rows: "ab_rows ch a b = map ?both [0..<e] @ map ?both [e..<e + p] @ map ?left [p..<ch_left ch]
      @ map ?right [p..<ch_right ch]"
    by (simp only: ab_rows_def Let_def e_def p_def)
  have p: "p \<le> ch_left ch" "p \<le> ch_right ch"
    by (simp_all add: p_def)
  have both: "column A (map ?both [i..<j]) = [a + i..<a + j]" "column B (map ?both [i..<j]) = [b + i..<b + j]"
    "column C (map ?both [i..<j]) = []" for i j
    using column_map_some [of "[i..<j]" ?both A "\<lambda>i. a + i"] column_map_some [of "[i..<j]" ?both B "\<lambda>i. b + i"]
      column_map_none [of "[i..<j]" ?both C] by (simp_all add: map_add_upt' row_default_def)
  have left: "column A (map ?left [i..<j]) = [a + e + i..<a + e + j]" "column B (map ?left [i..<j]) = []"
    "column C (map ?left [i..<j]) = []" for i j
    using column_map_some [of "[i..<j]" ?left A "\<lambda>i. a + e + i"] column_map_none [of "[i..<j]" ?left B]
      column_map_none [of "[i..<j]" ?left C] by (simp_all add: map_add_upt' row_default_def)
  have right: "column B (map ?right [i..<j]) = [b + e + i..<b + e + j]" "column A (map ?right [i..<j]) = []"
    "column C (map ?right [i..<j]) = []" for i j
    using column_map_some [of "[i..<j]" ?right B "\<lambda>i. b + e + i"] column_map_none [of "[i..<j]" ?right A]
      column_map_none [of "[i..<j]" ?right C] by (simp_all add: map_add_upt' row_default_def)
  have three: "[k + 0..<k + e] @ [k + e..<k + (e + p)] @ [k + e + p..<k + e + n] = [k..<k + e + n]"
    if "p \<le> n" for k n
    using upt_join [of "k + e" "k + (e + p)" "k + e + n"] upt_join [of k "k + e" "k + e + n"] that
    by (simp add: add.assoc del: upt_Suc)
  show "column A (ab_rows ch a b) = [a..<a + ch_equal ch + ch_left ch]"
    unfolding rows column_simps(3) both left right using three [OF p(1), of a] by (simp add: e_def)
  show "column B (ab_rows ch a b) = [b..<b + ch_equal ch + ch_right ch]"
    unfolding rows column_simps(3) both left right using three [OF p(2), of b] by (simp add: e_def)
  show "column C (ab_rows ch a b) = []"
    unfolding rows column_simps(3) both left right by simp
qed

lemma build_ab_from_columns:
  "linked rl ids \<Longrightarrow> column A (rows_of rl ids) = [0..<a] \<Longrightarrow> column B (rows_of rl ids) = [0..<b] \<Longrightarrow>
    column C (rows_of rl ids) = [] \<Longrightarrow>
    \<exists>ids'. linked (build_ab_from rl a b chs) ids' \<and>
      column A (rows_of (build_ab_from rl a b chs) ids') = [0..<a + left_total chs] \<and>
      column B (rows_of (build_ab_from rl a b chs) ids') = [0..<b + right_total chs] \<and>
      column C (rows_of (build_ab_from rl a b chs) ids') = []"
proof (induction chs arbitrary: rl ids a b)
  case (Cons ch chs)
  let ?rl = "foldl push_back rl (ab_rows ch a b)"
  from linked_push_rows [OF Cons.prems(1)] obtain ids' where
    ids': "linked ?rl ids'" "rows_of ?rl ids' = rows_of rl ids @ ab_rows ch a b"
    by blast
  have "column A (rows_of ?rl ids') = [0..<a + ch_equal ch + ch_left ch]"
    "column B (rows_of ?rl ids') = [0..<b + ch_equal ch + ch_right ch]"
    "column C (rows_of ?rl ids') = []"
    unfolding ids'(2) column_simps(3) Cons.prems ab_rows_columns
    by (simp_all only: upt_join le_add1 le0 add.assoc append_Nil)
  from Cons.IH [OF ids'(1) this] show ?case
    by (simp add: add.assoc)
qed auto

lemma build_ab_columns:
  obtains ids where "linked (build_ab chs) ids"
    "column A (rows_of (build_ab chs) ids) = [0..<left_total chs]"
    "column B (rows_of (build_ab chs) ids) = [0..<right_total chs]"
    "column C (rows_of (build_ab chs) ids) = []"
  using build_ab_from_columns [of rl_empty "[]" 0 0 chs] by (auto simp: build_ab_def)

end
