(* ===== verification/Integrate.thy ===== *)
theory Integrate
  imports Rows
begin

text \<open>
  The two passes of \<open>merge/plan.rs\<close> that bring the third source into the row list: \<open>integrate_ac\<close> adds the
  lines of C along the comparison of A and C, \<open>integrate_bc\<close> moves lines of B and C onto shared rows
  along the comparison of B and C. An \<open>expect\<close> that fails is the result \<open>None\<close>.

  The theory proves that neither pass fails when the chunks count the lines of their sources and the
  columns of the list are complete, and what the first one does to the columns.
\<close>

declare map_eq_conv [simp del]

section \<open>A column at a position\<close>

lemma column_find_at_ex:
  "column s (rows_of rl ys) = pre @ line # rest \<Longrightarrow> line \<notin> set pre \<Longrightarrow>
    \<exists>us x vs. ys = us @ x # vs \<and> row_line (rl_row rl x) s = Some line \<and>
      column s (rows_of rl us) = pre \<and> column s (rows_of rl vs) = rest \<and>
      find (\<lambda>i. row_line (rl_row rl i) s = Some line) ys = Some x"
proof (induction ys arbitrary: pre)
  case (Cons y ys)
  show ?case
  proof (cases "row_line (rl_row rl y) s")
    case None
    with Cons obtain us x vs where "ys = us @ x # vs" "row_line (rl_row rl x) s = Some line"
      "column s (rows_of rl us) = pre" "column s (rows_of rl vs) = rest"
      "find (\<lambda>i. row_line (rl_row rl i) s = Some line) ys = Some x"
      by (metis (no_types, lifting) column_simps(2) list.simps(9) option.simps(4))
    with None show ?thesis
      by (intro exI [of _ "y # us"] exI [of _ x] exI [of _ vs]) simp
  next
    case (Some l)
    show ?thesis
    proof (cases pre)
      case Nil
      with Some Cons.prems show ?thesis
        by (intro exI [of _ "[]"] exI [of _ y] exI [of _ ys]) simp
    next
      case (Cons p pre')
      with Some Cons.prems have *: "l = p" "column s (rows_of rl ys) = pre' @ line # rest" "line \<notin> set pre'" "l \<noteq> line"
        by auto
      from Cons.IH [OF *(2,3)] obtain us x vs where "ys = us @ x # vs" "row_line (rl_row rl x) s = Some line"
        "column s (rows_of rl us) = pre'" "column s (rows_of rl vs) = rest"
        "find (\<lambda>i. row_line (rl_row rl i) s = Some line) ys = Some x"
        by blast
      with Some * Cons show ?thesis
        by (intro exI [of _ "y # us"] exI [of _ x] exI [of _ vs]) simp
    qed
  qed
qed simp

text \<open>Looking for a line of an ascending column finds it, and what follows it in the list.\<close>

lemma find_from_upt:
  assumes "linked rl (xs @ ys)" "cursor = (if ys = [] then None else Some (hd ys))"
    and "column s (rows_of rl ys) = [k..<n]" "k \<le> line" "line < n"
  obtains us x vs where "ys = us @ x # vs" "find_from rl cursor s line = Some x"
    "row_line (rl_row rl x) s = Some line" "column s (rows_of rl us) = [k..<line]"
    "column s (rows_of rl vs) = [Suc line..<n]"
proof -
  have "[k..<n] = [k..<line] @ line # [Suc line..<n]"
    using upt_join [of k line n] assms(4,5) by (simp add: upt_conv_Cons)
  with assms(3) column_find_at_ex [of s rl ys "[k..<line]" line "[Suc line..<n]"]
  obtain us x vs where "ys = us @ x # vs" "row_line (rl_row rl x) s = Some line"
    "column s (rows_of rl us) = [k..<line]" "column s (rows_of rl vs) = [Suc line..<n]"
    "find (\<lambda>i. row_line (rl_row rl i) s = Some line) ys = Some x"
    by auto
  with find_from_linked [OF assms(1,2)] that show ?thesis
    by simp
qed

lemma linked_upd_at:
  assumes "linked rl (us @ x # vs)"
  shows "linked (upd_row x f rl) (us @ x # vs)" "rows_of (upd_row x f rl) us = rows_of rl us"
    "rl_row (upd_row x f rl) x = f (rl_row rl x)" "rows_of (upd_row x f rl) vs = rows_of rl vs"
proof -
  show "linked (upd_row x f rl) (us @ x # vs)"
    using assms by (rule linked_upd_row)
  have x: "x < length (nodes rl)"
    using linked_bound [OF assms, of x] by simp
  have "x \<notin> set us" "x \<notin> set vs"
    using assms by (auto simp: linked_def)
  then show "rows_of (upd_row x f rl) us = rows_of rl us" "rl_row (upd_row x f rl) x = f (rl_row rl x)"
    "rows_of (upd_row x f rl) vs = rows_of rl vs"
    by (auto simp: upd_row_row [OF x] map_eq_conv)
qed

lemma linked_insert_at:
  assumes "linked rl (xs @ ys)" "before = (if ys = [] then None else Some (hd ys))"
  shows "linked (fst (insert_before rl before row)) (xs @ length (nodes rl) # ys)"
    "rows_of (fst (insert_before rl before row)) (xs @ length (nodes rl) # ys) = rows_of rl xs @ row # rows_of rl ys"
    "rows_of (fst (insert_before rl before row)) xs = rows_of rl xs"
    "rows_of (fst (insert_before rl before row)) ys = rows_of rl ys"
    "snd (insert_before rl before row) = length (nodes rl)"
proof -
  have "(fst (insert_before rl before row), snd (insert_before rl before row)) = insert_before rl before row"
    by simp
  note ins = linked_insert [OF assms this]
  show "linked (fst (insert_before rl before row)) (xs @ length (nodes rl) # ys)"
    "snd (insert_before rl before row) = length (nodes rl)"
    using ins(1,2) by simp_all
  have "rl_row (fst (insert_before rl before row)) (length (nodes rl)) = row"
    using ins(2,3) by simp
  then show "rows_of (fst (insert_before rl before row)) (xs @ length (nodes rl) # ys) = rows_of rl xs @ row # rows_of rl ys"
    "rows_of (fst (insert_before rl before row)) xs = rows_of rl xs"
    "rows_of (fst (insert_before rl before row)) ys = rows_of rl ys"
    using ins(4) by (auto simp: map_eq_conv)
qed

section \<open>A against C\<close>

type_synonym ac_state = "row_list \<times> nat option \<times> nat \<times> nat"

primrec iterate_opt :: "nat \<Rightarrow> ('s \<Rightarrow> 's option) \<Rightarrow> 's \<Rightarrow> 's option" where
  "iterate_opt 0 f s = Some s"
| "iterate_opt (Suc n) f s = Option.bind (f s) (iterate_opt n f)"

definition ac_equal :: "ac_state \<Rightarrow> ac_state option" where
  "ac_equal = (\<lambda>(rl, cursor, a, c).
     case find_from rl cursor A a of None \<Rightarrow> None
     | Some found \<Rightarrow>
         let rl = upd_row found (set_line C (Some c)) rl
         in Some (rl, next_id rl found, Suc a, Suc c))"

definition ac_insert :: "nat \<Rightarrow> ac_state \<Rightarrow> ac_state" where
  "ac_insert advance = (\<lambda>(rl, cursor, a, c).
     (fst (insert_before rl cursor (set_line C (Some c) row_default)), cursor, a + advance, Suc c))"

definition ac_chunk :: "pair_chunk \<Rightarrow> ac_state \<Rightarrow> ac_state option" where
  "ac_chunk ch st =
     Option.bind (iterate_opt (ch_equal ch) ac_equal st) (\<lambda>st.
       let paired = min (ch_left ch) (ch_right ch);
           (rl, cursor, a, c) = (ac_insert 1 ^^ paired) st
       in Some ((ac_insert 0 ^^ (ch_right ch - paired)) (rl, cursor, a + (ch_left ch - paired), c)))"

primrec ac_chunks :: "pair_chunk list \<Rightarrow> ac_state \<Rightarrow> ac_state option" where
  "ac_chunks [] st = Some st"
| "ac_chunks (ch # chs) st = Option.bind (ac_chunk ch st) (ac_chunks chs)"

definition integrate_ac :: "row_list \<Rightarrow> pair_chunk list \<Rightarrow> row_list option" where
  "integrate_ac rl chunks = map_option fst (ac_chunks chunks (rl, first rl, 0, 0))"

text \<open>
  The invariant: the list is split at the cursor, the lines of A still to be met are behind it, and so
  far exactly the lines of C below \<open>c\<close> have been placed, all in front of it. \<open>Q\<close> is any relation between
  the A and B cells of a row.
\<close>

definition ac_inv :: "nat \<Rightarrow> nat list \<Rightarrow> (nat option \<Rightarrow> nat option \<Rightarrow> bool) \<Rightarrow> ac_state \<Rightarrow> bool" where
  "ac_inv n bs Q = (\<lambda>(rl, cursor, a, c). \<exists>xs ys k.
     linked rl (xs @ ys) \<and> cursor = (if ys = [] then None else Some (hd ys)) \<and>
     column A (rows_of rl (xs @ ys)) = [0..<n] \<and> column B (rows_of rl (xs @ ys)) = bs \<and>
     column A (rows_of rl ys) = [k..<n] \<and> k \<le> a \<and>
     column C (rows_of rl xs) = [0..<c] \<and> column C (rows_of rl ys) = [] \<and>
     (\<forall>r\<in>set (rows_of rl (xs @ ys)). Q (row_a r) (row_b r)))"

lemma ac_invI:
  assumes "linked rl (xs @ ys)" "cursor = (if ys = [] then None else Some (hd ys))"
    "column A (rows_of rl (xs @ ys)) = [0..<n]" "column B (rows_of rl (xs @ ys)) = bs"
    "column A (rows_of rl ys) = [k..<n]" "k \<le> a" "column C (rows_of rl xs) = [0..<c]"
    "column C (rows_of rl ys) = []" "\<forall>r\<in>set (rows_of rl (xs @ ys)). Q (row_a r) (row_b r)"
  shows "ac_inv n bs Q (rl, cursor, a, c)"
  unfolding ac_inv_def prod.case using assms by blast

lemma set_line_fields [simp]:
  "row_a (set_line C v r) = row_a r" "row_b (set_line C v r) = row_b r"
  "row_a row_default = None" "row_b row_default = None" "row_c row_default = None"
  by (simp_all add: row_default_def)

lemma upd_line_column:
  assumes "linked rl (us @ x # vs)" "t \<noteq> s"
  shows "column t (rows_of (upd_row x (set_line s v) rl) (us @ x # vs)) = column t (rows_of rl (us @ x # vs))"
  unfolding map_append list.map column_simps(3) linked_upd_at [OF assms(1)] using assms(2) by simp

lemma ac_equal_inv:
  assumes inv: "ac_inv n bs Q (rl, cursor, a, c)" and a: "a < n"
  obtains st where "ac_equal (rl, cursor, a, c) = Some st" "ac_inv n bs Q st" "fst (snd (snd st)) = Suc a"
    "snd (snd (snd st)) = Suc c"
proof -
  obtain xs ys k where i: "linked rl (xs @ ys)" "cursor = (if ys = [] then None else Some (hd ys))"
    "column A (rows_of rl (xs @ ys)) = [0..<n]" "column B (rows_of rl (xs @ ys)) = bs"
    "column A (rows_of rl ys) = [k..<n]" "k \<le> a" "column C (rows_of rl xs) = [0..<c]"
    "column C (rows_of rl ys) = []" "\<forall>r\<in>set (rows_of rl (xs @ ys)). Q (row_a r) (row_b r)"
    using inv unfolding ac_inv_def prod.case by blast
  from find_from_upt [OF i(1,2,5,6) a] obtain us x vs where f: "ys = us @ x # vs"
    "find_from rl cursor A a = Some x" "row_line (rl_row rl x) A = Some a"
    "column A (rows_of rl us) = [k..<a]" "column A (rows_of rl vs) = [Suc a..<n]" .
  let ?rl = "upd_row x (set_line C (Some c)) rl"
  have l: "linked rl ((xs @ us) @ x # vs)"
    using i(1) f(1) by simp
  note upd = linked_upd_at [OF l, of "set_line C (Some c)"]
  have col_c: "column C (rows_of rl us) = []" "column C (rows_of rl vs) = []"
    using i(8) unfolding f(1) by (auto split: option.splits)
  have rows: "rows_of ?rl xs = rows_of rl xs" "rows_of ?rl us = rows_of rl us"
    using upd(2) by simp_all
  have cursor: "next_id ?rl x = (if vs = [] then None else Some (hd vs))"
    using linked_next [OF upd(1)] .
  have link: "linked ?rl ((xs @ us @ [x]) @ vs)"
    using upd(1) by simp
  have col_ab: "column t (rows_of ?rl ((xs @ us @ [x]) @ vs)) = column t (rows_of rl (xs @ ys))" if "t \<noteq> C" for t
    using upd_line_column [OF l that, of "Some c"] by (simp add: f(1))
  have q: "\<forall>r\<in>set (rows_of ?rl ((xs @ us @ [x]) @ vs)). Q (row_a r) (row_b r)"
    using i(9) rows upd(3,4) by (auto simp: f(1))
  have c1: "column C (rows_of ?rl (xs @ us @ [x])) = [0..<Suc c]"
    using i(7) col_c(1) rows upd(3) by simp
  have "ac_inv n bs Q (?rl, next_id ?rl x, Suc a, Suc c)"
    by (rule ac_invI [OF link cursor _ _ _ order_refl c1])
      (use col_ab [of A] col_ab [of B] i(3,4) upd(4) f(5) col_c(2) q in simp_all)
  then show ?thesis
    using f(2) by (intro that [of "(?rl, next_id ?rl x, Suc a, Suc c)"]) (simp_all add: ac_equal_def Let_def)
qed

lemma ac_insert_inv:
  assumes inv: "ac_inv n bs Q (rl, cursor, a, c)" and Q: "Q None None"
  shows "ac_inv n bs Q (ac_insert d (rl, cursor, a, c))"
proof -
  obtain xs ys k where i: "linked rl (xs @ ys)" "cursor = (if ys = [] then None else Some (hd ys))"
    "column A (rows_of rl (xs @ ys)) = [0..<n]" "column B (rows_of rl (xs @ ys)) = bs"
    "column A (rows_of rl ys) = [k..<n]" "k \<le> a" "column C (rows_of rl xs) = [0..<c]"
    "column C (rows_of rl ys) = []" "\<forall>r\<in>set (rows_of rl (xs @ ys)). Q (row_a r) (row_b r)"
    using inv unfolding ac_inv_def prod.case by blast
  let ?row = "set_line C (Some c) row_default"
  let ?rl = "fst (insert_before rl cursor ?row)" and ?new = "length (nodes rl)"
  note ins = linked_insert_at [OF i(1,2), of ?row]
  have all: "rows_of ?rl ((xs @ [?new]) @ ys) = rows_of rl xs @ ?row # rows_of rl ys"
    "rows_of ?rl (xs @ [?new]) = rows_of rl xs @ [?row]"
    using ins(2,3) by simp_all
  have "ac_inv n bs Q (?rl, cursor, a + d, Suc c)"
  proof (rule ac_invI)
    show "linked ?rl ((xs @ [?new]) @ ys)"
      using ins(1) by simp
    show "column A (rows_of ?rl ((xs @ [?new]) @ ys)) = [0..<n]"
      unfolding all using i(3) by simp
    show "column B (rows_of ?rl ((xs @ [?new]) @ ys)) = bs"
      unfolding all using i(4) by simp
    show "column C (rows_of ?rl (xs @ [?new])) = [0..<Suc c]"
      unfolding all using i(7) by simp
    show "\<forall>r\<in>set (rows_of ?rl ((xs @ [?new]) @ ys)). Q (row_a r) (row_b r)"
      unfolding all using i(9) Q by auto
    show "column A (rows_of ?rl ys) = [k..<n]" "column C (rows_of ?rl ys) = []"
      unfolding ins(4) by (fact i)+
    show "k \<le> a + d"
      using i(6) by simp
  qed (fact i(2))
  then show ?thesis
    by (simp add: ac_insert_def)
qed

abbreviation st_a :: "ac_state \<Rightarrow> nat" where "st_a st \<equiv> fst (snd (snd st))"
abbreviation st_c :: "ac_state \<Rightarrow> nat" where "st_c st \<equiv> snd (snd (snd st))"

lemma ac_equals_inv:
  "ac_inv n bs Q st \<Longrightarrow> st_a st + m \<le> n \<Longrightarrow>
    \<exists>st'. iterate_opt m ac_equal st = Some st' \<and> ac_inv n bs Q st' \<and> st_a st' = st_a st + m \<and>
      st_c st' = st_c st + m"
proof (induction m arbitrary: st)
  case (Suc m)
  obtain rl cursor a c where st: "st = (rl, cursor, a, c)"
    by (metis prod_cases4)
  have "a < n" "ac_inv n bs Q (rl, cursor, a, c)"
    using Suc.prems st by simp_all
  from ac_equal_inv [OF this(2,1)] obtain st1 where st1: "ac_equal st = Some st1" "ac_inv n bs Q st1"
    "st_a st1 = Suc a" "st_c st1 = Suc c"
    by (metis st)
  then obtain st' where "iterate_opt m ac_equal st1 = Some st'" "ac_inv n bs Q st'"
    "st_a st' = st_a st1 + m" "st_c st' = st_c st1 + m"
    using Suc.IH [of st1] Suc.prems st by auto
  then show ?case
    using st1 st by auto
qed auto

lemma ac_inserts_inv:
  "ac_inv n bs Q st \<Longrightarrow> Q None None \<Longrightarrow>
    ac_inv n bs Q ((ac_insert d ^^ m) st) \<and> st_a ((ac_insert d ^^ m) st) = st_a st + d * m \<and>
      st_c ((ac_insert d ^^ m) st) = st_c st + m"
proof (induction m)
  case (Suc m)
  then have IH: "ac_inv n bs Q ((ac_insert d ^^ m) st)" "st_a ((ac_insert d ^^ m) st) = st_a st + d * m"
    "st_c ((ac_insert d ^^ m) st) = st_c st + m"
    by simp_all
  obtain rl cursor a c where st: "(ac_insert d ^^ m) st = (rl, cursor, a, c)"
    by (metis prod_cases4)
  have "ac_inv n bs Q (ac_insert d (rl, cursor, a, c))"
    using ac_insert_inv [of n bs Q rl cursor a c d] Suc.prems(2) IH(1) st by simp
  moreover have "st_a (ac_insert d (rl, cursor, a, c)) = a + d" "st_c (ac_insert d (rl, cursor, a, c)) = Suc c"
    by (simp_all add: ac_insert_def)
  ultimately show ?case
    using IH(2,3) st by simp
qed simp

lemma ac_inv_advance: "ac_inv n bs Q (rl, cursor, a, c) \<Longrightarrow> a \<le> a' \<Longrightarrow> ac_inv n bs Q (rl, cursor, a', c)"
  unfolding ac_inv_def prod.case using order_trans by blast

lemma ac_chunk_inv:
  assumes "ac_inv n bs Q st" "Q None None" "st_a st + ch_equal ch + ch_left ch \<le> n"
  shows "\<exists>st'. ac_chunk ch st = Some st' \<and> ac_inv n bs Q st' \<and>
    st_a st' = st_a st + ch_equal ch + ch_left ch \<and> st_c st' = st_c st + ch_equal ch + ch_right ch"
proof -
  let ?p = "min (ch_left ch) (ch_right ch)"
  have "st_a st + ch_equal ch \<le> n"
    using assms(3) by simp
  from ac_equals_inv [OF assms(1) this] obtain st1 where
    st1: "iterate_opt (ch_equal ch) ac_equal st = Some st1" "ac_inv n bs Q st1"
    "st_a st1 = st_a st + ch_equal ch" "st_c st1 = st_c st + ch_equal ch"
    by blast
  obtain rl cursor a c where st2: "(ac_insert 1 ^^ ?p) st1 = (rl, cursor, a, c)"
    by (metis prod_cases4)
  have i2: "ac_inv n bs Q (rl, cursor, a, c)" "a = st_a st1 + ?p" "c = st_c st1 + ?p"
    using ac_inserts_inv [OF st1(2) assms(2), where d = 1 and m = ?p] unfolding st2 by auto
  let ?st3 = "(rl, cursor, a + (ch_left ch - ?p), c)"
  have i3: "ac_inv n bs Q ?st3"
    using ac_inv_advance [OF i2(1)] by simp
  let ?st4 = "(ac_insert 0 ^^ (ch_right ch - ?p)) ?st3"
  have i4: "ac_inv n bs Q ?st4" "st_a ?st4 = a + (ch_left ch - ?p)" "st_c ?st4 = c + (ch_right ch - ?p)"
    using ac_inserts_inv [OF i3 assms(2), where d = 0 and m = "ch_right ch - ?p"] by simp_all
  have "ac_chunk ch st = Some ?st4"
    unfolding ac_chunk_def st1(1) Option.bind.simps Let_def st2 prod.case by (rule refl)
  then show ?thesis
    using i4 i2(2,3) st1(3,4) by simp
qed

lemma ac_chunks_inv:
  "ac_inv n bs Q st \<Longrightarrow> Q None None \<Longrightarrow> st_a st + left_total chs \<le> n \<Longrightarrow>
    \<exists>st'. ac_chunks chs st = Some st' \<and> ac_inv n bs Q st' \<and> st_c st' = st_c st + right_total chs"
proof (induction chs arbitrary: st)
  case (Cons ch chs)
  have "st_a st + ch_equal ch + ch_left ch \<le> n"
    using Cons.prems(3) by simp
  from ac_chunk_inv [OF Cons.prems(1,2) this] obtain st1 where
    st1: "ac_chunk ch st = Some st1" "ac_inv n bs Q st1" "st_a st1 = st_a st + ch_equal ch + ch_left ch"
    "st_c st1 = st_c st + ch_equal ch + ch_right ch"
    by blast
  have "st_a st1 + left_total chs \<le> n"
    using st1(3) Cons.prems(3) by simp
  from Cons.IH [OF st1(2) Cons.prems(2) this] st1(1,4) show ?case
    by (auto simp: add.assoc)
qed auto

text \<open>The pass succeeds, keeps the columns of A and B and adds the column of C.\<close>

lemma integrate_ac_columns:
  assumes "linked rl ids" "column A (rows_of rl ids) = [0..<n]" "column C (rows_of rl ids) = []"
    and "left_total chs \<le> n" "Q None None" "\<forall>r\<in>set (rows_of rl ids). Q (row_a r) (row_b r)"
  obtains rl' ids' where "integrate_ac rl chs = Some rl'" "linked rl' ids'"
    "column A (rows_of rl' ids') = [0..<n]" "column B (rows_of rl' ids') = column B (rows_of rl ids)"
    "column C (rows_of rl' ids') = [0..<right_total chs]"
    "\<forall>r\<in>set (rows_of rl' ids'). Q (row_a r) (row_b r)"
proof -
  have start: "ac_inv n (column B (rows_of rl ids)) Q (rl, first rl, 0, 0)"
    by (rule ac_invI [of rl "[]" ids]) (use assms in \<open>simp_all add: linked_def\<close>)
  from ac_chunks_inv [OF start assms(5)] assms(4) obtain rl' cursor a c where
    st: "ac_chunks chs (rl, first rl, 0, 0) = Some (rl', cursor, a, c)"
    "ac_inv n (column B (rows_of rl ids)) Q (rl', cursor, a, c)" "c = right_total chs"
    by (metis add_0 fst_conv snd_conv prod_cases4)
  obtain xs ys where i: "linked rl' (xs @ ys)" "column A (rows_of rl' (xs @ ys)) = [0..<n]"
    "column B (rows_of rl' (xs @ ys)) = column B (rows_of rl ids)"
    "column C (rows_of rl' xs) = [0..<c]" "column C (rows_of rl' ys) = []"
    "\<forall>r\<in>set (rows_of rl' (xs @ ys)). Q (row_a r) (row_b r)"
    using st(2) unfolding ac_inv_def prod.case by blast
  have "integrate_ac rl chs = Some rl'"
    by (simp add: integrate_ac_def st(1))
  moreover have "column C (rows_of rl' (xs @ ys)) = [0..<right_total chs]"
    using i(4,5) st(3) by simp
  ultimately show ?thesis
    using that i by blast
qed

section \<open>B against C\<close>

text \<open>
  The loop over the rows between the target and the other row, which moves the cells of one source (and
  cells of A up to the last row where A still matches) into new rows in front of the target. The code
  has it twice, for B and for C; \<open>s\<close> is the source moved.
\<close>

fun bc_move :: "merge_source \<Rightarrow> nat \<Rightarrow> nat option \<Rightarrow> nat list \<Rightarrow> bool \<Rightarrow> row_list \<times> nat list \<Rightarrow> row_list \<times> nat list" where
  "bc_move s target last_equal_a [] before_or_on_equal_a st = st"
| "bc_move s target last_equal_a (i # ids) before_or_on_equal_a (rl, changed) =
     (let row = rl_row rl i;
          should_move = (row_line row s \<noteq> None \<or> (before_or_on_equal_a \<and> row_a row \<noteq> None));
          a = (if before_or_on_equal_a then row_a row else None);
          moved = set_line s (row_line row s) (set_line A a row_default);
          emptied = upd_row i (set_line s None)
            (if before_or_on_equal_a then upd_row i (set_line A None) rl else rl);
          (inserted_rl, inserted) = insert_before emptied (Some target) moved
      in bc_move s target last_equal_a ids
           (if Some i = last_equal_a then False else before_or_on_equal_a)
           (if should_move then (inserted_rl, changed @ [i, inserted]) else (rl, changed)))"

definition bc_pull ::
  "merge_source \<Rightarrow> (aligned_row \<Rightarrow> bool) \<Rightarrow> nat \<Rightarrow> nat \<Rightarrow> nat \<Rightarrow> row_list \<Rightarrow> row_list \<times> nat list" where
  "bc_pull s whitespace_equal target other line rl =
     (let between = ids_between rl target other;
          last_equal_a = find (\<lambda>i. whitespace_equal (rl_row rl i)) (rev between);
          (rl, changed) =
            (if list_ex (\<lambda>i. row_line (rl_row rl i) s \<noteq> None) between
             then bc_move s target last_equal_a between (last_equal_a \<noteq> None) (rl, [])
             else (rl, []));
          rl = upd_row other (set_line s None) rl;
          rl = upd_row target (set_line s (Some line)) rl
      in (rl, changed @ [other, target]))"

type_synonym bc_state = "row_list \<times> nat option \<times> nat option \<times> nat \<times> nat"

definition recompute_ids ::
  "utext list \<Rightarrow> utext list \<Rightarrow> utext list \<Rightarrow> nat list \<Rightarrow> row_list \<Rightarrow> row_list" where
  "recompute_ids al bl cl changed rl =
     fold (\<lambda>i. upd_row i (recompute_row_metadata al bl cl)) (remdups (sort changed)) rl"

definition bc_equal :: "utext list \<Rightarrow> utext list \<Rightarrow> utext list \<Rightarrow> bc_state \<Rightarrow> bc_state option" where
  "bc_equal al bl cl = (\<lambda>(rl, cursor_b, cursor_c, b, c).
     Option.bind (find_from rl cursor_b B b) (\<lambda>in_b.
     Option.bind (find_from rl cursor_c C c) (\<lambda>in_c.
       let (rl, changed) =
             (if in_b = in_c then (rl, [])
              else if comes_before rl in_c in_b \<and> \<not> whitespace_equal_ab (rl_row rl in_b)
              then bc_pull B whitespace_equal_ab in_c in_b b rl
              else if comes_before rl in_b in_c \<and> \<not> whitespace_equal_ac (rl_row rl in_c)
              then bc_pull C whitespace_equal_ac in_b in_c c rl
              else (rl, []));
           rl = recompute_ids al bl cl changed rl
       in Some (rl, next_id rl in_b, next_id rl in_c, Suc b, Suc c))))"

definition bc_left :: "bc_state \<times> nat \<Rightarrow> (bc_state \<times> nat) option" where
  "bc_left = (\<lambda>((rl, cursor_b, cursor_c, b, c), right).
     case find_from rl cursor_b B b of None \<Rightarrow> None
     | Some found \<Rightarrow>
         let (rl, cursor_b) =
               (if Some found \<noteq> cursor_b \<and> \<not> whitespace_equal_ab (rl_row rl found)
                then (fst (insert_before (upd_row found (set_line B None) rl) cursor_b
                        (set_line B (Some b) row_default)), cursor_b)
                else (rl, Some found));
             cursor_b = Option.bind cursor_b (next_id rl)
         in Some (if 0 < right then ((rl, cursor_b, cursor_c, Suc b, Suc c), right - 1)
                  else ((rl, cursor_b, cursor_c, Suc b, c), right)))"

definition bc_chunk :: "utext list \<Rightarrow> utext list \<Rightarrow> utext list \<Rightarrow> pair_chunk \<Rightarrow> bc_state \<Rightarrow> bc_state option" where
  "bc_chunk al bl cl ch st =
     Option.bind (iterate_opt (ch_equal ch) (bc_equal al bl cl) st) (\<lambda>st.
     Option.bind (iterate_opt (ch_left ch) bc_left (st, ch_right ch)) (\<lambda>((rl, cursor_b, cursor_c, b, c), right).
       Some (rl, cursor_b, cursor_c, b, c + right)))"

primrec bc_chunks ::
  "utext list \<Rightarrow> utext list \<Rightarrow> utext list \<Rightarrow> pair_chunk list \<Rightarrow> bc_state \<Rightarrow> bc_state option" where
  "bc_chunks al bl cl [] st = Some st"
| "bc_chunks al bl cl (ch # chs) st = Option.bind (bc_chunk al bl cl ch st) (bc_chunks al bl cl chs)"

definition integrate_bc ::
  "row_list \<Rightarrow> pair_chunk list \<Rightarrow> utext list \<Rightarrow> utext list \<Rightarrow> utext list \<Rightarrow> row_list option" where
  "integrate_bc rl chunks al bl cl =
     map_option fst (bc_chunks al bl cl chunks (rl, first rl, first rl, 0, 0))"

text \<open>Two ways to split a list without repetition at the same element agree.\<close>

lemma distinct_split_unique:
  "distinct (xs @ x # ys) \<Longrightarrow> xs @ x # ys = us @ x # vs \<Longrightarrow> us = xs \<and> vs = ys"
  by (metis append_Cons_eq_iff distinct.simps(2) distinct_append not_distinct_conv_prefix Un_iff
      disjoint_iff list.set_intros(1) set_append distinct_length_2_or_more)

definition keeps :: "merge_source \<Rightarrow> nat set \<Rightarrow> nat set \<Rightarrow> row_list \<Rightarrow> row_list \<Rightarrow> bool" where
  "keeps s moved ids rl rl' \<longleftrightarrow>
     (\<forall>i\<in>ids. (\<forall>t. t \<notin> {A, s} \<longrightarrow> row_line (rl_row rl' i) t = row_line (rl_row rl i) t) \<and>
       (i \<notin> moved \<longrightarrow> rl_row rl' i = rl_row rl i))"

lemma keeps_trans: "keeps s m ids rl rl' \<Longrightarrow> keeps s m ids rl' rl'' \<Longrightarrow> keeps s m ids rl rl''"
  unfolding keeps_def by metis

lemma keeps_mono: "keeps s m ids rl rl' \<Longrightarrow> m \<subseteq> m' \<Longrightarrow> keeps s m' ids rl rl'"
  unfolding keeps_def by blast

lemma keeps_upd: "i < length (nodes rl) \<Longrightarrow> t \<in> {A, s} \<Longrightarrow> keeps s {i} ids rl (upd_row i (set_line t v) rl)"
  unfolding keeps_def by (auto simp: upd_row_row)

lemma bc_move_spec:
  "linked rl (P @ target # R) \<Longrightarrow> set ids \<subseteq> set (target # R) \<Longrightarrow>
    bc_move s target last_equal_a ids before (rl, changed) = (rl', changed') \<Longrightarrow>
    \<exists>P'. linked rl' (P @ P' @ target # R) \<and> keeps s (set ids) (set (target # R)) rl rl'"
proof (induction ids arbitrary: P before rl changed)
  case Nil
  then show ?case
    by (intro exI [of _ "[]"]) (simp add: keeps_def)
next
  case (Cons i ids)
  let ?row = "rl_row rl i"
  let ?move = "row_line ?row s \<noteq> None \<or> (before \<and> row_a ?row \<noteq> None)"
  let ?before = "if Some i = last_equal_a then False else before"
  have sub: "set ids \<subseteq> set (target # R)"
    using Cons.prems(2) by simp
  show ?case
  proof (cases ?move)
    case False
    have "bc_move s target last_equal_a ids ?before (rl, changed) = (rl', changed')"
      using Cons.prems(3) unfolding bc_move.simps Let_def split_beta if_not_P [OF False] .
    from Cons.IH [OF Cons.prems(1) sub this] obtain P' where
      "linked rl' (P @ P' @ target # R)" "keeps s (set ids) (set (target # R)) rl rl'"
      by blast
    then show ?thesis
      using keeps_mono [of s "set ids" "set (target # R)" rl rl' "set (i # ids)"] by auto
  next
    case True
    let ?a = "if before then row_a ?row else None"
    let ?moved = "set_line s (row_line ?row s) (set_line A ?a row_default)"
    let ?rl0 = "if before then upd_row i (set_line A None) rl else rl"
    let ?rl1 = "upd_row i (set_line s None) ?rl0"
    let ?rl2 = "fst (insert_before ?rl1 (Some target) ?moved)"
    let ?new = "length (nodes ?rl1)"
    have i: "i < length (nodes rl)"
      using linked_bound [OF Cons.prems(1), of i] Cons.prems(2) by auto
    have l1: "linked ?rl1 (P @ target # R)"
      using Cons.prems(1) by (auto intro: linked_upd_row)
    have k1: "keeps s {i} (set (target # R)) rl ?rl1"
    proof (rule keeps_trans)
      show "keeps s {i} (set (target # R)) rl ?rl0"
        using i by (auto intro: keeps_upd) (simp add: keeps_def)
      show "keeps s {i} (set (target # R)) ?rl0 ?rl1"
        using i by (intro keeps_upd) auto
    qed
    have some: "Some target = (if target # R = [] then None else Some (hd (target # R)))"
      by simp
    note ins = linked_insert_at [OF l1 some, of ?moved]
    have l2: "linked ?rl2 ((P @ [?new]) @ target # R)"
      using ins(1) by simp
    have k2: "keeps s {i} (set (target # R)) ?rl1 ?rl2"
      using ins(4) by (auto simp: keeps_def map_eq_conv)
    have "bc_move s target last_equal_a ids ?before (?rl2, changed @ [i, snd (insert_before ?rl1 (Some target) ?moved)])
        = (rl', changed')"
      using Cons.prems(3) unfolding bc_move.simps Let_def split_beta if_P [OF True] .
    from Cons.IH [OF l2 sub this] obtain P' where "linked rl' ((P @ [?new]) @ P' @ target # R)"
      "keeps s (set ids) (set (target # R)) ?rl2 rl'"
      by blast
    moreover have "keeps s (set (i # ids)) (set (target # R)) rl rl'"
      using keeps_trans [OF keeps_trans [OF k1 k2, THEN keeps_mono, of "set (i # ids)"]
          keeps_mono [OF calculation(2), of "set (i # ids)"]] by auto
    ultimately show ?thesis
      by (intro exI [of _ "?new # P'"]) simp
  qed
qed

lemma bc_pull_spec:
  assumes l: "linked rl (P @ target # M @ other # S)"
    and pull: "bc_pull s ws target other line rl = (rl', changed)"
  obtains P' where "linked rl' (P @ P' @ target # M @ other # S)"
    "keeps s (set (target # M @ [other])) (set (target # M @ other # S)) rl rl'"
proof -
  let ?between = "target # M"
  let ?R = "M @ other # S"
  let ?last = "find (\<lambda>i. ws (rl_row rl i)) (rev ?between)"
  let ?st = "if list_ex (\<lambda>i. row_line (rl_row rl i) s \<noteq> None) ?between
    then bc_move s target ?last ?between (?last \<noteq> None) (rl, []) else (rl, [])"
  obtain rl1 ch1 where st: "?st = (rl1, ch1)"
    by (metis surj_pair)
  have "\<exists>P'. linked rl1 (P @ P' @ target # ?R) \<and> keeps s (set ?between) (set (target # ?R)) rl rl1"
  proof (cases "list_ex (\<lambda>i. row_line (rl_row rl i) s \<noteq> None) ?between")
    case True
    have "set ?between \<subseteq> set (target # ?R)"
      by auto
    from bc_move_spec [OF l this] show ?thesis
      using st unfolding if_P [OF True] .
  next
    case False
    then have "rl1 = rl"
      using st by auto
    then show ?thesis
      using l by (intro exI [of _ "[]"]) (simp add: keeps_def)
  qed
  then obtain P' where l1: "linked rl1 (P @ P' @ target # ?R)"
    and k1: "keeps s (set ?between) (set (target # ?R)) rl rl1"
    by blast
  let ?rl2 = "upd_row other (set_line s None) rl1"
  let ?rl3 = "upd_row target (set_line s (Some line)) ?rl2"
  have "bc_pull s ws target other line rl = (?rl3, ch1 @ [other, target])"
    unfolding bc_pull_def Let_def ids_between_linked [OF l] st prod.case by (rule refl)
  then have rl': "rl' = ?rl3"
    using pull by simp
  have bounds: "other < length (nodes rl1)" "target < length (nodes rl1)"
    using linked_bound [OF l1] by auto
  have l3: "linked ?rl3 (P @ P' @ target # ?R)"
    using l1 by (intro linked_upd_row)
  have "keeps s {other} (set (target # ?R)) rl1 ?rl2"
    using bounds by (intro keeps_upd) auto
  moreover have "keeps s {target} (set (target # ?R)) ?rl2 ?rl3"
    using bounds by (intro keeps_upd) auto
  ultimately have "keeps s (set (target # M @ [other])) (set (target # ?R)) rl ?rl3"
    using k1 by (elim keeps_trans [OF keeps_trans] keeps_mono [THEN keeps_trans] keeps_mono)
      (auto intro: keeps_mono)
  then show ?thesis
    using that l3 unfolding rl' by blast
qed

lemma column_cong:
  "(\<And>i. i \<in> set ids \<Longrightarrow> row_line (rl_row rl' i) t = row_line (rl_row rl i) t) \<Longrightarrow>
    column t (rows_of rl' ids) = column t (rows_of rl ids)"
  unfolding column_def filter_map_map by (intro filter_map_cong) auto

lemma recompute_ids_lines:
  "row_line (rl_row (recompute_ids al bl cl changed rl) j) t = row_line (rl_row rl j) t"
proof -
  have upd: "row_line (rl_row (upd_row i (recompute_row_metadata al bl cl) rl) j) t = row_line (rl_row rl j) t"
    for i and rl :: row_list
  proof (cases "i < length (nodes rl)")
    case False
    then show ?thesis
      by (simp add: upd_row_def list_update_beyond not_less)
  qed (simp add: upd_row_row)
  have "row_line (rl_row (fold (\<lambda>i. upd_row i (recompute_row_metadata al bl cl)) is rl) j) t = row_line (rl_row rl j) t"
    for "is" rl
    by (induction "is" arbitrary: rl) (simp_all add: upd)
  then show ?thesis
    by (simp add: recompute_ids_def)
qed

lemma linked_recompute_ids: "linked rl ids \<Longrightarrow> linked (recompute_ids al bl cl changed rl) ids"
proof -
  have "linked rl ids \<Longrightarrow> linked (fold (\<lambda>i. upd_row i (recompute_row_metadata al bl cl)) is rl) ids" for "is" rl
    by (induction "is" arbitrary: rl) (simp_all add: linked_upd_row)
  then show "linked rl ids \<Longrightarrow> ?thesis"
    by (simp add: recompute_ids_def)
qed

text \<open>
  The invariant: the lines of B behind \<open>cursor_b\<close> are exactly those from \<open>b\<close> on. Behind \<open>cursor_c\<close> lines
  of C below \<open>c\<close> may be left, since a chunk of changed lines moves \<open>c\<close> without the cursor.
\<close>

definition bc_inv :: "nat \<Rightarrow> nat \<Rightarrow> bc_state \<Rightarrow> bool" where
  "bc_inv nb nc = (\<lambda>(rl, cursor_b, cursor_c, b, c). \<exists>ids xs ys us vs k.
     linked rl ids \<and> ids = xs @ ys \<and> cursor_b = (if ys = [] then None else Some (hd ys)) \<and>
     column B (rows_of rl ys) = [b..<nb] \<and>
     ids = us @ vs \<and> cursor_c = (if vs = [] then None else Some (hd vs)) \<and>
     column C (rows_of rl vs) = [k..<nc] \<and> k \<le> c)"

lemma bc_invI:
  assumes "linked rl ids" "ids = xs @ ys" "cursor_b = (if ys = [] then None else Some (hd ys))"
    "column B (rows_of rl ys) = [b..<nb]" "ids = us @ vs" "cursor_c = (if vs = [] then None else Some (hd vs))"
    "column C (rows_of rl vs) = [k..<nc]" "k \<le> c"
  shows "bc_inv nb nc (rl, cursor_b, cursor_c, b, c)"
  unfolding bc_inv_def prod.case using assms by blast

lemma bc_inv_after:
  assumes l: "linked rl ids" and b: "ids = X1 @ in_b # S1" "column B (rows_of rl S1) = [Suc b..<nb]"
    and c: "ids = X2 @ in_c # S2" "column C (rows_of rl S2) = [Suc c..<nc]"
  shows "bc_inv nb nc (recompute_ids al bl cl changed rl,
    next_id (recompute_ids al bl cl changed rl) in_b, next_id (recompute_ids al bl cl changed rl) in_c, Suc b, Suc c)"
proof (rule bc_invI)
  let ?rl = "recompute_ids al bl cl changed rl"
  show l': "linked ?rl ids"
    using l by (rule linked_recompute_ids)
  show "ids = (X1 @ [in_b]) @ S1" "ids = (X2 @ [in_c]) @ S2"
    using b(1) c(1) by simp_all
  show "next_id ?rl in_b = (if S1 = [] then None else Some (hd S1))"
    using linked_next l' b(1) by blast
  show "next_id ?rl in_c = (if S2 = [] then None else Some (hd S2))"
    using linked_next l' c(1) by blast
  show "column B (rows_of ?rl S1) = [Suc b..<nb]" "column C (rows_of ?rl S2) = [Suc c..<nc]"
    using b(2) c(2) column_cong [of _ ?rl _ rl, OF recompute_ids_lines] by simp_all
qed simp

lemma pulled_columns:
  assumes "keeps s (set (target # M @ [other])) (set (target # M @ other # S)) rl rl'"
    "distinct (P @ target # M @ other # S)"
  shows "column t (rows_of rl' S) = column t (rows_of rl S)"
    "t \<notin> {A, s} \<Longrightarrow> column t (rows_of rl' (M @ other # S)) = column t (rows_of rl (M @ other # S))"
proof -
  have "rl_row rl' i = rl_row rl i" if "i \<in> set S" for i
    using assms that unfolding keeps_def by auto
  then show "column t (rows_of rl' S) = column t (rows_of rl S)"
    by (intro column_cong) simp
  show "column t (rows_of rl' (M @ other # S)) = column t (rows_of rl (M @ other # S))" if "t \<notin> {A, s}"
    using assms(1) that unfolding keeps_def by (intro column_cong) auto
qed

lemma bc_equal_inv:
  assumes inv: "bc_inv nb nc (rl, cursor_b, cursor_c, b, c)" and b: "b < nb" and c: "c < nc"
  shows "\<exists>rl' cb cc. bc_equal al bl cl (rl, cursor_b, cursor_c, b, c) = Some (rl', cb, cc, Suc b, Suc c) \<and>
    bc_inv nb nc (rl', cb, cc, Suc b, Suc c)"
proof -
  obtain ids xs ys us vs k where i: "linked rl ids" "ids = xs @ ys"
    "cursor_b = (if ys = [] then None else Some (hd ys))" "column B (rows_of rl ys) = [b..<nb]"
    "ids = us @ vs" "cursor_c = (if vs = [] then None else Some (hd vs))"
    "column C (rows_of rl vs) = [k..<nc]" "k \<le> c"
    using inv unfolding bc_inv_def prod.case by blast
  have lb: "linked rl (xs @ ys)" and lc: "linked rl (us @ vs)"
    using i(1,2,5) by simp_all
  from find_from_upt [OF lb i(3,4) order_refl b] obtain us1 in_b S1 where
    fb: "ys = us1 @ in_b # S1" "find_from rl cursor_b B b = Some in_b" "column B (rows_of rl S1) = [Suc b..<nb]" .
  from find_from_upt [OF lc i(6,7,8) c] obtain us2 in_c S2 where
    fc: "vs = us2 @ in_c # S2" "find_from rl cursor_c C c = Some in_c" "column C (rows_of rl S2) = [Suc c..<nc]" .
  let ?X1 = "xs @ us1" and ?X2 = "us @ us2"
  have ids: "ids = ?X1 @ in_b # S1" "ids = ?X2 @ in_c # S2"
    using i(2,5) fb(1) fc(1) by simp_all
  have dist: "distinct ids"
    using i(1) by (simp add: linked_def)
  let ?st = "if in_b = in_c then (rl, [])
     else if comes_before rl in_c in_b \<and> \<not> whitespace_equal_ab (rl_row rl in_b)
     then bc_pull B whitespace_equal_ab in_c in_b b rl
     else if comes_before rl in_b in_c \<and> \<not> whitespace_equal_ac (rl_row rl in_c)
     then bc_pull C whitespace_equal_ac in_b in_c c rl
     else (rl, [])"
  obtain rl1 changed where st: "?st = (rl1, changed)"
    by (metis surj_pair)
  let ?rl' = "recompute_ids al bl cl changed rl1"
  have eq: "bc_equal al bl cl (rl, cursor_b, cursor_c, b, c)
      = Some (?rl', next_id ?rl' in_b, next_id ?rl' in_c, Suc b, Suc c)"
    unfolding bc_equal_def prod.case fb(2) fc(2) Option.bind.simps st Let_def by (rule refl)
  have "bc_inv nb nc (?rl', next_id ?rl' in_b, next_id ?rl' in_c, Suc b, Suc c)"
  proof -
    consider (Stay) "rl1 = rl"
      | (Pull_b) "in_b \<noteq> in_c" "comes_before rl in_c in_b" "bc_pull B whitespace_equal_ab in_c in_b b rl = (rl1, changed)"
      | (Pull_c) "in_b \<noteq> in_c" "comes_before rl in_b in_c" "bc_pull C whitespace_equal_ac in_b in_c c rl = (rl1, changed)"
      using st by (auto split: if_splits)
    then show ?thesis
    proof cases
      case Stay
      show ?thesis
        unfolding Stay by (rule bc_inv_after [OF i(1) ids(1) fb(3) ids(2) fc(3)])
    next
      case Pull_b
      have "in_b \<in> set S2"
        using Pull_b(1,2) comes_before_linked [of rl ?X2 in_c S2] i(1) ids(2) by auto
      then obtain M S where S2: "S2 = M @ in_b # S"
        by (meson split_list)
      have "distinct (?X1 @ in_b # S1)" "?X1 @ in_b # S1 = (?X2 @ in_c # M) @ in_b # S"
        using dist ids S2 by simp_all
      from distinct_split_unique [OF this] have "S = S1"
        by simp
      then have l: "linked rl (?X2 @ in_c # M @ in_b # S1)"
        using i(1) ids(2) S2 by simp
      from bc_pull_spec [OF l Pull_b(3)] obtain P' where
        p: "linked rl1 (?X2 @ P' @ in_c # M @ in_b # S1)"
        "keeps B (set (in_c # M @ [in_b])) (set (in_c # M @ in_b # S1)) rl rl1" .
      have d: "distinct (?X2 @ in_c # M @ in_b # S1)"
        using l by (simp add: linked_def)
      have "column B (rows_of rl1 S1) = [Suc b..<nb]"
        using pulled_columns(1) [OF p(2) d, of B] fb(3) by simp
      moreover have "column C (rows_of rl1 (M @ in_b # S1)) = [Suc c..<nc]"
        using pulled_columns(2) [OF p(2) d, of C] fc(3) S2 \<open>S = S1\<close> by simp
      ultimately show ?thesis
        by (intro bc_inv_after [OF p(1), where ?X1.0 = "?X2 @ P' @ in_c # M" and ?X2.0 = "?X2 @ P'"])
          (simp_all only: append_assoc append_Cons)
    next
      case Pull_c
      have "in_c \<in> set S1"
        using Pull_c(1,2) comes_before_linked [of rl ?X1 in_b S1] i(1) ids(1) by auto
      then obtain M S where S1: "S1 = M @ in_c # S"
        by (meson split_list)
      have "distinct (?X2 @ in_c # S2)" "?X2 @ in_c # S2 = (?X1 @ in_b # M) @ in_c # S"
        using dist ids S1 by simp_all
      from distinct_split_unique [OF this] have "S = S2"
        by simp
      then have l: "linked rl (?X1 @ in_b # M @ in_c # S2)"
        using i(1) ids(1) S1 by simp
      from bc_pull_spec [OF l Pull_c(3)] obtain P' where
        p: "linked rl1 (?X1 @ P' @ in_b # M @ in_c # S2)"
        "keeps C (set (in_b # M @ [in_c])) (set (in_b # M @ in_c # S2)) rl rl1" .
      have d: "distinct (?X1 @ in_b # M @ in_c # S2)"
        using l by (simp add: linked_def)
      have "column C (rows_of rl1 S2) = [Suc c..<nc]"
        using pulled_columns(1) [OF p(2) d, of C] fc(3) by simp
      moreover have "column B (rows_of rl1 (M @ in_c # S2)) = [Suc b..<nb]"
        using pulled_columns(2) [OF p(2) d, of B] fb(3) S1 \<open>S = S2\<close> by simp
      ultimately show ?thesis
        by (intro bc_inv_after [OF p(1), where ?X1.0 = "?X1 @ P'" and ?X2.0 = "?X1 @ P' @ in_b # M"])
          (simp_all only: append_assoc append_Cons)
    qed
  qed
  with eq show ?thesis
    by blast
qed

lemma bc_inv_advance: "bc_inv nb nc (rl, cb, cc, b, c) \<Longrightarrow> c \<le> c' \<Longrightarrow> bc_inv nb nc (rl, cb, cc, b, c')"
  unfolding bc_inv_def prod.case using order_trans by blast

text \<open>Where a suffix of the order ends up when a node is put in front of another suffix.\<close>

lemma suffix_after_insert:
  assumes "xs @ ys = us @ vs"
  obtains us' vs' where "xs @ new # ys = us' @ vs'" "(if vs' = [] then None else Some (hd vs')) = (if vs = [] then None else Some (hd vs))"
    "vs' = vs \<or> (\<exists>w w'. vs = w @ w' \<and> vs' = w @ new # w')"
proof -
  from assms consider (Inside) w where "xs @ w = us" "ys = w @ vs" | (Outside) w where "xs = us @ w" "w @ ys = vs"
    by (metis append_eq_append_conv2)
  then show ?thesis
  proof cases
    case Inside
    then show ?thesis
      by (intro that [of "xs @ new # w" vs]) auto
  next
    case Outside
    show ?thesis
    proof (cases w)
      case Nil
      with Outside show ?thesis
        by (intro that [of "xs @ [new]" vs]) auto
    next
      case (Cons a w')
      with Outside show ?thesis
        by (intro that [of us "w @ new # ys"] disjI2 exI [of _ w] exI [of _ ys]) auto
    qed
  qed
qed

lemma bc_left_inv:
  assumes inv: "bc_inv nb nc (rl, cursor_b, cursor_c, b, c)" and b: "b < nb"
  shows "\<exists>rl' cb right' c'. bc_left ((rl, cursor_b, cursor_c, b, c), right) = Some ((rl', cb, cursor_c, Suc b, c'), right') \<and>
    bc_inv nb nc (rl', cb, cursor_c, Suc b, c') \<and> c' + right' = c + right"
proof -
  obtain ids xs ys us vs k where i: "linked rl ids" "ids = xs @ ys"
    "cursor_b = (if ys = [] then None else Some (hd ys))" "column B (rows_of rl ys) = [b..<nb]"
    "ids = us @ vs" "cursor_c = (if vs = [] then None else Some (hd vs))"
    "column C (rows_of rl vs) = [k..<nc]" "k \<le> c"
    using inv unfolding bc_inv_def prod.case by blast
  have l: "linked rl (xs @ ys)"
    using i(1,2) by simp
  from find_from_upt [OF l i(3,4) order_refl b] obtain us1 found S1 where
    f: "ys = us1 @ found # S1" "find_from rl cursor_b B b = Some found" "column B (rows_of rl us1) = [b..<b]"
    "column B (rows_of rl S1) = [Suc b..<nb]" .
  have lf: "linked rl ((xs @ us1) @ found # S1)"
    using l f(1) by simp
  have bump: "bc_inv nb nc (rl', cb, cursor_c, Suc b, c')"
    if "bc_inv nb nc (rl', cb, cursor_c, Suc b, c)" "c \<le> c'" for rl' cb c'
    using bc_inv_advance that .
  show ?thesis
  proof (cases "Some found \<noteq> cursor_b \<and> \<not> whitespace_equal_ab (rl_row rl found)")
    case False
    have "bc_inv nb nc (rl, next_id rl found, cursor_c, Suc b, c)"
      by (rule bc_invI [OF i(1) _ linked_next [OF lf] f(4) i(5-8)]) (simp add: i(2) f(1))
    then show ?thesis
      using bump [of rl "next_id rl found" "Suc c"] False f(2) by (auto simp: bc_left_def Let_def)
  next
    case True
    obtain y us2 where us1: "us1 = y # us2"
      using True i(3) f(1) by (cases us1) auto
    then have cb: "cursor_b = Some y"
      using i(3) f(1) by simp
    let ?rl1 = "upd_row found (set_line B None) rl"
    let ?new = "length (nodes ?rl1)" and ?row = "set_line B (Some b) row_default"
    let ?rl2 = "fst (insert_before ?rl1 cursor_b ?row)"
    note upd = linked_upd_at [OF lf, of "set_line B None"]
    have l1: "linked ?rl1 (xs @ ys)"
      using upd(1) f(1) by simp
    note ins = linked_insert_at [OF l1 i(3), of ?row]
    have "linked ?rl2 ((xs @ [?new]) @ y # us2 @ found # S1)"
      using ins(1) f(1) us1 by simp
    then have next_y: "next_id ?rl2 y = (if us2 @ found # S1 = [] then None else Some (hd (us2 @ found # S1)))"
      using linked_next [of ?rl2 "xs @ [?new]" y "us2 @ found # S1"] by (metis append.assoc append_Cons append_Nil
          append_eq_append_conv2 linked_next)
    have rows2: "rows_of ?rl2 (us1 @ found # S1) = rows_of rl us1 @ set_line B None (rl_row rl found) # rows_of rl S1"
      using ins(4) upd(2-4) unfolding f(1) by simp
    have col_us2: "column B (rows_of rl us2) = []"
      using f(3) us1 by (auto split: option.splits)
    have "column B (rows_of ?rl2 (us2 @ found # S1)) = [Suc b..<nb]"
      using rows2 col_us2 f(4) us1 by simp
    moreover have lines_c: "column C (rows_of ?rl2 w) = column C (rows_of rl w)" if "set w \<subseteq> set (xs @ ys)" for w
    proof (rule column_cong)
      fix j
      assume "j \<in> set w"
      then have j: "j \<in> set (xs @ ys)"
        using that by blast
      have "rl_row ?rl2 j = rl_row ?rl1 j"
        using j ins(3,4) by (auto simp: map_eq_conv)
      moreover have "found < length (nodes rl)"
        using linked_bound [OF lf, of found] by simp
      ultimately show "row_line (rl_row ?rl2 j) C = row_line (rl_row rl j) C"
        by (simp add: upd_row_row)
    qed
    moreover have "rl_row ?rl2 ?new = ?row"
      using ins(2,3) by simp
    moreover obtain us' vs' where vs': "xs @ ?new # ys = us' @ vs'"
      "(if vs' = [] then None else Some (hd vs')) = (if vs = [] then None else Some (hd vs))"
      "vs' = vs \<or> (\<exists>w w'. vs = w @ w' \<and> vs' = w @ ?new # w')"
      using suffix_after_insert [of xs ys us vs ?new] i(2,5) by metis
    moreover have "set vs \<subseteq> set (xs @ ys)"
      unfolding i(2) [symmetric] i(5) by simp
    ultimately have "column C (rows_of ?rl2 vs') = [k..<nc]"
      using i(7) by (auto simp: row_default_def)
    then have "bc_inv nb nc (?rl2, next_id ?rl2 y, cursor_c, Suc b, c)"
      by (intro bc_invI [OF ins(1), of "xs @ [?new, y]" "us2 @ found # S1" _ _ _ us' vs'])
        (use f(1) us1 next_y vs'(1,2) i(6,8) \<open>column B (rows_of ?rl2 (us2 @ found # S1)) = [Suc b..<nb]\<close> in simp_all)
    then show ?thesis
      using bump [of ?rl2 "next_id ?rl2 y" "Suc c"] True f(2) cb by (auto simp: bc_left_def Let_def)
  qed
qed

lemma bc_equals_inv:
  "bc_inv nb nc (rl, cb, cc, b, c) \<Longrightarrow> b + m \<le> nb \<Longrightarrow> c + m \<le> nc \<Longrightarrow>
    \<exists>rl' cb' cc'. iterate_opt m (bc_equal al bl cl) (rl, cb, cc, b, c) = Some (rl', cb', cc', b + m, c + m) \<and>
      bc_inv nb nc (rl', cb', cc', b + m, c + m)"
proof (induction m arbitrary: rl cb cc b c)
  case (Suc m)
  have "b < nb" "c < nc"
    using Suc.prems by simp_all
  from bc_equal_inv [OF Suc.prems(1) this] obtain rl1 cb1 cc1 where
    s: "bc_equal al bl cl (rl, cb, cc, b, c) = Some (rl1, cb1, cc1, Suc b, Suc c)"
    "bc_inv nb nc (rl1, cb1, cc1, Suc b, Suc c)"
    by blast
  have "Suc b + m \<le> nb" "Suc c + m \<le> nc"
    using Suc.prems by simp_all
  from Suc.IH [OF s(2) this] s(1) show ?case
    by auto
qed simp

lemma bc_lefts_inv:
  "bc_inv nb nc (rl, cb, cc, b, c) \<Longrightarrow> b + m \<le> nb \<Longrightarrow>
    \<exists>rl' cb' c' right'. iterate_opt m bc_left ((rl, cb, cc, b, c), right) = Some ((rl', cb', cc, b + m, c'), right') \<and>
      bc_inv nb nc (rl', cb', cc, b + m, c') \<and> c' + right' = c + right"
proof (induction m arbitrary: rl cb b c right)
  case (Suc m)
  have "b < nb"
    using Suc.prems by simp
  from bc_left_inv [OF Suc.prems(1) this, of right] obtain rl1 cb1 right1 c1 where
    s: "bc_left ((rl, cb, cc, b, c), right) = Some ((rl1, cb1, cc, Suc b, c1), right1)"
    "bc_inv nb nc (rl1, cb1, cc, Suc b, c1)" "c1 + right1 = c + right"
    by blast
  have "Suc b + m \<le> nb"
    using Suc.prems by simp
  from Suc.IH [OF s(2) this, of right1] s(1,3) show ?case
    by auto
qed simp

lemma bc_chunk_inv:
  assumes "bc_inv nb nc (rl, cb, cc, b, c)" "b + ch_equal ch + ch_left ch \<le> nb" "c + ch_equal ch \<le> nc"
  shows "\<exists>rl' cb' cc'. bc_chunk al bl cl ch (rl, cb, cc, b, c) =
      Some (rl', cb', cc', b + ch_equal ch + ch_left ch, c + ch_equal ch + ch_right ch) \<and>
    bc_inv nb nc (rl', cb', cc', b + ch_equal ch + ch_left ch, c + ch_equal ch + ch_right ch)"
proof -
  have "b + ch_equal ch \<le> nb"
    using assms(2) by simp
  from bc_equals_inv [OF assms(1) this assms(3)] obtain rl1 cb1 cc1 where
    s1: "iterate_opt (ch_equal ch) (bc_equal al bl cl) (rl, cb, cc, b, c)
      = Some (rl1, cb1, cc1, b + ch_equal ch, c + ch_equal ch)"
    "bc_inv nb nc (rl1, cb1, cc1, b + ch_equal ch, c + ch_equal ch)"
    by blast
  from bc_lefts_inv [OF s1(2) assms(2), of "ch_right ch"] obtain rl2 cb2 c2 r2 where
    s2: "iterate_opt (ch_left ch) bc_left ((rl1, cb1, cc1, b + ch_equal ch, c + ch_equal ch), ch_right ch)
      = Some ((rl2, cb2, cc1, b + ch_equal ch + ch_left ch, c2), r2)"
    "bc_inv nb nc (rl2, cb2, cc1, b + ch_equal ch + ch_left ch, c2)"
    "c2 + r2 = c + ch_equal ch + ch_right ch"
    by blast
  have "bc_chunk al bl cl ch (rl, cb, cc, b, c) = Some (rl2, cb2, cc1, b + ch_equal ch + ch_left ch, c2 + r2)"
    unfolding bc_chunk_def s1(1) Option.bind.simps s2(1) prod.case by (rule refl)
  moreover have "bc_inv nb nc (rl2, cb2, cc1, b + ch_equal ch + ch_left ch, c2 + r2)"
    using bc_inv_advance [OF s2(2)] by simp
  ultimately show ?thesis
    unfolding s2(3) by blast
qed

lemma bc_chunks_some:
  "bc_inv nb nc (rl, cb, cc, b, c) \<Longrightarrow> b + left_total chs \<le> nb \<Longrightarrow> c + right_total chs \<le> nc \<Longrightarrow>
    \<exists>rl' cb' cc' b' c'. bc_chunks al bl cl chs (rl, cb, cc, b, c) = Some (rl', cb', cc', b', c') \<and>
      (\<exists>ids. linked rl' ids)"
proof (induction chs arbitrary: rl cb cc b c)
  case Nil
  then show ?case
    unfolding bc_inv_def by auto
next
  case (Cons ch chs)
  have "b + ch_equal ch + ch_left ch \<le> nb" "c + ch_equal ch \<le> nc"
    using Cons.prems by simp_all
  from bc_chunk_inv [OF Cons.prems(1) this] obtain rl1 cb1 cc1 where
    s: "bc_chunk al bl cl ch (rl, cb, cc, b, c)
      = Some (rl1, cb1, cc1, b + ch_equal ch + ch_left ch, c + ch_equal ch + ch_right ch)"
    "bc_inv nb nc (rl1, cb1, cc1, b + ch_equal ch + ch_left ch, c + ch_equal ch + ch_right ch)"
    by blast
  have "b + ch_equal ch + ch_left ch + left_total chs \<le> nb" "c + ch_equal ch + ch_right ch + right_total chs \<le> nc"
    using Cons.prems by simp_all
  from Cons.IH [OF s(2) this] s(1) show ?case
    by simp
qed

text \<open>The pass never fails on complete columns.\<close>

lemma integrate_bc_some:
  assumes "linked rl ids" "column B (rows_of rl ids) = [0..<nb]" "column C (rows_of rl ids) = [0..<nc]"
    and "left_total chs \<le> nb" "right_total chs \<le> nc"
  obtains rl' ids' where "integrate_bc rl chs al bl cl = Some rl'" "linked rl' ids'"
proof -
  have "bc_inv nb nc (rl, first rl, first rl, 0, 0)"
    by (rule bc_invI [of rl ids "[]" ids _ _ _ "[]" ids]) (use assms in \<open>simp_all add: linked_def\<close>)
  from bc_chunks_some [OF this] assms(4,5) obtain rl' cb cc b c ids' where
    "bc_chunks al bl cl chs (rl, first rl, first rl, 0, 0) = Some (rl', cb, cc, b, c)" "linked rl' ids'"
    by auto metis
  then show ?thesis
    by (intro that [of rl' ids']) (simp_all add: integrate_bc_def)
qed

end
