(* ===== verification/Trim.thy ===== *)
theory Trim
  imports Integrate
begin

text \<open>
  The pass \<open>trim_rows\<close> of \<open>merge/plan.rs\<close>, which pulls lines back into earlier rows. The three cursors and
  the three line counters are functions of the source; the seven guarded moves of one iteration are
  steps on a state record, in the order of the code.

  Without manual alignments a move never overwrites a cell and never reorders a source: every column of
  the result is the column of the input.
\<close>

section \<open>The pass\<close>

record trim_state =
  tr_rows :: "aligned_row list"
  tr_cursor :: "merge_source \<Rightarrow> nat"
  tr_line :: "merge_source \<Rightarrow> nat"

definition source_lines3 :: "utext list \<Rightarrow> utext list \<Rightarrow> utext list \<Rightarrow> merge_source \<Rightarrow> utext list" where
  "source_lines3 al bl cl s = (case s of A \<Rightarrow> al | B \<Rightarrow> bl | C \<Rightarrow> cl)"

definition row_segment :: "alignment_barriers \<Rightarrow> aligned_row \<Rightarrow> nat" where
  "row_segment bar r =
     (let segs = filter_map (\<lambda>s. map_option (barrier_segment bar s) (row_line r s)) [A, B, C]
      in if segs = [] then 0 else Min (set segs))"

definition row_segments :: "alignment_barriers \<Rightarrow> aligned_row list \<Rightarrow> nat list" where
  "row_segments bar rows = map (row_segment bar) rows"

definition allows_move :: "alignment_barriers \<Rightarrow> nat list \<Rightarrow> merge_source \<Rightarrow> nat option \<Rightarrow> nat \<Rightarrow> bool" where
  "allows_move bar segs source line target =
     (case line of None \<Rightarrow> True
      | Some l \<Rightarrow>
          if barriers_empty bar then True
          else (case nth_opt segs target of None \<Rightarrow> True
            | Some segment \<Rightarrow> barrier_segment bar source l = segment))"

text \<open>\<open>while *cursor < look && row_segments[*cursor] < wanted\<close>\<close>

function advance_cursor :: "nat list \<Rightarrow> nat \<Rightarrow> nat \<Rightarrow> nat \<Rightarrow> nat" where
  "advance_cursor segs wanted look cursor =
     (if cursor < look \<and> segs ! cursor < wanted then advance_cursor segs wanted look (Suc cursor) else cursor)"
  by pat_completeness auto
termination
  by (relation "measure (\<lambda>(segs, wanted, look, cursor). look - cursor)") auto

declare advance_cursor.simps [simp del]

definition trim_skip :: "alignment_barriers \<Rightarrow> nat list \<Rightarrow> nat \<Rightarrow> trim_state \<Rightarrow> trim_state" where
  "trim_skip bar segs look st =
     (if barriers_empty bar then st
      else st\<lparr>tr_cursor := (\<lambda>s. advance_cursor segs (segs ! look) look (tr_cursor st s))\<rparr>)"

text \<open>\<open>rows[target].s = rows[look].s.take()\<close>, then the metadata of both rows.\<close>

definition move_cell ::
  "utext list \<Rightarrow> utext list \<Rightarrow> utext list \<Rightarrow> merge_source list \<Rightarrow> nat \<Rightarrow> nat \<Rightarrow> aligned_row list \<Rightarrow> aligned_row list" where
  "move_cell al bl cl ss target look rows =
     (let moved = fold (\<lambda>s rows.
            let v = row_line (rows ! look) s;
                rows = rows[look := set_line s None (rows ! look)]
            in rows[target := set_line s v (rows ! target)]) ss rows;
          rows = moved[target := recompute_row_metadata al bl cl (moved ! target)]
      in rows[look := recompute_row_metadata al bl cl (rows ! look)])"

definition trim_single ::
  "utext list \<Rightarrow> utext list \<Rightarrow> utext list \<Rightarrow> nat \<Rightarrow> merge_source \<Rightarrow> trim_state \<Rightarrow> trim_state" where
  "trim_single al bl cl look s st =
     st\<lparr>tr_rows := move_cell al bl cl [s] (tr_cursor st s) look (tr_rows st),
        tr_cursor := (tr_cursor st)(s := Suc (tr_cursor st s)),
        tr_line := (tr_line st)(s := Suc (tr_line st s))\<rparr>"

text \<open>The first three moves: the line matches the line of another source in the row at the cursor.\<close>

definition trim_match ::
  "utext list \<Rightarrow> utext list \<Rightarrow> utext list \<Rightarrow> alignment_barriers \<Rightarrow> nat list \<Rightarrow> merge_source \<Rightarrow> merge_source \<Rightarrow>
    (aligned_row \<Rightarrow> bool) \<Rightarrow> nat \<Rightarrow> trim_state \<Rightarrow> trim_state" where
  "trim_match al bl cl bar segs s partner others_equal look st =
     (let row = tr_rows st ! look; at_cursor = tr_rows st ! tr_cursor st s
      in if tr_line st s < look \<and> row_line row s \<noteq> None \<and> row_line at_cursor partner \<noteq> None \<and>
            others_equal at_cursor \<and>
            line_equal (row_line row s) (row_line at_cursor partner)
              (source_lines3 al bl cl s) (source_lines3 al bl cl partner) \<and>
            allows_move bar segs s (row_line row s) (tr_cursor st s)
         then trim_single al bl cl look s st else st)"

text \<open>The next three: the line equals neither of the others in its own row.\<close>

definition trim_alone ::
  "utext list \<Rightarrow> utext list \<Rightarrow> utext list \<Rightarrow> alignment_barriers \<Rightarrow> nat list \<Rightarrow> merge_source \<Rightarrow>
    (aligned_row \<Rightarrow> bool) \<Rightarrow> (aligned_row \<Rightarrow> bool) \<Rightarrow> nat \<Rightarrow> trim_state \<Rightarrow> trim_state" where
  "trim_alone al bl cl bar segs s equal1 equal2 look st =
     (let row = tr_rows st ! look
      in if tr_line st s < look \<and> row_line row s \<noteq> None \<and> \<not> equal1 row \<and> \<not> equal2 row \<and>
            allows_move bar segs s (row_line row s) (tr_cursor st s)
         then trim_single al bl cl look s st else st)"

text \<open>The last three: two lines that match each other and not the third move together.\<close>

definition pair_target :: "merge_source \<Rightarrow> merge_source \<Rightarrow> trim_state \<Rightarrow> nat" where
  "pair_target s t st = (if tr_line st t < tr_line st s then tr_cursor st s else tr_cursor st t)"

definition pair_guard ::
  "alignment_barriers \<Rightarrow> nat list \<Rightarrow> merge_source \<Rightarrow> merge_source \<Rightarrow>
    (aligned_row \<Rightarrow> bool) \<Rightarrow> (aligned_row \<Rightarrow> bool) \<Rightarrow> nat \<Rightarrow> trim_state \<Rightarrow> bool" where
  "pair_guard bar segs s t same other look st \<longleftrightarrow>
     (let row = tr_rows st ! look; target = pair_target s t st
      in tr_line st s < look \<and> tr_line st t < look \<and> row_line row s \<noteq> None \<and> same row \<and> \<not> other row \<and>
         allows_move bar segs s (row_line row s) target \<and> allows_move bar segs t (row_line row t) target)"

definition trim_pair ::
  "utext list \<Rightarrow> utext list \<Rightarrow> utext list \<Rightarrow> nat \<Rightarrow> merge_source \<Rightarrow> merge_source \<Rightarrow> trim_state \<Rightarrow> trim_state" where
  "trim_pair al bl cl look s t st =
     (let target = pair_target s t st;
          next_line = max (tr_line st s) (tr_line st t) + 1
      in st\<lparr>tr_rows := move_cell al bl cl [s, t] target look (tr_rows st),
            tr_cursor := (tr_cursor st)(s := target + 1, t := target + 1),
            tr_line := (tr_line st)(s := next_line, t := next_line)\<rparr>)"

definition trim_pairs ::
  "utext list \<Rightarrow> utext list \<Rightarrow> utext list \<Rightarrow> alignment_barriers \<Rightarrow> nat list \<Rightarrow> nat \<Rightarrow> trim_state \<Rightarrow> trim_state" where
  "trim_pairs al bl cl bar segs look st =
     (if pair_guard bar segs A B whitespace_equal_ab whitespace_equal_ac look st
      then trim_pair al bl cl look A B st
      else if pair_guard bar segs A C whitespace_equal_ac whitespace_equal_ab look st
      then trim_pair al bl cl look A C st
      else if pair_guard bar segs B C whitespace_equal_bc whitespace_equal_ac look st
      then trim_pair al bl cl look B C st
      else st)"

definition trim_settle :: "nat \<Rightarrow> trim_state \<Rightarrow> trim_state" where
  "trim_settle look st =
     st\<lparr>tr_cursor := (\<lambda>s. if row_line (tr_rows st ! look) s \<noteq> None then Suc look else tr_cursor st s),
        tr_line := (\<lambda>s. if row_line (tr_rows st ! look) s \<noteq> None then Suc look else tr_line st s)\<rparr>"

definition trim_look ::
  "utext list \<Rightarrow> utext list \<Rightarrow> utext list \<Rightarrow> alignment_barriers \<Rightarrow> nat list \<Rightarrow> nat \<Rightarrow> trim_state \<Rightarrow> trim_state" where
  "trim_look al bl cl bar segs look st =
     (let st = trim_skip bar segs look st;
          st = trim_match al bl cl bar segs A B whitespace_equal_bc look st;
          st = trim_match al bl cl bar segs B A whitespace_equal_ac look st;
          st = trim_match al bl cl bar segs C A whitespace_equal_ab look st;
          st = trim_alone al bl cl bar segs A whitespace_equal_ab whitespace_equal_ac look st;
          st = trim_alone al bl cl bar segs B whitespace_equal_ab whitespace_equal_bc look st;
          st = trim_alone al bl cl bar segs C whitespace_equal_ac whitespace_equal_bc look st;
          st = trim_pairs al bl cl bar segs look st
      in trim_settle look st)"

definition row_nonempty :: "aligned_row \<Rightarrow> bool" where
  "row_nonempty r \<longleftrightarrow> row_a r \<noteq> None \<or> row_b r \<noteq> None \<or> row_c r \<noteq> None"

definition trim_rows ::
  "aligned_row list \<Rightarrow> utext list \<Rightarrow> utext list \<Rightarrow> utext list \<Rightarrow> alignment_barriers \<Rightarrow> aligned_row list" where
  "trim_rows rows al bl cl bar =
     (let rows = map (recompute_row_metadata al bl cl) (filter row_nonempty rows)
      in if rows = [] then rows
         else
           let segs = row_segments bar rows;
               st = fold (trim_look al bl cl bar segs) [0..<length rows]
                 \<lparr>tr_rows = rows, tr_cursor = (\<lambda>_. 0), tr_line = (\<lambda>_. 0)\<rparr>
           in map (recompute_row_metadata al bl cl) (filter row_nonempty (tr_rows st)))"

section \<open>Moves and columns\<close>

lemma column_nth_cong:
  assumes "length rows' = length rows" "\<And>i. i < length rows \<Longrightarrow> row_line (rows' ! i) s = row_line (rows ! i) s"
  shows "column s rows' = column s rows"
proof -
  have "map (\<lambda>r. row_line r s) rows' = map (\<lambda>r. row_line r s) rows"
    using assms by (intro nth_equalityI) simp_all
  moreover have "column s rs = filter_map (\<lambda>x. x) (map (\<lambda>r. row_line r s) rs)" for rs
    by (simp add: column_def)
  ultimately show ?thesis
    by metis
qed

lemma column_filter_nonempty [simp]: "column s (filter row_nonempty rows) = column s rows"
proof -
  have "row_line r s = None" if "\<not> row_nonempty r" for r
    using that by (cases s) (simp_all add: row_nonempty_def)
  then show ?thesis
    unfolding column_def by (intro filter_map_filter) simp
qed

text \<open>A cell that goes back over rows without a line of its source keeps the column.\<close>

lemma column_move:
  assumes "length rows' = length rows" "target < look" "look < length rows"
    and "\<And>i. i < length rows \<Longrightarrow> i \<noteq> target \<Longrightarrow> i \<noteq> look \<Longrightarrow> row_line (rows' ! i) s = row_line (rows ! i) s"
    and "row_line (rows' ! target) s = row_line (rows ! look) s" "row_line (rows' ! look) s = None"
    and "\<And>i. target \<le> i \<Longrightarrow> i < look \<Longrightarrow> row_line (rows ! i) s = None"
  shows "column s rows' = column s rows"
proof -
  have split: "xs = take target xs @ xs ! target # slice xs (Suc target) look @ xs ! look # drop (Suc look) xs"
    if "length xs = length rows" for xs :: "aligned_row list"
  proof -
    have "drop (Suc target) xs = slice xs (Suc target) look @ drop look xs"
      using slice_append_drop [of "Suc target" look xs] assms(2) by simp
    moreover have "drop look xs = xs ! look # drop (Suc look) xs"
      using that assms(3) by (simp add: Cons_nth_drop_Suc)
    ultimately show ?thesis
      using id_take_nth_drop [of target xs] that assms(2,3) by simp
  qed
  have same: "column s (take target rows') = column s (take target rows)"
    "column s (drop (Suc look) rows') = column s (drop (Suc look) rows)"
    using assms(1-4) by (auto intro!: column_nth_cong)
  have gap: "column s (slice xs (Suc target) look) = []"
    if "length xs = length rows" "\<And>i. target < i \<Longrightarrow> i < look \<Longrightarrow> row_line (xs ! i) s = None"
    for xs :: "aligned_row list"
  proof (rule column_empty)
    fix r
    assume "r \<in> set (slice xs (Suc target) look)"
    then obtain i where "i < look - Suc target" "r = xs ! (Suc target + i)"
      using assms(3) that(1) by (auto simp: in_set_conv_nth nth_slice)
    then show "row_line r s = None"
      using that(2) by simp
  qed
  have "column s (slice rows (Suc target) look) = []" "column s (slice rows' (Suc target) look) = []"
    using assms(1,3,4,7) by (auto intro!: gap)
  then show ?thesis
    using assms(5-7) assms(2)
    by (subst split [OF assms(1)], subst split [OF refl]) (simp add: same split: option.split)
qed

lemma length_move_cell [simp]: "length (move_cell al bl cl ss target look rows) = length rows"
proof -
  have "length (fold (\<lambda>s rows. let v = row_line (rows ! look) s; rows = rows[look := set_line s None (rows ! look)]
      in rows[target := set_line s v (rows ! target)]) ss rows) = length rows" for rows :: "aligned_row list"
    by (induction ss arbitrary: rows) (simp_all add: Let_def)
  then show ?thesis
    by (simp add: move_cell_def Let_def)
qed

lemma move_cell_line:
  assumes "target < look" "look < length rows" "i < length rows" "distinct ss"
  shows "row_line (move_cell al bl cl ss target look rows ! i) t =
    (if t \<in> set ss then (if i = target then row_line (rows ! look) t else if i = look then None
       else row_line (rows ! i) t) else row_line (rows ! i) t)"
proof -
  let ?step = "\<lambda>s rows. let v = row_line (rows ! look) s; rows = rows[look := set_line s None (rows ! look)]
      in rows[target := set_line s v (rows ! target)]"
  have *: "row_line (fold ?step ss rows ! i) t =
      (if t \<in> set ss then (if i = target then row_line (rows ! look) t else if i = look then None
         else row_line (rows ! i) t) else row_line (rows ! i) t) \<and> length (fold ?step ss rows) = length rows"
    if "look < length rows" "i < length rows" for i and rows :: "aligned_row list"
    using assms(4) that
  proof (induction ss arbitrary: rows)
    case (Cons s ss)
    have "row_line (?step s rows ! j) u =
        (if u = s then (if j = target then row_line (rows ! look) u else if j = look then None else row_line (rows ! j) u)
         else row_line (rows ! j) u)" "length (?step s rows) = length rows" if "j < length rows" for j u
      using that assms(1) Cons.prems by (auto simp: Let_def nth_list_update)
    then show ?case
      using Cons.IH [of "?step s rows"] Cons.prems assms(1) by auto
  qed simp
  show ?thesis
    using * [of rows i] * [of rows target] * [of rows look] assms
    by (auto simp: move_cell_def Let_def nth_list_update)
qed

section \<open>Without manual alignments\<close>

text \<open>
  Inside iteration \<open>look\<close>: cursors and counters agree and do not pass \<open>look\<close>, no row between a cursor and
  \<open>look\<close> has a line of the cursor's source, and the columns are those of the input.
\<close>

definition trim_inv :: "aligned_row list \<Rightarrow> nat \<Rightarrow> trim_state \<Rightarrow> bool" where
  "trim_inv rows0 look st \<longleftrightarrow>
     length (tr_rows st) = length rows0 \<and>
     (\<forall>s. tr_line st s = tr_cursor st s \<and> tr_cursor st s \<le> Suc look \<and>
       (\<forall>i. tr_cursor st s \<le> i \<and> i < look \<longrightarrow> row_line (tr_rows st ! i) s = None) \<and>
       column s (tr_rows st) = column s rows0)"

text \<open>The sources of \<open>ss\<close> move from \<open>look\<close> to \<open>target\<close>, and their cursors and counters to the row after it.\<close>

lemma trim_inv_move:
  assumes inv: "trim_inv rows0 look st" and look: "look < length rows0" and ss: "distinct ss"
    and target: "target < look" "\<And>s. s \<in> set ss \<Longrightarrow> tr_cursor st s \<le> target"
    and st': "tr_rows st' = move_cell al bl cl ss target look (tr_rows st)"
      "\<And>s. tr_cursor st' s = (if s \<in> set ss then Suc target else tr_cursor st s)"
      "\<And>s. tr_line st' s = (if s \<in> set ss then Suc target else tr_line st s)"
  shows "trim_inv rows0 look st'"
proof -
  have len: "length (tr_rows st) = length rows0"
    using inv by (simp add: trim_inv_def)
  have line: "row_line (tr_rows st' ! i) t =
      (if t \<in> set ss then (if i = target then row_line (tr_rows st ! look) t else if i = look then None
         else row_line (tr_rows st ! i) t) else row_line (tr_rows st ! i) t)" if "i < length rows0" for i t
    unfolding st'(1) using move_cell_line [OF target(1) _ _ ss] look that len by simp
  have none: "row_line (tr_rows st ! i) s = None" if "s \<in> set ss" "target \<le> i" "i < look" for i s
    using inv target(2) [OF that(1)] that unfolding trim_inv_def by auto
  show ?thesis
    unfolding trim_inv_def
  proof (intro conjI allI impI)
    show "length (tr_rows st') = length rows0"
      by (simp add: st'(1) len)
    fix s
    show "tr_line st' s = tr_cursor st' s"
      using inv by (simp add: st' trim_inv_def)
    show "tr_cursor st' s \<le> Suc look"
      using inv target(1) by (simp add: st' trim_inv_def)
    show "row_line (tr_rows st' ! i) s = None" if "tr_cursor st' s \<le> i \<and> i < look" for i
    proof (cases "s \<in> set ss")
      case True
      then show ?thesis
        using that look line [of i s] none [of s i] st'(2) by auto
    next
      case False
      then show ?thesis
        using that look line [of i s] inv st'(2) by (simp add: trim_inv_def)
    qed
    have "column s (tr_rows st') = column s (tr_rows st)"
    proof (cases "s \<in> set ss")
      case True
      show ?thesis
        using True line len look target(1) none by (intro column_move [of _ _ target look]) (simp_all add: st'(1))
    next
      case False
      then show ?thesis
        using line len by (intro column_nth_cong) (simp_all add: st'(1))
    qed
    then show "column s (tr_rows st') = column s rows0"
      using inv by (simp add: trim_inv_def)
  qed
qed

lemma trim_single_inv:
  assumes "trim_inv rows0 look st" "look < length rows0" "tr_line st s < look"
  shows "trim_inv rows0 look (trim_single al bl cl look s st)"
  by (rule trim_inv_move [OF assms(1,2), of "[s]" "tr_cursor st s"])
    (use assms in \<open>auto simp: trim_single_def trim_inv_def\<close>)

lemma trim_pair_inv:
  assumes "trim_inv rows0 look st" "look < length rows0" "tr_line st s < look" "tr_line st t < look" "s \<noteq> t"
  shows "trim_inv rows0 look (trim_pair al bl cl look s t st)"
proof -
  have eq: "tr_line st u = tr_cursor st u" for u
    using assms(1) by (simp add: trim_inv_def)
  have target: "pair_target s t st = max (tr_cursor st s) (tr_cursor st t)"
    by (simp add: pair_target_def eq max_def)
  show ?thesis
    by (rule trim_inv_move [OF assms(1,2), of "[s, t]" "pair_target s t st"])
      (use assms eq in \<open>auto simp: trim_pair_def Let_def target\<close>)
qed

lemma trim_steps_inv:
  assumes "trim_inv rows0 look st" "look < length rows0"
  shows "trim_inv rows0 look (trim_match al bl cl bar segs s p f look st)"
    and "trim_inv rows0 look (trim_alone al bl cl bar segs s g h look st)"
    and "trim_inv rows0 look (trim_pairs al bl cl bar segs look st)"
  using assms trim_single_inv [OF assms]
  by (auto simp: trim_match_def trim_alone_def trim_pairs_def pair_guard_def Let_def intro: trim_pair_inv)

lemma trim_settle_inv:
  assumes "trim_inv rows0 look st"
  shows "trim_inv rows0 (Suc look) (trim_settle look st)"
  using assms unfolding trim_inv_def trim_settle_def by (auto simp: less_Suc_eq le_Suc_eq)

lemma trim_look_inv:
  assumes "trim_inv rows0 look st" "look < length rows0" "barriers_empty bar"
  shows "trim_inv rows0 (Suc look) (trim_look al bl cl bar segs look st)"
proof -
  have skip: "trim_skip bar segs look st = st"
    using assms(3) by (simp add: trim_skip_def)
  show ?thesis
    unfolding trim_look_def Let_def skip
    by (intro trim_settle_inv trim_steps_inv assms(1,2))
qed

lemma trim_fold_inv:
  assumes "barriers_empty bar" "n \<le> length rows0"
  shows "trim_inv rows0 n (fold (trim_look al bl cl bar segs) [0..<n]
    \<lparr>tr_rows = rows0, tr_cursor = (\<lambda>_. 0), tr_line = (\<lambda>_. 0)\<rparr>)"
  using assms(2)
proof (induction n)
  case 0
  then show ?case
    by (simp add: trim_inv_def)
next
  case (Suc n)
  then show ?case
    using trim_look_inv [OF _ _ assms(1)] by simp
qed

lemma trim_rows_columns:
  assumes "barriers_empty bar"
  shows "column s (trim_rows rows al bl cl bar) = column s rows"
  using trim_fold_inv [OF assms order_refl, of "map (recompute_row_metadata al bl cl) (filter row_nonempty rows)"]
  by (auto simp: trim_rows_def Let_def trim_inv_def)

lemma trim_rows_metadata:
  "r \<in> set (trim_rows rows al bl cl bar) \<Longrightarrow> recompute_row_metadata al bl cl r = r"
  by (auto simp: trim_rows_def Let_def split: if_splits)

lemma trim_rows_nonempty: "r \<in> set (trim_rows rows al bl cl bar) \<Longrightarrow> row_nonempty r"
  by (auto simp: trim_rows_def Let_def row_nonempty_def split: if_splits)

section \<open>Two equal inputs\<close>

text \<open>When A and B are the same text and share all their rows, the pass keeps them together.\<close>

definition row_same :: "utext list \<Rightarrow> utext list \<Rightarrow> aligned_row \<Rightarrow> bool" where
  "row_same al cl r \<longleftrightarrow>
     row_line r A = row_line r B \<and> recompute_row_metadata al al cl r = r \<and>
     (\<forall>k. row_line r A = Some k \<longrightarrow> k < length al)"

lemma row_same_ab: "row_same al cl r \<Longrightarrow> row_line r A \<noteq> None \<Longrightarrow> whitespace_equal_ab r"
proof -
  assume r: "row_same al cl r" "row_line r A \<noteq> None"
  then obtain k where k: "row_a r = Some k" "row_b r = Some k" "k < length al"
    by (auto simp: row_same_def)
  have "whitespace_equal_ab (recompute_row_metadata al al cl r)"
    using k by (simp add: recompute_row_metadata_def pair_metadata_def)
  then show ?thesis
    using r(1) by (simp add: row_same_def)
qed

lemma row_same_c: "row_same al cl r \<Longrightarrow> whitespace_equal_ac r = whitespace_equal_bc r"
proof -
  assume r: "row_same al cl r"
  then have "row_a r = row_b r"
    by (simp add: row_same_def)
  then have "whitespace_equal_ac (recompute_row_metadata al al cl r) = whitespace_equal_bc (recompute_row_metadata al al cl r)"
    by (simp add: recompute_row_metadata_def)
  then show ?thesis
    using r by (simp add: row_same_def)
qed

definition same_inv :: "utext list \<Rightarrow> utext list \<Rightarrow> trim_state \<Rightarrow> bool" where
  "same_inv al cl st \<longleftrightarrow>
     (\<forall>i<length (tr_rows st). row_same al cl (tr_rows st ! i)) \<and> tr_cursor st A = tr_cursor st B"

lemma move_cell_metadata:
  assumes "target < look" "look < length rows" "i < length rows"
    "recompute_row_metadata al bl cl (rows ! i) = rows ! i"
  shows "recompute_row_metadata al bl cl (move_cell al bl cl ss target look rows ! i) =
    move_cell al bl cl ss target look rows ! i"
proof -
  have "fold (\<lambda>s rows. let v = row_line (rows ! look) s; rows = rows[look := set_line s None (rows ! look)]
      in rows[target := set_line s v (rows ! target)]) ss rows ! i = rows ! i"
    if "i \<noteq> target" "i \<noteq> look" for rows :: "aligned_row list"
    using that by (induction ss arbitrary: rows) (simp_all add: Let_def)
  moreover have "length (fold (\<lambda>s rows. let v = row_line (rows ! look) s; rows = rows[look := set_line s None (rows ! look)]
      in rows[target := set_line s v (rows ! target)]) ss rows) = length rows" for rows :: "aligned_row list"
    by (induction ss arbitrary: rows) (simp_all add: Let_def)
  ultimately show ?thesis
    using assms by (cases "i = look"; cases "i = target") (auto simp: move_cell_def Let_def nth_list_update)
qed

lemma same_inv_move:
  assumes inv: "same_inv al cl st" and ss: "distinct ss" "A \<in> set ss \<longleftrightarrow> B \<in> set ss"
    and target: "target < look" "look < length (tr_rows st)"
    and rows: "tr_rows st' = move_cell al al cl ss target look (tr_rows st)"
    and cursors: "tr_cursor st' A = tr_cursor st' B"
  shows "same_inv al cl st'"
  unfolding same_inv_def
proof (intro conjI allI impI)
  fix i
  assume "i < length (tr_rows st')"
  then have i: "i < length (tr_rows st)"
    by (simp add: rows)
  have old: "row_same al cl (tr_rows st ! i)" "row_same al cl (tr_rows st ! look)"
    using inv i target(2) by (simp_all add: same_inv_def)
  then have "recompute_row_metadata al al cl (tr_rows st' ! i) = tr_rows st' ! i"
    unfolding rows using move_cell_metadata [OF target i] by (simp add: row_same_def)
  moreover have "row_line (tr_rows st' ! i) A = row_line (tr_rows st' ! i) B"
    "row_line (tr_rows st' ! i) A = Some k \<longrightarrow> k < length al" for k
    using old move_cell_line [OF target i ss(1), of al al cl A] move_cell_line [OF target i ss(1), of al al cl B] ss(2)
    unfolding rows row_same_def by (auto simp del: row_line.simps split: if_splits)
  ultimately show "row_same al cl (tr_rows st' ! i)"
    by (simp add: row_same_def)
qed (fact cursors)

lemma same_inv_row: "same_inv al cl st \<Longrightarrow> i < length (tr_rows st) \<Longrightarrow> row_same al cl (tr_rows st ! i)"
  by (simp add: same_inv_def)

lemma same_inv_single_c:
  assumes "same_inv al cl st" "trim_inv rows0 look st" "look < length rows0" "tr_line st C < look"
  shows "same_inv al cl (trim_single al al cl look C st)"
proof (rule same_inv_move [OF assms(1), of "[C]"])
  show "tr_cursor st C < look" "look < length (tr_rows st)"
    using assms(2-4) by (simp_all add: trim_inv_def)
qed (use assms(1) in \<open>auto simp: trim_single_def same_inv_def\<close>)

lemma same_match_noop:
  assumes inv: "same_inv al cl st" "trim_inv rows0 look st" "look < length rows0"
  shows "trim_match al al cl bar segs A B f look st = st" "trim_match al al cl bar segs B A f look st = st"
proof -
  have "row_line (tr_rows st ! tr_cursor st s) t = None"
    if "tr_line st s < look" "s \<in> {A, B}" "t \<in> {A, B}" for s t
  proof -
    have c: "tr_cursor st s < look" "tr_cursor st s < length (tr_rows st)"
      using that(1) inv(2,3) by (auto simp: trim_inv_def)
    then have "row_line (tr_rows st ! tr_cursor st s) s = None"
      using inv(2) by (simp add: trim_inv_def)
    then show ?thesis
      using same_inv_row [OF inv(1) c(2)] that(2,3) by (auto simp: row_same_def)
  qed
  then show "trim_match al al cl bar segs A B f look st = st" "trim_match al al cl bar segs B A f look st = st"
    by (auto simp: trim_match_def Let_def simp del: row_line.simps)
qed

lemma same_alone_noop:
  assumes "same_inv al cl st" "trim_inv rows0 look st" "look < length rows0"
  shows "trim_alone al al cl bar segs A whitespace_equal_ab g look st = st"
    "trim_alone al al cl bar segs B whitespace_equal_ab g look st = st"
proof -
  have "row_same al cl (tr_rows st ! look)"
    using same_inv_row [OF assms(1), of look] assms(2,3) by (simp add: trim_inv_def)
  then have "row_line (tr_rows st ! look) s \<noteq> None \<Longrightarrow> whitespace_equal_ab (tr_rows st ! look)" if "s \<in> {A, B}" for s
    using row_same_ab [of al cl "tr_rows st ! look"] that by (auto simp: row_same_def)
  then show "trim_alone al al cl bar segs A whitespace_equal_ab g look st = st"
    "trim_alone al al cl bar segs B whitespace_equal_ab g look st = st"
    by (auto simp: trim_alone_def Let_def simp del: row_line.simps)
qed

lemma same_pairs:
  assumes "same_inv al cl st" "trim_inv rows0 look st" "look < length rows0"
  shows "same_inv al cl (trim_pairs al al cl bar segs look st)"
proof -
  have r: "row_same al cl (tr_rows st ! look)"
    using same_inv_row [OF assms(1), of look] assms(2,3) by (simp add: trim_inv_def)
  have no: "\<not> pair_guard bar segs A C whitespace_equal_ac whitespace_equal_ab look st"
    "\<not> pair_guard bar segs B C whitespace_equal_bc whitespace_equal_ac look st"
    using row_same_ab [OF r] row_same_c [OF r] by (auto simp: pair_guard_def Let_def)
  show ?thesis
  proof (cases "pair_guard bar segs A B whitespace_equal_ab whitespace_equal_ac look st")
    case True
    then have lines: "tr_line st A < look" "tr_line st B < look"
      by (simp_all add: pair_guard_def Let_def)
    have "same_inv al cl (trim_pair al al cl look A B st)"
    proof (rule same_inv_move [OF assms(1), of "[A, B]"])
      show "pair_target A B st < look" "look < length (tr_rows st)"
        using assms(2,3) lines by (auto simp: trim_inv_def pair_target_def)
    qed (auto simp: trim_pair_def Let_def)
    then show ?thesis
      using True by (simp add: trim_pairs_def)
  next
    case False
    then show ?thesis
      using no assms(1) by (simp add: trim_pairs_def)
  qed
qed

lemma same_look:
  assumes inv: "same_inv al cl st" "trim_inv rows0 look st" and look: "look < length rows0" and bar: "barriers_empty bar"
  shows "same_inv al cl (trim_look al al cl bar segs look st)"
proof -
  have c: "same_inv al cl (trim_match al al cl bar segs C p f look st)"
    "same_inv al cl (trim_alone al al cl bar segs C g h look st)"
    if "same_inv al cl st" "trim_inv rows0 look st" for st p f g h
    using same_inv_single_c [OF that look] that(1) by (auto simp: trim_match_def trim_alone_def Let_def)
  let ?st1 = "trim_match al al cl bar segs C A whitespace_equal_ab look st"
  let ?st2 = "trim_alone al al cl bar segs C whitespace_equal_ac whitespace_equal_bc look ?st1"
  have 1: "same_inv al cl ?st1" "trim_inv rows0 look ?st1"
    using c(1) [OF inv] trim_steps_inv(1) [OF inv(2) look] by blast+
  have 2: "same_inv al cl ?st2" "trim_inv rows0 look ?st2"
    using c(2) [OF 1] trim_steps_inv(2) [OF 1(2) look] by blast+
  have 3: "same_inv al cl (trim_pairs al al cl bar segs look ?st2)"
    "trim_inv rows0 look (trim_pairs al al cl bar segs look ?st2)"
    using same_pairs [OF 2 look] trim_steps_inv(3) [OF 2(2) look] by blast+
  have skip: "trim_skip bar segs look st = st"
    using bar by (simp add: trim_skip_def)
  have "look < length (tr_rows (trim_pairs al al cl bar segs look ?st2))"
    using 3(2) look by (simp add: trim_inv_def)
  then have "row_line (tr_rows (trim_pairs al al cl bar segs look ?st2) ! look) A =
      row_line (tr_rows (trim_pairs al al cl bar segs look ?st2) ! look) B"
    using same_inv_row [OF 3(1)] unfolding row_same_def by blast
  then have "same_inv al cl (trim_settle look (trim_pairs al al cl bar segs look ?st2))"
    using 3(1) by (simp add: same_inv_def trim_settle_def)
  then show ?thesis
    unfolding trim_look_def Let_def skip same_match_noop [OF inv look] same_alone_noop [OF 1 look] .
qed

lemma same_fold:
  assumes bar: "barriers_empty bar" and rows: "\<forall>r\<in>set rows0. row_same al cl r" and n: "n \<le> length rows0"
  shows "same_inv al cl (fold (trim_look al al cl bar segs) [0..<n]
    \<lparr>tr_rows = rows0, tr_cursor = (\<lambda>_. 0), tr_line = (\<lambda>_. 0)\<rparr>)"
  using n
proof (induction n)
  case 0
  then show ?case
    using rows by (simp add: same_inv_def)
next
  case (Suc n)
  then show ?case
    using same_look [OF _ trim_fold_inv [OF bar], where look = n and ?rows0.0 = rows0 and al = al and cl = cl] bar
    by simp
qed

lemma trim_rows_same:
  assumes "barriers_empty bar" "\<forall>r\<in>set rows. row_a r = row_b r" "\<forall>i\<in>set (column A rows). i < length al"
  shows "\<forall>r\<in>set (trim_rows rows al al cl bar). row_same al cl r"
proof -
  let ?rows = "map (recompute_row_metadata al al cl) (filter row_nonempty rows)"
  let ?segs = "row_segments bar ?rows"
  have "row_a r = Some k \<Longrightarrow> r \<in> set rows \<Longrightarrow> k \<in> set (column A rows)" for r k
    by (auto simp: column_def set_filter_map)
  then have ok: "\<forall>r\<in>set ?rows. row_same al cl r"
    using assms(2,3) by (auto simp: row_same_def)
  let ?st = "fold (trim_look al al cl bar ?segs) [0..<length ?rows]
    \<lparr>tr_rows = ?rows, tr_cursor = (\<lambda>_. 0), tr_line = (\<lambda>_. 0)\<rparr>"
  have "\<forall>r\<in>set (tr_rows ?st). row_same al cl r"
    using same_fold [OF assms(1) ok order_refl, of ?segs] by (auto simp: same_inv_def in_set_conv_nth)
  then have "\<forall>r\<in>set (map (recompute_row_metadata al al cl) (filter row_nonempty (tr_rows ?st))). row_same al cl r"
    by (auto simp: row_same_def)
  then show ?thesis
    using ok by (auto simp: trim_rows_def Let_def)
qed

end
