(* ===== verification/Blocks.thy ===== *)
theory Blocks
  imports Trim
begin

text \<open>
  From aligned rows to merge blocks (\<open>merge/plan.rs\<close>, \<open>classify_two_input\<close> to \<open>build_blocks\<close>): the
  decision of a row, when two neighbouring rows share a block, the content fingerprint of a block, and
  the blocks with their automatic selections.

  The lemmas show that the blocks partition the rows, that every row of a block takes the decision of
  the block, and that the identities are distinct.
\<close>

unbundle bit_operations_syntax

section \<open>Row decisions\<close>

datatype merge_block_classification =
  Default | NoChange | BChanged | CChanged | BCChanged | BCChangedAndEqual
  | BDeleted | CDeleted | BCDeleted | BChangedCDeleted | CChangedBDeleted
  | BAdded | CAdded | BCAdded | BCAddedAndEqual

record row_decision =
  rd_classification :: merge_block_classification
  rd_conflict :: bool
  rd_selection :: ordered_selection

definition resolved_row :: "merge_block_classification \<Rightarrow> merge_source \<Rightarrow> row_decision" where
  "resolved_row kind s = \<lparr>rd_classification = kind, rd_conflict = False, rd_selection = selection_from_source s\<rparr>"

definition conflict_row :: "merge_block_classification \<Rightarrow> row_decision" where
  "conflict_row kind = \<lparr>rd_classification = kind, rd_conflict = True, rd_selection = selection_new\<rparr>"

definition classify_two_input :: "aligned_row \<Rightarrow> row_decision" where
  "classify_two_input r =
     (case (row_a r, row_b r) of
        (Some _, Some _) \<Rightarrow> if equal_ab r then resolved_row NoChange A else conflict_row BChanged
      | _ \<Rightarrow> conflict_row BDeleted)"

definition classify_three_way :: "aligned_row \<Rightarrow> row_decision" where
  "classify_three_way r =
     (case (row_a r, row_b r, row_c r) of
        (Some _, Some _, Some _) \<Rightarrow>
          if equal_ab r \<and> equal_ac r then resolved_row NoChange A
          else if equal_ab r then resolved_row CChanged C
          else if equal_ac r then resolved_row BChanged B
          else if equal_bc r then resolved_row BCChangedAndEqual C
          else conflict_row BCChanged
      | (Some _, Some _, None) \<Rightarrow>
          if \<not> equal_ab r then conflict_row BChangedCDeleted else resolved_row CDeleted C
      | (Some _, None, Some _) \<Rightarrow>
          if \<not> equal_ac r then conflict_row CChangedBDeleted else resolved_row BDeleted B
      | (None, Some _, Some _) \<Rightarrow>
          if \<not> equal_bc r then conflict_row BCAdded else resolved_row BCAddedAndEqual C
      | (None, None, Some _) \<Rightarrow> resolved_row CAdded C
      | (None, Some _, None) \<Rightarrow> resolved_row BAdded B
      | (Some _, None, None) \<Rightarrow> resolved_row BCDeleted C
      | (None, None, None) \<Rightarrow>
          \<lparr>rd_classification = Default, rd_conflict = False, rd_selection = selection_new\<rparr>)"

definition classify_row :: "bool \<Rightarrow> aligned_row \<Rightarrow> row_decision" where
  "classify_row three_way r = (if three_way then classify_three_way r else classify_two_input r)"

definition row_whitespace_conflict :: "aligned_row \<Rightarrow> bool \<Rightarrow> bool" where
  "row_whitespace_conflict r three_way \<longleftrightarrow>
     (if three_way then (whitespace_equal_ab r \<and> whitespace_equal_ac r) \<or> (whitespace_a r \<and> whitespace_b r \<and> whitespace_c r)
      else whitespace_equal_ab r \<or> (whitespace_a r \<and> whitespace_b r))"

definition same_block_kind :: "row_decision \<Rightarrow> row_decision \<Rightarrow> aligned_row \<Rightarrow> aligned_row \<Rightarrow> bool" where
  "same_block_kind previous next previous_row next_row \<longleftrightarrow>
     (if rd_conflict previous \<and> rd_conflict next then
        whitespace_equal_ac previous_row = whitespace_equal_ac next_row \<and>
        whitespace_equal_ab previous_row = whitespace_equal_ab next_row
      else
        let previous_delta = (sources (rd_selection previous) \<noteq> [A]);
            next_delta = (sources (rd_selection next) \<noteq> [A])
        in if \<not> rd_conflict previous \<and> \<not> rd_conflict next \<and> previous_delta \<and> next_delta then
             rd_selection previous = rd_selection next \<and>
             (rd_classification previous = rd_classification next \<or>
              (rd_classification previous \<noteq> BCAddedAndEqual \<and> rd_classification next \<noteq> BCAddedAndEqual))
           else \<not> previous_delta \<and> \<not> next_delta)"

section \<open>Fingerprints\<close>

fun classification_name :: "merge_block_classification \<Rightarrow> utext" where
  "classification_name Default = str ''Default''"
| "classification_name NoChange = str ''NoChange''"
| "classification_name BChanged = str ''BChanged''"
| "classification_name CChanged = str ''CChanged''"
| "classification_name BCChanged = str ''BCChanged''"
| "classification_name BCChangedAndEqual = str ''BCChangedAndEqual''"
| "classification_name BDeleted = str ''BDeleted''"
| "classification_name CDeleted = str ''CDeleted''"
| "classification_name BCDeleted = str ''BCDeleted''"
| "classification_name BChangedCDeleted = str ''BChangedCDeleted''"
| "classification_name CChangedBDeleted = str ''CChangedBDeleted''"
| "classification_name BAdded = str ''BAdded''"
| "classification_name CAdded = str ''CAdded''"
| "classification_name BCAdded = str ''BCAdded''"
| "classification_name BCAddedAndEqual = str ''BCAddedAndEqual''"

definition fnv_update :: "64 word \<Rightarrow> byte list \<Rightarrow> 64 word" where
  "fnv_update hash bytes = fold (\<lambda>b h. (h XOR of_nat b) * 0x100000001b3) bytes hash"

definition fingerprint_cell :: "byte \<Rightarrow> nat option \<Rightarrow> utext list \<Rightarrow> 64 word \<Rightarrow> 64 word" where
  "fingerprint_cell tag index ls hash =
     fnv_update (fnv_update (fnv_update hash [tag])
       (case Option.bind index (nth_opt ls) of Some l \<Rightarrow> as_bytes l | None \<Rightarrow> [0xff])) [0]"

definition block_fingerprint ::
  "aligned_row list \<Rightarrow> merge_block_classification \<Rightarrow> utext list \<Rightarrow> utext list \<Rightarrow> utext list \<Rightarrow> 64 word" where
  "block_fingerprint rows kind al bl cl =
     fold (\<lambda>r h. fingerprint_cell 67 (row_c r) cl (fingerprint_cell 66 (row_b r) bl (fingerprint_cell 65 (row_a r) al h)))
       rows (fnv_update 0xcbf29ce484222325 (as_bytes (classification_name kind)))"

section \<open>Blocks\<close>

record merge_block_id =
  id_fingerprint :: "64 word"
  id_occurrence :: nat

record merge_block =
  mb_id :: merge_block_id
  mb_rows :: range
  mb_classification :: merge_block_classification
  mb_is_delta :: bool
  mb_original_conflict :: bool
  mb_whitespace_conflict :: bool
  mb_automatic_selection :: ordered_selection
  mb_selection :: ordered_selection
  mb_manual_content :: "utext option"

definition u32_saturating_succ :: "nat \<Rightarrow> nat" where
  "u32_saturating_succ n = min (Suc n) u32_max"

definition raw_step ::
  "row_decision list \<Rightarrow> aligned_row list \<Rightarrow> nat \<Rightarrow> (range \<times> row_decision) list \<times> nat \<Rightarrow>
    (range \<times> row_decision) list \<times> nat" where
  "raw_step decisions rows index = (\<lambda>(raw, start).
     if \<not> same_block_kind (decisions ! (index - 1)) (decisions ! index) (rows ! (index - 1)) (rows ! index)
     then (raw @ [((start, index), decisions ! start)], index)
     else (raw, start))"

definition raw_blocks :: "row_decision list \<Rightarrow> aligned_row list \<Rightarrow> (range \<times> row_decision) list" where
  "raw_blocks decisions rows =
     (let (raw, start) = fold (raw_step decisions rows) [1..<length rows] ([], 0)
      in raw @ [((start, length rows), decisions ! start)])"

fun blocks_from_raw ::
  "aligned_row list \<Rightarrow> bool \<Rightarrow> utext list \<Rightarrow> utext list \<Rightarrow> utext list \<Rightarrow> (64 word \<Rightarrow> nat) \<Rightarrow>
    (range \<times> row_decision) list \<Rightarrow> merge_block list" where
  "blocks_from_raw rows three_way al bl cl occurrences [] = []"
| "blocks_from_raw rows three_way al bl cl occurrences ((r, decision) # raw) =
     (let block_rows = slice rows (rng_start r) (rng_end r);
          fingerprint = block_fingerprint block_rows (rd_classification decision) al bl cl;
          occurrence = occurrences fingerprint
      in \<lparr>mb_id = \<lparr>id_fingerprint = fingerprint, id_occurrence = occurrence\<rparr>,
          mb_rows = r,
          mb_classification = rd_classification decision,
          mb_is_delta = (sources (rd_selection decision) \<noteq> [A]),
          mb_original_conflict = rd_conflict decision,
          mb_whitespace_conflict =
            (rd_conflict decision \<and> list_all (\<lambda>r. row_whitespace_conflict r three_way) block_rows),
          mb_automatic_selection = rd_selection decision,
          mb_selection = rd_selection decision,
          mb_manual_content = None\<rparr>
         # blocks_from_raw rows three_way al bl cl
             (occurrences(fingerprint := u32_saturating_succ occurrence)) raw)"

definition build_blocks ::
  "aligned_row list \<Rightarrow> bool \<Rightarrow> utext list \<Rightarrow> utext list \<Rightarrow> utext list \<Rightarrow> merge_block list" where
  "build_blocks rows three_way al bl cl =
     (if rows = [] then []
      else blocks_from_raw rows three_way al bl cl (\<lambda>_. 0)
        (raw_blocks (map (classify_row three_way) rows) rows))"

section \<open>The blocks partition the rows\<close>

text \<open>Consecutive non-empty ranges from one position to another.\<close>

fun tiles :: "range list \<Rightarrow> nat \<Rightarrow> nat \<Rightarrow> bool" where
  "tiles [] i n \<longleftrightarrow> i = n"
| "tiles (r # rs) i n \<longleftrightarrow> rng_start r = i \<and> rng_start r < rng_end r \<and> tiles rs (rng_end r) n"

lemma tiles_append: "tiles (rs @ rs') i n \<longleftrightarrow> (\<exists>m. tiles rs i m \<and> tiles rs' m n)"
  by (induction rs i n rule: tiles.induct) auto

lemma tiles_le: "tiles rs i n \<Longrightarrow> i \<le> n"
  by (induction rs i n rule: tiles.induct) auto

lemma tiles_in: "tiles rs i n \<Longrightarrow> r \<in> set rs \<Longrightarrow> i \<le> rng_start r \<and> rng_start r < rng_end r \<and> rng_end r \<le> n"
  by (induction rs i n rule: tiles.induct) (fastforce dest: tiles_le)+

text \<open>Every position lies in exactly one range.\<close>

lemma tiles_cover: "tiles rs i n \<Longrightarrow> i \<le> k \<Longrightarrow> k < n \<Longrightarrow> \<exists>r\<in>set rs. rng_contains r k"
proof (induction rs i n rule: tiles.induct)
  case (2 r rs i n)
  then show ?case
    by (cases "k < rng_end r") (auto simp: rng_contains_def)
qed simp

lemma tiles_slices: "tiles rs i n \<Longrightarrow> n \<le> length xs \<Longrightarrow>
    concat (map (\<lambda>r. slice xs (rng_start r) (rng_end r)) rs) = slice xs i n"
proof (induction rs i n rule: tiles.induct)
  case (2 r rs i n)
  then show ?case
    using slice_append_slice [of i "rng_end r" n xs] tiles_le [of rs "rng_end r" n] by auto
qed simp

lemma tiles_disjoint: "tiles rs i n \<Longrightarrow> k < l \<Longrightarrow> l < length rs \<Longrightarrow> rng_end (rs ! k) \<le> rng_start (rs ! l)"
proof (induction rs i n arbitrary: k l rule: tiles.induct)
  case (2 r rs i n)
  show ?case
  proof (cases k)
    case 0
    then show ?thesis
      using 2 tiles_in [of rs "rng_end r" n "rs ! (l - 1)"] by (cases l) auto
  next
    case (Suc k')
    then show ?thesis
      using 2 by (cases l) auto
  qed
qed simp

text \<open>The state of the grouping loop before index \<open>n\<close>.\<close>

definition linked_kind :: "row_decision list \<Rightarrow> aligned_row list \<Rightarrow> nat \<Rightarrow> nat \<Rightarrow> bool" where
  "linked_kind decisions rows i j \<longleftrightarrow>
     (\<forall>k. i < k \<and> k < j \<longrightarrow>
        same_block_kind (decisions ! (k - 1)) (decisions ! k) (rows ! (k - 1)) (rows ! k))"

definition raw_ok :: "row_decision list \<Rightarrow> aligned_row list \<Rightarrow> (range \<times> row_decision) list \<Rightarrow> bool" where
  "raw_ok decisions rows raw \<longleftrightarrow>
     (\<forall>(r, d)\<in>set raw. d = decisions ! rng_start r \<and> linked_kind decisions rows (rng_start r) (rng_end r))"

lemma raw_fold_inv:
  "fold (raw_step decisions rows) [1..<Suc n] ([], 0) = (raw, start) \<Longrightarrow>
    tiles (map fst raw) 0 start \<and> start \<le> n \<and> raw_ok decisions rows raw \<and>
    linked_kind decisions rows start (Suc n)"
proof (induction n arbitrary: raw start)
  case 0
  then show ?case
    by (auto simp: raw_ok_def linked_kind_def)
next
  case (Suc n)
  obtain raw1 start1 where f: "fold (raw_step decisions rows) [1..<Suc n] ([], 0) = (raw1, start1)"
    by (metis surj_pair)
  note IH = Suc.IH [OF f]
  have step: "raw_step decisions rows (Suc n) (raw1, start1) = (raw, start)"
    using Suc.prems f by simp
  show ?case
  proof (cases "same_block_kind (decisions ! n) (decisions ! Suc n) (rows ! n) (rows ! Suc n)")
    case True
    then have "raw = raw1" "start = start1"
      using step by (simp_all add: raw_step_def)
    moreover have "linked_kind decisions rows start1 (Suc (Suc n))"
      using IH True by (auto simp: linked_kind_def less_Suc_eq)
    ultimately show ?thesis
      using IH by simp
  next
    case False
    then have "raw = raw1 @ [((start1, Suc n), decisions ! start1)]" "start = Suc n"
      using step by (auto simp: raw_step_def)
    then show ?thesis
      using IH by (auto simp: tiles_append raw_ok_def linked_kind_def)
  qed
qed

lemma raw_blocks_ok:
  assumes "rows \<noteq> []"
  shows "tiles (map fst (raw_blocks decisions rows)) 0 (length rows)" "raw_ok decisions rows (raw_blocks decisions rows)"
proof -
  obtain n where n: "length rows = Suc n"
    using assms by (cases rows) auto
  obtain raw start where f: "fold (raw_step decisions rows) [1..<Suc n] ([], 0) = (raw, start)"
    by (metis surj_pair)
  have raw: "raw_blocks decisions rows = raw @ [((start, Suc n), decisions ! start)]"
    unfolding raw_blocks_def n f by simp
  note inv = raw_fold_inv [OF f]
  show "tiles (map fst (raw_blocks decisions rows)) 0 (length rows)"
    unfolding raw n using inv by (auto simp: tiles_append)
  show "raw_ok decisions rows (raw_blocks decisions rows)"
    unfolding raw using inv by (auto simp: raw_ok_def)
qed

lemma blocks_from_raw_rows: "map mb_rows (blocks_from_raw rows t al bl cl occ raw) = map fst raw"
proof (induction raw arbitrary: occ)
  case (Cons rd raw)
  then show ?case
    by (cases rd) (simp add: Let_def)
qed simp

lemma build_blocks_tiles: "tiles (map mb_rows (build_blocks rows t al bl cl)) 0 (length rows)"
  using raw_blocks_ok(1) [of rows] by (simp add: build_blocks_def blocks_from_raw_rows)

section \<open>A block takes one decision for all its rows\<close>

lemma classify_conflict_selection: "rd_conflict (classify_row t r) \<Longrightarrow> rd_selection (classify_row t r) = selection_new"
  by (auto simp: classify_row_def classify_two_input_def classify_three_way_def resolved_row_def conflict_row_def
      split: option.splits if_splits)

lemma classify_selection_cases:
  "rd_selection (classify_row t r) = selection_new \<or> (\<exists>s. rd_selection (classify_row t r) = selection_from_source s)"
  by (auto simp: classify_row_def classify_two_input_def classify_three_way_def resolved_row_def conflict_row_def
      split: option.splits)

lemma classify_selection_ok [simp]: "selection_ok (rd_selection (classify_row t r))"
  using classify_selection_cases [of t r] by auto

lemma same_block_kind_agree:
  assumes "same_block_kind (classify_row t r) (classify_row t r') r r'"
  shows "rd_conflict (classify_row t r) = rd_conflict (classify_row t r')"
    "rd_selection (classify_row t r) = rd_selection (classify_row t r')"
proof -
  have single: "sources sel = [A] \<Longrightarrow> sel = \<lparr>sources = [A]\<rparr>" for sel :: ordered_selection
    by simp
  have "rd_conflict (classify_row t r) = rd_conflict (classify_row t r') \<and>
    rd_selection (classify_row t r) = rd_selection (classify_row t r')"
  proof (cases "rd_conflict (classify_row t r)"; cases "rd_conflict (classify_row t r')")
    assume "rd_conflict (classify_row t r)" "rd_conflict (classify_row t r')"
    then show ?thesis
      using classify_conflict_selection by metis
  next
    assume "rd_conflict (classify_row t r)" "\<not> rd_conflict (classify_row t r')"
    then show ?thesis
      using assms classify_conflict_selection [of t r]
      by (auto simp: same_block_kind_def selection_new_def Let_def)
  next
    assume "\<not> rd_conflict (classify_row t r)" "rd_conflict (classify_row t r')"
    then show ?thesis
      using assms classify_conflict_selection [of t r']
      by (auto simp: same_block_kind_def selection_new_def Let_def)
  next
    assume "\<not> rd_conflict (classify_row t r)" "\<not> rd_conflict (classify_row t r')"
    then show ?thesis
      using assms by (auto simp: same_block_kind_def Let_def split: if_splits)
  qed
  then show "rd_conflict (classify_row t r) = rd_conflict (classify_row t r')"
    "rd_selection (classify_row t r) = rd_selection (classify_row t r')"
    by auto
qed

lemma linked_kind_agree:
  assumes "linked_kind (map (classify_row t) rows) rows i j" "j \<le> length rows"
  shows "i \<le> k \<Longrightarrow> k < j \<Longrightarrow>
    rd_conflict (classify_row t (rows ! k)) = rd_conflict (classify_row t (rows ! i)) \<and>
    rd_selection (classify_row t (rows ! k)) = rd_selection (classify_row t (rows ! i))"
proof (induction k)
  case (Suc k)
  show ?case
  proof (cases "i = Suc k")
    case False
    then have "i < Suc k"
      using Suc.prems by simp
    then have "same_block_kind (classify_row t (rows ! k)) (classify_row t (rows ! Suc k)) (rows ! k) (rows ! Suc k)"
      using assms Suc.prems(2) by (auto simp: linked_kind_def dest!: spec [of _ "Suc k"])
    from same_block_kind_agree [OF this] show ?thesis
      using Suc.IH \<open>i < Suc k\<close> Suc.prems(2) by simp
  qed simp
qed simp

lemma blocks_from_raw_decision:
  "b \<in> set (blocks_from_raw rows t al bl cl occ raw) \<Longrightarrow>
    \<exists>d. (mb_rows b, d) \<in> set raw \<and> mb_original_conflict b = rd_conflict d \<and>
      mb_automatic_selection b = rd_selection d \<and> mb_selection b = rd_selection d \<and>
      mb_manual_content b = None \<and> mb_classification b = rd_classification d \<and>
      mb_is_delta b = (sources (rd_selection d) \<noteq> [A])"
proof (induction raw arbitrary: occ)
  case (Cons rd raw)
  then show ?case
    by (cases rd) (fastforce simp: Let_def)
qed simp

lemma build_blocks_decision:
  assumes "b \<in> set (build_blocks rows t al bl cl)"
  shows "mb_manual_content b = None" "mb_selection b = mb_automatic_selection b"
    "mb_original_conflict b = (sources (mb_automatic_selection b) = [] \<and>
       rd_conflict (classify_row t (rows ! rng_start (mb_rows b))))"
    "mb_is_delta b = (sources (mb_automatic_selection b) \<noteq> [A])"
    "\<And>i. rng_contains (mb_rows b) i \<Longrightarrow>
      rd_conflict (classify_row t (rows ! i)) = mb_original_conflict b \<and>
      rd_selection (classify_row t (rows ! i)) = mb_automatic_selection b"
proof -
  have ne: "rows \<noteq> []"
    using assms by (auto simp: build_blocks_def)
  let ?ds = "map (classify_row t) rows"
  obtain d where d: "(mb_rows b, d) \<in> set (raw_blocks ?ds rows)"
    "mb_original_conflict b = rd_conflict d" "mb_automatic_selection b = rd_selection d"
    "mb_selection b = rd_selection d" "mb_manual_content b = None" "mb_is_delta b = (sources (rd_selection d) \<noteq> [A])"
    using blocks_from_raw_decision [of b rows t al bl cl "\<lambda>_. 0" "raw_blocks ?ds rows"] assms ne
    by (auto simp: build_blocks_def)
  have "mb_rows b \<in> set (map fst (raw_blocks ?ds rows))"
    using d(1) by force
  then have in_rows: "rng_start (mb_rows b) < rng_end (mb_rows b)" "rng_end (mb_rows b) \<le> length rows"
    using tiles_in [OF raw_blocks_ok(1) [OF ne]] by blast+
  have kind: "d = ?ds ! rng_start (mb_rows b)" "linked_kind ?ds rows (rng_start (mb_rows b)) (rng_end (mb_rows b))"
    using raw_blocks_ok(2) [OF ne, of ?ds] d(1) by (auto simp: raw_ok_def)
  then have first: "d = classify_row t (rows ! rng_start (mb_rows b))"
    using in_rows by simp
  show "mb_manual_content b = None" "mb_selection b = mb_automatic_selection b"
    "mb_is_delta b = (sources (mb_automatic_selection b) \<noteq> [A])"
    using d by simp_all
  show "mb_original_conflict b = (sources (mb_automatic_selection b) = [] \<and>
       rd_conflict (classify_row t (rows ! rng_start (mb_rows b))))"
    using d(2,3) first classify_conflict_selection [of t "rows ! rng_start (mb_rows b)"]
    by (auto simp: selection_new_def)
  show "rd_conflict (classify_row t (rows ! i)) = mb_original_conflict b \<and>
      rd_selection (classify_row t (rows ! i)) = mb_automatic_selection b" if "rng_contains (mb_rows b) i" for i
    using linked_kind_agree [OF kind(2) in_rows(2), of i] that first d(2,3) by (simp add: rng_contains_def)
qed

section \<open>Identities are distinct\<close>

lemma blocks_from_raw_ids:
  "(\<And>f. occ f + length raw \<le> u32_max) \<Longrightarrow>
    distinct (map mb_id (blocks_from_raw rows t al bl cl occ raw)) \<and>
    (\<forall>b\<in>set (blocks_from_raw rows t al bl cl occ raw). occ (id_fingerprint (mb_id b)) \<le> id_occurrence (mb_id b))"
proof (induction raw arbitrary: occ)
  case (Cons rd raw)
  obtain r d where rd: "rd = (r, d)"
    by (cases rd)
  let ?f = "block_fingerprint (slice rows (rng_start r) (rng_end r)) (rd_classification d) al bl cl"
  define occ' where "occ' = occ(?f := u32_saturating_succ (occ ?f))"
  have succ: "occ' ?f = Suc (occ ?f)"
    using Cons.prems [of ?f] by (simp add: occ'_def u32_saturating_succ_def)
  have other: "occ' f = occ f" if "f \<noteq> ?f" for f
    using that by (simp add: occ'_def)
  have bound: "occ' f + length raw \<le> u32_max" for f
    using Cons.prems [of f] succ other [of f] by (cases "f = ?f") auto
  let ?rest = "blocks_from_raw rows t al bl cl occ' raw"
  have "distinct (map mb_id ?rest)" and
    ge: "\<And>b. b \<in> set ?rest \<Longrightarrow> occ' (id_fingerprint (mb_id b)) \<le> id_occurrence (mb_id b)"
    using Cons.IH [of occ'] bound by auto
  moreover have "\<lparr>id_fingerprint = ?f, id_occurrence = occ ?f\<rparr> \<noteq> mb_id b" if "b \<in> set ?rest" for b
  proof
    assume "\<lparr>id_fingerprint = ?f, id_occurrence = occ ?f\<rparr> = mb_id b"
    then have "id_fingerprint (mb_id b) = ?f" "id_occurrence (mb_id b) = occ ?f"
      by (metis merge_block_id.select_convs)+
    then show False
      using ge [OF that] succ by simp
  qed
  moreover have "occ (id_fingerprint (mb_id b)) \<le> id_occurrence (mb_id b)" if "b \<in> set ?rest" for b
    using ge [OF that] succ other [of "id_fingerprint (mb_id b)"] by (cases "id_fingerprint (mb_id b) = ?f") auto
  moreover have "map mb_id (blocks_from_raw rows t al bl cl occ (rd # raw))
      = \<lparr>id_fingerprint = ?f, id_occurrence = occ ?f\<rparr> # map mb_id ?rest"
    unfolding rd occ'_def by (simp add: Let_def del: fun_upd_apply)
  ultimately have "distinct (map mb_id (blocks_from_raw rows t al bl cl occ (rd # raw)))"
    "\<forall>i\<in>set (map mb_id (blocks_from_raw rows t al bl cl occ (rd # raw))). occ (id_fingerprint i) \<le> id_occurrence i"
    by auto
  then show ?case
    by simp
qed simp

lemma build_blocks_distinct_ids:
  "length (build_blocks rows t al bl cl) \<le> u32_max \<Longrightarrow> distinct (map mb_id (build_blocks rows t al bl cl))"
proof -
  have "length (blocks_from_raw rows t al bl cl occ raw) = length raw" for occ raw
    using blocks_from_raw_rows [of rows t al bl cl occ raw] by (metis length_map)
  then show "length (build_blocks rows t al bl cl) \<le> u32_max \<Longrightarrow> ?thesis"
    using blocks_from_raw_ids [of "\<lambda>_. 0"] by (simp add: build_blocks_def split: if_splits)
qed

end
