(* ===== verification/Plan_Ops.thy ===== *)
theory Plan_Ops
  imports Blocks
begin

text \<open>
  The merge plan of \<open>merge/plan.rs\<close> as a state: blocks with their decisions, the index of unresolved
  blocks, and the operations of \<open>MergeBlock\<close> and \<open>MergePlan\<close> that read or change them.

  \<open>plan_ok\<close> is the invariant every operation keeps: the blocks tile the rows, the index lists exactly the
  blocks without a decision, and every selected source exists in the plan.
\<close>

section \<open>One block\<close>

definition block_is_resolved :: "merge_block \<Rightarrow> bool" where
  "block_is_resolved b \<longleftrightarrow> mb_manual_content b \<noteq> None \<or> \<not> selection_is_empty (mb_selection b)"

definition block_toggle_source :: "merge_block \<Rightarrow> merge_source \<Rightarrow> merge_block" where
  "block_toggle_source b s =
     b\<lparr>mb_manual_content := None, mb_selection := selection_toggle (mb_selection b) s\<rparr>"

definition block_replace_selection :: "merge_block \<Rightarrow> ordered_selection \<Rightarrow> merge_block" where
  "block_replace_selection b sel = b\<lparr>mb_manual_content := None, mb_selection := sel\<rparr>"

definition block_set_manual_content :: "merge_block \<Rightarrow> utext \<Rightarrow> merge_block" where
  "block_set_manual_content b content =
     b\<lparr>mb_selection := selection_new, mb_manual_content := Some content\<rparr>"

definition block_reset_to_automatic :: "merge_block \<Rightarrow> merge_block" where
  "block_reset_to_automatic b =
     b\<lparr>mb_manual_content := None, mb_selection := mb_automatic_selection b\<rparr>"

section \<open>The plan\<close>

record merge_plan =
  mp_base :: "utext option"
  mp_local :: utext
  mp_remote :: utext
  mp_rows :: "aligned_row list"
  mp_blocks :: "merge_block list"
  mp_unresolved_blocks :: "nat list"
  mp_line_ending :: utext

definition has_base :: "merge_plan \<Rightarrow> bool" where
  "has_base p \<longleftrightarrow> mp_base p \<noteq> None"

definition local_source :: "merge_plan \<Rightarrow> merge_source" where
  "local_source p = (if has_base p then B else A)"

definition remote_source :: "merge_plan \<Rightarrow> merge_source" where
  "remote_source p = (if has_base p then C else B)"

fun source_text :: "merge_plan \<Rightarrow> merge_source \<Rightarrow> utext option" where
  "source_text p A = (if has_base p then mp_base p else Some (mp_local p))"
| "source_text p B = (if has_base p then Some (mp_local p) else Some (mp_remote p))"
| "source_text p C = (if has_base p then Some (mp_remote p) else None)"

definition source_lines :: "merge_plan \<Rightarrow> merge_source \<Rightarrow> utext list" where
  "source_lines p s = (case source_text p s of None \<Rightarrow> [] | Some t \<Rightarrow> split_lines t)"

definition block_slice :: "merge_plan \<Rightarrow> merge_block \<Rightarrow> aligned_row list" where
  "block_slice p b = slice (mp_rows p) (rng_start (mb_rows b)) (rng_end (mb_rows b))"

definition block_source_lines :: "merge_plan \<Rightarrow> merge_block \<Rightarrow> merge_source \<Rightarrow> utext list" where
  "block_source_lines p b s =
     filter_map (\<lambda>r. Option.bind (row_line r s) (nth_opt (source_lines p s))) (block_slice p b)"

definition block_source_text :: "merge_plan \<Rightarrow> merge_block \<Rightarrow> merge_source \<Rightarrow> utext" where
  "block_source_text p b s = join_lines (mp_line_ending p) (block_source_lines p b s)"

definition block_source_line_range :: "merge_plan \<Rightarrow> merge_block \<Rightarrow> merge_source \<Rightarrow> range" where
  "block_source_line_range p b s =
     (case column s (block_slice p b) of
        i # is \<Rightarrow> (i, Suc (if is = [] then i else last is))
      | [] \<Rightarrow>
          let earlier = column s (rev (take (rng_start (mb_rows b)) (mp_rows p)));
              boundary = (case earlier of [] \<Rightarrow> 0 | i # _ \<Rightarrow> Suc i)
          in (boundary, boundary))"

definition three_way_anchor :: "aligned_row \<Rightarrow> bool" where
  "three_way_anchor r \<longleftrightarrow> equal_ab r \<and> equal_ac r"

definition base_length :: "merge_plan \<Rightarrow> nat" where
  "base_length p = (case mp_base p of None \<Rightarrow> 0 | Some t \<Rightarrow> line_count t)"

definition block_ancestor_range :: "merge_plan \<Rightarrow> merge_block \<Rightarrow> range option" where
  "block_ancestor_range p b =
     (if has_base p then
        let start = (case Option.bind (find three_way_anchor (rev (take (rng_start (mb_rows b)) (mp_rows p)))) row_a of
              None \<Rightarrow> 0 | Some l \<Rightarrow> l + 1);
            stop = (case Option.bind (find three_way_anchor (drop (rng_end (mb_rows b)) (mp_rows p))) row_a of
              None \<Rightarrow> base_length p | Some l \<Rightarrow> l)
        in Some (min start stop, stop)
      else None)"

text \<open>The two tables of \<open>block_ancestor_ranges\<close>: a forward and a backward pass over the rows.\<close>

fun anchors_before :: "nat \<Rightarrow> aligned_row list \<Rightarrow> nat list" where
  "anchors_before lst [] = [lst]"
| "anchors_before lst (r # rs) =
     lst # anchors_before
       (if three_way_anchor r then (case row_a r of Some a \<Rightarrow> a + 1 | None \<Rightarrow> lst) else lst) rs"

fun anchors_after :: "nat \<Rightarrow> aligned_row list \<Rightarrow> nat list" where
  "anchors_after base_len [] = [base_len]"
| "anchors_after base_len (r # rs) =
     (let rest = anchors_after base_len rs
      in (if three_way_anchor r then (case row_a r of Some a \<Rightarrow> a | None \<Rightarrow> hd rest) else hd rest) # rest)"

definition block_ancestor_ranges :: "merge_plan \<Rightarrow> range option list" where
  "block_ancestor_ranges p =
     (if \<not> has_base p then replicate (length (mp_blocks p)) None
      else
        let earlier = anchors_before 0 (mp_rows p);
            after = anchors_after (base_length p) (mp_rows p)
        in map (\<lambda>b. let start = earlier ! rng_start (mb_rows b); stop = after ! rng_end (mb_rows b)
             in Some (min start stop, stop)) (mp_blocks p))"

definition block_ancestor_lines :: "merge_plan \<Rightarrow> merge_block \<Rightarrow> utext list" where
  "block_ancestor_lines p b =
     (case block_ancestor_range p b of None \<Rightarrow> []
      | Some r \<Rightarrow> slice (source_lines p A) (rng_start r) (rng_end r))"

definition refresh_unresolved_blocks :: "merge_plan \<Rightarrow> merge_plan" where
  "refresh_unresolved_blocks p =
     p\<lparr>mp_unresolved_blocks := indices_where (\<lambda>b. \<not> block_is_resolved b) (mp_blocks p)\<rparr>"

definition unresolved_count :: "merge_plan \<Rightarrow> nat" where
  "unresolved_count p = length (mp_unresolved_blocks p)"

definition delta_block_indices :: "merge_plan \<Rightarrow> nat list" where
  "delta_block_indices p = indices_where mb_is_delta (mp_blocks p)"

definition original_conflict_block_indices :: "merge_plan \<Rightarrow> nat list" where
  "original_conflict_block_indices p = indices_where mb_original_conflict (mp_blocks p)"

definition upd_block :: "merge_plan \<Rightarrow> nat \<Rightarrow> (merge_block \<Rightarrow> merge_block) \<Rightarrow> merge_plan" where
  "upd_block p i f = p\<lparr>mp_blocks := (mp_blocks p)[i := f (mp_blocks p ! i)]\<rparr>"

definition plan_toggle_source :: "merge_plan \<Rightarrow> nat \<Rightarrow> merge_source \<Rightarrow> merge_plan \<times> bool" where
  "plan_toggle_source p i s =
     (if source_text p s = None then (p, False)
      else if length (mp_blocks p) \<le> i then (p, False)
      else (refresh_unresolved_blocks (upd_block p i (\<lambda>b. block_toggle_source b s)), True))"

definition replace_selection_deferred :: "merge_plan \<Rightarrow> nat \<Rightarrow> ordered_selection \<Rightarrow> merge_plan \<times> bool" where
  "replace_selection_deferred p i sel =
     (if list_ex (\<lambda>s. source_text p s = None) (sources sel) then (p, False)
      else if length (mp_blocks p) \<le> i then (p, False)
      else (upd_block p i (\<lambda>b. block_replace_selection b sel), True))"

definition plan_replace_selection :: "merge_plan \<Rightarrow> nat \<Rightarrow> ordered_selection \<Rightarrow> merge_plan \<times> bool" where
  "plan_replace_selection p i sel =
     (let (p, changed) = replace_selection_deferred p i sel
      in (if changed then refresh_unresolved_blocks p else p, changed))"

definition set_manual_content_deferred :: "merge_plan \<Rightarrow> nat \<Rightarrow> utext \<Rightarrow> merge_plan \<times> bool" where
  "set_manual_content_deferred p i content =
     (if length (mp_blocks p) \<le> i then (p, False)
      else (upd_block p i (\<lambda>b. block_set_manual_content b content), True))"

definition plan_set_manual_content :: "merge_plan \<Rightarrow> nat \<Rightarrow> utext \<Rightarrow> merge_plan \<times> bool" where
  "plan_set_manual_content p i content =
     (let (p, changed) = set_manual_content_deferred p i content
      in (if changed then refresh_unresolved_blocks p else p, changed))"

fun reidentify ::
  "aligned_row list \<Rightarrow> utext list \<Rightarrow> utext list \<Rightarrow> utext list \<Rightarrow> (64 word \<Rightarrow> nat) \<Rightarrow> merge_block list \<Rightarrow> merge_block list" where
  "reidentify rows al bl cl occurrences [] = []"
| "reidentify rows al bl cl occurrences (b # bs) =
     (let fingerprint = block_fingerprint (slice rows (rng_start (mb_rows b)) (rng_end (mb_rows b)))
            (mb_classification b) al bl cl;
          occurrence = occurrences fingerprint
      in b\<lparr>mb_id := \<lparr>id_fingerprint = fingerprint, id_occurrence = occurrence\<rparr>\<rparr>
         # reidentify rows al bl cl (occurrences(fingerprint := u32_saturating_succ occurrence)) bs)"

definition refresh_block_ids :: "merge_plan \<Rightarrow> merge_plan" where
  "refresh_block_ids p =
     (let (a_text, b_text, c_text) = (case mp_base p of
            Some base \<Rightarrow> (base, mp_local p, mp_remote p) | None \<Rightarrow> (mp_local p, mp_remote p, []))
      in p\<lparr>mp_blocks := reidentify (mp_rows p) (split_lines a_text) (split_lines b_text) (split_lines c_text)
           (\<lambda>_. 0) (mp_blocks p)\<rparr>)"

section \<open>Splitting and joining blocks\<close>

type_synonym source_counts = "merge_source \<Rightarrow> nat"

definition row_counts :: "aligned_row list \<Rightarrow> source_counts" where
  "row_counts rows s = length (column s rows)"

definition total_counts :: "source_counts list \<Rightarrow> source_counts" where
  "total_counts parts s = sum_list (map (\<lambda>c. c s) parts)"

definition all_sources :: "merge_source list" where
  "all_sources = [A, B, C]"

definition consume_row :: "aligned_row \<Rightarrow> source_counts \<Rightarrow> source_counts option" where
  "consume_row r remaining =
     (if list_ex (\<lambda>s. row_line r s \<noteq> None \<and> remaining s = 0) all_sources then None
      else Some (\<lambda>s. if row_line r s \<noteq> None then remaining s - 1 else remaining s))"

text \<open>How many rows one part takes.\<close>

fun take_part :: "source_counts \<Rightarrow> aligned_row list \<Rightarrow> nat option" where
  "take_part remaining [] = (if list_ex (\<lambda>s. 0 < remaining s) all_sources then None else Some 0)"
| "take_part remaining (r # rs) =
     (if list_ex (\<lambda>s. 0 < remaining s) all_sources then
        (case consume_row r remaining of None \<Rightarrow> None
         | Some remaining' \<Rightarrow> map_option Suc (take_part remaining' rs))
      else Some 0)"

fun split_ranges :: "aligned_row list \<Rightarrow> nat \<Rightarrow> source_counts list \<Rightarrow> (range list \<times> nat) option" where
  "split_ranges rows cursor [] = Some ([], cursor)"
| "split_ranges rows cursor (counts # parts) =
     (if list_all (\<lambda>s. counts s = 0) all_sources then None
      else (case take_part counts (drop cursor rows) of None \<Rightarrow> None
        | Some n \<Rightarrow>
            if n = 0 then None
            else (case split_ranges rows (cursor + n) parts of None \<Rightarrow> None
              | Some (ranges, stop) \<Rightarrow> Some ((cursor, cursor + n) # ranges, stop))))"

definition splice :: "nat \<Rightarrow> nat \<Rightarrow> 'a list \<Rightarrow> 'a list \<Rightarrow> 'a list" where
  "splice i j replacement xs = take i xs @ replacement @ drop j xs"

definition split_block_by_source_line_counts ::
  "merge_plan \<Rightarrow> nat \<Rightarrow> source_counts list \<Rightarrow> (merge_plan \<times> nat) option" where
  "split_block_by_source_line_counts p i parts =
     (if length parts < 2 then None
      else (case nth_opt (mp_blocks p) i of None \<Rightarrow> None
        | Some original \<Rightarrow>
            if list_ex (\<lambda>s. row_counts (block_slice p original) s \<noteq> total_counts parts s) all_sources then None
            else (case split_ranges (mp_rows p) (rng_start (mb_rows original)) parts of None \<Rightarrow> None
              | Some (ranges, cursor) \<Rightarrow>
                  if cursor \<noteq> rng_end (mb_rows original) then None
                  else Some (refresh_unresolved_blocks (refresh_block_ids
                    (p\<lparr>mp_blocks := splice i (i + 1) (map (\<lambda>r. original\<lparr>mb_rows := r\<rparr>) ranges) (mp_blocks p)\<rparr>)),
                    length parts))))"

definition join_block_range :: "merge_plan \<Rightarrow> nat \<Rightarrow> nat \<Rightarrow> (merge_plan \<times> nat) option" where
  "join_block_range p i j =
     (if j < i \<or> length (mp_blocks p) \<le> j then None
      else
        let rows = (rng_start (mb_rows (mp_blocks p ! i)), rng_end (mb_rows (mp_blocks p ! j)));
            joined = \<lparr>mb_id = \<lparr>id_fingerprint = 0, id_occurrence = 0\<rparr>, mb_rows = rows,
              mb_classification = (if has_base p then BCChanged else BChanged),
              mb_is_delta = True, mb_original_conflict = True,
              mb_whitespace_conflict = list_all (\<lambda>r. row_whitespace_conflict r (has_base p))
                (slice (mp_rows p) (rng_start rows) (rng_end rows)),
              mb_automatic_selection = selection_new, mb_selection = selection_new, mb_manual_content = None\<rparr>
        in Some (refresh_unresolved_blocks (refresh_block_ids
             (p\<lparr>mp_blocks := splice i (j + 1) [joined] (mp_blocks p)\<rparr>)), j - i))"

section \<open>Restoring decisions\<close>

definition block_fp :: "merge_block \<Rightarrow> 64 word" where
  "block_fp b = id_fingerprint (mb_id b)"

definition fp_count :: "merge_block list \<Rightarrow> 64 word \<Rightarrow> nat" where
  "fp_count bs f = length (filter (\<lambda>b. block_fp b = f) bs)"

definition copy_decision :: "merge_block \<Rightarrow> merge_block \<Rightarrow> merge_block" where
  "copy_decision b previous =
     b\<lparr>mb_selection := mb_selection previous, mb_manual_content := mb_manual_content previous\<rparr>"

definition restore_decisions_from :: "merge_plan \<Rightarrow> merge_plan \<Rightarrow> merge_plan" where
  "restore_decisions_from p previous =
     (let blocks = mp_blocks p; prev = mp_blocks previous;
          same_sequence = (length blocks = length prev \<and>
            list_all (\<lambda>(b, q). block_fp b = block_fp q) (zip blocks prev))
      in if same_sequence
         then refresh_unresolved_blocks (p\<lparr>mp_blocks := map2 copy_decision blocks prev\<rparr>)
         else
           let decisions = (\<lambda>f. find (\<lambda>q. block_fp q = f) (filter (\<lambda>q. fp_count prev (block_fp q) = 1) prev))
           in refresh_unresolved_blocks (p\<lparr>mp_blocks := map (\<lambda>b.
                if fp_count blocks (block_fp b) \<noteq> 1 then b
                else (case decisions (block_fp b) of None \<Rightarrow> b | Some q \<Rightarrow> copy_decision b q)) blocks\<rparr>))"


section \<open>The invariant of a plan\<close>

definition block_ok :: "merge_plan \<Rightarrow> merge_block \<Rightarrow> bool" where
  "block_ok p b \<longleftrightarrow> selection_ok (mb_selection b) \<and>
     (\<forall>s\<in>set (sources (mb_selection b)). source_text p s \<noteq> None)"

definition plan_ok :: "merge_plan \<Rightarrow> bool" where
  "plan_ok p \<longleftrightarrow> tiles (map mb_rows (mp_blocks p)) 0 (length (mp_rows p)) \<and>
     mp_unresolved_blocks p = indices_where (\<lambda>b. \<not> block_is_resolved b) (mp_blocks p) \<and>
     list_all (block_ok p) (mp_blocks p)"

definition same_inputs :: "merge_plan \<Rightarrow> merge_plan \<Rightarrow> bool" where
  "same_inputs p q \<longleftrightarrow> mp_base p = mp_base q \<and> mp_local p = mp_local q \<and> mp_remote p = mp_remote q \<and>
     mp_rows p = mp_rows q \<and> mp_line_ending p = mp_line_ending q"

lemma same_inputs_refl [simp]: "same_inputs p p"
  by (simp add: same_inputs_def)

lemma same_inputs_trans: "same_inputs p q \<Longrightarrow> same_inputs q r \<Longrightarrow> same_inputs p r"
  by (simp add: same_inputs_def)

lemma source_text_None: "source_text p s = None \<longleftrightarrow> s = C \<and> \<not> has_base p"
  by (cases s) (auto simp: has_base_def)

lemma block_ok_base: "has_base p = has_base q \<Longrightarrow> block_ok p b = block_ok q b"
  by (auto simp: block_ok_def source_text_None)

text \<open>What each updating step leaves alone, and what it does to the blocks.\<close>

lemma refresh_simps [simp]:
  "mp_base (refresh_unresolved_blocks p) = mp_base p" "mp_local (refresh_unresolved_blocks p) = mp_local p"
  "mp_remote (refresh_unresolved_blocks p) = mp_remote p" "mp_rows (refresh_unresolved_blocks p) = mp_rows p"
  "mp_blocks (refresh_unresolved_blocks p) = mp_blocks p"
  "mp_line_ending (refresh_unresolved_blocks p) = mp_line_ending p"
  "mp_unresolved_blocks (refresh_unresolved_blocks p) = indices_where (\<lambda>b. \<not> block_is_resolved b) (mp_blocks p)"
  by (simp_all add: refresh_unresolved_blocks_def)

lemma refresh_ids_simps [simp]:
  "mp_base (refresh_block_ids p) = mp_base p" "mp_local (refresh_block_ids p) = mp_local p"
  "mp_remote (refresh_block_ids p) = mp_remote p" "mp_rows (refresh_block_ids p) = mp_rows p"
  "mp_line_ending (refresh_block_ids p) = mp_line_ending p"
  by (simp_all add: refresh_block_ids_def split: option.splits)

lemma reidentify_map:
  "(\<And>b i. f (b\<lparr>mb_id := i\<rparr>) = f b) \<Longrightarrow> map f (reidentify rows al bl cl occ bs) = map f bs"
  by (induction bs arbitrary: occ) (simp_all add: Let_def)

lemma refresh_ids_map:
  "(\<And>b i. f (b\<lparr>mb_id := i\<rparr>) = f b) \<Longrightarrow> map f (mp_blocks (refresh_block_ids p)) = map f (mp_blocks p)"
  by (simp add: refresh_block_ids_def reidentify_map split: option.splits)

lemma upd_block_simps [simp]:
  "mp_base (upd_block p i f) = mp_base p" "mp_local (upd_block p i f) = mp_local p"
  "mp_remote (upd_block p i f) = mp_remote p" "mp_rows (upd_block p i f) = mp_rows p"
  "mp_line_ending (upd_block p i f) = mp_line_ending p"
  "mp_blocks (upd_block p i f) = (mp_blocks p)[i := f (mp_blocks p ! i)]"
  by (simp_all add: upd_block_def)

lemma same_inputs_refresh [simp]:
  "same_inputs p (refresh_unresolved_blocks q) = same_inputs p q"
  "same_inputs p (refresh_block_ids q) = same_inputs p q" "same_inputs p (upd_block q i f) = same_inputs p q"
  "same_inputs p (q\<lparr>mp_blocks := bs\<rparr>) = same_inputs p q"
  by (simp_all add: same_inputs_def)

lemma same_inputs_has_base: "same_inputs p q \<Longrightarrow> has_base q = has_base p"
  by (simp add: same_inputs_def has_base_def)

text \<open>A refreshed plan is consistent as soon as its blocks tile the rows and select existing sources.\<close>

lemma plan_ok_refresh:
  "tiles (map mb_rows (mp_blocks p)) 0 (length (mp_rows p)) \<Longrightarrow> list_all (block_ok p) (mp_blocks p) \<Longrightarrow>
    plan_ok (refresh_unresolved_blocks p)"
  using block_ok_base [of p "refresh_unresolved_blocks p"]
  by (simp add: plan_ok_def list_all_iff has_base_def)

lemma plan_ok_update:
  assumes "plan_ok p" "i < length (mp_blocks p)" "mb_rows (f (mp_blocks p ! i)) = mb_rows (mp_blocks p ! i)"
    and "block_ok p (f (mp_blocks p ! i))"
  shows "plan_ok (refresh_unresolved_blocks (upd_block p i f))"
proof (rule plan_ok_refresh)
  have "map mb_rows ((mp_blocks p)[i := f (mp_blocks p ! i)]) = map mb_rows (mp_blocks p)"
    using assms(2,3) by (metis list_update_id map_update)
  then show "tiles (map mb_rows (mp_blocks (upd_block p i f))) 0 (length (mp_rows (upd_block p i f)))"
    using assms(1) by (simp only: upd_block_simps plan_ok_def)
  have "\<forall>b\<in>set ((mp_blocks p)[i := f (mp_blocks p ! i)]). block_ok p b"
    using assms(1,4) set_update_subset_insert [of "mp_blocks p" i "f (mp_blocks p ! i)"]
    by (auto simp: plan_ok_def list_all_iff)
  then show "list_all (block_ok (upd_block p i f)) (mp_blocks (upd_block p i f))"
    using block_ok_base [of p "upd_block p i f"] by (simp add: list_all_iff has_base_def)
qed

lemma plan_ok_block: "plan_ok p \<Longrightarrow> i < length (mp_blocks p) \<Longrightarrow> block_ok p (mp_blocks p ! i)"
  by (simp add: plan_ok_def list_all_length)

lemma block_ok_toggle:
  assumes "block_ok p b" "source_text p s \<noteq> None"
  shows "block_ok p (block_toggle_source b s)"
proof -
  have "set (sources (selection_toggle (mb_selection b) s)) \<subseteq> insert s (set (sources (mb_selection b)))"
    using assms(1) by (auto simp: block_ok_def ordsel.toggle_set)
  then show ?thesis
    using assms by (auto simp: block_ok_def block_toggle_source_def ordsel.inv_toggle)
qed

lemma plan_toggle_source_ok: "plan_ok p \<Longrightarrow> plan_ok (fst (plan_toggle_source p i s))"
  using plan_ok_update [of p i "\<lambda>b. block_toggle_source b s"] block_ok_toggle [OF plan_ok_block]
  by (simp add: plan_toggle_source_def block_toggle_source_def)

lemma plan_replace_selection_ok:
  "plan_ok p \<Longrightarrow> selection_ok sel \<Longrightarrow> plan_ok (fst (plan_replace_selection p i sel))"
  using plan_ok_update [of p i "\<lambda>b. block_replace_selection b sel"]
  by (auto simp: plan_replace_selection_def replace_selection_deferred_def block_replace_selection_def block_ok_def
      list_ex_iff)

lemma plan_set_manual_content_ok: "plan_ok p \<Longrightarrow> plan_ok (fst (plan_set_manual_content p i content))"
  using plan_ok_update [of p i "\<lambda>b. block_set_manual_content b content"]
  by (simp add: plan_set_manual_content_def set_manual_content_deferred_def block_set_manual_content_def block_ok_def
      selection_new_def)

section \<open>Splitting and joining keep the tiling\<close>

lemma tiles_hd: "tiles rs i n \<Longrightarrow> rs \<noteq> [] \<Longrightarrow> rng_start (hd rs) = i"
  by (cases rs) auto

lemma tiles_last: "tiles rs i n \<Longrightarrow> rs \<noteq> [] \<Longrightarrow> rng_end (last rs) = n"
  by (induction rs i n rule: tiles.induct) auto

lemma tiles_around:
  assumes "tiles rs a b" "i \<le> j" "j < length rs"
  shows "tiles (take i rs) a (rng_start (rs ! i))" "tiles (slice rs i (Suc j)) (rng_start (rs ! i)) (rng_end (rs ! j))"
    "tiles (drop (Suc j) rs) (rng_end (rs ! j)) b"
proof -
  let ?mid = "slice rs i (Suc j)"
  have "tiles (take i rs @ ?mid @ drop (Suc j) rs) a b"
    using assms(1,2) by (simp add: slice_append_drop)
  then obtain m k where m: "tiles (take i rs) a m" "tiles ?mid m k" "tiles (drop (Suc j) rs) k b"
    unfolding tiles_append by blast
  have ne: "?mid \<noteq> []" "length ?mid = Suc j - i"
    using assms(2,3) by (auto simp: slice_def)
  have "hd ?mid = rs ! i"
    using assms(2,3) ne by (simp add: hd_conv_nth nth_slice)
  moreover have "last ?mid = rs ! j"
    using assms(2,3) ne by (simp add: last_conv_nth nth_slice)
  ultimately have "rng_start (rs ! i) = m" "rng_end (rs ! j) = k"
    using tiles_hd [OF m(2) ne(1)] tiles_last [OF m(2) ne(1)] by auto
  then show "tiles (take i rs) a (rng_start (rs ! i))" "tiles ?mid (rng_start (rs ! i)) (rng_end (rs ! j))"
    "tiles (drop (Suc j) rs) (rng_end (rs ! j)) b"
    using m by auto
qed

lemma tiles_splice:
  assumes "tiles rs a b" "i \<le> j" "j < length rs" "tiles new (rng_start (rs ! i)) (rng_end (rs ! j))"
  shows "tiles (splice i (j + 1) new rs) a b"
  using tiles_around [OF assms(1-3)] assms(4) by (auto simp: splice_def tiles_append)

lemma row_counts_Cons: "row_counts (r # rs) s = (if row_line r s \<noteq> None then 1 else 0) + row_counts rs s"
  by (auto simp: row_counts_def column_def split: option.splits)

lemma all_sources_ex: "list_ex P all_sources \<longleftrightarrow> (\<exists>s. P s)"
  by (auto simp: all_sources_def) (metis merge_source.exhaust)

lemma all_sources_all: "list_all P all_sources \<longleftrightarrow> (\<forall>s. P s)"
  by (auto simp: all_sources_def) (metis merge_source.exhaust)

lemma take_part_counts: "take_part counts rows = Some n \<Longrightarrow> n \<le> length rows \<and> row_counts (take n rows) = counts"
proof (induction counts rows arbitrary: n rule: take_part.induct)
  case (1 remaining)
  then show ?case
    by (auto simp: all_sources_ex row_counts_def column_def split: if_splits)
next
  case (2 remaining r rs)
  show ?case
  proof (cases "\<exists>s. 0 < remaining s")
    case False
    then show ?thesis
      using "2.prems" by (auto simp: all_sources_ex row_counts_def column_def)
  next
    case True
    then obtain remaining' m where step: "consume_row r remaining = Some remaining'" "take_part remaining' rs = Some m"
      and n: "n = Suc m"
      using "2.prems" by (auto simp: all_sources_ex split: option.splits)
    have "m \<le> length rs" "row_counts (take m rs) = remaining'"
      using "2.IH" [OF _ step] True by (auto simp: all_sources_ex)
    moreover have "remaining s = (if row_line r s \<noteq> None then 1 else 0) + remaining' s" for s
    proof -
      have "row_line r s \<noteq> None \<Longrightarrow> 0 < remaining s"
        "remaining' s = (if row_line r s \<noteq> None then remaining s - 1 else remaining s)"
        using step(1) by (auto simp: consume_row_def all_sources_ex split: if_splits) (metis option.distinct(1))
      then show ?thesis
        by auto
    qed
    ultimately show ?thesis
      unfolding n by (auto simp: row_counts_Cons)
  qed
qed

lemma split_ranges_counts:
  "split_ranges rows cursor parts = Some (ranges, stop) \<Longrightarrow> cursor \<le> length rows \<Longrightarrow>
    tiles ranges cursor stop \<and> stop \<le> length rows \<and>
    map (\<lambda>r. row_counts (slice rows (rng_start r) (rng_end r))) ranges = parts"
proof (induction parts arbitrary: cursor ranges)
  case (Cons counts parts)
  then obtain n rest where n: "take_part counts (drop cursor rows) = Some n" "n \<noteq> 0"
    and rest: "split_ranges rows (cursor + n) parts = Some (rest, stop)" "ranges = (cursor, cursor + n) # rest"
    by (auto split: if_splits option.splits)
  have "n \<le> length rows - cursor" "row_counts (take n (drop cursor rows)) = counts"
    using take_part_counts [OF n(1)] by auto
  then show ?case
    using Cons.IH [OF rest(1)] n(2) rest(2) Cons.prems(2) by (simp add: slice_def)
qed simp

lemma split_blocks:
  assumes "split_block_by_source_line_counts p i parts = Some (q, n)" "plan_ok p"
  obtains ranges where "i < length (mp_blocks p)" "n = length parts" "2 \<le> n"
    "tiles ranges (rng_start (mb_rows (mp_blocks p ! i))) (rng_end (mb_rows (mp_blocks p ! i)))"
    "map (\<lambda>r. row_counts (slice (mp_rows p) (rng_start r) (rng_end r))) ranges = parts"
    "q = refresh_unresolved_blocks (refresh_block_ids (p\<lparr>mp_blocks :=
       splice i (i + 1) (map (\<lambda>r. (mp_blocks p ! i)\<lparr>mb_rows := r\<rparr>) ranges) (mp_blocks p)\<rparr>))"
proof -
  have i: "i < length (mp_blocks p)"
    using assms(1) by (cases "i < length (mp_blocks p)") (auto simp: split_block_by_source_line_counts_def split: if_splits)
  obtain ranges where s: "split_ranges (mp_rows p) (rng_start (mb_rows (mp_blocks p ! i))) parts =
      Some (ranges, rng_end (mb_rows (mp_blocks p ! i)))" "n = length parts" "2 \<le> n"
    "q = refresh_unresolved_blocks (refresh_block_ids (p\<lparr>mp_blocks :=
       splice i (i + 1) (map (\<lambda>r. (mp_blocks p ! i)\<lparr>mb_rows := r\<rparr>) ranges) (mp_blocks p)\<rparr>))"
    using assms(1) i by (auto simp: split_block_by_source_line_counts_def split: if_splits option.splits prod.splits)
  have "rng_start (mb_rows (mp_blocks p ! i)) \<le> length (mp_rows p)"
    using tiles_in [of "map mb_rows (mp_blocks p)" 0 "length (mp_rows p)" "mb_rows (mp_blocks p ! i)"] assms(2) i
    by (force simp: plan_ok_def)
  from split_ranges_counts [OF s(1) this] show ?thesis
    using that [of ranges] i s by auto
qed

lemma map_splice: "map f (splice i j new xs) = splice i j (map f new) (map f xs)"
  by (simp add: splice_def take_map drop_map)

lemma set_splice: "set (splice i j new xs) \<subseteq> set new \<union> set xs"
  by (auto simp: splice_def dest: in_set_takeD in_set_dropD)

text \<open>Replacing a range of blocks, then fresh ids and a fresh index.\<close>

lemma plan_ok_splice:
  assumes "plan_ok p" "i \<le> j" "j < length (mp_blocks p)"
    and "tiles (map mb_rows new) (rng_start (mb_rows (mp_blocks p ! i))) (rng_end (mb_rows (mp_blocks p ! j)))"
    and "\<forall>b\<in>set new. block_ok p b"
  shows "plan_ok (refresh_unresolved_blocks (refresh_block_ids (p\<lparr>mp_blocks := splice i (j + 1) new (mp_blocks p)\<rparr>)))"
    (is "plan_ok (refresh_unresolved_blocks (refresh_block_ids ?q))")
proof (rule plan_ok_refresh)
  have "map mb_rows (mp_blocks (refresh_block_ids ?q)) = splice i (j + 1) (map mb_rows new) (map mb_rows (mp_blocks p))"
    by (simp add: refresh_ids_map map_splice)
  moreover have "tiles (splice i (j + 1) (map mb_rows new) (map mb_rows (mp_blocks p))) 0 (length (mp_rows p))"
    using assms(1-4) by (intro tiles_splice) (simp_all add: plan_ok_def)
  ultimately show "tiles (map mb_rows (mp_blocks (refresh_block_ids ?q))) 0 (length (mp_rows (refresh_block_ids ?q)))"
    by simp
  have "\<forall>b\<in>set (mp_blocks ?q). block_ok p b"
    using assms(1,5) set_splice [of i "j + 1" new "mp_blocks p"] by (auto simp: plan_ok_def list_all_iff)
  then have "\<forall>s\<in>set (map mb_selection (mp_blocks ?q)). selection_ok s \<and> (\<forall>x\<in>set (sources s). source_text p x \<noteq> None)"
    by (simp add: block_ok_def)
  then have "\<forall>s\<in>set (map mb_selection (mp_blocks (refresh_block_ids ?q))).
      selection_ok s \<and> (\<forall>x\<in>set (sources s). source_text p x \<noteq> None)"
    by (subst refresh_ids_map) auto
  then have "\<forall>b\<in>set (mp_blocks (refresh_block_ids ?q)). block_ok p b"
    by (simp add: block_ok_def)
  then show "list_all (block_ok (refresh_block_ids ?q)) (mp_blocks (refresh_block_ids ?q))"
    using block_ok_base [of p "refresh_block_ids ?q"] by (simp add: list_all_iff has_base_def)
qed

lemma split_block_ok:
  assumes "split_block_by_source_line_counts p i parts = Some (q, n)" "plan_ok p"
  shows "plan_ok q" "same_inputs p q"
proof -
  obtain ranges where r: "i < length (mp_blocks p)" "n = length parts" "2 \<le> n"
    "tiles ranges (rng_start (mb_rows (mp_blocks p ! i))) (rng_end (mb_rows (mp_blocks p ! i)))"
    "map (\<lambda>r. row_counts (slice (mp_rows p) (rng_start r) (rng_end r))) ranges = parts"
    and q: "q = refresh_unresolved_blocks (refresh_block_ids (p\<lparr>mp_blocks :=
       splice i (i + 1) (map (\<lambda>r. (mp_blocks p ! i)\<lparr>mb_rows := r\<rparr>) ranges) (mp_blocks p)\<rparr>))"
    by (rule split_blocks [OF assms])
  show "plan_ok q"
    unfolding q using assms(2) r(1,4) plan_ok_block [OF assms(2) r(1)]
    by (intro plan_ok_splice) (auto simp: o_def block_ok_def)
  show "same_inputs p q"
    by (simp add: q)
qed

lemma join_blocks:
  assumes "join_block_range p i j = Some (q, n)" "plan_ok p"
  obtains joined where "i \<le> j" "j < length (mp_blocks p)" "n = j - i"
    "q = refresh_unresolved_blocks (refresh_block_ids (p\<lparr>mp_blocks := splice i (j + 1) [joined] (mp_blocks p)\<rparr>))"
    "mb_rows joined = (rng_start (mb_rows (mp_blocks p ! i)), rng_end (mb_rows (mp_blocks p ! j)))"
    "\<not> block_is_resolved joined" "mb_selection joined = selection_new" "mb_original_conflict joined"
    "rng_start (mb_rows joined) < rng_end (mb_rows joined)"
proof -
  have ij: "i \<le> j" "j < length (mp_blocks p)"
    using assms(1) by (auto simp: join_block_range_def split: if_splits)
  have "tiles (slice (map mb_rows (mp_blocks p)) i (Suc j)) (rng_start (mb_rows (mp_blocks p ! i))) (rng_end (mb_rows (mp_blocks p ! j)))"
    using tiles_around(2) [of "map mb_rows (mp_blocks p)" 0 "length (mp_rows p)" i j] assms(2) ij
    by (simp add: plan_ok_def)
  moreover have "slice (map mb_rows (mp_blocks p)) i (Suc j) = mb_rows (mp_blocks p ! i) # slice (map mb_rows (mp_blocks p)) (Suc i) (Suc j)"
    using ij slice_Suc [of i "Suc j" "map mb_rows (mp_blocks p)"] by simp
  ultimately have "rng_start (mb_rows (mp_blocks p ! i)) < rng_end (mb_rows (mp_blocks p ! j))"
    using tiles_le by fastforce
  then show ?thesis
    using that assms(1) ij by (auto simp: join_block_range_def Let_def block_is_resolved_def selection_is_empty_def selection_new_def)
qed

lemma join_block_ok:
  assumes "join_block_range p i j = Some (q, n)" "plan_ok p"
  shows "plan_ok q" "same_inputs p q"
proof -
  obtain joined where j: "i \<le> j" "j < length (mp_blocks p)" "n = j - i"
    and q: "q = refresh_unresolved_blocks (refresh_block_ids (p\<lparr>mp_blocks := splice i (j + 1) [joined] (mp_blocks p)\<rparr>))"
    and joined: "mb_rows joined = (rng_start (mb_rows (mp_blocks p ! i)), rng_end (mb_rows (mp_blocks p ! j)))"
    "\<not> block_is_resolved joined" "mb_selection joined = selection_new" "mb_original_conflict joined"
    "rng_start (mb_rows joined) < rng_end (mb_rows joined)"
    by (rule join_blocks [OF assms])
  show "plan_ok q"
    unfolding q using assms(2) j joined by (intro plan_ok_splice) (auto simp: block_ok_def selection_new_def)
  show "same_inputs p q"
    by (simp add: q)
qed

section \<open>Restoring decisions\<close>

lemma fp_count_one: "fp_count qs f = 1 \<Longrightarrow> q \<in> set qs \<Longrightarrow> q' \<in> set qs \<Longrightarrow> block_fp q = f \<Longrightarrow> block_fp q' = f \<Longrightarrow> q = q'"
proof -
  assume one: "fp_count qs f = 1" and q: "q \<in> set qs" "q' \<in> set qs" "block_fp q = f" "block_fp q' = f"
  obtain x where "filter (\<lambda>b. block_fp b = f) qs = [x]"
    using one by (auto simp: fp_count_def length_Suc_conv)
  moreover have "q \<in> set (filter (\<lambda>b. block_fp b = f) qs)" "q' \<in> set (filter (\<lambda>b. block_fp b = f) qs)"
    using q by simp_all
  ultimately show "q = q'"
    by simp
qed

lemma find_unique: "x \<in> set xs \<Longrightarrow> P x \<Longrightarrow> (\<And>y. y \<in> set xs \<Longrightarrow> P y \<Longrightarrow> y = x) \<Longrightarrow> find P xs = Some x"
proof (induction xs)
  case (Cons a xs)
  show ?case
  proof (cases "P a")
    case True
    then show ?thesis
      using Cons.prems(3) [of a] by simp
  next
    case False
    then have "x \<in> set xs"
      using Cons.prems(1,2) by auto
    from Cons.IH [OF this Cons.prems(2) Cons.prems(3) [OF list.set_intros(2)]] False show ?thesis
      by simp
  qed
qed simp

lemma copy_decision_simps [simp]:
  "mb_rows (copy_decision b q) = mb_rows b" "mb_id (copy_decision b q) = mb_id b"
  "mb_selection (copy_decision b q) = mb_selection q" "mb_manual_content (copy_decision b q) = mb_manual_content q"
  by (simp_all add: copy_decision_def)

text \<open>Every block keeps its place and its identity; its decision is its own or one of the previous plan.\<close>

lemma restored_blocks:
  "\<exists>bs. restore_decisions_from p previous = refresh_unresolved_blocks (p\<lparr>mp_blocks := bs\<rparr>) \<and>
    list_all2 (\<lambda>b b'. b' = b \<or> (\<exists>q\<in>set (mp_blocks previous). b' = copy_decision b q)) (mp_blocks p) bs"
proof -
  let ?bs = "mp_blocks p" and ?qs = "mp_blocks previous"
  let ?rel = "\<lambda>b b'. b' = b \<or> (\<exists>q\<in>set ?qs. b' = copy_decision b q)"
  let ?other = "\<lambda>b. if fp_count ?bs (block_fp b) \<noteq> 1 then b
      else (case find (\<lambda>q. block_fp q = block_fp b) (filter (\<lambda>q. fp_count ?qs (block_fp q) = 1) ?qs) of
        None \<Rightarrow> b | Some q \<Rightarrow> copy_decision b q)"
  have same: "list_all2 ?rel ?bs (map2 copy_decision ?bs ?qs)" if "length ?bs = length ?qs"
    using that by (auto simp: list_all2_conv_all_nth)
  have "?rel b (?other b)" for b
  proof (cases "find (\<lambda>q. block_fp q = block_fp b) (filter (\<lambda>q. fp_count ?qs (block_fp q) = 1) ?qs)")
    case (Some q)
    then have "q \<in> set (filter (\<lambda>q. fp_count ?qs (block_fp q) = 1) ?qs)"
      unfolding find_Some_iff by (metis nth_mem)
    then show ?thesis
      using Some by auto
  qed simp
  then have "list_all2 ?rel ?bs (map ?other ?bs)"
    unfolding list_all2_map2 by (intro list.rel_refl)
  then show ?thesis
    unfolding restore_decisions_from_def Let_def using same
    by (cases "length ?bs = length ?qs \<and> list_all (\<lambda>(b, q). block_fp b = block_fp q) (zip ?bs ?qs)")
      (simp only: if_True conj_assoc simp_thms, blast, simp only: if_False simp_thms, blast)
qed

lemma restore_ok:
  assumes "plan_ok p" "plan_ok previous" "has_base previous = has_base p"
  shows "plan_ok (restore_decisions_from p previous)" "same_inputs p (restore_decisions_from p previous)"
proof -
  obtain bs where q: "restore_decisions_from p previous = refresh_unresolved_blocks (p\<lparr>mp_blocks := bs\<rparr>)"
    and rel: "list_all2 (\<lambda>b b'. b' = b \<or> (\<exists>q\<in>set (mp_blocks previous). b' = copy_decision b q)) (mp_blocks p) bs"
    using restored_blocks by blast
  have "map mb_rows bs = map mb_rows (mp_blocks p)"
    using rel by (intro nth_equalityI) (force simp: list_all2_conv_all_nth)+
  moreover have "block_ok p b'" if b': "b' \<in> set bs" for b'
  proof -
    obtain k where k: "k < length bs" "b' = bs ! k"
      using b' by (metis in_set_conv_nth)
    then have "b' = mp_blocks p ! k \<or> (\<exists>q\<in>set (mp_blocks previous). b' = copy_decision (mp_blocks p ! k) q)"
      and len: "length bs = length (mp_blocks p)"
      using rel by (auto simp: list_all2_conv_all_nth)
    then show ?thesis
      using assms k(1) block_ok_base [of previous p]
      by (auto simp: plan_ok_def list_all_iff block_ok_def)
  qed
  ultimately show "plan_ok (restore_decisions_from p previous)"
    unfolding q using assms(1) block_ok_base [of p "p\<lparr>mp_blocks := bs\<rparr>"]
    by (intro plan_ok_refresh) (auto simp: plan_ok_def list_all_iff has_base_def simp del: map_eq_conv)
  show "same_inputs p (restore_decisions_from p previous)"
    by (simp add: q)
qed

section \<open>Reachable plans\<close>

inductive plan_step :: "merge_plan \<Rightarrow> merge_plan \<Rightarrow> bool" where
  step_toggle: "plan_step p (fst (plan_toggle_source p i s))"
| step_replace: "selection_ok sel \<Longrightarrow> plan_step p (fst (plan_replace_selection p i sel))"
| step_manual: "plan_step p (fst (plan_set_manual_content p i content))"
| step_split: "split_block_by_source_line_counts p i parts = Some (q, n) \<Longrightarrow> plan_step p q"
| step_join: "join_block_range p i j = Some (q, n) \<Longrightarrow> plan_step p q"
| step_restore: "plan_ok previous \<Longrightarrow> has_base previous = has_base p \<Longrightarrow>
    plan_step p (restore_decisions_from p previous)"

inductive plan_reachable :: "merge_plan \<Rightarrow> merge_plan \<Rightarrow> bool" for p where
  start: "plan_reachable p p"
| more: "plan_reachable p q \<Longrightarrow> plan_step q r \<Longrightarrow> plan_reachable p r"

lemma plan_step_keeps: "plan_step p q \<Longrightarrow> plan_ok p \<Longrightarrow> plan_ok q \<and> same_inputs p q"
proof (induction rule: plan_step.induct)
  case (step_toggle p i s)
  then show ?case
    using plan_toggle_source_ok by (simp add: plan_toggle_source_def)
next
  case (step_replace sel p i)
  then show ?case
    using plan_replace_selection_ok [of p sel i]
    by (auto simp: plan_replace_selection_def replace_selection_deferred_def)
next
  case (step_manual p i content)
  then show ?case
    using plan_set_manual_content_ok [of p i content]
    by (simp add: plan_set_manual_content_def set_manual_content_deferred_def)
next
  case (step_split p i parts q n)
  then show ?case
    using split_block_ok [OF step_split.hyps] by simp
next
  case (step_join p i j q n)
  then show ?case
    using join_block_ok [OF step_join.hyps] by simp
next
  case (step_restore previous p)
  then show ?case
    using restore_ok [OF step_restore.prems step_restore.hyps] by simp
qed

lemma plan_reachable_keeps: "plan_reachable p q \<Longrightarrow> plan_ok p \<Longrightarrow> plan_ok q \<and> same_inputs p q"
  by (induction rule: plan_reachable.induct) (auto dest: plan_step_keeps intro: same_inputs_trans)

section \<open>Ancestor ranges\<close>

definition anchors_have_base :: "aligned_row list \<Rightarrow> bool" where
  "anchors_have_base rows \<longleftrightarrow> list_all (\<lambda>r. three_way_anchor r \<longrightarrow> row_a r \<noteq> None) rows"

lemma find_append: "find P (xs @ ys) = (case find P xs of None \<Rightarrow> find P ys | Some x \<Rightarrow> Some x)"
  by (induction xs) auto

lemma find_anchor: "anchors_have_base rows \<Longrightarrow> find three_way_anchor rows = Some r \<Longrightarrow> \<exists>a. row_a r = Some a"
  by (auto simp: anchors_have_base_def list_all_iff find_Some_iff)

lemma anchors_before_nth:
  "anchors_have_base rows \<Longrightarrow> i \<le> length rows \<Longrightarrow>
    anchors_before lst rows ! i =
      (case Option.bind (find three_way_anchor (rev (take i rows))) row_a of None \<Rightarrow> lst | Some l \<Rightarrow> l + 1)"
proof (induction rows arbitrary: i lst)
  case (Cons r rows)
  have tl: "anchors_have_base rows" and r: "three_way_anchor r \<Longrightarrow> row_a r \<noteq> None"
    using Cons.prems(1) by (simp_all add: anchors_have_base_def)
  show ?case
  proof (cases i)
    case (Suc k)
    have "anchors_have_base (rev (take k rows))"
      using tl by (auto simp: anchors_have_base_def list_all_iff dest: in_set_takeD)
    note found = find_anchor [OF this]
    show ?thesis
      using Cons.IH [OF tl, of k] Cons.prems(2) Suc r found
      by (fastforce simp: find_append split: option.splits)
  qed simp
qed simp

lemma anchors_after_hd:
  "anchors_have_base rows \<Longrightarrow> anchors_after n rows \<noteq> [] \<and> hd (anchors_after n rows) =
      (case Option.bind (find three_way_anchor rows) row_a of None \<Rightarrow> n | Some l \<Rightarrow> l)"
  by (induction rows) (auto simp: Let_def anchors_have_base_def split: option.splits)

lemma anchors_after_nth:
  "anchors_have_base rows \<Longrightarrow> i \<le> length rows \<Longrightarrow>
    anchors_after n rows ! i =
      (case Option.bind (find three_way_anchor (drop i rows)) row_a of None \<Rightarrow> n | Some l \<Rightarrow> l)"
proof (induction rows arbitrary: i)
  case (Cons r rows)
  have tl: "anchors_have_base rows"
    using Cons.prems(1) by (simp add: anchors_have_base_def)
  show ?case
  proof (cases i)
    case 0
    then show ?thesis
      using anchors_after_hd [OF Cons.prems(1), of n] hd_conv_nth [of "anchors_after n (r # rows)"] by simp
  next
    case (Suc k)
    then show ?thesis
      using Cons.IH [OF tl, of k] Cons.prems(2) by (simp add: Let_def)
  qed
qed simp

lemma ancestor_tables:
  assumes "plan_ok p" "anchors_have_base (mp_rows p)"
  shows "block_ancestor_ranges p = map (block_ancestor_range p) (mp_blocks p)"
proof (cases "has_base p")
  case True
  have "rng_start (mb_rows b) \<le> length (mp_rows p)" "rng_end (mb_rows b) \<le> length (mp_rows p)"
    if "b \<in> set (mp_blocks p)" for b
    using tiles_in [of "map mb_rows (mp_blocks p)" 0 "length (mp_rows p)" "mb_rows b"] assms(1) that
    by (force simp: plan_ok_def)+
  then show ?thesis
    unfolding block_ancestor_ranges_def block_ancestor_range_def Let_def if_P [OF True] if_not_P [OF iffD2 [OF not_not True]]
    using assms(2) by (intro map_cong refl) (simp add: anchors_before_nth anchors_after_nth)
next
  case False
  then have "block_ancestor_range p = (\<lambda>b. None)"
    by (simp add: block_ancestor_range_def fun_eq_iff)
  then show ?thesis
    using False by (simp add: block_ancestor_ranges_def map_replicate_const)
qed

section \<open>Properties\<close>

lemma map_splice_blocks:
  assumes "\<And>b i. f (b\<lparr>mb_id := i\<rparr>) = f b"
  shows "map f (mp_blocks (refresh_unresolved_blocks (refresh_block_ids (p\<lparr>mp_blocks := splice i j new bs\<rparr>)))) =
    splice i j (map f new) (map f bs)"
  by (simp add: refresh_ids_map [OF assms] map_splice)

lemma slice_splice_mid: "i \<le> length xs \<Longrightarrow> n = length new \<Longrightarrow> slice (splice i j new xs) i (i + n) = new"
  by (simp add: slice_def splice_def)

lemma splice_join_back:
  assumes "i < length xs" "new \<noteq> []"
  shows "splice i (i + length new) [xs ! i] (splice i (i + 1) new xs) = xs"
  using assms id_take_nth_drop [of i xs] by (simp add: splice_def)

lemma nth_splice: "i \<le> length xs \<Longrightarrow> k < length new \<Longrightarrow> splice i j new xs ! (i + k) = new ! k"
  by (simp add: splice_def nth_append)

lemma length_splice: "i \<le> length xs \<Longrightarrow> length (splice i j new xs) = i + length new + (length xs - j)"
  by (simp add: splice_def)

lemma split_rows:
  assumes "plan_ok p" "split_block_by_source_line_counts p i parts = Some (q, n)"
  obtains ranges where "i < length (mp_blocks p)" "2 \<le> n" "length ranges = n"
    "map (\<lambda>r. row_counts (slice (mp_rows p) (rng_start r) (rng_end r))) ranges = parts"
    "map mb_rows (mp_blocks q) = splice i (i + 1) ranges (map mb_rows (mp_blocks p))"
    "length (mp_blocks q) = i + n + (length (mp_blocks p) - (i + 1))"
    "(rng_start (mb_rows (mp_blocks q ! i)), rng_end (mb_rows (mp_blocks q ! (i + n - 1)))) = mb_rows (mp_blocks p ! i)"
proof -
  obtain ranges where i: "i < length (mp_blocks p)" and n: "n = length parts" "2 \<le> n"
    and t: "tiles ranges (rng_start (mb_rows (mp_blocks p ! i))) (rng_end (mb_rows (mp_blocks p ! i)))"
    and counts: "map (\<lambda>r. row_counts (slice (mp_rows p) (rng_start r) (rng_end r))) ranges = parts"
    and q: "q = refresh_unresolved_blocks (refresh_block_ids (p\<lparr>mp_blocks :=
       splice i (i + 1) (map (\<lambda>r. (mp_blocks p ! i)\<lparr>mb_rows := r\<rparr>) ranges) (mp_blocks p)\<rparr>))"
    by (rule split_blocks [OF assms(2,1)])
  have len: "length ranges = n"
    using counts n by (metis length_map)
  have rows_q: "map mb_rows (mp_blocks q) = splice i (i + 1) ranges (map mb_rows (mp_blocks p))"
    unfolding q by (subst map_splice_blocks) (simp_all add: o_def)
  then have len_q: "length (mp_blocks q) = i + n + (length (mp_blocks p) - (i + 1))"
    using length_splice [of i "map mb_rows (mp_blocks p)" "i + 1" ranges] i len by (metis length_map less_imp_le)
  have nth_q: "mb_rows (mp_blocks q ! (i + k)) = ranges ! k" if "k < n" for k
    using nth_splice [of i "map mb_rows (mp_blocks p)" k ranges "i + 1"] that i len len_q rows_q
    by (metis add_less_cancel_left length_map less_imp_le nth_map trans_less_add1)
  have ends: "(rng_start (ranges ! 0), rng_end (ranges ! (n - 1))) = mb_rows (mp_blocks p ! i)"
  proof -
    have "ranges \<noteq> []"
      using len n(2) by auto
    then show ?thesis
      using tiles_hd [OF t] tiles_last [OF t] len by (simp add: hd_conv_nth last_conv_nth prod_eq_iff)
  qed
  have "(rng_start (mb_rows (mp_blocks q ! i)), rng_end (mb_rows (mp_blocks q ! (i + n - 1)))) = mb_rows (mp_blocks p ! i)"
    using nth_q [of 0] nth_q [of "n - 1"] n(2) ends by (simp add: Nat.add_diff_assoc)
  then show ?thesis
    by (rule that [OF i n(2) len counts rows_q len_q])
qed

text \<open>C32: Splitting a block by source line counts gives adjacent blocks with exactly the requested numbers of
  lines per source, keeps the invariant of the plan, and joining the parts again gives back the block
  ranges of the plan before the split.\<close>

theorem split_then_join:
  assumes "plan_ok p" "split_block_by_source_line_counts p i parts = Some (q, n)"
  shows "map (\<lambda>b. row_counts (block_slice q b)) (slice (mp_blocks q) i (i + n)) = parts \<and> plan_ok q \<and>
    (\<exists>r. join_block_range q i (i + n - 1) = Some (r, n - 1) \<and>
      map mb_rows (mp_blocks r) = map mb_rows (mp_blocks p) \<and> plan_ok r \<and> same_inputs p r)"
proof -
  obtain ranges where i: "i < length (mp_blocks p)" and n: "2 \<le> n" and len: "length ranges = n"
    and counts: "map (\<lambda>r. row_counts (slice (mp_rows p) (rng_start r) (rng_end r))) ranges = parts"
    and rows_q: "map mb_rows (mp_blocks q) = splice i (i + 1) ranges (map mb_rows (mp_blocks p))"
    and len_q: "length (mp_blocks q) = i + n + (length (mp_blocks p) - (i + 1))"
    and ends: "(rng_start (mb_rows (mp_blocks q ! i)), rng_end (mb_rows (mp_blocks q ! (i + n - 1)))) = mb_rows (mp_blocks p ! i)"
    by (rule split_rows [OF assms])
  note ok = split_block_ok [OF assms(2,1)]
  have "map (\<lambda>b. row_counts (block_slice q b)) (slice (mp_blocks q) i (i + n)) =
      map (\<lambda>r. row_counts (slice (mp_rows p) (rng_start r) (rng_end r))) (slice (map mb_rows (mp_blocks q)) i (i + n))"
    using ok(2) by (simp add: block_slice_def same_inputs_def map_slice [symmetric] o_def)
  also have "slice (map mb_rows (mp_blocks q)) i (i + n) = ranges"
    unfolding rows_q using i len by (intro slice_splice_mid) simp_all
  finally have parts: "map (\<lambda>b. row_counts (block_slice q b)) (slice (mp_blocks q) i (i + n)) = parts"
    unfolding counts .
  have "i \<le> i + n - 1" "i + n - 1 < length (mp_blocks q)"
    using n i len_q by simp_all
  then obtain r where r: "join_block_range q i (i + n - 1) = Some (r, n - 1)"
    using n by (auto simp: join_block_range_def Let_def)
  obtain joined where joined: "i \<le> i + n - 1" "i + n - 1 < length (mp_blocks q)" "n - 1 = i + n - 1 - i"
    and r': "r = refresh_unresolved_blocks (refresh_block_ids (q\<lparr>mp_blocks := splice i (i + n - 1 + 1) [joined] (mp_blocks q)\<rparr>))"
    and jr: "mb_rows joined = (rng_start (mb_rows (mp_blocks q ! i)), rng_end (mb_rows (mp_blocks q ! (i + n - 1))))"
    "\<not> block_is_resolved joined" "mb_selection joined = selection_new" "mb_original_conflict joined"
    "rng_start (mb_rows joined) < rng_end (mb_rows joined)"
    by (rule join_blocks [OF r ok(1)])
  have "mb_rows joined = map mb_rows (mp_blocks p) ! i"
    using jr(1) ends i by simp
  moreover have "map mb_rows (mp_blocks r) = splice i (i + n) [mb_rows joined] (map mb_rows (mp_blocks q))"
    unfolding r' using n by (subst map_splice_blocks) simp_all
  ultimately have "map mb_rows (mp_blocks r) = map mb_rows (mp_blocks p)"
    unfolding rows_q using splice_join_back [of i "map mb_rows (mp_blocks p)" ranges] i len n by force
  then show ?thesis
    using parts ok r join_block_ok [OF r ok(1)] same_inputs_trans by blast
qed

text \<open>Two lines on each side, no base, one open conflict over both rows.\<close>

definition example_row :: "nat \<Rightarrow> aligned_row" where
  "example_row k = row_default\<lparr>row_a := Some k, row_b := Some k\<rparr>"

definition example_block :: merge_block where
  "example_block = \<lparr>mb_id = \<lparr>id_fingerprint = 7, id_occurrence = 0\<rparr>, mb_rows = (0, 2), mb_classification = BChanged,
     mb_is_delta = True, mb_original_conflict = True, mb_whitespace_conflict = False,
     mb_automatic_selection = selection_new, mb_selection = selection_new, mb_manual_content = None\<rparr>"

definition example_plan :: merge_plan where
  "example_plan = \<lparr>mp_base = None, mp_local = str ''x'' @ [10] @ str ''y'', mp_remote = str ''u'' @ [10] @ str ''v'',
     mp_rows = [example_row 0, example_row 1], mp_blocks = [example_block], mp_unresolved_blocks = [0],
     mp_line_ending = [10]\<rparr>"

lemmas example_defs = example_plan_def example_block_def example_row_def

lemma example_ok: "plan_ok example_plan"
  by (simp add: plan_ok_def block_ok_def example_defs indices_where_def block_is_resolved_def selection_is_empty_def
      selection_new_def)

lemma example_sources: "source_text example_plan A \<noteq> None" "source_text example_plan B \<noteq> None"
  "source_text example_plan C = None"
  by (simp_all add: has_base_def example_defs)

theorem split_then_join_witness:
  "\<exists>q r. split_block_by_source_line_counts example_plan 0 [\<lambda>s. if s = C then 0 else 1, \<lambda>s. if s = C then 0 else 1] = Some (q, 2) \<and>
     join_block_range q 0 1 = Some (r, 1) \<and> map mb_rows (mp_blocks r) = [(0, 2)]"
proof -
  let ?c = "\<lambda>s. if s = C then 0 else 1 :: nat"
  obtain q where q: "split_block_by_source_line_counts example_plan 0 [?c, ?c] = Some (q, 2)"
    by (simp add: split_block_by_source_line_counts_def example_defs block_slice_def row_counts_def column_def
        total_counts_def all_sources_def consume_row_def row_default_def slice_def)
  from split_then_join [OF example_ok q] obtain r where
    "join_block_range q 0 1 = Some (r, 1)" "map mb_rows (mp_blocks r) = map mb_rows (mp_blocks example_plan)"
    by auto
  then show ?thesis
    using q by (auto simp: example_defs)
qed

text \<open>Toggling a source in a block and toggling it again gives back the plan, index of open blocks included, as
  long as the block has no manual text and did not select the source; the first toggle appends the source to the
  selection, leaves every other block alone and takes the block out of the open ones.\<close>

lemma toggle_source_twice:
  assumes "plan_ok p" "i < length (mp_blocks p)" "source_text p s \<noteq> None"
    and "mb_manual_content (mp_blocks p ! i) = None" "s \<notin> set (sources (mb_selection (mp_blocks p ! i)))"
    and "plan_toggle_source p i s = (q, changed)"
  shows "changed \<and> i \<notin> set (mp_unresolved_blocks q) \<and>
    sources (mb_selection (mp_blocks q ! i)) = sources (mb_selection (mp_blocks p ! i)) @ [s] \<and>
    (\<forall>k. k \<noteq> i \<longrightarrow> mp_blocks q ! k = mp_blocks p ! k) \<and> plan_toggle_source q i s = (p, True)"
proof -
  let ?b = "mp_blocks p ! i"
  let ?b' = "block_toggle_source ?b s"
  have ok: "selection_ok (mb_selection ?b)"
    using plan_ok_block [OF assms(1,2)] by (simp add: block_ok_def)
  have q: "q = refresh_unresolved_blocks (upd_block p i (\<lambda>b. block_toggle_source b s))" and ch: "changed"
    using assms(2,3,6) by (auto simp: plan_toggle_source_def)
  have b': "mp_blocks q ! i = ?b'" "length (mp_blocks q) = length (mp_blocks p)"
    using assms(2) by (simp_all add: q)
  have sel: "sources (mb_selection ?b') = sources (mb_selection ?b) @ [s]"
    using ordsel.toggle_appends [OF ok assms(5)] by (simp add: block_toggle_source_def)
  have "sources (mb_selection (block_toggle_source ?b' s)) = sources (mb_selection ?b)"
    using ordsel.toggle_twice [OF ok assms(5)] by (simp add: block_toggle_source_def)
  then have restored: "block_toggle_source ?b' s = ?b"
    using assms(4) by (simp add: block_toggle_source_def)
  have "source_text q s \<noteq> None"
    using assms(3) by (auto simp: source_text_None q has_base_def)
  then have "plan_toggle_source q i s = (refresh_unresolved_blocks (upd_block q i (\<lambda>b. block_toggle_source b s)), True)"
    using assms(2) b' by (simp add: plan_toggle_source_def)
  moreover have "refresh_unresolved_blocks (upd_block q i (\<lambda>b. block_toggle_source b s)) = p"
    using assms(1,2) restored by (simp add: q refresh_unresolved_blocks_def upd_block_def plan_ok_def)
  moreover have "i \<notin> set (mp_unresolved_blocks q)"
    using sel assms(2) by (auto simp: q block_is_resolved_def selection_is_empty_def)
  ultimately show ?thesis
    using ch b' sel by (auto simp: q)
qed

theorem toggle_source_twice_witness:
  "plan_toggle_source (fst (plan_toggle_source example_plan 0 B)) 0 B = (example_plan, True)"
  using toggle_source_twice [OF example_ok, of 0 B "fst (plan_toggle_source example_plan 0 B)"
      "snd (plan_toggle_source example_plan 0 B)"] example_sources
  by (simp add: example_plan_def example_block_def selection_new_def)

text \<open>C33: Restoring decisions copies the decision of the previous block onto the current block with the same
  fingerprint whenever that fingerprint occurs once on each side, wherever the two blocks stand, and touches
  no source text, row, block range or block identity.\<close>

theorem restore_matches_unique_fingerprints:
  assumes "i < length (mp_blocks p)" "b = mp_blocks p ! i" "fp_count (mp_blocks p) (block_fp b) = 1"
    and "q \<in> set (mp_blocks previous)" "block_fp q = block_fp b" "fp_count (mp_blocks previous) (block_fp b) = 1"
  shows "mp_blocks (restore_decisions_from p previous) ! i = copy_decision b q \<and>
    map mb_id (mp_blocks (restore_decisions_from p previous)) = map mb_id (mp_blocks p) \<and>
    map mb_rows (mp_blocks (restore_decisions_from p previous)) = map mb_rows (mp_blocks p) \<and>
    same_inputs p (restore_decisions_from p previous)"
proof -
  let ?bs = "mp_blocks p" and ?qs = "mp_blocks previous"
  let ?same = "length ?bs = length ?qs \<and> list_all (\<lambda>(b, q). block_fp b = block_fp q) (zip ?bs ?qs)"
  have "mp_blocks (restore_decisions_from p previous) ! i = copy_decision b q"
  proof (cases ?same)
    case True
    then have len: "i < length ?qs" and "block_fp (?qs ! i) = block_fp b"
      using assms(1,2) by (auto simp: list_all_length)
    then have "?qs ! i = q"
      using fp_count_one [OF assms(6) nth_mem [OF len] assms(4)] assms(5) by simp
    then show ?thesis
      using True assms(1,2) len by (simp add: restore_decisions_from_def Let_def)
  next
    case False
    have "find (\<lambda>x. block_fp x = block_fp b) (filter (\<lambda>x. fp_count ?qs (block_fp x) = 1) ?qs) = Some q"
    proof (rule find_unique)
      show "q \<in> set (filter (\<lambda>x. fp_count ?qs (block_fp x) = 1) ?qs)"
        using assms(4-6) by simp
      show "y = q" if "y \<in> set (filter (\<lambda>x. fp_count ?qs (block_fp x) = 1) ?qs)" "block_fp y = block_fp b" for y
        using fp_count_one [OF assms(6) _ assms(4) that(2) assms(5)] that(1) by simp
    qed (rule assms(5))
    then show ?thesis
      unfolding restore_decisions_from_def Let_def if_not_P [OF False] using assms(1-3) by simp
  qed
  moreover obtain bs where r: "restore_decisions_from p previous = refresh_unresolved_blocks (p\<lparr>mp_blocks := bs\<rparr>)"
    and rel: "list_all2 (\<lambda>b b'. b' = b \<or> (\<exists>q\<in>set ?qs. b' = copy_decision b q)) ?bs bs"
    using restored_blocks by blast
  moreover have "map mb_id bs = map mb_id ?bs" "map mb_rows bs = map mb_rows ?bs"
    using rel by (intro nth_equalityI; force simp: list_all2_conv_all_nth)+
  ultimately show ?thesis
    by simp
qed

theorem restore_matches_unique_fingerprints_witness:
  "mp_blocks (restore_decisions_from example_plan (fst (plan_toggle_source example_plan 0 B))) ! 0 =
     example_block\<lparr>mb_selection := selection_from_source B\<rparr>"
  using restore_matches_unique_fingerprints [of 0 example_plan example_block
      "mp_blocks (fst (plan_toggle_source example_plan 0 B)) ! 0" "fst (plan_toggle_source example_plan 0 B)"]
  by (simp add: example_defs has_base_def plan_toggle_source_def upd_block_def block_toggle_source_def selection_toggle_def
      selection_new_def selection_from_source_def block_fp_def fp_count_def copy_decision_def)

end
