(* ===== verification/Plan.thy ===== *)
theory Plan
  imports Plan_Ops
begin

text \<open>
  Building a merge plan: \<open>build_merge_plan_with_alignments\<close> of \<open>merge/plan.rs\<close> and its callers, with the options
  of \<open>merge.rs\<close>. The result is an option because \<open>integrate_ac\<close> and \<open>integrate_bc\<close> call \<open>expect\<close>; the theorems
  show that without manual alignments no \<open>expect\<close> fails, that every line of every input has exactly one row,
  in order, and that the blocks partition the rows. The additional local/remote pass is accepted only when it
  keeps what the passes against the base had established.
\<close>

section \<open>Options\<close>

datatype conflict_style = Style_Merge | Style_Diff3 | Style_Zdiff3
datatype merge_strategy = Strategy_Normal | Strategy_Ours | Strategy_Theirs | Strategy_Union

record merge_labels =
  lb_ours :: "utext option"
  lb_base :: "utext option"
  lb_theirs :: "utext option"

record merge_options =
  mo_style :: conflict_style
  mo_strategy :: merge_strategy
  mo_labels :: merge_labels
  mo_marker_size :: nat
  mo_diff_algorithm :: merge_diff_algorithm
  mo_align_contributors :: bool

definition default_marker_size :: nat where "default_marker_size = 7"

definition default_options :: merge_options where
  "default_options = \<lparr>mo_style = Style_Merge, mo_strategy = Strategy_Normal,
     mo_labels = \<lparr>lb_ours = None, lb_base = None, lb_theirs = None\<rparr>,
     mo_marker_size = default_marker_size, mo_diff_algorithm = Alg_Myers, mo_align_contributors = True\<rparr>"

section \<open>Checks on a candidate alignment\<close>

definition source_indices_are_complete_and_ordered :: "aligned_row list \<Rightarrow> merge_source \<Rightarrow> nat \<Rightarrow> bool" where
  "source_indices_are_complete_and_ordered rows s expected_len \<longleftrightarrow>
     filter_map (\<lambda>r. row_line r s) rows = [0..<expected_len]"

definition exact_base_anchor_pairs :: "aligned_row list \<Rightarrow> merge_source \<Rightarrow> (nat \<times> nat) list" where
  "exact_base_anchor_pairs rows contributor = filter_map (\<lambda>r.
     case row_a r of None \<Rightarrow> None
     | Some base \<Rightarrow>
         (case row_line r contributor of None \<Rightarrow> None
          | Some contributor_line \<Rightarrow>
              if (case contributor of B \<Rightarrow> equal_ab r | C \<Rightarrow> equal_ac r | A \<Rightarrow> True)
              then Some (base, contributor_line) else None)) rows"

definition ascending :: "(nat \<times> nat) list \<Rightarrow> bool" where
  "ascending ps \<longleftrightarrow> sorted_wrt (<) (map fst ps)"

text \<open>One walk over both sequences; the candidate is only peeked at when it matches.\<close>

fun anchor_walk :: "(nat \<times> nat) list \<Rightarrow> (nat \<times> nat) list \<Rightarrow> bool" where
  "anchor_walk [] candidate = True"
| "anchor_walk (wanted # rest) [] = False"
| "anchor_walk (wanted # rest) (have_pair # candidate) =
     (if fst have_pair < fst wanted then anchor_walk (wanted # rest) candidate
      else if have_pair = wanted then anchor_walk rest (have_pair # candidate)
      else False)"

definition base_anchor_pairs_subset :: "aligned_row list \<Rightarrow> aligned_row list \<Rightarrow> merge_source \<Rightarrow> bool" where
  "base_anchor_pairs_subset baseline candidate contributor =
     (let wanted = exact_base_anchor_pairs baseline contributor;
          available = exact_base_anchor_pairs candidate contributor
      in if \<not> ascending wanted \<or> \<not> ascending available
         then list_all (\<lambda>pair. pair \<in> set available) wanted
         else anchor_walk wanted available)"

definition contributor_alignment_preserves_base_anchors ::
  "aligned_row list \<Rightarrow> aligned_row list \<Rightarrow> nat \<Rightarrow> nat \<Rightarrow> nat \<Rightarrow> bool" where
  "contributor_alignment_preserves_base_anchors baseline candidate a_len b_len c_len \<longleftrightarrow>
     source_indices_are_complete_and_ordered candidate A a_len \<and>
     source_indices_are_complete_and_ordered candidate B b_len \<and>
     source_indices_are_complete_and_ordered candidate C c_len \<and>
     base_anchor_pairs_subset baseline candidate B \<and> base_anchor_pairs_subset baseline candidate C"

text \<open>The loop over the sources of one entry, with the row found so far.\<close>

fun pin_holds :: "aligned_row list \<Rightarrow> manual_alignment \<Rightarrow> bool \<Rightarrow> nat option \<Rightarrow> merge_source list \<Rightarrow> bool" where
  "pin_holds rows entry three_way anchor [] = True"
| "pin_holds rows entry three_way anchor (s # ss) =
     (let r = source_range entry s three_way
      in if rng_empty r then pin_holds rows entry three_way anchor ss
         else (case position (\<lambda>row. row_line row s = Some (rng_start r)) rows of
             None \<Rightarrow> False
           | Some row_index \<Rightarrow>
               (case anchor of
                  None \<Rightarrow> pin_holds rows entry three_way (Some row_index) ss
                | Some a \<Rightarrow> if a \<noteq> row_index then False else pin_holds rows entry three_way anchor ss)))"

definition alignment_preserves_manual_pins :: "aligned_row list \<Rightarrow> manual_alignment list \<Rightarrow> bool \<Rightarrow> bool" where
  "alignment_preserves_manual_pins rows ents three_way \<longleftrightarrow>
     list_all (\<lambda>entry. pin_holds rows entry three_way None [A, B, C]) ents"

section \<open>The rows of a plan\<close>

definition segments_for ::
  "manual_alignment list \<Rightarrow> bool \<Rightarrow> merge_source \<Rightarrow> utext list \<Rightarrow> merge_source \<Rightarrow> utext list \<Rightarrow> (range \<times> range) list" where
  "segments_for ents three_way left left_lines right right_lines =
     alignment_segments ents three_way left (length left_lines) right (length right_lines)"

definition two_input_list ::
  "utext list \<Rightarrow> utext list \<Rightarrow> utext list \<Rightarrow> bool \<Rightarrow> merge_options \<Rightarrow> manual_alignment list \<Rightarrow> row_list" where
  "two_input_list al bl cl three_way options ents =
     recompute_rows_in_list al bl cl
       (build_ab (diff_chunks_segmented al bl (mo_diff_algorithm options) (segments_for ents three_way A al B bl)))"

text \<open>The rows after the two passes against the base.\<close>

definition base_anchored_list ::
  "utext list \<Rightarrow> utext list \<Rightarrow> utext list \<Rightarrow> merge_options \<Rightarrow> manual_alignment list \<Rightarrow> row_list option" where
  "base_anchored_list al bl cl options ents =
     (case integrate_ac (two_input_list al bl cl True options ents)
         (diff_chunks_segmented al cl (mo_diff_algorithm options) (segments_for ents True A al C cl)) of
        None \<Rightarrow> None
      | Some lst \<Rightarrow>
          let first_trim = trim_rows (into_rows (recompute_rows_in_list al bl cl lst)) al bl cl (barriers_new ents True)
          in Some (recompute_rows_in_list al bl cl (from_rows first_trim)))"

text \<open>The optional pass that aligns the two contributors with each other.\<close>

definition contributor_rows ::
  "utext list \<Rightarrow> utext list \<Rightarrow> utext list \<Rightarrow> merge_options \<Rightarrow> manual_alignment list \<Rightarrow> row_list \<Rightarrow> aligned_row list option" where
  "contributor_rows al bl cl options ents lst =
     (let baseline = into_rows lst
      in case integrate_bc lst
          (diff_chunks_segmented bl cl (mo_diff_algorithm options) (segments_for ents True B bl C cl)) al bl cl of
        None \<Rightarrow> None
      | Some lst \<Rightarrow>
          let candidate = trim_rows (into_rows (recompute_rows_in_list al bl cl lst)) al bl cl (barriers_new ents True)
          in Some (if contributor_alignment_preserves_base_anchors baseline candidate (length al) (length bl) (length cl) \<and>
                     alignment_preserves_manual_pins candidate ents True
                   then candidate else baseline))"

definition plan_rows ::
  "bool \<Rightarrow> utext \<Rightarrow> utext \<Rightarrow> utext \<Rightarrow> merge_options \<Rightarrow> manual_alignment list \<Rightarrow> aligned_row list option" where
  "plan_rows three_way a_text b_text c_text options ents =
     (let al = split_lines a_text; bl = split_lines b_text; cl = split_lines c_text
      in if three_way then
           (case base_anchored_list al bl cl options ents of
              None \<Rightarrow> None
            | Some lst \<Rightarrow>
                if mo_align_contributors options \<and> a_text \<noteq> b_text \<and> a_text \<noteq> c_text \<and> b_text \<noteq> c_text
                then contributor_rows al bl cl options ents lst
                else Some (into_rows lst))
         else Some (into_rows (two_input_list al bl cl False options ents)))"

definition build_merge_plan_with_alignments ::
  "utext option \<Rightarrow> utext \<Rightarrow> utext \<Rightarrow> merge_options \<Rightarrow> manual_alignment_list \<Rightarrow> merge_plan option" where
  "build_merge_plan_with_alignments base local remote options alignments =
     (let (a_text, b_text, c_text, three_way) = (case base of
            Some base \<Rightarrow> (base, local, remote, True) | None \<Rightarrow> (local, remote, [], False))
      in case plan_rows three_way a_text b_text c_text options (entries alignments) of
        None \<Rightarrow> None
      | Some rows \<Rightarrow>
          let blocks = build_blocks rows three_way (split_lines a_text) (split_lines b_text) (split_lines c_text)
          in Some \<lparr>mp_base = base, mp_local = local, mp_remote = remote, mp_rows = rows, mp_blocks = blocks,
               mp_unresolved_blocks = indices_where (\<lambda>b. \<not> block_is_resolved b) blocks,
               mp_line_ending = detect_line_ending base local remote\<rparr>)"

definition build_merge_plan_with_optional_base ::
  "utext option \<Rightarrow> utext \<Rightarrow> utext \<Rightarrow> merge_options \<Rightarrow> merge_plan option" where
  "build_merge_plan_with_optional_base base local remote options =
     build_merge_plan_with_alignments base local remote options alignments_new"

definition build_merge_plan :: "utext \<Rightarrow> utext \<Rightarrow> utext \<Rightarrow> merge_options \<Rightarrow> merge_plan option" where
  "build_merge_plan base local remote options =
     build_merge_plan_with_optional_base (Some base) local remote options"

text \<open>The outer option is the answer of the function, the inner one a failed \<open>expect\<close>.\<close>

definition try_build_interactive_merge_plan_with_alignments ::
  "utext option \<Rightarrow> utext \<Rightarrow> utext \<Rightarrow> merge_options \<Rightarrow> interactive_merge_plan_budget \<Rightarrow> manual_alignment_list \<Rightarrow>
    merge_plan option option" where
  "try_build_interactive_merge_plan_with_alignments base local remote options budget alignments =
     (if interactive_merge_plan_is_practical base local remote budget
      then Some (build_merge_plan_with_alignments base local remote options alignments) else None)"

definition try_build_interactive_merge_plan_with_optional_base ::
  "utext option \<Rightarrow> utext \<Rightarrow> utext \<Rightarrow> merge_options \<Rightarrow> interactive_merge_plan_budget \<Rightarrow> merge_plan option option" where
  "try_build_interactive_merge_plan_with_optional_base base local remote options budget =
     try_build_interactive_merge_plan_with_alignments base local remote options budget alignments_new"

section \<open>The walk is the subset test\<close>

lemma anchor_walk_subset:
  "sorted_wrt (<) (map fst ws) \<Longrightarrow> sorted_wrt (<) (map fst cs) \<Longrightarrow> anchor_walk ws cs \<longleftrightarrow> set ws \<subseteq> set cs"
proof (induction ws cs rule: anchor_walk.induct)
  case (3 w ws h cs)
  show ?case
  proof (cases "fst h < fst w")
    case True
    then have "h \<notin> set (w # ws)"
      using 3(3) by fastforce
    then show ?thesis
      using 3 True by auto
  next
    case False
    show ?thesis
    proof (cases "h = w")
      case True
      then show ?thesis
        using 3 False by auto
    next
      case ne: False
      have "w \<notin> set cs"
        using 3(4) False by fastforce
      then show ?thesis
        using False ne by auto
    qed
  qed
qed auto

lemma base_anchor_pairs_subset_iff:
  "base_anchor_pairs_subset baseline candidate s \<longleftrightarrow>
    set (exact_base_anchor_pairs baseline s) \<subseteq> set (exact_base_anchor_pairs candidate s)"
  by (auto simp: base_anchor_pairs_subset_def Let_def list_all_iff ascending_def anchor_walk_subset)

section \<open>Rows of a plan without manual alignments\<close>

lemma complete_iff_column:
  "source_indices_are_complete_and_ordered rows s n \<longleftrightarrow> column s rows = [0..<n]"
  by (simp add: source_indices_are_complete_and_ordered_def column_def)

text \<open>What every accepted row list satisfies.\<close>

definition rows_ok :: "utext list \<Rightarrow> utext list \<Rightarrow> utext list \<Rightarrow> aligned_row list \<Rightarrow> bool" where
  "rows_ok al bl cl rows \<longleftrightarrow>
     column A rows = [0..<length al] \<and> column B rows = [0..<length bl] \<and> column C rows = [0..<length cl] \<and>
     (\<forall>r\<in>set rows. recompute_row_metadata al bl cl r = r)"

lemma rows_ok_column: "rows_ok al bl cl rows \<Longrightarrow> column s rows = [0..<length (source_lines3 al bl cl s)]"
  by (cases s) (auto simp: rows_ok_def source_lines3_def)

lemma two_input_rows:
  assumes "\<forall>e\<in>set ents. alignment_wf e"
  obtains ids where "linked (two_input_list al bl cl three_way options ents) ids"
    "column A (rows_of (two_input_list al bl cl three_way options ents) ids) = [0..<length al]"
    "column B (rows_of (two_input_list al bl cl three_way options ents) ids) = [0..<length bl]"
    "column C (rows_of (two_input_list al bl cl three_way options ents) ids) = []"
    "\<forall>r\<in>set (rows_of (two_input_list al bl cl three_way options ents) ids). recompute_row_metadata al bl cl r = r"
proof -
  let ?chs = "diff_chunks_segmented al bl (mo_diff_algorithm options) (segments_for ents three_way A al B bl)"
  have tot: "left_total ?chs = length al" "right_total ?chs = length bl"
    using diff_chunks_segmented_total [OF assms, of _ three_way A al B bl] by (simp_all add: segments_for_def)
  obtain ids where l: "linked (build_ab ?chs) ids"
    and cols: "column A (rows_of (build_ab ?chs) ids) = [0..<left_total ?chs]"
      "column B (rows_of (build_ab ?chs) ids) = [0..<right_total ?chs]"
      "column C (rows_of (build_ab ?chs) ids) = []"
    by (rule build_ab_columns)
  note rc = linked_recompute [OF l, of al bl cl]
  show ?thesis
    by (rule that [of ids]) (unfold two_input_list_def rc(2), use rc(1) cols tot in \<open>auto simp del: map_map\<close>)
qed

lemma into_rows_recomputed:
  assumes "linked rl ids"
  shows "into_rows (recompute_rows_in_list al bl cl rl) = map (recompute_row_metadata al bl cl) (rows_of rl ids)"
  using into_rows_linked [OF linked_recompute(1) [OF assms]] linked_recompute(2) [OF assms] by metis

lemma reloaded_rows:
  assumes "\<forall>r\<in>set rows. recompute_row_metadata al bl cl r = r"
  obtains ids where "linked (recompute_rows_in_list al bl cl (from_rows rows)) ids"
    "rows_of (recompute_rows_in_list al bl cl (from_rows rows)) ids = rows"
    "into_rows (recompute_rows_in_list al bl cl (from_rows rows)) = rows"
proof -
  obtain ids where l: "linked (from_rows rows) ids" "rows_of (from_rows rows) ids = rows"
    by (rule from_rows_linked)
  have "rows_of (recompute_rows_in_list al bl cl (from_rows rows)) ids = rows"
    unfolding linked_recompute(2) [OF l(1)] l(2) using assms by (simp add: map_idI)
  then show ?thesis
    using that [of ids] linked_recompute(1) [OF l(1)] into_rows_linked by metis
qed

lemma base_anchored_rows:
  obtains lst where "base_anchored_list al bl cl options [] = Some lst" "rows_ok al bl cl (into_rows lst)"
    "\<exists>ids. linked lst ids \<and> rows_of lst ids = into_rows lst" "\<forall>r\<in>set (into_rows lst). row_nonempty r"
proof -
  obtain ids where l: "linked (two_input_list al bl cl True options []) ids"
    and cols: "column A (rows_of (two_input_list al bl cl True options []) ids) = [0..<length al]"
      "column B (rows_of (two_input_list al bl cl True options []) ids) = [0..<length bl]"
      "column C (rows_of (two_input_list al bl cl True options []) ids) = []"
      "\<forall>r\<in>set (rows_of (two_input_list al bl cl True options []) ids). recompute_row_metadata al bl cl r = r"
    by (rule two_input_rows [of "[]" al bl cl True options]) auto
  let ?chs = "diff_chunks_segmented al cl (mo_diff_algorithm options) (segments_for [] True A al C cl)"
  have tot: "left_total ?chs = length al" "right_total ?chs = length cl"
    by (simp_all add: segments_for_def diff_chunks_segmented_def diff_chunks_total)
  obtain rl ids' where rl: "integrate_ac (two_input_list al bl cl True options []) ?chs = Some rl" "linked rl ids'"
    "column A (rows_of rl ids') = [0..<length al]"
    "column B (rows_of rl ids') = column B (rows_of (two_input_list al bl cl True options []) ids)"
    "column C (rows_of rl ids') = [0..<right_total ?chs]"
    by (rule integrate_ac_columns [OF l cols(1,3), of ?chs "\<lambda>_ _. True"]) (use tot in auto)
  let ?rows = "into_rows (recompute_rows_in_list al bl cl rl)"
  let ?trim = "trim_rows ?rows al bl cl (barriers_new [] True)"
  let ?lst = "recompute_rows_in_list al bl cl (from_rows ?trim)"
  have "?rows = map (recompute_row_metadata al bl cl) (rows_of rl ids')"
    by (rule into_rows_recomputed [OF rl(2)])
  then have c: "column s ?trim = column s (rows_of rl ids')" for s
    by (simp only: trim_rows_columns [OF barriers_new_Nil] column_recompute)
  obtain ids2 where l2: "linked ?lst ids2" "rows_of ?lst ids2 = ?trim" and into: "into_rows ?lst = ?trim"
    by (rule reloaded_rows [of ?trim al bl cl]) (use trim_rows_metadata in blast)
  show ?thesis
  proof (rule that [of ?lst])
    show "base_anchored_list al bl cl options [] = Some ?lst"
      unfolding base_anchored_list_def rl(1) by (simp add: Let_def)
    show "rows_ok al bl cl (into_rows ?lst)"
      unfolding into rows_ok_def using c rl(3-5) cols(2) tot trim_rows_metadata by auto
    show "\<exists>ids. linked ?lst ids \<and> rows_of ?lst ids = into_rows ?lst"
      unfolding into using l2 by blast
    show "\<forall>r\<in>set (into_rows ?lst). row_nonempty r"
      unfolding into using trim_rows_nonempty by blast
  qed
qed


lemma base_anchored_exists: "\<exists>lst. base_anchored_list al bl cl options [] = Some lst"
  by (rule base_anchored_rows [of al bl cl options]) blast

lemma contributor_rows_ok:
  assumes "linked lst ids" "rows_of lst ids = into_rows lst" "rows_ok al bl cl (into_rows lst)"
    and "\<forall>r\<in>set (into_rows lst). row_nonempty r"
  obtains rows where "contributor_rows al bl cl options [] lst = Some rows" "rows_ok al bl cl rows"
    "\<forall>r\<in>set rows. row_nonempty r"
    "\<forall>s\<in>{B, C}. set (exact_base_anchor_pairs (into_rows lst) s) \<subseteq> set (exact_base_anchor_pairs rows s)"
proof -
  let ?chs = "diff_chunks_segmented bl cl (mo_diff_algorithm options) (segments_for [] True B bl C cl)"
  have tot: "left_total ?chs = length bl" "right_total ?chs = length cl"
    by (simp_all add: segments_for_def diff_chunks_segmented_def diff_chunks_total)
  obtain rl ids' where rl: "integrate_bc lst ?chs al bl cl = Some rl" "linked rl ids'"
    by (rule integrate_bc_some [OF assms(1), of "length bl" "length cl" ?chs])
      (use assms(2,3) tot in \<open>auto simp: rows_ok_def\<close>)
  let ?cand = "trim_rows (into_rows (recompute_rows_in_list al bl cl rl)) al bl cl (barriers_new [] True)"
  let ?ok = "contributor_alignment_preserves_base_anchors (into_rows lst) ?cand (length al) (length bl) (length cl) \<and>
    alignment_preserves_manual_pins ?cand [] True"
  let ?rows = "if ?ok then ?cand else into_rows lst"
  have "?ok \<Longrightarrow> rows_ok al bl cl ?cand"
    by (auto simp: contributor_alignment_preserves_base_anchors_def complete_iff_column rows_ok_def trim_rows_metadata)
  moreover have "?ok \<Longrightarrow> s \<in> {B, C} \<Longrightarrow>
      set (exact_base_anchor_pairs (into_rows lst) s) \<subseteq> set (exact_base_anchor_pairs ?cand s)" for s
    by (auto simp: contributor_alignment_preserves_base_anchors_def base_anchor_pairs_subset_iff)
  moreover have "contributor_rows al bl cl options [] lst = Some ?rows"
    unfolding contributor_rows_def rl(1) by (simp add: Let_def)
  ultimately show ?thesis
    using that [of ?rows] assms(3,4) trim_rows_nonempty by (auto split: if_splits)
qed

definition plan_lines :: "merge_plan \<Rightarrow> utext list \<times> utext list \<times> utext list" where
  "plan_lines p = (source_lines p A, source_lines p B, source_lines p C)"

lemma plan_rows_ok:
  assumes "\<not> three_way \<Longrightarrow> c_text = []"
  obtains rows where "plan_rows three_way a_text b_text c_text options [] = Some rows"
    "rows_ok (split_lines a_text) (split_lines b_text) (split_lines c_text) rows" "\<forall>r\<in>set rows. three_way \<longrightarrow> row_nonempty r"
proof (cases three_way)
  case True
  let ?al = "split_lines a_text" and ?bl = "split_lines b_text" and ?cl = "split_lines c_text"
  obtain lst where lst: "base_anchored_list ?al ?bl ?cl options [] = Some lst" "rows_ok ?al ?bl ?cl (into_rows lst)"
    "\<exists>ids. linked lst ids \<and> rows_of lst ids = into_rows lst" "\<forall>r\<in>set (into_rows lst). row_nonempty r"
    by (rule base_anchored_rows)
  then obtain ids where ids: "linked lst ids" "rows_of lst ids = into_rows lst"
    by blast
  obtain rows where "contributor_rows ?al ?bl ?cl options [] lst = Some rows" "rows_ok ?al ?bl ?cl rows"
    "\<forall>r\<in>set rows. row_nonempty r"
    by (rule contributor_rows_ok [OF ids lst(2,4)])
  then show ?thesis
    using that lst True
    by (cases "mo_align_contributors options \<and> a_text \<noteq> b_text \<and> a_text \<noteq> c_text \<and> b_text \<noteq> c_text")
      (auto simp: plan_rows_def)
next
  case False
  let ?al = "split_lines a_text" and ?bl = "split_lines b_text" and ?cl = "split_lines c_text"
  obtain ids where l: "linked (two_input_list ?al ?bl ?cl False options []) ids"
    and cols: "column A (rows_of (two_input_list ?al ?bl ?cl False options []) ids) = [0..<length ?al]"
      "column B (rows_of (two_input_list ?al ?bl ?cl False options []) ids) = [0..<length ?bl]"
      "column C (rows_of (two_input_list ?al ?bl ?cl False options []) ids) = []"
      "\<forall>r\<in>set (rows_of (two_input_list ?al ?bl ?cl False options []) ids). recompute_row_metadata ?al ?bl ?cl r = r"
    by (rule two_input_rows [of "[]" ?al ?bl ?cl False options]) auto
  have "?cl = []"
    using assms [OF False] by (simp add: split_lines_def del: split_lines_eq)
  then show ?thesis
    using that [of "into_rows (two_input_list ?al ?bl ?cl False options [])"] False cols into_rows_linked [OF l]
    by (auto simp: plan_rows_def rows_ok_def)
qed

section \<open>The plan\<close>

definition plan_complete :: "merge_plan \<Rightarrow> bool" where
  "plan_complete p \<longleftrightarrow>
     rows_ok (source_lines p A) (source_lines p B) (source_lines p C) (mp_rows p) \<and>
     (\<forall>r\<in>set (mp_rows p). has_base p \<longrightarrow> row_nonempty r) \<and>
     mp_blocks p = build_blocks (mp_rows p) (has_base p) (source_lines p A) (source_lines p B) (source_lines p C)"

text \<open>The blocks of a built plan select only sources that exist.\<close>

lemma classify_two_input_no_c: "C \<notin> set (sources (rd_selection (classify_row False r)))"
  by (auto simp: classify_row_def classify_two_input_def resolved_row_def conflict_row_def selection_new_def
      selection_from_source_def split: option.splits)

lemma built_blocks_ok:
  assumes "mp_blocks p = build_blocks (mp_rows p) (has_base p) al bl cl"
  shows "list_all (block_ok p) (mp_blocks p)"
  unfolding list_all_iff
proof
  fix b
  assume "b \<in> set (mp_blocks p)"
  then have b: "b \<in> set (build_blocks (mp_rows p) (has_base p) al bl cl)"
    by (simp add: assms)
  have "rng_contains (mb_rows b) (rng_start (mb_rows b))"
    using tiles_in [OF build_blocks_tiles [of "mp_rows p" "has_base p" al bl cl], of "mb_rows b"] b
    by (auto simp: rng_contains_def)
  then have "mb_selection b = rd_selection (classify_row (has_base p) (mp_rows p ! rng_start (mb_rows b)))"
    using build_blocks_decision(2) [OF b] build_blocks_decision(5) [OF b] by metis
  then show "block_ok p b"
    using classify_two_input_no_c [of "mp_rows p ! rng_start (mb_rows b)"]
    by (cases "has_base p") (auto simp: block_ok_def source_text_None)
qed

lemma plan_complete_ok:
  assumes "plan_complete p" "mp_unresolved_blocks p = indices_where (\<lambda>b. \<not> block_is_resolved b) (mp_blocks p)"
  shows "plan_ok p"
  using assms built_blocks_ok [of p "source_lines p A" "source_lines p B" "source_lines p C"]
    build_blocks_tiles [of "mp_rows p" "has_base p" "source_lines p A" "source_lines p B" "source_lines p C"]
  by (simp add: plan_ok_def plan_complete_def)

text \<open>A plan assembled from complete rows.\<close>

lemma assembled_plan:
  assumes "plan_rows three_way a_text b_text c_text options (entries als) = Some rows"
    and "rows_ok (lines a_text) (lines b_text) (lines c_text) rows" "\<forall>r\<in>set rows. three_way \<longrightarrow> row_nonempty r"
    and "(a_text, b_text, c_text, three_way) = (case base of
            Some base \<Rightarrow> (base, local, remote, True) | None \<Rightarrow> (local, remote, [], False))"
  obtains p where "build_merge_plan_with_alignments base local remote options als = Some p" "plan_ok p" "plan_complete p"
    "mp_base p = base" "mp_local p = local" "mp_remote p = remote" "mp_rows p = rows"
    "mp_line_ending p = detect_line_ending base local remote"
proof -
  let ?p = "\<lparr>mp_base = base, mp_local = local, mp_remote = remote, mp_rows = rows,
    mp_blocks = build_blocks rows three_way (lines a_text) (lines b_text) (lines c_text),
    mp_unresolved_blocks = indices_where (\<lambda>b. \<not> block_is_resolved b)
      (build_blocks rows three_way (lines a_text) (lines b_text) (lines c_text)),
    mp_line_ending = detect_line_ending base local remote\<rparr>"
  have tw: "has_base ?p = three_way"
    using assms(4) by (auto simp: has_base_def split: option.splits)
  have src: "source_lines ?p A = lines a_text" "source_lines ?p B = lines b_text" "source_lines ?p C = lines c_text"
    using assms(4) by (cases base; simp add: source_lines_def has_base_def lines_Nil)+
  have "plan_complete ?p"
    unfolding plan_complete_def src tw using assms(2,3) by simp
  moreover have "build_merge_plan_with_alignments base local remote options als = Some ?p"
    unfolding build_merge_plan_with_alignments_def assms(4) [symmetric] by (simp add: assms(1) Let_def)
  ultimately show ?thesis
    using that [of ?p] plan_complete_ok [of ?p] by simp
qed

lemma build_plan_ok:
  obtains p where "build_merge_plan_with_optional_base base local remote options = Some p" "plan_ok p" "plan_complete p"
    "mp_base p = base" "mp_local p = local" "mp_remote p = remote"
    "mp_line_ending p = detect_line_ending base local remote"
proof -
  obtain a_text b_text c_text three_way where t: "(a_text, b_text, c_text, three_way) = (case base of
      Some base \<Rightarrow> (base, local, remote, True) | None \<Rightarrow> (local, remote, [], False))"
    by (metis prod_cases4)
  have "\<not> three_way \<Longrightarrow> c_text = []"
    using t by (auto split: option.splits)
  then obtain rows where rows: "plan_rows three_way a_text b_text c_text options [] = Some rows"
    "rows_ok (split_lines a_text) (split_lines b_text) (split_lines c_text) rows" "\<forall>r\<in>set rows. three_way \<longrightarrow> row_nonempty r"
    by (rule plan_rows_ok)
  obtain p where "build_merge_plan_with_alignments base local remote options alignments_new = Some p" "plan_ok p" "plan_complete p"
    "mp_base p = base" "mp_local p = local" "mp_remote p = remote" "mp_rows p = rows"
    "mp_line_ending p = detect_line_ending base local remote"
    by (rule assembled_plan [where three_way = three_way and a_text = a_text and b_text = b_text and c_text = c_text
          and options = options and als = alignments_new and rows = rows and base = base and local = local and remote = remote])
      (use rows t in \<open>simp_all add: alignments_new_def\<close>)
  then show ?thesis
    using that [of p] by (simp add: build_merge_plan_with_optional_base_def)
qed

lemma plan_exists: "\<exists>p. build_merge_plan_with_optional_base base local remote options = Some p"
  by (rule build_plan_ok [of base local remote options]) blast

lemma built_plan:
  assumes "build_merge_plan_with_optional_base base local remote options = Some p"
  shows "plan_ok p" "plan_complete p" "mp_base p = base" "mp_local p = local" "mp_remote p = remote"
    "mp_line_ending p = detect_line_ending base local remote"
  using build_plan_ok [of base local remote options thesis for thesis] assms
  by (metis build_plan_ok option.inject)+

text \<open>Complete rows mention every line once, so the blocks partition every input.\<close>

lemma block_lines_concat:
  assumes "tiles (map mb_rows bs) i (length (mp_rows p))"
  shows "concat (map (\<lambda>b. block_source_lines p b s) bs) =
    filter_map (\<lambda>r. Option.bind (row_line r s) (nth_opt (source_lines p s))) (drop i (mp_rows p))"
  using assms
proof (induction bs arbitrary: i)
  case (Cons b bs)
  then have t: "rng_start (mb_rows b) = i" "tiles (map mb_rows bs) (rng_end (mb_rows b)) (length (mp_rows p))" "i < rng_end (mb_rows b)"
    by auto
  have "drop i (mp_rows p) = slice (mp_rows p) i (rng_end (mb_rows b)) @ drop (rng_end (mb_rows b)) (mp_rows p)"
    using t(3) by (simp add: slice_append_drop)
  then show ?case
    using Cons.IH [OF t(2)] t(1) by (simp add: block_source_lines_def block_slice_def)
qed simp

lemma filter_map_bind_column:
  "filter_map (\<lambda>r. Option.bind (row_line r s) f) rows = filter_map f (column s rows)"
  by (induction rows) (auto simp: column_def split: option.splits)

lemma filter_map_nth_upt: "filter_map (nth_opt xs) [0..<length xs] = xs"
  by (subst filter_map_Some [where g = "(!) xs"]) (auto simp: map_nth)

lemma complete_lines:
  assumes "plan_complete p"
  shows "filter_map (\<lambda>r. Option.bind (row_line r s) (nth_opt (source_lines p s))) (mp_rows p) = source_lines p s"
proof -
  have "column s (mp_rows p) = [0..<length (source_lines p s)]"
    using rows_ok_column [of "source_lines p A" "source_lines p B" "source_lines p C" "mp_rows p" s] assms
    by (cases s) (auto simp: plan_complete_def source_lines3_def)
  then show ?thesis
    by (simp add: filter_map_bind_column filter_map_nth_upt)
qed

section \<open>What a row decision means\<close>

text \<open>The text of a source in a row, and the rule of a three-way merge for one cell.\<close>

definition cell :: "merge_plan \<Rightarrow> aligned_row \<Rightarrow> merge_source \<Rightarrow> utext option" where
  "cell p r s = Option.bind (row_line r s) (nth_opt (source_lines p s))"

definition diff3_pick :: "'a \<Rightarrow> 'a \<Rightarrow> 'a \<Rightarrow> 'a option" where
  "diff3_pick a b c = (if a = b then Some c else if a = c then Some b else if b = c then Some b else None)"

lemma pair_metadata_cells:
  assumes "\<forall>k. i = Some k \<longrightarrow> k < length xs" "\<forall>k. j = Some k \<longrightarrow> k < length ys" "i \<noteq> None" "j \<noteq> None"
  shows "fst (pair_metadata i j xs ys) \<longleftrightarrow> Option.bind i (nth_opt xs) = Option.bind j (nth_opt ys)"
  using assms by (auto simp: pair_metadata_def Let_def)

lemma recompute_equal:
  assumes "recompute_row_metadata al bl cl r = r"
  shows "equal_ab r = fst (pair_metadata (row_a r) (row_b r) al bl)"
    "equal_ac r = fst (pair_metadata (row_a r) (row_c r) al cl)"
    "equal_bc r = fst (pair_metadata (row_b r) (row_c r) bl cl)"
  by (subst assms [symmetric], simp add: recompute_row_metadata_def)+

lemma complete_bounds:
  assumes "plan_complete p" "r \<in> set (mp_rows p)" "row_line r s = Some k"
  shows "k < length (source_lines p s)"
proof -
  have "k \<in> set (column s (mp_rows p))"
    using assms(2,3) by (auto simp: column_def set_filter_map)
  moreover have "column s (mp_rows p) = [0..<length (source_lines p s)]"
    using rows_ok_column [of "source_lines p A" "source_lines p B" "source_lines p C" "mp_rows p" s] assms(1)
    by (cases s) (auto simp: plan_complete_def source_lines3_def)
  ultimately show ?thesis
    by simp
qed

lemma complete_cells:
  assumes "plan_complete p" "r \<in> set (mp_rows p)"
  shows "cell p r s = None \<longleftrightarrow> row_line r s = None"
    "row_a r \<noteq> None \<Longrightarrow> row_b r \<noteq> None \<Longrightarrow> equal_ab r \<longleftrightarrow> cell p r A = cell p r B"
    "row_a r \<noteq> None \<Longrightarrow> row_c r \<noteq> None \<Longrightarrow> equal_ac r \<longleftrightarrow> cell p r A = cell p r C"
    "row_b r \<noteq> None \<Longrightarrow> row_c r \<noteq> None \<Longrightarrow> equal_bc r \<longleftrightarrow> cell p r B = cell p r C"
proof -
  have meta: "recompute_row_metadata (source_lines p A) (source_lines p B) (source_lines p C) r = r"
    using assms by (simp add: plan_complete_def rows_ok_def)
  note bounds = complete_bounds [OF assms]
  show "cell p r s = None \<longleftrightarrow> row_line r s = None"
    using bounds [of s] by (cases "row_line r s") (simp_all add: cell_def)
  have b: "\<forall>k. row_a r = Some k \<longrightarrow> k < length (source_lines p A)" "\<forall>k. row_b r = Some k \<longrightarrow> k < length (source_lines p B)"
    "\<forall>k. row_c r = Some k \<longrightarrow> k < length (source_lines p C)"
    using bounds [of A] bounds [of B] bounds [of C] by simp_all
  show "row_a r \<noteq> None \<Longrightarrow> row_b r \<noteq> None \<Longrightarrow> equal_ab r \<longleftrightarrow> cell p r A = cell p r B"
    using pair_metadata_cells [OF b(1,2)] recompute_equal(1) [OF meta] by (simp add: cell_def)
  show "row_a r \<noteq> None \<Longrightarrow> row_c r \<noteq> None \<Longrightarrow> equal_ac r \<longleftrightarrow> cell p r A = cell p r C"
    using pair_metadata_cells [OF b(1,3)] recompute_equal(2) [OF meta] by (simp add: cell_def)
  show "row_b r \<noteq> None \<Longrightarrow> row_c r \<noteq> None \<Longrightarrow> equal_bc r \<longleftrightarrow> cell p r B = cell p r C"
    using pair_metadata_cells [OF b(2,3)] recompute_equal(3) [OF meta] by (simp add: cell_def)
qed

lemma three_way_decision:
  assumes "plan_complete p" "r \<in> set (mp_rows p)" "row_nonempty r"
  shows "case diff3_pick (cell p r A) (cell p r B) (cell p r C) of
      None \<Rightarrow> rd_conflict (classify_row True r) \<and> rd_selection (classify_row True r) = selection_new
    | Some text \<Rightarrow> \<not> rd_conflict (classify_row True r) \<and>
        (\<exists>s. rd_selection (classify_row True r) = selection_from_source s \<and> cell p r s = text)"
proof -
  note cells = complete_cells [OF assms(1,2)]
  note present = cells(1) [of A] cells(1) [of B] cells(1) [of C]
  note defs = classify_row_def classify_three_way_def resolved_row_def conflict_row_def diff3_pick_def
  show ?thesis
  proof (cases "row_a r"; cases "row_b r"; cases "row_c r")
    fix a b c
    assume "row_a r = Some a" "row_b r = Some b" "row_c r = Some c"
    then show ?thesis
      using cells(2-4) by (auto simp: defs)
  next
    fix a b
    assume "row_a r = Some a" "row_b r = Some b" "row_c r = None"
    then show ?thesis
      using cells(2) present by (auto simp: defs)
  next
    fix a c
    assume "row_a r = Some a" "row_b r = None" "row_c r = Some c"
    then show ?thesis
      using cells(3) present by (auto simp: defs)
  next
    fix b c
    assume "row_a r = None" "row_b r = Some b" "row_c r = Some c"
    then show ?thesis
      using cells(4) present by (auto simp: defs)
  qed (use assms(3) present in \<open>auto simp: defs row_nonempty_def\<close>)
qed

lemma two_way_decision:
  assumes "plan_complete p" "r \<in> set (mp_rows p)" "\<not> has_base p"
  shows "rd_conflict (classify_row False r) \<longleftrightarrow> cell p r A \<noteq> cell p r B \<or> cell p r A = None"
    "rd_selection (classify_row False r) = (if rd_conflict (classify_row False r) then selection_new else selection_from_source A)"
proof -
  note present = complete_cells(1) [OF assms(1,2), of A] complete_cells(1) [OF assms(1,2), of B]
  have "row_a r \<noteq> None \<Longrightarrow> row_b r \<noteq> None \<Longrightarrow> equal_ab r \<longleftrightarrow> cell p r A = cell p r B"
    by (rule complete_cells(2) [OF assms(1,2)])
  then show "rd_conflict (classify_row False r) \<longleftrightarrow> cell p r A \<noteq> cell p r B \<or> cell p r A = None"
    using present by (cases "row_a r"; cases "row_b r"; cases "cell p r A"; cases "cell p r B")
      (simp_all add: classify_row_def classify_two_input_def resolved_row_def conflict_row_def)
  show "rd_selection (classify_row False r) = (if rd_conflict (classify_row False r) then selection_new else selection_from_source A)"
    by (simp add: classify_row_def classify_two_input_def resolved_row_def conflict_row_def split: option.splits)
qed

section \<open>Properties\<close>

lemma blocks_concat:
  assumes "plan_ok q" "same_inputs p q" "plan_complete p"
  shows "concat (map (\<lambda>b. block_source_lines q b s) (mp_blocks q)) = source_lines q s"
proof -
  have src: "source_lines q s = source_lines p s" for s
    using assms(2) by (cases s) (auto simp: same_inputs_def source_lines_def has_base_def)
  have "tiles (map mb_rows (mp_blocks q)) 0 (length (mp_rows q))"
    using assms(1) by (simp add: plan_ok_def)
  from block_lines_concat [OF this, of s] show ?thesis
    using complete_lines [OF assms(3), of s] assms(2) by (simp add: src same_inputs_def)
qed

text \<open>C1: Without manual alignments a plan is always built (no \<open>expect\<close> fails), whatever the inputs and the options; every
  line of every input stands in exactly one row and in order, the blocks partition the rows, and reading one
  source off the blocks in sequence gives back all the lines of that input.\<close>

theorem plan_is_complete:
  "\<exists>p. build_merge_plan_with_optional_base base local remote options = Some p \<and> plan_ok p \<and>
     mp_base p = base \<and> mp_local p = local \<and> mp_remote p = remote \<and>
     (\<forall>s. column s (mp_rows p) = [0..<length (source_lines p s)]) \<and>
     (\<forall>s. concat (map (\<lambda>b. block_source_lines p b s) (mp_blocks p)) = source_lines p s)"
proof -
  obtain p where p: "build_merge_plan_with_optional_base base local remote options = Some p" "plan_ok p" "plan_complete p"
    "mp_base p = base" "mp_local p = local" "mp_remote p = remote"
    "mp_line_ending p = detect_line_ending base local remote"
    by (rule build_plan_ok)
  have "column s (mp_rows p) = [0..<length (source_lines p s)]" for s
    using rows_ok_column [of "source_lines p A" "source_lines p B" "source_lines p C" "mp_rows p" s] p(3)
    by (cases s) (auto simp: plan_complete_def source_lines3_def)
  moreover have "concat (map (\<lambda>b. block_source_lines p b s) (mp_blocks p)) = source_lines p s" for s
    using blocks_concat [OF p(2) _ p(3)] by simp
  ultimately show ?thesis
    using p by blast
qed

text \<open>C4: Every plan reachable from a built one by toggling, replacing and manual decisions, splitting and joining blocks
  and restoring decisions is consistent: its blocks partition the rows, its index lists exactly the open
  blocks, only existing sources are selected, no input changes and no line of any input is lost.\<close>

theorem reachable_plans_consistent:
  assumes "build_merge_plan_with_optional_base base local remote options = Some p" "plan_reachable p q"
  shows "plan_ok q \<and> same_inputs p q \<and>
    (\<forall>s. concat (map (\<lambda>b. block_source_lines q b s) (mp_blocks q)) = source_lines p s)"
proof -
  note p = built_plan [OF assms(1)]
  have q: "plan_ok q" "same_inputs p q"
    using plan_reachable_keeps [OF assms(2) p(1)] by auto
  moreover have "source_lines q s = source_lines p s" for s
    using q(2) by (cases s) (auto simp: same_inputs_def source_lines_def has_base_def)
  ultimately show ?thesis
    using blocks_concat [OF q p(2)] by simp
qed

theorem reachable_plans_consistent_witness:
  "\<exists>p. build_merge_plan_with_optional_base (Some (str ''a'')) (str ''b'') (str ''c'') default_options = Some p \<and>
     plan_ok (fst (plan_set_manual_content (fst (plan_toggle_source p 0 C)) 0 (str ''z'')))"
proof -
  obtain p where p: "build_merge_plan_with_optional_base (Some (str ''a'')) (str ''b'') (str ''c'') default_options = Some p"
    using plan_exists by blast
  have "plan_reachable p (fst (plan_set_manual_content (fst (plan_toggle_source p 0 C)) 0 (str ''z'')))"
    by (rule plan_reachable.more [OF plan_reachable.more [OF plan_reachable.start step_toggle] step_manual])
  from reachable_plans_consistent [OF p this] show ?thesis
    using p by blast
qed

text \<open>C2: The decision of a block is the rule of a three-way merge, row by row: where one contributor agrees with the base the
  block selects a source with the other contributor's text, where both contributors agree it selects their
  text, and otherwise the block is an unresolved conflict. Absent lines count as equal to each other.\<close>

theorem decisions_follow_diff3:
  assumes "build_merge_plan_with_optional_base (Some base) local remote options = Some p"
    and "b \<in> set (mp_blocks p)" "rng_contains (mb_rows b) i" "r = mp_rows p ! i"
  shows "case diff3_pick (cell p r A) (cell p r B) (cell p r C) of
      None \<Rightarrow> mb_original_conflict b \<and> \<not> block_is_resolved b
    | Some text \<Rightarrow> \<not> mb_original_conflict b \<and> (\<exists>s. mb_selection b = selection_from_source s \<and> cell p r s = text)"
proof -
  note p = built_plan [OF assms(1)]
  have tw: "has_base p"
    using p(3) by (simp add: has_base_def)
  have b: "b \<in> set (build_blocks (mp_rows p) True (source_lines p A) (source_lines p B) (source_lines p C))"
    using assms(2) p(2) tw by (simp add: plan_complete_def)
  have "rng_end (mb_rows b) \<le> length (mp_rows p)"
    using tiles_in [of "map mb_rows (mp_blocks p)" 0 "length (mp_rows p)" "mb_rows b"] p(1) assms(2)
    by (auto simp: plan_ok_def)
  then have r: "r \<in> set (mp_rows p)"
    using assms(3,4) by (simp add: rng_contains_def)
  then have "row_nonempty r"
    using p(2) tw by (simp add: plan_complete_def)
  note decision = three_way_decision [OF p(2) r this]
  have "mb_original_conflict b = rd_conflict (classify_row True r)" "mb_selection b = rd_selection (classify_row True r)"
    "mb_manual_content b = None"
    using build_blocks_decision(5) [OF b assms(3)] build_blocks_decision(1,2) [OF b] assms(4) by auto
  then show ?thesis
    using decision
    by (cases "diff3_pick (cell p r A) (cell p r B) (cell p r C)")
      (simp_all add: block_is_resolved_def selection_is_empty_def selection_new_def)
qed

theorem decisions_follow_diff3_witness:
  "\<exists>p. build_merge_plan_with_optional_base (Some (str ''a'')) (str ''b'') (str ''c'') default_options = Some p \<and>
     (\<exists>b\<in>set (mp_blocks p). let r = mp_rows p ! rng_start (mb_rows b) in
       mb_original_conflict b \<longleftrightarrow> diff3_pick (cell p r A) (cell p r B) (cell p r C) = None)"
proof -
  obtain p where p: "build_merge_plan_with_optional_base (Some (str ''a'')) (str ''b'') (str ''c'') default_options = Some p"
    using plan_exists by blast
  note ok = built_plan [OF p]
  have "concat (map (\<lambda>b. block_source_lines p b A) (mp_blocks p)) \<noteq> []"
    unfolding blocks_concat [OF ok(1) same_inputs_refl ok(2)] using ok(3)
    by (simp add: source_lines_def has_base_def lines_def str_def strip_line_end_def)
  then obtain b where b: "b \<in> set (mp_blocks p)"
    by (cases "mp_blocks p") auto
  have "rng_contains (mb_rows b) (rng_start (mb_rows b))"
    using tiles_in [of "map mb_rows (mp_blocks p)" 0 "length (mp_rows p)" "mb_rows b"] ok(1) b
    by (auto simp: plan_ok_def rng_contains_def)
  note decision = decisions_follow_diff3 [OF p b this refl]
  show ?thesis
    by (intro exI [of _ p] conjI p bexI [of _ b] b)
      (use decision in \<open>simp add: Let_def split: option.splits\<close>)
qed

lemma complete_anchors: "plan_complete p \<Longrightarrow> anchors_have_base (mp_rows p)"
proof -
  assume p: "plan_complete p"
  have "row_a r \<noteq> None" if r: "r \<in> set (mp_rows p)" "three_way_anchor r" for r
  proof -
    have "recompute_row_metadata (source_lines p A) (source_lines p B) (source_lines p C) r = r"
      using p r(1) by (simp add: plan_complete_def rows_ok_def)
    note eq = recompute_equal(1) [OF this]
    have "fst (pair_metadata (row_a r) (row_b r) (source_lines p A) (source_lines p B))"
      using r(2) unfolding three_way_anchor_def eq by blast
    then show ?thesis
      by (cases "row_a r") (simp_all add: pair_metadata_def)
  qed
  then show ?thesis
    by (simp add: anchors_have_base_def list_all_iff)
qed

text \<open>The two tables that compute the ancestor range of all blocks in one forward and one backward pass agree with the
  per-block scans, in every plan reachable from a built one.\<close>

lemma ancestor_tables_agree:
  assumes "build_merge_plan_with_optional_base base local remote options = Some p" "plan_reachable p q"
  shows "block_ancestor_ranges q = map (block_ancestor_range q) (mp_blocks q)"
proof -
  note p = built_plan [OF assms(1)]
  have q: "plan_ok q" "same_inputs p q"
    using plan_reachable_keeps [OF assms(2) p(1)] by auto
  moreover have "anchors_have_base (mp_rows q)"
    using complete_anchors [OF p(2)] q(2) by (simp add: same_inputs_def)
  ultimately show ?thesis
    by (intro ancestor_tables)
qed

theorem ancestor_tables_agree_witness:
  "\<exists>p. build_merge_plan_with_optional_base (Some (str ''a'')) (str ''b'') (str ''c'') default_options = Some p \<and>
     block_ancestor_ranges p = map (block_ancestor_range p) (mp_blocks p)"
proof -
  obtain p where p: "build_merge_plan_with_optional_base (Some (str ''a'')) (str ''b'') (str ''c'') default_options = Some p"
    using plan_exists by blast
  show ?thesis
    by (rule exI [of _ p], intro conjI p ancestor_tables_agree [OF p plan_reachable.start])
qed

text \<open>In a fresh plan the open blocks are exactly the original conflicts, each of them a change, and every other block
  already carries its automatic selection.\<close>

lemma fresh_plan_open_blocks:
  assumes "build_merge_plan_with_optional_base base local remote options = Some p"
  shows "mp_unresolved_blocks p = original_conflict_block_indices p \<and>
    set (mp_unresolved_blocks p) \<subseteq> set (delta_block_indices p) \<and>
    (\<forall>b\<in>set (mp_blocks p). block_reset_to_automatic b = b)"
proof -
  note p = built_plan [OF assms]
  have b: "\<not> block_is_resolved b \<longleftrightarrow> mb_original_conflict b" "\<not> block_is_resolved b \<Longrightarrow> mb_is_delta b"
    "block_reset_to_automatic b = b" if in_plan: "b \<in> set (mp_blocks p)" for b
  proof -
    have built: "b \<in> set (build_blocks (mp_rows p) (has_base p) (source_lines p A) (source_lines p B) (source_lines p C))"
      using in_plan p(2) by (simp add: plan_complete_def)
    note d = build_blocks_decision [OF built]
    have rows: "rng_contains (mb_rows b) (rng_start (mb_rows b))" "rng_start (mb_rows b) < length (mp_rows p)"
      using tiles_in [of "map mb_rows (mp_blocks p)" 0 "length (mp_rows p)" "mb_rows b"] p(1) in_plan
      by (auto simp: plan_ok_def rng_contains_def)
    let ?r = "mp_rows p ! rng_start (mb_rows b)"
    have "rd_selection (classify_row (has_base p) ?r) = selection_new \<longleftrightarrow> rd_conflict (classify_row (has_base p) ?r)"
    proof (cases "has_base p")
      case True
      then have "row_nonempty ?r"
        using p(2) rows(2) by (simp add: plan_complete_def)
      from three_way_decision [OF p(2) nth_mem [OF rows(2)] this] show ?thesis
        using True by (auto simp: selection_new_def selection_from_source_def split: option.splits)
    next
      case False
      then show ?thesis
        using two_way_decision(2) [OF p(2) nth_mem [OF rows(2)] False]
        by (auto simp: selection_new_def selection_from_source_def)
    qed
    then have "sources (mb_selection b) = [] \<longleftrightarrow> mb_original_conflict b"
      using d(2) d(5) [OF rows(1)] by (cases "mb_selection b") (auto simp: selection_new_def)
    then show "\<not> block_is_resolved b \<longleftrightarrow> mb_original_conflict b" "\<not> block_is_resolved b \<Longrightarrow> mb_is_delta b"
      "block_reset_to_automatic b = b"
      using d(1,2,4) by (auto simp: block_is_resolved_def selection_is_empty_def block_reset_to_automatic_def)
  qed
  have "mp_unresolved_blocks p = indices_where (\<lambda>b. \<not> block_is_resolved b) (mp_blocks p)"
    using p(1) by (simp add: plan_ok_def)
  also have "\<dots> = original_conflict_block_indices p"
    unfolding original_conflict_block_indices_def indices_where_def using b(1) by (intro filter_cong refl) simp
  finally show ?thesis
    using b(2,3) p(1) by (auto simp: delta_block_indices_def plan_ok_def)
qed

theorem fresh_plan_open_blocks_witness:
  "\<exists>p. build_merge_plan_with_optional_base None (str ''b'') (str ''c'') default_options = Some p \<and>
     mp_unresolved_blocks p = original_conflict_block_indices p"
  using plan_exists [of None "str ''b''" "str ''c''" default_options] fresh_plan_open_blocks by blast

text \<open>The ids of the blocks of a built plan are pairwise different, because the occurrence counter of each fingerprint
  increases; the counter is a saturating 32-bit number, so the plan must have fewer blocks than that bound.\<close>

theorem block_ids_distinct:
  assumes "build_merge_plan_with_optional_base base local remote options = Some p" "length (mp_blocks p) \<le> u32_max"
  shows "distinct (map mb_id (mp_blocks p))"
  using built_plan(2) [OF assms(1)] assms(2) build_blocks_distinct_ids by (metis plan_complete_def)

theorem block_ids_distinct_witness:
  "\<exists>p. build_merge_plan_with_optional_base (Some []) [] [] default_options = Some p \<and> distinct (map mb_id (mp_blocks p))"
proof -
  obtain p where p: "build_merge_plan_with_optional_base (Some []) [] [] default_options = Some p"
    using plan_exists by blast
  have "mp_rows p = []"
  proof (rule ccontr)
    assume "mp_rows p \<noteq> []"
    then obtain r where r: "r \<in> set (mp_rows p)"
      by (cases "mp_rows p") auto
    note ok = built_plan [OF p]
    have "source_lines p s = []" for s
      using ok(3-5) by (cases s) (auto simp: source_lines_def has_base_def)
    then have "row_line r s = None" for s
      using complete_bounds [OF ok(2) r, of s] by (cases "row_line r s") auto
    then have "\<not> row_nonempty r"
      using \<open>\<And>s. row_line r s = None\<close> [of A] \<open>\<And>s. row_line r s = None\<close> [of B] \<open>\<And>s. row_line r s = None\<close> [of C]
      by (simp add: row_nonempty_def)
    then show False
      using ok(2,3) r by (simp add: plan_complete_def has_base_def)
  qed
  then have "mp_blocks p = []"
    using built_plan(2) [OF p] by (simp add: plan_complete_def build_blocks_def)
  then show ?thesis
    using p block_ids_distinct [OF p] by auto
qed

text \<open>The single walk over two anchor sequences decides whether every exact base anchor of the first alignment is one of
  the second, also when a sequence is not ascending and the walk falls back to a set.\<close>

theorem anchor_subset_test:
  "base_anchor_pairs_subset baseline candidate contributor \<longleftrightarrow>
     set (exact_base_anchor_pairs baseline contributor) \<subseteq> set (exact_base_anchor_pairs candidate contributor)"
  by (rule base_anchor_pairs_subset_iff)

text \<open>C28: Whatever the manual alignments, the optional local/remote pass never loses an exact match with the base that the
  passes against the base found, on either side, and never breaks a manual alignment those passes satisfied.\<close>

theorem contributor_pass_is_safe:
  assumes "base_anchored_list (lines base) (lines local) (lines remote) options (entries als) = Some lst"
    and "build_merge_plan_with_alignments (Some base) local remote options als = Some p"
  shows "set (exact_base_anchor_pairs (into_rows lst) B) \<subseteq> set (exact_base_anchor_pairs (mp_rows p) B) \<and>
    set (exact_base_anchor_pairs (into_rows lst) C) \<subseteq> set (exact_base_anchor_pairs (mp_rows p) C) \<and>
    (alignment_preserves_manual_pins (into_rows lst) (entries als) True \<longrightarrow>
      alignment_preserves_manual_pins (mp_rows p) (entries als) True)"
proof -
  obtain rows where rows: "plan_rows True base local remote options (entries als) = Some rows" "mp_rows p = rows"
    using assms(2) by (auto simp: build_merge_plan_with_alignments_def Let_def split: option.splits)
  have "rows = into_rows lst \<or> contributor_rows (lines base) (lines local) (lines remote) options (entries als) lst = Some rows"
    using rows(1) assms(1)
    by (cases "mo_align_contributors options \<and> base \<noteq> local \<and> base \<noteq> remote \<and> local \<noteq> remote") (auto simp: plan_rows_def)
  then consider "rows = into_rows lst" | "contributor_rows (lines base) (lines local) (lines remote) options (entries als) lst = Some rows"
    by blast
  then show ?thesis
  proof cases
    case 2
    then show ?thesis
      unfolding rows(2)
      by (auto simp: contributor_rows_def Let_def contributor_alignment_preserves_base_anchors_def
          base_anchor_pairs_subset_iff split: option.splits if_splits)
  qed (simp add: rows(2))
qed

theorem contributor_pass_is_safe_witness:
  "\<exists>lst p. base_anchored_list (lines (str ''a'')) (lines (str ''b'')) (lines (str ''c'')) default_options [] = Some lst \<and>
     build_merge_plan_with_alignments (Some (str ''a'')) (str ''b'') (str ''c'') default_options alignments_new = Some p \<and>
     set (exact_base_anchor_pairs (into_rows lst) B) \<subseteq> set (exact_base_anchor_pairs (mp_rows p) B)"
proof -
  obtain lst where lst: "base_anchored_list (lines (str ''a'')) (lines (str ''b'')) (lines (str ''c'')) default_options [] = Some lst"
    using base_anchored_exists by blast
  obtain p where p: "build_merge_plan_with_alignments (Some (str ''a'')) (str ''b'') (str ''c'') default_options alignments_new = Some p"
    using plan_exists [of "Some (str ''a'')" "str ''b''" "str ''c''" default_options]
    by (auto simp: build_merge_plan_with_optional_base_def)
  have "base_anchored_list (lines (str ''a'')) (lines (str ''b'')) (lines (str ''c'')) default_options
      (entries alignments_new) = Some lst"
    using lst by (simp add: alignments_new_def)
  note safe = contributor_pass_is_safe [OF this p]
  show ?thesis
    by (rule exI [of _ lst], rule exI [of _ p], intro conjI lst p conjunct1 [OF safe])
qed

text \<open>C35: With two inputs and any well-formed manual alignments a plan is always built, and it is complete and consistent.
  (With three inputs and manual alignments the passes can fail; see the findings.)\<close>

theorem two_input_plan_with_pins:
  assumes "\<forall>e\<in>set (entries als). alignment_wf e"
  shows "\<exists>p. build_merge_plan_with_alignments None local remote options als = Some p \<and> plan_ok p \<and>
    (\<forall>s. column s (mp_rows p) = [0..<length (source_lines p s)])"
proof -
  let ?al = "lines local" and ?bl = "lines remote"
  let ?lst = "two_input_list ?al ?bl [] False options (entries als)"
  obtain ids where l: "linked ?lst ids"
    and cols: "column A (rows_of ?lst ids) = [0..<length ?al]" "column B (rows_of ?lst ids) = [0..<length ?bl]"
      "column C (rows_of ?lst ids) = []" "\<forall>r\<in>set (rows_of ?lst ids). recompute_row_metadata ?al ?bl [] r = r"
    by (rule two_input_rows [OF assms, of ?al ?bl "[]" False options])
  have rows: "plan_rows False local remote [] options (entries als) = Some (into_rows ?lst)" "rows_ok ?al ?bl (lines []) (into_rows ?lst)"
    using cols into_rows_linked [OF l] by (auto simp: plan_rows_def rows_ok_def)
  obtain p where p: "build_merge_plan_with_alignments None local remote options als = Some p" "plan_ok p" "plan_complete p"
    "mp_base p = None" "mp_local p = local" "mp_remote p = remote" "mp_rows p = into_rows ?lst"
    "mp_line_ending p = detect_line_ending None local remote"
    by (rule assembled_plan [OF rows, where base = None and local = local and remote = remote]) simp_all
  have "column s (mp_rows p) = [0..<length (source_lines p s)]" for s
    using rows_ok_column [of "source_lines p A" "source_lines p B" "source_lines p C" "mp_rows p" s] p(3)
    by (cases s) (auto simp: plan_complete_def source_lines3_def)
  then show ?thesis
    using p by blast
qed

theorem two_input_plan_with_pins_witness:
  "\<exists>p. build_merge_plan_with_alignments None (str ''a'') (str ''b'') default_options
     \<lparr>entries = [manual_alignment_two_input (0, 1) (0, 1)]\<rparr> = Some p \<and> plan_ok p"
  using two_input_plan_with_pins [of "\<lparr>entries = [manual_alignment_two_input (0, 1) (0, 1)]\<rparr>" "str ''a''" "str ''b''" default_options]
  by (auto simp: manual_alignment_two_input_def)

end
