(* ===== verification/Subchunks.thy ===== *)
theory Subchunks
  imports Strings Myers_Correct Plan
begin

text \<open>
  Subchunk splitting (\<open>conflict_session/subchunk.rs\<close>): a conflict block that has a base is merged
  again line by line. Blocks of equal line counts are compared position by position
  (\<open>per_line_merge\<close>); otherwise the hunks of the two Myers diffs are swept together
  (\<open>merge_line_hunks\<close>). Both are shown to be the three-way merge of one partition of the three sides,
  which is specified without the loops: by the longest runs of positions with the same equalities, and
  by the connected components of the hunks that touch.
\<close>

section \<open>Subchunks\<close>

datatype subchunk = Sub_Resolved utext | Sub_Conflict utext utext utext

fun is_resolved_subchunk :: "subchunk \<Rightarrow> bool" where
  "is_resolved_subchunk (Sub_Resolved t) = True"
| "is_resolved_subchunk (Sub_Conflict b o' t) = False"

definition subchunk_max_lines :: nat where "subchunk_max_lines = 500"

definition lines_to_text :: "utext list \<Rightarrow> utext \<Rightarrow> utext" where
  "lines_to_text ls le = (if ls = [] then [] else concat (map (\<lambda>l. l @ le) ls))"

section \<open>Position by position\<close>

text \<open>
  The three slices have one length, so the index \<open>i\<close> runs over their triples. Each inner loop is the
  longest run of triples of its class.
\<close>

type_synonym line_triple = "utext \<times> utext \<times> utext"

abbreviation base_side :: "'a \<times> 'a \<times> 'a \<Rightarrow> 'a" where "base_side z \<equiv> fst z"
abbreviation ours_side :: "'a \<times> 'a \<times> 'a \<Rightarrow> 'a" where "ours_side z \<equiv> fst (snd z)"
abbreviation theirs_side :: "'a \<times> 'a \<times> 'a \<Rightarrow> 'a" where "theirs_side z \<equiv> snd (snd z)"

definition unchanged_line :: "line_triple \<Rightarrow> bool" where
  "unchanged_line z \<longleftrightarrow> base_side z = ours_side z \<and> base_side z = theirs_side z"

definition only_ours_line :: "line_triple \<Rightarrow> bool" where
  "only_ours_line z \<longleftrightarrow> base_side z \<noteq> ours_side z \<and> base_side z = theirs_side z"

definition only_theirs_line :: "line_triple \<Rightarrow> bool" where
  "only_theirs_line z \<longleftrightarrow> base_side z = ours_side z \<and> base_side z \<noteq> theirs_side z"

definition same_change_line :: "line_triple \<Rightarrow> bool" where
  "same_change_line z \<longleftrightarrow> base_side z \<noteq> ours_side z \<and> ours_side z = theirs_side z"

definition conflict_line :: "line_triple \<Rightarrow> bool" where
  "conflict_line z \<longleftrightarrow> base_side z \<noteq> ours_side z \<and> base_side z \<noteq> theirs_side z \<and> ours_side z \<noteq> theirs_side z"

function per_line_from :: "utext \<Rightarrow> line_triple list \<Rightarrow> subchunk list" where
  "per_line_from le [] = []"
| "per_line_from le (z # zs) =
     (if unchanged_line z then
        Sub_Resolved (lines_to_text (map base_side (takeWhile unchanged_line (z # zs))) le)
        # per_line_from le (dropWhile unchanged_line (z # zs))
      else if only_ours_line z then
        Sub_Resolved (lines_to_text (map ours_side (takeWhile only_ours_line (z # zs))) le)
        # per_line_from le (dropWhile only_ours_line (z # zs))
      else if only_theirs_line z then
        Sub_Resolved (lines_to_text (map theirs_side (takeWhile only_theirs_line (z # zs))) le)
        # per_line_from le (dropWhile only_theirs_line (z # zs))
      else if ours_side z = theirs_side z then
        Sub_Resolved (lines_to_text (map ours_side (takeWhile same_change_line (z # zs))) le)
        # per_line_from le (dropWhile same_change_line (z # zs))
      else
        (let run = takeWhile conflict_line (z # zs)
         in Sub_Conflict (lines_to_text (map base_side run) le) (lines_to_text (map ours_side run) le)
              (lines_to_text (map theirs_side run) le)
            # per_line_from le (dropWhile conflict_line (z # zs))))"
  by pat_completeness auto
termination
  by (relation "measure (\<lambda>(le, zs). length zs)")
    (auto simp: le_imp_less_Suc length_dropWhile_le same_change_line_def conflict_line_def
      unchanged_line_def only_ours_line_def only_theirs_line_def)

definition per_line_merge :: "utext list \<Rightarrow> utext list \<Rightarrow> utext list \<Rightarrow> utext \<Rightarrow> subchunk list" where
  "per_line_merge bs os ts le = per_line_from le (zip bs (zip os ts))"

section \<open>Sweeping hunks\<close>

text \<open>The hunk indices \<open>oi\<close> and \<open>ti\<close> are the hunks that remain; a loop returns those it consumed.\<close>

type_synonym line_hunk = "utext diff_hunk"

text \<open>
  The start of the next change. The code stands \<open>usize::MAX\<close> in for the start of a side with no hunk
  left; a start is a position in a slice and never that large.
\<close>

fun change_start :: "line_hunk list \<Rightarrow> line_hunk list \<Rightarrow> nat" where
  "change_start (h # os) (k # ts) = min (base_start h) (base_start k)"
| "change_start (h # os) [] = base_start h"
| "change_start [] (k # ts) = base_start k"
| "change_start [] [] = usize_max"

fun consume_at :: "nat \<Rightarrow> nat \<Rightarrow> line_hunk list \<Rightarrow> line_hunk list \<times> nat \<times> line_hunk list" where
  "consume_at start e [] = ([], e, [])"
| "consume_at start e (h # hs) =
     (if base_start h = start then
        (case consume_at start (max e (base_end h)) hs of (taken, e', rest) \<Rightarrow> (h # taken, e', rest))
      else ([], e, h # hs))"

fun consume_below :: "nat \<Rightarrow> line_hunk list \<Rightarrow> line_hunk list \<times> nat \<times> line_hunk list" where
  "consume_below e [] = ([], e, [])"
| "consume_below e (h # hs) =
     (if base_start h < e then
        (case consume_below (max e (base_end h)) hs of (taken, e', rest) \<Rightarrow> (h # taken, e', rest))
      else ([], e, h # hs))"

lemma consume_at_split: "consume_at s e hs = (taken, e', rest) \<Longrightarrow> hs = taken @ rest"
  by (induction hs arbitrary: e taken) (auto split: if_splits prod.splits)

lemma consume_below_split: "consume_below e hs = (taken, e', rest) \<Longrightarrow> hs = taken @ rest"
  by (induction hs arbitrary: e taken) (auto split: if_splits prod.splits)

function expand_region ::
  "nat \<Rightarrow> line_hunk list \<Rightarrow> line_hunk list \<Rightarrow>
    line_hunk list \<times> line_hunk list \<times> nat \<times> line_hunk list \<times> line_hunk list" where
  "expand_region e os ts =
     (case consume_below e os of (o1, e1, os') \<Rightarrow>
      case consume_below e1 ts of (t1, e2, ts') \<Rightarrow>
        if o1 = [] \<and> t1 = [] then ([], [], e2, os', ts')
        else (case expand_region e2 os' ts' of (o2, t2, e3, os'', ts'') \<Rightarrow> (o1 @ o2, t1 @ t2, e3, os'', ts'')))"
  by pat_completeness auto
termination
  by (relation "measure (\<lambda>(e, os, ts). length os + length ts)")
    (auto dest!: consume_below_split [OF sym])

declare expand_region.simps [simp del]

text \<open>One change region: the initial hunks at \<open>change_start\<close>, then all that overlap it.\<close>

definition change_region ::
  "nat \<Rightarrow> nat \<Rightarrow> line_hunk list \<Rightarrow> line_hunk list \<Rightarrow>
    line_hunk list \<times> line_hunk list \<times> nat \<times> line_hunk list \<times> line_hunk list" where
  "change_region start pos os ts =
     (case consume_at start pos os of (o1, e1, os1) \<Rightarrow>
      case consume_at start e1 ts of (t1, e2, ts1) \<Rightarrow>
      case expand_region e2 os1 ts1 of (o2, t2, e3, os2, ts2) \<Rightarrow> (o1 @ o2, t1 @ t2, e3, os2, ts2))"

definition side_content :: "utext list \<Rightarrow> nat \<Rightarrow> nat \<Rightarrow> line_hunk list \<Rightarrow> utext \<Rightarrow> utext" where
  "side_content base_lines range_start range_end hunks le =
     lines_to_text (reconstruct_side_with base_lines (range_start, range_end) hunks) le"

definition region_subchunks ::
  "utext list \<Rightarrow> utext \<Rightarrow> nat \<Rightarrow> nat \<Rightarrow> line_hunk list \<Rightarrow> line_hunk list \<Rightarrow> subchunk list" where
  "region_subchunks base_lines le pos e os ts =
     (if os \<noteq> [] \<and> ts \<noteq> [] then
        (let base_text = lines_to_text (slice base_lines pos (min e (length base_lines))) le;
             ours_text = side_content base_lines pos e os le;
             theirs_text = side_content base_lines pos e ts le
         in if ours_text = theirs_text then [Sub_Resolved ours_text]
            else
              (let sub_base = split_lines base_text;
                   sub_ours = split_lines ours_text;
                   sub_theirs = split_lines theirs_text
               in if length sub_base = length sub_ours \<and> length sub_base = length sub_theirs
                  then per_line_merge sub_base sub_ours sub_theirs le
                  else [Sub_Conflict base_text ours_text theirs_text]))
      else if os \<noteq> [] then [Sub_Resolved (side_content base_lines pos e os le)]
      else if ts \<noteq> [] then [Sub_Resolved (side_content base_lines pos e ts le)]
      else [])"

section \<open>Progress\<close>

lemma expand_region_split:
  "expand_region e os ts = (o1, t1, e', os', ts') \<Longrightarrow> os = o1 @ os' \<and> ts = t1 @ ts'"
proof (induction e os ts arbitrary: o1 t1 e' os' ts' rule: expand_region.induct)
  case (1 e os ts)
  obtain oa ea oz where o: "consume_below e os = (oa, ea, oz)" by (metis prod_cases3)
  obtain ta eb tz where t: "consume_below ea ts = (ta, eb, tz)" by (metis prod_cases3)
  note s = consume_below_split [OF o] consume_below_split [OF t]
  show ?case
  proof (cases "oa = [] \<and> ta = []")
    case True
    then have "expand_region e os ts = ([], [], eb, oz, tz)"
      by (simp add: expand_region.simps [of e] o t)
    then show ?thesis using 1(2) s True by simp
  next
    case False
    obtain o2 t2 e3 oy ty where x: "expand_region eb oz tz = (o2, t2, e3, oy, ty)"
      by (metis prod_cases5)
    have "oz = o2 @ oy \<and> tz = t2 @ ty"
      using 1(1) [OF o [symmetric] refl t [symmetric] refl False x] .
    moreover have "expand_region e os ts = (oa @ o2, ta @ t2, e3, oy, ty)"
      using False by (auto simp: expand_region.simps [of e] o t x)
    ultimately show ?thesis using 1(2) s by simp
  qed
qed

lemma change_region_split:
  assumes "change_region s pos os ts = (o1, t1, e, os', ts')"
  shows "os = o1 @ os'" "ts = t1 @ ts'"
proof -
  obtain oa ea oz where o: "consume_at s pos os = (oa, ea, oz)" by (metis prod_cases3)
  obtain ta eb tz where t: "consume_at s ea ts = (ta, eb, tz)" by (metis prod_cases3)
  obtain ob tb ec oy ty where x: "expand_region eb oz tz = (ob, tb, ec, oy, ty)" by (metis prod_cases5)
  have "o1 = oa @ ob" "t1 = ta @ tb" "os' = oy" "ts' = ty"
    using assms by (simp_all add: change_region_def o t x)
  then show "os = o1 @ os'" "ts = t1 @ ts'"
    using consume_at_split [OF o] consume_at_split [OF t] expand_region_split [OF x] by simp_all
qed

lemma consume_at_start: "hs \<noteq> [] \<Longrightarrow> base_start (hd hs) = s \<Longrightarrow> consume_at s e hs = (taken, e', rest) \<Longrightarrow> taken \<noteq> []"
  by (cases hs) (auto split: prod.splits)

lemma change_region_progress:
  assumes "change_region (change_start os ts) pos os ts = (o1, t1, e, os', ts')"
    and "os \<noteq> [] \<or> ts \<noteq> []"
  shows "o1 \<noteq> [] \<or> t1 \<noteq> []"
proof -
  from assms(2) have "os \<noteq> [] \<and> base_start (hd os) = change_start os ts \<or>
      ts \<noteq> [] \<and> base_start (hd ts) = change_start os ts"
    by (cases "(os, ts)" rule: change_start.cases) (auto simp: min_def)
  then consider "os \<noteq> []" "base_start (hd os) = change_start os ts"
    | "ts \<noteq> []" "base_start (hd ts) = change_start os ts" by blast
  moreover obtain oa ea oz where o: "consume_at (change_start os ts) pos os = (oa, ea, oz)"
    by (metis prod_cases3)
  moreover obtain ta eb tz where t: "consume_at (change_start os ts) ea ts = (ta, eb, tz)"
    by (metis prod_cases3)
  moreover obtain ob tb ec oy ty where x: "expand_region eb oz tz = (ob, tb, ec, oy, ty)"
    by (metis prod_cases5)
  have "o1 = oa @ ob" "t1 = ta @ tb"
    using assms(1) by (simp_all add: change_region_def o t x)
  ultimately show ?thesis
    by cases (use consume_at_start [OF _ _ o] consume_at_start [OF _ _ t] in auto)
qed

text \<open>The sweep: the context before the change, the region, and on from its end.\<close>

function merge_from ::
  "utext list \<Rightarrow> utext \<Rightarrow> nat \<Rightarrow> line_hunk list \<Rightarrow> line_hunk list \<Rightarrow> subchunk list" where
  "merge_from base_lines le pos os ts =
     (if os = [] \<and> ts = [] then
        (if pos < length base_lines then [Sub_Resolved (lines_to_text (drop pos base_lines) le)] else [])
      else
        (let start = change_start os ts;
             ctx_end = min start (length base_lines);
             has_context = start > pos \<and> pos < length base_lines;
             context = (if has_context then [Sub_Resolved (lines_to_text (slice base_lines pos ctx_end) le)] else []);
             pos' = (if has_context then ctx_end else pos)
         in case change_region start pos' os ts of (o1, t1, e, os', ts') \<Rightarrow>
              context @ region_subchunks base_lines le pos' e o1 t1 @ merge_from base_lines le e os' ts'))"
  by pat_completeness auto
termination
proof (relation "measure (\<lambda>(b, le, pos, os, ts). length os + length ts)", goal_cases)
  case (2 base_lines le pos os ts)
  then show ?case
    using change_region_split [OF sym] change_region_progress [OF sym] by fastforce
qed simp

definition merge_line_hunks ::
  "utext list \<Rightarrow> line_hunk list \<Rightarrow> line_hunk list \<Rightarrow> utext \<Rightarrow> subchunk list" where
  "merge_line_hunks base_lines ours_hunks theirs_hunks le =
     merge_from base_lines le 0 ours_hunks theirs_hunks"

section \<open>Splitting a block\<close>

definition edits_to_line_hunks :: "utext edit list \<Rightarrow> line_hunk list" where
  "edits_to_line_hunks es = edits_to_hunks_with es"

definition split_conflict_into_subchunks :: "utext \<Rightarrow> utext \<Rightarrow> utext \<Rightarrow> subchunk list option" where
  "split_conflict_into_subchunks base ours theirs =
     (if ours = theirs \<or> ours = base \<or> theirs = base then None
      else
        (let bs = split_lines base; os = split_lines ours; ts = split_lines theirs
         in if length bs > subchunk_max_lines \<or> length os > subchunk_max_lines \<or>
               length ts > subchunk_max_lines then None
            else
              (let le = detect_line_ending_from_texts [base, ours, theirs] DominantCrlfVsLf;
                   subchunks =
                     (if length bs = length os \<and> length bs = length ts then per_line_merge bs os ts le
                      else merge_line_hunks bs (edits_to_line_hunks (myers_edits bs os))
                             (edits_to_line_hunks (myers_edits bs ts)) le)
               in if \<exists>c\<in>set subchunks. is_resolved_subchunk c then Some subchunks else None)))"

section \<open>What a splitting is\<close>

text \<open>
  A part of a splitting holds the lines of the three sides. It is merged as a whole: a part where at
  most one side changed, or both the same way, is resolved to the changed side, and any other part is
  a conflict.
\<close>

definition subchunk_of :: "utext \<Rightarrow> utext list \<times> utext list \<times> utext list \<Rightarrow> subchunk" where
  "subchunk_of le z =
     (case diff3_pick (base_side z) (ours_side z) (theirs_side z) of
        Some m \<Rightarrow> Sub_Resolved (lines_to_text m le)
      | None \<Rightarrow> Sub_Conflict (lines_to_text (base_side z) le) (lines_to_text (ours_side z) le)
                  (lines_to_text (theirs_side z) le))"

lemma subchunk_of_resolved: "diff3_pick b o' t = Some m \<Longrightarrow> subchunk_of le (b, o', t) = Sub_Resolved (lines_to_text m le)"
  by (simp add: subchunk_of_def)

lemma subchunk_of_conflict:
  "diff3_pick b o' t = None \<Longrightarrow>
    subchunk_of le (b, o', t) = Sub_Conflict (lines_to_text b le) (lines_to_text o' le) (lines_to_text t le)"
  by (simp add: subchunk_of_def)

lemma diff3_pick_simps [simp]:
  "diff3_pick b b t = Some t" "diff3_pick b o' b = Some o'" "diff3_pick b o' o' = Some o'"
  by (auto simp: diff3_pick_def)

text \<open>
  Sides of one length are parted into the longest runs of positions at which the same of the three
  lines are equal.
\<close>

function group_runs :: "('a \<Rightarrow> 'k) \<Rightarrow> 'a list \<Rightarrow> 'a list list" where
  "group_runs key [] = []"
| "group_runs key (x # xs) =
     (x # takeWhile (\<lambda>y. key y = key x) xs) # group_runs key (dropWhile (\<lambda>y. key y = key x) xs)"
  by pat_completeness auto
termination
  by (relation "measure (length \<circ> snd)") (auto simp: length_dropWhile_le less_Suc_eq_le)

lemma group_runs_maximal:
  "concat (group_runs key xs) = xs \<and> (\<forall>g\<in>set (group_runs key xs). g \<noteq> [] \<and> (\<forall>y\<in>set g. key y = key (hd g))) \<and>
    successively (\<lambda>g g'. key (hd g) \<noteq> key (hd g')) (group_runs key xs)"
proof (induction key xs rule: group_runs.induct)
  case (2 key x xs)
  let ?run = "takeWhile (\<lambda>y. key y = key x) xs" and ?rest = "dropWhile (\<lambda>y. key y = key x) xs"
  have next_key: "group_runs key ?rest = [] \<or> key (hd (hd (group_runs key ?rest))) \<noteq> key x"
  proof (cases "?rest = []")
    case True
    show ?thesis unfolding True by simp
  next
    case False
    then obtain y ys where "?rest = y # ys" "key y \<noteq> key x"
      using hd_dropWhile [OF False] by (metis list.collapse)
    then show ?thesis by simp
  qed
  have run: "\<forall>y\<in>set ?run. key y = key x"
    by (auto dest: set_takeWhileD)
  show ?case
  proof (intro conjI ballI)
    fix g
    assume "g \<in> set (group_runs key (x # xs))"
    then consider "g = x # ?run" | "g \<in> set (group_runs key ?rest)" by auto
    then show "g \<noteq> []"
      by cases (use 2 in blast)+
    fix y
    assume "y \<in> set g"
    with \<open>g \<in> set (group_runs key (x # xs))\<close> show "key y = key (hd g)"
      using 2 run by (metis group_runs.simps(2) list.sel(1) set_ConsD)
  next
    show "successively (\<lambda>g g'. key (hd g) \<noteq> key (hd g')) (group_runs key (x # xs))"
      using 2 next_key unfolding group_runs.simps successively_Cons list.sel by metis
  qed (use 2 [THEN conjunct1] in simp)
qed simp

definition equality_pattern :: "line_triple \<Rightarrow> bool \<times> bool \<times> bool" where
  "equality_pattern z = (base_side z = ours_side z, base_side z = theirs_side z, ours_side z = theirs_side z)"

definition part_of :: "line_triple list \<Rightarrow> utext list \<times> utext list \<times> utext list" where
  "part_of zs = (map base_side zs, map ours_side zs, map theirs_side zs)"

definition position_parts ::
  "utext list \<times> utext list \<times> utext list \<Rightarrow> (utext list \<times> utext list \<times> utext list) list" where
  "position_parts z =
     map part_of (group_runs equality_pattern (zip (base_side z) (zip (ours_side z) (theirs_side z))))"

text \<open>The sides of a list of parts.\<close>

definition parts_sides ::
  "(utext list \<times> utext list \<times> utext list) list \<Rightarrow> utext list \<times> utext list \<times> utext list" where
  "parts_sides ps = (concat (map base_side ps), concat (map ours_side ps), concat (map theirs_side ps))"

lemma parts_sides_simps [simp]:
  "parts_sides [] = ([], [], [])" "parts_sides [z] = z"
  "parts_sides (ps @ qs) = (case parts_sides ps of (b, o', t) \<Rightarrow> case parts_sides qs of
     (b', o'', t') \<Rightarrow> (b @ b', o' @ o'', t @ t'))"
  by (simp_all add: parts_sides_def)

lemma position_parts_sides:
  assumes "length b = length o'" "length b = length t"
  shows "parts_sides (position_parts (b, o', t)) = (b, o', t)"
proof -
  let ?zs = "zip b (zip o' t)"
  have "concat (map (\<lambda>g. map f g) (group_runs equality_pattern ?zs)) = map f ?zs" for f :: "line_triple \<Rightarrow> utext"
    using group_runs_maximal [of equality_pattern ?zs] by (simp flip: map_concat)
  moreover have "map base_side ?zs = b" "map ours_side ?zs = o'" "map theirs_side ?zs = t"
    using assms by (auto intro: nth_equalityI)
  ultimately show ?thesis
    by (simp add: parts_sides_def position_parts_def part_of_def comp_def)
qed

text \<open>Each of the five loops of the position-wise merge takes one such run.\<close>

lemma run_of_class:
  assumes "P z" "\<And>y. P y \<longleftrightarrow> equality_pattern y = equality_pattern z"
  shows "takeWhile P (z # zs) = z # takeWhile (\<lambda>y. equality_pattern y = equality_pattern z) zs"
    "dropWhile P (z # zs) = dropWhile (\<lambda>y. equality_pattern y = equality_pattern z) zs"
proof -
  have "P = (\<lambda>y. equality_pattern y = equality_pattern z)"
    using assms(2) by blast
  then show "takeWhile P (z # zs) = z # takeWhile (\<lambda>y. equality_pattern y = equality_pattern z) zs"
    "dropWhile P (z # zs) = dropWhile (\<lambda>y. equality_pattern y = equality_pattern z) zs"
    by simp_all
qed

lemmas line_class_defs = unchanged_line_def only_ours_line_def only_theirs_line_def same_change_line_def
  conflict_line_def

lemma line_classes:
  "unchanged_line z \<longleftrightarrow> equality_pattern z = (True, True, True)"
  "only_ours_line z \<longleftrightarrow> equality_pattern z = (False, True, False)"
  "only_theirs_line z \<longleftrightarrow> equality_pattern z = (True, False, False)"
  "same_change_line z \<longleftrightarrow> equality_pattern z = (False, False, True)"
  "conflict_line z \<longleftrightarrow> equality_pattern z = (False, False, False)"
  by (cases z; auto simp: equality_pattern_def line_class_defs)+

lemma line_class_pattern:
  "unchanged_line z \<Longrightarrow> unchanged_line y \<longleftrightarrow> equality_pattern y = equality_pattern z"
  "only_ours_line z \<Longrightarrow> only_ours_line y \<longleftrightarrow> equality_pattern y = equality_pattern z"
  "only_theirs_line z \<Longrightarrow> only_theirs_line y \<longleftrightarrow> equality_pattern y = equality_pattern z"
  "same_change_line z \<Longrightarrow> same_change_line y \<longleftrightarrow> equality_pattern y = equality_pattern z"
  "conflict_line z \<Longrightarrow> conflict_line y \<longleftrightarrow> equality_pattern y = equality_pattern z"
  by (simp_all only: line_classes)

lemma run_all: "x \<in> set (takeWhile P zs) \<Longrightarrow> P x"
  by (rule conjunct2 [OF set_takeWhileD])

lemma run_subchunk:
  "subchunk_of le (part_of (takeWhile unchanged_line zs))
    = Sub_Resolved (lines_to_text (map base_side (takeWhile unchanged_line zs)) le)"
  "subchunk_of le (part_of (takeWhile only_ours_line zs))
    = Sub_Resolved (lines_to_text (map ours_side (takeWhile only_ours_line zs)) le)"
  "subchunk_of le (part_of (takeWhile only_theirs_line zs))
    = Sub_Resolved (lines_to_text (map theirs_side (takeWhile only_theirs_line zs)) le)"
  "subchunk_of le (part_of (takeWhile same_change_line zs))
    = Sub_Resolved (lines_to_text (map ours_side (takeWhile same_change_line zs)) le)"
proof -
  have eqs: "map f (takeWhile P zs) = map g (takeWhile P zs)" if "\<And>x. P x \<Longrightarrow> f x = g x"
    for P and f g :: "line_triple \<Rightarrow> utext"
    using that by (intro map_cong refl) (blast dest: run_all)
  have u: "map ours_side (takeWhile unchanged_line zs) = map base_side (takeWhile unchanged_line zs)"
    "map theirs_side (takeWhile unchanged_line zs) = map base_side (takeWhile unchanged_line zs)"
    by (rule eqs; auto simp: unchanged_line_def)+
  have o': "map theirs_side (takeWhile only_ours_line zs) = map base_side (takeWhile only_ours_line zs)"
    and t: "map ours_side (takeWhile only_theirs_line zs) = map base_side (takeWhile only_theirs_line zs)"
    and s: "map theirs_side (takeWhile same_change_line zs) = map ours_side (takeWhile same_change_line zs)"
    by (rule eqs; auto simp: line_class_defs)+
  show "subchunk_of le (part_of (takeWhile unchanged_line zs))
      = Sub_Resolved (lines_to_text (map base_side (takeWhile unchanged_line zs)) le)"
    "subchunk_of le (part_of (takeWhile only_ours_line zs))
      = Sub_Resolved (lines_to_text (map ours_side (takeWhile only_ours_line zs)) le)"
    "subchunk_of le (part_of (takeWhile only_theirs_line zs))
      = Sub_Resolved (lines_to_text (map theirs_side (takeWhile only_theirs_line zs)) le)"
    "subchunk_of le (part_of (takeWhile same_change_line zs))
      = Sub_Resolved (lines_to_text (map ours_side (takeWhile same_change_line zs)) le)"
    by (simp_all add: part_of_def subchunk_of_resolved u o' t s)
qed

lemma conflict_run_subchunk:
  assumes "conflict_line z"
  shows "subchunk_of le (part_of (takeWhile conflict_line (z # zs)))
    = (let run = takeWhile conflict_line (z # zs)
       in Sub_Conflict (lines_to_text (map base_side run) le) (lines_to_text (map ours_side run) le)
            (lines_to_text (map theirs_side run) le))"
proof -
  let ?run = "takeWhile conflict_line (z # zs)"
  have "diff3_pick (map base_side ?run) (map ours_side ?run) (map theirs_side ?run) = None"
    using assms by (auto simp: diff3_pick_def conflict_line_def)
  then show ?thesis
    by (simp only: part_of_def subchunk_of_conflict Let_def)
qed

lemma per_line_parts: "per_line_from le zs = map (subchunk_of le) (map part_of (group_runs equality_pattern zs))"
proof (induction le zs rule: per_line_from.induct)
  case (2 le z zs)
  have step: "map (subchunk_of le) (map part_of (group_runs equality_pattern (z # zs)))
      = subchunk_of le (part_of (takeWhile P (z # zs)))
        # map (subchunk_of le) (map part_of (group_runs equality_pattern (dropWhile P (z # zs))))"
    if "P z" "\<And>y. P y \<longleftrightarrow> equality_pattern y = equality_pattern z" for P
    using run_of_class [OF that] by simp
  consider (u) "unchanged_line z" | (o') "\<not> unchanged_line z" "only_ours_line z"
    | (t) "\<not> unchanged_line z" "\<not> only_ours_line z" "only_theirs_line z"
    | (s) "\<not> unchanged_line z" "\<not> only_ours_line z" "\<not> only_theirs_line z" "ours_side z = theirs_side z"
    | (c) "\<not> unchanged_line z" "\<not> only_ours_line z" "\<not> only_theirs_line z" "ours_side z \<noteq> theirs_side z"
    by blast
  then show ?case
  proof cases
    case u
    show ?thesis
      unfolding step [OF u line_class_pattern(1) [OF u]] run_subchunk using 2(1) [OF u] u by simp
  next
    case o'
    show ?thesis
      unfolding step [OF o'(2) line_class_pattern(2) [OF o'(2)]] run_subchunk using 2(2) [OF o'] o' by simp
  next
    case t
    show ?thesis
      unfolding step [OF t(3) line_class_pattern(3) [OF t(3)]] run_subchunk using 2(3) [OF t] t by simp
  next
    case s
    have z: "same_change_line z" using s by (auto simp: line_class_defs)
    show ?thesis
      unfolding step [OF z line_class_pattern(4) [OF z]] run_subchunk using 2(4) [OF s] s by simp
  next
    case c
    have z: "conflict_line z" using c by (auto simp: line_class_defs)
    show ?thesis
      unfolding step [OF z line_class_pattern(5) [OF z]] conflict_run_subchunk [OF z]
      using 2(5) [OF c refl] c by (simp add: Let_def)
  qed
qed simp

lemma per_line_merge_parts: "per_line_merge b o' t le = map (subchunk_of le) (position_parts (b, o', t))"
  by (simp add: per_line_merge_def per_line_parts position_parts_def)

section \<open>Regions of overlapping hunks\<close>

text \<open>
  What the sweep finds, independent of how it goes about it. Two hunks touch when they change a common
  base line, when one inserts inside the lines the other replaces, or when they begin at the same
  place; hunks that merely follow each other do not touch. The regions are the connected components
  of this relation, in order.
\<close>

definition touching :: "'a diff_hunk \<Rightarrow> 'a diff_hunk \<Rightarrow> bool" where
  "touching h k \<longleftrightarrow> base_start h = base_start k \<or> base_start h < base_end k \<and> base_start k < base_end h"

definition touching_in :: "'a diff_hunk set \<Rightarrow> ('a diff_hunk \<times> 'a diff_hunk) set" where
  "touching_in H = {(h, k). h \<in> H \<and> k \<in> H \<and> touching h k}"

definition connected_hunks :: "'a diff_hunk set \<Rightarrow> bool" where
  "connected_hunks H \<longleftrightarrow> H \<noteq> {} \<and> (\<forall>h\<in>H. \<forall>k\<in>H. (h, k) \<in> (touching_in H)\<^sup>*)"

definition lies_before :: "'a diff_hunk set \<Rightarrow> 'a diff_hunk set \<Rightarrow> bool" where
  "lies_before H K \<longleftrightarrow> (\<forall>h\<in>H. \<forall>k\<in>K. base_start h < base_start k \<and> base_end h \<le> base_start k)"

definition region_hunks :: "line_hunk list \<times> line_hunk list \<Rightarrow> line_hunk set" where
  "region_hunks r = set (fst r) \<union> set (snd r)"

definition overlap_regions :: "line_hunk list \<Rightarrow> line_hunk list \<Rightarrow> (line_hunk list \<times> line_hunk list) list \<Rightarrow> bool" where
  "overlap_regions os ts rs \<longleftrightarrow> concat (map fst rs) = os \<and> concat (map snd rs) = ts \<and>
     (\<forall>r\<in>set rs. connected_hunks (region_hunks r)) \<and>
     sorted_wrt (\<lambda>r r'. lies_before (region_hunks r) (region_hunks r')) rs"

lemma lies_before_apart: "lies_before H K \<Longrightarrow> h \<in> H \<Longrightarrow> k \<in> K \<Longrightarrow> \<not> touching h k \<and> \<not> touching k h \<and> h \<noteq> k"
  by (fastforce simp: lies_before_def touching_def)

text \<open>A region is the whole component of each of its hunks, so there is only one way to part the hunks.\<close>

lemma component_closed:
  assumes "(h, k) \<in> (touching_in K)\<^sup>*" "h \<in> H" "K \<subseteq> H \<union> R" "lies_before H R"
  shows "k \<in> H"
  using assms(1,2)
proof (induction rule: rtrancl_induct)
  case (step k k')
  then have "k \<in> H" "k' \<in> H \<union> R" "touching k k'"
    using assms(3) by (auto simp: touching_in_def)
  then show ?case
    using lies_before_apart [OF assms(4)] by blast
qed

lemma overlap_regions_Cons:
  assumes "overlap_regions os ts (r # rs)"
  shows "overlap_regions (concat (map fst rs)) (concat (map snd rs)) rs" "connected_hunks (region_hunks r)"
    "lies_before (region_hunks r) (set (concat (map fst rs)) \<union> set (concat (map snd rs)))"
    "os = fst r @ concat (map fst rs)" "ts = snd r @ concat (map snd rs)"
  using assms by (auto simp: overlap_regions_def lies_before_def region_hunks_def)

lemma first_region_hunks:
  assumes "overlap_regions os ts (r # rs)" "overlap_regions os ts (r' # rs')"
    and "h \<in> region_hunks r" "h \<in> region_hunks r'"
  shows "region_hunks r \<subseteq> region_hunks r'"
proof
  fix k
  assume "k \<in> region_hunks r"
  then have "(h, k) \<in> (touching_in (region_hunks r))\<^sup>*"
    using overlap_regions_Cons(2) [OF assms(1)] assms(3) by (simp add: connected_hunks_def)
  moreover have "region_hunks r \<subseteq> set os \<union> set ts"
    using overlap_regions_Cons(4,5) [OF assms(1)] by (auto simp: region_hunks_def)
  moreover have "set os \<union> set ts \<subseteq> region_hunks r' \<union> (set (concat (map fst rs')) \<union> set (concat (map snd rs')))"
    using overlap_regions_Cons(4,5) [OF assms(2)] by (auto simp: region_hunks_def)
  ultimately show "k \<in> region_hunks r'"
    using component_closed [OF _ assms(4) _ overlap_regions_Cons(3) [OF assms(2)]] by blast
qed

lemma first_regions_meet:
  assumes "overlap_regions os ts (r # rs)" "overlap_regions os ts (r' # rs')"
  shows "region_hunks r \<inter> region_hunks r' \<noteq> {}"
proof
  assume none: "region_hunks r \<inter> region_hunks r' = {}"
  note r = overlap_regions_Cons(2-) [OF assms(1)] and r' = overlap_regions_Cons(2-) [OF assms(2)]
  let ?later = "set (concat (map fst rs)) \<union> set (concat (map snd rs))"
    and ?later' = "set (concat (map fst rs')) \<union> set (concat (map snd rs'))"
  obtain h k where hk: "h \<in> region_hunks r" "k \<in> region_hunks r'"
    using r(1) r'(1) by (auto simp: connected_hunks_def)
  have "region_hunks r \<union> ?later = set os \<union> set ts"
    using arg_cong [OF r(3), of set] arg_cong [OF r(4), of set] by (auto simp: region_hunks_def)
  moreover have "region_hunks r' \<union> ?later' = set os \<union> set ts"
    using arg_cong [OF r'(3), of set] arg_cong [OF r'(4), of set] by (auto simp: region_hunks_def)
  ultimately have "h \<in> ?later'" "k \<in> ?later"
    using hk none by blast+
  then have "base_start h < base_start k" "base_start k < base_start h"
    using hk r(2) r'(2) unfolding lies_before_def by blast+
  then show False by simp
qed

lemma prefix_side:
  assumes "xs @ ys = xs' @ ys'" "set xs' \<subseteq> X" "X \<inter> set ys = {}"
  shows "\<exists>zs. xs = xs' @ zs"
proof -
  from assms(1) obtain zs where "xs = xs' @ zs \<or> xs' = xs @ zs \<and> ys = zs @ ys'"
    by (auto simp: append_eq_append_conv2)
  then show ?thesis
    using assms(2,3) by (cases zs) auto
qed

lemma first_region_sides:
  assumes "overlap_regions os ts (r # rs)" "overlap_regions os ts (r' # rs')"
    and "region_hunks r' \<subseteq> region_hunks r"
  shows "\<exists>zs. fst r = fst r' @ zs" "\<exists>zs. snd r = snd r' @ zs"
proof -
  note r = overlap_regions_Cons(3-) [OF assms(1)] and r' = overlap_regions_Cons(3-) [OF assms(2)]
  have "region_hunks r \<inter> (set (concat (map fst rs)) \<union> set (concat (map snd rs))) = {}"
    using lies_before_apart [OF r(1)] by blast
  then have "region_hunks r \<inter> set (concat (map fst rs)) = {}" "region_hunks r \<inter> set (concat (map snd rs)) = {}"
    by blast+
  moreover have "set (fst r') \<subseteq> region_hunks r" "set (snd r') \<subseteq> region_hunks r"
    using assms(3) by (auto simp: region_hunks_def)
  moreover have "fst r @ concat (map fst rs) = fst r' @ concat (map fst rs')"
    "snd r @ concat (map snd rs) = snd r' @ concat (map snd rs')"
    using r(2,3) r'(2,3) by simp_all
  ultimately show "\<exists>zs. fst r = fst r' @ zs" "\<exists>zs. snd r = snd r' @ zs"
    using prefix_side by metis+
qed

lemma overlap_regions_unique:
  "overlap_regions os ts rs \<Longrightarrow> overlap_regions os ts rs' \<Longrightarrow> rs = rs'"
proof (induction rs arbitrary: os ts rs')
  case Nil
  then have "os = []" "ts = []" by (auto simp: overlap_regions_def)
  with Nil(2) have "region_hunks r = {}" if "r \<in> set rs'" for r
    using that by (auto simp: overlap_regions_def region_hunks_def)
  then show ?case
    using Nil(2) by (cases rs') (auto simp: overlap_regions_def connected_hunks_def)
next
  case (Cons r rs)
  have "region_hunks r \<noteq> {}" using overlap_regions_Cons(2) [OF Cons.prems(1)] by (simp add: connected_hunks_def)
  then have "os \<noteq> [] \<or> ts \<noteq> []"
    using Cons.prems(1) by (auto simp: overlap_regions_def region_hunks_def)
  then obtain r' rest where rs': "rs' = r' # rest"
    using Cons.prems(2) by (cases rs') (auto simp: overlap_regions_def)
  note both = Cons.prems(1) Cons.prems(2) [unfolded rs']
  obtain h where "h \<in> region_hunks r" "h \<in> region_hunks r'"
    using first_regions_meet [OF both] by blast
  then have "region_hunks r = region_hunks r'"
    using first_region_hunks [OF both] first_region_hunks [OF both(2,1)] by blast
  then have "fst r = fst r'" "snd r = snd r'"
    using first_region_sides [OF both] first_region_sides [OF both(2,1)] by force+
  then have "r = r'" by (rule prod_eqI)
  moreover from this have "overlap_regions (concat (map fst rs)) (concat (map snd rs)) rest"
    using overlap_regions_Cons(1,4,5) [OF both(1)] overlap_regions_Cons(1,4,5) [OF both(2)] by auto
  ultimately show ?case
    using Cons.IH overlap_regions_Cons(1) [OF both(1)] rs' by blast
qed

text \<open>
  The parts of a sweep: each region with the base lines it spans, and the untouched lines between
  them. A region that is no three-way merge as a whole is compared position by position when its sides
  have one length.
\<close>

definition region_start :: "line_hunk list \<times> line_hunk list \<Rightarrow> nat" where
  "region_start r = Min (base_start ` region_hunks r)"

definition region_end :: "line_hunk list \<times> line_hunk list \<Rightarrow> nat" where
  "region_end r = Max (base_end ` region_hunks r)"

definition region_part :: "utext list \<Rightarrow> line_hunk list \<times> line_hunk list \<Rightarrow> utext list \<times> utext list \<times> utext list" where
  "region_part base r =
     (slice base (region_start r) (region_end r),
      reconstruct_side_with base (region_start r, region_end r) (fst r),
      reconstruct_side_with base (region_start r, region_end r) (snd r))"

definition decomposed ::
  "utext list \<times> utext list \<times> utext list \<Rightarrow> (utext list \<times> utext list \<times> utext list) list" where
  "decomposed z =
     (if diff3_pick (base_side z) (ours_side z) (theirs_side z) = None \<and>
         length (base_side z) = length (ours_side z) \<and> length (base_side z) = length (theirs_side z)
      then position_parts z else [z])"

definition untouched_part :: "utext list \<Rightarrow> (utext list \<times> utext list \<times> utext list) list" where
  "untouched_part ls = (if ls = [] then [] else [(ls, ls, ls)])"

fun swept_parts ::
  "utext list \<Rightarrow> nat \<Rightarrow> (line_hunk list \<times> line_hunk list) list \<Rightarrow> (utext list \<times> utext list \<times> utext list) list" where
  "swept_parts base pos [] = untouched_part (drop pos base)"
| "swept_parts base pos (r # rs) =
     untouched_part (slice base pos (region_start r)) @ decomposed (region_part base r)
     @ swept_parts base (region_end r) rs"

definition three_way_parts ::
  "utext list \<Rightarrow> utext list \<Rightarrow> utext list \<Rightarrow> (utext list \<times> utext list \<times> utext list) list \<Rightarrow> bool" where
  "three_way_parts bs os ts parts \<longleftrightarrow>
     (if length bs = length os \<and> length bs = length ts then parts = position_parts (bs, os, ts)
      else \<exists>rs. overlap_regions (edits_to_line_hunks (myers_edits bs os)) (edits_to_line_hunks (myers_edits bs ts)) rs \<and>
        parts = swept_parts bs 0 rs)"

lemma three_way_parts_unique: "three_way_parts bs os ts ps \<Longrightarrow> three_way_parts bs os ts qs \<Longrightarrow> ps = qs"
  by (auto simp: three_way_parts_def dest: overlap_regions_unique split: if_splits)

lemma decomposed_sides [simp]: "parts_sides (decomposed z) = z"
  by (cases z) (simp add: decomposed_def position_parts_sides)

lemma untouched_part_sides [simp]: "parts_sides (untouched_part ls) = (ls, ls, ls)"
  by (simp add: untouched_part_def)

lemma untouched_subchunks:
  "map (subchunk_of le) (untouched_part ls) = (if ls = [] then [] else [Sub_Resolved (lines_to_text ls le)])"
  by (simp add: untouched_part_def subchunk_of_resolved)

section \<open>What a sweep of hunks is\<close>

text \<open>Hunks in order from a position, within the base.\<close>

fun hunks_from :: "nat \<Rightarrow> nat \<Rightarrow> 'a diff_hunk list \<Rightarrow> bool" where
  "hunks_from n pos [] = (pos \<le> n)"
| "hunks_from n pos (h # hs) = (pos \<le> base_start h \<and> base_start h \<le> base_end h \<and> hunks_from n (base_end h) hs)"

lemma hunks_from_le: "hunks_from n pos hs \<Longrightarrow> pos \<le> n"
  by (induction hs arbitrary: pos) fastforce+

lemma hunks_from_starts: "hunks_from n pos hs \<Longrightarrow> h \<in> set hs \<Longrightarrow> pos \<le> base_start h \<and> base_start h \<le> base_end h \<and> base_end h \<le> n"
  by (induction hs arbitrary: pos) (auto dest: hunks_from_le, fastforce+)

lemma hunks_from_script:
  "script_for es (drop i base) new \<Longrightarrow> i \<le> length base \<Longrightarrow> hunks_from (length base) i (edits_to_hunks_from i es)"
proof (induction i es arbitrary: new rule: edits_to_hunks_from.induct)
  case (2 i e es)
  show ?case
  proof (cases "ed_kind e = Equal")
    case True
    from 2(3) have "edit_ok e"
      by (simp add: script_for_def)
    then obtain x where e: "e = equal_edit x"
      by (cases rule: edit_ok_cases) (use True in auto)
    with 2(3) have split: "drop i base = x # old_side es" "\<forall>e\<in>set es. edit_ok e"
      by (simp_all add: script_for_def)
    then have i: "i < length base"
      by (metis drop_all leI list.distinct(1))
    have "drop (Suc i) base = old_side es"
      using split(1) by (metis drop_Suc list.sel(3) tl_drop)
    then have "script_for es (drop (Suc i) base) (new_side es)"
      using split(2) by (simp add: script_for_def)
    from 2(1) [OF True this] i
    have "hunks_from (length base) (Suc i) (edits_to_hunks_from (Suc i) es)"
      by simp
    then have "hunks_from (length base) i (edits_to_hunks_from (Suc i) es)"
      by (cases "edits_to_hunks_from (Suc i) es") auto
    then show ?thesis
      using True by simp
  next
    case False
    note split = script_for_run_split [OF 2(3)]
    have "script_for (dropWhile (\<lambda>e. ed_kind e \<noteq> Equal) (e # es))
        (drop (i + length (filter (\<lambda>e. ed_kind e = Delete) (takeWhile (\<lambda>e. ed_kind e \<noteq> Equal) (e # es)))) base)
        (new_side (dropWhile (\<lambda>e. ed_kind e \<noteq> Equal) (e # es)))"
      using split(1) by (simp add: add.commute)
    from 2(2) [OF False refl refl refl refl this] split(2) 2(4) show ?thesis
      by (simp only: edits_to_hunks_from.simps if_not_P [OF False] Let_def hunks_from.simps diff_hunk.simps)
        simp
  qed
qed simp

lemma reconstruct_Cons:
  assumes "pos \<le> base_start h" "base_start h \<le> base_end h" "base_end h \<le> n"
  shows "reconstruct_from base n pos (h # hs) = slice base pos (base_start h) @ new_lines h
    @ reconstruct_from base n (base_end h) hs"
proof -
  have "max (min (base_start h) n) pos = base_start h" "max (min (base_end h) n) pos = base_end h"
    using assms by simp_all
  then show ?thesis by simp
qed

declare reconstruct_from.simps(2) [simp del]

lemma reconstruct_skip:
  "hunks_from n e hs \<Longrightarrow> pos \<le> e \<Longrightarrow> reconstruct_from base n pos hs = slice base pos e @ reconstruct_from base n e hs"
proof (cases hs)
  case Nil
  then show "hunks_from n e hs \<Longrightarrow> pos \<le> e \<Longrightarrow> ?thesis" by (simp add: slice_append_slice)
next
  case (Cons h hs')
  assume *: "hunks_from n e hs" "pos \<le> e"
  then have "base_end h \<le> n" "e \<le> base_start h" "base_start h \<le> base_end h"
    using Cons hunks_from_le by fastforce+
  then show ?thesis
    using Cons * slice_append_slice [of pos e "base_start h" base] by (simp add: reconstruct_Cons)
qed

lemma reconstruct_append:
  assumes "hunks_from n pos (xs @ ys)" "hunks_from n e ys" "\<forall>h\<in>set xs. base_end h \<le> e" "pos \<le> e"
  shows "reconstruct_from base n pos (xs @ ys) = reconstruct_from base e pos xs @ reconstruct_from base n e ys"
  using assms
proof (induction xs arbitrary: pos)
  case Nil
  then show ?case using reconstruct_skip by simp
next
  case (Cons h xs)
  have "e \<le> n" using Cons.prems(2) by (rule hunks_from_le)
  with Cons.prems have b: "pos \<le> base_start h" "base_start h \<le> base_end h" "base_end h \<le> e" "base_end h \<le> n"
    by auto
  have "reconstruct_from base n (base_end h) (xs @ ys)
      = reconstruct_from base e (base_end h) xs @ reconstruct_from base n e ys"
    using Cons.IH [of "base_end h"] Cons.prems by simp
  then show ?case
    using b by (simp add: reconstruct_Cons)
qed

text \<open>The end of a region is where it began or the end of the last hunk it took.\<close>

definition reaches :: "nat \<Rightarrow> 'a diff_hunk list \<Rightarrow> nat \<Rightarrow> bool" where
  "reaches e hs e' \<longleftrightarrow> e \<le> e' \<and> (\<forall>h\<in>set hs. base_end h \<le> e') \<and> (e' = e \<or> (\<exists>h\<in>set hs. e' = base_end h))"

lemma reaches_Nil [simp]: "reaches e [] e' \<longleftrightarrow> e' = e"
  by (auto simp: reaches_def)

lemma reaches_append: "reaches e xs e1 \<Longrightarrow> reaches e1 ys e2 \<Longrightarrow> reaches e (xs @ ys) e2"
  unfolding reaches_def by (auto intro: order_trans)

lemma reaches_Cons: "reaches (max e (base_end h)) hs e' \<Longrightarrow> reaches e (h # hs) e'"
  by (auto simp: reaches_def max_def split: if_splits)

lemma reaches_swap: "set xs = set ys \<Longrightarrow> reaches e xs e' \<longleftrightarrow> reaches e ys e'"
  by (simp add: reaches_def)

lemma consume_at_reaches: "consume_at s e hs = (taken, e', rest) \<Longrightarrow> reaches e taken e'"
  by (induction hs arbitrary: e taken) (auto split: if_splits prod.splits intro: reaches_Cons)

lemma consume_below_reaches: "consume_below e hs = (taken, e', rest) \<Longrightarrow> reaches e taken e'"
  by (induction hs arbitrary: e taken) (auto split: if_splits prod.splits intro: reaches_Cons)

lemma consume_below_none: "consume_below e hs = ([], e', rest) \<Longrightarrow> rest = [] \<or> e \<le> base_start (hd rest)"
  by (cases hs) (auto split: if_splits prod.splits)

lemma expand_region_spec:
  "expand_region e os ts = (o1, t1, e', os', ts') \<Longrightarrow>
    reaches e (o1 @ t1) e' \<and> (os' = [] \<or> e' \<le> base_start (hd os')) \<and> (ts' = [] \<or> e' \<le> base_start (hd ts'))"
proof (induction e os ts arbitrary: o1 t1 e' os' ts' rule: expand_region.induct)
  case (1 e os ts)
  obtain oa ea oz where o: "consume_below e os = (oa, ea, oz)" by (metis prod_cases3)
  obtain ta eb tz where t: "consume_below ea ts = (ta, eb, tz)" by (metis prod_cases3)
  note r = consume_below_reaches [OF o] consume_below_reaches [OF t]
  show ?case
  proof (cases "oa = [] \<and> ta = []")
    case True
    then have "expand_region e os ts = ([], [], eb, oz, tz)"
      by (simp add: expand_region.simps [of e] o t)
    moreover have "ea = e" "eb = e" using r True by simp_all
    ultimately show ?thesis
      using 1(2) True consume_below_none [of e os] consume_below_none [of ea ts] o t by auto
  next
    case False
    obtain o2 t2 e3 oy ty where x: "expand_region eb oz tz = (o2, t2, e3, oy, ty)"
      by (metis prod_cases5)
    have "reaches eb (o2 @ t2) e3 \<and> (oy = [] \<or> e3 \<le> base_start (hd oy)) \<and> (ty = [] \<or> e3 \<le> base_start (hd ty))"
      using 1(1) [OF o [symmetric] refl t [symmetric] refl False x] .
    moreover have "expand_region e os ts = (oa @ o2, ta @ t2, e3, oy, ty)"
      using False by (auto simp: expand_region.simps [of e] o t x)
    moreover have "reaches e ((oa @ o2) @ ta @ t2) e3" if "reaches eb (o2 @ t2) e3"
      using reaches_append [OF reaches_append [OF r] that]
        reaches_swap [of "(oa @ o2) @ ta @ t2" "(oa @ ta) @ o2 @ t2"] by auto
    ultimately show ?thesis using 1(2) by auto
  qed
qed

lemma hunks_from_later:
  "hunks_from n pos hs \<Longrightarrow> hs = [] \<or> e \<le> base_start (hd hs) \<Longrightarrow> e \<le> n \<Longrightarrow> hunks_from n e hs"
  by (cases hs) auto

lemma hunks_from_rest: "hunks_from n pos (xs @ ys) \<Longrightarrow> \<exists>p. hunks_from n p ys"
  by (induction xs arbitrary: pos) auto

lemma change_region_spec:
  assumes "change_region s pos os ts = (o1, t1, e, os', ts')" "hunks_from n pos os" "hunks_from n pos ts"
  shows "reaches pos (o1 @ t1) e" "hunks_from n e os'" "hunks_from n e ts'" "e \<le> n"
proof -
  obtain oa ea oz where o: "consume_at s pos os = (oa, ea, oz)" by (metis prod_cases3)
  obtain ta eb tz where t: "consume_at s ea ts = (ta, eb, tz)" by (metis prod_cases3)
  obtain ob tb ec oy ty where x: "expand_region eb oz tz = (ob, tb, ec, oy, ty)" by (metis prod_cases5)
  have res: "o1 = oa @ ob" "t1 = ta @ tb" "e = ec" "os' = oy" "ts' = ty"
    using assms(1) by (simp_all add: change_region_def o t x)
  note sp = expand_region_spec [OF x]
  show r: "reaches pos (o1 @ t1) e"
    using reaches_append [OF reaches_append [OF consume_at_reaches [OF o] consume_at_reaches [OF t]]]
      sp reaches_swap [of "(oa @ ob) @ ta @ tb" "(oa @ ta) @ ob @ tb"] by (auto simp: res)
  have split: "os = o1 @ os'" "ts = t1 @ ts'"
    using change_region_split [OF assms(1)] .
  then have "\<forall>h\<in>set (o1 @ t1). base_end h \<le> n"
    using hunks_from_starts [OF assms(2)] hunks_from_starts [OF assms(3)] by (auto simp: split)
  then show e: "e \<le> n"
    using r hunks_from_le [OF assms(2)] by (auto simp: reaches_def)
  show "hunks_from n e os'"
    using hunks_from_rest [of n pos o1 os'] assms(2) hunks_from_later [OF _ _ e] sp
    by (auto simp: split(1) res)
  show "hunks_from n e ts'"
    using hunks_from_rest [of n pos t1 ts'] assms(3) hunks_from_later [OF _ _ e] sp
    by (auto simp: split(2) res)
qed

section \<open>A change region is a component\<close>

text \<open>
  What holds of the hunks \<open>H\<close> a region has taken while it reaches from \<open>s\<close> to \<open>e\<close>: they cover it
  without a gap and are connected.
\<close>

definition swept :: "nat \<Rightarrow> nat \<Rightarrow> 'a diff_hunk set \<Rightarrow> bool" where
  "swept s e H \<longleftrightarrow> s \<le> e \<and>
     (\<forall>h\<in>H. s \<le> base_start h \<and> base_start h \<le> base_end h \<and> base_end h \<le> e \<and> (base_start h = s \<or> base_start h < e)) \<and>
     (\<forall>p. s \<le> p \<and> p < e \<longrightarrow> (\<exists>h\<in>H. base_start h \<le> p \<and> p < base_end h)) \<and>
     (\<forall>h\<in>H. \<forall>k\<in>H. (h, k) \<in> (touching_in H)\<^sup>*)"

lemma sweptD:
  assumes "swept s e H"
  shows "s \<le> e" "h \<in> H \<Longrightarrow> s \<le> base_start h \<and> base_start h \<le> base_end h \<and> base_end h \<le> e"
    "h \<in> H \<Longrightarrow> base_start h = s \<or> base_start h < e"
    "s \<le> p \<Longrightarrow> p < e \<Longrightarrow> \<exists>h\<in>H. base_start h \<le> p \<and> p < base_end h"
    "h \<in> H \<Longrightarrow> k \<in> H \<Longrightarrow> (h, k) \<in> (touching_in H)\<^sup>*"
  using assms by (auto simp: swept_def)

lemma swept_start: "swept s s {}"
  by (simp add: swept_def)

lemma touching_sym: "touching h k \<longleftrightarrow> touching k h"
  by (auto simp: touching_def)

lemma connected_insert:
  assumes "\<forall>h\<in>H. \<forall>k\<in>H. (h, k) \<in> (touching_in H)\<^sup>*" "k \<in> H" "touching h k"
  shows "\<forall>x\<in>insert h H. \<forall>y\<in>insert h H. (x, y) \<in> (touching_in (insert h H))\<^sup>*"
proof -
  let ?T = "(touching_in (insert h H))\<^sup>*"
  have mono: "(touching_in H)\<^sup>* \<subseteq> ?T"
    by (rule rtrancl_mono) (auto simp: touching_in_def)
  have "(h, k) \<in> ?T" "(k, h) \<in> ?T"
    using assms(2,3) by (auto simp: touching_in_def touching_sym)
  then have "(h, y) \<in> ?T" "(y, h) \<in> ?T" if "y \<in> H" for y
    using mono assms(1,2) that by (meson rtrancl_trans subsetD)+
  then show ?thesis
    using mono assms(1) by blast
qed

lemma swept_touches:
  assumes "swept s e H" "H \<noteq> {}" "base_start h \<le> base_end h" "base_start h = s \<or> s \<le> base_start h \<and> base_start h < e"
  shows "\<exists>k\<in>H. touching h k"
proof (cases "base_start h < e")
  case True
  then obtain k where "k \<in> H" "base_start k \<le> base_start h" "base_start h < base_end k"
    using sweptD(4) [OF assms(1), of "base_start h"] assms(4) by auto
  then show ?thesis
    using assms(3) by (intro bexI [of _ k]) (auto simp: touching_def)
next
  case False
  then have "base_start h = s" "e = s" using assms(4) sweptD(1) [OF assms(1)] by auto
  moreover obtain k where "k \<in> H" using assms(2) by blast
  ultimately show ?thesis
    using sweptD(2,3) [OF assms(1), of k] by (intro bexI [of _ k]) (auto simp: touching_def)
qed

lemma swept_add:
  assumes "swept s e H" "base_start h \<le> base_end h" "base_start h = s \<or> s \<le> base_start h \<and> base_start h < e"
  shows "swept s (max e (base_end h)) (insert h H)"
proof -
  have "\<forall>x\<in>insert h H. \<forall>y\<in>insert h H. (x, y) \<in> (touching_in (insert h H))\<^sup>*"
  proof (cases "H = {}")
    case False
    then obtain k where "k \<in> H" "touching h k"
      using swept_touches [OF assms(1) _ assms(2,3)] by blast
    then show ?thesis
      using connected_insert [of H k h] sweptD(5) [OF assms(1)] by blast
  qed simp
  moreover have "\<exists>k\<in>insert h H. base_start k \<le> p \<and> p < base_end k" if "s \<le> p" "p < max e (base_end h)" for p
    using sweptD(1) [OF assms(1)] sweptD(4) [OF assms(1), of p] that assms(3) by (cases "p < e") auto
  moreover have "\<forall>k\<in>insert h H. s \<le> base_start k \<and> base_start k \<le> base_end k \<and> base_end k \<le> max e (base_end h) \<and>
      (base_start k = s \<or> base_start k < max e (base_end h))"
    using sweptD(2,3) [OF assms(1)] assms(2,3) by (auto simp: less_max_iff_disj intro: le_max_iff_disj [THEN iffD2])
  ultimately show ?thesis
    using sweptD(1) [OF assms(1)] unfolding swept_def by (auto simp: le_max_iff_disj)
qed

lemma swept_consume_at:
  "consume_at s e hs = (taken, e', rest) \<Longrightarrow> swept s e H \<Longrightarrow> \<forall>h\<in>set hs. base_start h \<le> base_end h \<Longrightarrow>
    swept s e' (H \<union> set taken)"
proof (induction hs arbitrary: e H taken)
  case (Cons h hs)
  show ?case
  proof (cases "base_start h = s")
    case True
    obtain t' where "consume_at s (max e (base_end h)) hs = (t', e', rest)" "taken = h # t'"
      using Cons.prems(1) True by (auto split: prod.splits)
    then show ?thesis
      using Cons.IH [OF _ swept_add [OF Cons.prems(2)]] Cons.prems(3) True by simp
  qed (use Cons in simp)
qed simp

lemma swept_consume_below:
  "consume_below e hs = (taken, e', rest) \<Longrightarrow> swept s e H \<Longrightarrow>
    \<forall>h\<in>set hs. s \<le> base_start h \<and> base_start h \<le> base_end h \<Longrightarrow> swept s e' (H \<union> set taken)"
proof (induction hs arbitrary: e H taken)
  case (Cons h hs)
  show ?case
  proof (cases "base_start h < e")
    case True
    obtain t' where "consume_below (max e (base_end h)) hs = (t', e', rest)" "taken = h # t'"
      using Cons.prems(1) True by (auto split: prod.splits)
    then show ?thesis
      using Cons.IH [OF _ swept_add [OF Cons.prems(2)]] Cons.prems(3) True by simp
  qed (use Cons in simp)
qed simp

lemma swept_expand:
  "expand_region e os ts = (o1, t1, e', os', ts') \<Longrightarrow> swept s e H \<Longrightarrow>
    \<forall>h\<in>set os \<union> set ts. s \<le> base_start h \<and> base_start h \<le> base_end h \<Longrightarrow>
    swept s e' (H \<union> set o1 \<union> set t1)"
proof (induction e os ts arbitrary: o1 t1 e' os' ts' H rule: expand_region.induct)
  case (1 e os ts)
  obtain oa ea oz where o: "consume_below e os = (oa, ea, oz)" by (metis prod_cases3)
  obtain ta eb tz where t: "consume_below ea ts = (ta, eb, tz)" by (metis prod_cases3)
  have "swept s eb (H \<union> set oa \<union> set ta)"
    using swept_consume_below [OF t swept_consume_below [OF o 1(3)]] 1(4) by simp
  note sw = this and split = consume_below_split [OF o] consume_below_split [OF t]
  show ?case
  proof (cases "oa = [] \<and> ta = []")
    case True
    then have "expand_region e os ts = ([], [], eb, oz, tz)"
      by (simp add: expand_region.simps [of e] o t)
    then show ?thesis using 1(2) sw True by simp
  next
    case False
    obtain o2 t2 e3 oy ty where x: "expand_region eb oz tz = (o2, t2, e3, oy, ty)"
      by (metis prod_cases5)
    have "\<forall>h\<in>set oz \<union> set tz. s \<le> base_start h \<and> base_start h \<le> base_end h"
      using 1(4) split by auto
    then have "swept s e3 (H \<union> set oa \<union> set ta \<union> set o2 \<union> set t2)"
      using 1(1) [OF o [symmetric] refl t [symmetric] refl False x sw] by blast
    moreover have "expand_region e os ts = (oa @ o2, ta @ t2, e3, oy, ty)"
      using False by (auto simp: expand_region.simps [of e] o t x)
    ultimately show ?thesis using 1(2) by (simp add: Un_ac)
  qed
qed

lemma hunks_from_lower: "hunks_from n q hs \<Longrightarrow> pos \<le> q \<Longrightarrow> hunks_from n pos hs"
  by (cases hs) auto

lemma consume_at_rest:
  "consume_at s e hs = (taken, e', rest) \<Longrightarrow> hunks_from n s hs \<Longrightarrow> k \<in> set rest \<Longrightarrow> s < base_start k"
proof (induction hs arbitrary: e taken)
  case (Cons h hs)
  show ?case
  proof (cases "base_start h = s")
    case True
    then show ?thesis
      using Cons hunks_from_lower [of n "base_end h" hs s] by (auto split: prod.splits)
  next
    case False
    then show ?thesis
      using Cons.prems hunks_from_starts [of n "base_end h" hs k] by auto
  qed
qed simp

lemma change_region_component:
  assumes "change_region s s os ts = (o1, t1, e, os', ts')" "hunks_from n s os" "hunks_from n s ts"
  shows "swept s e (region_hunks (o1, t1))" "\<And>k. k \<in> set os' \<union> set ts' \<Longrightarrow> s < base_start k \<and> e \<le> base_start k"
proof -
  obtain oa ea oz where o: "consume_at s s os = (oa, ea, oz)" by (metis prod_cases3)
  obtain ta eb tz where t: "consume_at s ea ts = (ta, eb, tz)" by (metis prod_cases3)
  obtain ob tb ec oy ty where x: "expand_region eb oz tz = (ob, tb, ec, oy, ty)" by (metis prod_cases5)
  have res: "o1 = oa @ ob" "t1 = ta @ tb" "e = ec" "os' = oy" "ts' = ty"
    using assms(1) by (simp_all add: change_region_def o t x)
  note split = consume_at_split [OF o] consume_at_split [OF t] expand_region_split [OF x]
  have ok: "\<forall>h\<in>set os \<union> set ts. s \<le> base_start h \<and> base_start h \<le> base_end h"
    using hunks_from_starts [OF assms(2)] hunks_from_starts [OF assms(3)] by auto
  have sw: "swept s eb (set oa \<union> set ta)"
    using swept_consume_at [OF t swept_consume_at [OF o swept_start]] ok by simp
  have "\<forall>h\<in>set oz \<union> set tz. s \<le> base_start h \<and> base_start h \<le> base_end h"
    using ok split(1,2) by auto
  then show "swept s e (region_hunks (o1, t1))"
    using swept_expand [OF x sw] by (simp add: res region_hunks_def Un_ac)
  fix k
  assume k: "k \<in> set os' \<union> set ts'"
  then have "k \<in> set oz \<union> set tz" using split by (auto simp: res)
  then show "s < base_start k \<and> e \<le> base_start k"
    using consume_at_rest [OF o assms(2)] consume_at_rest [OF t assms(3)] k
      change_region_spec(2,3) [OF assms] hunks_from_starts by blast
qed

lemma swept_bounds:
  assumes "swept s e (region_hunks r)" "region_hunks r \<noteq> {}"
  shows "region_start r = s" "region_end r = e" "connected_hunks (region_hunks r)"
proof -
  have fin: "finite (region_hunks r)" by (simp add: region_hunks_def)
  obtain h where h: "h \<in> region_hunks r" using assms(2) by blast
  note d = sweptD [OF assms(1)]
  have "s \<in> base_start ` region_hunks r"
  proof (cases "s < e")
    case True
    then show ?thesis using d(2) d(4) [of s] by (force simp: image_iff)
  next
    case False
    then show ?thesis using d(2,3) [OF h] h by (force simp: image_iff)
  qed
  then show "region_start r = s"
    unfolding region_start_def using d(2) fin by (intro Min_eqI) auto
  have "e \<in> base_end ` region_hunks r"
  proof (cases "s < e")
    case True
    then obtain k where "k \<in> region_hunks r" "e - 1 < base_end k" using d(4) [of "e - 1"] by force
    then have "base_end k = e" using d(2) [of k] True by linarith
    then show ?thesis using \<open>k \<in> region_hunks r\<close> by blast
  next
    case False
    then have "base_end h = e" using d(1) d(2) [OF h] by simp
    then show ?thesis using h by blast
  qed
  then show "region_end r = e"
    unfolding region_end_def using d(2) fin by (intro Max_eqI) auto
  show "connected_hunks (region_hunks r)"
    using assms(2) d(5) by (auto simp: connected_hunks_def)
qed

section \<open>Least hunks\<close>

text \<open>
  The hunks of a shortest script change something wherever they apply: if a group of them rebuilt
  the base lines, leaving the group out would be a shorter script.
\<close>

definition hunks_cost :: "'a diff_hunk list \<Rightarrow> nat" where
  "hunks_cost hs = sum_list (map (\<lambda>h. (base_end h - base_start h) + length (new_lines h)) hs)"

definition least_hunks :: "'a list \<Rightarrow> nat \<Rightarrow> 'a diff_hunk list \<Rightarrow> bool" where
  "least_hunks base pos hs \<longleftrightarrow>
     hunks_from (length base) pos hs \<and> (\<forall>h\<in>set hs. 0 < (base_end h - base_start h) + length (new_lines h)) \<and>
     (\<forall>hs'. hunks_from (length base) pos hs' \<and>
        reconstruct_from base (length base) pos hs' = reconstruct_from base (length base) pos hs
        \<longrightarrow> hunks_cost hs \<le> hunks_cost hs')"

lemma hunks_from_append:
  "hunks_from n pos (xs @ ys) \<Longrightarrow> hunks_from n e zs \<Longrightarrow> \<forall>h\<in>set xs. base_end h \<le> e \<Longrightarrow> pos \<le> e \<Longrightarrow>
    hunks_from n pos (xs @ zs)"
proof (induction xs arbitrary: pos)
  case Nil
  then show ?case by (cases zs) auto
qed auto

lemma least_hunks_rest:
  assumes "least_hunks base pos (xs @ ys)" "hunks_from (length base) e ys" "\<forall>h\<in>set xs. base_end h \<le> e" "pos \<le> e"
  shows "least_hunks base e ys"
  unfolding least_hunks_def
proof (intro conjI allI impI)
  show "\<forall>h\<in>set ys. 0 < (base_end h - base_start h) + length (new_lines h)"
    using assms(1) by (simp add: least_hunks_def)
  fix zs
  assume zs: "hunks_from (length base) e zs \<and>
    reconstruct_from base (length base) e zs = reconstruct_from base (length base) e ys"
  note h = assms(1) [unfolded least_hunks_def]
  have xz: "hunks_from (length base) pos (xs @ zs)"
    using hunks_from_append [OF _ _ assms(3,4)] h zs by blast
  have "reconstruct_from base (length base) pos (xs @ zs) = reconstruct_from base (length base) pos (xs @ ys)"
    using reconstruct_append [OF xz _ assms(3,4)] reconstruct_append [OF _ assms(2-4)] h zs by simp
  then have "hunks_cost (xs @ ys) \<le> hunks_cost (xs @ zs)"
    using h xz by blast
  then show "hunks_cost ys \<le> hunks_cost zs"
    by (simp add: hunks_cost_def)
qed (rule assms(2))

lemma least_hunks_change:
  assumes "least_hunks base pos (xs @ ys)" "hunks_from (length base) e ys" "\<forall>h\<in>set xs. base_end h \<le> e" "pos \<le> e"
    and "xs \<noteq> []"
  shows "reconstruct_from base e pos xs \<noteq> slice base pos e"
proof
  assume same: "reconstruct_from base e pos xs = slice base pos e"
  note h = assms(1) [unfolded least_hunks_def]
  have ys: "hunks_from (length base) pos ys"
    using hunks_from_append [of "length base" pos "[]" "[]" e ys] assms(2,4) hunks_from_le [OF assms(2)] by simp
  have "reconstruct_from base (length base) pos ys = reconstruct_from base (length base) pos (xs @ ys)"
    using reconstruct_append [OF _ assms(2-4)] h same reconstruct_skip [OF assms(2,4)] by simp
  then have "hunks_cost (xs @ ys) \<le> hunks_cost ys"
    using h ys by blast
  then have "hunks_cost xs = 0"
    by (simp add: hunks_cost_def)
  moreover obtain x xs' where "xs = x # xs'"
    using assms(5) by (cases xs) auto
  ultimately show False
    using h by (simp add: hunks_cost_def)
qed

fun script_of_hunks :: "'a list \<Rightarrow> nat \<Rightarrow> 'a diff_hunk list \<Rightarrow> 'a edit list" where
  "script_of_hunks base pos [] = map equal_edit (drop pos base)"
| "script_of_hunks base pos (h # hs) =
     map equal_edit (slice base pos (base_start h)) @ map delete_edit (slice base (base_start h) (base_end h))
     @ map insert_edit (new_lines h) @ script_of_hunks base (base_end h) hs"

lemma script_cost_maps [simp]:
  "script_cost (map equal_edit xs) = 0" "script_cost (map delete_edit xs) = length xs"
  "script_cost (map insert_edit xs) = length xs"
  by (induction xs) simp_all

lemma script_of_hunks:
  "hunks_from (length base) pos hs \<Longrightarrow>
    script_for (script_of_hunks base pos hs) (drop pos base) (reconstruct_from base (length base) pos hs) \<and>
    script_cost (script_of_hunks base pos hs) = hunks_cost hs"
proof (induction hs arbitrary: pos)
  case (Cons h hs)
  then have b: "pos \<le> base_start h" "base_start h \<le> base_end h" "hunks_from (length base) (base_end h) hs"
    "base_end h \<le> length base"
    using hunks_from_le by auto
  note ih = Cons.IH [OF b(3)]
  have "script_for (script_of_hunks base pos (h # hs))
      (slice base pos (base_start h) @ slice base (base_start h) (base_end h) @ [] @ drop (base_end h) base)
      (slice base pos (base_start h) @ [] @ new_lines h @ reconstruct_from base (length base) (base_end h) hs)"
    unfolding script_of_hunks.simps
    by (intro script_for_append script_for_equals script_for_deletes script_for_inserts conjunct1 [OF ih])
  then show ?case
    using b ih by (simp add: reconstruct_Cons hunks_cost_def slice_append_drop length_slice)
qed (simp add: hunks_cost_def slice_end)

lemma run_cost:
  "\<forall>e\<in>set xs. edit_ok e \<Longrightarrow>
    length (filter (\<lambda>e. ed_kind e = Delete) xs) + length (filter_map ed_new (filter (\<lambda>e. ed_kind e = Insert) xs))
    = script_cost xs"
proof (induction xs)
  case (Cons e xs)
  then have "edit_ok e" by simp
  then show ?case by (cases rule: edit_ok_cases) (use Cons in auto)
qed simp

lemma edits_hunks_cost:
  "\<forall>e\<in>set es. edit_ok e \<Longrightarrow>
    hunks_cost (edits_to_hunks_from i es) = script_cost es \<and>
    (\<forall>h\<in>set (edits_to_hunks_from i es). 0 < (base_end h - base_start h) + length (new_lines h))"
proof (induction i es rule: edits_to_hunks_from.induct)
  case (2 i e es)
  show ?case
  proof (cases "ed_kind e = Equal")
    case True
    then show ?thesis using 2 by (simp add: script_cost_def)
  next
    case False
    let ?run = "takeWhile (\<lambda>e. ed_kind e \<noteq> Equal) (e # es)"
    let ?rest = "dropWhile (\<lambda>e. ed_kind e \<noteq> Equal) (e # es)"
    have es: "e # es = ?run @ ?rest" by simp
    have ok: "\<forall>x\<in>set ?run. edit_ok x" "\<forall>x\<in>set ?rest. edit_ok x"
      using 2(3) by (auto dest: set_takeWhileD set_dropWhileD)
    note run = run_cost [OF ok(1)]
    have pos: "0 < script_cost ?run"
      using False by (simp add: script_cost_def)
    have "script_cost (e # es) = script_cost ?run + script_cost ?rest"
      by (subst es) (simp only: script_cost_simps)
    moreover note 2(2) [OF False refl refl refl refl ok(2)]
    ultimately show ?thesis
      using run pos
      by (simp only: edits_to_hunks_from.simps if_not_P [OF False] Let_def hunks_cost_def list.map sum_list.Cons
          diff_hunk.simps list.set ball_simps) simp
  qed
qed (simp add: hunks_cost_def)

lemma myers_least_hunks:
  assumes "length old + length new \<le> u32_max"
  shows "least_hunks old 0 (edits_to_line_hunks (myers_edits old new))"
    "reconstruct_from old (length old) 0 (edits_to_line_hunks (myers_edits old new)) = new"
proof -
  let ?hs = "edits_to_line_hunks (myers_edits old new)"
  have script: "script_for (myers_edits old new) (drop 0 old) new"
    using myers_script by simp
  show r: "reconstruct_from old (length old) 0 ?hs = new"
    using reconstruct_from_hunks [OF script, of 0] by (simp add: edits_to_line_hunks_def edits_to_hunks_with_def)
  have cost: "hunks_cost ?hs = script_cost (myers_edits old new)"
    "\<forall>h\<in>set ?hs. 0 < (base_end h - base_start h) + length (new_lines h)"
    using edits_hunks_cost [of "myers_edits old new" 0] script
    by (simp_all add: script_for_def edits_to_line_hunks_def edits_to_hunks_with_def)
  show "least_hunks old 0 ?hs"
    unfolding least_hunks_def
  proof (intro conjI allI impI cost(2))
    show "hunks_from (length old) 0 ?hs"
      using hunks_from_script [OF script] by (simp add: edits_to_line_hunks_def edits_to_hunks_with_def)
    fix hs
    assume *: "hunks_from (length old) 0 hs \<and>
      reconstruct_from old (length old) 0 hs = reconstruct_from old (length old) 0 ?hs"
    then show "hunks_cost ?hs \<le> hunks_cost hs"
      using script_of_hunks [of old 0 hs] myers_least_cost [OF assms, of "script_of_hunks old 0 hs"] r cost(1)
      by simp
  qed
qed

section \<open>The sweep is a splitting\<close>

lemma lines_to_text_join: "lines_to_text ls le = join_lines le ls"
  by (simp add: lines_to_text_def join_lines_def)

lemma split_lines_text:
  "eol_ok le \<Longrightarrow> \<forall>l\<in>set ls. clean_line l \<Longrightarrow> split_lines (lines_to_text ls le) = ls"
  by (simp add: lines_to_text_join lines_join_lines split_lines_eq)

lemma set_reconstruct: "set (reconstruct_from base n pos hs) \<subseteq> set base \<union> (\<Union>h\<in>set hs. set (new_lines h))"
proof (induction hs arbitrary: pos)
  case Nil
  then show ?case using set_slice_subset [of base pos n] by simp
next
  case (Cons h hs)
  let ?p = "max (min (base_end h) n) pos"
  show ?case
    using Cons.IH [of ?p] set_slice_subset [of base pos "max (min (base_start h) n) pos"]
    by (auto simp: reconstruct_from.simps(2) Let_def)
qed

definition clean_hunks :: "line_hunk list \<Rightarrow> bool" where
  "clean_hunks hs \<longleftrightarrow> (\<forall>h\<in>set hs. \<forall>l\<in>set (new_lines h). clean_line l)"

lemma clean_reconstruct:
  "\<forall>l\<in>set base. clean_line l \<Longrightarrow> clean_hunks hs \<Longrightarrow> \<forall>l\<in>set (reconstruct_from base n pos hs). clean_line l"
  using set_reconstruct [of base n pos hs] by (auto simp: clean_hunks_def)

lemma side_content_range:
  "pos \<le> e \<Longrightarrow> e \<le> length base \<Longrightarrow> side_content base pos e hs le = lines_to_text (reconstruct_from base e pos hs) le"
  by (simp add: side_content_def reconstruct_side_with_def Let_def min_def)

lemma region_subchunks_parts:
  assumes "least_hunks base s (o1 @ os)" "least_hunks base s (t1 @ ts)"
    and "hunks_from (length base) e os" "hunks_from (length base) e ts"
    and "swept s e (region_hunks (o1, t1))" "e \<le> length base" "region_hunks (o1, t1) \<noteq> {}"
    and "eol_ok le" "\<forall>l\<in>set base. clean_line l" "clean_hunks o1" "clean_hunks t1"
  shows "region_subchunks base le s e o1 t1 = map (subchunk_of le) (decomposed (region_part base (o1, t1)))"
    "region_part base (o1, t1) = (slice base s e, reconstruct_from base e s o1, reconstruct_from base e s t1)"
proof -
  let ?b = "slice base s e" and ?o = "reconstruct_from base e s o1" and ?t = "reconstruct_from base e s t1"
  have e: "s \<le> e" "\<forall>h\<in>set o1. base_end h \<le> e" "\<forall>h\<in>set t1. base_end h \<le> e"
    using sweptD(1) [OF assms(5)] sweptD(2) [OF assms(5)] by (auto simp: region_hunks_def)
  note content = side_content_range [OF e(1) assms(6)]
  show part: "region_part base (o1, t1) = (?b, ?o, ?t)"
    using e(1) assms(6)
    by (simp add: region_part_def swept_bounds [OF assms(5,7)] reconstruct_side_with_def Let_def min_def)
  have clean: "\<forall>l\<in>set ?b. clean_line l" "\<forall>l\<in>set ?o. clean_line l" "\<forall>l\<in>set ?t. clean_line l"
    using set_slice_subset [of base s e] assms(9) clean_reconstruct [OF assms(9,10)]
      clean_reconstruct [OF assms(9,11)] by auto
  note parse = clean [THEN split_lines_text [OF assms(8)]]
  have change: "?o \<noteq> ?b" if "o1 \<noteq> []" using least_hunks_change [OF assms(1,3) e(2,1) that] .
  have change': "?t \<noteq> ?b" if "t1 \<noteq> []" using least_hunks_change [OF assms(2,4) e(3,1) that] .
  consider "o1 \<noteq> []" "t1 = []" | "o1 = []" "t1 \<noteq> []" | "o1 \<noteq> []" "t1 \<noteq> []"
    using assms(7) by (auto simp: region_hunks_def)
  then show "region_subchunks base le s e o1 t1 = map (subchunk_of le) (decomposed (region_part base (o1, t1)))"
  proof cases
    case 1
    then show ?thesis
      unfolding part by (simp add: decomposed_def region_subchunks_def content subchunk_of_resolved)
  next
    case 2
    then show ?thesis
      unfolding part by (simp add: decomposed_def region_subchunks_def content subchunk_of_resolved)
  next
    case 3
    have pick: "diff3_pick ?b ?o ?t = (if ?o = ?t then Some ?o else None)"
      using change change' 3 by (auto simp: diff3_pick_def)
    have same: "lines_to_text ?o le = lines_to_text ?t le \<longleftrightarrow> ?o = ?t"
      using parse(2,3) by metis
    have min: "min e (length base) = e" using assms(6) by simp
    have "region_subchunks base le s e o1 t1 =
        (if ?o = ?t then [Sub_Resolved (lines_to_text ?o le)]
         else if length ?b = length ?o \<and> length ?b = length ?t then per_line_merge ?b ?o ?t le
         else [Sub_Conflict (lines_to_text ?b le) (lines_to_text ?o le) (lines_to_text ?t le)])"
      using 3 unfolding region_subchunks_def content Let_def min parse same by simp
    then show ?thesis
      unfolding part decomposed_def
      by (simp add: pick per_line_merge_parts subchunk_of_resolved subchunk_of_conflict)
  qed
qed

declare merge_from.simps [simp del]

lemma change_start_bounds:
  assumes "hunks_from n pos os" "hunks_from n pos ts" "os \<noteq> [] \<or> ts \<noteq> []"
  shows "pos \<le> change_start os ts" "change_start os ts \<le> n"
    "hunks_from n (change_start os ts) os" "hunks_from n (change_start os ts) ts"
proof -
  note le = hunks_from_starts [OF assms(1)] hunks_from_starts [OF assms(2)]
  show "pos \<le> change_start os ts" and b: "change_start os ts \<le> n"
    using assms(3) le by (cases "(os, ts)" rule: change_start.cases; fastforce)+
  show "hunks_from n (change_start os ts) os" "hunks_from n (change_start os ts) ts"
    using assms(3) b by (auto intro!: hunks_from_later [OF assms(1)] hunks_from_later [OF assms(2)])
      (cases "(os, ts)" rule: change_start.cases; auto)+
qed

lemma context_subchunks:
  "s \<le> length base \<Longrightarrow> (if s > pos \<and> pos < length base then [Sub_Resolved (lines_to_text (slice base pos s) le)] else [])
    = map (subchunk_of le) (untouched_part (slice base pos s))"
  by (auto simp: untouched_subchunks simp flip: length_0_conv)

text \<open>One round of the sweep.\<close>

lemma merge_from_step:
  assumes "hunks_from (length base) pos os" "hunks_from (length base) pos ts" "os \<noteq> [] \<or> ts \<noteq> []"
    and "change_region (change_start os ts) (change_start os ts) os ts = (o1, t1, e, os', ts')"
  shows "merge_from base le pos os ts
    = map (subchunk_of le) (untouched_part (slice base pos (change_start os ts)))
      @ region_subchunks base le (change_start os ts) e o1 t1 @ merge_from base le e os' ts'"
proof -
  let ?n = "length base" and ?s = "change_start os ts"
  note s = change_start_bounds [OF assms(1-3)]
  have pos': "(if ?s > pos \<and> pos < ?n then ?s else pos) = ?s"
    using s(1,2) by auto
  have ctx: "min ?s ?n = ?s"
    using s(2) by simp
  have ne: "\<not> (os = [] \<and> ts = [])"
    using assms(3) by blast
  have "merge_from base le pos os ts
      = (if ?s > pos \<and> pos < ?n then [Sub_Resolved (lines_to_text (slice base pos ?s) le)] else [])
        @ region_subchunks base le ?s e o1 t1 @ merge_from base le e os' ts'"
    unfolding merge_from.simps [of base le pos os ts] Let_def ctx pos' assms(4) prod.case if_not_P [OF ne]
    by (rule refl)
  then show ?thesis
    by (simp only: context_subchunks [OF s(2)])
qed

definition swept_as ::
  "utext list \<Rightarrow> utext \<Rightarrow> nat \<Rightarrow> line_hunk list \<Rightarrow> line_hunk list \<Rightarrow> subchunk list \<Rightarrow> bool" where
  "swept_as base le pos os ts cs \<longleftrightarrow>
     (\<exists>rs. overlap_regions os ts rs \<and> cs = map (subchunk_of le) (swept_parts base pos rs) \<and>
        parts_sides (swept_parts base pos rs) =
          (drop pos base, reconstruct_from base (length base) pos os, reconstruct_from base (length base) pos ts))"

lemma swept_as_step:
  assumes "swept_as base le e os' ts' cs" "change_region s s os ts = (o1, t1, e, os', ts')"
    and "hunks_from (length base) s os" "hunks_from (length base) s ts" "pos \<le> s" "os \<noteq> [] \<or> ts \<noteq> []" "s = change_start os ts"
    and "region_part base (o1, t1) = (slice base s e, reconstruct_from base e s o1, reconstruct_from base e s t1)"
  shows "swept_as base le pos os ts
    (map (subchunk_of le) (untouched_part (slice base pos s))
      @ map (subchunk_of le) (decomposed (region_part base (o1, t1))) @ cs)"
proof -
  let ?r = "(o1, t1)" and ?n = "length base"
  obtain rs where rs: "overlap_regions os' ts' rs" "cs = map (subchunk_of le) (swept_parts base e rs)"
    "parts_sides (swept_parts base e rs) = (drop e base, reconstruct_from base ?n e os', reconstruct_from base ?n e ts')"
    using assms(1) by (auto simp: swept_as_def)
  note split = change_region_split [OF assms(2)] and spec = change_region_spec [OF assms(2-4)]
    and comp = change_region_component [OF assms(2-4)]
  have ne: "region_hunks ?r \<noteq> {}"
    using change_region_progress [of os ts s o1 t1 e os' ts'] assms(2,6,7) by (auto simp: region_hunks_def)
  note bounds = swept_bounds [OF comp(1) ne]
  have later: "k \<in> set os' \<union> set ts'" if "k \<in> region_hunks r" "r \<in> set rs" for k r
    using rs(1) that by (auto simp: overlap_regions_def region_hunks_def)
  have "lies_before (region_hunks ?r) (region_hunks r)" if "r \<in> set rs" for r
    unfolding lies_before_def
  proof (intro ballI)
    fix h k
    assume h: "h \<in> region_hunks ?r" and "k \<in> region_hunks r"
    then have "s < base_start k" "e \<le> base_start k" using comp(2) later that by blast+
    then show "base_start h < base_start k \<and> base_end h \<le> base_start k"
      using sweptD(2,3) [OF comp(1) h] by auto
  qed
  then have regions: "overlap_regions os ts (?r # rs)"
    using rs(1) bounds(3) by (simp add: overlap_regions_def split)
  have e: "s \<le> e" "\<forall>h\<in>set o1. base_end h \<le> e" "\<forall>h\<in>set t1. base_end h \<le> e"
    using spec(1) by (auto simp: reaches_def)
  have sides: "drop pos base = slice base pos s @ slice base s e @ drop e base"
    "reconstruct_from base ?n pos os = slice base pos s @ reconstruct_from base e s o1 @ reconstruct_from base ?n e os'"
    "reconstruct_from base ?n pos ts = slice base pos s @ reconstruct_from base e s t1 @ reconstruct_from base ?n e ts'"
    using reconstruct_skip [OF assms(3,5), of base] reconstruct_skip [OF assms(4,5), of base]
      slice_append_drop [OF e(1), of base] slice_append_drop [OF assms(5), of base]
      reconstruct_append [OF assms(3) [unfolded split] spec(2) e(2,1), of base]
      reconstruct_append [OF assms(4) [unfolded split] spec(3) e(3,1), of base]
    by (simp_all flip: split)
  show ?thesis
    unfolding swept_as_def sides
    by (rule exI [of _ "?r # rs"]) (simp add: regions bounds rs(2,3) assms(8))
qed

lemma merge_from_parts:
  "least_hunks base pos os \<Longrightarrow> least_hunks base pos ts \<Longrightarrow> eol_ok le \<Longrightarrow> \<forall>l\<in>set base. clean_line l \<Longrightarrow>
    clean_hunks os \<Longrightarrow> clean_hunks ts \<Longrightarrow> swept_as base le pos os ts (merge_from base le pos os ts)"
proof (induction "length os + length ts" arbitrary: pos os ts rule: less_induct)
  case less
  let ?n = "length base" and ?s = "change_start os ts"
  have h: "hunks_from ?n pos os" "hunks_from ?n pos ts"
    using less.prems(1,2) by (simp_all add: least_hunks_def)
  show ?case
  proof (cases "os = [] \<and> ts = []")
    case True
    then have "overlap_regions os ts []" by (simp add: overlap_regions_def)
    moreover have "merge_from base le pos os ts = map (subchunk_of le) (swept_parts base pos [])"
      using True by (simp add: merge_from.simps [of base] untouched_subchunks)
    ultimately show ?thesis
      using True hunks_from_le [OF h(1)] unfolding swept_as_def by (intro exI [of _ "[]"]) simp
  next
    case False
    then have ne: "os \<noteq> [] \<or> ts \<noteq> []" by blast
    note s = change_start_bounds [OF h ne]
    obtain o1 t1 e os' ts' where r: "change_region ?s ?s os ts = (o1, t1, e, os', ts')"
      by (metis prod_cases5)
    note split = change_region_split [OF r] and spec = change_region_spec [OF r s(3,4)]
      and comp = change_region_component [OF r s(3,4)]
    have progress: "o1 \<noteq> [] \<or> t1 \<noteq> []" using change_region_progress [OF r ne] .
    have e: "?s \<le> e" "\<forall>h\<in>set o1. base_end h \<le> e" "\<forall>h\<in>set t1. base_end h \<le> e"
      using spec(1) by (auto simp: reaches_def)
    have least: "least_hunks base ?s (o1 @ os')" "least_hunks base ?s (t1 @ ts')"
      using least_hunks_rest [of base pos "[]"] less.prems(1,2) s by (simp_all flip: split)
    have clean: "clean_hunks o1" "clean_hunks t1" "clean_hunks os'" "clean_hunks ts'"
      using less.prems(5,6) by (auto simp: clean_hunks_def split)
    have "swept_as base le e os' ts' (merge_from base le e os' ts')"
      using less.hyps [OF _ least_hunks_rest [OF least(1) spec(2) e(2,1)] least_hunks_rest [OF least(2) spec(3) e(3,1)]
          less.prems(3,4) clean(3,4)] progress split by auto
    note this [THEN swept_as_step, OF r s(3,4,1) ne refl]
    moreover have "region_hunks (o1, t1) \<noteq> {}" using progress by (auto simp: region_hunks_def)
    note region_subchunks_parts [OF least spec(2,3) comp(1) spec(4) this less.prems(3,4) clean(1,2)]
    ultimately show ?thesis
      by (simp only: merge_from_step [OF h ne r])
  qed
qed

section \<open>Properties\<close>

text \<open>Lines that are read back unchanged once written with the detected ending.\<close>

definition clean_text :: "utext \<Rightarrow> bool" where
  "clean_text t \<longleftrightarrow> (\<forall>l\<in>set (split_lines t). clean_line l)"

lemma new_lines_side: "h \<in> set hs \<Longrightarrow> hunks_from n pos hs \<Longrightarrow> set (new_lines h) \<subseteq> set (reconstruct_from base n pos hs)"
proof (induction hs arbitrary: pos)
  case (Cons k hs)
  then have "pos \<le> base_start k" "base_start k \<le> base_end k" "base_end k \<le> n"
    using hunks_from_le by auto
  then show ?case
    using Cons by (auto simp: reconstruct_Cons)
qed simp

definition beyond_limit :: "utext \<Rightarrow> utext \<Rightarrow> utext \<Rightarrow> bool" where
  "beyond_limit base ours theirs \<longleftrightarrow>
     subchunk_max_lines < Max {length (split_lines base), length (split_lines ours), length (split_lines theirs)}"

lemma merge_line_hunks_parts:
  assumes "length bs + length os \<le> u32_max" "length bs + length ts \<le> u32_max" "eol_ok le"
    and "\<forall>l\<in>set bs. clean_line l" "\<forall>l\<in>set os. clean_line l" "\<forall>l\<in>set ts. clean_line l"
  shows "swept_as bs le 0 (edits_to_line_hunks (myers_edits bs os)) (edits_to_line_hunks (myers_edits bs ts))
    (merge_line_hunks bs (edits_to_line_hunks (myers_edits bs os)) (edits_to_line_hunks (myers_edits bs ts)) le)"
proof -
  note ours = myers_least_hunks [OF assms(1)] and theirs = myers_least_hunks [OF assms(2)]
  have "clean_hunks (edits_to_line_hunks (myers_edits bs x))"
    if "least_hunks bs 0 (edits_to_line_hunks (myers_edits bs x))"
      "reconstruct_from bs (length bs) 0 (edits_to_line_hunks (myers_edits bs x)) = x" "\<forall>l\<in>set x. clean_line l" for x
    using new_lines_side [of _ "edits_to_line_hunks (myers_edits bs x)" "length bs" 0 bs] that
    by (fastforce simp: clean_hunks_def least_hunks_def)
  then show ?thesis
    using merge_from_parts [OF ours(1) theirs(1) assms(3,4)] ours theirs assms(5,6)
    by (simp add: merge_line_hunks_def)
qed

lemma split_parts:
  assumes "clean_text base" "clean_text ours" "clean_text theirs"
    and "ours \<noteq> theirs" "ours \<noteq> base" "theirs \<noteq> base" "\<not> beyond_limit base ours theirs"
    and "le = detect_line_ending_from_texts [base, ours, theirs] DominantCrlfVsLf"
  shows "\<exists>parts. three_way_parts (split_lines base) (split_lines ours) (split_lines theirs) parts \<and>
    parts_sides parts = (split_lines base, split_lines ours, split_lines theirs) \<and>
    split_conflict_into_subchunks base ours theirs =
      (if \<exists>c\<in>set (map (subchunk_of le) parts). is_resolved_subchunk c then Some (map (subchunk_of le) parts) else None)"
proof -
  let ?b = "split_lines base" and ?o = "split_lines ours" and ?t = "split_lines theirs"
  let ?H = "\<lambda>x. edits_to_line_hunks (myers_edits ?b x)"
  have len: "length ?b \<le> subchunk_max_lines" "length ?o \<le> subchunk_max_lines" "length ?t \<le> subchunk_max_lines"
    using assms(7) by (simp_all add: beyond_limit_def)
  then have not_long: "\<not> (length ?b > subchunk_max_lines \<or> length ?o > subchunk_max_lines \<or> length ?t > subchunk_max_lines)"
    by simp
  have not_same: "\<not> (ours = theirs \<or> ours = base \<or> theirs = base)" using assms(4-6) by blast
  have "length ?b + length ?o \<le> u32_max" "length ?b + length ?t \<le> u32_max"
    using len by (simp_all add: u32_max_def subchunk_max_lines_def)
  note sweep = merge_line_hunks_parts [OF this, of le]
  have "swept_as ?b le 0 (?H ?o) (?H ?t) (merge_line_hunks ?b (?H ?o) (?H ?t) le)"
    by (rule sweep) (use assms(1-3) eol_ok_detect_dominant in \<open>auto simp: clean_text_def assms(8)\<close>)
  then obtain rs where rs: "overlap_regions (?H ?o) (?H ?t) rs"
    "merge_line_hunks ?b (?H ?o) (?H ?t) le = map (subchunk_of le) (swept_parts ?b 0 rs)"
    "parts_sides (swept_parts ?b 0 rs) = (?b, reconstruct_from ?b (length ?b) 0 (?H ?o), reconstruct_from ?b (length ?b) 0 (?H ?t))"
    by (auto simp: swept_as_def)
  have "reconstruct_from ?b (length ?b) 0 (?H x) = x" if "length ?b + length x \<le> u32_max" for x
    using myers_least_hunks(2) [OF that] .
  then have sides: "parts_sides (swept_parts ?b 0 rs) = (?b, ?o, ?t)"
    using rs(3) len by (simp add: u32_max_def subchunk_max_lines_def)
  let ?same = "length ?b = length ?o \<and> length ?b = length ?t"
  define parts where "parts = (if ?same then position_parts (?b, ?o, ?t) else swept_parts ?b 0 rs)"
  have "three_way_parts ?b ?o ?t parts"
    using rs(1) by (auto simp: three_way_parts_def parts_def)
  moreover have "parts_sides parts = (?b, ?o, ?t)"
    using sides by (simp add: parts_def position_parts_sides)
  moreover have "(if ?same then per_line_merge ?b ?o ?t le else merge_line_hunks ?b (?H ?o) (?H ?t) le)
      = map (subchunk_of le) parts"
    by (simp add: parts_def per_line_merge_parts rs(2) del: split_lines_eq)
  then have "split_conflict_into_subchunks base ours theirs =
      (if \<exists>c\<in>set (map (subchunk_of le) parts). is_resolved_subchunk c then Some (map (subchunk_of le) parts) else None)"
    unfolding split_conflict_into_subchunks_def Let_def if_not_P [OF not_same] if_not_P [OF not_long]
    by (simp only: flip: assms(8))
  ultimately show ?thesis by blast
qed

lemma split_nothing:
  "ours = theirs \<or> ours = base \<or> theirs = base \<or> beyond_limit base ours theirs \<Longrightarrow>
    split_conflict_into_subchunks base ours theirs = None"
  by (auto simp: split_conflict_into_subchunks_def beyond_limit_def Let_def)

text \<open>C9: splitting a conflict block into subchunks is one particular three-way merge of its lines. When
  the sides have one length, the parts are the longest runs of positions at which the same of the three
  lines are equal. Otherwise they are the connected components of touching hunks of the two Myers
  scripts and the untouched lines between them, so two changes that meet, insertions at one place
  among them, are always in one component, and changes that do not are never; a component that both
  sides changed differently without changing its length is again parted by position. The parts, which
  are determined by the three sides (\<open>three_way_parts_unique\<close>), hold exactly their lines; a part that only one side changed, or
  both the same way, is a resolved subchunk holding the changed lines, and every other part is a
  conflict subchunk of its three texts. Nothing is returned for a block that needs no merge, for a
  side of more than 500 lines, and when no part is resolved. This holds for texts no line of which ends in
  a carriage return once its ending is split off (\<open>clean_text\<close>), so that the code reads back the lines it
  wrote.\<close>

theorem subchunks_are_three_way_merge:
  assumes "clean_text base" "clean_text ours" "clean_text theirs"
  shows "if ours = theirs \<or> ours = base \<or> theirs = base \<or> beyond_limit base ours theirs
    then split_conflict_into_subchunks base ours theirs = None
    else \<exists>parts. three_way_parts (split_lines base) (split_lines ours) (split_lines theirs) parts \<and>
      parts_sides parts = (split_lines base, split_lines ours, split_lines theirs) \<and>
      (let cs = map (subchunk_of (detect_line_ending_from_texts [base, ours, theirs] DominantCrlfVsLf)) parts
       in split_conflict_into_subchunks base ours theirs =
            (if \<exists>c\<in>set cs. is_resolved_subchunk c then Some cs else None))"
  using split_nothing [of ours theirs base] split_parts [OF assms _ _ _ _ refl] unfolding Let_def by presburger

lemma subchunks_are_three_way_merge_witness:
  "\<exists>parts. three_way_parts [str ''a'', str ''b''] [str ''x'', str ''b''] [str ''y'', str ''c''] parts \<and>
    map (subchunk_of [LF]) parts =
      [Sub_Conflict (str ''a'' @ [LF]) (str ''x'' @ [LF]) (str ''y'' @ [LF]), Sub_Resolved (str ''c'' @ [LF])]"
proof -
  let ?b = "str ''a'' @ [LF] @ str ''b'' @ [LF]" and ?o = "str ''x'' @ [LF] @ str ''b'' @ [LF]"
    and ?t = "str ''y'' @ [LF] @ str ''c'' @ [LF]"
  let ?cs = "[Sub_Conflict (str ''a'' @ [LF]) (str ''x'' @ [LF]) (str ''y'' @ [LF]), Sub_Resolved (str ''c'' @ [LF])]"
  have split: "split_conflict_into_subchunks ?b ?o ?t = Some ?cs"
    by code_simp
  have clean: "clean_text ?b" "clean_text ?o" "clean_text ?t"
    by code_simp+
  have other: "\<not> (?o = ?t \<or> ?o = ?b \<or> ?t = ?b \<or> beyond_limit ?b ?o ?t)"
    using split_nothing [of ?o ?t ?b] split by auto
  have le: "detect_line_ending_from_texts [?b, ?o, ?t] DominantCrlfVsLf = [LF]"
    and sides: "split_lines ?b = [str ''a'', str ''b'']" "split_lines ?o = [str ''x'', str ''b'']"
      "split_lines ?t = [str ''y'', str ''c'']"
    by code_simp+
  from subchunks_are_three_way_merge [OF clean] obtain parts where
    "three_way_parts (split_lines ?b) (split_lines ?o) (split_lines ?t) parts"
    "Some ?cs = (if \<exists>c\<in>set (map (subchunk_of [LF]) parts). is_resolved_subchunk c
       then Some (map (subchunk_of [LF]) parts) else None)"
    unfolding if_not_P [OF other] Let_def le split by blast
  then show ?thesis
    unfolding sides by (metis option.distinct(1) option.inject)
qed

end
