(* ===== verification/Markers.thy ===== *)
theory Markers
  imports Strings
begin

text \<open>
  Conflict markers in a text (\<open>conflict_session/marker_parse.rs\<close>): the line cursor, the parser
  that cuts a text into context and conflict blocks, the texts and source ranges read off its
  result, and the streaming scan that answers whether a reader holds a complete block.

  Positions are offsets into the text. The code counts bytes, so a text here is the list of its
  UTF-8 bytes where positions are compared with the code's; the markers and the line feed are
  ASCII, so that nothing in this theory looks at any other byte. The cursor is the list of the
  lines still to be read, each with its range (\<open>cursor_unfolds\<close> ties it to the code's offset).
  The parser is shown to compute the specification \<open>segments_of\<close>, which works on whole lines.
\<close>

section \<open>Lines with their ranges\<close>

definition opening_marker :: utext where "opening_marker = str ''<<<<<<<''"
definition base_marker :: utext where "base_marker = str ''|||||||''"
definition separator_marker :: utext where "separator_marker = str ''=======''"
definition closing_marker :: utext where "closing_marker = str ''>>>>>>>''"

abbreviation is_open :: "utext \<Rightarrow> bool" where "is_open l \<equiv> starts_with l opening_marker"
abbreviation is_base :: "utext \<Rightarrow> bool" where "is_base l \<equiv> starts_with l base_marker"
abbreviation is_separator :: "utext \<Rightarrow> bool" where "is_separator l \<equiv> starts_with l separator_marker"
abbreviation is_close :: "utext \<Rightarrow> bool" where "is_close l \<equiv> starts_with l closing_marker"

text \<open>\<open>LineCursor::next\<close> at an offset: the next line with its range, and the new offset.\<close>

definition cursor_next :: "utext \<Rightarrow> nat \<Rightarrow> ((range \<times> utext) \<times> nat) option" where
  "cursor_next t offset =
     (if length t \<le> offset then None
      else
        let stop = (case position (\<lambda>c. c = LF) (drop offset t) of
              Some rel \<Rightarrow> offset + rel + 1 | None \<Rightarrow> length t)
        in Some (((offset, stop), slice t offset stop), stop))"

type_synonym cursor_state = "(range \<times> utext) list"

fun ranged_lines :: "nat \<Rightarrow> utext list \<Rightarrow> cursor_state" where
  "ranged_lines o0 [] = []"
| "ranged_lines o0 (l # ls) = ((o0, o0 + length l), l) # ranged_lines (o0 + length l) ls"

definition line_cursor :: "utext \<Rightarrow> cursor_state" where
  "line_cursor t = ranged_lines 0 (split_inclusive t)"

section \<open>The parser\<close>

record parsed_conflict_block =
  pb_base :: "utext option"
  pb_ours :: utext
  pb_theirs :: utext

record parsed_conflict_block_ranges =
  pr_marker_start :: nat
  pr_marker_end :: nat
  pr_base :: "range option"
  pr_ours :: range
  pr_theirs :: range

datatype parsed_conflict_segment = Seg_Text utext | Seg_Conflict parsed_conflict_block

datatype parsed_conflict_segment_ranges = Rng_Text range | Rng_Conflict parsed_conflict_block_ranges

text \<open>The inner loops: the base side, our side (which enters the base loop) and their side.\<close>

fun base_scan :: "cursor_state \<Rightarrow> nat \<Rightarrow> range option \<times> nat \<times> cursor_state" where
  "base_scan [] base_end = (None, base_end, [])"
| "base_scan ((r, l) # it) base_end =
     (if is_separator l then (Some r, rng_start r, it) else base_scan it (rng_end r))"

fun ours_scan :: "cursor_state \<Rightarrow> nat \<Rightarrow> range option \<times> nat \<times> range option \<times> cursor_state" where
  "ours_scan [] ours_end = (None, ours_end, None, [])"
| "ours_scan ((r, l) # it) ours_end =
     (if is_separator l then (Some r, rng_start r, None, it)
      else if is_base l then
        (case base_scan it (rng_end r) of
           (sep, base_end, it') \<Rightarrow> (sep, rng_start r, Some (rng_end r, base_end), it'))
      else ours_scan it (rng_end r))"

fun theirs_scan :: "cursor_state \<Rightarrow> nat \<Rightarrow> nat option \<times> nat \<times> cursor_state" where
  "theirs_scan [] theirs_end = (None, theirs_end, [])"
| "theirs_scan ((r, l) # it) theirs_end =
     (if is_close l then (Some (rng_end r), rng_start r, it) else theirs_scan it (rng_end r))"

lemma base_scan_length: "length (snd (snd (base_scan it e))) \<le> length it"
  by (induction it e rule: base_scan.induct) (auto simp: le_SucI)

lemma ours_scan_length: "length (snd (snd (snd (ours_scan it e)))) \<le> length it"
proof (induction it e rule: ours_scan.induct)
  case (2 r l it e)
  then show ?case
    using base_scan_length [of it "rng_end r"] by (auto simp: le_SucI split: prod.splits)
qed simp

lemma theirs_scan_length: "length (snd (snd (theirs_scan it e))) \<le> length it"
  by (induction it e rule: theirs_scan.induct) (auto simp: le_SucI)

lemma ours_scan_shorter: "(sep, e', base, it') = ours_scan it e \<Longrightarrow> length it' \<le> length it"
  using ours_scan_length [of it e] by (metis snd_conv)

lemma theirs_scan_shorter: "(m, e', it') = theirs_scan it e \<Longrightarrow> length it' \<le> length it"
  using theirs_scan_length [of it e] by (metis snd_conv)

definition context_segment :: "nat \<Rightarrow> nat \<Rightarrow> parsed_conflict_segment_ranges list" where
  "context_segment context_start stop = (if context_start < stop then [Rng_Text (context_start, stop)] else [])"

text \<open>
  The outer loop. A block without separator or closing marker has read the rest of the text; its
  lines stay context.
\<close>

function parse_from :: "nat \<Rightarrow> cursor_state \<Rightarrow> nat \<Rightarrow> parsed_conflict_segment_ranges list" where
  "parse_from len [] context_start = context_segment context_start len"
| "parse_from len ((r, l) # it) context_start =
     (if \<not> is_open l then parse_from len it context_start
      else
        context_segment context_start (rng_start r) @
        (case ours_scan it (rng_end r) of
           (None, ours_end, base, it1) \<Rightarrow> parse_from len it1 (rng_start r)
         | (Some sep, ours_end, base, it1) \<Rightarrow>
             (case theirs_scan it1 (rng_end sep) of
                (None, theirs_end, it2) \<Rightarrow> parse_from len it2 (rng_start r)
              | (Some marker_end, theirs_end, it2) \<Rightarrow>
                  Rng_Conflict \<lparr>pr_marker_start = rng_start r, pr_marker_end = marker_end, pr_base = base,
                    pr_ours = (rng_end r, ours_end), pr_theirs = (rng_end sep, theirs_end)\<rparr>
                  # parse_from len it2 marker_end)))"
  by pat_completeness auto
termination
  by (relation "measure (\<lambda>(len, it, cs). length it)")
    (auto dest!: ours_scan_shorter theirs_scan_shorter)

definition parse_conflict_marker_ranges :: "utext \<Rightarrow> parsed_conflict_segment_ranges list" where
  "parse_conflict_marker_ranges t = parse_from (length t) (line_cursor t) 0"

definition text_for_range :: "utext \<Rightarrow> range \<Rightarrow> utext" where
  "text_for_range t r = slice t (rng_start r) (rng_end r)"

fun segment_text :: "utext \<Rightarrow> parsed_conflict_segment_ranges \<Rightarrow> parsed_conflict_segment" where
  "segment_text t (Rng_Text r) = Seg_Text (text_for_range t r)"
| "segment_text t (Rng_Conflict b) =
     Seg_Conflict \<lparr>pb_base = map_option (text_for_range t) (pr_base b),
       pb_ours = text_for_range t (pr_ours b), pb_theirs = text_for_range t (pr_theirs b)\<rparr>"

definition parse_conflict_marker_segments :: "utext \<Rightarrow> parsed_conflict_segment list" where
  "parse_conflict_marker_segments t = map (segment_text t) (parse_conflict_marker_ranges t)"

fun is_conflict_range :: "parsed_conflict_segment_ranges \<Rightarrow> bool" where
  "is_conflict_range (Rng_Conflict b) = True"
| "is_conflict_range (Rng_Text r) = False"

definition text_has_conflict_markers :: "utext \<Rightarrow> bool" where
  "text_has_conflict_markers t \<longleftrightarrow> (\<exists>s\<in>set (parse_conflict_marker_ranges t). is_conflict_range s)"

text \<open>\<open>reconstruct_conflict_marker_sides\<close>: the two contributor texts, built up segment by segment.\<close>

fun push_sides :: "utext \<Rightarrow> utext \<times> utext \<Rightarrow> parsed_conflict_segment_ranges \<Rightarrow> utext \<times> utext" where
  "push_sides t (ours, theirs) (Rng_Text r) = (ours @ text_for_range t r, theirs @ text_for_range t r)"
| "push_sides t (ours, theirs) (Rng_Conflict b) =
     (ours @ text_for_range t (pr_ours b), theirs @ text_for_range t (pr_theirs b))"

definition reconstruct_conflict_marker_sides :: "utext \<Rightarrow> utext \<times> utext" where
  "reconstruct_conflict_marker_sides t = foldl (push_sides t) ([], []) (parse_conflict_marker_ranges t)"


text \<open>
  \<open>marker_region_source_ranges\<close>: the line ranges each conflict takes in the three sources, context
  lines counting in all of them. The cursors saturate at \<open>usize::MAX\<close>.
\<close>

record conflict_region_source_ranges =
  sr_base :: "range option"
  sr_ours :: range
  sr_theirs :: range

fun region_step ::
  "utext \<Rightarrow> nat \<times> nat \<times> nat \<times> conflict_region_source_ranges list \<Rightarrow> parsed_conflict_segment_ranges \<Rightarrow>
    nat \<times> nat \<times> nat \<times> conflict_region_source_ranges list" where
  "region_step t (ours_cursor, theirs_cursor, base_cursor, ranges) (Rng_Text r) =
     (let count = length (lines (text_for_range t r))
      in (sat_add ours_cursor count, sat_add theirs_cursor count, sat_add base_cursor count, ranges))"
| "region_step t (ours_cursor, theirs_cursor, base_cursor, ranges) (Rng_Conflict b) =
     (let ours_count = length (lines (text_for_range t (pr_ours b)));
          theirs_count = length (lines (text_for_range t (pr_theirs b)));
          base_count = map_option (\<lambda>r. length (lines (text_for_range t r))) (pr_base b)
      in (sat_add ours_cursor ours_count, sat_add theirs_cursor theirs_count,
          (case base_count of Some c \<Rightarrow> sat_add base_cursor c | None \<Rightarrow> base_cursor),
          ranges @ [\<lparr>sr_base = map_option (\<lambda>c. (base_cursor, sat_add base_cursor c)) base_count,
                     sr_ours = (ours_cursor, sat_add ours_cursor ours_count),
                     sr_theirs = (theirs_cursor, sat_add theirs_cursor theirs_count)\<rparr>]))"

definition marker_region_source_ranges :: "utext \<Rightarrow> conflict_region_source_ranges list" where
  "marker_region_source_ranges t =
     snd (snd (snd (foldl (region_step t) (0, 0, 0, []) (parse_conflict_marker_ranges t))))"

section \<open>Scanning a reader\<close>

text \<open>
  \<open>reader_has_conflict_markers\<close>. A reader yields some bytes and then either ends or fails.
  \<open>read_until_LF\<close> is \<open>read_until\<close> on the reader cut at the remaining budget: the failure is met
  when no line feed is left within the budget and the budget reaches beyond the bytes.
\<close>

record byte_reader =
  rd_bytes :: utext
  rd_fails :: bool

datatype 'a io_result = Io_Ok 'a | Io_Err

definition read_until_LF :: "byte_reader \<Rightarrow> nat \<Rightarrow> utext io_result" where
  "read_until_LF rd limit =
     (case position (\<lambda>c. c = LF) (take limit (rd_bytes rd)) of
        Some i \<Rightarrow> Io_Ok (take (Suc i) (rd_bytes rd))
      | None \<Rightarrow>
          if rd_fails rd \<and> length (rd_bytes rd) < limit then Io_Err
          else Io_Ok (take limit (rd_bytes rd)))"

lemma read_until_budget: "read_until_LF rd limit = Io_Ok line \<Longrightarrow> line \<noteq> [] \<Longrightarrow> 0 < limit"
  by (cases limit) (auto simp: read_until_LF_def split: option.splits if_splits)

function reader_loop :: "byte_reader \<Rightarrow> nat \<Rightarrow> bool \<Rightarrow> bool \<Rightarrow> bool io_result" where
  "reader_loop rd limit saw_opener saw_separator =
     (case read_until_LF rd limit of
        Io_Err \<Rightarrow> Io_Err
      | Io_Ok line \<Rightarrow>
          let rd' = rd\<lparr>rd_bytes := drop (length line) (rd_bytes rd)\<rparr>;
              limit' = limit - length line
          in if line = [] then Io_Ok (saw_opener \<and> limit = 0)
             else if is_open line then reader_loop rd' limit' True saw_separator
             else if saw_opener \<and> is_separator line then reader_loop rd' limit' saw_opener True
             else if saw_separator \<and> is_close line then Io_Ok True
             else reader_loop rd' limit' saw_opener saw_separator)"
  by pat_completeness auto
termination
  by (relation "measure (\<lambda>(rd, limit, saw_opener, saw_separator). limit)")
    (auto dest: read_until_budget simp: diff_less)

declare reader_loop.simps [simp del]

definition reader_has_conflict_markers :: "byte_reader \<Rightarrow> nat \<Rightarrow> bool io_result" where
  "reader_has_conflict_markers rd budget_bytes = reader_loop rd budget_bytes False False"

section \<open>Specification on whole lines\<close>

text \<open>
  What the parser means: context up to an opening line; then our lines up to a separator or a
  base marker, the base lines up to the separator, their lines up to a closing marker. A block
  that lacks one of them is context to the end. The segments here keep all lines, markers
  included.
\<close>

datatype line_segment =
    Line_Text "utext list"
  | Line_Block utext "utext list" "(utext \<times> utext list) option" utext "utext list" utext

fun break_at :: "('a \<Rightarrow> bool) \<Rightarrow> 'a list \<Rightarrow> ('a list \<times> 'a \<times> 'a list) option" where
  "break_at p [] = None"
| "break_at p (l # ls) =
     (if p l then Some ([], l, ls) else map_option (\<lambda>(xs, m, rest). (l # xs, m, rest)) (break_at p ls))"

definition close_part ::
  "utext \<Rightarrow> utext list \<Rightarrow> (utext \<times> utext list) option \<Rightarrow> utext \<Rightarrow> utext list \<Rightarrow> (line_segment \<times> utext list) option" where
  "close_part opn ours base sep ls =
     map_option (\<lambda>(theirs, cls, rest). (Line_Block opn ours base sep theirs cls, rest)) (break_at is_close ls)"

definition block_lines :: "utext \<Rightarrow> utext list \<Rightarrow> (line_segment \<times> utext list) option" where
  "block_lines opn ls =
     (case break_at (\<lambda>l. is_separator l \<or> is_base l) ls of
        None \<Rightarrow> None
      | Some (ours, m, rest) \<Rightarrow>
          if is_separator m then close_part opn ours None m rest
          else (case break_at is_separator rest of
                  None \<Rightarrow> None
                | Some (base, sep, rest') \<Rightarrow> close_part opn ours (Some (m, base)) sep rest'))"

definition text_lines :: "utext list \<Rightarrow> line_segment list" where
  "text_lines ls = (if ls = [] then [] else [Line_Text ls])"

lemma break_at_None: "break_at p ls = None \<longleftrightarrow> (\<forall>l\<in>set ls. \<not> p l)"
  by (induction ls) auto

lemma break_at_Some:
  "break_at p ls = Some (xs, m, rest) \<longleftrightarrow> ls = xs @ m # rest \<and> p m \<and> (\<forall>l\<in>set xs. \<not> p l)"
  by (induction ls arbitrary: xs) (auto simp: Cons_eq_append_conv)

lemma break_at_append: "\<forall>l\<in>set xs. \<not> p l \<Longrightarrow> p m \<Longrightarrow> break_at p (xs @ m # rest) = Some (xs, m, rest)"
  by (simp add: break_at_Some)

text \<open>The lines of a segment, and when a block is one.\<close>

fun base_part :: "(utext \<times> utext list) option \<Rightarrow> utext list" where
  "base_part None = []"
| "base_part (Some (m, ls)) = m # ls"

fun seg_lines :: "line_segment \<Rightarrow> utext list" where
  "seg_lines (Line_Text ls) = ls"
| "seg_lines (Line_Block opn ours base sep theirs cls) = opn # ours @ base_part base @ sep # theirs @ [cls]"

fun block_wf :: "line_segment \<Rightarrow> bool" where
  "block_wf (Line_Text ls) = False"
| "block_wf (Line_Block opn ours base sep theirs cls) \<longleftrightarrow>
     is_open opn \<and> (\<forall>l\<in>set ours. \<not> is_separator l \<and> \<not> is_base l) \<and>
     (case base of None \<Rightarrow> True | Some (m, ls) \<Rightarrow> is_base m \<and> (\<forall>l\<in>set ls. \<not> is_separator l)) \<and>
     is_separator sep \<and> (\<forall>l\<in>set theirs. \<not> is_close l) \<and> is_close cls"

lemmas marker_defs = opening_marker_def base_marker_def separator_marker_def closing_marker_def str_def

lemma marker_kinds:
  "is_open l \<Longrightarrow> \<not> is_base l \<and> \<not> is_separator l \<and> \<not> is_close l"
  "is_base l \<Longrightarrow> \<not> is_separator l \<and> \<not> is_close l"
  "is_separator l \<Longrightarrow> \<not> is_close l"
  by (auto simp: marker_defs starts_with_def)

lemma block_lines_sound:
  assumes "block_lines opn ls = Some (b, rest)" "is_open opn"
  shows "block_wf b \<and> opn # ls = seg_lines b @ rest"
  using assms
  by (auto simp: block_lines_def close_part_def break_at_Some split: option.splits if_splits)

lemma block_lines_complete:
  assumes "block_wf b" "opn # ls = seg_lines b @ rest"
  shows "block_lines opn ls = Some (b, rest)"
proof (cases b)
  case (Line_Block opn' ours base sep theirs cls)
  then have ls: "opn' = opn" "ls = ours @ base_part base @ sep # theirs @ cls # rest"
    using assms(2) by simp_all
  have close: "close_part opn ours base sep (theirs @ cls # rest) = Some (b, rest)"
    using assms(1) Line_Block ls(1) by (simp add: close_part_def break_at_append)
  show ?thesis
  proof (cases base)
    case None
    then show ?thesis
      using assms(1) Line_Block close by (simp add: ls(2) block_lines_def break_at_append)
  next
    case (Some mb)
    then obtain m bs where "base = Some (m, bs)" "is_base m" "\<not> is_separator m" "\<forall>l\<in>set bs. \<not> is_separator l"
      using assms(1) Line_Block marker_kinds(2) by (cases mb) auto
    then show ?thesis
      using assms(1) Line_Block close by (simp add: ls(2) block_lines_def break_at_append)
  qed
qed (use assms in simp)

lemma close_part_length: "close_part opn ours base sep ls = Some (b, rest) \<Longrightarrow> length rest < length ls"
  by (auto simp: close_part_def break_at_Some)

lemma block_lines_length: "block_lines opn ls = Some (b, rest) \<Longrightarrow> length rest < length ls"
  by (auto simp: block_lines_def break_at_Some split: option.splits if_splits dest!: close_part_length)

function line_segments :: "utext list \<Rightarrow> line_segment list" where
  "line_segments ls =
     (case break_at is_open ls of
        None \<Rightarrow> text_lines ls
      | Some (ctx, opn, rest) \<Rightarrow>
          text_lines ctx @
          (case block_lines opn rest of
             None \<Rightarrow> [Line_Text (opn # rest)]
           | Some (b, rest') \<Rightarrow> b # line_segments rest'))"
  by pat_completeness auto
termination
  by (relation "measure length") (auto dest!: block_lines_length simp: break_at_Some)

declare line_segments.simps [simp del]

lemma line_segments_context: "\<forall>l\<in>set ls. \<not> is_open l \<Longrightarrow> line_segments ls = text_lines ls"
  by (subst line_segments.simps) (simp add: break_at_None [THEN iffD2])

lemma line_segments_broken:
  "\<forall>l\<in>set ctx. \<not> is_open l \<Longrightarrow> is_open opn \<Longrightarrow> block_lines opn rest = None \<Longrightarrow>
    line_segments (ctx @ opn # rest) = text_lines ctx @ [Line_Text (opn # rest)]"
  by (subst line_segments.simps) (simp add: break_at_append)

lemma line_segments_block:
  assumes "\<forall>l\<in>set ctx. \<not> is_open l" "block_wf b"
  shows "line_segments (ctx @ seg_lines b @ rest) = text_lines ctx @ b # line_segments rest"
proof (cases b)
  case (Line_Block opn ours base sep theirs cls)
  define ls where "ls = tl (seg_lines b) @ rest"
  have split: "opn # ls = seg_lines b @ rest" "is_open opn"
    using assms(2) Line_Block by (simp_all add: ls_def)
  have "line_segments (ctx @ opn # ls) = text_lines ctx @ b # line_segments rest"
    using block_lines_complete [OF assms(2) split(1)] assms(1) split(2)
    by (subst line_segments.simps) (simp add: break_at_append)
  then show ?thesis
    by (simp add: split(1) [symmetric])
qed (use assms in simp)

text \<open>How a sequence of lines is cut.\<close>

lemma lines_cut:
  obtains (context_only) "\<forall>l\<in>set ls. \<not> is_open l"
  | (broken) ctx opn rest where "ls = ctx @ opn # rest" "\<forall>l\<in>set ctx. \<not> is_open l" "is_open opn" "block_lines opn rest = None"
  | (block) ctx b rest where "ls = ctx @ seg_lines b @ rest" "\<forall>l\<in>set ctx. \<not> is_open l" "block_wf b"
proof (cases "break_at is_open ls")
  case None
  then show ?thesis
    using context_only by (simp add: break_at_None)
next
  case (Some x)
  then obtain ctx opn rest where ls: "ls = ctx @ opn # rest" "\<forall>l\<in>set ctx. \<not> is_open l" "is_open opn"
    by (cases x) (auto simp: break_at_Some)
  show ?thesis
  proof (cases "block_lines opn rest")
    case None
    then show ?thesis
      using broken ls by blast
  next
    case (Some y)
    then obtain b rest' where y: "y = (b, rest')"
      by (cases y)
    show ?thesis
      using block [of ctx b rest'] block_lines_sound [of opn rest b rest'] Some y ls by simp
  qed
qed

lemma seg_lines_nonempty: "block_wf b \<Longrightarrow> seg_lines b \<noteq> []"
  by (cases b) auto

text \<open>Induction along the cuts.\<close>

lemma line_segments_induct [case_names context_only broken block]:
  assumes "\<And>ls. \<forall>l\<in>set ls. \<not> is_open l \<Longrightarrow> P ls"
    and "\<And>ctx opn rest. \<forall>l\<in>set ctx. \<not> is_open l \<Longrightarrow> is_open opn \<Longrightarrow> block_lines opn rest = None \<Longrightarrow> P (ctx @ opn # rest)"
    and "\<And>ctx b rest. \<forall>l\<in>set ctx. \<not> is_open l \<Longrightarrow> block_wf b \<Longrightarrow> P rest \<Longrightarrow> P (ctx @ seg_lines b @ rest)"
  shows "P ls"
proof (induction "length ls" arbitrary: ls rule: less_induct)
  case less
  show ?case
  proof (cases ls rule: lines_cut)
    case (block ctx b rest)
    moreover have "length rest < length ls"
      using seg_lines_nonempty [OF block(3)] block(1) by (cases "seg_lines b") simp_all
    ultimately show ?thesis
      using assms(3) less.hyps by blast
  qed (use assms(1,2) in simp_all)
qed

lemma concat_line_segments: "concat (map seg_lines (line_segments ls)) = ls"
proof (induction ls rule: line_segments_induct)
  case (block ctx b rest)
  then show ?case
    by (simp add: line_segments_block text_lines_def)
qed (simp_all add: line_segments_context line_segments_broken text_lines_def)



section \<open>The parser computes the specification\<close>

text \<open>The ranges of segments laid out from a position.\<close>

abbreviation chars :: "utext list \<Rightarrow> nat" where
  "chars ls \<equiv> length (concat ls)"

fun seg_range :: "nat \<Rightarrow> line_segment \<Rightarrow> parsed_conflict_segment_ranges" where
  "seg_range a (Line_Text ls) = Rng_Text (a, a + chars ls)"
| "seg_range a (Line_Block opn ours base sep theirs cls) =
     (let o1 = a + length opn; o2 = o1 + chars ours; s1 = o2 + chars (base_part base);
          t1 = s1 + length sep; t2 = t1 + chars theirs
      in Rng_Conflict \<lparr>pr_marker_start = a, pr_marker_end = t2 + length cls,
           pr_base = map_option (\<lambda>(m, ls). (o2 + length m, s1)) base, pr_ours = (o1, o2), pr_theirs = (t1, t2)\<rparr>)"

fun ranges_from :: "nat \<Rightarrow> line_segment list \<Rightarrow> parsed_conflict_segment_ranges list" where
  "ranges_from a [] = []"
| "ranges_from a (s # ss) = seg_range a s # ranges_from (a + chars (seg_lines s)) ss"

text \<open>The loops stop at the first line they look for.\<close>

lemma base_scan_ranged:
  "base_scan (ranged_lines a ls) a =
    (case break_at is_separator ls of
       None \<Rightarrow> (None, a + chars ls, [])
     | Some (xs, m, rest) \<Rightarrow>
         (Some (a + chars xs, a + chars xs + length m), a + chars xs, ranged_lines (a + chars xs + length m) rest))"
  by (induction ls arbitrary: a) (auto simp: add.assoc split: option.splits)

lemma theirs_scan_ranged:
  "theirs_scan (ranged_lines a ls) a =
    (case break_at is_close ls of
       None \<Rightarrow> (None, a + chars ls, [])
     | Some (xs, m, rest) \<Rightarrow>
         (Some (a + chars xs + length m), a + chars xs, ranged_lines (a + chars xs + length m) rest))"
  by (induction ls arbitrary: a) (auto simp: add.assoc split: option.splits)

lemma ours_scan_ranged:
  "ours_scan (ranged_lines a ls) a =
    (case break_at (\<lambda>l. is_separator l \<or> is_base l) ls of
       None \<Rightarrow> (None, a + chars ls, None, [])
     | Some (xs, m, rest) \<Rightarrow>
         (let e = a + chars xs; e' = e + length m
          in if is_separator m then (Some (e, e'), e, None, ranged_lines e' rest)
             else (case base_scan (ranged_lines e' rest) e' of
                     (sep, base_end, it) \<Rightarrow> (sep, e, Some (e', base_end), it))))"
proof (induction ls arbitrary: a)
  case (Cons l ls)
  then show ?case
    by (cases "break_at (\<lambda>l. is_separator l \<or> is_base l) ls") (auto simp: Let_def add.assoc split: prod.splits)
qed simp

lemma parse_skip:
  "\<forall>l\<in>set ctx. \<not> is_open l \<Longrightarrow>
    parse_from n (ranged_lines b (ctx @ ls)) a = parse_from n (ranged_lines (b + chars ctx) ls) a"
  by (induction ctx arbitrary: b) (simp_all add: add.assoc)

lemma context_segment_text: "\<forall>l\<in>set ls. l \<noteq> [] \<Longrightarrow> context_segment a (a + chars ls) = ranges_from a (text_lines ls)"
  by (cases ls) (auto simp: context_segment_def text_lines_def)

lemma ranges_from_append: "ranges_from a (ss @ ss') = ranges_from a ss @ ranges_from (a + chars (concat (map seg_lines ss))) ss'"
  by (induction ss arbitrary: a) (simp_all add: add.assoc)

lemma lines_of_text: "concat (map seg_lines (text_lines ls)) = ls"
  by (simp add: text_lines_def)

lemma parse_from_broken:
  assumes "block_lines opn ls = None" "is_open opn"
  shows "parse_from n (ranged_lines a (opn # ls)) cs = context_segment cs a @ context_segment a n"
  using assms
  by (auto simp: block_lines_def close_part_def ours_scan_ranged base_scan_ranged theirs_scan_ranged Let_def
      split: option.splits if_splits)

lemma parse_from_block:
  assumes "block_wf b"
  shows "parse_from n (ranged_lines a (seg_lines b @ rest)) cs =
    context_segment cs a @ seg_range a b # parse_from n (ranged_lines (a + chars (seg_lines b)) rest) (a + chars (seg_lines b))"
proof (cases b)
  case (Line_Block opn ours base sep theirs cls)
  have close: "break_at is_close (theirs @ cls # rest) = Some (theirs, cls, rest)"
    using assms Line_Block by (simp add: break_at_append)
  show ?thesis
  proof (cases base)
    case None
    then have "break_at (\<lambda>l. is_separator l \<or> is_base l) (ours @ sep # theirs @ cls # rest) = Some (ours, sep, theirs @ cls # rest)"
      using assms Line_Block by (simp add: break_at_append)
    then show ?thesis
      using assms Line_Block None close
      by (simp add: ours_scan_ranged theirs_scan_ranged Let_def add.assoc)
  next
    case (Some mb)
    then obtain m bs where m: "base = Some (m, bs)" "is_base m" "\<not> is_separator m" "\<forall>l\<in>set bs. \<not> is_separator l"
      using assms Line_Block marker_kinds(2) by (cases mb) auto
    then have "break_at (\<lambda>l. is_separator l \<or> is_base l) (ours @ m # bs @ sep # theirs @ cls # rest) =
        Some (ours, m, bs @ sep # theirs @ cls # rest)"
      "break_at is_separator (bs @ sep # theirs @ cls # rest) = Some (bs, sep, theirs @ cls # rest)"
      using assms Line_Block by (simp_all add: break_at_append)
    then show ?thesis
      using assms Line_Block m close
      by (simp add: ours_scan_ranged base_scan_ranged theirs_scan_ranged Let_def add.assoc)
  qed
qed (use assms in simp)

lemma parse_from_ranged:
  "\<forall>l\<in>set ls. l \<noteq> [] \<Longrightarrow> n = a + chars ls \<Longrightarrow> parse_from n (ranged_lines a ls) a = ranges_from a (line_segments ls)"
proof (induction ls arbitrary: a rule: line_segments_induct)
  case (context_only ls)
  then show ?case
    using parse_skip [of ls n a "[]" a] by (simp add: line_segments_context context_segment_text)
next
  case (broken ctx opn rest)
  then show ?case
    using parse_skip [of ctx n a "opn # rest" a] parse_from_broken [of opn rest n "a + chars ctx" a]
      context_segment_text [of ctx a] context_segment_text [of "opn # rest" "a + chars ctx"]
    by (simp add: line_segments_broken ranges_from_append lines_of_text text_lines_def add.assoc del: ranged_lines.simps)
next
  case (block ctx b rest)
  have "parse_from n (ranged_lines (a + chars ctx + chars (seg_lines b)) rest) (a + chars ctx + chars (seg_lines b)) =
      ranges_from (a + chars ctx + chars (seg_lines b)) (line_segments rest)"
    by (rule block.IH) (use block.prems in auto)
  then show ?case
    using block parse_skip [of ctx n a "seg_lines b @ rest" a] parse_from_block [of b n "a + chars ctx" rest a]
      context_segment_text [of ctx a]
    by (simp add: line_segments_block ranges_from_append lines_of_text add.assoc)
qed

lemma parsed_ranges: "parse_conflict_marker_ranges t = ranges_from 0 (line_segments (split_inclusive t))"
  using parse_from_ranged [of "split_inclusive t" "length t" 0] split_inclusive_nonempty
  by (auto simp: parse_conflict_marker_ranges_def line_cursor_def)

end
