(* ===== verification/Marker_Facts.thy ===== *)
theory Marker_Facts
  imports Markers
begin

text \<open>
  What the marker parser is good for: its segments are those of the specification, its ranges cover
  the text, the streaming scan agrees with it, and the source ranges of the conflict regions fit the
  sides rebuilt from it.
\<close>

section \<open>Segments\<close>

fun plain :: "line_segment \<Rightarrow> parsed_conflict_segment" where
  "plain (Line_Text ls) = Seg_Text (concat ls)"
| "plain (Line_Block opn ours base sep theirs cls) =
     Seg_Conflict \<lparr>pb_base = map_option (\<lambda>(m, ls). concat ls) base, pb_ours = concat ours, pb_theirs = concat theirs\<rparr>"

definition segments_of :: "utext list \<Rightarrow> parsed_conflict_segment list" where
  "segments_of ls = map plain (line_segments ls)"

text \<open>Reading lines off a position: \<open>t\<close> has the lines \<open>ls\<close> from \<open>a\<close> on.\<close>

definition lines_at :: "utext \<Rightarrow> nat \<Rightarrow> utext list \<Rightarrow> bool" where
  "lines_at t a ls \<longleftrightarrow> a \<le> length t \<and> drop a t = concat ls"

lemma lines_at_append: "lines_at t a (xs @ ys) \<Longrightarrow> lines_at t (a + length (concat xs)) ys"
proof -
  assume "lines_at t a (xs @ ys)"
  then have le: "a \<le> length t" and d: "drop a t = concat xs @ concat ys"
    by (simp_all add: lines_at_def)
  have "drop (length (concat xs)) (drop a t) = concat ys"
    by (simp add: d)
  then have "drop (a + length (concat xs)) t = concat ys"
    by (simp only: drop_drop add.commute)
  moreover have "length t = a + length (concat xs) + length (concat ys)"
    using le arg_cong [OF d, of length] by simp
  ultimately show ?thesis
    by (simp add: lines_at_def)
qed

lemma lines_at_slice: "lines_at t a (xs @ ys) \<Longrightarrow> slice t a (a + length (concat xs)) = concat xs"
  by (simp add: lines_at_def slice_def)

lemma lines_at_whole: "lines_at t 0 (split_inclusive t)"
  by (simp add: lines_at_def)

lemma text_for_range_lines:
  "lines_at t a (xs @ ys @ zs) \<Longrightarrow> text_for_range t (a + chars xs, a + chars xs + chars ys) = concat ys"
  using lines_at_slice [of t "a + chars xs" ys zs] lines_at_append [of t a xs "ys @ zs"]
  by (simp add: text_for_range_def)

lemma segment_text_range:
  assumes "lines_at t a (seg_lines s @ rest)"
  shows "segment_text t (seg_range a s) = plain s"
proof (cases s)
  case (Line_Text ls)
  then show ?thesis
    using assms text_for_range_lines [of t a "[]" ls rest] by simp
next
  case (Line_Block opn ours base sep theirs cls)
  let ?b = "base_part base"
  have at: "lines_at t a (opn # ours @ ?b @ sep # theirs @ cls # rest)"
    using assms Line_Block by simp
  have "text_for_range t (a + length opn, a + length opn + chars ours) = concat ours"
    using text_for_range_lines [of t a "[opn]" ours] at by simp
  moreover have "text_for_range t
      (a + length opn + chars ours + chars ?b + length sep, a + length opn + chars ours + chars ?b + length sep + chars theirs) = concat theirs"
    using text_for_range_lines [of t a "opn # ours @ ?b @ [sep]" theirs "cls # rest"] at by (simp add: add.assoc)
  moreover have "text_for_range t (a + length opn + chars ours + length m, a + length opn + chars ours + length m + chars ls) = concat ls"
    if "base = Some (m, ls)" for m ls
    using text_for_range_lines [of t a "opn # ours @ [m]" ls "sep # theirs @ cls # rest"] at that by (simp add: add.assoc)
  ultimately show ?thesis
    using Line_Block by (cases base) (auto simp: Let_def add.assoc)
qed

lemma segments_ranged:
  "lines_at t a (concat (map seg_lines ss)) \<Longrightarrow> map (segment_text t) (ranges_from a ss) = map plain ss"
proof (induction ss arbitrary: a)
  case (Cons s ss)
  then show ?case
    using segment_text_range [of t a s "concat (map seg_lines ss)"]
      lines_at_append [of t a "seg_lines s" "concat (map seg_lines ss)"] by simp
qed simp

lemma parse_segments: "parse_conflict_marker_segments t = segments_of (split_inclusive t)"
  using segments_ranged [of t 0 "line_segments (split_inclusive t)"] lines_at_whole [of t]
  by (simp add: parse_conflict_marker_segments_def parsed_ranges segments_of_def concat_line_segments)

lemmas segments_of_simps = segments_of_def line_segments_context line_segments_broken line_segments_block text_lines_def

section \<open>The cursor\<close>

lemma split_inclusive_position:
  "split_inclusive t =
    (if t = [] then []
     else case position (\<lambda>c. c = LF) t of
       Some i \<Rightarrow> take (Suc i) t # split_inclusive (drop (Suc i) t)
     | None \<Rightarrow> [t])"
  by (induction t) (auto split: option.splits list.splits)

lemma cursor_unfolds:
  "cursor_next t a =
    (case split_inclusive (drop a t) of
       [] \<Rightarrow> None
     | l # ls \<Rightarrow> Some (((a, a + length l), l), a + length l))"
  "split_inclusive (drop a t) = l # ls \<Longrightarrow> split_inclusive (drop (a + length l) t) = ls"
proof -
  show "cursor_next t a =
    (case split_inclusive (drop a t) of
       [] \<Rightarrow> None
     | l # ls \<Rightarrow> Some (((a, a + length l), l), a + length l))"
  proof (cases "length t \<le> a")
    case False
    then show ?thesis
      using position_SomeD [of "\<lambda>c. c = LF" "drop a t"]
      by (subst split_inclusive_position)
        (auto simp: cursor_next_def Let_def slice_def min_def split: option.splits)
  qed (simp add: cursor_next_def)
next
  assume "split_inclusive (drop a t) = l # ls"
  then show "split_inclusive (drop (a + length l) t) = ls"
    using position_SomeD [of "\<lambda>c. c = LF" "drop a t"]
    by (subst (asm) split_inclusive_position)
      (auto split: option.splits if_splits simp: min_def add.commute)
qed


section \<open>The streaming scan\<close>

text \<open>The scan on lines, and what it finds.\<close>

fun scan_found :: "utext list \<Rightarrow> bool \<Rightarrow> bool \<Rightarrow> bool" where
  "scan_found [] o1 s1 = False"
| "scan_found (l # ls) o1 s1 =
     (if is_open l then scan_found ls True s1
      else if o1 \<and> is_separator l then scan_found ls o1 True
      else if s1 \<and> is_close l then True
      else scan_found ls o1 s1)"

lemma scan_found_closing: "scan_found ls True True \<longleftrightarrow> (\<exists>l\<in>set ls. is_close l)"
  by (induction ls) (auto dest: marker_kinds)

lemma scan_found_skip:
  "\<forall>l\<in>set xs. \<not> is_separator l \<Longrightarrow> scan_found (xs @ ys) True False = scan_found ys True False"
  by (induction xs) auto

lemma scan_found_separator: "is_separator m \<Longrightarrow> scan_found (m # ys) True False = scan_found ys True True"
  using marker_kinds by auto

lemma scan_found_idle:
  "\<forall>l\<in>set xs. \<not> is_open l \<Longrightarrow> scan_found (xs @ ys) False False = scan_found ys False False"
  by (induction xs) auto

lemma scan_found_open: "is_open m \<Longrightarrow> scan_found (m # ys) False False = scan_found ys True False"
  by simp

text \<open>Past the opening line the scan finds a separator and then a closing line, and so does a block.\<close>

lemma scan_found_block: "scan_found ls True False \<longleftrightarrow> block_lines opn ls \<noteq> None"
proof (cases "break_at is_separator ls")
  case None
  then have "scan_found ls True False = False"
    using scan_found_skip [of ls "[]"] by (simp add: break_at_None)
  moreover have "block_lines opn ls = None"
    using None by (auto simp: block_lines_def break_at_None break_at_Some split: option.splits)
  ultimately show ?thesis
    by simp
next
  case (Some x)
  then obtain xs m rest where ls: "ls = xs @ m # rest" "is_separator m" "\<forall>l\<in>set xs. \<not> is_separator l"
    by (cases x) (auto simp: break_at_Some)
  have scan: "scan_found ls True False \<longleftrightarrow> break_at is_close rest \<noteq> None"
    using ls by (simp add: scan_found_skip scan_found_separator scan_found_closing break_at_None del: scan_found.simps)
  show ?thesis
  proof (cases "break_at is_base xs")
    case None
    then have "break_at (\<lambda>l. is_separator l \<or> is_base l) ls = Some (xs, m, rest)"
      using ls by (simp add: break_at_append break_at_None)
    then show ?thesis
      using ls(2) scan by (simp add: block_lines_def close_part_def)
  next
    case (Some y)
    then obtain ys b zs where xs: "xs = ys @ b # zs" "is_base b" "\<forall>l\<in>set ys. \<not> is_base l"
      by (cases y) (auto simp: break_at_Some)
    then have "break_at (\<lambda>l. is_separator l \<or> is_base l) ls = Some (ys, b, zs @ m # rest)" "\<not> is_separator b"
      using ls marker_kinds(2) [of b] by (auto simp: break_at_append)
    moreover have "break_at is_separator (zs @ m # rest) = Some (zs, m, rest)"
      using ls xs by (simp add: break_at_append)
    ultimately show ?thesis
      using scan by (simp add: block_lines_def close_part_def)
  qed
qed

fun is_conflict :: "parsed_conflict_segment \<Rightarrow> bool" where
  "is_conflict (Seg_Conflict b) = True"
| "is_conflict (Seg_Text t) = False"

lemma is_conflict_segment_text [simp]: "is_conflict (segment_text t s) = is_conflict_range s"
  by (cases s) auto

lemma block_is_conflict: "block_wf b \<Longrightarrow> is_conflict (plain b)"
  by (cases b) auto

lemma scan_found_segments: "scan_found ls False False \<longleftrightarrow> (\<exists>s\<in>set (segments_of ls). is_conflict s)"
proof (cases ls rule: lines_cut)
  case context_only
  then show ?thesis
    using scan_found_idle [of ls "[]"] by (simp add: segments_of_simps)
next
  case (broken ctx opn rest)
  then have "scan_found ls False False = False"
    using scan_found_block [of rest opn] by (simp add: scan_found_idle scan_found_open del: scan_found.simps)
  then show ?thesis
    using broken by (simp add: segments_of_simps)
next
  case (block ctx b rest)
  then obtain opn ls' where b: "seg_lines b @ rest = opn # ls'" "is_open opn"
    by (cases b) auto
  then have "scan_found ls False False"
    using block scan_found_block [of ls' opn] block_lines_complete [of b opn ls' rest]
    by (simp add: scan_found_idle scan_found_open del: scan_found.simps)
  moreover have "\<exists>s\<in>set (segments_of ls). is_conflict s"
    using block block_is_conflict by (simp add: segments_of_simps)
  ultimately show ?thesis
    by simp
qed

lemma has_markers_scan: "text_has_conflict_markers t = scan_found (split_inclusive t) False False"
  unfolding scan_found_segments parse_segments [symmetric]
  by (simp add: text_has_conflict_markers_def parse_conflict_marker_segments_def)

lemma read_until_line:
  assumes "\<not> rd_fails rd"
  shows "read_until_LF rd limit =
    Io_Ok (case split_inclusive (take limit (rd_bytes rd)) of [] \<Rightarrow> [] | l # ls \<Rightarrow> l)"
  using assms position_SomeD [of "\<lambda>c. c = LF" "take limit (rd_bytes rd)"]
  by (subst split_inclusive_position)
    (auto simp: read_until_LF_def min_def split: option.splits if_splits)

lemma reader_loop_reads:
  assumes "\<not> rd_fails rd"
  shows "reader_loop rd limit o1 s1 =
    (let ls = split_inclusive (take limit (rd_bytes rd))
     in Io_Ok (scan_found ls o1 s1 \<or> ((o1 \<or> (\<exists>l\<in>set ls. is_open l)) \<and> limit \<le> length (rd_bytes rd))))"
  using assms
proof (induction "split_inclusive (take limit (rd_bytes rd))" arbitrary: rd limit o1 s1)
  case Nil
  from Nil(1) [symmetric] have "limit = 0 \<or> rd_bytes rd = []"
    by simp
  then show ?case
    using Nil read_until_line [OF Nil(2), of limit]
    by (subst reader_loop.simps) (auto simp: Nil(1) [symmetric])
next
  case (Cons l ls)
  let ?t = "take limit (rd_bytes rd)"
  have pieces: "split_inclusive ?t = l # ls"
    using Cons(2) by simp
  have l: "l \<noteq> []"
    using split_inclusive_nonempty [of l ?t] pieces by simp
  have "concat (l # ls) = ?t"
    using concat_split_inclusive [of ?t] pieces by metis
  then have "length l + length (concat ls) = min (length (rd_bytes rd)) limit"
    by (metis concat.simps(2) length_append length_take)
  then have len: "length l \<le> limit" "length l \<le> length (rd_bytes rd)"
    by linarith+
  have "ls = split_inclusive (drop (length l) ?t)"
    using cursor_unfolds(2) [of 0 ?t l ls] pieces by simp
  also have "drop (length l) ?t = take (limit - length l) (drop (length l) (rd_bytes rd))"
    by (simp add: drop_take)
  finally have rest: "ls = split_inclusive (take (limit - length l)
      (rd_bytes (rd\<lparr>rd_bytes := drop (length l) (rd_bytes rd)\<rparr>)))"
    by simp
  have "reader_loop (rd\<lparr>rd_bytes := drop (length l) (rd_bytes rd)\<rparr>) (limit - length l) o2 s2 =
      Io_Ok (scan_found ls o2 s2 \<or> ((o2 \<or> (\<exists>l\<in>set ls. is_open l)) \<and> limit \<le> length (rd_bytes rd)))" for o2 s2
    using Cons(1) [OF rest, of o2 s2, unfolded Let_def, folded rest] Cons(3) len by (simp add: le_diff_iff)
  then show ?case
    using l marker_kinds [of l] read_until_line [OF Cons(3), of limit]
    by (subst reader_loop.simps) (auto simp: pieces Let_def)
qed

section \<open>Positions\<close>

fun segment_bounds :: "parsed_conflict_segment_ranges \<Rightarrow> range" where
  "segment_bounds (Rng_Text r) = r"
| "segment_bounds (Rng_Conflict b) = (pr_marker_start b, pr_marker_end b)"

text \<open>The marker lines lie outside the sides, and the sides come in order.\<close>

definition block_nested :: "parsed_conflict_block_ranges \<Rightarrow> bool" where
  "block_nested b \<longleftrightarrow> pr_marker_start b < rng_start (pr_ours b) \<and> rng_start (pr_ours b) \<le> rng_end (pr_ours b) \<and>
     (case pr_base b of
        None \<Rightarrow> rng_end (pr_ours b) < rng_start (pr_theirs b)
      | Some r \<Rightarrow> rng_end (pr_ours b) < rng_start r \<and> rng_start r \<le> rng_end r \<and> rng_end r < rng_start (pr_theirs b)) \<and>
     rng_start (pr_theirs b) \<le> rng_end (pr_theirs b) \<and> rng_end (pr_theirs b) < pr_marker_end b"

fun segments_cover :: "nat \<Rightarrow> parsed_conflict_segment_ranges list \<Rightarrow> nat \<Rightarrow> bool" where
  "segments_cover a [] n = (a = n)"
| "segments_cover a (s # ss) n =
     (rng_start (segment_bounds s) = a \<and> a < rng_end (segment_bounds s) \<and>
      (case s of Rng_Conflict b \<Rightarrow> block_nested b | Rng_Text r \<Rightarrow> True) \<and>
      segments_cover (rng_end (segment_bounds s)) ss n)"

lemma segments_cover_append:
  "segments_cover a ss m \<Longrightarrow> segments_cover m ss' n \<Longrightarrow> segments_cover a (ss @ ss') n"
  by (induction ss arbitrary: a) auto

lemma block_wf_nested:
  assumes "block_wf s" "\<forall>l\<in>set (seg_lines s). l \<noteq> []"
  shows "\<exists>b. seg_range a s = Rng_Conflict b \<and> block_nested b \<and> pr_marker_start b = a \<and> pr_marker_end b = a + chars (seg_lines s)"
  using assms by (cases s) (auto simp: block_nested_def Let_def split: option.splits)

text \<open>The segments of the specification: no empty lines, and blocks that are blocks.\<close>

lemma line_segments_ok:
  "\<forall>l\<in>set ls. l \<noteq> [] \<Longrightarrow> s \<in> set (line_segments ls) \<Longrightarrow>
    seg_lines s \<noteq> [] \<and> (\<forall>l\<in>set (seg_lines s). l \<noteq> []) \<and> (block_wf s \<or> (\<exists>ls. s = Line_Text ls))"
proof (induction ls rule: line_segments_induct)
  case (block ctx b rest)
  then show ?case
    using seg_lines_nonempty [of b] by (auto simp: line_segments_block text_lines_def split: if_splits)
qed (auto simp: line_segments_context line_segments_broken text_lines_def split: if_splits)

lemma ranges_cover:
  assumes "\<forall>s\<in>set ss. seg_lines s \<noteq> [] \<and> (\<forall>l\<in>set (seg_lines s). l \<noteq> []) \<and> (block_wf s \<or> (\<exists>ls. s = Line_Text ls))"
  shows "segments_cover a (ranges_from a ss) (a + chars (concat (map seg_lines ss)))"
  using assms
proof (induction ss arbitrary: a)
  case (Cons s ss)
  have pos: "0 < chars (seg_lines s)"
    using Cons.prems by (cases "seg_lines s") auto
  have rest: "segments_cover (a + chars (seg_lines s)) (ranges_from (a + chars (seg_lines s)) ss)
      (a + chars (seg_lines s) + chars (concat (map seg_lines ss)))"
    using Cons by simp
  show ?case
  proof (cases "block_wf s")
    case True
    then show ?thesis
      using block_wf_nested [of s a] Cons.prems pos rest by (auto simp: add.assoc)
  next
    case False
    then show ?thesis
      using Cons.prems pos rest by (auto simp: add.assoc)
  qed
qed simp

lemma parsed_cover: "segments_cover 0 (parse_conflict_marker_ranges t) (length t)"
  using ranges_cover [of "line_segments (split_inclusive t)" 0] line_segments_ok [of "split_inclusive t"]
    split_inclusive_nonempty
  by (simp add: parsed_ranges concat_line_segments)

section \<open>Sides and source ranges\<close>

fun ours_of :: "parsed_conflict_segment \<Rightarrow> utext" where
  "ours_of (Seg_Text x) = x"
| "ours_of (Seg_Conflict b) = pb_ours b"

fun theirs_of :: "parsed_conflict_segment \<Rightarrow> utext" where
  "theirs_of (Seg_Text x) = x"
| "theirs_of (Seg_Conflict b) = pb_theirs b"

fun conflict_of :: "parsed_conflict_segment \<Rightarrow> parsed_conflict_block option" where
  "conflict_of (Seg_Text x) = None"
| "conflict_of (Seg_Conflict b) = Some b"

definition side_text :: "(parsed_conflict_segment \<Rightarrow> utext) \<Rightarrow> parsed_conflict_segment list \<Rightarrow> utext" where
  "side_text f ss = concat (map f ss)"

lemma side_text_simps [simp]:
  "side_text f [] = []"
  "side_text f (s # ss) = f s @ side_text f ss"
  "side_text f (ss @ ss') = side_text f ss @ side_text f ss'"
  by (simp_all add: side_text_def)

lemma push_sides_fold:
  "foldl (push_sides t) (o1, t1) rs =
    (o1 @ side_text ours_of (map (segment_text t) rs), t1 @ side_text theirs_of (map (segment_text t) rs))"
proof (induction rs arbitrary: o1 t1)
  case (Cons r rs)
  then show ?case
    by (cases r) simp_all
qed simp

lemma sides_of_segments:
  "reconstruct_conflict_marker_sides t =
    (side_text ours_of (parse_conflict_marker_segments t), side_text theirs_of (parse_conflict_marker_segments t))"
  by (simp add: reconstruct_conflict_marker_sides_def parse_conflict_marker_segments_def push_sides_fold)

text \<open>A text of whole lines: empty or ended by a line feed.\<close>

definition whole_lines :: "utext \<Rightarrow> bool" where
  "whole_lines t \<longleftrightarrow> t = [] \<or> last t = LF"

lemma whole_lines_Nil [simp]: "whole_lines []"
  by (simp add: whole_lines_def)

lemma whole_lines_append [simp]: "whole_lines a \<Longrightarrow> whole_lines b \<Longrightarrow> whole_lines (a @ b)"
  by (cases b) (auto simp: whole_lines_def)

lemma split_inclusive_append: "whole_lines a \<Longrightarrow> split_inclusive (a @ b) = split_inclusive a @ split_inclusive b"
proof (cases a rule: rev_cases)
  case (snoc l c)
  then show "whole_lines a \<Longrightarrow> ?thesis"
    using split_inclusive_LF [of l b] by (simp add: whole_lines_def)
qed simp

lemma lines_append: "whole_lines a \<Longrightarrow> lines (a @ b) = lines a @ lines b"
  by (simp add: lines_def split_inclusive_append)

lemma split_inclusive_last: "split_inclusive t = xs @ y # ys \<Longrightarrow> ys \<noteq> [] \<Longrightarrow> last y = LF"
proof (induction t arbitrary: xs y ys)
  case (Cons c cs)
  show ?case
  proof (cases "c = LF")
    case True
    then show ?thesis
      using Cons by (cases xs) auto
  next
    case False
    then obtain l ls where l: "split_inclusive cs = l # ls"
      using Cons.prems by (cases "split_inclusive cs") (auto simp: append_eq_Cons_conv Cons_eq_append_conv)
    then have "l \<noteq> []"
      using split_inclusive_nonempty [of l cs] by simp
    then show ?thesis
      using Cons.IH [of "[]" l ls] Cons.IH [of "l # tl xs" y ys] Cons.prems False l
      by (cases xs) auto
  qed
qed simp

text \<open>Pieces of a text, all ended by a line feed.\<close>

lemma whole_concat: "\<forall>l\<in>set ls. whole_lines l \<Longrightarrow> whole_lines (concat ls)"
  by (induction ls) auto

lemma whole_pieces: "split_inclusive t = xs @ ys \<Longrightarrow> ys \<noteq> [] \<Longrightarrow> \<forall>l\<in>set xs. whole_lines l"
proof
  fix l
  assume "split_inclusive t = xs @ ys" "ys \<noteq> []" "l \<in> set xs"
  then obtain us vs where "split_inclusive t = us @ l # (vs @ ys)"
    by (metis append_Cons append_assoc split_list)
  then have "last l = LF"
    by (rule split_inclusive_last) (use \<open>ys \<noteq> []\<close> in simp)
  then show "whole_lines l"
    by (simp add: whole_lines_def)
qed


definition whole_but_last :: "utext list \<Rightarrow> bool" where
  "whole_but_last ls \<longleftrightarrow> (\<forall>l\<in>set (butlast ls). whole_lines l)"

lemma whole_but_lastD: "whole_but_last (xs @ y # ys) \<Longrightarrow> whole_lines (concat xs)"
  by (rule whole_concat) (auto simp: whole_but_last_def butlast_append)

lemma whole_but_last_pieces: "whole_but_last (split_inclusive t)"
  using whole_pieces [of t "butlast (split_inclusive t)" "[last (split_inclusive t)]"]
  by (cases "split_inclusive t = []") (simp_all add: whole_but_last_def)

lemma whole_but_last_drop: "whole_but_last (xs @ ys) \<Longrightarrow> whole_but_last ys"
  by (auto simp: whole_but_last_def butlast_append split: if_splits)


text \<open>All segments but the last hold whole lines, and so do the sides of every block.\<close>

fun segments_whole :: "parsed_conflict_segment list \<Rightarrow> bool" where
  "segments_whole [] = True"
| "segments_whole (Seg_Text x # ss) = ((ss \<noteq> [] \<longrightarrow> whole_lines x) \<and> segments_whole ss)"
| "segments_whole (Seg_Conflict b # ss) =
     (whole_lines (pb_ours b) \<and> whole_lines (pb_theirs b) \<and> segments_whole ss)"


lemma segments_of_whole: "whole_but_last ls \<Longrightarrow> segments_whole (segments_of ls)"
proof (induction ls rule: line_segments_induct)
  case (broken ctx opn rest)
  then show ?case
    using whole_but_lastD [of ctx opn rest] by (simp add: segments_of_simps)
next
  case (block ctx b rest)
  obtain opn ours base sep theirs cls where b: "b = Line_Block opn ours base sep theirs cls"
    using block.hyps(2) by (cases b) auto
  then have "whole_lines (concat ours)" "whole_lines (concat theirs)"
    using block.prems whole_but_last_drop [of "ctx @ [opn]" "ours @ base_part base @ sep # theirs @ cls # rest"]
      whole_but_last_drop [of "ctx @ opn # ours @ base_part base @ [sep]" "theirs @ cls # rest"]
      whole_but_lastD [of ours "hd (base_part base @ [sep])"] whole_but_lastD [of theirs cls rest]
    by (cases base; auto)+
  moreover have "whole_lines (concat ctx)"
    using block.prems b whole_but_lastD [of ctx opn] by simp
  moreover have "segments_whole (map plain (line_segments rest))"
    using block whole_but_last_drop [of "ctx @ seg_lines b" rest] by (simp add: segments_of_def)
  ultimately show ?case
    unfolding segments_of_def line_segments_block [OF block.hyps(1,2)] by (simp add: b text_lines_def)
qed (simp add: segments_of_simps)

definition region_selects :: "utext \<Rightarrow> utext \<Rightarrow> conflict_region_source_ranges \<Rightarrow> parsed_conflict_block \<Rightarrow> bool" where
  "region_selects ours theirs g b \<longleftrightarrow>
     slice (lines ours) (rng_start (sr_ours g)) (rng_end (sr_ours g)) = lines (pb_ours b) \<and>
     slice (lines theirs) (rng_start (sr_theirs g)) (rng_end (sr_theirs g)) = lines (pb_theirs b) \<and>
     (sr_base g = None \<longleftrightarrow> pb_base b = None)"

lemma slice_middle: "slice (xs @ ys @ zs) (length xs) (length xs + length ys) = ys"
  by (simp add: slice_def)

lemma sat_add_lines:
  assumes "whole_lines x" "whole_lines y" "length (lines (x @ y @ z)) \<le> usize_max"
  shows "sat_add (length (lines x)) (length (lines y)) = length (lines (x @ y))"
  using assms by (simp add: sat_add_def lines_append del: length_lines)

lemma sat_add_text:
  assumes "whole_lines x" "ss \<noteq> [] \<longrightarrow> whole_lines y" "length (lines (x @ y @ z)) \<le> usize_max" "ss = [] \<longrightarrow> z = []"
  shows "sat_add (length (lines x)) (length (lines y)) = length (lines (x @ y))"
  using assms by (cases "ss = []") (simp_all add: sat_add_def lines_append del: length_lines)


lemma region_step_text:
  assumes "whole_lines a" "whole_lines b" "ss \<noteq> [] \<longrightarrow> whole_lines (text_for_range t x)"
    and "length (lines (a @ text_for_range t x @ side_text ours_of ss)) \<le> usize_max"
    and "length (lines (b @ text_for_range t x @ side_text theirs_of ss)) \<le> usize_max"
  shows "\<exists>bc'. region_step t (length (lines a), length (lines b), bc, acc) (Rng_Text x) =
    (length (lines (a @ text_for_range t x)), length (lines (b @ text_for_range t x)), bc', acc)"
  using assms sat_add_text [of a ss "text_for_range t x" "side_text ours_of ss"]
    sat_add_text [of b ss "text_for_range t x" "side_text theirs_of ss"]
  by (auto simp: Let_def simp del: length_lines)

lemma region_step_conflict:
  fixes t and blk
  defines "c \<equiv> \<lparr>pb_base = map_option (text_for_range t) (pr_base blk),
    pb_ours = text_for_range t (pr_ours blk), pb_theirs = text_for_range t (pr_theirs blk)\<rparr>"
  assumes w: "whole_lines a" "whole_lines b" "whole_lines (pb_ours c)" "whole_lines (pb_theirs c)"
    and bound: "length (lines (a @ pb_ours c @ x)) \<le> usize_max" "length (lines (b @ pb_theirs c @ y)) \<le> usize_max"
  shows "\<exists>g bc'. region_step t (length (lines a), length (lines b), bc, acc) (Rng_Conflict blk) =
      (length (lines (a @ pb_ours c)), length (lines (b @ pb_theirs c)), bc', acc @ [g]) \<and>
    region_selects (a @ pb_ours c @ x) (b @ pb_theirs c @ y) g c"
proof -
  let ?base = "map_option (\<lambda>n. (bc, sat_add bc n)) (map_option (\<lambda>r. length (lines (text_for_range t r))) (pr_base blk))"
  let ?g = "\<lparr>sr_base = ?base, sr_ours = (length (lines a), length (lines (a @ pb_ours c))),
      sr_theirs = (length (lines b), length (lines (b @ pb_theirs c)))\<rparr>"
  have "region_selects (a @ pb_ours c @ x) (b @ pb_theirs c @ y) ?g c"
    using slice_middle [of "lines a" "lines (pb_ours c)" "lines x"]
      slice_middle [of "lines b" "lines (pb_theirs c)" "lines y"] w
    by (simp add: region_selects_def lines_append del: length_lines) (simp add: c_def)
  moreover have "\<exists>bc'. region_step t (length (lines a), length (lines b), bc, acc) (Rng_Conflict blk) =
      (length (lines (a @ pb_ours c)), length (lines (b @ pb_theirs c)), bc', acc @ [?g])"
    using sat_add_lines [OF w(1,3) bound(1)] sat_add_lines [OF w(2,4) bound(2)]
    by (simp add: Let_def c_def del: length_lines)
  ultimately show ?thesis
    by blast
qed

lemma region_fold_selects:
  assumes "segments_whole (map (segment_text t) rs)" "whole_lines a" "whole_lines b"
    and "length (lines (a @ side_text ours_of (map (segment_text t) rs))) \<le> usize_max"
    and "length (lines (b @ side_text theirs_of (map (segment_text t) rs))) \<le> usize_max"
  shows "\<exists>new. snd (snd (snd (foldl (region_step t) (length (lines a), length (lines b), bc, acc) rs))) = acc @ new \<and>
    list_all2 (region_selects (a @ side_text ours_of (map (segment_text t) rs)) (b @ side_text theirs_of (map (segment_text t) rs)))
      new (filter_map conflict_of (map (segment_text t) rs))"
  using assms
proof (induction rs arbitrary: a b bc acc)
  case (Cons r rs)
  let ?ss = "map (segment_text t) rs"
  show ?case
  proof (cases r)
    case (Rng_Text x)
    obtain bc' where step: "region_step t (length (lines a), length (lines b), bc, acc) r =
        (length (lines (a @ text_for_range t x)), length (lines (b @ text_for_range t x)), bc', acc)"
      using region_step_text [of a b ?ss t x bc acc] Cons.prems Rng_Text by auto
    show ?thesis
      using Cons.IH [of "a @ text_for_range t x" "b @ text_for_range t x" bc' acc] step Cons.prems Rng_Text
      by (cases "rs = []") (simp_all del: length_lines region_step.simps)
  next
    case (Rng_Conflict blk)
    define c where "c = \<lparr>pb_base = map_option (text_for_range t) (pr_base blk),
        pb_ours = text_for_range t (pr_ours blk), pb_theirs = text_for_range t (pr_theirs blk)\<rparr>"
    have r: "segment_text t r = Seg_Conflict c"
      by (simp add: c_def Rng_Conflict)
    obtain g bc' where step: "region_step t (length (lines a), length (lines b), bc, acc) r =
          (length (lines (a @ pb_ours c)), length (lines (b @ pb_theirs c)), bc', acc @ [g])"
        and sel: "region_selects (a @ pb_ours c @ side_text ours_of ?ss) (b @ pb_theirs c @ side_text theirs_of ?ss) g c"
      using region_step_conflict [of a b t blk "side_text ours_of ?ss" "side_text theirs_of ?ss" bc acc, folded c_def]
        Cons.prems r Rng_Conflict by auto
    obtain new where "snd (snd (snd (foldl (region_step t)
            (length (lines (a @ pb_ours c)), length (lines (b @ pb_theirs c)), bc', acc @ [g]) rs))) = (acc @ [g]) @ new"
        "list_all2 (region_selects ((a @ pb_ours c) @ side_text ours_of ?ss) ((b @ pb_theirs c) @ side_text theirs_of ?ss))
          new (filter_map conflict_of ?ss)"
      using Cons.IH [of "a @ pb_ours c" "b @ pb_theirs c" bc' "acc @ [g]"] Cons.prems r by (auto simp del: length_lines)
    then show ?thesis
      using step sel r by (intro exI [of _ "g # new"]) (simp del: length_lines region_step.simps)
  qed
qed simp


lemma length_lines_le: "length (lines t) \<le> length t"
  by (induction t rule: split_inclusive.induct) (auto split: list.splits)

lemma block_nested_sizes:
  "block_nested b \<Longrightarrow> rng_len (pr_ours b) \<le> pr_marker_end b - pr_marker_start b \<and>
    rng_len (pr_theirs b) \<le> pr_marker_end b - pr_marker_start b"
  by (auto simp: block_nested_def rng_len_def split: option.splits)

lemma length_text_for_range: "length (text_for_range t r) \<le> rng_len r"
  by (simp add: text_for_range_def rng_len_def)

lemma segments_cover_le: "segments_cover a ss n \<Longrightarrow> a \<le> n"
  by (induction ss arbitrary: a) fastforce+

lemma side_text_length:
  "segments_cover a rs n \<Longrightarrow> length (side_text ours_of (map (segment_text t) rs)) \<le> n - a \<and>
    length (side_text theirs_of (map (segment_text t) rs)) \<le> n - a"
proof (induction rs arbitrary: a)
  case (Cons r rs)
  let ?e = "rng_end (segment_bounds r)"
  have "a < ?e" "?e \<le> n"
    and rest: "length (side_text ours_of (map (segment_text t) rs)) \<le> n - ?e \<and>
      length (side_text theirs_of (map (segment_text t) rs)) \<le> n - ?e"
    using Cons segments_cover_le [of ?e rs n] by simp_all
  moreover have "length (ours_of (segment_text t r)) \<le> ?e - a \<and> length (theirs_of (segment_text t r)) \<le> ?e - a"
  proof (cases r)
    case (Rng_Text x)
    then show ?thesis
      using length_text_for_range [of t x] Cons.prems by (simp add: rng_len_def)
  next
    case (Rng_Conflict b)
    then show ?thesis
      using length_text_for_range [of t "pr_ours b"] length_text_for_range [of t "pr_theirs b"]
        block_nested_sizes [of b] Cons.prems by simp
  qed
  ultimately show ?case
    by simp linarith
qed simp

section \<open>Markers and line endings\<close>

abbreviation markers :: "utext list" where
  "markers \<equiv> [opening_marker, base_marker, separator_marker, closing_marker]"

lemma marker_chars: "m \<in> set markers \<Longrightarrow> LF \<notin> set m \<and> CR \<notin> set m \<and> length m = 7"
  by (auto simp: marker_defs)

lemma starts_with_ending:
  assumes "m \<in> set markers" "set e \<subseteq> {LF, CR}"
  shows "starts_with (l @ e) m \<longleftrightarrow> starts_with l m"
proof (cases "length m \<le> length l")
  case True
  then show ?thesis
    by (simp add: starts_with_def)
next
  case False
  have short: "take (length m) l \<noteq> m"
    using False arg_cong [of "take (length m) l" m length] by fastforce
  have "take (length m) (l @ e) \<noteq> m"
  proof (cases e)
    case Nil
    then show ?thesis
      using short by simp
  next
    case (Cons c cs)
    then have "c \<in> set (take (length m) (l @ e))"
      using False by (cases "length m - length l") auto
    moreover have "c \<notin> set m"
      using Cons assms marker_chars [OF assms(1)] by auto
    ultimately show ?thesis
      by metis
  qed
  then show ?thesis
    using short by (simp add: starts_with_def)
qed

lemma strip_line_end_ending: "\<exists>e. set e \<subseteq> {LF, CR} \<and> l = strip_line_end l @ e"
proof (cases "ends_with l [LF]")
  case True
  then have l: "l = butlast l @ [LF]"
    using append_butlast_last_id [of l] by simp
  show ?thesis
  proof (cases "ends_with (butlast l) [CR]")
    case cr: True
    then have "butlast l = butlast (butlast l) @ [CR]"
      using append_butlast_last_id [of "butlast l"] by simp
    then have "l = strip_line_end l @ [CR, LF]"
      using True cr l by (simp add: strip_line_end_def Let_def) (metis append.assoc append_Cons append_Nil)
    then show ?thesis
      by (intro exI [of _ "[CR, LF]"]) simp
  next
    case False
    then have "strip_line_end l = butlast l"
      using True by (auto simp: strip_line_end_def Let_def)
    then have "l = strip_line_end l @ [LF]"
      using l by simp
    then show ?thesis
      by (intro exI [of _ "[LF]"]) simp
  qed
next
  case False
  then show ?thesis
    by (intro exI [of _ "[]"]) (auto simp: strip_line_end_def)
qed

lemma marker_strip: "m \<in> set markers \<Longrightarrow> starts_with (strip_line_end l) m \<longleftrightarrow> starts_with l m"
  using strip_line_end_ending [of l] starts_with_ending by metis

section \<open>Properties\<close>

text \<open>C26: The conflict marker parser finds what its description says. Working on byte positions with
  three nested loops, it returns exactly the context and the conflict blocks of the specification
  on whole lines: a block is an opening line, our lines up to a separator or base marker, the base
  lines up to the separator when there is a base marker, their lines up to a closing marker; lines
  of a block that is not complete stay context.\<close>

theorem parser_meets_specification: "parse_conflict_marker_segments t = segments_of (split_inclusive t)"
  by (rule parse_segments)

text \<open>The ranges the conflict marker parser returns cover the text: consecutive, not empty, from
  the first position to the last, and in every block the marker lines and the sides follow each other
  in order inside it. So no slice the parser takes can be out of range, and no line is lost.\<close>

theorem parsed_ranges_cover_text: "segments_cover 0 (parse_conflict_marker_ranges t) (length t)"
  by (rule parsed_cover)

text \<open>C36: The streaming scan agrees with the parser. On a reader that does not fail, and a budget
  larger than the file, it answers whether the parser finds a complete block; when the budget cuts the
  file, it answers whether the part read holds an opening marker.\<close>

theorem streaming_scan_agrees:
  "reader_has_conflict_markers \<lparr>rd_bytes = t, rd_fails = False\<rparr> budget =
    Io_Ok (if length t < budget then text_has_conflict_markers t
           else \<exists>l\<in>set (split_inclusive (take budget t)). is_open l)"
proof -
  have "scan_found ls False s \<Longrightarrow> \<not> s \<Longrightarrow> \<exists>l\<in>set ls. is_open l" for ls s
    by (induction ls) (auto split: if_splits)
  then show ?thesis
    by (auto simp: reader_has_conflict_markers_def reader_loop_reads Let_def has_markers_scan)
qed

text \<open>The source ranges of the conflict regions fit the reconstructed sides: the range of each
  region selects, in the text rebuilt for our side and in the one rebuilt for theirs, exactly the lines
  of that region's block.\<close>

lemma source_ranges_select_sides:
  assumes "length t \<le> usize_max"
  shows "list_all2 (region_selects (fst (reconstruct_conflict_marker_sides t)) (snd (reconstruct_conflict_marker_sides t)))
    (marker_region_source_ranges t) (filter_map conflict_of (parse_conflict_marker_segments t))"
proof -
  let ?rs = "parse_conflict_marker_ranges t"
  have w: "segments_whole (map (segment_text t) ?rs)"
    using segments_of_whole [OF whole_but_last_pieces [of t]] parse_segments [of t]
    by (simp add: parse_conflict_marker_segments_def)
  have bound: "length (lines (side_text f (map (segment_text t) ?rs))) \<le> usize_max"
    if "f = ours_of \<or> f = theirs_of" for f
    using that side_text_length [OF parsed_cover [of t], of t] assms
      length_lines_le [of "side_text f (map (segment_text t) ?rs)"] by auto
  show ?thesis
    using region_fold_selects [OF w, of "[]" "[]" 0 "[]"] bound
    by (auto simp: marker_region_source_ranges_def sides_of_segments parse_conflict_marker_segments_def)
qed

definition marked_example :: utext where
  "marked_example = str ''a'' @ [LF] @ opening_marker @ str '' ours'' @ [LF] @ str ''b'' @ [LF] @ separator_marker @ [LF] @
     closing_marker @ str '' theirs'' @ [LF]"

lemma source_ranges_select_sides_witness:
  "list_all2 (region_selects (fst (reconstruct_conflict_marker_sides marked_example)) (snd (reconstruct_conflict_marker_sides marked_example)))
    (marker_region_source_ranges marked_example) (filter_map conflict_of (parse_conflict_marker_segments marked_example))"
  by (rule source_ranges_select_sides) (simp add: marked_example_def marker_defs usize_max_def)


text \<open>Context and conflicts do not always alternate: context before a block that is never closed is a
  segment of its own, and so are the lines of that block.\<close>

lemma broken_block_after_context:
  "parse_conflict_marker_segments (str ''a'' @ [LF] @ opening_marker @ [LF]) =
    [Seg_Text (str ''a'' @ [LF]), Seg_Text (opening_marker @ [LF])]"
  by code_simp

end
