(* ===== verification/Render.thy ===== *)
theory Render
  imports Plan
begin

text \<open>
  Rendering a plan into the merged text: \<open>merge.rs\<close> from the parsing of the configured style and algorithm to
  \<open>render_merge_plan\<close>, the three marker styles, the decision on the trailing newline and the entry points that
  merge texts. A function that pushes onto \<open>output\<close> is modelled by the text it pushes; only the trailing
  newline decision reads the output back. \<open>None\<close> stands for the panic of the planner.
\<close>

section \<open>Configuration values\<close>

datatype config_value_source = Cli | GitConfig

definition parse_conflict_style :: "config_value_source \<Rightarrow> utext \<Rightarrow> conflict_style option" where
  "parse_conflict_style origin value =
     (if value = str ''merge'' then Some Style_Merge
      else if value = str ''diff3'' then Some Style_Diff3
      else if value = str ''zdiff3'' then Some Style_Zdiff3
      else None)"

definition parse_diff_algorithm :: "config_value_source \<Rightarrow> utext \<Rightarrow> merge_diff_algorithm option" where
  "parse_diff_algorithm origin value =
     (if value = str ''myers'' then Some Alg_Myers
      else if value = str ''histogram'' then Some Alg_Histogram
      else if value = str ''patience'' \<and> origin = GitConfig then Some Alg_Histogram
      else if (value = str ''default'' \<or> value = str ''minimal'') \<and> origin = GitConfig then Some Alg_Myers
      else None)"

section \<open>Markers\<close>

definition emit_marker :: "uchar \<Rightarrow> nat \<Rightarrow> utext option \<Rightarrow> utext \<Rightarrow> utext" where
  "emit_marker ch width label le =
     replicate width ch @ (case label of None \<Rightarrow> [] | Some l \<Rightarrow> [32] @ l) @ le"

definition common_prefix_suffix_lines :: "'a list \<Rightarrow> 'a list \<Rightarrow> nat \<times> nat" where
  "common_prefix_suffix_lines a b =
     (let hoisted_prefix = common_prefix_len a b in (hoisted_prefix, common_suffix_len hoisted_prefix a b))"

definition base_common_prefix_len :: "'a list \<Rightarrow> 'a list \<Rightarrow> nat" where
  "base_common_prefix_len base side = common_prefix_len base side"

definition base_common_suffix_len :: "'a list \<Rightarrow> 'a list \<Rightarrow> nat" where
  "base_common_suffix_len base side = common_prefix_len (rev base) (rev side)"

text \<open>The pieces of a zdiff3 conflict: the hoisted prefix, the three inner sections, the hoisted suffix.\<close>

definition zdiff3_sections ::
  "utext list \<Rightarrow> utext list \<Rightarrow> utext list \<Rightarrow> utext list \<times> utext list \<times> utext list \<times> utext list \<times> utext list" where
  "zdiff3_sections ours_lines theirs_lines base_lines =
     (let (prefix_len, suffix_len) = common_prefix_suffix_lines ours_lines theirs_lines;
          ours_end = max (length ours_lines - suffix_len) prefix_len;
          theirs_end = max (length theirs_lines - suffix_len) prefix_len;
          hoisted_prefix = take prefix_len ours_lines;
          hoisted_suffix = drop (length ours_lines - suffix_len) ours_lines;
          base_prefix = base_common_prefix_len base_lines hoisted_prefix;
          base_suffix = base_common_suffix_len base_lines hoisted_suffix;
          base_start = min base_prefix (length base_lines);
          base_end = max (length base_lines - base_suffix) base_start
      in (hoisted_prefix, slice ours_lines prefix_len ours_end, slice base_lines base_start base_end,
          slice theirs_lines prefix_len theirs_end, hoisted_suffix))"

definition emit_conflict_markers ::
  "utext list \<Rightarrow> utext list \<Rightarrow> utext list \<Rightarrow> merge_options \<Rightarrow> utext \<Rightarrow> utext" where
  "emit_conflict_markers ours_lines theirs_lines base_lines options le =
     (let ms = mo_marker_size options; labels = mo_labels options
      in case mo_style options of
        Style_Zdiff3 \<Rightarrow>
          (case zdiff3_sections ours_lines theirs_lines base_lines of
             (hoisted_prefix, ours_conflict, base_conflict, theirs_conflict, hoisted_suffix) \<Rightarrow>
               join_lines le hoisted_prefix @
               emit_marker 60 ms (lb_ours labels) le @ join_lines le ours_conflict @
               emit_marker 124 ms (lb_base labels) le @ join_lines le base_conflict @
               emit_marker 61 ms None le @ join_lines le theirs_conflict @
               emit_marker 62 ms (lb_theirs labels) le @
               join_lines le hoisted_suffix)
      | Style_Diff3 \<Rightarrow>
          emit_marker 60 ms (lb_ours labels) le @ join_lines le ours_lines @
          emit_marker 124 ms (lb_base labels) le @ join_lines le base_lines @
          emit_marker 61 ms None le @ join_lines le theirs_lines @
          emit_marker 62 ms (lb_theirs labels) le
      | Style_Merge \<Rightarrow>
          emit_marker 60 ms (lb_ours labels) le @ join_lines le ours_lines @
          emit_marker 61 ms None le @ join_lines le theirs_lines @
          emit_marker 62 ms (lb_theirs labels) le)"

section \<open>The lines of a plan\<close>

record merge_plan_line_slices =
  sl_a :: "utext list"
  sl_b :: "utext list"
  sl_c :: "utext list"

definition line_slices_new :: "merge_plan \<Rightarrow> merge_plan_line_slices" where
  "line_slices_new p =
     (case mp_base p of
        Some base \<Rightarrow> \<lparr>sl_a = split_lines base, sl_b = split_lines (mp_local p), sl_c = split_lines (mp_remote p)\<rparr>
      | None \<Rightarrow> \<lparr>sl_a = split_lines (mp_local p), sl_b = split_lines (mp_remote p), sl_c = []\<rparr>)"

fun slices_source :: "merge_plan_line_slices \<Rightarrow> merge_source \<Rightarrow> utext list" where
  "slices_source sl A = sl_a sl"
| "slices_source sl B = sl_b sl"
| "slices_source sl C = sl_c sl"

definition slices_block_source_lines ::
  "merge_plan_line_slices \<Rightarrow> merge_plan \<Rightarrow> merge_block \<Rightarrow> merge_source \<Rightarrow> utext list" where
  "slices_block_source_lines sl p b s =
     filter_map (\<lambda>r. Option.bind (row_line r s) (nth_opt (slices_source sl s))) (block_slice p b)"

definition slices_block_ancestor_lines ::
  "merge_plan_line_slices \<Rightarrow> merge_plan \<Rightarrow> merge_block \<Rightarrow> utext list" where
  "slices_block_ancestor_lines sl p b =
     (if \<not> has_base p then []
      else
        let start = (case Option.bind (find three_way_anchor (rev (take (rng_start (mb_rows b)) (mp_rows p)))) row_a of
              None \<Rightarrow> 0 | Some l \<Rightarrow> l + 1);
            stop = (case Option.bind (find three_way_anchor (drop (rng_end (mb_rows b)) (mp_rows p))) row_a of
              None \<Rightarrow> length (sl_a sl) | Some l \<Rightarrow> l)
        in slice (sl_a sl) (min start stop) stop)"

section \<open>Rendering\<close>

definition append_plan_source :: "merge_plan \<Rightarrow> merge_block \<Rightarrow> merge_source \<Rightarrow> merge_plan_line_slices \<Rightarrow> utext" where
  "append_plan_source p b s sl = concat (map (\<lambda>l. l @ mp_line_ending p) (slices_block_source_lines sl p b s))"

definition render_plan_conflict :: "merge_plan \<Rightarrow> merge_block \<Rightarrow> merge_options \<Rightarrow> merge_plan_line_slices \<Rightarrow> utext" where
  "render_plan_conflict p b options sl =
     (let ours = slices_block_source_lines sl p b (local_source p);
          theirs = slices_block_source_lines sl p b (remote_source p);
          base = slices_block_ancestor_lines sl p b
      in if has_base p then emit_conflict_markers ours theirs base options (mp_line_ending p)
         else emit_conflict_markers ours theirs [] (options\<lparr>mo_style := Style_Merge\<rparr>) (mp_line_ending p))"

definition strategy_selection :: "merge_options \<Rightarrow> merge_plan \<Rightarrow> merge_block \<Rightarrow> ordered_selection option" where
  "strategy_selection options p b =
     (if selection_is_empty (mb_selection b) then
        (case mo_strategy options of
           Strategy_Normal \<Rightarrow> None
         | Strategy_Ours \<Rightarrow> Some (selection_from_source (local_source p))
         | Strategy_Theirs \<Rightarrow> Some (selection_from_source (remote_source p))
         | Strategy_Union \<Rightarrow> Some (selection_from_sources [local_source p, remote_source p]))
      else Some (mb_selection b))"

text \<open>What one block pushes, and whether it counts as a conflict.\<close>

definition render_block ::
  "merge_plan \<Rightarrow> merge_options \<Rightarrow> merge_plan_line_slices \<Rightarrow> merge_block \<Rightarrow> utext \<times> nat" where
  "render_block p options sl b =
     (case mb_manual_content b of
        Some manual \<Rightarrow> (manual, 0)
      | None \<Rightarrow>
          (case strategy_selection options p b of
             Some selection \<Rightarrow> (concat (map (\<lambda>s. append_plan_source p b s sl) (sources selection)), 0)
           | None \<Rightarrow> (render_plan_conflict p b options sl, 1)))"

definition trim_end_matches :: "uchar \<Rightarrow> utext \<Rightarrow> utext" where
  "trim_end_matches c t = rev (dropWhile (\<lambda>x. x = c) (rev t))"

definition after_last_LF :: "utext \<Rightarrow> utext" where
  "after_last_LF t = rev (takeWhile (\<lambda>x. x \<noteq> LF) (rev t))"

definition has_trailing :: "utext \<Rightarrow> bool" where
  "has_trailing t \<longleftrightarrow> t = [] \<or> ends_with t [LF]"

definition last_matches :: "utext list \<Rightarrow> utext \<Rightarrow> bool" where
  "last_matches ls l \<longleftrightarrow> ls \<noteq> [] \<and> last ls = l"

definition want_trailing ::
  "utext \<Rightarrow> utext \<Rightarrow> utext list \<Rightarrow> utext \<Rightarrow> utext list \<Rightarrow> utext \<Rightarrow> utext list \<Rightarrow> bool" where
  "want_trailing output base_text base_lines ours_text ours_lines theirs_text theirs_lines \<longleftrightarrow>
     (let ours_has_trailing = has_trailing ours_text;
          theirs_has_trailing = has_trailing theirs_text;
          base_has_trailing = has_trailing base_text;
          output_last = after_last_LF (trim_end_matches CR (trim_end_matches LF output));
          ours_last_matches = last_matches ours_lines output_last;
          theirs_last_matches = last_matches theirs_lines output_last;
          base_last_matches = last_matches base_lines output_last
      in if ours_last_matches \<and> theirs_last_matches then
           (if ours_has_trailing = theirs_has_trailing then ours_has_trailing
            else if base_last_matches \<and> base_has_trailing = theirs_has_trailing then ours_has_trailing
            else if base_last_matches \<and> base_has_trailing = ours_has_trailing then theirs_has_trailing
            else ours_has_trailing)
         else if ours_last_matches then ours_has_trailing
         else if theirs_last_matches then theirs_has_trailing
         else if base_last_matches then base_has_trailing
         else True)"

definition apply_trailing_newline_decision ::
  "utext \<Rightarrow> utext \<Rightarrow> utext list \<Rightarrow> utext \<Rightarrow> utext list \<Rightarrow> utext \<Rightarrow> utext list \<Rightarrow> utext" where
  "apply_trailing_newline_decision output base_text base_lines ours_text ours_lines theirs_text theirs_lines =
     (if \<not> want_trailing output base_text base_lines ours_text ours_lines theirs_text theirs_lines then
        (if ends_with output [CR, LF] then take (length output - 2) output
         else if ends_with output [LF] then take (length output - 1) output
         else output)
      else output)"

record merge_result =
  mr_output :: utext
  mr_conflict_count :: nat

definition is_clean :: "merge_result \<Rightarrow> bool" where
  "is_clean r \<longleftrightarrow> mr_conflict_count r = 0"

definition final_block_is_manual :: "merge_plan \<Rightarrow> bool" where
  "final_block_is_manual p \<longleftrightarrow> mp_blocks p \<noteq> [] \<and> mb_manual_content (last (mp_blocks p)) \<noteq> None"

definition render_merge_plan :: "merge_plan \<Rightarrow> merge_options \<Rightarrow> merge_result" where
  "render_merge_plan p options =
     (let sl = line_slices_new p;
          rendered = map (render_block p options sl) (mp_blocks p);
          output = concat (map fst rendered);
          conflict_count = sum_list (map snd rendered)
      in \<lparr>mr_output =
            (if \<not> final_block_is_manual p
             then apply_trailing_newline_decision output
               (case mp_base p of Some b \<Rightarrow> b | None \<Rightarrow> [])
               (if has_base p then slices_source sl A else [])
               (mp_local p) (slices_source sl (local_source p))
               (mp_remote p) (slices_source sl (remote_source p))
             else output),
          mr_conflict_count = conflict_count\<rparr>)"

section \<open>Entry points\<close>

definition merge_file_with_optional_base ::
  "utext option \<Rightarrow> utext \<Rightarrow> utext \<Rightarrow> merge_options \<Rightarrow> merge_result option" where
  "merge_file_with_optional_base base ours theirs options =
     map_option (\<lambda>p. render_merge_plan p options) (build_merge_plan_with_optional_base base ours theirs options)"

definition merge_file_optional_base ::
  "utext option \<Rightarrow> utext \<Rightarrow> utext \<Rightarrow> merge_options \<Rightarrow> merge_result option" where
  "merge_file_optional_base base ours theirs options = merge_file_with_optional_base base ours theirs options"

definition merge_file :: "utext \<Rightarrow> utext \<Rightarrow> utext \<Rightarrow> merge_options \<Rightarrow> merge_result option" where
  "merge_file base ours theirs options = merge_file_with_optional_base (Some base) ours theirs options"

section \<open>The plan's own line functions\<close>

lemma slices_source [simp]: "slices_source (line_slices_new p) s = source_lines p s"
  by (cases s) (auto simp: line_slices_new_def source_lines_def has_base_def split: option.splits)

lemma slices_a [simp]: "sl_a (line_slices_new p) = source_lines p A"
  using slices_source [of p A] by (simp del: slices_source)

lemma slices_block_source_lines [simp]: "slices_block_source_lines (line_slices_new p) p b s = block_source_lines p b s"
  by (simp add: slices_block_source_lines_def block_source_lines_def)

lemma slices_block_ancestor_lines [simp]: "slices_block_ancestor_lines (line_slices_new p) p b = block_ancestor_lines p b"
proof (cases "has_base p")
  case True
  have "base_length p = length (source_lines p A)"
    using True by (auto simp: base_length_def source_lines_def has_base_def split_inclusive_length)
  then show ?thesis
    using True
    by (simp add: slices_block_ancestor_lines_def block_ancestor_lines_def block_ancestor_range_def Let_def
        cong: option.case_cong)
next
  case False
  then show ?thesis
    by (simp add: slices_block_ancestor_lines_def block_ancestor_lines_def block_ancestor_range_def)
qed

lemma append_plan_source [simp]:
  "append_plan_source p b s (line_slices_new p) = join_lines (mp_line_ending p) (block_source_lines p b s)"
  by (simp add: append_plan_source_def join_lines_def)

section \<open>Counting conflicts\<close>

lemma render_block_count:
  "snd (render_block p options sl b) =
    (if mo_strategy options = Strategy_Normal \<and> \<not> block_is_resolved b then 1 else 0)"
  by (auto simp: render_block_def strategy_selection_def block_is_resolved_def split: option.splits merge_strategy.splits)

lemma sum_list_indicator: "sum_list (map (\<lambda>x. if P x then 1 else 0) xs) = length (filter P xs)"
  by (induction xs) auto

lemma render_count:
  "mr_conflict_count (render_merge_plan p options) =
    (if mo_strategy options = Strategy_Normal then length (filter (\<lambda>b. \<not> block_is_resolved b) (mp_blocks p)) else 0)"
proof -
  have "mr_conflict_count (render_merge_plan p options) =
      sum_list (map (\<lambda>b. if mo_strategy options = Strategy_Normal \<and> \<not> block_is_resolved b then 1 else 0) (mp_blocks p))"
    by (simp add: render_merge_plan_def Let_def o_def render_block_count)
  then show ?thesis
    by (simp add: sum_list_indicator)
qed

section \<open>The trailing newline\<close>

text \<open>A text written out line by line with one ending, the last line terminated or not.\<close>

definition written :: "utext \<Rightarrow> utext list \<Rightarrow> bool \<Rightarrow> utext" where
  "written e ls trailing =
     (if trailing \<or> ls = [] then join_lines e ls else join_lines e (butlast ls) @ last ls)"

lemma join_lines_LF: "eol_ok e \<Longrightarrow> join_lines e ls = [] \<or> (\<exists>t. join_lines e ls = t @ [LF])"
proof (induction ls)
  case (Cons l ls)
  then show ?case
    by (cases "join_lines e ls = []") (auto simp: eol_ok_def)
qed simp

lemma clean_last: "clean_line l \<Longrightarrow> l \<noteq> [] \<Longrightarrow> last l \<noteq> LF \<and> last l \<noteq> CR"
  by (metis clean_line_def ends_with_singleton last_in_set)

lemma join_lines_snoc: "ls \<noteq> [] \<Longrightarrow> join_lines e ls = join_lines e (butlast ls) @ last ls @ e"
  by (cases ls rule: rev_cases) simp_all

lemma output_last_line:
  assumes "ls \<noteq> []" "clean_line (last ls)" "last ls \<noteq> []" "eol_ok e"
  shows "after_last_LF (trim_end_matches CR (trim_end_matches LF (join_lines e ls))) = last ls"
proof -
  obtain us x where l: "last ls = us @ [x]"
    using assms(3) by (metis append_butlast_last_id)
  have x: "x \<noteq> LF" "x \<noteq> CR"
    using clean_last [OF assms(2,3)] l by auto
  have us: "LF \<notin> set us"
    using assms(2) l by (simp add: clean_line_def)
  let ?pre = "join_lines e (butlast ls)"
  have "join_lines e ls = ?pre @ last ls @ e"
    by (rule join_lines_snoc [OF assms(1)])
  then have "trim_end_matches CR (trim_end_matches LF (join_lines e ls)) = ?pre @ us @ [x]"
    using x assms(4) by (auto simp: trim_end_matches_def eol_ok_def l)
  moreover have "after_last_LF (?pre @ us @ [x]) = us @ [x]"
  proof -
    have tw: "takeWhile (\<lambda>c. c \<noteq> LF) (rev us @ ys) = rev us @ takeWhile (\<lambda>c. c \<noteq> LF) ys" for ys
      by (rule takeWhile_append2) (use us in auto)
    show ?thesis
      using join_lines_LF [OF assms(4), of "butlast ls"] x(1) tw by (auto simp: after_last_LF_def)
  qed
  ultimately show ?thesis
    by (simp add: l)
qed

lemma has_trailing_written:
  assumes "eol_ok e" "ls \<noteq> [] \<longrightarrow> clean_line (last ls) \<and> last ls \<noteq> []"
  shows "has_trailing (written e ls trailing) \<longleftrightarrow> trailing \<or> ls = []"
proof (cases "trailing \<or> ls = []")
  case True
  then show ?thesis
    using join_lines_LF [OF assms(1), of ls] by (auto simp: written_def has_trailing_def)
next
  case False
  then obtain us x where l: "last ls = us @ [x]"
    using assms(2) by (metis append_butlast_last_id)
  then have "x \<noteq> LF"
    using clean_last [of "last ls"] assms(2) False by auto
  then show ?thesis
    using False l by (simp add: written_def has_trailing_def ends_with_def)
qed

text \<open>Taking the final ending off a written text.\<close>

lemma drop_final_ending:
  assumes "ls \<noteq> []" "clean_line (last ls)" "last ls \<noteq> []" "eol_ok e"
  shows "(if ends_with (join_lines e ls) [CR, LF] then take (length (join_lines e ls) - 2) (join_lines e ls)
     else if ends_with (join_lines e ls) [LF] then take (length (join_lines e ls) - 1) (join_lines e ls)
     else join_lines e ls) = written e ls False"
proof -
  obtain us x where l: "last ls = us @ [x]"
    using assms(3) by (metis append_butlast_last_id)
  have x: "x \<noteq> CR"
    using clean_last [OF assms(2,3)] l by auto
  have "join_lines e ls = join_lines e (butlast ls) @ last ls @ e"
    by (rule join_lines_snoc [OF assms(1)])
  then show ?thesis
    using assms(1,4) x unfolding l by (auto simp: written_def l eol_ok_def ends_with_def)
qed

lemma trailing_decision:
  assumes "eol_ok e" "ls \<noteq> [] \<longrightarrow> clean_line (last ls) \<and> last ls \<noteq> []"
    and "want_trailing (join_lines e ls) bt bls ot ols tt tls = (trailing \<or> ls = [])"
  shows "apply_trailing_newline_decision (join_lines e ls) bt bls ot ols tt tls = written e ls trailing"
  using assms drop_final_ending [of ls e]
  by (cases "trailing \<or> ls = []") (auto simp: apply_trailing_newline_decision_def written_def)

section \<open>Plans whose blocks all read one source\<close>

definition raw_output :: "merge_plan \<Rightarrow> merge_options \<Rightarrow> utext" where
  "raw_output p options = concat (map (\<lambda>b. fst (render_block p options (line_slices_new p) b)) (mp_blocks p))"

definition reads_source :: "merge_plan \<Rightarrow> merge_options \<Rightarrow> merge_source \<Rightarrow> merge_block \<Rightarrow> bool" where
  "reads_source p options s b \<longleftrightarrow> mb_manual_content b = None \<and>
     (\<exists>sel. strategy_selection options p b = Some sel \<and>
       concat (map (block_source_lines p b) (sources sel)) = block_source_lines p b s)"

lemma concat_join_lines: "concat (map (\<lambda>x. join_lines e (f x)) xs) = join_lines e (concat (map f xs))"
  by (induction xs) auto

lemma render_reads_source:
  "reads_source p options s b \<Longrightarrow>
    fst (render_block p options (line_slices_new p) b) = join_lines (mp_line_ending p) (block_source_lines p b s)"
  by (auto simp: reads_source_def render_block_def concat_join_lines)

lemma raw_output_reads:
  assumes "\<forall>b\<in>set (mp_blocks p). reads_source p options s b"
    and "concat (map (\<lambda>b. block_source_lines p b s) (mp_blocks p)) = source_lines p s"
  shows "raw_output p options = join_lines (mp_line_ending p) (source_lines p s)"
proof -
  have "raw_output p options = concat (map (\<lambda>b. join_lines (mp_line_ending p) (block_source_lines p b s)) (mp_blocks p))"
    unfolding raw_output_def using assms(1) render_reads_source by (metis (no_types, lifting) map_cong)
  then show ?thesis
    by (simp add: concat_join_lines assms(2))
qed

lemma reads_not_manual: "\<forall>b\<in>set (mp_blocks p). reads_source p options s b \<Longrightarrow> \<not> final_block_is_manual p"
  using last_in_set [of "mp_blocks p"] by (fastforce simp: final_block_is_manual_def reads_source_def)

lemma render_output:
  "\<not> final_block_is_manual p \<Longrightarrow> mr_output (render_merge_plan p options) =
    apply_trailing_newline_decision (raw_output p options)
      (case mp_base p of Some b \<Rightarrow> b | None \<Rightarrow> []) (if has_base p then source_lines p A else [])
      (mp_local p) (source_lines p (local_source p)) (mp_remote p) (source_lines p (remote_source p))"
  by (simp add: render_merge_plan_def Let_def raw_output_def o_def)

section \<open>One side unchanged\<close>

lemma equal_chunk_rows:
  obtains ids where "linked (build_ab (equal_chunk n)) ids"
    "\<forall>r\<in>set (rows_of (build_ab (equal_chunk n)) ids). row_a r = row_b r"
proof (cases "0 < n")
  case True
  obtain ids where ids: "linked (foldl push_back rl_empty (ab_rows \<lparr>ch_equal = n, ch_left = 0, ch_right = 0\<rparr> 0 0)) ids"
    "rows_of (foldl push_back rl_empty (ab_rows \<lparr>ch_equal = n, ch_left = 0, ch_right = 0\<rparr> 0 0)) ids =
      ab_rows \<lparr>ch_equal = n, ch_left = 0, ch_right = 0\<rparr> 0 0"
    using linked_push_rows [OF linked_empty] by (metis append_Nil list.simps(8))
  have "\<forall>r\<in>set (ab_rows \<lparr>ch_equal = n, ch_left = 0, ch_right = 0\<rparr> 0 0). row_a r = row_b r"
    by (auto simp: ab_rows_def Let_def)
  then show ?thesis
    using that [of ids] ids True by (simp add: build_ab_def equal_chunk_def)
next
  case False
  then show ?thesis
    using that [of "[]"] by (simp add: build_ab_def equal_chunk_def)
qed

lemma same_sides_rows:
  assumes "base_anchored_list al al cl options [] = Some lst"
  shows "\<forall>r\<in>set (into_rows lst). row_same al cl r"
proof -
  let ?first = "two_input_list al al cl True options []"
  obtain ids0 where l0: "linked (build_ab (equal_chunk (length al))) ids0"
    "\<forall>r\<in>set (rows_of (build_ab (equal_chunk (length al))) ids0). row_a r = row_b r"
    by (rule equal_chunk_rows)
  have first: "?first = recompute_rows_in_list al al cl (build_ab (equal_chunk (length al)))"
    by (simp add: two_input_list_def segments_for_def diff_chunks_segmented_def diff_chunks_same)
  obtain ids where l: "linked ?first ids"
    and cols: "column A (rows_of ?first ids) = [0..<length al]" "column B (rows_of ?first ids) = [0..<length al]"
      "column C (rows_of ?first ids) = []" "\<forall>r\<in>set (rows_of ?first ids). recompute_row_metadata al al cl r = r"
    by (rule two_input_rows [of "[]" al al cl True options]) auto
  have "rows_of ?first ids = into_rows ?first"
    by (rule into_rows_linked [OF l, symmetric])
  also have "\<dots> = map (recompute_row_metadata al al cl) (rows_of (build_ab (equal_chunk (length al))) ids0)"
    unfolding first by (rule into_rows_recomputed [OF l0(1)])
  finally have same: "\<forall>r\<in>set (rows_of ?first ids). row_a r = row_b r"
    using l0(2) by simp
  let ?chs = "diff_chunks_segmented al cl (mo_diff_algorithm options) (segments_for [] True A al C cl)"
  have tot: "left_total ?chs \<le> length al"
    by (simp add: segments_for_def diff_chunks_segmented_def diff_chunks_total)
  obtain rl ids' where rl: "integrate_ac ?first ?chs = Some rl" "linked rl ids'" "column A (rows_of rl ids') = [0..<length al]"
    "column B (rows_of rl ids') = column B (rows_of ?first ids)" "column C (rows_of rl ids') = [0..<right_total ?chs]"
    "\<forall>r\<in>set (rows_of rl ids'). row_a r = row_b r"
    by (rule integrate_ac_columns [where Q = "(=)", OF l cols(1,3) tot refl same])
  let ?rows = "into_rows (recompute_rows_in_list al al cl rl)"
  let ?trim = "trim_rows ?rows al al cl (barriers_new [] True)"
  have rows: "?rows = map (recompute_row_metadata al al cl) (rows_of rl ids')"
    by (rule into_rows_recomputed [OF rl(2)])
  have "\<forall>r\<in>set ?trim. row_same al cl r"
  proof (rule trim_rows_same [OF barriers_new_Nil])
    show "\<forall>r\<in>set ?rows. row_a r = row_b r"
      unfolding rows using rl(6) by simp
    show "\<forall>i\<in>set (column A ?rows). i < length al"
      unfolding rows column_recompute rl(3) by simp
  qed
  moreover have "lst = recompute_rows_in_list al al cl (from_rows ?trim)"
    using assms rl(1) by (simp add: base_anchored_list_def Let_def)
  moreover have "into_rows (recompute_rows_in_list al al cl (from_rows ?trim)) = ?trim"
    by (rule reloaded_rows [of ?trim al al cl]) (use trim_rows_metadata in blast)+
  ultimately show ?thesis
    by simp
qed

lemma one_sided_blocks:
  assumes "build_merge_plan_with_optional_base (Some base) base theirs options = Some p"
  shows "\<forall>b\<in>set (mp_blocks p). reads_source p options C b"
proof
  fix b
  assume in_plan: "b \<in> set (mp_blocks p)"
  note p = built_plan [OF assms]
  have tw: "has_base p"
    using p(3) by (simp add: has_base_def)
  have src: "source_lines p A = lines base" "source_lines p B = lines base" "source_lines p C = lines theirs"
    using p(3-5) by (simp_all add: source_lines_def has_base_def)
  obtain lst where lst: "base_anchored_list (lines base) (lines base) (lines theirs) options [] = Some lst" "mp_rows p = into_rows lst"
    using assms by (auto simp: build_merge_plan_with_optional_base_def build_merge_plan_with_alignments_def
        alignments_new_def plan_rows_def Let_def split: option.splits)
  have same: "row_same (lines base) (lines theirs) r" if "r \<in> set (mp_rows p)" for r
    using same_sides_rows [OF lst(1)] lst(2) that by simp
  have b: "b \<in> set (build_blocks (mp_rows p) True (source_lines p A) (source_lines p B) (source_lines p C))"
    using in_plan p(2) tw by (simp add: plan_complete_def)
  have range: "rng_start (mb_rows b) < rng_end (mb_rows b)" "rng_end (mb_rows b) \<le> length (mp_rows p)"
    using tiles_in [of "map mb_rows (mp_blocks p)" 0 "length (mp_rows p)" "mb_rows b"] p(1) in_plan
    by (auto simp: plan_ok_def)
  have row: "\<exists>s. mb_selection b = selection_from_source s \<and> cell p (mp_rows p ! i) s = cell p (mp_rows p ! i) C"
    if i: "rng_contains (mb_rows b) i" for i
  proof -
    have r: "mp_rows p ! i \<in> set (mp_rows p)"
      using i range by (simp add: rng_contains_def)
    then have "row_nonempty (mp_rows p ! i)"
      using p(2) tw by (simp add: plan_complete_def)
    moreover have "cell p (mp_rows p ! i) A = cell p (mp_rows p ! i) B"
      using same [OF r] src by (simp add: cell_def row_same_def)
    ultimately show ?thesis
      using three_way_decision [OF p(2) r] build_blocks_decision(2) [OF b] build_blocks_decision(5) [OF b i]
      by (simp add: diff3_pick_def)
  qed
  have "rng_contains (mb_rows b) (rng_start (mb_rows b))"
    using range by (simp add: rng_contains_def)
  from row [OF this] obtain s where s: "mb_selection b = selection_from_source s"
    by blast
  have "cell p r s = cell p r C" if "r \<in> set (block_slice p b)" for r
  proof -
    obtain k where k: "k < length (block_slice p b)" "r = block_slice p b ! k"
      using \<open>r \<in> set (block_slice p b)\<close> by (metis in_set_conv_nth)
    then have i: "rng_contains (mb_rows b) (rng_start (mb_rows b) + k)" "r = mp_rows p ! (rng_start (mb_rows b) + k)"
      using range by (auto simp: block_slice_def rng_contains_def nth_slice)
    obtain s' where "mb_selection b = selection_from_source s'" "cell p r s' = cell p r C"
      using row [OF i(1)] i(2) by blast
    then show ?thesis
      using s by (simp add: selection_from_source_def)
  qed
  then have "block_source_lines p b s = block_source_lines p b C"
    unfolding block_source_lines_def by (intro filter_map_cong refl) (simp add: cell_def)
  moreover have "strategy_selection options p b = Some (selection_from_source s)"
    by (simp add: strategy_selection_def s selection_is_empty_def selection_from_source_def)
  ultimately show "reads_source p options C b"
    using build_blocks_decision(1) [OF b] by (auto simp: reads_source_def selection_from_source_def)
qed

lemma reads_source_resolved:
  "mo_strategy options = Strategy_Normal \<Longrightarrow> reads_source p options s b \<Longrightarrow> block_is_resolved b"
  by (auto simp: reads_source_def block_is_resolved_def strategy_selection_def split: if_splits)

lemma reads_source_count:
  "\<forall>b\<in>set (mp_blocks p). reads_source p options s b \<Longrightarrow> mr_conflict_count (render_merge_plan p options) = 0"
  using reads_source_resolved [of options p s] by (auto simp: render_count)

lemma last_clean: "\<forall>l\<in>set ls. \<not> ends_with l [CR] \<Longrightarrow> ls = lines t \<Longrightarrow> ls \<noteq> [] \<Longrightarrow> clean_line (last ls)"
  using lines_no_LF [of "last ls" t] by (simp add: clean_line_def)

text \<open>A last line that is blank ends with a line feed.\<close>

lemma blank_last_terminated: "last_matches (lines t) [] \<Longrightarrow> has_trailing t"
proof (rule ccontr)
  assume m: "last_matches (lines t) []" and "\<not> has_trailing t"
  then have ne: "t \<noteq> []" "last t \<noteq> LF"
    by (auto simp: has_trailing_def)
  let ?l = "last (split_inclusive t)"
  have l: "?l \<noteq> []"
    using ne(1) split_inclusive_nonempty [of ?l t] by simp
  have "concat (split_inclusive t) = concat (butlast (split_inclusive t)) @ ?l"
    using ne(1) by (cases "split_inclusive t" rule: rev_cases) auto
  then have "last t = last ?l"
    using l by (metis concat_split_inclusive last_append)
  then have "strip_line_end ?l \<noteq> []"
    using l ne(2) by (simp add: strip_line_end_def)
  then show False
    using m ne(1) by (simp add: last_matches_def lines_def last_map)
qed

lemma lines_written:
  assumes "eol_ok e" "\<forall>l\<in>set ls. clean_line l" "ls \<noteq> [] \<longrightarrow> last ls \<noteq> []"
  shows "lines (written e ls trailing) = ls"
proof (cases "trailing \<or> ls = []")
  case True
  then show ?thesis
    using assms lines_join_lines by (simp add: written_def)
next
  case False
  have "lines (join_lines e us @ t) = us @ lines t" if "\<forall>l\<in>set us. clean_line l" for us t
    using that assms(1) by (induction us) (simp_all add: lines_cons)
  moreover have "lines (last ls) = [last ls]"
  proof -
    have l: "clean_line (last ls)" "last ls \<noteq> []"
      using False assms(2,3) by simp_all
    then show ?thesis
      using clean_last [OF l] by (simp add: lines_def split_inclusive_no_LF clean_line_def strip_line_end_def)
  qed
  ultimately show ?thesis
    using False assms(2) by (simp add: written_def in_set_butlastD)
qed

section \<open>Properties\<close>

text \<open>C3: When our side is the unchanged base, the merge is their side, character for character and without conflicts,
  whatever the options, provided their side is written with the line ending the planner detects (its last
  line terminated or not), its lines do not end in a carriage return and its last line is not blank. The last condition cannot be dropped:
  \<open>appended_blank_line_is_lost\<close> shows their text losing a blank line it appends.\<close>

theorem unchanged_ours_takes_theirs:
  assumes "theirs = written (detect_line_ending (Some base) base theirs) (lines theirs) trailing"
    and "\<forall>l\<in>set (lines theirs). \<not> ends_with l [CR]" "lines theirs \<noteq> [] \<longrightarrow> last (lines theirs) \<noteq> []"
  shows "merge_file base base theirs options = Some \<lparr>mr_output = theirs, mr_conflict_count = 0\<rparr>"
proof -
  let ?e = "detect_line_ending (Some base) base theirs" and ?ls = "lines theirs"
  obtain p where b: "build_merge_plan_with_optional_base (Some base) base theirs options = Some p"
    using plan_exists by blast
  note p = built_plan [OF b]
  have src: "source_lines p A = lines base" "source_lines p B = lines base" "source_lines p C = ?ls"
    using p(3-5) by (simp_all add: source_lines_def has_base_def)
  note reads = one_sided_blocks [OF b]
  have raw: "raw_output p options = join_lines ?e ?ls"
    using raw_output_reads [OF reads blocks_concat [OF p(1) same_inputs_refl p(2)]] p(6) src(3) by simp
  have clean: "?ls \<noteq> [] \<longrightarrow> clean_line (last ?ls) \<and> last ?ls \<noteq> []"
    using last_clean [OF assms(2) refl] assms(3) by simp
  have trailing: "has_trailing theirs \<longleftrightarrow> trailing \<or> ?ls = []"
    using has_trailing_written [OF _ clean, of ?e trailing] assms(1) by (metis eol_ok_detect_line_ending)
  have "want_trailing (join_lines ?e ?ls) base (lines base) base (lines base) theirs ?ls = (trailing \<or> ?ls = [])"
  proof (cases "?ls = []")
    case True
    then have "theirs = []"
      by (simp add: lines_def)
    moreover have "trim_end_matches CR (trim_end_matches LF []) = []" "after_last_LF [] = []"
      by (simp_all add: trim_end_matches_def after_last_LF_def)
    moreover have "last_matches (lines base) [] \<Longrightarrow> has_trailing base"
      by (rule blank_last_terminated)
    ultimately show ?thesis
      using True by (simp add: want_trailing_def Let_def last_matches_def)
  next
    case False
    then have last: "after_last_LF (trim_end_matches CR (trim_end_matches LF (join_lines ?e ?ls))) = last ?ls"
      using output_last_line [of ?ls ?e] clean by simp
    then have "last_matches ?ls (after_last_LF (trim_end_matches CR (trim_end_matches LF (join_lines ?e ?ls))))"
      using False by (simp add: last_matches_def)
    then show ?thesis
      using trailing unfolding want_trailing_def Let_def by argo
  qed
  from trailing_decision [OF _ clean this] have out: "mr_output (render_merge_plan p options) = theirs"
    using render_output [OF reads_not_manual [OF reads]] raw p(3-5) src assms(1)
    by (simp add: has_base_def local_source_def remote_source_def)
  have "render_merge_plan p options = \<lparr>mr_output = theirs, mr_conflict_count = 0\<rparr>"
    using out reads_source_count [OF reads] by (cases "render_merge_plan p options") simp
  then show ?thesis
    by (simp add: merge_file_def merge_file_with_optional_base_def b)
qed

theorem unchanged_ours_takes_theirs_witness:
  "merge_file (str ''a'') (str ''a'') (str ''b'' @ [LF] @ str ''c'' @ [LF]) default_options =
     Some \<lparr>mr_output = str ''b'' @ [LF] @ str ''c'' @ [LF], mr_conflict_count = 0\<rparr>"
proof (rule unchanged_ours_takes_theirs [where trailing = True])
  have ls: "lines (str ''b'' @ [LF] @ str ''c'' @ [LF]) = [str ''b'', str ''c'']"
    by code_simp
  have e: "detect_line_ending (Some (str ''a'')) (str ''a'') (str ''b'' @ [LF] @ str ''c'' @ [LF]) = [LF]"
    by code_simp
  show "str ''b'' @ [LF] @ str ''c'' @ [LF] =
      written (detect_line_ending (Some (str ''a'')) (str ''a'') (str ''b'' @ [LF] @ str ''c'' @ [LF]))
        (lines (str ''b'' @ [LF] @ str ''c'' @ [LF])) True"
    unfolding ls e by (simp add: written_def)
  show "\<forall>l\<in>set (lines (str ''b'' @ [LF] @ str ''c'' @ [LF])). \<not> ends_with l [CR]"
    "lines (str ''b'' @ [LF] @ str ''c'' @ [LF]) \<noteq> [] \<longrightarrow> last (lines (str ''b'' @ [LF] @ str ''c'' @ [LF])) \<noteq> []"
    unfolding ls by (simp_all add: str_def)
qed

text \<open>C5: The reported number of conflicts is the number of unresolved blocks of the plan under the normal strategy, and zero
  under every strategy that picks a side, for every plan reachable from a built one.\<close>

theorem conflict_count_is_unresolved:
  assumes "build_merge_plan_with_optional_base base local remote options = Some p" "plan_reachable p q"
  shows "mr_conflict_count (render_merge_plan q options) =
    (if mo_strategy options = Strategy_Normal then unresolved_count q else 0)"
proof -
  have "plan_ok q"
    using plan_reachable_keeps [OF assms(2) built_plan(1) [OF assms(1)]] by simp
  then show ?thesis
    by (simp add: render_count unresolved_count_def plan_ok_def length_indices_where)
qed

theorem conflict_count_is_unresolved_witness:
  "\<exists>p. build_merge_plan_with_optional_base None (str ''a'') (str ''b'') default_options = Some p \<and>
     mr_conflict_count (render_merge_plan p default_options) = unresolved_count p"
proof -
  obtain p where p: "build_merge_plan_with_optional_base None (str ''a'') (str ''b'') default_options = Some p"
    using plan_exists by blast
  from conflict_count_is_unresolved [OF p plan_reachable.start] show ?thesis
    using p by (auto simp: default_options_def)
qed

text \<open>Choosing one and the same source in every block gives a merged text without conflicts whose lines are exactly the
  lines of that input, when the lines do not end in a carriage return and the last one is not blank.\<close>

lemma choosing_one_source:
  assumes "build_merge_plan_with_optional_base base local remote options = Some p" "plan_reachable p q"
    and "\<forall>b\<in>set (mp_blocks q). mb_selection b = selection_from_source s \<and> mb_manual_content b = None"
    and "\<forall>l\<in>set (source_lines p s). \<not> ends_with l [CR]" "source_lines p s \<noteq> [] \<longrightarrow> last (source_lines p s) \<noteq> []"
  shows "mr_conflict_count (render_merge_plan q options) = 0 \<and> lines (mr_output (render_merge_plan q options)) = source_lines p s"
proof -
  note p = built_plan [OF assms(1)]
  have q: "plan_ok q" "same_inputs p q"
    using plan_reachable_keeps [OF assms(2) p(1)] by auto
  have src: "source_lines q s = source_lines p s"
    using q(2) by (cases s) (auto simp: same_inputs_def source_lines_def has_base_def)
  have e: "eol_ok (mp_line_ending q)"
    using q(2) p(6) eol_ok_detect_line_ending [of base local remote] by (simp add: same_inputs_def)
  have reads: "\<forall>b\<in>set (mp_blocks q). reads_source q options s b"
    using assms(3) by (auto simp: reads_source_def strategy_selection_def selection_from_source_def selection_is_empty_def)
  have "\<exists>t. source_lines p s = lines t"
    by (cases "source_text p s") (auto simp: source_lines_def intro: exI [of _ "[]"])
  then have clean: "\<forall>l\<in>set (source_lines p s). clean_line l"
    using assms(4) lines_no_LF by (auto simp: clean_line_def)
  have raw: "raw_output q options = join_lines (mp_line_ending q) (source_lines p s)"
    using raw_output_reads [OF reads blocks_concat [OF q p(2)]] src by simp
  have last: "source_lines p s \<noteq> [] \<longrightarrow> clean_line (last (source_lines p s)) \<and> last (source_lines p s) \<noteq> []"
    using clean assms(5) by auto
  obtain trailing where "mr_output (render_merge_plan q options) = written (mp_line_ending q) (source_lines p s) trailing"
  proof (cases "source_lines p s = []")
    case True
    then show ?thesis
      using that [of True] raw by (simp add: render_output [OF reads_not_manual [OF reads]] written_def
          apply_trailing_newline_decision_def ends_with_def)
  next
    case False
    then show ?thesis
      using that trailing_decision [OF e last] raw render_output [OF reads_not_manual [OF reads]] by metis
  qed
  then show ?thesis
    using lines_written [OF e clean assms(5)] reads_source_count [OF reads] by simp
qed

lemma choosing_one_source_witness:
  "\<exists>p q. build_merge_plan_with_optional_base None (str ''a'') (str ''a'') default_options = Some p \<and> plan_reachable p q \<and>
     lines (mr_output (render_merge_plan q default_options)) = [str ''a'']"
proof -
  obtain p where p: "build_merge_plan_with_optional_base None (str ''a'') (str ''a'') default_options = Some p"
    using plan_exists by blast
  note ok = built_plan [OF p]
  have src: "source_lines p A = [str ''a'']" "source_lines p B = [str ''a'']"
    using ok(3-5) by (simp_all add: source_lines_def has_base_def lines_def str_def strip_line_end_def)
  have "reads_ok b" if "b \<in> set (mp_blocks p)" "reads_ok = (\<lambda>b. mb_selection b = selection_from_source A \<and> mb_manual_content b = None)"
    for b reads_ok
  proof -
    have b: "b \<in> set (build_blocks (mp_rows p) False (source_lines p A) (source_lines p B) (source_lines p C))"
      using that(1) ok(2,3) by (simp add: plan_complete_def has_base_def)
    have range: "rng_contains (mb_rows b) (rng_start (mb_rows b))" "rng_start (mb_rows b) < length (mp_rows p)"
      using tiles_in [of "map mb_rows (mp_blocks p)" 0 "length (mp_rows p)" "mb_rows b"] ok(1) that(1)
      by (auto simp: plan_ok_def rng_contains_def)
    let ?r = "mp_rows p ! rng_start (mb_rows b)"
    have "into_rows (two_input_list [str ''a''] [str ''a''] [] False default_options []) = mp_rows p"
      using p by (auto simp: build_merge_plan_with_optional_base_def build_merge_plan_with_alignments_def alignments_new_def
          plan_rows_def Let_def lines_def str_def strip_line_end_def)
    moreover have "into_rows (two_input_list [str ''a''] [str ''a''] [] False default_options []) =
        [recompute_row_metadata [str ''a''] [str ''a''] [] (row_default\<lparr>row_a := Some 0, row_b := Some 0\<rparr>)]"
    proof -
      obtain ids where ids: "linked (foldl push_back rl_empty (ab_rows \<lparr>ch_equal = 1, ch_left = 0, ch_right = 0\<rparr> 0 0)) ids"
        "rows_of (foldl push_back rl_empty (ab_rows \<lparr>ch_equal = 1, ch_left = 0, ch_right = 0\<rparr> 0 0)) ids =
          ab_rows \<lparr>ch_equal = 1, ch_left = 0, ch_right = 0\<rparr> 0 0"
        using linked_push_rows [OF linked_empty] by (metis append_Nil list.simps(8))
      have "two_input_list [str ''a''] [str ''a''] [] False default_options [] =
          recompute_rows_in_list [str ''a''] [str ''a''] [] (foldl push_back rl_empty (ab_rows \<lparr>ch_equal = 1, ch_left = 0, ch_right = 0\<rparr> 0 0))"
        by (simp add: two_input_list_def segments_for_def diff_chunks_segmented_def diff_chunks_same build_ab_def equal_chunk_def)
      then show ?thesis
        by (simp only: into_rows_recomputed [OF ids(1)] ids(2)) (simp add: ab_rows_def)
    qed
    ultimately have "?r = recompute_row_metadata [str ''a''] [str ''a''] [] (row_default\<lparr>row_a := Some 0, row_b := Some 0\<rparr>)"
      using range(2) by (metis length_0_conv less_one list.size(4) nth_Cons_0 One_nat_def add_Suc_right add.right_neutral)
    then have "rd_selection (classify_row False ?r) = selection_from_source A"
      by (simp add: classify_row_def classify_two_input_def recompute_row_metadata_def pair_metadata_def row_default_def
          resolved_row_def)
    then show ?thesis
      using that(2) build_blocks_decision(1,2) [OF b] build_blocks_decision(5) [OF b range(1)] by simp
  qed
  then have "\<forall>b\<in>set (mp_blocks p). mb_selection b = selection_from_source A \<and> mb_manual_content b = None"
    by blast
  from choosing_one_source [OF p plan_reachable.start this] show ?thesis
    using p plan_reachable.start src by (auto simp: str_def)
qed

text \<open>
  The condition on a blank last line is needed: the decision compares the last non-blank line of the output, so a
  blank line their side appends to an unterminated file is taken for the missing newline of our side.
\<close>

lemma appended_blank_line_is_lost:
  "merge_file (str ''x'') (str ''x'') (str ''x'' @ [LF, LF]) options =
     Some \<lparr>mr_output = str ''x'' @ [LF], mr_conflict_count = 0\<rparr>"
proof -
  let ?t = "str ''x'' @ [LF, LF]"
  obtain p where b: "build_merge_plan_with_optional_base (Some (str ''x'')) (str ''x'') ?t options = Some p"
    using plan_exists by blast
  note p = built_plan [OF b]
  have e: "detect_line_ending (Some (str ''x'')) (str ''x'') ?t = [LF]" and ls: "lines ?t = [str ''x'', []]" "lines (str ''x'') = [str ''x'']"
    by code_simp+
  have src: "source_lines p A = [str ''x'']" "source_lines p B = [str ''x'']" "source_lines p C = [str ''x'', []]"
    using p(3-5) ls by (simp_all add: source_lines_def has_base_def)
  note reads = one_sided_blocks [OF b]
  have "raw_output p options = str ''x'' @ [LF, LF]"
    using raw_output_reads [OF reads blocks_concat [OF p(1) same_inputs_refl p(2)]] p(6) src(3) e by simp
  moreover have "apply_trailing_newline_decision ?t (str ''x'') [str ''x''] (str ''x'') [str ''x''] ?t [str ''x'', []] = str ''x'' @ [LF]"
    by code_simp
  ultimately have "mr_output (render_merge_plan p options) = str ''x'' @ [LF]"
    using render_output [OF reads_not_manual [OF reads], of options] p(3-5) src
    by (simp add: has_base_def local_source_def remote_source_def)
  then have "render_merge_plan p options = \<lparr>mr_output = str ''x'' @ [LF], mr_conflict_count = 0\<rparr>"
    using reads_source_count [OF reads] by (cases "render_merge_plan p options") simp
  then show ?thesis
    by (simp add: merge_file_def merge_file_with_optional_base_def b)
qed

lemma common_suffix_maximal:
  assumes "s = common_suffix_len p xs ys" "drop p xs = xm @ suf" "drop p ys = ym @ suf'" "length suf = s" "length suf' = s"
    and "xm \<noteq> []" "ym \<noteq> []"
  shows "last xm \<noteq> last ym"
proof -
  let ?a = "rev suf @ rev xm" and ?b = "rev suf' @ rev ym"
  have s: "common_prefix_len ?a ?b = s"
    using assms(1-3) by (simp add: common_suffix_len_def)
  have "?a ! s = last xm" "?b ! s = last ym"
    using assms(4-7) by (simp_all add: nth_append rev_nth last_conv_nth)
  then show ?thesis
    using common_prefix_maximal [of ?a ?b] assms(4-7) unfolding s by simp
qed

text \<open>What the base section leaves out: lines shared with the hoisted context at either end.\<close>

lemma base_section_split:
  fixes base pre suf :: "'a list"
  defines "bp \<equiv> common_prefix_len base pre" and "bs \<equiv> common_prefix_len (rev base) (rev suf)"
  shows "\<exists>b1 b2. base = b1 @ slice base bp (max (length base - bs) bp) @ b2 \<and> prefix b1 pre \<and> suffix b2 suf"
proof (intro exI conjI)
  let ?stop = "max (length base - bs) bp"
  show "base = take bp base @ slice base bp ?stop @ drop ?stop base"
    by (simp add: slice_append_drop)
  show "prefix (take bp base) pre"
    unfolding bp_def using take_common_prefix [of base pre] by (metis take_is_prefix)
  have "take bs (rev base) = take bs (rev suf)"
    unfolding bs_def by (rule take_common_prefix)
  then have "drop (length base - bs) base = drop (length suf - bs) suf"
    by (simp add: take_rev)
  moreover have "suffix (drop ?stop base) (drop (length base - bs) base)"
    by (metis drop_drop le_add_diff_inverse2 max.cobounded1 suffix_drop)
  ultimately show "suffix (drop ?stop base) suf"
    by (metis suffix_drop suffix_order.trans)
qed

text \<open>C34: The zdiff3 style loses no line: the hoisted prefix, the inner section and the hoisted suffix make up each side; the
  hoisting is maximal (the inner sections start and end with different lines); and the base section is the
  base less lines it shares with the hoisted context.\<close>

theorem zdiff3_keeps_all_lines:
  assumes "zdiff3_sections ours theirs base = (before_lines, oc, bc, tc, after_lines)"
  shows "before_lines @ oc @ after_lines = ours \<and> before_lines @ tc @ after_lines = theirs \<and>
    (oc \<noteq> [] \<and> tc \<noteq> [] \<longrightarrow> hd oc \<noteq> hd tc \<and> last oc \<noteq> last tc) \<and>
    (\<exists>b1 b2. base = b1 @ bc @ b2 \<and> prefix b1 before_lines \<and> suffix b2 after_lines)"
proof -
  define p where "p = common_prefix_len ours theirs"
  define s where "s = common_suffix_len p ours theirs"
  obtain pre om tm suf where split: "ours = pre @ om @ suf" "theirs = pre @ tm @ suf" "length pre = p" "length suf = s"
    "slice ours p (length ours - s) = om" "slice theirs p (length theirs - s) = tm"
    by (rule common_affix_split [OF p_def s_def])
  let ?bp = "common_prefix_len base pre"
  let ?stop = "max (length base - common_prefix_len (rev base) (rev suf)) ?bp"
  have ends: "max (length ours - s) p = length ours - s" "max (length theirs - s) p = length theirs - s"
    using split(3,4) by (simp_all add: split(1,2))
  have parts: "take p ours = pre" "drop (length ours - s) ours = suf"
    using split(3,4) by (simp_all add: split(1))
  have "zdiff3_sections ours theirs base = (pre, om, slice base ?bp ?stop, tm, suf)"
    unfolding zdiff3_sections_def common_prefix_suffix_lines_def Let_def p_def [symmetric] s_def [symmetric]
    by (simp add: ends split(5,6) parts base_common_prefix_len_def base_common_suffix_len_def min_def)
  then have sections: "before_lines = pre" "oc = om" "tc = tm" "after_lines = suf" "bc = slice base ?bp ?stop"
    using assms by auto
  have "\<exists>b1 b2. base = b1 @ slice base ?bp ?stop @ b2 \<and> prefix b1 pre \<and> suffix b2 suf"
    by (rule base_section_split)
  moreover have "hd om \<noteq> hd tm" if "om \<noteq> []" "tm \<noteq> []"
  proof -
    have "ours ! p = hd om" "theirs ! p = hd tm"
      using that split(3) by (simp_all add: split(1,2) nth_append hd_conv_nth)
    then show ?thesis
      using common_prefix_maximal [of ours theirs] that split(3) unfolding p_def [symmetric] by (simp add: split(1,2))
  qed
  moreover have "last om \<noteq> last tm" if "om \<noteq> []" "tm \<noteq> []"
    by (rule common_suffix_maximal [OF s_def, of om suf tm suf]) (use that split(3,4) in \<open>simp_all add: split(1,2)\<close>)
  ultimately show ?thesis
    unfolding sections using split(1,2) by metis
qed

theorem zdiff3_keeps_all_lines_witness:
  "zdiff3_sections [str ''a'', str ''x'', str ''z''] [str ''a'', str ''y'', str ''z''] [str ''a'', str ''b''] =
     ([str ''a''], [str ''x''], [str ''b''], [str ''y''], [str ''z'']) \<and>
   [str ''a''] @ [str ''x''] @ [str ''z''] = [str ''a'', str ''x'', str ''z'']"
proof -
  have z: "zdiff3_sections [str ''a'', str ''x'', str ''z''] [str ''a'', str ''y'', str ''z''] [str ''a'', str ''b''] =
      ([str ''a''], [str ''x''], [str ''b''], [str ''y''], [str ''z''])"
    by code_simp
  from zdiff3_keeps_all_lines [OF z] z show ?thesis
    by blast
qed

text \<open>The command line accepts only canonical names, and every name it accepts means the same in the git configuration.\<close>

theorem cli_values_are_git_values:
  assumes "parse_diff_algorithm Cli value = Some algorithm"
  shows "parse_diff_algorithm GitConfig value = Some algorithm \<and>
    value = (case algorithm of Alg_Myers \<Rightarrow> str ''myers'' | Alg_Histogram \<Rightarrow> str ''histogram'')"
  using assms by (auto simp: parse_diff_algorithm_def split: if_splits)

theorem cli_values_are_git_values_witness:
  "parse_diff_algorithm GitConfig (str ''histogram'') = Some Alg_Histogram"
  using cli_values_are_git_values [of "str ''histogram''" Alg_Histogram] by (simp add: parse_diff_algorithm_def str_def)

end
