(* ===== verification/Autosolve.thy ===== *)
theory Autosolve
  imports Subchunks Marker_Facts Render
begin

text \<open>
  The standalone auto-resolver (\<open>conflict_session/autosolve.rs\<close>) and the rules it names
  (\<open>conflict_session.rs\<close>). The regex engine is a third-party crate, so the compiled pattern type,
  the compiler (\<open>RegexBuilder ... .build()\<close>) and \<open>Regex::replace_all\<close> are parameters of the
  regex-assisted pass.
\<close>

section \<open>Rules\<close>

datatype autosolve_confidence = High | Medium | Low

fun confidence_label :: "autosolve_confidence \<Rightarrow> utext" where
  "confidence_label High = str ''high''"
| "confidence_label Medium = str ''medium''"
| "confidence_label Low = str ''low''"

datatype autosolve_rule = IdenticalSides | OnlyOursChanged | OnlyTheirsChanged | WhitespaceOnly
  | RegexEquivalentSides | RegexOnlyTheirsChanged | RegexOnlyOursChanged | SubchunkFullyMerged
  | HistoryMerged

fun rule_description :: "autosolve_rule \<Rightarrow> utext" where
  "rule_description IdenticalSides = str ''both sides identical''"
| "rule_description OnlyOursChanged = str ''only ours changed from base''"
| "rule_description OnlyTheirsChanged = str ''only theirs changed from base''"
| "rule_description WhitespaceOnly = str ''whitespace-only difference (ignoring indentation)''"
| "rule_description RegexEquivalentSides = str ''regex-normalized sides equivalent''"
| "rule_description RegexOnlyTheirsChanged = str ''regex-normalized: only theirs changed from base''"
| "rule_description RegexOnlyOursChanged = str ''regex-normalized: only ours changed from base''"
| "rule_description SubchunkFullyMerged = str ''line-level subchunk merge''"
| "rule_description HistoryMerged = str ''history/changelog section merge''"

fun rule_confidence :: "autosolve_rule \<Rightarrow> autosolve_confidence" where
  "rule_confidence IdenticalSides = High"
| "rule_confidence OnlyOursChanged = High"
| "rule_confidence OnlyTheirsChanged = High"
| "rule_confidence WhitespaceOnly = Medium"
| "rule_confidence RegexEquivalentSides = Medium"
| "rule_confidence RegexOnlyTheirsChanged = Medium"
| "rule_confidence RegexOnlyOursChanged = Medium"
| "rule_confidence SubchunkFullyMerged = Medium"
| "rule_confidence HistoryMerged = Low"

datatype autosolve_pick_side = Pick_Ours | Pick_Theirs

fun picked_text :: "autosolve_pick_side \<Rightarrow> utext \<Rightarrow> utext \<Rightarrow> utext" where
  "picked_text Pick_Ours ours theirs = ours"
| "picked_text Pick_Theirs ours theirs = theirs"

definition is_whitespace_only_diff :: "utext \<Rightarrow> utext \<Rightarrow> bool" where
  "is_whitespace_only_diff a b \<longleftrightarrow> a \<noteq> b \<and> normalized_without_whitespace a = normalized_without_whitespace b"

section \<open>Pass 1: safe rules\<close>

definition safe_auto_resolve_pick_with_classification ::
  "utext option \<Rightarrow> utext \<Rightarrow> utext \<Rightarrow> bool \<Rightarrow> (autosolve_rule \<times> autosolve_pick_side) option" where
  "safe_auto_resolve_pick_with_classification base ours theirs whitespace_conflict =
     (if ours = theirs then Some (IdenticalSides, Pick_Ours)
      else case base of
        Some b \<Rightarrow>
          if ours = b \<and> theirs \<noteq> b then Some (OnlyTheirsChanged, Pick_Theirs)
          else if theirs = b \<and> ours \<noteq> b then Some (OnlyOursChanged, Pick_Ours)
          else if whitespace_conflict then Some (WhitespaceOnly, Pick_Ours) else None
      | None \<Rightarrow> if whitespace_conflict then Some (WhitespaceOnly, Pick_Ours) else None)"

definition safe_auto_resolve_pick ::
  "utext option \<Rightarrow> utext \<Rightarrow> utext \<Rightarrow> bool \<Rightarrow> (autosolve_rule \<times> autosolve_pick_side) option" where
  "safe_auto_resolve_pick base ours theirs whitespace_normalize =
     safe_auto_resolve_pick_with_classification base ours theirs
       (whitespace_normalize \<and> is_whitespace_only_diff ours theirs)"

section \<open>Pass 2 and the block resolver\<close>

fun subchunk_text :: "subchunk \<Rightarrow> utext" where
  "subchunk_text (Sub_Resolved t) = t"
| "subchunk_text (Sub_Conflict b o' t) = []"

text \<open>The filter and the concatenation that \<open>try_resolve_single_block\<close> and Pass 2 share.\<close>

definition merged_subchunks :: "utext \<Rightarrow> utext \<Rightarrow> utext \<Rightarrow> utext option" where
  "merged_subchunks base ours theirs =
     (case split_conflict_into_subchunks base ours theirs of
        Some cs \<Rightarrow> if \<forall>c\<in>set cs. is_resolved_subchunk c then Some (concat (map subchunk_text cs)) else None
      | None \<Rightarrow> None)"

definition try_resolve_single_block :: "utext option \<Rightarrow> utext \<Rightarrow> utext \<Rightarrow> bool \<Rightarrow> utext option" where
  "try_resolve_single_block base ours theirs resolve_whitespace =
     (if ours = theirs then Some ours
      else if base \<noteq> None \<and> ours = the base \<and> theirs \<noteq> the base then Some theirs
      else if base \<noteq> None \<and> theirs = the base \<and> ours \<noteq> the base then Some ours
      else if resolve_whitespace \<and> is_whitespace_only_diff ours theirs then Some ours
      else case base of Some b \<Rightarrow> merged_subchunks b ours theirs | None \<Rightarrow> None)"

section \<open>Merged text\<close>

fun autosolve_segments :: "bool \<Rightarrow> parsed_conflict_segment list \<Rightarrow> utext option" where
  "autosolve_segments ws [] = Some []"
| "autosolve_segments ws (Seg_Text t # segs) = map_option (\<lambda>out. t @ out) (autosolve_segments ws segs)"
| "autosolve_segments ws (Seg_Conflict b # segs) =
     (case try_resolve_single_block (pb_base b) (pb_ours b) (pb_theirs b) ws of
        None \<Rightarrow> None
      | Some r \<Rightarrow> map_option (\<lambda>out. r @ out) (autosolve_segments ws segs))"

definition try_autosolve_merged_text_with_whitespace :: "utext \<Rightarrow> bool \<Rightarrow> utext option" where
  "try_autosolve_merged_text_with_whitespace t ws =
     (let segments = parse_conflict_marker_segments t
      in if \<not> (\<exists>s\<in>set segments. is_conflict s) then Some t else autosolve_segments ws segments)"

definition try_autosolve_merged_text :: "utext \<Rightarrow> utext option" where
  "try_autosolve_merged_text t = try_autosolve_merged_text_with_whitespace t True"

definition try_autosolve_merge_plan :: "merge_plan \<Rightarrow> merge_options \<Rightarrow> utext option" where
  "try_autosolve_merge_plan p options =
     (let whitespace_blocks = filter (\<lambda>i. mb_whitespace_conflict (mp_blocks p ! i)) (mp_unresolved_blocks p);
          autosolved = foldl (\<lambda>q i. fst (plan_replace_selection q i (selection_from_source (local_source p))))
                         p whitespace_blocks;
          rendered = render_merge_plan autosolved options
      in if is_clean rendered then Some (mr_output rendered)
         else try_autosolve_merged_text_with_whitespace (mr_output rendered) False)"

section \<open>Pass 3: regex-assisted rules\<close>

record regex_autosolve_pattern =
  rp_pattern :: utext
  rp_replacement :: utext

record regex_autosolve_options =
  ro_patterns :: "regex_autosolve_pattern list"

definition regex_options_default :: regex_autosolve_options where
  "regex_options_default = \<lparr>ro_patterns = []\<rparr>"

definition whitespace_insensitive :: regex_autosolve_options where
  "whitespace_insensitive =
     \<lparr>ro_patterns = [\<lparr>rp_pattern = [92, 115, 43], rp_replacement = []\<rparr>]\<rparr>"

definition with_pattern :: "regex_autosolve_options \<Rightarrow> utext \<Rightarrow> utext \<Rightarrow> regex_autosolve_options" where
  "with_pattern options pattern replacement =
     options\<lparr>ro_patterns := ro_patterns options @ [\<lparr>rp_pattern = pattern, rp_replacement = replacement\<rparr>]\<rparr>"

fun compile_all :: "(utext \<Rightarrow> 're option) \<Rightarrow> regex_autosolve_pattern list \<Rightarrow> ('re \<times> utext) list option" where
  "compile_all compile [] = Some []"
| "compile_all compile (p # ps) =
     (case compile (rp_pattern p) of
        None \<Rightarrow> None
      | Some re \<Rightarrow> map_option (\<lambda>cs. (re, rp_replacement p) # cs) (compile_all compile ps))"

definition compile_regex_patterns ::
  "(utext \<Rightarrow> 're option) \<Rightarrow> regex_autosolve_options \<Rightarrow> ('re \<times> utext) list option" where
  "compile_regex_patterns compile options =
     (if ro_patterns options = [] then None else compile_all compile (ro_patterns options))"

definition normalize_with_patterns ::
  "('re \<Rightarrow> utext \<Rightarrow> utext \<Rightarrow> utext) \<Rightarrow> utext \<Rightarrow> ('re \<times> utext) list \<Rightarrow> utext" where
  "normalize_with_patterns replace_all t patterns =
     foldl (\<lambda>out (re, replacement). replace_all re out replacement) t patterns"

definition regex_assisted_auto_resolve_pick_with_compiled ::
  "('re \<Rightarrow> utext \<Rightarrow> utext \<Rightarrow> utext) \<Rightarrow> utext option \<Rightarrow> utext \<Rightarrow> utext \<Rightarrow> ('re \<times> utext) list \<Rightarrow>
    (autosolve_rule \<times> autosolve_pick_side) option" where
  "regex_assisted_auto_resolve_pick_with_compiled replace_all base ours theirs compiled =
     (if ours = theirs then None
      else if base \<noteq> None \<and> (ours = the base \<and> theirs \<noteq> the base \<or> theirs = the base \<and> ours \<noteq> the base)
      then None
      else
        (let norm = (\<lambda>t. normalize_with_patterns replace_all t compiled)
         in if norm ours = norm theirs then Some (RegexEquivalentSides, Pick_Ours)
            else case base of
              None \<Rightarrow> None
            | Some b \<Rightarrow>
                if norm ours = norm b \<and> norm theirs \<noteq> norm b then Some (RegexOnlyTheirsChanged, Pick_Theirs)
                else if norm theirs = norm b \<and> norm ours \<noteq> norm b then Some (RegexOnlyOursChanged, Pick_Ours)
                else None))"

definition regex_assisted_auto_resolve_pick ::
  "(utext \<Rightarrow> 're option) \<Rightarrow> ('re \<Rightarrow> utext \<Rightarrow> utext \<Rightarrow> utext) \<Rightarrow> utext option \<Rightarrow> utext \<Rightarrow> utext \<Rightarrow>
    regex_autosolve_options \<Rightarrow> (autosolve_rule \<times> autosolve_pick_side) option" where
  "regex_assisted_auto_resolve_pick compile replace_all base ours theirs options =
     Option.bind (compile_regex_patterns compile options)
       (regex_assisted_auto_resolve_pick_with_compiled replace_all base ours theirs)"

section \<open>What a resolved block is\<close>

text \<open>The three-way merge of the lines of a block (\<open>three_way_parts\<close>), when it meets no conflict, written
  with the line ending of the block.\<close>

definition merges_cleanly :: "utext \<Rightarrow> utext \<Rightarrow> utext \<Rightarrow> utext \<Rightarrow> bool" where
  "merges_cleanly base ours theirs m \<longleftrightarrow> \<not> beyond_limit base ours theirs \<and>
     (\<exists>parts. three_way_parts (split_lines base) (split_lines ours) (split_lines theirs) parts \<and>
        (\<forall>z\<in>set parts. diff3_pick (base_side z) (ours_side z) (theirs_side z) \<noteq> None) \<and>
        m = lines_to_text (concat (map (\<lambda>z. the (diff3_pick (base_side z) (ours_side z) (theirs_side z))) parts))
              (detect_line_ending_from_texts [base, ours, theirs] DominantCrlfVsLf))"

lemma resolved_parts:
  "(\<forall>c\<in>set (map (subchunk_of le) parts). is_resolved_subchunk c) \<longleftrightarrow>
    (\<forall>z\<in>set parts. diff3_pick (base_side z) (ours_side z) (theirs_side z) \<noteq> None)"
  by (auto simp: subchunk_of_def split: option.splits)

lemma resolved_text:
  "\<forall>z\<in>set parts. diff3_pick (base_side z) (ours_side z) (theirs_side z) \<noteq> None \<Longrightarrow>
    concat (map subchunk_text (map (subchunk_of le) parts))
      = lines_to_text (concat (map (\<lambda>z. the (diff3_pick (base_side z) (ours_side z) (theirs_side z))) parts)) le"
  by (induction parts) (auto simp: subchunk_of_def lines_to_text_join)

lemma merged_subchunks_iff:
  assumes "clean_text base" "clean_text ours" "clean_text theirs"
    and "ours \<noteq> theirs" "ours \<noteq> base" "theirs \<noteq> base"
  shows "merged_subchunks base ours theirs = Some m \<longleftrightarrow> merges_cleanly base ours theirs m"
proof (cases "beyond_limit base ours theirs")
  case True
  then show ?thesis
    using split_nothing [of ours theirs base] by (simp add: merged_subchunks_def merges_cleanly_def)
next
  case False
  let ?le = "detect_line_ending_from_texts [base, ours, theirs] DominantCrlfVsLf"
  obtain parts where parts: "three_way_parts (split_lines base) (split_lines ours) (split_lines theirs) parts"
    "parts_sides parts = (split_lines base, split_lines ours, split_lines theirs)"
    "split_conflict_into_subchunks base ours theirs = (if \<exists>c\<in>set (map (subchunk_of ?le) parts). is_resolved_subchunk c
       then Some (map (subchunk_of ?le) parts) else None)"
    using split_parts [OF assms False refl] by blast
  have "parts \<noteq> []"
  proof
    assume "parts = []"
    then have "split_lines ours = []" "split_lines theirs = []" using parts(2) by simp_all
    then have "split_inclusive ours = []" "split_inclusive theirs = []"
      by (metis length_0_conv length_lines split_lines_eq)+
    then show False using assms(4) by simp
  qed
  then have "merged_subchunks base ours theirs =
      (if \<forall>z\<in>set parts. diff3_pick (base_side z) (ours_side z) (theirs_side z) \<noteq> None
       then Some (lines_to_text (concat (map (\<lambda>z. the (diff3_pick (base_side z) (ours_side z) (theirs_side z))) parts)) ?le)
       else None)"
    using resolved_parts [of ?le parts] resolved_text [of parts ?le]
    by (cases parts) (auto simp: merged_subchunks_def parts(3))
  moreover have "merges_cleanly base ours theirs m \<longleftrightarrow>
      (\<forall>z\<in>set parts. diff3_pick (base_side z) (ours_side z) (theirs_side z) \<noteq> None) \<and>
      m = lines_to_text (concat (map (\<lambda>z. the (diff3_pick (base_side z) (ours_side z) (theirs_side z))) parts)) ?le"
    (is "_ \<longleftrightarrow> ?Q parts")
  proof
    assume "merges_cleanly base ours theirs m"
    then obtain qs where "three_way_parts (split_lines base) (split_lines ours) (split_lines theirs) qs" "?Q qs"
      unfolding merges_cleanly_def by (elim conjE exE) (rule that; blast)
    then show "?Q parts" using three_way_parts_unique [OF _ parts(1)] by blast
  next
    assume "?Q parts"
    then show "merges_cleanly base ours theirs m"
      unfolding merges_cleanly_def using parts(1) False by blast
  qed
  ultimately show ?thesis by (simp add: eq_commute [of m])
qed

text \<open>The five rules in their order, as what they promise of the result.\<close>

definition justified :: "utext option \<Rightarrow> utext \<Rightarrow> utext \<Rightarrow> bool \<Rightarrow> utext \<Rightarrow> bool" where
  "justified base ours theirs ws m \<longleftrightarrow>
     (if ours = theirs then m = ours
      else if base = Some ours then m = theirs
      else if base = Some theirs then m = ours
      else if ws \<and> is_whitespace_only_diff ours theirs then m = ours
      else \<exists>b. base = Some b \<and> merges_cleanly b ours theirs m)"

definition clean_sides :: "utext option \<Rightarrow> utext \<Rightarrow> utext \<Rightarrow> bool" where
  "clean_sides base ours theirs \<longleftrightarrow> clean_text ours \<and> clean_text theirs \<and> (case base of None \<Rightarrow> True | Some b \<Rightarrow> clean_text b)"

lemma single_block_justified:
  "clean_sides base ours theirs \<Longrightarrow>
    try_resolve_single_block base ours theirs ws = Some m \<longleftrightarrow> justified base ours theirs ws m"
  by (cases base) (auto simp: try_resolve_single_block_def justified_def clean_sides_def merged_subchunks_iff)

text \<open>A solution of a marked text takes over its plain text and replaces each block by a justified text.\<close>

fun segment_solution :: "bool \<Rightarrow> parsed_conflict_segment \<Rightarrow> utext \<Rightarrow> bool" where
  "segment_solution ws (Seg_Text t) m \<longleftrightarrow> m = t"
| "segment_solution ws (Seg_Conflict b) m \<longleftrightarrow> justified (pb_base b) (pb_ours b) (pb_theirs b) ws m"

fun clean_segment :: "parsed_conflict_segment \<Rightarrow> bool" where
  "clean_segment (Seg_Text t) = True"
| "clean_segment (Seg_Conflict b) = clean_sides (pb_base b) (pb_ours b) (pb_theirs b)"

lemma autosolve_segments_iff:
  "\<forall>s\<in>set segs. clean_segment s \<Longrightarrow>
    autosolve_segments ws segs = Some m \<longleftrightarrow> (\<exists>ms. list_all2 (segment_solution ws) segs ms \<and> m = concat ms)"
proof (induction segs arbitrary: m)
  case (Cons s segs)
  have parts: "(\<exists>ms. list_all2 (segment_solution ws) (s # segs) ms \<and> m = concat ms) \<longleftrightarrow>
      (\<exists>r ms. segment_solution ws s r \<and> list_all2 (segment_solution ws) segs ms \<and> m = r @ concat ms)"
  proof
    assume "\<exists>r ms. segment_solution ws s r \<and> list_all2 (segment_solution ws) segs ms \<and> m = r @ concat ms"
    then obtain r ms where "segment_solution ws s r" "list_all2 (segment_solution ws) segs ms" "m = r @ concat ms"
      by blast
    then show "\<exists>ms. list_all2 (segment_solution ws) (s # segs) ms \<and> m = concat ms"
      by (intro exI [of _ "r # ms"]) simp
  next
    assume "\<exists>ms. list_all2 (segment_solution ws) (s # segs) ms \<and> m = concat ms"
    then obtain r ms where "segment_solution ws s r" "list_all2 (segment_solution ws) segs ms" "m = r @ concat ms"
      by (elim exE conjE list_all2_Cons1 [THEN iffD1, elim_format]) simp
    then show "\<exists>r ms. segment_solution ws s r \<and> list_all2 (segment_solution ws) segs ms \<and> m = r @ concat ms"
      by blast
  qed
  have "autosolve_segments ws (s # segs) = Some m \<longleftrightarrow>
      (\<exists>r m'. segment_solution ws s r \<and> autosolve_segments ws segs = Some m' \<and> m = r @ m')"
  proof (cases s)
    case (Seg_Conflict b)
    then have "try_resolve_single_block (pb_base b) (pb_ours b) (pb_theirs b) ws = Some r \<longleftrightarrow> segment_solution ws s r" for r
      using Cons.prems by (simp add: single_block_justified)
    from this [symmetric] show ?thesis
      using Seg_Conflict by (auto split: option.splits)
  qed auto
  also have "\<dots> \<longleftrightarrow> (\<exists>r ms. segment_solution ws s r \<and> list_all2 (segment_solution ws) segs ms \<and> m = r @ concat ms)"
    using Cons by auto
  finally show ?case
    unfolding parts .
qed auto

text \<open>A text without a conflict is its own solution.\<close>

fun plain_text :: "parsed_conflict_segment \<Rightarrow> utext" where
  "plain_text (Seg_Text t) = t"
| "plain_text (Seg_Conflict b) = []"

lemma plain_solution:
  "\<not> (\<exists>s\<in>set segs. is_conflict s) \<Longrightarrow> list_all2 (segment_solution ws) segs ms \<longleftrightarrow> ms = map plain_text segs"
proof (induction segs arbitrary: ms)
  case (Cons s segs)
  then obtain t where "s = Seg_Text t" by (cases s) auto
  then show ?case using Cons by (auto simp: list_all2_Cons1)
qed simp

lemma plain_segments_text:
  assumes "\<not> (\<exists>s\<in>set (parse_conflict_marker_segments t). is_conflict s)"
  shows "concat (map plain_text (parse_conflict_marker_segments t)) = t"
proof -
  have "plain_text (plain s) = concat (seg_lines s)" if "s \<in> set (line_segments (split_inclusive t))" for s
    using assms that by (cases s) (force simp: parse_segments segments_of_def)+
  then have "concat (map plain_text (parse_conflict_marker_segments t))
      = concat (map (\<lambda>s. concat (seg_lines s)) (line_segments (split_inclusive t)))"
    by (simp add: parse_segments segments_of_def comp_def cong: map_cong)
  also have "\<dots> = concat (concat (map seg_lines (line_segments (split_inclusive t))))"
  proof -
    have "concat (map (\<lambda>s. concat (seg_lines s)) xs) = concat (concat (map seg_lines xs))" for xs
      by (induction xs) simp_all
    then show ?thesis .
  qed
  finally show ?thesis
    by (simp add: concat_line_segments)
qed

text \<open>Choosing one selection for several blocks.\<close>

definition choose_blocks :: "ordered_selection \<Rightarrow> nat list \<Rightarrow> merge_plan \<Rightarrow> merge_plan" where
  "choose_blocks sel is p = foldl (\<lambda>q i. fst (plan_replace_selection q i sel)) p is"

lemma choose_block:
  assumes "i < length (mp_blocks p)" "\<forall>s\<in>set (sources sel). source_text p s \<noteq> None"
  shows "fst (plan_replace_selection p i sel)
    = refresh_unresolved_blocks (upd_block p i (\<lambda>b. block_replace_selection b sel))"
  using assms by (auto simp: plan_replace_selection_def replace_selection_deferred_def list_ex_iff)

lemma choose_blocks:
  "plan_ok p \<Longrightarrow> selection_ok sel \<Longrightarrow> \<forall>s\<in>set (sources sel). source_text p s \<noteq> None \<Longrightarrow>
    \<forall>i\<in>set is. i < length (mp_blocks p) \<Longrightarrow> q = choose_blocks sel is p \<Longrightarrow>
    plan_ok q \<and> same_inputs p q \<and> length (mp_blocks q) = length (mp_blocks p) \<and>
    (\<forall>i<length (mp_blocks p). mp_blocks q ! i
       = (if i \<in> set is then block_replace_selection (mp_blocks p ! i) sel else mp_blocks p ! i))"
proof (induction "is" arbitrary: p)
  case Nil
  then show ?case by (simp add: choose_blocks_def)
next
  case (Cons i "is")
  let ?p = "refresh_unresolved_blocks (upd_block p i (\<lambda>b. block_replace_selection b sel))"
  have i: "i < length (mp_blocks p)" using Cons.prems by simp
  have step: "fst (plan_replace_selection p i sel) = ?p"
    using choose_block [OF i Cons.prems(3)] .
  have q: "q = choose_blocks sel is ?p"
    using Cons.prems(5) by (simp add: choose_blocks_def step)
  have "plan_ok ?p"
    using plan_replace_selection_ok [OF Cons.prems(1,2), of i] by (simp add: step)
  moreover have "same_inputs p ?p"
    by (simp add: same_inputs_def upd_block_def)
  moreover have "\<forall>s\<in>set (sources sel). source_text ?p s \<noteq> None"
    using Cons.prems(3) by (auto simp: source_text_None has_base_def upd_block_def)
  moreover have "length (mp_blocks ?p) = length (mp_blocks p)"
    by (simp add: upd_block_def)
  ultimately show ?case
    using Cons.IH [of ?p] Cons.prems(2,4) q same_inputs_trans [of p ?p q] i
    by (auto simp: upd_block_def block_replace_selection_def nth_list_update)
qed

section \<open>Properties\<close>

text \<open>C10: the headless auto-solver resolves a marked text exactly when each of its conflict blocks is
  justified by one of the five rules, and the result is then the plain text with every block replaced
  by the text of its first rule that applies: our side when both are equal, the changed side when the other is
  the base, our side when the caller allowed whitespace and the sides differ in nothing else, and
  otherwise the three-way merge of the lines of the block (\<open>three_way_parts\<close>) without a conflict. A
  block without any of these leaves the whole text unresolved. This holds for texts in whose conflict sides
  no line ends in a carriage return once its ending is split off.\<close>

theorem resolved_blocks_are_justified:
  assumes "\<forall>s\<in>set (parse_conflict_marker_segments t). clean_segment s"
  shows "try_autosolve_merged_text_with_whitespace t ws = Some m \<longleftrightarrow>
    (\<exists>ms. list_all2 (segment_solution ws) (parse_conflict_marker_segments t) ms \<and> m = concat ms)"
proof (cases "\<exists>s\<in>set (parse_conflict_marker_segments t). is_conflict s")
  case True
  then have "try_autosolve_merged_text_with_whitespace t ws = autosolve_segments ws (parse_conflict_marker_segments t)"
    by (auto simp: try_autosolve_merged_text_with_whitespace_def Let_def)
  then show ?thesis
    using autosolve_segments_iff [OF assms] by simp
next
  case False
  then show ?thesis
    using plain_solution [OF False] by (auto simp: try_autosolve_merged_text_with_whitespace_def plain_segments_text)
qed

definition autosolve_example :: utext where
  "autosolve_example = str ''<<<<<<<'' @ [LF] @ str ''x'' @ [LF] @ str ''b'' @ [LF] @ str ''|||||||'' @ [LF]
     @ str ''a'' @ [LF] @ str ''b'' @ [LF] @ str ''======='' @ [LF] @ str ''a'' @ [LF] @ str ''y'' @ [LF]
     @ str ''>>>>>>>'' @ [LF]"

lemma resolved_blocks_are_justified_witness:
  "\<exists>ms. list_all2 (segment_solution False) (parse_conflict_marker_segments autosolve_example) ms \<and>
    str ''x'' @ [LF] @ str ''y'' @ [LF] = concat ms"
proof -
  have "\<forall>s\<in>set (parse_conflict_marker_segments autosolve_example). clean_segment s"
    by code_simp
  note solved = resolved_blocks_are_justified [OF this]
  have "try_autosolve_merged_text_with_whitespace autosolve_example False = Some (str ''x'' @ [LF] @ str ''y'' @ [LF])"
    by code_simp
  then show ?thesis
    unfolding solved .
qed

text \<open>Auto-solving a plan whose open blocks are all whitespace conflicts always succeeds under the
  normal strategy: the result is the rendering, without a conflict, of the plan in which exactly
  those blocks take the local side and every other decision is as it was.\<close>

lemma whitespace_plans_autosolve:
  assumes "plan_ok p" "mo_strategy options = Strategy_Normal"
    and "\<forall>i\<in>set (mp_unresolved_blocks p). mb_whitespace_conflict (mp_blocks p ! i)"
  shows "\<exists>q. try_autosolve_merge_plan p options = Some (mr_output (render_merge_plan q options)) \<and>
    is_clean (render_merge_plan q options) \<and> plan_ok q \<and> same_inputs p q \<and> unresolved_count q = 0 \<and>
    (\<forall>i<length (mp_blocks p). mp_blocks q ! i =
       (if block_is_resolved (mp_blocks p ! i) then mp_blocks p ! i
        else block_replace_selection (mp_blocks p ! i) (selection_from_source (local_source p))))"
proof -
  let ?is = "mp_unresolved_blocks p" and ?sel = "selection_from_source (local_source p)"
  define q where "q = choose_blocks ?sel ?is p"
  have idx: "set ?is = {i. i < length (mp_blocks p) \<and> \<not> block_is_resolved (mp_blocks p ! i)}"
    using assms(1) by (simp add: plan_ok_def set_indices_where)
  have sel: "selection_ok ?sel" "\<forall>s\<in>set (sources ?sel). source_text p s \<noteq> None"
    by (simp_all add: selection_ok_def selection_from_source_def source_text_None local_source_def)
  have q: "plan_ok q" "same_inputs p q" "length (mp_blocks q) = length (mp_blocks p)"
    "\<forall>i<length (mp_blocks p). mp_blocks q ! i =
       (if block_is_resolved (mp_blocks p ! i) then mp_blocks p ! i
        else block_replace_selection (mp_blocks p ! i) ?sel)"
    using choose_blocks [OF assms(1) sel _ q_def] idx by auto
  have "block_is_resolved (block_replace_selection b (selection_from_source s))" for b s
    by (simp add: block_is_resolved_def block_replace_selection_def selection_is_empty_def selection_from_source_def)
  then have res: "\<forall>b\<in>set (mp_blocks q). block_is_resolved b"
    using q(4) by (simp add: all_set_conv_all_nth q(3))
  then have "unresolved_count q = 0"
    using q(1) by (simp add: unresolved_count_def plan_ok_def length_indices_where)
  moreover have "is_clean (render_merge_plan q options)"
    using res by (simp add: is_clean_def render_count)
  moreover have "filter (\<lambda>i. mb_whitespace_conflict (mp_blocks p ! i)) ?is = ?is"
    using assms(3) by (simp add: filter_id_conv)
  ultimately show ?thesis
    using q by (auto simp: try_autosolve_merge_plan_def Let_def choose_blocks_def [symmetric] q_def [symmetric])
qed

lemma whitespace_plans_autosolve_witness:
  "\<exists>q. try_autosolve_merge_plan
       (example_plan\<lparr>mp_blocks := [example_block\<lparr>mb_whitespace_conflict := True\<rparr>]\<rparr>) default_options
     = Some (mr_output (render_merge_plan q default_options)) \<and> unresolved_count q = 0"
proof -
  let ?p = "example_plan\<lparr>mp_blocks := [example_block\<lparr>mb_whitespace_conflict := True\<rparr>]\<rparr>"
  have "plan_ok ?p"
    by (simp add: plan_ok_def block_ok_def example_defs indices_where_def block_is_resolved_def selection_is_empty_def
        selection_new_def)
  moreover have "mo_strategy default_options = Strategy_Normal"
    by (simp add: default_options_def)
  moreover have "\<forall>i\<in>set (mp_unresolved_blocks ?p). mb_whitespace_conflict (mp_blocks ?p ! i)"
    by (simp add: example_plan_def)
  ultimately show ?thesis
    using whitespace_plans_autosolve by blast
qed

end
