(* ===== verification/History.thy ===== *)
theory History
  imports Strings "HOL-Library.List_Lexorder"
begin

text \<open>
  History-aware resolution (\<open>conflict_session/history.rs\<close>): the entries of a changelog section are
  parsed on each side and merged by their normalised text. The regex engine is a third-party crate:
  \<open>compile\<close> stands for \<open>RegexBuilder::new(..) ... .build().ok()\<close> with the size limits of the code and
  \<open>is_match\<close> for \<open>Regex::is_match\<close>. Indexing a slice beyond its end panics in the code, so the
  functions that can reach that return a \<open>run\<close>.
\<close>

section \<open>Options\<close>

datatype 'a run = Panic | Returns 'a

record history_autosolve_options =
  ho_section_start :: utext
  ho_entry_start :: utext
  ho_sort_entries :: bool
  ho_max_entries :: "nat option"

definition history_options_default :: history_autosolve_options where
  "history_options_default =
     \<lparr>ho_section_start = [], ho_entry_start = [], ho_sort_entries = False, ho_max_entries = None\<rparr>"

definition keepachangelog :: history_autosolve_options where
  "keepachangelog =
     \<lparr>ho_section_start = [94, 35, 35, 92, 115, 43, 92, 91], ho_entry_start = [94, 35, 35, 92, 115, 43, 92, 91],
      ho_sort_entries = False, ho_max_entries = None\<rparr>"

definition bullet_list :: history_autosolve_options where
  "bullet_list =
     \<lparr>ho_section_start =
        str ''(?i)^#+'' @ [92] @ str ''s*(changelog|changes|history|release'' @ [92] @ str ''s*notes)'',
      ho_entry_start = str ''^[-*]'' @ [92] @ str ''s+'',
      ho_sort_entries = False, ho_max_entries = None\<rparr>"

definition history_options_valid :: "history_autosolve_options \<Rightarrow> bool" where
  "history_options_valid options \<longleftrightarrow> ho_section_start options \<noteq> [] \<and> ho_entry_start options \<noteq> []"

section \<open>Entries\<close>

record history_entry =
  he_text :: utext
  he_dedup_key :: utext

text \<open>\<open>str::split_whitespace\<close>, and its words joined by one space.\<close>

function split_whitespace :: "utext \<Rightarrow> utext list" where
  "split_whitespace [] = []"
| "split_whitespace (c # cs) =
     (if is_whitespace c then split_whitespace cs
      else takeWhile (\<lambda>c. \<not> is_whitespace c) (c # cs)
           # split_whitespace (dropWhile (\<lambda>c. \<not> is_whitespace c) (c # cs)))"
  by pat_completeness auto
termination
  by (relation "measure length") (auto simp: le_imp_less_Suc length_dropWhile_le)

fun join_words :: "utext list \<Rightarrow> utext" where
  "join_words [] = []"
| "join_words [w] = w"
| "join_words (w # v # ws) = w @ [32] @ join_words (v # ws)"

definition make_history_entry :: "utext \<Rightarrow> history_entry" where
  "make_history_entry t = \<lparr>he_text = t, he_dedup_key = join_words (split_whitespace t)\<rparr>"

text \<open>
  \<open>find_trailing_content_start\<close> from line \<open>i\<close> on, whose lines are the list: a gap of blank lines ends
  the entries unless an entry follows it.
\<close>

abbreviation blank_line :: "utext \<Rightarrow> bool" where
  "blank_line l \<equiv> trim l = []"

function trailing_from :: "(utext \<Rightarrow> bool) \<Rightarrow> nat \<Rightarrow> utext list \<Rightarrow> nat option" where
  "trailing_from is_entry i [] = None"
| "trailing_from is_entry i (l # ls) =
     (if blank_line l then
        (case dropWhile blank_line ls of
           [] \<Rightarrow> Some i
         | k # rest \<Rightarrow>
             if \<not> is_entry k then Some i
             else trailing_from is_entry (i + length (takeWhile blank_line ls) + 2) rest)
      else trailing_from is_entry (i + 1) ls)"
  by pat_completeness auto
termination
proof (relation "measure (\<lambda>(p, i, ls). length ls)", goal_cases)
  case (2 is_entry i l ls k rest)
  then have "length (k # rest) \<le> length ls"
    by (metis length_dropWhile_le)
  then show ?case by simp
qed simp_all

definition find_trailing_content_start :: "utext list \<Rightarrow> nat \<Rightarrow> (utext \<Rightarrow> bool) \<Rightarrow> nat option" where
  "find_trailing_content_start ls last_entry_start is_entry =
     trailing_from is_entry (last_entry_start + 1) (drop (last_entry_start + 1) ls)"

text \<open>The loop over the lines of the section; \<open>current\<close> is the entry being collected.\<close>

fun collect_entries :: "(utext \<Rightarrow> bool) \<Rightarrow> utext \<Rightarrow> utext list \<Rightarrow> history_entry list" where
  "collect_entries is_entry current [] = (if current \<noteq> [] then [make_history_entry current] else [])"
| "collect_entries is_entry current (l # ls) =
     (if is_entry l \<and> current \<noteq> [] then make_history_entry current # collect_entries is_entry (l @ [LF]) ls
      else collect_entries is_entry (current @ l @ [LF]) ls)"

definition parse_history_entries ::
  "utext \<Rightarrow> (utext \<Rightarrow> bool) \<Rightarrow> (utext \<Rightarrow> bool) \<Rightarrow> history_entry list run" where
  "parse_history_entries t is_section is_entry =
     (let ls = lines t;
          section_start = (case position is_section ls of Some i \<Rightarrow> i | None \<Rightarrow> 0);
          scan_start = (if is_entry (case nth_opt ls section_start of Some l \<Rightarrow> l | None \<Rightarrow> [])
                        then section_start else section_start + 1)
      in if scan_start > length ls then Panic
         else
           (let last_entry_start = map_option (\<lambda>rel. rel + scan_start) (rposition is_entry (drop scan_start ls));
                scan_end = (case Option.bind last_entry_start
                                   (\<lambda>last. find_trailing_content_start ls last is_entry) of
                              Some i \<Rightarrow> i | None \<Rightarrow> length ls)
            in Returns (collect_entries is_entry [] (slice ls scan_start scan_end))))"

section \<open>Merging entries\<close>

text \<open>The entries of a list whose key has not been seen, with the keys seen after them.\<close>

fun fresh_entries :: "utext set \<Rightarrow> history_entry list \<Rightarrow> history_entry list \<times> utext set" where
  "fresh_entries seen [] = ([], seen)"
| "fresh_entries seen (e # es) =
     (if he_dedup_key e \<in> seen then fresh_entries seen es
      else (case fresh_entries (insert (he_dedup_key e) seen) es of (fresh, seen') \<Rightarrow> (e # fresh, seen')))"

definition merge_history_entries ::
  "history_entry list option \<Rightarrow> history_entry list \<Rightarrow> history_entry list \<Rightarrow> bool \<Rightarrow> nat option \<Rightarrow>
    history_entry list" where
  "merge_history_entries base_entries ours_entries theirs_entries sort_entries max_entries =
     (let (ours_kept, seen) = fresh_entries {} ours_entries;
          base_keys = (case base_entries of None \<Rightarrow> {} | Some es \<Rightarrow> he_dedup_key ` set es);
          theirs_kept = fst (fresh_entries seen theirs_entries);
          theirs_new = filter (\<lambda>e. he_dedup_key e \<notin> base_keys) theirs_kept;
          merged = ours_kept @ filter (\<lambda>e. he_dedup_key e \<in> base_keys) theirs_kept;
          insert_pos = (case position (\<lambda>e. he_dedup_key e \<in> base_keys) merged of
                          Some i \<Rightarrow> i | None \<Rightarrow> length merged);
          merged = (if theirs_new = [] then merged
                    else take insert_pos merged @ theirs_new @ drop insert_pos merged);
          merged = (if sort_entries then sort_key he_dedup_key merged else merged)
      in (case max_entries of Some n \<Rightarrow> take n merged | None \<Rightarrow> merged))"

section \<open>The section around the entries\<close>

definition history_section_prefix :: "utext \<Rightarrow> (utext \<Rightarrow> bool) \<Rightarrow> utext" where
  "history_section_prefix t is_entry = concat (map (\<lambda>l. l @ [LF]) (takeWhile (\<lambda>l. \<not> is_entry l) (lines t)))"

definition history_section_suffix :: "utext \<Rightarrow> (utext \<Rightarrow> bool) \<Rightarrow> utext" where
  "history_section_suffix t is_entry =
     (let ls = lines t
      in case rposition is_entry ls of
           None \<Rightarrow> []
         | Some last_start \<Rightarrow>
             (case find_trailing_content_start ls last_start is_entry of
                Some i \<Rightarrow> concat (map (\<lambda>l. l @ [LF]) (drop i ls))
              | None \<Rightarrow> []))"

section \<open>Merging a region\<close>

fun bind_run :: "'a run \<Rightarrow> ('a \<Rightarrow> 'b run) \<Rightarrow> 'b run" where
  "bind_run Panic f = Panic"
| "bind_run (Returns x) f = f x"

definition history_merge_region ::
  "(utext \<Rightarrow> 're option) \<Rightarrow> ('re \<Rightarrow> utext \<Rightarrow> bool) \<Rightarrow> utext option \<Rightarrow> utext \<Rightarrow> utext \<Rightarrow>
    history_autosolve_options \<Rightarrow> utext option run" where
  "history_merge_region compile is_match base ours theirs options =
     (if \<not> history_options_valid options then Returns None
      else case compile (ho_section_start options) of
        None \<Rightarrow> Returns None
      | Some section_re \<Rightarrow>
          (case compile (ho_entry_start options) of
             None \<Rightarrow> Returns None
           | Some entry_re \<Rightarrow>
               (let is_section = is_match section_re; is_entry = is_match entry_re
                in if \<not> (\<exists>l\<in>set (lines ours). is_section l) \<and> \<not> (\<exists>l\<in>set (lines theirs). is_section l)
                   then Returns None
                   else
                     bind_run (parse_history_entries ours is_section is_entry) (\<lambda>ours_entries.
                     bind_run (parse_history_entries theirs is_section is_entry) (\<lambda>theirs_entries.
                       if ours_entries = [] \<and> theirs_entries = [] then Returns None
                       else
                         bind_run
                           (case base of
                              None \<Rightarrow> Returns None
                            | Some b \<Rightarrow> bind_run (parse_history_entries b is_section is_entry) (\<lambda>es. Returns (Some es)))
                           (\<lambda>base_entries.
                             Returns (Some
                               (history_section_prefix ours is_entry
                                @ concat (map he_text (merge_history_entries base_entries ours_entries theirs_entries
                                    (ho_sort_entries options) (ho_max_entries options)))
                                @ history_section_suffix ours is_entry))))))))"

definition history_merge_region_with_context ::
  "(utext \<Rightarrow> 're option) \<Rightarrow> ('re \<Rightarrow> utext \<Rightarrow> bool) \<Rightarrow> utext \<Rightarrow> utext option \<Rightarrow> utext \<Rightarrow> utext \<Rightarrow>
    history_autosolve_options \<Rightarrow> utext option run" where
  "history_merge_region_with_context compile is_match context_before base ours theirs options =
     (case compile (ho_section_start options) of
        None \<Rightarrow> Returns None
      | Some section_re \<Rightarrow>
          (case find (is_match section_re) (rev (lines context_before)) of
             None \<Rightarrow> Returns None
           | Some section_line \<Rightarrow>
               (let header = section_line @ [LF]
                in bind_run
                     (history_merge_region compile is_match (map_option (\<lambda>b. header @ b) base)
                        (header @ ours) (header @ theirs) options)
                     (\<lambda>merged. Returns (Option.bind merged
                        (\<lambda>m. if starts_with m header then Some (drop (length header) m) else None))))))"

section \<open>Facts\<close>

lemma fresh_entries_spec:
  "fresh_entries seen es = (fresh, seen') \<Longrightarrow>
    distinct (map he_dedup_key fresh) \<and> seen \<inter> he_dedup_key ` set fresh = {} \<and>
    seen' = seen \<union> he_dedup_key ` set fresh \<and> he_dedup_key ` set fresh = he_dedup_key ` set es - seen \<and>
    set fresh \<subseteq> set es"
proof (induction es arbitrary: seen fresh)
  case (Cons e es)
  show ?case
  proof (cases "he_dedup_key e \<in> seen")
    case True
    then show ?thesis using Cons.IH [of seen fresh] Cons.prems by auto
  next
    case False
    obtain fresh1 where f: "fresh_entries (insert (he_dedup_key e) seen) es = (fresh1, seen')" "fresh = e # fresh1"
      using Cons.prems False by (auto split: prod.splits)
    show ?thesis using Cons.IH [OF f(1)] f(2) False by auto
  qed
qed simp

lemma set_take_drop_insert: "set (take i xs @ ys @ drop i xs) = set xs \<union> set ys"
proof -
  have "set xs = set (take i xs) \<union> set (drop i xs)"
    by (subst append_take_drop_id [of i xs, symmetric], rule set_append)
  then show ?thesis by auto
qed

lemma distinct_insert_middle:
  "distinct (take i xs @ ys @ drop i xs) \<longleftrightarrow> distinct (xs @ ys)"
proof -
  have "distinct (us @ ys @ vs) \<longleftrightarrow> distinct ((us @ vs) @ ys)" for us vs
    by auto
  from this [of "take i xs" "drop i xs"] show ?thesis
    by (simp only: append_take_drop_id)
qed

text \<open>The list before sorting: the new entries of theirs are inserted in one place.\<close>

lemma merged_entries:
  fixes ours theirs ok tk :: "history_entry list"
  assumes "fresh_entries {} ours = (ok, seen)" "fresh_entries seen theirs = (tk, seen')"
    and "all = (ok @ filter P tk)" "new = filter (\<lambda>e. \<not> P e) tk"
    and "m = take i all @ new @ drop i all"
  shows "distinct (map he_dedup_key m)" "he_dedup_key ` set m = he_dedup_key ` (set ours \<union> set theirs)"
    "set m \<subseteq> set ours \<union> set theirs"
proof -
  note o' = fresh_entries_spec [OF assms(1)] and t = fresh_entries_spec [OF assms(2)]
  have parts: "set (filter P tk) \<union> set new = set tk" "set (filter P tk) \<inter> set new = {}"
    using assms(4) by auto
  have "distinct (map he_dedup_key (all @ new))"
    using o' t parts assms(3,4)
    by (auto simp: distinct_map inj_on_def)
  then show "distinct (map he_dedup_key m)"
    unfolding assms(5) map_append take_map [symmetric] drop_map [symmetric] distinct_insert_middle .
  have set: "set m = set ok \<union> set tk"
    unfolding assms(5) set_take_drop_insert assms(3) using parts by auto
  show "he_dedup_key ` set m = he_dedup_key ` (set ours \<union> set theirs)" "set m \<subseteq> set ours \<union> set theirs"
    using o' t unfolding set by (auto simp: image_Un)
qed

lemma parse_panics: "parse_history_entries t is_section is_entry = Panic \<longleftrightarrow> t = [] \<and> \<not> is_entry []"
proof (cases "lines t")
  case Nil
  then have "t = []"
    by (simp add: lines_def)
  then show ?thesis
    by (auto simp: parse_history_entries_def Let_def nth_opt_def lines_def)
next
  case (Cons l ls)
  have "(case position is_section (l # ls) of Some i \<Rightarrow> i | None \<Rightarrow> 0) < length (l # ls)"
    by (cases "position is_section (l # ls)") (simp_all only: option.case position_SomeD, simp)
  then have "(case position is_section (lines t) of Some i \<Rightarrow> i | None \<Rightarrow> 0) < length (lines t)"
    unfolding Cons .
  moreover have "t \<noteq> []"
    using Cons by (auto simp: lines_def)
  ultimately show ?thesis
    by (simp add: parse_history_entries_def Let_def)
qed

lemma bind_run_Panic: "bind_run r f = Panic \<longleftrightarrow> r = Panic \<or> (\<exists>x. r = Returns x \<and> f x = Panic)"
  by (cases r) auto

lemma history_merge_entries:
  assumes "history_options_valid options" "compile (ho_section_start options) = Some section_re"
    "compile (ho_entry_start options) = Some entry_re" "\<exists>l\<in>set (lines ours). is_match section_re l"
    "parse_history_entries ours (is_match section_re) (is_match entry_re) = Returns (e # es)"
    "parse_history_entries theirs (is_match section_re) (is_match entry_re) = Returns es'"
  shows "history_merge_region compile is_match None ours theirs options =
    Returns (Some (history_section_prefix ours (is_match entry_re)
      @ concat (map he_text (merge_history_entries None (e # es) es' (ho_sort_entries options) (ho_max_entries options)))
      @ history_section_suffix ours (is_match entry_re)))"
  using assms by (auto simp: history_merge_region_def Let_def)

section \<open>Properties\<close>

text \<open>Merging the entries of two histories loses none and repeats none. Without a limit the merged keys
  are exactly the keys of both sides, each once, and every merged entry is an entry of a side; with
  sorting they come in the order of their keys. A limit keeps the first entries of that list.\<close>

lemma merged_history_has_every_entry:
  "(let m = merge_history_entries base ours theirs by_key None
    in distinct (map he_dedup_key m) \<and> he_dedup_key ` set m = he_dedup_key ` (set ours \<union> set theirs) \<and>
       set m \<subseteq> set ours \<union> set theirs \<and> (if by_key then sorted (map he_dedup_key m) else True) \<and>
       merge_history_entries base ours theirs by_key (Some n) = take n m)"
proof -
  obtain ok seen where o': "fresh_entries {} ours = (ok, seen)" by fastforce
  obtain tk seen' where t: "fresh_entries seen theirs = (tk, seen')" by fastforce
  define P where "P = (\<lambda>e :: history_entry. he_dedup_key e \<in> (case base of None \<Rightarrow> {} | Some es \<Rightarrow> he_dedup_key ` set es))"
  define all where "all = ok @ filter P tk"
  define new where "new = filter (\<lambda>e. \<not> P e) tk"
  define i where "i = (case position P all of Some i \<Rightarrow> i | None \<Rightarrow> length all)"
  define m where "m = take i all @ new @ drop i all"
  have m0: "(if new = [] then all else take i all @ new @ drop i all) = m"
    by (simp add: m_def)
  have m: "merge_history_entries base ours theirs by_key max
      = (let r = (if by_key then sort_key he_dedup_key m else m)
         in case max of Some k \<Rightarrow> take k r | None \<Rightarrow> r)" for max
    unfolding merge_history_entries_def m0 [symmetric] Let_def o' t prod.case fst_conv new_def all_def i_def P_def
    by (rule refl)
  note spec = merged_entries [OF o' t all_def new_def m_def]
  have "distinct (map he_dedup_key (sort_key he_dedup_key m))"
    using spec(1) by (simp add: distinct_map)
  with spec show ?thesis
    by (auto simp: m Let_def)
qed

text \<open>C31: what the history rule does on an empty side. Once both patterns compile and a section header was
  found, it panics exactly when the entry pattern does not match the empty line and one side is empty,
  or the base is present and empty and some entry was found: the lines of an empty text are indexed
  from 1. An empty base is what a diff3 block of two additions has.\<close>

theorem empty_side_panics:
  assumes "history_options_valid options" "compile (ho_section_start options) = Some section_re"
    "compile (ho_entry_start options) = Some entry_re"
    "\<exists>l\<in>set (lines ours) \<union> set (lines theirs). is_match section_re l"
  shows "history_merge_region compile is_match base ours theirs options = Panic \<longleftrightarrow>
    \<not> is_match entry_re [] \<and> (ours = [] \<or> theirs = [] \<or>
      base = Some [] \<and> \<not> (parse_history_entries ours (is_match section_re) (is_match entry_re) = Returns [] \<and>
        parse_history_entries theirs (is_match section_re) (is_match entry_re) = Returns []))"
proof -
  let ?parse = "\<lambda>t. parse_history_entries t (is_match section_re) (is_match entry_re)"
  have "\<not> (\<not> (\<exists>l\<in>set (lines ours). is_match section_re l) \<and> \<not> (\<exists>l\<in>set (lines theirs). is_match section_re l))"
    using assms(4) by blast
  then have region: "history_merge_region compile is_match base ours theirs options = Panic \<longleftrightarrow>
      ?parse ours = Panic \<or> ?parse theirs = Panic \<or>
      base \<noteq> None \<and> ?parse (the base) = Panic \<and> \<not> (?parse ours = Returns [] \<and> ?parse theirs = Returns [])"
    using assms(1-3)
    by (cases "?parse ours"; cases "?parse theirs"; cases base)
      (auto simp: history_merge_region_def Let_def bind_run_Panic)
  show ?thesis
    unfolding region parse_panics by (cases base) auto
qed

text \<open>A pattern engine for the examples: a pattern is the list of line prefixes it matches.\<close>

definition hash_or_dash :: "bool \<Rightarrow> utext \<Rightarrow> bool" where
  "hash_or_dash section_pattern l = (take 1 l = (if section_pattern then str ''#'' else str ''-''))"

definition example_history_options :: history_autosolve_options where
  "example_history_options =
     \<lparr>ho_section_start = str ''#'', ho_entry_start = str ''-'', ho_sort_entries = False, ho_max_entries = None\<rparr>"

lemma example_lines:
  "lines (str ''# Log'' @ [LF] @ str ''- a'' @ [LF]) = [str ''# Log'', str ''- a'']"
  "lines (str ''# Log'' @ [LF] @ str ''- b'' @ [LF]) = [str ''# Log'', str ''- b'']"
  "lines (str ''# Log'' @ [LF] @ str ''intro'' @ [LF] @ str ''- a'' @ [LF]) = [str ''# Log'', str ''intro'', str ''- a'']"
  "lines (str ''# Log'' @ [LF] @ str ''intro'' @ [LF] @ str ''- b'' @ [LF]) = [str ''# Log'', str ''intro'', str ''- b'']"
  by code_simp+

lemmas example_history = hash_or_dash_def str_def nth_opt_def rposition_def find_trailing_content_start_def
  slice_def make_history_entry_def is_whitespace_def numeral_2_eq_2

lemma example_entries:
  "parse_history_entries (str ''# Log'' @ [LF] @ str ''- a'' @ [LF]) (hash_or_dash True) (hash_or_dash False)
    = Returns [make_history_entry (str ''- a'' @ [LF])]"
  "parse_history_entries (str ''# Log'' @ [LF] @ str ''intro'' @ [LF] @ str ''- a'' @ [LF])
      (hash_or_dash True) (hash_or_dash False)
    = Returns [make_history_entry (str ''intro'' @ [LF]), make_history_entry (str ''- a'' @ [LF])]"
  "parse_history_entries (str ''# Log'' @ [LF] @ str ''intro'' @ [LF] @ str ''- b'' @ [LF])
      (hash_or_dash True) (hash_or_dash False)
    = Returns [make_history_entry (str ''intro'' @ [LF]), make_history_entry (str ''- b'' @ [LF])]"
  by (simp_all only: parse_history_entries_def example_lines Let_def) (simp_all add: example_history)

lemma empty_side_panics_witness:
  "history_merge_region (\<lambda>p. Some (p = str ''#'')) hash_or_dash (Some [])
     (str ''# Log'' @ [LF] @ str ''- a'' @ [LF]) (str ''# Log'' @ [LF] @ str ''- b'' @ [LF]) example_history_options
   = Panic"
proof -
  let ?o = "str ''# Log'' @ [LF] @ str ''- a'' @ [LF]" and ?t = "str ''# Log'' @ [LF] @ str ''- b'' @ [LF]"
  let ?c = "\<lambda>p. Some (p = str ''#'')"
  have h: "history_options_valid example_history_options"
    "?c (ho_section_start example_history_options) = Some True"
    "?c (ho_entry_start example_history_options) = Some False"
    "\<not> hash_or_dash False []"
    by (simp_all add: history_options_valid_def example_history_options_def str_def hash_or_dash_def)
  have "\<exists>l\<in>set (lines ?o) \<union> set (lines ?t). hash_or_dash True l"
    unfolding example_lines by (simp add: hash_or_dash_def str_def)
  moreover have "parse_history_entries ?o (hash_or_dash True) (hash_or_dash False) \<noteq> Returns []"
    unfolding example_entries by simp
  ultimately show ?thesis
    using empty_side_panics [OF h(1-3), of ?o ?t hash_or_dash "Some []"] h(4) by blast
qed

text \<open>
  What stands between the section header and the first entry is written twice: it is part of the
  prefix and it is collected as an entry of its own.
\<close>

lemma lines_before_the_entries_are_repeated:
  "history_merge_region (\<lambda>p. Some (p = str ''#'')) hash_or_dash None
     (str ''# Log'' @ [LF] @ str ''intro'' @ [LF] @ str ''- a'' @ [LF])
     (str ''# Log'' @ [LF] @ str ''intro'' @ [LF] @ str ''- b'' @ [LF]) example_history_options
   = Returns (Some (str ''# Log'' @ [LF] @ str ''intro'' @ [LF] @ str ''intro'' @ [LF] @ str ''- a'' @ [LF]
       @ str ''- b'' @ [LF]))"
proof -
  let ?o = "str ''# Log'' @ [LF] @ str ''intro'' @ [LF] @ str ''- a'' @ [LF]"
    and ?t = "str ''# Log'' @ [LF] @ str ''intro'' @ [LF] @ str ''- b'' @ [LF]"
  let ?i = "make_history_entry (str ''intro'' @ [LF])" and ?a = "make_history_entry (str ''- a'' @ [LF])"
    and ?b = "make_history_entry (str ''- b'' @ [LF])"
  have "he_dedup_key ?i \<noteq> he_dedup_key ?a" "he_dedup_key ?i \<noteq> he_dedup_key ?b" "he_dedup_key ?a \<noteq> he_dedup_key ?b"
    by (simp_all add: make_history_entry_def is_whitespace_def str_def)
  then have "merge_history_entries None [?i, ?a] [?i, ?b] False None = [?i, ?a, ?b]"
    by (simp add: merge_history_entries_def Let_def)
  moreover have "history_section_prefix ?o (hash_or_dash False) = str ''# Log'' @ [LF] @ str ''intro'' @ [LF]"
    by (simp only: history_section_prefix_def example_lines) (simp add: hash_or_dash_def str_def)
  moreover have "history_section_suffix ?o (hash_or_dash False) = []"
    by (simp only: history_section_suffix_def example_lines Let_def) (simp add: example_history)
  moreover have "\<exists>l\<in>set (lines ?o). hash_or_dash True l"
    unfolding example_lines by (simp add: hash_or_dash_def str_def)
  note sec = this
  have h: "history_options_valid example_history_options"
    "Some (ho_section_start example_history_options = str ''#'') = Some True"
    "Some (ho_entry_start example_history_options = str ''#'') = Some False"
    by (simp_all add: history_options_valid_def example_history_options_def str_def)
  have "history_merge_region (\<lambda>p. Some (p = str ''#'')) hash_or_dash None ?o ?t example_history_options
      = Returns (Some (history_section_prefix ?o (hash_or_dash False)
          @ concat (map he_text (merge_history_entries None [?i, ?a] [?i, ?b]
              (ho_sort_entries example_history_options) (ho_max_entries example_history_options)))
          @ history_section_suffix ?o (hash_or_dash False)))"
    by (rule history_merge_entries [OF h sec example_entries(2,3)])
  ultimately show ?thesis
    by (simp add: example_history_options_def make_history_entry_def)
qed

end
