(* ===== verification/Region_Edit.thy ===== *)
theory Region_Edit
  imports Marker_Facts
begin

text \<open>
  Splitting and joining conflict regions in a marked text (\<open>conflict_session/region_edit.rs\<close>). A
  split cuts one conflict block at line boundaries into two or three adjacent blocks; a join merges
  two neighbouring blocks and takes the context between them into every side. Both work on byte
  ranges of the text. They are shown to keep both sides of the marked text.
\<close>

record conflict_region_split_boundaries =
  sb_ours :: "nat \<times> nat"
  sb_theirs :: "nat \<times> nat"
  sb_base :: "(nat \<times> nat) option"

record conflict_region_edit_outcome =
  eo_new_text :: utext
  eo_parts :: nat

section \<open>The operations\<close>

fun nth_line_start_from :: "utext \<Rightarrow> nat \<Rightarrow> nat \<Rightarrow> nat" where
  "nth_line_start_from side start 0 = start"
| "nth_line_start_from side start (Suc n) =
     (case position (\<lambda>c. c = LF) (drop start side) of
        Some rel \<Rightarrow> nth_line_start_from side (start + (rel + 1)) n
      | None \<Rightarrow> length side)"

definition nth_line_start :: "utext \<Rightarrow> nat \<Rightarrow> nat" where
  "nth_line_start side n = nth_line_start_from side 0 n"

fun conflict_range :: "parsed_conflict_segment_ranges \<Rightarrow> parsed_conflict_block_ranges option" where
  "conflict_range (Rng_Text r) = None"
| "conflict_range (Rng_Conflict b) = Some b"

definition conflict_blocks :: "utext \<Rightarrow> parsed_conflict_block_ranges list" where
  "conflict_blocks t = filter_map conflict_range (parse_conflict_marker_ranges t)"

record marker_lines =
  mk_opening :: utext
  mk_base_intro :: "utext option"
  mk_separator :: utext
  mk_closing :: utext

definition marker_lines_of :: "utext \<Rightarrow> parsed_conflict_block_ranges \<Rightarrow> marker_lines" where
  "marker_lines_of t b =
     (let separator_start = (case pr_base b of Some base \<Rightarrow> rng_end base | None \<Rightarrow> rng_end (pr_ours b))
      in \<lparr>mk_opening = slice t (pr_marker_start b) (rng_start (pr_ours b)),
          mk_base_intro = map_option (\<lambda>base. slice t (rng_end (pr_ours b)) (rng_start base)) (pr_base b),
          mk_separator = slice t separator_start (rng_start (pr_theirs b)),
          mk_closing = slice t (rng_end (pr_theirs b)) (pr_marker_end b)\<rparr>)"

definition render_region_block :: "marker_lines \<Rightarrow> utext \<Rightarrow> utext option \<Rightarrow> utext \<Rightarrow> utext" where
  "render_region_block mk ours base theirs =
     mk_opening mk @ ours @
     (case (mk_base_intro mk, base) of (Some intro, Some b) \<Rightarrow> intro @ b | _ \<Rightarrow> []) @
     mk_separator mk @ theirs @ mk_closing mk"

definition side_slices :: "utext \<Rightarrow> nat \<times> nat \<Rightarrow> utext list" where
  "side_slices side bounds =
     (let cut0 = nth_line_start side (fst bounds);
          cut1 = max (nth_line_start side (max (fst bounds) (snd bounds))) cut0
      in [slice side 0 cut0, slice side cut0 cut1, drop cut1 side])"

text \<open>The parts written one after the other, with a line ending where the closing line has none.\<close>

fun emit_parts :: "marker_lines \<Rightarrow> utext list \<Rightarrow> utext list option \<Rightarrow> utext list \<Rightarrow> bool \<Rightarrow> nat list \<Rightarrow> utext" where
  "emit_parts mk ours base theirs first [] = []"
| "emit_parts mk ours base theirs first (p # ps) =
     (if \<not> first \<and> \<not> ends_with (mk_closing mk) [LF]
      then (if ends_with (mk_opening mk) [CR, LF] then [CR, LF] else [LF]) else []) @
     render_region_block mk (ours ! p) (map_option (\<lambda>parts. parts ! p) base) (theirs ! p) @
     emit_parts mk ours base theirs False ps"

definition split_conflict_region_text ::
  "utext \<Rightarrow> nat \<Rightarrow> conflict_region_split_boundaries \<Rightarrow> conflict_region_edit_outcome option" where
  "split_conflict_region_text t region_index boundaries =
     (case nth_opt (conflict_blocks t) region_index of
        None \<Rightarrow> None
      | Some b \<Rightarrow>
          if (pr_base b \<noteq> None) \<noteq> (sb_base boundaries \<noteq> None) then None
          else
            let markers = marker_lines_of t b;
                ours_parts = side_slices (text_for_range t (pr_ours b)) (sb_ours boundaries);
                theirs_parts = side_slices (text_for_range t (pr_theirs b)) (sb_theirs boundaries);
                base_parts = (case (map_option (text_for_range t) (pr_base b), sb_base boundaries) of
                    (Some base, Some bounds) \<Rightarrow> Some (side_slices base bounds) | _ \<Rightarrow> None);
                emitted = filter (\<lambda>p. ours_parts ! p \<noteq> [] \<or> theirs_parts ! p \<noteq> [] \<or>
                    (case base_parts of Some parts \<Rightarrow> parts ! p \<noteq> [] | None \<Rightarrow> False)) [0..<3]
            in if length emitted < 2 then None
               else Some \<lparr>eo_new_text = slice t 0 (pr_marker_start b) @
                      emit_parts markers ours_parts base_parts theirs_parts True emitted @ drop (pr_marker_end b) t,
                    eo_parts = length emitted\<rparr>)"

definition is_markerish :: "utext \<Rightarrow> bool" where
  "is_markerish l \<longleftrightarrow> is_open l \<or> is_separator l \<or> is_close l \<or> is_base l"

definition join_conflict_regions_text :: "utext \<Rightarrow> nat \<Rightarrow> conflict_region_edit_outcome option" where
  "join_conflict_regions_text t first_region_index =
     (case (nth_opt (conflict_blocks t) first_region_index, nth_opt (conflict_blocks t) (first_region_index + 1)) of
        (Some b1, Some b2) \<Rightarrow>
          let ctx = slice t (pr_marker_end b1) (pr_marker_start b2)
          in if \<exists>l\<in>set (lines ctx). is_markerish l then None
             else
               let m1 = marker_lines_of t b1; m2 = marker_lines_of t b2;
                   markers = \<lparr>mk_opening = mk_opening m1,
                     mk_base_intro = (case mk_base_intro m1 of Some i \<Rightarrow> Some i | None \<Rightarrow> mk_base_intro m2),
                     mk_separator = mk_separator m1, mk_closing = mk_closing m2\<rparr>;
                   joined_side = (\<lambda>a b. a @ ctx @ b);
                   ours = joined_side (text_for_range t (pr_ours b1)) (text_for_range t (pr_ours b2));
                   theirs = joined_side (text_for_range t (pr_theirs b1)) (text_for_range t (pr_theirs b2));
                   base = (if pr_base b1 = None \<and> pr_base b2 = None then None
                     else Some (joined_side
                       (case pr_base b1 of Some r \<Rightarrow> text_for_range t r | None \<Rightarrow> [])
                       (case pr_base b2 of Some r \<Rightarrow> text_for_range t r | None \<Rightarrow> [])))
               in Some \<lparr>eo_new_text = slice t 0 (pr_marker_start b1) @
                      render_region_block markers ours base theirs @ drop (pr_marker_end b2) t,
                    eo_parts = 1\<rparr>
      | _ \<Rightarrow> None)"

section \<open>Pieces\<close>

text \<open>A list of lines that is its own cut: no empty line, a line feed only at the end, and every line
  but the last ended by one.\<close>

definition pieces :: "utext list \<Rightarrow> bool" where
  "pieces ps \<longleftrightarrow> (\<forall>l\<in>set ps. l \<noteq> [] \<and> LF \<notin> set (butlast l)) \<and> (\<forall>l\<in>set (butlast ps). last l = LF)"

lemma full_line: "l \<noteq> [] \<Longrightarrow> LF \<notin> set (butlast l) \<Longrightarrow> last l = LF \<Longrightarrow> split_inclusive (l @ t) = l # split_inclusive t"
  by (cases l rule: rev_cases) (use split_inclusive_eol [of _ "[LF]" t] in auto)

lemma last_line: "l \<noteq> [] \<Longrightarrow> LF \<notin> set (butlast l) \<Longrightarrow> split_inclusive l = [l]"
proof (cases "last l = LF")
  case False
  assume l: "l \<noteq> []" "LF \<notin> set (butlast l)"
  then have "LF \<notin> set l"
    using False append_butlast_last_id [of l] by (metis Un_iff empty_iff empty_set set_ConsD set_append)
  then show ?thesis
    using l split_inclusive_no_LF by simp
qed (use full_line [of l "[]"] in simp)

lemma split_pieces: "pieces ps \<Longrightarrow> split_inclusive (concat ps) = ps"
proof (induction ps)
  case (Cons l ps)
  show ?case
  proof (cases ps)
    case Nil
    then show ?thesis
      using Cons.prems last_line [of l] by (simp add: pieces_def)
  next
    case (Cons l' ps')
    then show ?thesis
      using Cons.IH Cons.prems full_line [of l "concat ps"] by (simp add: pieces_def)
  qed
qed (simp add: pieces_def)

lemma pieces_split: "pieces (split_inclusive t)"
  using split_inclusive_nonempty [of _ t] LF_in_split_inclusive [of _ t] whole_but_last_pieces [of t]
  by (auto simp: pieces_def whole_but_last_def whole_lines_def dest: in_set_butlastD)

lemma pieces_append: "pieces (xs @ ys) \<longleftrightarrow> pieces xs \<and> pieces ys \<and> (ys \<noteq> [] \<longrightarrow> (\<forall>l\<in>set xs. last l = LF))"
  by (cases "ys = []"; cases xs rule: rev_cases) (auto simp: pieces_def butlast_append)

lemma nth_line_start_pieces: "nth_line_start side n = chars (take n (split_inclusive side))"
proof -
  have "start \<le> length side \<Longrightarrow> nth_line_start_from side start n = start + chars (take n (split_inclusive (drop start side)))" for start
  proof (induction n arbitrary: start)
    case (Suc n)
    show ?case
    proof (cases "position (\<lambda>c. c = LF) (drop start side)")
      case None
      then show ?thesis
        using Suc.prems by (subst split_inclusive_position) auto
    next
      case (Some rel)
      then have "rel < length (drop start side)"
        using position_SomeD by fastforce
      then show ?thesis
        using Some Suc by (subst split_inclusive_position) (auto simp: add.commute add.left_commute min_def)
    qed
  qed simp
  then show ?thesis
    by (simp add: nth_line_start_def)
qed


section \<open>Where the blocks are\<close>

text \<open>The block of an index, among the segments of the text.\<close>

definition blocks_in :: "line_segment list \<Rightarrow> nat" where
  "blocks_in ss = length (filter (\<lambda>s. \<not> (\<exists>ls. s = Line_Text ls)) ss)"

lemma blocks_in_simps [simp]:
  "blocks_in [] = 0"
  "blocks_in (Line_Text ls # ss) = blocks_in ss"
  "blocks_in (Line_Block opn ours base sep theirs cls # ss) = Suc (blocks_in ss)"
  "blocks_in (ss @ ss') = blocks_in ss + blocks_in ss'"
  by (simp_all add: blocks_in_def)

abbreviation seg_concat :: "line_segment list \<Rightarrow> utext list" where
  "seg_concat ss \<equiv> concat (map seg_lines ss)"

lemma nth_opt_Cons: "nth_opt (x # xs) i = (case i of 0 \<Rightarrow> Some x | Suc j \<Rightarrow> nth_opt xs j)"
  by (cases i) (simp_all add: nth_opt_def)

lemma nth_conflict_range:
  "nth_opt (filter_map conflict_range (ranges_from a ss)) i = Some b \<Longrightarrow>
    \<exists>ss0 s ss1. ss = ss0 @ s # ss1 \<and> blocks_in ss0 = i \<and> \<not> (\<exists>ls. s = Line_Text ls) \<and>
      seg_range (a + chars (seg_concat ss0)) s = Rng_Conflict b"
proof (induction ss arbitrary: a i)
  case (Cons s ss)
  have later: ?case
    if ij: "i = blocks_in [s] + j" "nth_opt (filter_map conflict_range (ranges_from (a + chars (seg_lines s)) ss)) j = Some b" for j
  proof -
    obtain ss0 s' ss1 where "ss = ss0 @ s' # ss1" "blocks_in ss0 = j" "\<not> (\<exists>ls. s' = Line_Text ls)"
        "seg_range (a + chars (seg_lines s) + chars (seg_concat ss0)) s' = Rng_Conflict b"
      using Cons.IH [OF ij(2)] by blast
    then show ?thesis
      using ij(1) blocks_in_simps(4) [of "[s]" ss0]
      by (intro exI [of _ "s # ss0"] exI [of _ s'] exI [of _ ss1]) (simp add: add.assoc)
  qed
  show ?case
  proof (cases s)
    case (Line_Text ls)
    then show ?thesis
      using later [of i] Cons.prems by simp
  next
    case (Line_Block opn ours base sep theirs cls)
    show ?thesis
    proof (cases i)
      case 0
      then show ?thesis
        using Cons.prems Line_Block
        by (intro exI [of _ "[]"] exI [of _ s] exI [of _ ss]) (simp add: Let_def nth_opt_Cons)
    next
      case (Suc j)
      then show ?thesis
        using later [of j] Cons.prems Line_Block by (simp add: Let_def nth_opt_Cons)
    qed
  qed
qed (simp add: nth_opt_def)

lemma filter_map_ranges_skip:
  "filter_map conflict_range (ranges_from a (ss0 @ ss1)) =
    filter_map conflict_range (ranges_from a ss0) @ filter_map conflict_range (ranges_from (a + chars (seg_concat ss0)) ss1)"
  by (simp add: ranges_from_append)

lemma length_conflict_ranges: "length (filter_map conflict_range (ranges_from a ss)) = blocks_in ss"
proof (induction ss arbitrary: a)
  case (Cons s ss)
  then show ?case
    by (cases s) (simp_all add: Let_def)
qed simp

text \<open>The segments of the lines up to a block, and of the lines after it, do not depend on the block.\<close>

lemma segments_around:
  assumes "line_segments ls = ss0 @ b # ss1" "block_wf b"
  shows "ls = seg_concat ss0 @ seg_lines b @ seg_concat ss1"
    and "line_segments (seg_concat ss1) = ss1"
    and "block_wf b' \<Longrightarrow> line_segments (seg_concat ss0 @ seg_lines b' @ rest) = ss0 @ b' # line_segments rest"
proof -
  show "ls = seg_concat ss0 @ seg_lines b @ seg_concat ss1"
    using concat_line_segments [of ls] assms(1) by simp
  have "line_segments (seg_concat ss1) = ss1 \<and>
      (block_wf b' \<longrightarrow> line_segments (seg_concat ss0 @ seg_lines b' @ rest) = ss0 @ b' # line_segments rest)" for b' rest
    using assms
  proof (induction ls arbitrary: ss0 rule: line_segments_induct)
    case (context_only ls)
    then show ?case
      by (auto simp: line_segments_context text_lines_def Cons_eq_append_conv split: if_splits)
  next
    case (broken ctx opn ls)
    then show ?case
      by (auto simp: line_segments_broken text_lines_def Cons_eq_append_conv append_eq_Cons_conv split: if_splits)
  next
    case (block ctx b1 ls)
    have cut: "text_lines ctx @ b1 # line_segments ls = ss0 @ b # ss1"
      using block.prems(1) line_segments_block [OF block.hyps(1,2)] by simp
    show ?case
    proof (cases "ss0 = text_lines ctx")
      case True
      then have "b1 = b" "line_segments ls = ss1"
        using cut by simp_all
      then show ?thesis
        using True line_segments_block [OF block.hyps(1)] concat_line_segments [of ls] lines_of_text by auto
    next
      case False
      then obtain ss0' where ss0: "ss0 = text_lines ctx @ b1 # ss0'" "line_segments ls = ss0' @ b # ss1"
        using cut block.prems(2) by (auto simp: text_lines_def append_eq_Cons_conv Cons_eq_append_conv split: if_splits)
      then show ?thesis
        using block.IH [OF ss0(2)] block.prems(2) line_segments_block [OF block.hyps(1,2)] lines_of_text [of ctx]
        by (auto simp: append_assoc)
    qed
  qed
  then show "line_segments (seg_concat ss1) = ss1"
    "block_wf b' \<Longrightarrow> line_segments (seg_concat ss0 @ seg_lines b' @ rest) = ss0 @ b' # line_segments rest"
    by blast+
qed


lemma slice_lines: "lines_at t a (xs @ ys @ zs) \<Longrightarrow> slice t (a + chars xs) (a + chars xs + chars ys) = concat ys"
  using text_for_range_lines by (simp add: text_for_range_def)

text \<open>The texts the operations cut out of a block.\<close>

lemma block_texts:
  assumes "lines_at t a (seg_lines (Line_Block opn ours base sep theirs cls) @ rest)"
    and "seg_range a (Line_Block opn ours base sep theirs cls) = Rng_Conflict b"
  shows "marker_lines_of t b = \<lparr>mk_opening = opn, mk_base_intro = map_option fst base, mk_separator = sep, mk_closing = cls\<rparr>"
    and "text_for_range t (pr_ours b) = concat ours" "text_for_range t (pr_theirs b) = concat theirs"
    and "map_option (text_for_range t) (pr_base b) = map_option (\<lambda>(m, ls). concat ls) base"
    and "drop (pr_marker_end b) t = concat rest" "pr_marker_start b = a" "pr_base b = None \<longleftrightarrow> base = None"
proof -
  let ?bl = "base_part base"
  have at: "lines_at t a (opn # ours @ ?bl @ sep # theirs @ cls # rest)"
    using assms(1) by simp
  have "segment_text t (Rng_Conflict b) = plain (Line_Block opn ours base sep theirs cls)"
    using segment_text_range [OF assms(1)] assms(2) by simp
  then show "text_for_range t (pr_ours b) = concat ours" "text_for_range t (pr_theirs b) = concat theirs"
    "map_option (text_for_range t) (pr_base b) = map_option (\<lambda>(m, ls). concat ls) base"
    by simp_all
  show "pr_marker_start b = a" "pr_base b = None \<longleftrightarrow> base = None"
    using assms(2) by (auto simp: Let_def)
  have b: "pr_ours b = (a + length opn, a + length opn + chars ours)"
    "pr_theirs b = (a + length opn + chars ours + chars ?bl + length sep,
      a + length opn + chars ours + chars ?bl + length sep + chars theirs)"
    "pr_marker_end b = a + length opn + chars ours + chars ?bl + length sep + chars theirs + length cls"
    "pr_base b = map_option (\<lambda>(m, ls). (a + length opn + chars ours + length m, a + length opn + chars ours + chars ?bl)) base"
    using assms(2) by (auto simp: Let_def)
  have opn: "slice t a (a + length opn) = opn"
    using slice_lines [of t a "[]" "[opn]"] at by simp
  have sep: "slice t (a + length opn + chars ours + chars ?bl) (a + length opn + chars ours + chars ?bl + length sep) = sep"
    using slice_lines [of t a "opn # ours @ ?bl" "[sep]" "theirs @ cls # rest"] at by (simp add: add.assoc)
  have cls: "slice t (a + length opn + chars ours + chars ?bl + length sep + chars theirs) (pr_marker_end b) = cls"
    using slice_lines [of t a "opn # ours @ ?bl @ sep # theirs" "[cls]" rest] at b(3) by (simp add: add.assoc)
  have intro: "slice t (a + length opn + chars ours) (a + length opn + chars ours + length m) = m" if "base = Some (m, ls)" for m ls
    using slice_lines [of t a "opn # ours" "[m]" "ls @ sep # theirs @ cls # rest"] at that by (simp add: add.assoc)
  show "drop (pr_marker_end b) t = concat rest"
    using lines_at_append [of t a "opn # ours @ ?bl @ sep # theirs @ [cls]" rest] at b(3)
    by (simp add: lines_at_def add.assoc)
  show "marker_lines_of t b = \<lparr>mk_opening = opn, mk_base_intro = map_option fst base, mk_separator = sep, mk_closing = cls\<rparr>"
    using opn sep cls intro b assms(2)
    by (cases base) (auto simp: marker_lines_of_def Let_def)
qed

lemma located_block:
  assumes "nth_opt (conflict_blocks t) i = Some b"
  shows "\<exists>ss0 opn ours base sep theirs cls ss1.
    line_segments (split_inclusive t) = ss0 @ Line_Block opn ours base sep theirs cls # ss1 \<and> blocks_in ss0 = i \<and>
    block_wf (Line_Block opn ours base sep theirs cls) \<and>
    seg_range (chars (seg_concat ss0)) (Line_Block opn ours base sep theirs cls) = Rng_Conflict b"
proof -
  obtain ss0 s ss1 where s: "line_segments (split_inclusive t) = ss0 @ s # ss1" "blocks_in ss0 = i"
      "\<not> (\<exists>ls. s = Line_Text ls)" "seg_range (chars (seg_concat ss0)) s = Rng_Conflict b"
    using nth_conflict_range [of 0 "line_segments (split_inclusive t)" i b] assms
    by (auto simp: conflict_blocks_def parsed_ranges)
  have wf: "block_wf s"
    using line_segments_ok [of "split_inclusive t" s] split_inclusive_nonempty s(1,3) by fastforce
  obtain opn ours base sep theirs cls where sb: "s = Line_Block opn ours base sep theirs cls"
    using s(3) by (cases s) auto
  show ?thesis
    using s wf unfolding sb by blast
qed


section \<open>Splitting\<close>

text \<open>The three parts of a side, in lines.\<close>

definition line_parts :: "utext list \<Rightarrow> nat \<times> nat \<Rightarrow> nat \<Rightarrow> utext list" where
  "line_parts ls bounds p =
     [take (fst bounds) ls, slice ls (fst bounds) (max (fst bounds) (snd bounds)), drop (max (fst bounds) (snd bounds)) ls] ! p"

lemma take_chars: "take (chars (take n ls)) (concat ls) = concat (take n ls)"
  by (metis append_eq_conv_conj append_take_drop_id concat_append)

lemma drop_chars: "drop (chars (take n ls)) (concat ls) = concat (drop n ls)"
  by (metis append_eq_conv_conj append_take_drop_id concat_append)

lemma chars_take_mono: "m \<le> n \<Longrightarrow> chars (take m ls) \<le> chars (take n ls)"
  using append_take_drop_id [of m "take n ls"] by (metis concat_append le_add1 length_append min.absorb1 take_take)

lemma side_slices_lines:
  assumes "split_inclusive (concat ls) = ls"
  shows "side_slices (concat ls) bounds = map (\<lambda>p. concat (line_parts ls bounds p)) [0..<3]"
proof -
  let ?a = "fst bounds" and ?b = "max (fst bounds) (snd bounds)"
  have "slice (concat ls) (chars (take ?a ls)) (chars (take ?b ls)) = concat (slice ls ?a ?b)"
  proof -
    have "concat ls = concat (take ?a ls) @ concat (slice ls ?a ?b) @ concat (drop ?b ls)"
      using slice_append_drop [of ?a ?b ls] by (metis append_take_drop_id concat_append max.cobounded1)
    moreover have "take ?b ls = take ?a ls @ slice ls ?a ?b"
      by (simp add: take_append_slice)
    ultimately show ?thesis
      using slice_middle [of "concat (take ?a ls)" "concat (slice ls ?a ?b)" "concat (drop ?b ls)"]
      by (metis concat_append length_append)
  qed
  moreover have "max (chars (take ?b ls)) (chars (take ?a ls)) = chars (take ?b ls)"
    using chars_take_mono [of ?a ?b ls] by simp
  ultimately show ?thesis
    using assms take_chars [of ?a ls] drop_chars [of ?b ls]
    by (simp add: side_slices_def Let_def nth_line_start_pieces line_parts_def upt_rec numeral_3_eq_3)
qed

lemma line_parts_concat: "line_parts ls bounds 0 @ line_parts ls bounds 1 @ line_parts ls bounds 2 = ls"
  using slice_append_drop [of "fst bounds" "max (fst bounds) (snd bounds)" ls]
  by (simp add: line_parts_def numeral_2_eq_2)

lemma set_line_parts: "p < 3 \<Longrightarrow> set (line_parts ls bounds p) \<subseteq> set ls"
proof -
  assume "p < 3"
  then have "p = 0 \<or> p = 1 \<or> p = 2"
    by linarith
  then have "set (line_parts ls bounds p) \<subseteq> set (line_parts ls bounds 0 @ line_parts ls bounds 1 @ line_parts ls bounds 2)"
    by auto
  then show ?thesis
    by (simp only: line_parts_concat)
qed

lemma line_parts_mem: "l \<in> set (line_parts ls bounds p) \<Longrightarrow> p < 3 \<Longrightarrow> l \<in> set ls"
  using set_line_parts by blast

text \<open>The blocks a split writes; every closing line but the last ends in a line feed.\<close>

fun split_segs ::
  "(nat \<Rightarrow> utext \<Rightarrow> line_segment) \<Rightarrow> utext \<Rightarrow> utext \<Rightarrow> nat list \<Rightarrow> line_segment list" where
  "split_segs blk cls cls' [] = []"
| "split_segs blk cls cls' [p] = [blk p cls]"
| "split_segs blk cls cls' (p # q # ps) = blk p cls' # split_segs blk cls cls' (q # ps)"

definition split_block ::
  "utext \<Rightarrow> (nat \<Rightarrow> utext list) \<Rightarrow> (utext \<times> (nat \<Rightarrow> utext list)) option \<Rightarrow> utext \<Rightarrow> (nat \<Rightarrow> utext list) \<Rightarrow> nat \<Rightarrow> utext \<Rightarrow> line_segment" where
  "split_block opn os bs sep ts p cls = Line_Block opn (os p) (map_option (\<lambda>(m, b). (m, b p)) bs) sep (ts p) cls"

definition between_blocks :: "utext \<Rightarrow> utext \<Rightarrow> utext" where
  "between_blocks opn cls = (if ends_with cls [LF] then [] else if ends_with opn [CR, LF] then [CR, LF] else [LF])"

lemma emit_parts_lines:
  assumes "\<forall>p\<in>set ps. ours ! p = concat (os p) \<and> theirs ! p = concat (ts p)"
    and "\<forall>p\<in>set ps. map_option (\<lambda>parts. parts ! p) base = map_option (\<lambda>(m, b). concat (b p)) bs"
  shows "emit_parts \<lparr>mk_opening = opn, mk_base_intro = map_option fst bs, mk_separator = sep, mk_closing = cls\<rparr> ours base theirs first ps =
    (if first \<or> ps = [] then [] else between_blocks opn cls) @
    concat (seg_concat (split_segs (split_block opn os bs sep ts) cls (cls @ between_blocks opn cls) ps))"
  using assms
proof (induction ps arbitrary: first)
  case (Cons p ps)
  have block: "render_region_block \<lparr>mk_opening = opn, mk_base_intro = map_option fst bs, mk_separator = sep, mk_closing = cls\<rparr>
      (concat (os p)) (map_option (\<lambda>(m, b). concat (b p)) bs) (concat (ts p)) = concat (seg_lines (split_block opn os bs sep ts p cls))"
    by (cases bs) (auto simp: render_region_block_def split_block_def split: prod.splits)
  have snoc: "concat (seg_lines (split_block opn os bs sep ts p (cls @ e))) = concat (seg_lines (split_block opn os bs sep ts p cls)) @ e" for e
    by (simp add: split_block_def)
  show ?case
    using Cons by (cases ps) (auto simp: block snoc between_blocks_def)
qed simp


text \<open>Lines that are all ended.\<close>

definition full_lines :: "utext list \<Rightarrow> bool" where
  "full_lines ps \<longleftrightarrow> (\<forall>l\<in>set ps. l \<noteq> [] \<and> LF \<notin> set (butlast l) \<and> last l = LF)"

lemma pieces_full: "ys \<noteq> [] \<Longrightarrow> pieces (xs @ ys) \<longleftrightarrow> full_lines xs \<and> pieces ys"
proof -
  assume "ys \<noteq> []"
  moreover have "full_lines xs \<longleftrightarrow> pieces xs \<and> (\<forall>l\<in>set xs. last l = LF)"
    by (auto simp: full_lines_def pieces_def dest: in_set_butlastD)
  ultimately show ?thesis
    by (auto simp: pieces_append)
qed

lemma full_lines_append [simp]: "full_lines (xs @ ys) \<longleftrightarrow> full_lines xs \<and> full_lines ys"
  by (auto simp: full_lines_def)

lemma full_lines_subset: "full_lines ys \<Longrightarrow> set xs \<subseteq> set ys \<Longrightarrow> full_lines xs"
  by (auto simp: full_lines_def)

lemma pieces_Cons: "ys \<noteq> [] \<Longrightarrow> pieces (x # ys) \<longleftrightarrow> full_lines [x] \<and> pieces ys"
  using pieces_full [of ys "[x]"] by simp

text \<open>A block is pieces when its lines but the closing one are full.\<close>

fun seg_front :: "line_segment \<Rightarrow> utext list" where
  "seg_front (Line_Text ls) = ls"
| "seg_front (Line_Block opn ours base sep theirs cls) = opn # ours @ base_part base @ sep # theirs"

fun seg_closing :: "line_segment \<Rightarrow> utext" where
  "seg_closing (Line_Text ls) = []"
| "seg_closing (Line_Block opn ours base sep theirs cls) = cls"

lemma block_front: "block_wf b \<Longrightarrow> seg_lines b = seg_front b @ [seg_closing b]"
  by (cases b) simp_all

lemma pieces_block: "block_wf b \<Longrightarrow> pieces (seg_lines b @ rest) \<longleftrightarrow> full_lines (seg_front b) \<and> pieces (seg_closing b # rest)"
  using pieces_full [of "seg_closing b # rest" "seg_front b"] by (simp add: block_front)

lemma pieces_blocks:
  assumes "\<forall>p\<in>set ps. full_lines (seg_front (blk p cls))" "\<And>p c c'. seg_front (blk p c) = seg_front (blk p c')"
    and "\<And>p c. is_close c \<Longrightarrow> p \<in> set ps \<Longrightarrow> block_wf (blk p c) \<and> seg_closing (blk p c) = c"
    and "is_close cls" "is_close cls'" "full_lines [cls']" "pieces (cls # rest)"
  shows "pieces (seg_concat (split_segs blk cls cls' ps) @ rest)"
  using assms
proof (induction blk cls cls' ps rule: split_segs.induct)
  case (1 blk cls cls')
  then show ?case
    using pieces_append [of "[cls]" rest] by simp
next
  case (2 blk cls cls' p)
  then show ?case
    by (simp add: pieces_block)
next
  case (3 blk cls cls' p q ps)
  let ?rest = "seg_concat (split_segs blk cls cls' (q # ps)) @ rest"
  have "pieces ?rest"
    by (rule 3(1)) (use 3(2-) in auto)
  moreover have "?rest \<noteq> []"
    using 3(4) [OF 3(5), of q] 3(4) [OF 3(6), of q] seg_lines_nonempty by (cases ps) auto
  moreover have "full_lines (seg_front (blk p cls'))"
    using 3(2,3) by (metis list.set_intros(1))
  ultimately show ?case
    using 3(4) [OF 3(6), of p] 3(7) pieces_Cons [of ?rest cls'] by (simp add: pieces_block)
qed

lemma line_segments_blocks:
  assumes "\<And>p c. is_close c \<Longrightarrow> p \<in> set ps \<Longrightarrow> block_wf (blk p c)" "is_close cls" "is_close cls'"
  shows "line_segments (seg_concat (split_segs blk cls cls' ps) @ rest) = split_segs blk cls cls' ps @ line_segments rest"
  using assms
proof (induction blk cls cls' ps rule: split_segs.induct)
  case (2 blk cls cls' p)
  then show ?case
    using line_segments_block [of "[]" "blk p cls" rest] by (simp add: text_lines_def)
next
  case (3 blk cls cls' p q ps)
  then show ?case
    using line_segments_block [of "[]" "blk p cls'" "seg_concat (split_segs blk cls cls' (q # ps)) @ rest"]
    by (simp add: text_lines_def)
qed simp

lemma split_segs_Cons: "ps \<noteq> [] \<Longrightarrow> \<exists>c bs. split_segs blk cls cls' ps = blk (hd ps) c # bs \<and> (c = cls \<or> c = cls')"
  by (cases "(blk, cls, cls', ps)" rule: split_segs.cases) auto

lemma blocks_in_split: "(\<And>p c. \<not> (\<exists>ls. blk p c = Line_Text ls)) \<Longrightarrow> blocks_in (split_segs blk cls cls' ps) = length ps"
  by (induction blk cls cls' ps rule: split_segs.induct) (simp_all add: blocks_in_def)

text \<open>Replacing one block by others keeps the rest of the text and its segments.\<close>

lemma replace_block:
  assumes cut: "line_segments (split_inclusive t) = ss0 @ b # ss1" and wf: "block_wf b"
    and blk: "\<And>p c. is_close c \<Longrightarrow> p \<in> set ps \<Longrightarrow> block_wf (blk p c) \<and> seg_closing (blk p c) = c"
    and front: "\<And>p c c'. seg_front (blk p c) = seg_front (blk p c')" "\<forall>p\<in>set ps. set (seg_front (blk p cls)) \<subseteq> set (seg_front b)"
    and cls: "cls = seg_closing b" "is_close cls" "is_close cls'" "full_lines [cls']" and ps: "ps \<noteq> []"
    and new: "t' = concat (seg_concat ss0) @ concat (seg_concat (split_segs blk cls cls' ps)) @ concat (seg_concat ss1)"
  shows "line_segments (split_inclusive t') = ss0 @ split_segs blk cls cls' ps @ ss1"
proof -
  let ?new = "split_segs blk cls cls' ps"
  have "pieces (seg_concat ss0 @ seg_lines b @ seg_concat ss1)"
    using segments_around(1) [OF cut wf] pieces_split [of t] by simp
  then have old: "full_lines (seg_concat ss0)" "full_lines (seg_front b)" "pieces (cls # seg_concat ss1)"
    using pieces_full [of "seg_lines b @ seg_concat ss1" "seg_concat ss0"] seg_lines_nonempty [OF wf] wf
    by (simp_all add: pieces_block cls(1))
  have p1: "pieces (seg_concat ?new @ seg_concat ss1)"
    by (rule pieces_blocks) (use blk front old cls full_lines_subset in blast)+
  obtain c bs where hd: "?new = blk (hd ps) c # bs" "block_wf (blk (hd ps) c)"
    using split_segs_Cons [OF ps, of blk cls cls'] blk cls ps by (metis hd_in_set)
  have "pieces (seg_concat ss0 @ seg_concat ?new @ seg_concat ss1)"
    using p1 old(1) hd seg_lines_nonempty [OF hd(2)] pieces_full [of "seg_concat ?new @ seg_concat ss1" "seg_concat ss0"] by simp
  then have "split_inclusive t' = seg_concat ss0 @ seg_concat ?new @ seg_concat ss1"
    using split_pieces unfolding new by (metis concat_append)
  moreover have "line_segments (seg_concat ss0 @ seg_lines (blk (hd ps) c) @ seg_concat bs @ seg_concat ss1) =
      ss0 @ blk (hd ps) c # line_segments (seg_concat bs @ seg_concat ss1)"
    by (rule segments_around(3) [OF cut wf hd(2)])
  moreover have "line_segments (seg_concat ?new @ seg_concat ss1) = ?new @ ss1"
    using line_segments_blocks [of ps blk cls cls' "seg_concat ss1"] blk cls segments_around(2) [OF cut wf] by simp
  then have "line_segments (seg_concat bs @ seg_concat ss1) = bs @ ss1"
    using line_segments_block [of "[]" "blk (hd ps) c" "seg_concat bs @ seg_concat ss1"] hd by (simp add: text_lines_def)
  ultimately show ?thesis
    by (simp add: hd(1))
qed


text \<open>The line parts a split makes of a block.\<close>

definition split_parts :: "line_segment \<Rightarrow> conflict_region_split_boundaries \<Rightarrow> nat \<Rightarrow> utext \<Rightarrow> line_segment" where
  "split_parts b bd p cls =
     (case b of
        Line_Block opn ours base sep theirs _ \<Rightarrow>
          split_block opn (line_parts ours (sb_ours bd))
            (map_option (\<lambda>(m, ls). (m, line_parts ls (the (sb_base bd)))) base)
            sep (line_parts theirs (sb_theirs bd)) p cls
      | Line_Text ls \<Rightarrow> b)"

definition emitted_parts :: "line_segment \<Rightarrow> conflict_region_split_boundaries \<Rightarrow> nat list" where
  "emitted_parts b bd = filter (\<lambda>p. \<not> (case plain (split_parts b bd p []) of
       Seg_Conflict c \<Rightarrow> pb_ours c = [] \<and> pb_theirs c = [] \<and> (case pb_base c of None \<Rightarrow> True | Some x \<Rightarrow> x = [])
     | Seg_Text x \<Rightarrow> True)) [0..<3]"

fun opening_of :: "line_segment \<Rightarrow> utext" where
  "opening_of (Line_Text ls) = []"
| "opening_of (Line_Block opn ours base sep theirs cls) = opn"

lemma pieces_slice: "pieces (xs @ ys @ zs) \<Longrightarrow> pieces ys"
  by (simp add: pieces_append)

lemma located_lines:
  assumes "line_segments (split_inclusive t) = ss0 @ b # ss1" "block_wf b"
  shows "split_inclusive t = seg_concat ss0 @ seg_lines b @ seg_concat ss1"
    and "lines_at t (chars (seg_concat ss0)) (seg_lines b @ seg_concat ss1)"
    and "slice t 0 (chars (seg_concat ss0)) = concat (seg_concat ss0)"
    and "pieces (seg_concat ss0 @ seg_lines b @ seg_concat ss1)"
proof -
  show all: "split_inclusive t = seg_concat ss0 @ seg_lines b @ seg_concat ss1"
    by (rule segments_around(1) [OF assms])
  show "lines_at t (chars (seg_concat ss0)) (seg_lines b @ seg_concat ss1)"
    using lines_at_append [of t 0 "seg_concat ss0"] lines_at_whole [of t] all by simp
  show "slice t 0 (chars (seg_concat ss0)) = concat (seg_concat ss0)"
    using slice_lines [of t 0 "[]" "seg_concat ss0" "seg_lines b @ seg_concat ss1"] lines_at_whole [of t] all by simp
  show "pieces (seg_concat ss0 @ seg_lines b @ seg_concat ss1)"
    using pieces_split [of t] all by simp
qed

lemma side_pieces:
  assumes "pieces (xs @ seg_lines (Line_Block opn ours base sep theirs cls) @ ys)"
  shows "split_inclusive (concat ours) = ours" "split_inclusive (concat theirs) = theirs"
    and "base = Some (m, ls) \<Longrightarrow> split_inclusive (concat ls) = ls"
  using pieces_slice [of "xs @ [opn]" ours "base_part base @ sep # theirs @ cls # ys"]
    pieces_slice [of "xs @ opn # ours @ base_part base @ [sep]" theirs "cls # ys"]
    pieces_slice [of "xs @ opn # ours @ [m]" ls "sep # theirs @ cls # ys"] assms split_pieces by auto

abbreviation three :: "(nat \<Rightarrow> utext list) \<Rightarrow> utext list" where
  "three f \<equiv> map (\<lambda>p. concat (f p)) [0..<3::nat]"

abbreviation base_parts_of :: "(utext \<times> utext list) option \<Rightarrow> conflict_region_split_boundaries \<Rightarrow> (utext \<times> (nat \<Rightarrow> utext list)) option" where
  "base_parts_of base bd \<equiv> map_option (\<lambda>(m, ls). (m, line_parts ls (the (sb_base bd)))) base"

lemma emit_split:
  assumes b: "b = Line_Block opn ours base sep theirs cls"
    and bp: "bp = map_option (\<lambda>(m, f). three f) (base_parts_of base bd)"
  shows "emit_parts \<lparr>mk_opening = opn, mk_base_intro = map_option fst base, mk_separator = sep, mk_closing = cls\<rparr>
      (three (line_parts ours (sb_ours bd))) bp (three (line_parts theirs (sb_theirs bd))) True (emitted_parts b bd) =
    concat (seg_concat (split_segs (split_parts b bd) cls (cls @ between_blocks opn cls) (emitted_parts b bd)))"
proof -
  let ?os = "line_parts ours (sb_ours bd)" and ?ts = "line_parts theirs (sb_theirs bd)"
  have "map_option fst base = map_option fst (base_parts_of base bd)"
    by (cases base) auto
  moreover have "split_parts b bd = split_block opn ?os (base_parts_of base bd) sep ?ts"
    by (intro ext) (simp add: split_parts_def b)
  moreover have "p < 3" if "p \<in> set (emitted_parts b bd)" for p
    using that by (simp add: emitted_parts_def)
  then have "\<forall>p\<in>set (emitted_parts b bd). three ?os ! p = concat (?os p) \<and> three ?ts ! p = concat (?ts p)"
    "\<forall>p\<in>set (emitted_parts b bd). map_option (\<lambda>parts. parts ! p) bp = map_option (\<lambda>(m, f). concat (f p)) (base_parts_of base bd)"
    unfolding bp by (auto simp: option.map_comp o_def split: prod.splits intro!: option.map_cong)
  ultimately show ?thesis
    using emit_parts_lines [of "emitted_parts b bd" "three ?os" ?os "three ?ts" ?ts bp "base_parts_of base bd" opn sep cls True]
    by simp
qed

lemma split_computed:
  assumes b: "line_segments (split_inclusive t) = ss0 @ b # ss1" "b = Line_Block opn ours base sep theirs cls"
    and i: "nth_opt (conflict_blocks t) i = Some r" "seg_range (chars (seg_concat ss0)) b = Rng_Conflict r"
    and wf: "block_wf b"
  shows "split_conflict_region_text t i bd =
    (if (base \<noteq> None) \<noteq> (sb_base bd \<noteq> None) \<or> length (emitted_parts b bd) < 2 then None
     else Some \<lparr>eo_new_text = concat (seg_concat ss0) @
         concat (seg_concat (split_segs (split_parts b bd) cls (cls @ between_blocks opn cls) (emitted_parts b bd))) @
         concat (seg_concat ss1), eo_parts = length (emitted_parts b bd)\<rparr>)"
proof -
  note loc = located_lines [OF b(1) wf]
  note texts = block_texts [OF loc(2) [unfolded b(2)] i(2) [unfolded b(2)]]
  note cut = side_pieces [OF loc(4) [unfolded b(2)]]
  show ?thesis
  proof (cases "(base \<noteq> None) \<noteq> (sb_base bd \<noteq> None)")
    case True
    then show ?thesis
      using i texts(7) by (auto simp: split_conflict_region_text_def)
  next
    case False
    define bp where "bp = (case (map_option (text_for_range t) (pr_base r), sb_base bd) of
        (Some base, Some bounds) \<Rightarrow> Some (side_slices base bounds) | _ \<Rightarrow> None)"
    have bp: "bp = map_option (\<lambda>(m, f). three f) (base_parts_of base bd)"
      using False cut(3) texts(4) by (cases base) (auto simp: bp_def side_slices_lines split: prod.splits)
    have sides: "side_slices (concat ours) (sb_ours bd) = three (line_parts ours (sb_ours bd))"
      "side_slices (concat theirs) (sb_theirs bd) = three (line_parts theirs (sb_theirs bd))"
      using cut(1,2) by (simp_all add: side_slices_lines)
    have emitted: "filter (\<lambda>p. three (line_parts ours (sb_ours bd)) ! p \<noteq> [] \<or> three (line_parts theirs (sb_theirs bd)) ! p \<noteq> [] \<or>
        (case bp of Some parts \<Rightarrow> parts ! p \<noteq> [] | None \<Rightarrow> False)) [0..<3] = emitted_parts b bd"
      unfolding emitted_parts_def
      by (rule filter_cong) (auto simp: split_parts_def split_block_def b(2) bp split: option.splits prod.splits)
    have "(pr_base r \<noteq> None) = (sb_base bd \<noteq> None)"
      using False texts(7) by auto
    then show ?thesis
      using False loc(3) emit_split [OF b(2) bp]
      unfolding split_conflict_region_text_def i(1) option.case Let_def bp_def [symmetric] texts(1,2,3,5,6) sides emitted
      by simp
  qed
qed

lemma full_closing:
  assumes "cls \<noteq> []" "LF \<notin> set (butlast cls)"
  shows "full_lines [cls @ between_blocks opn cls]"
proof (cases "last cls = LF")
  case True
  then show ?thesis
    using assms by (simp add: between_blocks_def full_lines_def)
next
  case False
  then have "LF \<notin> set cls"
    using assms append_butlast_last_id [of cls] by (metis Un_iff empty_iff empty_set set_ConsD set_append)
  then show ?thesis
    using assms False by (auto simp: between_blocks_def full_lines_def butlast_append)
qed

lemma split_parts_front:
  assumes "p < 3"
  shows "set (seg_front (split_parts (Line_Block opn ours base sep theirs cls) bd p c)) \<subseteq>
    set (seg_front (Line_Block opn ours base sep theirs cls))"
proof -
  note sub = set_line_parts [OF assms, of ours "sb_ours bd"] set_line_parts [OF assms, of theirs "sb_theirs bd"]
  show ?thesis
  proof (cases base)
    case (Some mb)
    then show ?thesis
      using sub set_line_parts [OF assms, of "snd mb" "the (sb_base bd)"]
      by (cases mb) (auto simp: split_parts_def split_block_def)
  qed (use sub in \<open>auto simp: split_parts_def split_block_def\<close>)
qed

text \<open>What a split does to the segments.\<close>

lemma split_segments:
  assumes "split_conflict_region_text t i bd = Some res"
  shows "\<exists>ss0 b ss1. line_segments (split_inclusive t) = ss0 @ b # ss1 \<and> block_wf b \<and> blocks_in ss0 = i \<and>
    line_segments (split_inclusive (eo_new_text res)) =
      ss0 @ split_segs (split_parts b bd) (seg_closing b) (seg_closing b @ between_blocks (opening_of b) (seg_closing b)) (emitted_parts b bd) @ ss1 \<and>
    eo_parts res = length (emitted_parts b bd) \<and> 2 \<le> eo_parts res"
proof -
  obtain r where r: "nth_opt (conflict_blocks t) i = Some r"
    using assms by (cases "nth_opt (conflict_blocks t) i") (auto simp: split_conflict_region_text_def)
  then obtain ss0 opn ours base sep theirs cls ss1
    where cut: "line_segments (split_inclusive t) = ss0 @ Line_Block opn ours base sep theirs cls # ss1" "blocks_in ss0 = i"
      and wf: "block_wf (Line_Block opn ours base sep theirs cls)"
      and rng: "seg_range (chars (seg_concat ss0)) (Line_Block opn ours base sep theirs cls) = Rng_Conflict r"
    using located_block by blast
  define b where "b = Line_Block opn ours base sep theirs cls"
  note cut' = cut(1) [folded b_def] and wf' = wf [folded b_def]
  have res: "(base \<noteq> None) = (sb_base bd \<noteq> None)" "2 \<le> length (emitted_parts b bd)"
    "res = \<lparr>eo_new_text = concat (seg_concat ss0) @
         concat (seg_concat (split_segs (split_parts b bd) cls (cls @ between_blocks opn cls) (emitted_parts b bd))) @
         concat (seg_concat ss1), eo_parts = length (emitted_parts b bd)\<rparr>"
    using assms split_computed [OF cut' b_def r rng [folded b_def] wf', of bd] by (auto split: if_splits)
  have cls: "cls \<noteq> []" "LF \<notin> set (butlast cls)" "is_close cls" "is_close (cls @ between_blocks opn cls)"
    using located_lines(4) [OF cut' wf'] wf by (auto simp: pieces_def b_def starts_with_def)
  have small: "p < 3" if "p \<in> set (emitted_parts b bd)" for p
    using that by (simp add: emitted_parts_def)
  have "line_segments (split_inclusive (eo_new_text res)) =
      ss0 @ split_segs (split_parts b bd) cls (cls @ between_blocks opn cls) (emitted_parts b bd) @ ss1"
  proof (rule replace_block [OF cut' wf'])
    show "block_wf (split_parts b bd p c) \<and> seg_closing (split_parts b bd p c) = c"
      if "is_close c" "p \<in> set (emitted_parts b bd)" for p c
      using wf that(1) small [OF that(2)]
      by (auto simp: split_parts_def split_block_def b_def dest: line_parts_mem split: option.splits prod.splits)
    show "seg_front (split_parts b bd p c) = seg_front (split_parts b bd p c')" for p c c'
      by (simp add: split_parts_def split_block_def b_def)
    show "\<forall>p\<in>set (emitted_parts b bd). set (seg_front (split_parts b bd p cls)) \<subseteq> set (seg_front b)"
      using small split_parts_front unfolding b_def by blast
  qed (use res cls full_closing [OF cls(1,2)] in \<open>auto simp: b_def\<close>)
  then show ?thesis
    using cut' cut(2) wf' res by (intro exI [of _ ss0] exI [of _ b] exI [of _ ss1]) (simp add: b_def)
qed


fun base_of :: "parsed_conflict_segment \<Rightarrow> utext" where
  "base_of (Seg_Text x) = x"
| "base_of (Seg_Conflict b) = (case pb_base b of Some x \<Rightarrow> x | None \<Rightarrow> [])"

lemma length_conflict_blocks: "length (conflict_blocks t) = blocks_in (line_segments (split_inclusive t))"
  by (simp add: conflict_blocks_def parsed_ranges length_conflict_ranges)

lemma parsed_segments: "parse_conflict_marker_segments t = map plain (line_segments (split_inclusive t))"
  by (simp add: parse_segments segments_of_def)

lemma side_split_segs:
  "(\<And>p c c'. f (plain (blk p c)) = f (plain (blk p c'))) \<Longrightarrow>
    side_text f (map plain (split_segs blk cls cls' ps)) = concat (map (\<lambda>p. f (plain (blk p cls))) ps)"
  by (induction blk cls cls' ps rule: split_segs.induct) simp_all

lemma concat_filter_empty: "(\<And>x. x \<in> set xs \<Longrightarrow> \<not> P x \<Longrightarrow> f x = []) \<Longrightarrow> concat (map f (filter P xs)) = concat (map f xs)"
  by (induction xs) auto

lemma line_parts_texts:
  "concat (line_parts ls bounds 0) @ concat (line_parts ls bounds (Suc 0)) @ concat (line_parts ls bounds 2) = concat ls"
  using line_parts_concat [of ls bounds] by (metis concat_append One_nat_def)

text \<open>Each side of a block is what its parts hold together.\<close>

lemma emitted_sides:
  assumes "f = ours_of \<or> f = theirs_of \<or> f = base_of" and b: "b = Line_Block opn ours base sep theirs cls"
  shows "concat (map (\<lambda>p. f (plain (split_parts b bd p cls))) (emitted_parts b bd)) = f (plain b)"
proof -
  have "concat (map (\<lambda>p. f (plain (split_parts b bd p cls))) (emitted_parts b bd)) =
      concat (map (\<lambda>p. f (plain (split_parts b bd p cls))) [0..<3])"
    unfolding emitted_parts_def
    by (rule concat_filter_empty)
      (use assms in \<open>auto simp: split_parts_def split_block_def split: option.splits prod.splits\<close>)
  moreover have "[0..<3] = [0, 1, 2 :: nat]"
    by (simp add: upt_rec numeral_3_eq_3 numeral_2_eq_2)
  ultimately show ?thesis
    using assms by (cases base) (auto simp: line_parts_texts split_parts_def split_block_def split: prod.splits)
qed

lemma split_sides:
  assumes "f = ours_of \<or> f = theirs_of \<or> f = base_of" and b: "block_wf b"
  shows "side_text f (map plain (split_segs (split_parts b bd) (seg_closing b) cls' (emitted_parts b bd))) = f (plain b)"
proof (cases b)
  case (Line_Block opn ours base sep theirs cls)
  have "f (plain (split_parts b bd p c)) = f (plain (split_parts b bd p c'))" for p c c'
    using assms(1) Line_Block by (auto simp: split_parts_def split_block_def)
  then show ?thesis
    using side_split_segs [of f "split_parts b bd" cls cls' "emitted_parts b bd"] emitted_sides [OF assms(1) Line_Block, of bd] Line_Block
    by simp
qed (use b in simp)

text \<open>C11: Splitting a conflict region loses nothing. Whatever the boundaries, the marked text after a
  split has the same text for our side, for their side and for the base as before, one conflict less and
  as many more as the outcome says, which is two or three.\<close>

theorem splitting_keeps_the_sides:
  assumes "split_conflict_region_text t i bd = Some res"
  shows "reconstruct_conflict_marker_sides (eo_new_text res) = reconstruct_conflict_marker_sides t \<and>
    side_text base_of (parse_conflict_marker_segments (eo_new_text res)) = side_text base_of (parse_conflict_marker_segments t) \<and>
    length (conflict_blocks (eo_new_text res)) + 1 = length (conflict_blocks t) + eo_parts res \<and>
    2 \<le> eo_parts res \<and> eo_parts res \<le> 3"
proof -
  obtain ss0 b ss1 where s: "line_segments (split_inclusive t) = ss0 @ b # ss1" "block_wf b"
    "line_segments (split_inclusive (eo_new_text res)) =
      ss0 @ split_segs (split_parts b bd) (seg_closing b) (seg_closing b @ between_blocks (opening_of b) (seg_closing b)) (emitted_parts b bd) @ ss1"
    "eo_parts res = length (emitted_parts b bd)" "2 \<le> eo_parts res"
    using split_segments [OF assms] by blast
  have "side_text f (map plain (line_segments (split_inclusive (eo_new_text res)))) =
      side_text f (map plain (line_segments (split_inclusive t)))" if "f = ours_of \<or> f = theirs_of \<or> f = base_of" for f
    using s split_sides [OF that s(2)] by simp
  moreover have "length (emitted_parts b bd) \<le> 3"
    unfolding emitted_parts_def by (rule order_trans [OF length_filter_le]) simp
  moreover have "blocks_in [b] = 1" "\<not> (\<exists>ls. split_parts b bd p c = Line_Text ls)" for p c
    using s(2) by (cases b; simp add: split_parts_def split_block_def)+
  then have "length (conflict_blocks (eo_new_text res)) + 1 = length (conflict_blocks t) + eo_parts res"
    using s blocks_in_simps(4) [of "[b]" ss1] blocks_in_split [of "split_parts b bd"]
    by (simp add: length_conflict_blocks)
  ultimately show ?thesis
    using s(4,5) by (simp add: sides_of_segments parsed_segments)
qed

definition two_line_conflict :: utext where
  "two_line_conflict = opening_marker @ [LF] @ str ''a'' @ [LF] @ str ''b'' @ [LF] @ separator_marker @ [LF] @
     str ''c'' @ [LF] @ closing_marker"

lemma two_line_conflict_splits:
  "split_conflict_region_text two_line_conflict 0 \<lparr>sb_ours = (1, 2), sb_theirs = (1, 1), sb_base = None\<rparr> \<noteq> None"
  by code_simp

theorem splitting_keeps_the_sides_witness:
  "\<exists>res. split_conflict_region_text two_line_conflict 0 \<lparr>sb_ours = (1, 2), sb_theirs = (1, 1), sb_base = None\<rparr> = Some res \<and>
    reconstruct_conflict_marker_sides (eo_new_text res) = reconstruct_conflict_marker_sides two_line_conflict"
  using splitting_keeps_the_sides [of two_line_conflict 0 "\<lparr>sb_ours = (1, 2), sb_theirs = (1, 1), sb_base = None\<rparr>"]
    two_line_conflict_splits by blast


section \<open>Joining\<close>

text \<open>The block a join writes, from the two blocks and the lines between them.\<close>

fun join_base :: "(utext \<times> utext list) option \<Rightarrow> utext list \<Rightarrow> (utext \<times> utext list) option \<Rightarrow> (utext \<times> utext list) option" where
  "join_base None ctx None = None"
| "join_base (Some (m, ls)) ctx None = Some (m, ls @ ctx)"
| "join_base None ctx (Some (m, ls)) = Some (m, ctx @ ls)"
| "join_base (Some (m, ls)) ctx (Some (m', ls')) = Some (m, ls @ ctx @ ls')"

fun join_blocks :: "line_segment \<Rightarrow> utext list \<Rightarrow> line_segment \<Rightarrow> line_segment" where
  "join_blocks (Line_Block opn1 os1 bs1 sep1 ts1 cls1) ctx (Line_Block opn2 os2 bs2 sep2 ts2 cls2) =
     Line_Block opn1 (os1 @ ctx @ os2) (join_base bs1 ctx bs2) sep1 (ts1 @ ctx @ ts2) cls2"
| "join_blocks b ctx b' = b"

lemma located_neighbours:
  assumes "nth_opt (conflict_blocks t) i = Some r1" "nth_opt (conflict_blocks t) (i + 1) = Some r2"
  shows "\<exists>ss0 b1 mid b2 ss1. line_segments (split_inclusive t) = ss0 @ b1 # mid @ b2 # ss1 \<and> blocks_in mid = 0 \<and>
    block_wf b1 \<and> block_wf b2 \<and> seg_range (chars (seg_concat ss0)) b1 = Rng_Conflict r1 \<and>
    seg_range (chars (seg_concat (ss0 @ b1 # mid))) b2 = Rng_Conflict r2"
proof -
  obtain ss0 b1 rest where b1: "line_segments (split_inclusive t) = ss0 @ b1 # rest" "blocks_in ss0 = i" "block_wf b1"
      "seg_range (chars (seg_concat ss0)) b1 = Rng_Conflict r1"
    using located_block [OF assms(1)] by blast
  let ?a = "chars (seg_concat ss0) + chars (seg_lines b1)"
  have "conflict_blocks t = filter_map conflict_range (ranges_from 0 ss0) @ r1 # filter_map conflict_range (ranges_from ?a rest)"
    using b1(1,4) by (simp add: conflict_blocks_def parsed_ranges ranges_from_append)
  then have "nth_opt (filter_map conflict_range (ranges_from ?a rest)) 0 = Some r2"
    using assms(2) b1(2) by (simp add: nth_opt_def nth_append length_conflict_ranges split: if_splits)
  then obtain mid b2 ss1 where b2: "rest = mid @ b2 # ss1" "blocks_in mid = 0" "\<not> (\<exists>ls. b2 = Line_Text ls)"
      "seg_range (?a + chars (seg_concat mid)) b2 = Rng_Conflict r2"
    using nth_conflict_range by blast
  have "block_wf b2"
    using line_segments_ok [of "split_inclusive t" b2] split_inclusive_nonempty b1(1) b2(1,3) by fastforce
  then show ?thesis
    using b1 b2 by (intro exI [of _ ss0] exI [of _ b1] exI [of _ mid] exI [of _ b2] exI [of _ ss1]) (simp add: add.assoc)
qed

lemma join_wf:
  assumes "block_wf b1" "block_wf b2" "\<forall>l\<in>set ctx. \<not> is_markerish l"
  shows "block_wf (join_blocks b1 ctx b2)" "seg_closing (join_blocks b1 ctx b2) = seg_closing b2"
    "set (seg_front (join_blocks b1 ctx b2)) \<subseteq> set (seg_front b1) \<union> set ctx \<union> set (seg_front b2)"
proof -
  obtain opn1 os1 bs1 sep1 ts1 cls1 opn2 os2 bs2 sep2 ts2 cls2
    where b: "b1 = Line_Block opn1 os1 bs1 sep1 ts1 cls1" "b2 = Line_Block opn2 os2 bs2 sep2 ts2 cls2"
    using assms(1,2) by (cases b1; cases b2) auto
  show "block_wf (join_blocks b1 ctx b2)" "seg_closing (join_blocks b1 ctx b2) = seg_closing b2"
    "set (seg_front (join_blocks b1 ctx b2)) \<subseteq> set (seg_front b1) \<union> set ctx \<union> set (seg_front b2)"
    using assms unfolding b
    by (cases "(bs1, ctx, bs2)" rule: join_base.cases; auto simp: is_markerish_def)+
qed

lemma join_sides:
  assumes "block_wf b1" "block_wf b2"
  shows "ours_of (plain (join_blocks b1 ctx b2)) = ours_of (plain b1) @ concat ctx @ ours_of (plain b2)"
    "theirs_of (plain (join_blocks b1 ctx b2)) = theirs_of (plain b1) @ concat ctx @ theirs_of (plain b2)"
proof -
  obtain opn1 os1 bs1 sep1 ts1 cls1 opn2 os2 bs2 sep2 ts2 cls2
    where b: "b1 = Line_Block opn1 os1 bs1 sep1 ts1 cls1" "b2 = Line_Block opn2 os2 bs2 sep2 ts2 cls2"
    using assms by (cases b1; cases b2) auto
  show "ours_of (plain (join_blocks b1 ctx b2)) = ours_of (plain b1) @ concat ctx @ ours_of (plain b2)"
    "theirs_of (plain (join_blocks b1 ctx b2)) = theirs_of (plain b1) @ concat ctx @ theirs_of (plain b2)"
    unfolding b by (cases "(bs1, ctx, bs2)" rule: join_base.cases; simp)+
qed

text \<open>The lines between two neighbouring blocks are context.\<close>

lemma middle_sides: "blocks_in mid = 0 \<Longrightarrow> f = ours_of \<or> f = theirs_of \<or> f = base_of \<Longrightarrow>
    side_text f (map plain mid) = concat (seg_concat mid)"
proof (induction mid)
  case (Cons s mid)
  then show ?case
    by (cases s) auto
qed simp


lemma markerish_lines: "split_inclusive (concat ctx) = ctx \<Longrightarrow>
    (\<exists>l\<in>set (lines (concat ctx)). is_markerish l) \<longleftrightarrow> (\<exists>l\<in>set ctx. is_markerish l)"
  by (simp add: lines_def is_markerish_def marker_strip)

lemma join_text:
  assumes "block_wf b1" "block_wf b2" "marker_lines_of t r1 = \<lparr>mk_opening = opn1, mk_base_intro = map_option fst bs1, mk_separator = sep1, mk_closing = cls1\<rparr>"
    and "marker_lines_of t r2 = \<lparr>mk_opening = opn2, mk_base_intro = map_option fst bs2, mk_separator = sep2, mk_closing = cls2\<rparr>"
    and "b1 = Line_Block opn1 os1 bs1 sep1 ts1 cls1" "b2 = Line_Block opn2 os2 bs2 sep2 ts2 cls2"
    and "map_option (text_for_range t) (pr_base r1) = map_option (\<lambda>(m, ls). concat ls) bs1"
    and "map_option (text_for_range t) (pr_base r2) = map_option (\<lambda>(m, ls). concat ls) bs2"
  shows "render_region_block
      \<lparr>mk_opening = mk_opening (marker_lines_of t r1),
       mk_base_intro = (case mk_base_intro (marker_lines_of t r1) of Some i \<Rightarrow> Some i | None \<Rightarrow> mk_base_intro (marker_lines_of t r2)),
       mk_separator = mk_separator (marker_lines_of t r1), mk_closing = mk_closing (marker_lines_of t r2)\<rparr>
      (concat os1 @ concat ctx @ concat os2)
      (if pr_base r1 = None \<and> pr_base r2 = None then None
       else Some ((case pr_base r1 of Some r \<Rightarrow> text_for_range t r | None \<Rightarrow> []) @ concat ctx @
         (case pr_base r2 of Some r \<Rightarrow> text_for_range t r | None \<Rightarrow> [])))
      (concat ts1 @ concat ctx @ concat ts2) =
    concat (seg_lines (join_blocks b1 ctx b2))"
  using assms(7,8) unfolding assms(3,4,5,6)
  by (cases "(bs1, ctx, bs2)" rule: join_base.cases; cases "pr_base r1"; cases "pr_base r2")
    (auto simp: render_region_block_def)


lemma join_computed:
  assumes cut: "line_segments (split_inclusive t) = ss0 @ b1 # mid @ b2 # ss1" and wf: "block_wf b1" "block_wf b2"
    and rng: "seg_range (chars (seg_concat ss0)) b1 = Rng_Conflict r1"
      "seg_range (chars (seg_concat (ss0 @ b1 # mid))) b2 = Rng_Conflict r2"
    and r: "nth_opt (conflict_blocks t) i = Some r1" "nth_opt (conflict_blocks t) (i + 1) = Some r2"
  shows "join_conflict_regions_text t i =
    (if \<exists>l\<in>set (seg_concat mid). is_markerish l then None
     else Some \<lparr>eo_new_text = concat (seg_concat ss0) @ concat (seg_lines (join_blocks b1 (seg_concat mid) b2)) @
       concat (seg_concat ss1), eo_parts = 1\<rparr>)"
proof -
  have cut2: "line_segments (split_inclusive t) = (ss0 @ b1 # mid) @ b2 # ss1"
    using cut by simp
  obtain opn1 os1 bs1 sep1 ts1 cls1 opn2 os2 bs2 sep2 ts2 cls2
    where b: "b1 = Line_Block opn1 os1 bs1 sep1 ts1 cls1" "b2 = Line_Block opn2 os2 bs2 sep2 ts2 cls2"
    using wf by (cases b1; cases b2) auto
  note loc = located_lines [OF cut wf(1)] and loc2 = located_lines [OF cut2 wf(2)]
  note texts = block_texts [OF loc(2) [unfolded b(1)] rng(1) [unfolded b(1)]]
    and texts2 = block_texts [OF loc2(2) [unfolded b(2)] rng(2) [unfolded b(2)]]
  have stop: "pr_marker_end r1 = chars (seg_concat ss0) + chars (seg_lines b1)"
    using rng(1) by (auto simp: b(1) Let_def)
  have mid: "slice t (pr_marker_end r1) (pr_marker_start r2) = concat (seg_concat mid)"
    using slice_lines [of t "chars (seg_concat ss0)" "seg_lines b1" "seg_concat mid" "seg_concat (b2 # ss1)"] loc(2) stop texts2(6)
    by (simp add: add.assoc)
  have pcs: "pieces (seg_concat mid)"
    using pieces_slice [of "seg_concat ss0 @ seg_lines b1" "seg_concat mid" "seg_concat (b2 # ss1)"] loc(4) by simp
  have ctx: "(\<exists>l\<in>set (lines (concat (seg_concat mid))). is_markerish l) \<longleftrightarrow> (\<exists>l\<in>set (seg_concat mid). is_markerish l)"
    by (rule markerish_lines [OF split_pieces [OF pcs]])
  show ?thesis
    using join_text [OF wf texts(1) texts2(1) b texts(4) texts2(4), of "seg_concat mid"] loc(3)
    unfolding join_conflict_regions_text_def r option.case prod.case Let_def mid ctx texts(2,3,6) texts2(2,3,5)
    by simp
qed

lemma join_segments:
  assumes "join_conflict_regions_text t i = Some res"
  shows "\<exists>ss0 b1 mid b2 ss1. line_segments (split_inclusive t) = ss0 @ b1 # mid @ b2 # ss1 \<and> blocks_in mid = 0 \<and>
    block_wf b1 \<and> block_wf b2 \<and> eo_parts res = 1 \<and>
    line_segments (split_inclusive (eo_new_text res)) = ss0 @ join_blocks b1 (seg_concat mid) b2 # ss1"
proof -
  obtain r1 r2 where r: "nth_opt (conflict_blocks t) i = Some r1" "nth_opt (conflict_blocks t) (i + 1) = Some r2"
    using assms by (auto simp: join_conflict_regions_text_def split: option.splits)
  obtain ss0 b1 mid b2 ss1 where cut: "line_segments (split_inclusive t) = ss0 @ b1 # mid @ b2 # ss1" "blocks_in mid = 0"
      and wf: "block_wf b1" "block_wf b2" and rng: "seg_range (chars (seg_concat ss0)) b1 = Rng_Conflict r1"
      "seg_range (chars (seg_concat (ss0 @ b1 # mid))) b2 = Rng_Conflict r2"
    using located_neighbours [OF r] by blast
  let ?j = "join_blocks b1 (seg_concat mid) b2"
  have ctx: "\<forall>l\<in>set (seg_concat mid). \<not> is_markerish l"
    and res: "res = \<lparr>eo_new_text = concat (seg_concat ss0) @ concat (seg_lines ?j) @ concat (seg_concat ss1), eo_parts = 1\<rparr>"
    using assms join_computed [OF cut(1) wf rng r] by (auto split: if_splits)
  note j = join_wf [OF wf ctx]
  have cut2: "line_segments (split_inclusive t) = (ss0 @ b1 # mid) @ b2 # ss1"
    using cut(1) by simp
  have "pieces (seg_concat ss0 @ (seg_front b1 @ [seg_closing b1]) @ seg_concat mid @ (seg_front b2 @ [seg_closing b2]) @ seg_concat ss1)"
    using located_lines(4) [OF cut(1) wf(1)] wf by (simp add: block_front)
  then have full: "full_lines (seg_concat ss0)" "full_lines (seg_front b1 @ seg_concat mid @ seg_front b2)"
      "pieces (seg_closing b2 # seg_concat ss1)"
    using pieces_full [of "seg_closing b2 # seg_concat ss1" "seg_concat ss0 @ seg_front b1 @ seg_closing b1 # seg_concat mid @ seg_front b2"]
    by (simp_all add: full_lines_def)
  have "full_lines (seg_front ?j)"
    by (rule full_lines_subset [OF full(2)]) (use j(3) in auto)
  then have "pieces (seg_lines ?j @ seg_concat ss1)"
    using j(2) full(3) pieces_block [OF j(1)] by simp
  then have "pieces (seg_concat ss0 @ seg_lines ?j @ seg_concat ss1)"
    using full(1) pieces_full [of "seg_lines ?j @ seg_concat ss1" "seg_concat ss0"] seg_lines_nonempty [OF j(1)] by simp
  then have "split_inclusive (eo_new_text res) = seg_concat ss0 @ seg_lines ?j @ seg_concat ss1"
    using split_pieces unfolding res by (metis concat_append conflict_region_edit_outcome.select_convs(1))
  then have "line_segments (split_inclusive (eo_new_text res)) = ss0 @ ?j # ss1"
    using segments_around(3) [OF cut(1) wf(1) j(1)] segments_around(2) [OF cut2 wf(2)] by simp
  then show ?thesis
    using cut wf res by (intro exI [of _ ss0] exI [of _ b1] exI [of _ mid] exI [of _ b2] exI [of _ ss1]) simp
qed

text \<open>C12: Joining two conflict regions loses nothing. When the neighbours at an index are joined, the
  marked text has the same text for our side and for their side as before, and one conflict less; the
  context between the two is in both sides of the new one.\<close>

theorem joining_keeps_the_sides:
  assumes "join_conflict_regions_text t i = Some res"
  shows "reconstruct_conflict_marker_sides (eo_new_text res) = reconstruct_conflict_marker_sides t \<and>
    length (conflict_blocks (eo_new_text res)) + 1 = length (conflict_blocks t) \<and> eo_parts res = 1"
proof -
  obtain ss0 b1 mid b2 ss1 where s: "line_segments (split_inclusive t) = ss0 @ b1 # mid @ b2 # ss1" "blocks_in mid = 0"
    "block_wf b1" "block_wf b2" "eo_parts res = 1"
    "line_segments (split_inclusive (eo_new_text res)) = ss0 @ join_blocks b1 (seg_concat mid) b2 # ss1"
    using join_segments [OF assms] by blast
  have "length (conflict_blocks (eo_new_text res)) + 1 = length (conflict_blocks t)"
    using s(1,2,6) s(3,4) by (cases b1; cases b2) (simp_all add: length_conflict_blocks)
  moreover have "side_text f (map plain (line_segments (split_inclusive (eo_new_text res)))) =
      side_text f (map plain (line_segments (split_inclusive t)))" if "f = ours_of \<or> f = theirs_of" for f
    using s that join_sides [OF s(3,4)] middle_sides [OF s(2), of f] by auto
  ultimately show ?thesis
    using s(5) by (simp add: sides_of_segments parsed_segments)
qed

definition two_conflicts :: utext where
  "two_conflicts = two_line_conflict @ [LF] @ str ''d'' @ [LF] @ two_line_conflict"

lemma two_conflicts_join: "join_conflict_regions_text two_conflicts 0 \<noteq> None"
  by code_simp

theorem joining_keeps_the_sides_witness:
  "\<exists>res. join_conflict_regions_text two_conflicts 0 = Some res \<and>
    reconstruct_conflict_marker_sides (eo_new_text res) = reconstruct_conflict_marker_sides two_conflicts"
  using joining_keeps_the_sides [of two_conflicts 0] two_conflicts_join by blast

end
