(* ===== verification/Output.thy ===== *)
theory Output
  imports Marker_Facts Selection
begin

text \<open>
  The output of conflict resolution (\<open>conflict_output.rs\<close>): the ordered choice of sources kept in a
  fixed array, the rendering of an unresolved block with its markers, and the text generated from
  context and blocks. The choice is a second provider of the contract \<open>source_selection\<close>. What the
  rendering writes, the marker parser reads back (\<open>rendered_segments_parse_back\<close>).
\<close>

section \<open>The choice of sources\<close>

datatype conflict_output_source = Src_Base | Src_Ours | Src_Theirs

record conflict_output_choice =
  ch_sources :: "conflict_output_source option list"
  ch_len :: nat

definition choice_from_source_const :: "conflict_output_source \<Rightarrow> conflict_output_choice" where
  "choice_from_source_const s = \<lparr>ch_sources = [Some s, None, None], ch_len = 1\<rparr>"

definition choice_empty :: conflict_output_choice where
  "choice_empty = \<lparr>ch_sources = [None, None, None], ch_len = 0\<rparr>"

definition choice_both :: conflict_output_choice where
  "choice_both = \<lparr>ch_sources = [Some Src_Ours, Some Src_Theirs, None], ch_len = 2\<rparr>"

definition choice_iter :: "conflict_output_choice \<Rightarrow> conflict_output_source list" where
  "choice_iter ch = filter_map (\<lambda>x. x) (take (ch_len ch) (ch_sources ch))"

definition choice_contains :: "conflict_output_choice \<Rightarrow> conflict_output_source \<Rightarrow> bool" where
  "choice_contains ch s \<longleftrightarrow> (\<exists>candidate\<in>set (choice_iter ch). candidate = s)"

definition choice_first :: "conflict_output_choice \<Rightarrow> conflict_output_source option" where
  "choice_first ch = nth_opt (choice_iter ch) 0"

definition choice_is_empty :: "conflict_output_choice \<Rightarrow> bool" where
  "choice_is_empty ch \<longleftrightarrow> ch_len ch = 0"

definition choice_append :: "conflict_output_choice \<Rightarrow> conflict_output_source \<Rightarrow> conflict_output_choice" where
  "choice_append ch s =
     (if choice_contains ch s \<or> ch_len ch = length (ch_sources ch) then ch
      else \<lparr>ch_sources = (ch_sources ch)[ch_len ch := Some s], ch_len = ch_len ch + 1\<rparr>)"

definition choice_from_sources :: "conflict_output_source list \<Rightarrow> conflict_output_choice" where
  "choice_from_sources ss = foldl choice_append choice_empty ss"

text \<open>\<open>copy_within(a..b, index)\<close> on an array.\<close>

definition copy_within :: "'a list \<Rightarrow> nat \<Rightarrow> nat \<Rightarrow> nat \<Rightarrow> 'a list" where
  "copy_within xs a b index = take index xs @ slice xs a b @ drop (index + (b - a)) xs"

definition choice_toggle :: "conflict_output_choice \<Rightarrow> conflict_output_source \<Rightarrow> conflict_output_choice" where
  "choice_toggle ch s =
     (case position (\<lambda>candidate. candidate = s) (choice_iter ch) of
        None \<Rightarrow> choice_append ch s
      | Some index \<Rightarrow>
          let len = ch_len ch
          in \<lparr>ch_sources = (copy_within (ch_sources ch) (index + 1) len index)[len - 1 := None], ch_len = len - 1\<rparr>)"

text \<open>The used places come first, without repetitions; the others are empty.\<close>

definition choice_ok :: "conflict_output_choice \<Rightarrow> bool" where
  "choice_ok ch \<longleftrightarrow> (\<exists>ss. distinct ss \<and> length ss \<le> 3 \<and> ch_len ch = length ss \<and>
     ch_sources ch = map Some ss @ replicate (3 - length ss) None)"

lemma card_output_source: "card (UNIV :: conflict_output_source set) = 3"
proof -
  have "(UNIV :: conflict_output_source set) = {Src_Base, Src_Ours, Src_Theirs}"
    using conflict_output_source.exhaust by blast
  then have "card (UNIV :: conflict_output_source set) = card {Src_Base, Src_Ours, Src_Theirs}"
    by (rule arg_cong)
  then show ?thesis
    by simp
qed

lemma output_sources_finite [simp]: "finite (S :: conflict_output_source set)"
  using finite_subset [of S UNIV] card_output_source card_ge_0_finite by fastforce

lemma filter_map_Some_id [simp]: "filter_map Some xs = xs"
  by (induction xs) auto

lemma choice_iter_ok:
  "ch_len ch = length ss \<Longrightarrow> ch_sources ch = map Some ss @ replicate n None \<Longrightarrow> choice_iter ch = ss"
  by (simp add: choice_iter_def)

lemma choice_okE:
  assumes "choice_ok ch"
  obtains ss where "distinct ss" "length ss \<le> 3" "ch_len ch = length ss"
    "ch_sources ch = map Some ss @ replicate (3 - length ss) None" "choice_iter ch = ss"
  using assms choice_iter_ok unfolding choice_ok_def by blast

lemma choice_append_ok:
  assumes "choice_ok ch"
  shows "choice_ok (choice_append ch s) \<and> choice_iter (choice_append ch s) =
    (if s \<in> set (choice_iter ch) then choice_iter ch else choice_iter ch @ [s])"
proof -
  obtain ss where ss: "distinct ss" "length ss \<le> 3" "ch_len ch = length ss"
    "ch_sources ch = map Some ss @ replicate (3 - length ss) None" "choice_iter ch = ss"
    using choice_okE [OF assms] .
  show ?thesis
  proof (cases "s \<in> set ss")
    case True
    then show ?thesis
      using assms ss(5) by (simp add: choice_append_def choice_contains_def)
  next
    case False
    have "length (s # ss) = card (set (s # ss))"
      using ss(1) False by (simp add: distinct_card)
    also have "\<dots> \<le> card (UNIV :: conflict_output_source set)"
      by (rule card_mono) simp_all
    finally have small: "length ss < 3"
      by (simp add: card_output_source)
    then have r: "replicate (3 - length ss) None = None # replicate (3 - length (ss @ [s])) None"
      by (cases "3 - length ss") auto
    have "ch_sources (choice_append ch s) = map Some (ss @ [s]) @ replicate (3 - length (ss @ [s])) None"
      "ch_len (choice_append ch s) = length (ss @ [s])"
      using False small ss(3,5) by (simp_all add: choice_append_def choice_contains_def list_update_append ss(4)) (simp add: r)
    then show ?thesis
      using False small ss(1,5) choice_iter_ok [of "choice_append ch s" "ss @ [s]"]
      by (auto simp: choice_ok_def intro!: exI [of _ "ss @ [s]"])
  qed
qed

lemma choice_toggle_ok:
  assumes "choice_ok ch"
  shows "choice_ok (choice_toggle ch s) \<and> choice_iter (choice_toggle ch s) =
    (if s \<in> set (choice_iter ch) then remove1 s (choice_iter ch) else choice_iter ch @ [s])"
proof -
  obtain ss where ss: "distinct ss" "length ss \<le> 3" "ch_len ch = length ss"
    "ch_sources ch = map Some ss @ replicate (3 - length ss) None" "choice_iter ch = ss"
    using choice_okE [OF assms] .
  show ?thesis
  proof (cases "position (\<lambda>x. x = s) ss")
    case None
    then show ?thesis
      using choice_append_ok [OF assms, of s] ss(5) None [unfolded position_eq_None]
      by (simp add: choice_toggle_def)
  next
    case (Some i)
    then have i: "i < length ss" "ss ! i = s"
      using position_SomeD by fastforce+
    let ?rest = "remove_nth i ss"
    have rest: "?rest = remove1 s ss" "length ?rest = length ss - 1"
      using remove_nth_position [OF Some] i nth_mem [OF i(1)] by (auto simp: remove_nth_def length_remove1)
    let ?pad = "replicate (3 - length ss) None"
    have "copy_within (map Some ss @ ?pad) (i + 1) (length ss) i = map Some ?rest @ drop (length ss - 1) (map Some ss @ ?pad)"
      using i(1) by (simp add: copy_within_def remove_nth_def slice_def drop_map take_map)
    also have "\<dots> = map Some ?rest @ Some (last ss) # ?pad"
      using i(1) by (cases ss rule: rev_cases) simp_all
    finally have "ch_sources (choice_toggle ch s) = map Some ?rest @ None # ?pad"
      using Some ss(3,4,5) rest(2) by (simp add: choice_toggle_def Let_def list_update_append)
    moreover have "None # ?pad = replicate (3 - length ?rest) None"
      using i(1) ss(2) rest(2) by (cases "length ss") (simp_all add: Suc_diff_le replicate_Suc [symmetric] del: replicate_Suc)
    moreover have "ch_len (choice_toggle ch s) = length ?rest"
      using Some ss(3,5) rest(2) by (simp add: choice_toggle_def Let_def)
    ultimately show ?thesis
      using rest ss i choice_iter_ok [of "choice_toggle ch s" ?rest]
      by (auto simp: choice_ok_def intro!: exI [of _ "remove1 s ss"])
  qed
qed

interpretation outchoice: source_selection choice_ok choice_empty choice_iter choice_append choice_toggle
proof
  show "choice_ok choice_empty"
    by (auto simp: choice_ok_def choice_empty_def numeral_3_eq_3 intro!: exI [of _ "[]"])
  show "choice_iter choice_empty = []"
    by (simp add: choice_iter_def choice_empty_def)
qed (use choice_append_ok choice_toggle_ok choice_okE in blast)+


section \<open>Segments and their text\<close>

record conflict_output_block =
  ob_base :: "utext option"
  ob_ours :: utext
  ob_theirs :: utext
  ob_choice :: conflict_output_choice
  ob_resolved :: bool

datatype conflict_output_segment = Out_Text utext | Out_Block conflict_output_block

record conflict_marker_labels =
  ml_local :: utext
  ml_remote :: utext
  ml_base :: utext

datatype unresolved_conflict_mode = CollapseToChoice | PreserveMarkers

record generate_resolved_text_options =
  go_unresolved_mode :: unresolved_conflict_mode
  go_labels :: "conflict_marker_labels option"

definition default_resolved_options :: generate_resolved_text_options where
  "default_resolved_options = \<lparr>go_unresolved_mode = CollapseToChoice, go_labels = None\<rparr>"

definition detect_conflict_block_line_ending :: "conflict_output_block \<Rightarrow> utext" where
  "detect_conflict_block_line_ending b =
     detect_line_ending_from_texts
       [ob_ours b, ob_theirs b, case ob_base b of Some base \<Rightarrow> base | None \<Rightarrow> []] Presence"

text \<open>One side, and a line ending when the side does not end with it.\<close>

definition push_side :: "utext \<Rightarrow> utext \<Rightarrow> utext" where
  "push_side newline side = side @ (if side \<noteq> [] \<and> \<not> ends_with side newline then newline else [])"

definition render_unresolved_marker_block :: "conflict_output_block \<Rightarrow> conflict_marker_labels \<Rightarrow> utext" where
  "render_unresolved_marker_block b labels =
     (let newline = detect_conflict_block_line_ending b
      in str ''<<<<<<< '' @ ml_local labels @ newline @ push_side newline (ob_ours b) @
         (case ob_base b of
            Some base \<Rightarrow> str ''||||||| '' @ ml_base labels @ newline @ push_side newline base
          | None \<Rightarrow> []) @
         str ''======='' @ newline @ push_side newline (ob_theirs b) @
         str ''>>>>>>> '' @ ml_remote labels @ newline)"

fun chosen_text :: "conflict_output_block \<Rightarrow> conflict_output_source \<Rightarrow> utext" where
  "chosen_text b Src_Base = (case ob_base b of Some base \<Rightarrow> base | None \<Rightarrow> [])"
| "chosen_text b Src_Ours = ob_ours b"
| "chosen_text b Src_Theirs = ob_theirs b"

definition append_chosen_block_text :: "utext \<Rightarrow> conflict_output_block \<Rightarrow> utext" where
  "append_chosen_block_text out b = foldl (\<lambda>out s. out @ chosen_text b s) out (choice_iter (ob_choice b))"

fun push_segment_text :: "generate_resolved_text_options \<Rightarrow> utext \<Rightarrow> conflict_output_segment \<Rightarrow> utext" where
  "push_segment_text options out (Out_Text t) = out @ t"
| "push_segment_text options out (Out_Block b) =
     (if ob_resolved b \<or> go_unresolved_mode options = CollapseToChoice \<or> go_labels options = None
      then append_chosen_block_text out b
      else case go_labels options of
        Some labels \<Rightarrow> out @ render_unresolved_marker_block b labels
      | None \<Rightarrow> out)"

definition generate_resolved_text :: "conflict_output_segment list \<Rightarrow> generate_resolved_text_options \<Rightarrow> utext" where
  "generate_resolved_text segments options = foldl (push_segment_text options) [] segments"

text \<open>The text of one segment.\<close>

definition segment_output :: "generate_resolved_text_options \<Rightarrow> conflict_output_segment \<Rightarrow> utext" where
  "segment_output options s = push_segment_text options [] s"

lemma append_chosen: "append_chosen_block_text out b = out @ concat (map (chosen_text b) (choice_iter (ob_choice b)))"
proof -
  have "foldl (\<lambda>out s. out @ chosen_text b s) out ss = out @ concat (map (chosen_text b) ss)" for ss
    by (induction ss arbitrary: out) simp_all
  then show ?thesis
    by (simp add: append_chosen_block_text_def)
qed

lemma push_segment_output: "push_segment_text options out s = out @ segment_output options s"
  by (cases s) (auto simp: segment_output_def append_chosen split: option.splits)

lemma generate_concat: "generate_resolved_text segments options = concat (map (segment_output options) segments)"
proof -
  have "foldl (push_segment_text options) out segments = out @ concat (map (segment_output options) segments)" for out
    by (induction segments arbitrary: out) (simp_all add: push_segment_output)
  then show ?thesis
    by (simp add: generate_resolved_text_def)
qed

section \<open>Reading rendered text back\<close>

text \<open>A text none of whose lines begins with one of the markers given.\<close>

definition free_of :: "utext list \<Rightarrow> utext \<Rightarrow> bool" where
  "free_of ms t \<longleftrightarrow> (\<forall>l\<in>set (split_inclusive t). \<forall>m\<in>set ms. \<not> starts_with l m)"

lemma segments_of_block:
  "block_wf b \<Longrightarrow> segments_of (seg_lines b @ rest) = plain b # segments_of rest"
  using line_segments_block [of "[]" b rest] by (simp add: segments_of_def text_lines_def)

lemma segments_of_context:
  "\<forall>l\<in>set ctx. \<not> is_open l \<Longrightarrow> ctx \<noteq> [] \<Longrightarrow> block_wf b \<Longrightarrow>
    segments_of (ctx @ seg_lines b @ rest) = Seg_Text (concat ctx) # segments_of (seg_lines b @ rest)"
  using line_segments_block [of "[]" b rest] by (simp add: segments_of_def line_segments_block text_lines_def)

text \<open>A marker line written with a good line ending is one piece.\<close>

lemma marker_line:
  assumes "LF \<notin> set label" "LF \<notin> set m" "eol_ok e"
  shows "split_inclusive (m @ label @ e @ t) = (m @ label @ e) # split_inclusive t"
  using split_inclusive_eol [of "m @ label" e t] assms by simp

lemma push_side_whole: "eol_ok e \<Longrightarrow> whole_lines (push_side e t)"
  by (auto simp: push_side_def whole_lines_def eol_ok_def ends_with_suffix suffix_def)

lemma split_push_side:
  "eol_ok e \<Longrightarrow> split_inclusive (push_side e x @ t) = split_inclusive (push_side e x) @ split_inclusive t"
  by (rule split_inclusive_append) (rule push_side_whole)


lemma eol_chars: "eol_ok e \<Longrightarrow> set e \<subseteq> {LF, CR}"
  by (auto simp: eol_ok_def)

lemma split_unterminated:
  "\<not> whole_lines t \<Longrightarrow> \<exists>y l. t = y @ l \<and> whole_lines y \<and> l \<noteq> [] \<and> LF \<notin> set l"
proof -
  assume t: "\<not> whole_lines t"
  then obtain xs l where p: "split_inclusive t = xs @ [l]"
    by (cases "split_inclusive t" rule: rev_cases) auto
  then have eq: "t = concat xs @ l"
    using concat_split_inclusive [of t] by simp
  have l: "l \<noteq> []" "LF \<notin> set (butlast l)"
    using p split_inclusive_nonempty [of l t] LF_in_split_inclusive [of l t] by auto
  have "whole_lines (concat xs)"
    using whole_pieces [OF p] by (intro whole_concat) simp
  moreover have "last l \<noteq> LF"
    using t eq l(1) by (auto simp: whole_lines_def)
  then have "LF \<notin> set l"
    using l by (metis append_butlast_last_id in_set_conv_decomp_last Un_iff set_append empty_iff empty_set set_ConsD)
  ultimately show ?thesis
    using eq l(1) by blast
qed

lemma free_of_append: "whole_lines a \<Longrightarrow> free_of ms (a @ b) \<longleftrightarrow> free_of ms a \<and> free_of ms b"
  by (auto simp: free_of_def split_inclusive_append)

lemma free_of_push_side:
  assumes "set ms \<subseteq> set markers" "eol_ok e" "free_of ms x"
  shows "free_of ms (push_side e x)"
proof (cases "x \<noteq> [] \<and> \<not> ends_with x e")
  case True
  have e: "split_inclusive e = [e]"
    using assms(2) split_inclusive_eol [of "[]" e "[]"] by simp
  have ending: "\<not> starts_with (l @ e) m" if "\<not> starts_with l m" "m \<in> set ms" for l m
    using that starts_with_ending [of m e l] eol_chars [OF assms(2)] assms(1) by auto
  show ?thesis
  proof (cases "whole_lines x")
    case w: True
    have "\<not> starts_with [] m" if "m \<in> set ms" for m
    proof -
      have "length m = 7"
        using that marker_chars [of m] assms(1) by blast
      then show ?thesis
        by (auto simp: starts_with_def)
    qed
    then have "free_of ms e"
      using ending [of "[]"] by (simp add: free_of_def e)
    then show ?thesis
      using True w assms(3) by (simp add: push_side_def free_of_append)
  next
    case False
    then obtain y l where l: "x = y @ l" "whole_lines y" "l \<noteq> []" "LF \<notin> set l"
      using split_unterminated by blast
    have "split_inclusive (l @ e) = [l @ e]" "split_inclusive l = [l]"
      using split_inclusive_eol [of l e "[]"] split_inclusive_no_LF [of l] l assms(2) by simp_all
    then have "free_of ms (l @ e)" if "free_of ms l"
      using that ending by (auto simp: free_of_def)
    then show ?thesis
      using True l assms(3) by (simp add: push_side_def free_of_append)
  qed
qed (use assms(3) in \<open>auto simp: push_side_def\<close>)


text \<open>What a rendered block needs to be read back: plain line endings, sides without the markers the
  parser looks for in them, labels on one line.\<close>

definition labels_ok :: "conflict_marker_labels \<Rightarrow> bool" where
  "labels_ok labels \<longleftrightarrow> LF \<notin> set (ml_local labels) \<and> LF \<notin> set (ml_remote labels) \<and> LF \<notin> set (ml_base labels)"

definition block_renderable :: "conflict_output_block \<Rightarrow> bool" where
  "block_renderable b \<longleftrightarrow> \<not> ob_resolved b \<and> eol_ok (detect_conflict_block_line_ending b) \<and>
     free_of [separator_marker, base_marker] (ob_ours b) \<and>
     (case ob_base b of None \<Rightarrow> True | Some base \<Rightarrow> free_of [separator_marker] base) \<and>
     free_of [closing_marker] (ob_theirs b)"

fun segments_renderable :: "conflict_output_segment list \<Rightarrow> bool" where
  "segments_renderable [] = True"
| "segments_renderable (Out_Text t # ss) =
     (t \<noteq> [] \<and> free_of [opening_marker] t \<and>
      (case ss of [] \<Rightarrow> True | Out_Text u # _ \<Rightarrow> False | Out_Block b # _ \<Rightarrow> whole_lines t) \<and>
      segments_renderable ss)"
| "segments_renderable (Out_Block b # ss) = (block_renderable b \<and> segments_renderable ss)"

fun parsed_of :: "conflict_output_segment \<Rightarrow> parsed_conflict_segment" where
  "parsed_of (Out_Text t) = Seg_Text t"
| "parsed_of (Out_Block b) =
     (let e = detect_conflict_block_line_ending b
      in Seg_Conflict \<lparr>pb_base = map_option (push_side e) (ob_base b), pb_ours = push_side e (ob_ours b),
           pb_theirs = push_side e (ob_theirs b)\<rparr>)"

lemma marker_prefix:
  "is_open (str ''<<<<<<< '' @ x)" "is_base (str ''||||||| '' @ x)" "is_separator (str ''======='' @ x)"
  "is_close (str ''>>>>>>> '' @ x)"
  by (simp_all add: marker_defs starts_with_def)

lemma no_LF_markers:
  "LF \<notin> set (str ''<<<<<<< '')" "LF \<notin> set (str ''||||||| '')" "LF \<notin> set (str ''======='')" "LF \<notin> set (str ''>>>>>>> '')"
  by (simp_all add: str_def)

text \<open>The lines of a rendered block are a block of the marker grammar.\<close>

definition rendered_lines :: "conflict_output_block \<Rightarrow> conflict_marker_labels \<Rightarrow> line_segment" where
  "rendered_lines b labels =
     (let e = detect_conflict_block_line_ending b
      in Line_Block (str ''<<<<<<< '' @ ml_local labels @ e) (split_inclusive (push_side e (ob_ours b)))
           (map_option (\<lambda>base. (str ''||||||| '' @ ml_base labels @ e, split_inclusive (push_side e base))) (ob_base b))
           (str ''======='' @ e) (split_inclusive (push_side e (ob_theirs b))) (str ''>>>>>>> '' @ ml_remote labels @ e))"

lemma plain_rendered: "plain (rendered_lines b labels) = parsed_of (Out_Block b)"
  by (simp add: rendered_lines_def Let_def option.map_comp o_def)

lemma rendered_split:
  assumes "block_renderable b" "labels_ok labels"
  shows "split_inclusive (render_unresolved_marker_block b labels @ rest) =
    seg_lines (rendered_lines b labels) @ split_inclusive rest"
proof -
  let ?e = "detect_conflict_block_line_ending b"
  have "split_inclusive (str ''======='' @ ?e @ t) = (str ''======='' @ ?e) # split_inclusive t" for t
    using marker_line [of "[]" "str ''=======''" ?e t] assms(1) no_LF_markers by (simp add: block_renderable_def)
  then show ?thesis
    using assms
    by (cases "ob_base b")
      (simp_all add: render_unresolved_marker_block_def Let_def rendered_lines_def block_renderable_def labels_ok_def
        marker_line no_LF_markers split_push_side)
qed

lemma rendered_wf:
  assumes "block_renderable b"
  shows "block_wf (rendered_lines b labels)"
proof -
  let ?e = "detect_conflict_block_line_ending b"
  have e: "eol_ok ?e"
    using assms by (simp add: block_renderable_def)
  have "free_of [separator_marker, base_marker] (push_side ?e (ob_ours b))"
    "free_of [closing_marker] (push_side ?e (ob_theirs b))"
    "\<And>base. ob_base b = Some base \<Longrightarrow> free_of [separator_marker] (push_side ?e base)"
    using assms free_of_push_side [OF _ e] by (auto simp: block_renderable_def)
  then show ?thesis
    by (auto simp: rendered_lines_def Let_def marker_prefix free_of_def split: option.splits)
qed

lemma rendered_block_parses:
  assumes "block_renderable b" "labels_ok labels"
  shows "segments_of (split_inclusive (render_unresolved_marker_block b labels @ rest)) =
    parsed_of (Out_Block b) # segments_of (split_inclusive rest)"
  unfolding rendered_split [OF assms] segments_of_block [OF rendered_wf [OF assms(1)]]
  by (simp only: plain_rendered)

lemma text_then_block:
  assumes "t \<noteq> []" "free_of [opening_marker] t" "whole_lines t"
    and "split_inclusive u = seg_lines b @ rest" "block_wf b"
  shows "segments_of (split_inclusive (t @ u)) = Seg_Text t # segments_of (split_inclusive u)"
  using segments_of_context [of "split_inclusive t" b rest] assms
  by (simp add: split_inclusive_append free_of_def)

section \<open>Properties\<close>


definition example_labels :: conflict_marker_labels where
  "example_labels = \<lparr>ml_local = str ''ours'', ml_remote = str ''theirs'', ml_base = str ''base''\<rparr>"

definition example_segments :: "conflict_output_segment list" where
  "example_segments =
     [Out_Text (str ''a'' @ [LF]),
      Out_Block \<lparr>ob_base = Some (str ''b'' @ [LF]), ob_ours = str ''c'', ob_theirs = [],
        ob_choice = choice_both, ob_resolved = False\<rparr>,
      Out_Text (str ''d'')]"


text \<open>The block as the resolver's segments are built from parsed ones, with one choice for all.\<close>

fun output_segment :: "conflict_output_choice \<Rightarrow> parsed_conflict_segment \<Rightarrow> conflict_output_segment" where
  "output_segment ch (Seg_Text t) = Out_Text t"
| "output_segment ch (Seg_Conflict b) =
     Out_Block \<lparr>ob_base = pb_base b, ob_ours = pb_ours b, ob_theirs = pb_theirs b, ob_choice = ch, ob_resolved = False\<rparr>"

text \<open>Resolving every conflict of a marked text to one side gives the text of that side: the text
  generated with the choice ours everywhere is the side of ours that the parser reconstructs, and the
  same holds for theirs.\<close>

theorem choosing_a_side_everywhere:
  "generate_resolved_text (map (output_segment (choice_from_source_const Src_Ours)) (parse_conflict_marker_segments t))
      default_resolved_options = fst (reconstruct_conflict_marker_sides t) \<and>
   generate_resolved_text (map (output_segment (choice_from_source_const Src_Theirs)) (parse_conflict_marker_segments t))
      default_resolved_options = snd (reconstruct_conflict_marker_sides t)"
proof -
  have one: "choice_iter (choice_from_source_const s) = [s]" for s
    by (simp add: choice_iter_def choice_from_source_const_def)
  have "segment_output default_resolved_options (output_segment (choice_from_source_const Src_Ours) s) = ours_of s"
    "segment_output default_resolved_options (output_segment (choice_from_source_const Src_Theirs) s) = theirs_of s" for s
    by (cases s; simp add: segment_output_def append_chosen default_resolved_options_def one)+
  then show ?thesis
    by (simp_all add: generate_concat sides_of_segments side_text_def o_def)
qed

section \<open>Two defects of the rendering\<close>

definition crlf_block :: conflict_output_block where
  "crlf_block = \<lparr>ob_base = None, ob_ours = str ''a'' @ [CR, LF] @ str ''b'' @ [LF], ob_theirs = [],
     ob_choice = choice_both, ob_resolved = False\<rparr>"

text \<open>A side that mixes endings and stops at a bare line feed gets one more, blank line.\<close>

lemma mixed_endings_grow_the_block:
  "parse_conflict_marker_segments (render_unresolved_marker_block crlf_block example_labels) =
    [Seg_Conflict \<lparr>pb_base = None, pb_ours = ob_ours crlf_block @ [CR, LF], pb_theirs = []\<rparr>]"
  by code_simp

definition stray_cr_block :: conflict_output_block where
  "stray_cr_block = \<lparr>ob_base = None, ob_ours = str ''a'' @ [CR] @ str ''b'' @ [LF], ob_theirs = str ''c'' @ [LF],
     ob_choice = choice_both, ob_resolved = False\<rparr>"

text \<open>A single carriage return inside a side makes it the line ending of the markers, which then share
  their lines with the content: the parser no longer sees a conflict.\<close>

lemma stray_carriage_return_hides_the_conflict:
  "\<not> text_has_conflict_markers (render_unresolved_marker_block stray_cr_block example_labels)"
  unfolding has_markers_scan by code_simp

end
