(* ===== verification/Session.thy ===== *)
theory Session
  imports Payload Autosolve History Region_Edit Output
begin

text \<open>
  The conflict session (\<open>conflict_session.rs\<close>): the state of one conflicted file while it is resolved.
  It keeps the three payloads, the merge plan built from them, the conflict regions parsed from the
  rendering of that plan, and which plan block each region shows. A failed \<open>expect\<close> of the planner or
  a slice index out of range is the value \<open>Panic\<close>.
\<close>

section \<open>Regions\<close>

datatype file_conflict_kind = BothDeleted | AddedByUs | DeletedByThem | AddedByThem | DeletedByUs
  | BothAdded | BothModified

datatype conflict_region_resolution = Unresolved | PickBase | PickOurs | PickTheirs | PickBoth
  | Sources ordered_selection | ManualEdit utext
  | AutoResolved autosolve_rule autosolve_confidence utext

fun resolution_is_resolved :: "conflict_region_resolution \<Rightarrow> bool" where
  "resolution_is_resolved Unresolved = False"
| "resolution_is_resolved (Sources sel) = (\<not> selection_is_empty sel)"
| "resolution_is_resolved r = True"

record conflict_region =
  cr_base :: "conflict_region_text option"
  cr_ours :: conflict_region_text
  cr_theirs :: conflict_region_text
  cr_resolution :: conflict_region_resolution

abbreviation region_resolved :: "conflict_region \<Rightarrow> bool" where
  "region_resolved r \<equiv> resolution_is_resolved (cr_resolution r)"

definition resolved_text :: "conflict_region \<Rightarrow> utext option" where
  "resolved_text r =
     (case cr_resolution r of
        Unresolved \<Rightarrow> None
      | PickBase \<Rightarrow> (case cr_base r of Some b \<Rightarrow> Some (as_str b) | None \<Rightarrow> Some [])
      | PickOurs \<Rightarrow> Some (as_str (cr_ours r))
      | PickTheirs \<Rightarrow> Some (as_str (cr_theirs r))
      | PickBoth \<Rightarrow> None
      | Sources sel \<Rightarrow>
          (case sources sel of
             [s] \<Rightarrow>
               (case s of
                  A \<Rightarrow> (case cr_base r of Some b \<Rightarrow> Some (as_str b) | None \<Rightarrow> Some (as_str (cr_ours r)))
                | B \<Rightarrow> if cr_base r \<noteq> None then Some (as_str (cr_ours r)) else Some (as_str (cr_theirs r))
                | C \<Rightarrow> Some (as_str (cr_theirs r)))
           | _ \<Rightarrow> None)
      | ManualEdit t \<Rightarrow> Some t
      | AutoResolved rule confidence content \<Rightarrow> Some content)"

definition resolved_text_both :: "conflict_region \<Rightarrow> utext" where
  "resolved_text_both r = as_str (cr_ours r) @ as_str (cr_theirs r)"

text \<open>\<open>parse_conflict_regions_from_shared_text\<close> (\<open>marker_parse.rs\<close>): every conflict block, as slices of the text.\<close>

fun region_of_segment :: "utext \<Rightarrow> parsed_conflict_segment_ranges \<Rightarrow> conflict_region option" where
  "region_of_segment t (Rng_Text r) = None"
| "region_of_segment t (Rng_Conflict b) =
     Some \<lparr>cr_base = map_option (Shared_Slice t) (pr_base b), cr_ours = Shared_Slice t (pr_ours b),
       cr_theirs = Shared_Slice t (pr_theirs b), cr_resolution = Unresolved\<rparr>"

definition parse_conflict_regions_from_shared_text :: "utext \<Rightarrow> conflict_region list" where
  "parse_conflict_regions_from_shared_text t = filter_map (region_of_segment t) (parse_conflict_marker_ranges t)"

section \<open>Strategies\<close>

datatype conflict_resolver_strategy = FullTextResolver | TwoWayKeepDelete | DecisionOnly | BinarySidePick

definition for_conflict :: "file_conflict_kind \<Rightarrow> bool \<Rightarrow> conflict_resolver_strategy" where
  "for_conflict kind is_binary =
     (case kind of
        BothDeleted \<Rightarrow> DecisionOnly
      | _ \<Rightarrow>
          if is_binary then BinarySidePick
          else (case kind of
                  BothModified \<Rightarrow> FullTextResolver | BothAdded \<Rightarrow> FullTextResolver | _ \<Rightarrow> TwoWayKeepDelete))"

fun strategy_label :: "conflict_resolver_strategy \<Rightarrow> utext" where
  "strategy_label FullTextResolver = str ''Text Merge''"
| "strategy_label TwoWayKeepDelete = str ''Keep / Delete''"
| "strategy_label BinarySidePick = str ''Side Pick (Binary)''"
| "strategy_label DecisionOnly = str ''Decision''"

section \<open>The session\<close>

datatype merge_plan_fallback_reason = BudgetExceeded

record conflict_session =
  cs_path :: utext
  cs_conflict_kind :: file_conflict_kind
  cs_strategy :: conflict_resolver_strategy
  cs_base :: conflict_payload
  cs_ours :: conflict_payload
  cs_theirs :: conflict_payload
  cs_current :: "conflict_payload option"
  cs_marker_projection :: "utext option"
  cs_regions :: "conflict_region list"
  cs_region_source_ranges :: "conflict_region_source_ranges list"
  cs_merge_plan :: "merge_plan option"
  cs_merge_plan_fallback :: "merge_plan_fallback_reason option"
  cs_region_plan_blocks :: "nat list"
  cs_has_pending_structural_edits :: bool
  cs_manual_alignments :: manual_alignment_list

definition has_implicit_binary_conflict :: "conflict_session \<Rightarrow> bool" where
  "has_implicit_binary_conflict s \<longleftrightarrow> cs_strategy s = BinarySidePick \<and> cs_regions s = []"

fun payload_as_side_text :: "conflict_payload \<Rightarrow> conflict_region_text option" where
  "payload_as_side_text (Payload_Text t) = Some (region_text_shared t)"
| "payload_as_side_text Payload_Absent = Some (Owned [])"
| "payload_as_side_text (Payload_Binary bs) = None"

fun payload_as_base_text :: "conflict_payload \<Rightarrow> conflict_region_text option option" where
  "payload_as_base_text (Payload_Text t) = Some (Some (region_text_shared t))"
| "payload_as_base_text Payload_Absent = Some None"
| "payload_as_base_text (Payload_Binary bs) = None"

definition synthetic_region_for_strategy ::
  "conflict_resolver_strategy \<Rightarrow> conflict_payload \<Rightarrow> conflict_payload \<Rightarrow> conflict_payload \<Rightarrow>
    conflict_region option" where
  "synthetic_region_for_strategy strategy base ours theirs =
     (if strategy = TwoWayKeepDelete \<or> strategy = DecisionOnly then
        (case payload_as_base_text base of None \<Rightarrow> None
         | Some b \<Rightarrow>
             (case payload_as_side_text ours of None \<Rightarrow> None
              | Some ot \<Rightarrow>
                  (case payload_as_side_text theirs of None \<Rightarrow> None
                   | Some tt \<Rightarrow> Some \<lparr>cr_base = b, cr_ours = ot, cr_theirs = tt, cr_resolution = Unresolved\<rparr>)))
      else None)"

definition new_with_optional_current ::
  "utext \<Rightarrow> file_conflict_kind \<Rightarrow> conflict_payload \<Rightarrow> conflict_payload \<Rightarrow> conflict_payload \<Rightarrow>
    conflict_payload option \<Rightarrow> conflict_session" where
  "new_with_optional_current path kind base ours theirs current =
     (let is_binary = (payload_is_binary base \<or> payload_is_binary ours \<or> payload_is_binary theirs);
          strategy = for_conflict kind is_binary;
          regions = (case synthetic_region_for_strategy strategy base ours theirs of
                       Some r \<Rightarrow> [r] | None \<Rightarrow> [])
      in \<lparr>cs_path = path, cs_conflict_kind = kind, cs_strategy = strategy, cs_base = base, cs_ours = ours,
          cs_theirs = theirs, cs_current = current, cs_marker_projection = None, cs_regions = regions,
          cs_region_source_ranges = [], cs_merge_plan = None, cs_merge_plan_fallback = None,
          cs_region_plan_blocks = [], cs_has_pending_structural_edits = False,
          cs_manual_alignments = alignments_new\<rparr>)"

definition session_new ::
  "utext \<Rightarrow> file_conflict_kind \<Rightarrow> conflict_payload \<Rightarrow> conflict_payload \<Rightarrow> conflict_payload \<Rightarrow> conflict_session" where
  "session_new path kind base ours theirs = new_with_optional_current path kind base ours theirs None"

definition session_new_with_current ::
  "utext \<Rightarrow> file_conflict_kind \<Rightarrow> conflict_payload \<Rightarrow> conflict_payload \<Rightarrow> conflict_payload \<Rightarrow>
    conflict_payload \<Rightarrow> conflict_session" where
  "session_new_with_current path kind base ours theirs current =
     new_with_optional_current path kind base ours theirs (Some current)"

definition coarse_marker_projection :: "utext option \<Rightarrow> utext \<Rightarrow> utext \<Rightarrow> merge_options \<Rightarrow> utext" where
  "coarse_marker_projection base ours theirs options =
     (let label = (\<lambda>l default. case l of Some t \<Rightarrow> t | None \<Rightarrow> default);
          labels = \<lparr>ml_local = label (lb_ours (mo_labels options)) (str ''ours''),
                    ml_remote = label (lb_theirs (mo_labels options)) (str ''theirs''),
                    ml_base = label (lb_base (mo_labels options)) (str ''base'')\<rparr>
      in render_unresolved_marker_block
           \<lparr>ob_base = base, ob_ours = ours, ob_theirs = theirs, ob_choice = choice_empty, ob_resolved = False\<rparr>
           labels)"

text \<open>Parsing regions from a text; the result of the code is the number of regions.\<close>

definition parse_regions_from_shared_text :: "conflict_session \<Rightarrow> utext \<Rightarrow> conflict_session \<times> nat" where
  "parse_regions_from_shared_text s merged_text =
     (let s1 = s\<lparr>cs_region_source_ranges := marker_region_source_ranges merged_text,
                 cs_regions := parse_conflict_regions_from_shared_text merged_text\<rparr>;
          s2 = (if cs_merge_plan s1 = None then s1\<lparr>cs_region_plan_blocks := []\<rparr> else s1);
          s3 = (case synthetic_region_for_strategy (cs_strategy s2) (cs_base s2) (cs_ours s2) (cs_theirs s2) of
                  Some r \<Rightarrow> if cs_regions s2 = [] then s2\<lparr>cs_regions := [r]\<rparr> else s2
                | None \<Rightarrow> s2)
      in (s3, length (cs_regions s3)))"

definition from_merged_shared_text ::
  "utext \<Rightarrow> file_conflict_kind \<Rightarrow> conflict_payload \<Rightarrow> conflict_payload \<Rightarrow> conflict_payload \<Rightarrow> utext \<Rightarrow>
    conflict_session" where
  "from_merged_shared_text path kind base ours theirs merged_text =
     (let s = session_new_with_current path kind base ours theirs (Payload_Text merged_text)
      in fst (parse_regions_from_shared_text (s\<lparr>cs_marker_projection := Some merged_text\<rparr>) merged_text))"

section \<open>Building and rebuilding the plan\<close>

definition marker_options :: "merge_plan \<Rightarrow> merge_options \<Rightarrow> merge_options" where
  "marker_options p options = options\<lparr>mo_style := (if has_base p then Style_Diff3 else Style_Merge)\<rparr>"

definition plan_source_ranges :: "merge_plan \<Rightarrow> conflict_region_source_ranges list" where
  "plan_source_ranges p =
     filter_map
       (\<lambda>i. map_option
          (\<lambda>b. \<lparr>sr_base = block_ancestor_ranges p ! i, sr_ours = block_source_line_range p b (local_source p),
                sr_theirs = block_source_line_range p b (remote_source p)\<rparr>)
          (nth_opt (mp_blocks p) i))
       (mp_unresolved_blocks p)"

definition marker_fallback_text :: "conflict_session \<Rightarrow> utext option \<Rightarrow> utext \<Rightarrow> utext \<Rightarrow> merge_options \<Rightarrow> utext" where
  "marker_fallback_text s base ours theirs options =
     (case Option.bind (cs_current s) payload_as_text of
        Some current \<Rightarrow>
          if \<exists>seg\<in>set (parse_conflict_marker_ranges current). is_conflict_range seg then current
          else coarse_marker_projection base ours theirs options
      | None \<Rightarrow> coarse_marker_projection base ours theirs options)"

text \<open>The part of \<open>rebuild_merge_plan\<close> after the stages are known to be texts.\<close>

definition install_plan ::
  "conflict_session \<Rightarrow> utext option \<Rightarrow> utext \<Rightarrow> utext \<Rightarrow> merge_options \<Rightarrow> merge_plan option \<Rightarrow> conflict_session" where
  "install_plan s base ours theirs options plan =
     (let s0 = s\<lparr>cs_merge_plan := None, cs_merge_plan_fallback := None, cs_region_plan_blocks := [],
                 cs_region_source_ranges := []\<rparr>;
          marker_text = (case plan of
              Some p \<Rightarrow> mr_output (render_merge_plan p (marker_options p options))
            | None \<Rightarrow> marker_fallback_text s0 base ours theirs options);
          s1 = (if plan = None then s0\<lparr>cs_merge_plan_fallback := Some BudgetExceeded\<rparr> else s0);
          s2 = fst (parse_regions_from_shared_text (s1\<lparr>cs_marker_projection := Some marker_text\<rparr>) marker_text)
      in (case plan of
            Some p \<Rightarrow> s2\<lparr>cs_region_plan_blocks := mp_unresolved_blocks p,
                         cs_region_source_ranges := plan_source_ranges p, cs_merge_plan := Some p\<rparr>
          | None \<Rightarrow> s2))"

definition rebuild_merge_plan :: "conflict_session \<Rightarrow> merge_options \<Rightarrow> conflict_session run" where
  "rebuild_merge_plan s options =
     (if cs_strategy s \<noteq> FullTextResolver then Returns s
      else case cs_ours s of
        Payload_Text ours \<Rightarrow>
          (case cs_theirs s of
             Payload_Text theirs \<Rightarrow>
               (if payload_is_binary (cs_base s) then Returns s
                else
                  (let base = payload_as_text (cs_base s)
                   in case try_build_interactive_merge_plan_with_alignments base ours theirs options default_budget
                             (cs_manual_alignments s) of
                        None \<Rightarrow> Returns (install_plan s base ours theirs options None)
                      | Some None \<Rightarrow> Panic
                      | Some (Some p) \<Rightarrow> Returns (install_plan s base ours theirs options (Some p))))
           | _ \<Rightarrow> Returns s)
      | _ \<Rightarrow> Returns s)"

definition from_stage_merge_plan_with_current ::
  "utext \<Rightarrow> file_conflict_kind \<Rightarrow> conflict_payload \<Rightarrow> conflict_payload \<Rightarrow> conflict_payload \<Rightarrow>
    conflict_payload option \<Rightarrow> merge_options \<Rightarrow> conflict_session run" where
  "from_stage_merge_plan_with_current path kind base ours theirs current options =
     rebuild_merge_plan (new_with_optional_current path kind base ours theirs current) options"

definition from_stage_merge_plan ::
  "utext \<Rightarrow> file_conflict_kind \<Rightarrow> conflict_payload \<Rightarrow> conflict_payload \<Rightarrow> conflict_payload \<Rightarrow> merge_options \<Rightarrow>
    conflict_session run" where
  "from_stage_merge_plan path kind base ours theirs options =
     from_stage_merge_plan_with_current path kind base ours theirs None options"

definition from_stage_inputs ::
  "utext \<Rightarrow> file_conflict_kind \<Rightarrow> conflict_payload \<Rightarrow> conflict_payload \<Rightarrow> conflict_payload \<Rightarrow>
    conflict_session run" where
  "from_stage_inputs path kind base ours theirs = from_stage_merge_plan path kind base ours theirs default_options"

definition from_stage_inputs_with_current ::
  "utext \<Rightarrow> file_conflict_kind \<Rightarrow> conflict_payload \<Rightarrow> conflict_payload \<Rightarrow> conflict_payload \<Rightarrow>
    conflict_payload option \<Rightarrow> conflict_session run" where
  "from_stage_inputs_with_current path kind base ours theirs current =
     from_stage_merge_plan_with_current path kind base ours theirs current default_options"

section \<open>Selections\<close>

definition session_has_base :: "conflict_session \<Rightarrow> bool" where
  "session_has_base s \<longleftrightarrow> (case cs_merge_plan s of None \<Rightarrow> True | Some p \<Rightarrow> has_base p)"

definition ordered_selection_for_resolution ::
  "conflict_session \<Rightarrow> conflict_region_resolution \<Rightarrow> ordered_selection option" where
  "ordered_selection_for_resolution s resolution =
     (case resolution of
        Unresolved \<Rightarrow> Some selection_new
      | PickBase \<Rightarrow> if session_has_base s then Some (selection_from_source A) else None
      | PickOurs \<Rightarrow> Some (selection_from_source (if session_has_base s then B else A))
      | PickTheirs \<Rightarrow> Some (selection_from_source (if session_has_base s then C else B))
      | PickBoth \<Rightarrow> Some (selection_from_sources (if session_has_base s then [B, C] else [A, B]))
      | Sources sel \<Rightarrow> Some sel
      | ManualEdit t \<Rightarrow> None
      | AutoResolved rule confidence content \<Rightarrow> None)"

definition resolution_for_selection :: "ordered_selection \<Rightarrow> conflict_region_resolution" where
  "resolution_for_selection sel = (if selection_is_empty sel then Unresolved else Sources sel)"

definition set_region_resolution :: "conflict_session \<Rightarrow> nat \<Rightarrow> conflict_region_resolution \<Rightarrow> conflict_session" where
  "set_region_resolution s i resolution =
     s\<lparr>cs_regions := (cs_regions s)[i := (cs_regions s ! i)\<lparr>cr_resolution := resolution\<rparr>]\<rparr>"

text \<open>Whether a selection names a source the plan does not have.\<close>

definition selection_foreign :: "merge_plan option \<Rightarrow> ordered_selection \<Rightarrow> bool" where
  "selection_foreign plan sel \<longleftrightarrow>
     list_ex (\<lambda>s. case plan of Some p \<Rightarrow> source_text p s = None | None \<Rightarrow> False) (sources sel)"

definition replace_region_selection :: "conflict_session \<Rightarrow> nat \<Rightarrow> ordered_selection \<Rightarrow> conflict_session \<times> bool" where
  "replace_region_selection s region_index sel =
     (case nth_opt (cs_regions s) region_index of
        None \<Rightarrow> (s, False)
      | Some region \<Rightarrow>
          if selection_foreign (cs_merge_plan s) sel then (s, False)
          else if cr_resolution region = resolution_for_selection sel then (s, False)
          else
            (let s1 = set_region_resolution s region_index (resolution_for_selection sel)
             in case (nth_opt (cs_region_plan_blocks s1) region_index, cs_merge_plan s1) of
                  (Some block_index, Some p) \<Rightarrow>
                    (s1\<lparr>cs_merge_plan := Some (fst (plan_replace_selection p block_index sel))\<rparr>, True)
                | _ \<Rightarrow> (s1, True)))"

definition toggle_region_source :: "conflict_session \<Rightarrow> nat \<Rightarrow> merge_source \<Rightarrow> conflict_session \<times> bool" where
  "toggle_region_source s region_index source =
     (case nth_opt (cs_regions s) region_index of
        None \<Rightarrow> (s, False)
      | Some region \<Rightarrow>
          (let sel = (case ordered_selection_for_resolution s (cr_resolution region) of
                        Some sel \<Rightarrow> sel | None \<Rightarrow> selection_new)
           in replace_region_selection s region_index (selection_toggle sel source)))"

definition sync_region_from_plan_block :: "conflict_session \<Rightarrow> nat \<Rightarrow> conflict_session" where
  "sync_region_from_plan_block s block_index =
     (case position (\<lambda>candidate. candidate = block_index) (cs_region_plan_blocks s) of
        None \<Rightarrow> s
      | Some region_index \<Rightarrow>
          (case Option.bind (cs_merge_plan s) (\<lambda>p. nth_opt (mp_blocks p) block_index) of
             None \<Rightarrow> s
           | Some b \<Rightarrow>
               if region_index < length (cs_regions s)
               then set_region_resolution s region_index (resolution_for_selection (mb_selection b))
               else s))"

definition toggle_plan_block_source ::
  "conflict_session \<Rightarrow> merge_block_id \<Rightarrow> merge_source \<Rightarrow> conflict_session \<times> bool" where
  "toggle_plan_block_source s block_id source =
     (case cs_merge_plan s of
        None \<Rightarrow> (s, False)
      | Some p \<Rightarrow>
          if source_text p source = None then (s, False)
          else (case position (\<lambda>b. mb_id b = block_id) (mp_blocks p) of
                  None \<Rightarrow> (s, False)
                | Some block_index \<Rightarrow>
                    (case plan_toggle_source p block_index source of
                       (q, changed) \<Rightarrow>
                         (let s1 = s\<lparr>cs_merge_plan := Some q\<rparr>
                          in (if changed then sync_region_from_plan_block s1 block_index else s1, changed)))))"

definition replace_plan_block_selection ::
  "conflict_session \<Rightarrow> merge_block_id \<Rightarrow> ordered_selection \<Rightarrow> conflict_session \<times> bool" where
  "replace_plan_block_selection s block_id sel =
     (case cs_merge_plan s of
        None \<Rightarrow> (s, False)
      | Some p \<Rightarrow>
          if selection_foreign (Some p) sel then (s, False)
          else (case position (\<lambda>b. mb_id b = block_id) (mp_blocks p) of
                  None \<Rightarrow> (s, False)
                | Some block_index \<Rightarrow>
                    if mb_manual_content (mp_blocks p ! block_index) = None \<and>
                       mb_selection (mp_blocks p ! block_index) = sel then (s, False)
                    else
                      (case plan_replace_selection p block_index sel of
                         (q, changed) \<Rightarrow>
                           (let s1 = s\<lparr>cs_merge_plan := Some q\<rparr>
                            in (if changed then sync_region_from_plan_block s1 block_index else s1, changed)))))"

text \<open>The bulk choices: the chosen blocks are replaced one by one, then refreshed once, then synchronised.\<close>

definition replace_blocks :: "conflict_session \<Rightarrow> merge_plan \<Rightarrow> nat list \<Rightarrow> ordered_selection \<Rightarrow> conflict_session" where
  "replace_blocks s p is sel =
     (let q = refresh_unresolved_blocks (foldl (\<lambda>q i. fst (replace_selection_deferred q i sel)) p is)
      in foldl sync_region_from_plan_block (s\<lparr>cs_merge_plan := Some q\<rparr>) is)"

definition replace_all_delta_selections :: "conflict_session \<Rightarrow> ordered_selection \<Rightarrow> conflict_session \<times> nat" where
  "replace_all_delta_selections s sel =
     (case cs_merge_plan s of
        None \<Rightarrow> (s, 0)
      | Some p \<Rightarrow>
          if selection_foreign (Some p) sel then (s, 0)
          else
            (let changed_blocks = indices_where
                   (\<lambda>b. mb_is_delta b \<and> (mb_manual_content b \<noteq> None \<or> mb_selection b \<noteq> sel)) (mp_blocks p)
             in (replace_blocks s p changed_blocks sel, length changed_blocks)))"

definition replace_whitespace_conflict_selections ::
  "conflict_session \<Rightarrow> ordered_selection \<Rightarrow> conflict_session \<times> nat" where
  "replace_whitespace_conflict_selections s sel =
     (case cs_merge_plan s of
        None \<Rightarrow> (s, 0)
      | Some p \<Rightarrow>
          if selection_foreign (Some p) sel then (s, 0)
          else
            (let changed_blocks = indices_where
                   (\<lambda>b. mb_whitespace_conflict b \<and> \<not> block_is_resolved b \<and> mb_manual_content b = None) (mp_blocks p)
             in (replace_blocks s p changed_blocks sel, length changed_blocks)))"

definition unsolved_whitespace_conflict_count :: "conflict_session \<Rightarrow> nat" where
  "unsolved_whitespace_conflict_count s =
     (case cs_merge_plan s of
        None \<Rightarrow> 0
      | Some p \<Rightarrow> length (filter (\<lambda>b. mb_whitespace_conflict b \<and> \<not> block_is_resolved b) (mp_blocks p)))"

section \<open>From regions to the plan\<close>

text \<open>One region of \<open>sync_merge_plan_from_regions\<close>; the flag says whether a block was written.\<close>

definition sync_block ::
  "conflict_session \<Rightarrow> merge_plan \<times> bool \<Rightarrow> nat \<times> conflict_region_resolution \<Rightarrow> merge_plan \<times> bool" where
  "sync_block s pt br =
     (case (pt, br) of ((p, touched), (block_index, resolution)) \<Rightarrow>
        (let write_manual = (\<lambda>content.
               if map_option mb_manual_content (nth_opt (mp_blocks p) block_index) = Some (Some content)
               then (p, touched)
               else (case set_manual_content_deferred p block_index content of (q, wrote) \<Rightarrow> (q, touched \<or> wrote)))
         in case resolution of
              ManualEdit content \<Rightarrow> write_manual content
            | AutoResolved rule confidence content \<Rightarrow> write_manual content
            | _ \<Rightarrow>
                (case ordered_selection_for_resolution s resolution of
                   Some sel \<Rightarrow>
                     (case replace_selection_deferred p block_index sel of (q, wrote) \<Rightarrow> (q, touched \<or> wrote))
                 | None \<Rightarrow> (p, touched))))"

definition sync_merge_plan_from_regions :: "conflict_session \<Rightarrow> conflict_session" where
  "sync_merge_plan_from_regions s =
     (case cs_merge_plan s of
        None \<Rightarrow> s
      | Some p \<Rightarrow>
          (case foldl (sync_block s) (p, False)
                  (zip (cs_region_plan_blocks s) (map cr_resolution (cs_regions s))) of
             (q, touched) \<Rightarrow>
               s\<lparr>cs_merge_plan := Some (if touched then refresh_unresolved_blocks q else q)\<rparr>))"

section \<open>After a split or a join\<close>

text \<open>The line counts of one region, per source of the plan.\<close>

definition region_line_counts :: "bool \<Rightarrow> conflict_region \<Rightarrow> source_counts" where
  "region_line_counts three_way r =
     (let line_count = (\<lambda>t. if t = [] then 0 else length (lines t));
          ours = line_count (as_str (cr_ours r));
          theirs = line_count (as_str (cr_theirs r))
      in if three_way
         then (\<lambda>s. case s of A \<Rightarrow> (case cr_base r of None \<Rightarrow> 0 | Some b \<Rightarrow> line_count (as_str b))
                   | B \<Rightarrow> ours | C \<Rightarrow> theirs)
         else (\<lambda>s. case s of A \<Rightarrow> ours | B \<Rightarrow> theirs | C \<Rightarrow> 0))"

fun split_mapping :: "nat \<Rightarrow> nat \<Rightarrow> nat \<Rightarrow> nat \<Rightarrow> nat list \<Rightarrow> nat list" where
  "split_mapping region_index block_index parts k [] = []"
| "split_mapping region_index block_index parts k (previous_block # rest) =
     (if k = region_index then [block_index..<block_index + parts]
      else [if previous_block > block_index then sat_add previous_block (parts - 1) else previous_block])
     @ split_mapping region_index block_index parts (k + 1) rest"

definition reconcile_merge_plan_after_split ::
  "conflict_session \<Rightarrow> nat list \<Rightarrow> nat \<Rightarrow> nat \<Rightarrow> conflict_session \<times> bool" where
  "reconcile_merge_plan_after_split s previous_mapping region_index parts =
     (if parts < 2 \<or> usize_max < length previous_mapping + (parts - 1) \<or>
         length previous_mapping + (parts - 1) \<noteq> length (cs_regions s) then (s, False)
      else case nth_opt previous_mapping region_index of
        None \<Rightarrow> (s, False)
      | Some block_index \<Rightarrow>
          if length (cs_regions s) < region_index + parts then (s, False)
          else
            (let has_base = (case cs_merge_plan s of Some p \<Rightarrow> has_base p | None \<Rightarrow> False);
                 counts = map (region_line_counts has_base) (slice (cs_regions s) region_index (region_index + parts))
             in case cs_merge_plan s of
                  None \<Rightarrow> (s, False)
                | Some p \<Rightarrow>
                    (case split_block_by_source_line_counts p block_index counts of
                       None \<Rightarrow> (s, False)
                     | Some (q, inserted) \<Rightarrow>
                         (s\<lparr>cs_merge_plan := Some q,
                            cs_region_plan_blocks := split_mapping region_index block_index parts 0 previous_mapping\<rparr>,
                          True))))"

fun join_mapping :: "nat \<Rightarrow> nat \<Rightarrow> nat \<Rightarrow> nat \<Rightarrow> nat \<Rightarrow> nat list \<Rightarrow> nat list" where
  "join_mapping region_index first_block last_block removed k [] = []"
| "join_mapping region_index first_block last_block removed k (previous_block # rest) =
     (if k = region_index then [first_block]
      else if k = region_index + 1 then []
      else [if previous_block > last_block then previous_block - removed
            else if previous_block \<ge> first_block then first_block
            else previous_block])
     @ join_mapping region_index first_block last_block removed (k + 1) rest"

definition reconcile_merge_plan_after_join ::
  "conflict_session \<Rightarrow> nat list \<Rightarrow> nat \<Rightarrow> conflict_session \<times> bool" where
  "reconcile_merge_plan_after_join s previous_mapping region_index =
     (if length previous_mapping = 0 \<or> length previous_mapping - 1 \<noteq> length (cs_regions s) then (s, False)
      else case (nth_opt previous_mapping region_index, nth_opt previous_mapping (region_index + 1)) of
        (Some first_block, Some last_block) \<Rightarrow>
          (if first_block > last_block then (s, False)
           else (case cs_merge_plan s of
                   None \<Rightarrow> (s, False)
                 | Some p \<Rightarrow>
                     (case join_block_range p first_block last_block of
                        None \<Rightarrow> (s, False)
                      | Some (q, removed) \<Rightarrow>
                          (s\<lparr>cs_merge_plan := Some q,
                             cs_region_plan_blocks :=
                               join_mapping region_index first_block last_block removed 0 previous_mapping\<rparr>,
                           True))))
      | _ \<Rightarrow> (s, False))"

section \<open>Restoring decisions\<close>

definition fingerprint_of_block :: "merge_plan \<Rightarrow> nat \<Rightarrow> 64 word option" where
  "fingerprint_of_block p i = map_option block_fp (nth_opt (mp_blocks p) i)"

definition count_of :: "'a list \<Rightarrow> 'a \<Rightarrow> nat" where
  "count_of xs x = length (filter (\<lambda>y. y = x) xs)"

text \<open>\<open>restore_plan_decisions_from\<close>: the plan's own restoration first, then the regions, then the plan again.\<close>

definition previous_mapped :: "conflict_session \<Rightarrow> merge_plan \<Rightarrow> (64 word \<times> conflict_region_resolution) list" where
  "previous_mapped previous previous_plan =
     filter_map (\<lambda>(i, r). map_option (\<lambda>f. (f, cr_resolution r)) (fingerprint_of_block previous_plan i))
       (zip (cs_region_plan_blocks previous) (cs_regions previous))"

definition restored_resolution ::
  "(64 word \<times> conflict_region_resolution) list \<Rightarrow> 64 word list \<Rightarrow> 64 word \<Rightarrow> conflict_region_resolution" where
  "restored_resolution mapped current f =
     (if count_of current f = 1 \<and> count_of (map fst mapped) f = 1
      then (case find (\<lambda>m. fst m = f) mapped of Some m \<Rightarrow> snd m | None \<Rightarrow> Unresolved)
      else Unresolved)"

definition set_resolutions :: "conflict_region list \<Rightarrow> conflict_region_resolution list \<Rightarrow> conflict_region list" where
  "set_resolutions rs resolutions =
     map (\<lambda>(r, resolution). r\<lparr>cr_resolution := resolution\<rparr>) (zip rs resolutions) @ drop (length resolutions) rs"

definition restore_plan_decisions_from :: "conflict_session \<Rightarrow> conflict_session \<Rightarrow> conflict_session" where
  "restore_plan_decisions_from s previous =
     (case (cs_merge_plan previous, cs_merge_plan s) of
        (Some previous_plan, Some p0) \<Rightarrow>
          (let p = restore_decisions_from p0 previous_plan;
               s1 = s\<lparr>cs_merge_plan := Some p\<rparr>;
               mapped = previous_mapped previous previous_plan;
               current = filter_map (fingerprint_of_block p) (cs_region_plan_blocks s);
               same_sequence = (length mapped = length (cs_regions s) \<and> length current = length (cs_regions s) \<and>
                                map fst mapped = current);
               resolutions = (if same_sequence then map snd mapped else map (restored_resolution mapped current) current)
           in sync_merge_plan_from_regions (s1\<lparr>cs_regions := set_resolutions (cs_regions s) resolutions\<rparr>))
      | _ \<Rightarrow> s)"

section \<open>Manual alignments\<close>

definition plan_is_three_way :: "conflict_session \<Rightarrow> bool" where
  "plan_is_three_way s \<longleftrightarrow> payload_as_text (cs_base s) \<noteq> None"

definition replan_with_manual_alignments ::
  "conflict_session \<Rightarrow> manual_alignment_list \<Rightarrow> merge_options \<Rightarrow> conflict_session run" where
  "replan_with_manual_alignments s alignments options =
     bind_run (rebuild_merge_plan
         (s\<lparr>cs_manual_alignments := alignments, cs_has_pending_structural_edits := False\<rparr>) options)
       (\<lambda>s1. Returns (restore_plan_decisions_from s1 s))"

definition add_manual_alignment ::
  "conflict_session \<Rightarrow> manual_alignment \<Rightarrow> merge_options \<Rightarrow> (conflict_session \<times> bool) run" where
  "add_manual_alignment s entry options =
     (case alignments_insert (cs_manual_alignments s) entry of (alignments, inserted) \<Rightarrow>
        if \<not> inserted then Returns (s, False)
        else bind_run (replan_with_manual_alignments s alignments options) (\<lambda>s1. Returns (s1, True)))"

definition clear_manual_alignments :: "conflict_session \<Rightarrow> merge_options \<Rightarrow> (conflict_session \<times> bool) run" where
  "clear_manual_alignments s options =
     (if entries (cs_manual_alignments s) = [] then Returns (s, False)
      else bind_run (replan_with_manual_alignments s alignments_new options) (\<lambda>s1. Returns (s1, True)))"

definition remove_manual_alignment_at ::
  "conflict_session \<Rightarrow> merge_source \<Rightarrow> nat \<Rightarrow> merge_options \<Rightarrow> (conflict_session \<times> bool) run" where
  "remove_manual_alignment_at s source line options =
     (case alignments_remove_at (cs_manual_alignments s) source (plan_is_three_way s) line of (alignments, removed) \<Rightarrow>
        if \<not> removed then Returns (s, False)
        else bind_run (replan_with_manual_alignments s alignments options) (\<lambda>s1. Returns (s1, True)))"

section \<open>Counting and moving\<close>

definition total_regions :: "conflict_session \<Rightarrow> nat" where
  "total_regions s = (if has_implicit_binary_conflict s then 1 else length (cs_regions s))"

definition solved_count :: "conflict_session \<Rightarrow> nat" where
  "solved_count s =
     (if has_implicit_binary_conflict s then 0 else length (filter region_resolved (cs_regions s)))"

definition unsolved_count :: "conflict_session \<Rightarrow> nat" where
  "unsolved_count s = total_regions s - solved_count s"

definition is_fully_resolved :: "conflict_session \<Rightarrow> bool" where
  "is_fully_resolved s \<longleftrightarrow>
     \<not> has_implicit_binary_conflict s \<and>
     (case cs_merge_plan s of
        None \<Rightarrow> list_all region_resolved (cs_regions s)
      | Some p \<Rightarrow> unresolved_count p = 0)"

definition has_unresolved_markers :: "conflict_session \<Rightarrow> bool" where
  "has_unresolved_markers s \<longleftrightarrow>
     (case cs_merge_plan s of None \<Rightarrow> unsolved_count s > 0 | Some p \<Rightarrow> unresolved_count p > 0)"

text \<open>The first offset of a wrapping search whose region is unresolved.\<close>

definition next_unresolved_after :: "conflict_session \<Rightarrow> nat \<Rightarrow> nat option" where
  "next_unresolved_after s current =
     (let len = length (cs_regions s)
      in if len = 0 then None
         else find (\<lambda>idx. \<not> region_resolved (cs_regions s ! idx))
                (map (\<lambda>offset. (current + offset) mod len) [1..<len + 1]))"

definition prev_unresolved_before :: "conflict_session \<Rightarrow> nat \<Rightarrow> nat option" where
  "prev_unresolved_before s current =
     (let len = length (cs_regions s)
      in if len = 0 then None
         else find (\<lambda>idx. \<not> region_resolved (cs_regions s ! idx))
                (map (\<lambda>offset. (current + len - offset) mod len) [1..<len + 1]))"

section \<open>Auto-resolution\<close>

definition safe_auto_resolve :: "conflict_region \<Rightarrow> bool \<Rightarrow> (autosolve_rule \<times> utext) option" where
  "safe_auto_resolve r whitespace_normalize =
     map_option (\<lambda>(rule, pick). (rule, picked_text pick (as_str (cr_ours r)) (as_str (cr_theirs r))))
       (safe_auto_resolve_pick (map_option as_str (cr_base r)) (as_str (cr_ours r)) (as_str (cr_theirs r))
          whitespace_normalize)"

definition safe_auto_resolve_with_classification :: "conflict_region \<Rightarrow> bool \<Rightarrow> (autosolve_rule \<times> utext) option" where
  "safe_auto_resolve_with_classification r whitespace_conflict =
     map_option (\<lambda>(rule, pick). (rule, picked_text pick (as_str (cr_ours r)) (as_str (cr_theirs r))))
       (safe_auto_resolve_pick_with_classification (map_option as_str (cr_base r)) (as_str (cr_ours r))
          (as_str (cr_theirs r)) whitespace_conflict)"

text \<open>One pass over the regions: an unresolved region for which the rule gives a text is resolved by it.\<close>

definition auto_resolve_with ::
  "conflict_session \<Rightarrow> (nat \<Rightarrow> conflict_region \<Rightarrow> (autosolve_rule \<times> utext) option) \<Rightarrow> conflict_session \<times> nat" where
  "auto_resolve_with s rule =
     (let decide = (\<lambda>i. let r = cs_regions s ! i in if region_resolved r then None else rule i r);
          is = [0..<length (cs_regions s)]
      in (s\<lparr>cs_regions := map (\<lambda>i. case decide i of
                Some (rl, content) \<Rightarrow>
                  (cs_regions s ! i)\<lparr>cr_resolution := AutoResolved rl (rule_confidence rl) content\<rparr>
              | None \<Rightarrow> cs_regions s ! i) is\<rparr>,
          length (filter (\<lambda>i. decide i \<noteq> None) is)))"

definition auto_resolve_safe_with_options :: "conflict_session \<Rightarrow> bool \<Rightarrow> conflict_session \<times> nat" where
  "auto_resolve_safe_with_options s whitespace_normalize =
     auto_resolve_with s
       (\<lambda>i r. if whitespace_normalize
              then (case Option.bind (nth_opt (cs_region_plan_blocks s) i)
                      (\<lambda>b. Option.bind (cs_merge_plan s) (\<lambda>p. map_option mb_whitespace_conflict (nth_opt (mp_blocks p) b))) of
                      Some whitespace_conflict \<Rightarrow> safe_auto_resolve_with_classification r whitespace_conflict
                    | None \<Rightarrow> safe_auto_resolve r True)
              else safe_auto_resolve r False)"

definition auto_resolve_safe :: "conflict_session \<Rightarrow> conflict_session \<times> nat" where
  "auto_resolve_safe s = auto_resolve_safe_with_options s False"

definition auto_resolve_regex ::
  "(utext \<Rightarrow> 're option) \<Rightarrow> ('re \<Rightarrow> utext \<Rightarrow> utext \<Rightarrow> utext) \<Rightarrow> conflict_session \<Rightarrow> regex_autosolve_options \<Rightarrow>
    conflict_session \<times> nat" where
  "auto_resolve_regex compile replace_all s options =
     (case compile_regex_patterns compile options of
        None \<Rightarrow> (s, 0)
      | Some compiled \<Rightarrow>
          auto_resolve_with s
            (\<lambda>i r. map_option (\<lambda>(rule, pick). (rule, picked_text pick (as_str (cr_ours r)) (as_str (cr_theirs r))))
               (regex_assisted_auto_resolve_pick_with_compiled replace_all (map_option as_str (cr_base r))
                  (as_str (cr_ours r)) (as_str (cr_theirs r)) compiled)))"

definition auto_resolve_pass2 :: "conflict_session \<Rightarrow> conflict_session \<times> nat" where
  "auto_resolve_pass2 s =
     auto_resolve_with s
       (\<lambda>i r. case cr_base r of
           None \<Rightarrow> None
         | Some b \<Rightarrow> map_option (\<lambda>m. (SubchunkFullyMerged, m))
                      (merged_subchunks (as_str b) (as_str (cr_ours r)) (as_str (cr_theirs r))))"

definition history_placeholder :: utext where
  "history_placeholder = [31] @ str ''gitcomet-history-merge-block'' @ [31]"

definition history_merge_plan_region ::
  "(utext \<Rightarrow> 're option) \<Rightarrow> ('re \<Rightarrow> utext \<Rightarrow> bool) \<Rightarrow> conflict_session \<Rightarrow> nat \<Rightarrow> history_autosolve_options \<Rightarrow>
    utext option run" where
  "history_merge_plan_region compile is_match s region_index options =
     (case cs_merge_plan s of
        None \<Rightarrow> Returns None
      | Some p \<Rightarrow>
          if length (take 2 (filter mb_original_conflict (mp_blocks p))) \<noteq> 1 then Returns None
          else (case nth_opt (cs_region_plan_blocks s) region_index of
                  None \<Rightarrow> Returns None
                | Some block_index \<Rightarrow>
                    (let projection = fst (plan_set_manual_content p block_index history_placeholder);
                         projected = mr_output (render_merge_plan projection default_options)
                     in case find_sub history_placeholder projected of
                          None \<Rightarrow> Returns None
                        | Some marker \<Rightarrow>
                            (case nth_opt (cs_regions s) region_index of
                               None \<Rightarrow> Returns None
                             | Some r \<Rightarrow>
                                 history_merge_region_with_context compile is_match (take marker projected)
                                   (map_option as_str (cr_base r)) (as_str (cr_ours r)) (as_str (cr_theirs r)) options))))"

text \<open>The history pass region by region; the loop stops where a region panics.\<close>

definition history_resolution ::
  "(utext \<Rightarrow> 're option) \<Rightarrow> ('re \<Rightarrow> utext \<Rightarrow> bool) \<Rightarrow> conflict_session \<Rightarrow> nat \<Rightarrow> history_autosolve_options \<Rightarrow>
    utext option run" where
  "history_resolution compile is_match s i options =
     (let r = cs_regions s ! i
      in bind_run (history_merge_region compile is_match (map_option as_str (cr_base r)) (as_str (cr_ours r))
                     (as_str (cr_theirs r)) options)
           (\<lambda>local. case local of
               Some m \<Rightarrow> Returns (Some m)
             | None \<Rightarrow> history_merge_plan_region compile is_match s i options))"

fun history_pass ::
  "(utext \<Rightarrow> 're option) \<Rightarrow> ('re \<Rightarrow> utext \<Rightarrow> bool) \<Rightarrow> history_autosolve_options \<Rightarrow> conflict_session \<times> nat \<Rightarrow> nat list \<Rightarrow>
    (conflict_session \<times> nat) run" where
  "history_pass compile is_match options (s, n) [] = Returns (s, n)"
| "history_pass compile is_match options (s, n) (i # is) =
     (if region_resolved (cs_regions s ! i) then history_pass compile is_match options (s, n) is
      else bind_run (history_resolution compile is_match s i options)
             (\<lambda>merged. case merged of
                 None \<Rightarrow> history_pass compile is_match options (s, n) is
               | Some m \<Rightarrow>
                   history_pass compile is_match options
                     (set_region_resolution s i (AutoResolved HistoryMerged (rule_confidence HistoryMerged) m), n + 1)
                     is))"

definition auto_resolve_history ::
  "(utext \<Rightarrow> 're option) \<Rightarrow> ('re \<Rightarrow> utext \<Rightarrow> bool) \<Rightarrow> conflict_session \<Rightarrow> history_autosolve_options \<Rightarrow>
    (conflict_session \<times> nat) run" where
  "auto_resolve_history compile is_match s options =
     (if \<not> history_options_valid options then Returns (s, 0)
      else history_pass compile is_match options (s, 0) [0..<length (cs_regions s)])"

end
