(* ===== verification/Session_Facts.thy ===== *)
theory Session_Facts
  imports Session
begin

text \<open>
  What a conflict session keeps: the regions it shows and the blocks of its merge plan carry the same
  decisions. The invariant is stated per region; the operations that write a block leave that block
  out of it and the synchronisation that follows puts it back in.
\<close>

section \<open>Decisions\<close>

type_synonym decision = "ordered_selection \<times> utext option"

definition block_decision :: "merge_block \<Rightarrow> decision" where
  "block_decision b = (mb_selection b, mb_manual_content b)"

text \<open>What a resolution asks of a block; \<open>PickBase\<close> asks for nothing a plan without a base has.\<close>

fun region_decision :: "bool \<Rightarrow> conflict_region_resolution \<Rightarrow> decision option" where
  "region_decision three_way Unresolved = Some (selection_new, None)"
| "region_decision three_way PickBase = (if three_way then Some (selection_from_source A, None) else None)"
| "region_decision three_way PickOurs = Some (selection_from_source (if three_way then B else A), None)"
| "region_decision three_way PickTheirs = Some (selection_from_source (if three_way then C else B), None)"
| "region_decision three_way PickBoth = Some (selection_from_sources (if three_way then [B, C] else [A, B]), None)"
| "region_decision three_way (Sources sel) = Some (sel, None)"
| "region_decision three_way (ManualEdit t) = Some (selection_new, Some t)"
| "region_decision three_way (AutoResolved rule confidence t) = Some (selection_new, Some t)"

lemma selection_is_empty_iff: "selection_is_empty sel \<longleftrightarrow> sel = selection_new"
  by (cases sel) (simp add: selection_is_empty_def selection_new_def)

lemma region_decision_selection: "region_decision w (resolution_for_selection sel) = Some (sel, None)"
  by (simp add: resolution_for_selection_def selection_is_empty_iff)

definition decided :: "decision \<Rightarrow> bool" where
  "decided d \<longleftrightarrow> snd d \<noteq> None \<or> \<not> selection_is_empty (fst d)"

lemma decided_block: "decided (block_decision b) \<longleftrightarrow> block_is_resolved b"
  by (simp add: decided_def block_decision_def block_is_resolved_def)

lemma sources_from_pair: "a \<noteq> b \<Longrightarrow> sources (selection_from_sources [a, b]) = [a, b]"
  by (simp add: selection_from_sources_def selection_new_def selection_append_def selection_contains_def)

lemma decided_region: "region_decision w r = Some d \<Longrightarrow> decided d \<longleftrightarrow> resolution_is_resolved r"
  by (cases r) (auto simp: decided_def selection_is_empty_def selection_new_def selection_from_source_def
      sources_from_pair split: if_splits)

section \<open>The invariant\<close>

text \<open>A manual text stands alone: a block that has one selects nothing.\<close>

definition plan_wf :: "merge_plan \<Rightarrow> bool" where
  "plan_wf p \<longleftrightarrow> plan_ok p \<and> list_all (\<lambda>b. mb_manual_content b = None \<or> selection_is_empty (mb_selection b)) (mp_blocks p)"

definition mapping_ok :: "nat list \<Rightarrow> nat \<Rightarrow> nat \<Rightarrow> bool" where
  "mapping_ok mapping regions blocks \<longleftrightarrow>
     length mapping = regions \<and> sorted_wrt (<) mapping \<and> (\<forall>i\<in>set mapping. i < blocks)"

definition in_step_but :: "nat set \<Rightarrow> conflict_session \<Rightarrow> bool" where
  "in_step_but X s \<longleftrightarrow>
     (case cs_merge_plan s of
        None \<Rightarrow> True
      | Some p \<Rightarrow>
          plan_wf p \<and> mapping_ok (cs_region_plan_blocks s) (length (cs_regions s)) (length (mp_blocks p)) \<and>
          (\<forall>k<length (cs_regions s). cs_region_plan_blocks s ! k \<notin> X \<longrightarrow>
             region_decision (has_base p) (cr_resolution (cs_regions s ! k))
               = Some (block_decision (mp_blocks p ! (cs_region_plan_blocks s ! k)))))"

abbreviation in_step :: "conflict_session \<Rightarrow> bool" where
  "in_step \<equiv> in_step_but {}"

lemma in_step_plan:
  assumes "in_step_but X s" "cs_merge_plan s = Some p"
  shows "plan_wf p" "mapping_ok (cs_region_plan_blocks s) (length (cs_regions s)) (length (mp_blocks p))"
    "\<And>k. k < length (cs_regions s) \<Longrightarrow> cs_region_plan_blocks s ! k \<notin> X \<Longrightarrow>
      region_decision (has_base p) (cr_resolution (cs_regions s ! k))
        = Some (block_decision (mp_blocks p ! (cs_region_plan_blocks s ! k)))"
  using assms by (simp_all add: in_step_but_def)

lemma in_stepI:
  assumes "cs_merge_plan s = Some p" "plan_wf p"
    "mapping_ok (cs_region_plan_blocks s) (length (cs_regions s)) (length (mp_blocks p))"
    "\<And>k. k < length (cs_regions s) \<Longrightarrow> cs_region_plan_blocks s ! k \<notin> X \<Longrightarrow>
      region_decision (has_base p) (cr_resolution (cs_regions s ! k))
        = Some (block_decision (mp_blocks p ! (cs_region_plan_blocks s ! k)))"
  shows "in_step_but X s"
  using assms by (simp add: in_step_but_def)

lemma mapping_index:
  assumes "mapping_ok mapping n m" "k < n"
  shows "mapping ! k < m" "position (\<lambda>c. c = mapping ! k) mapping = Some k"
proof -
  have k: "k < length mapping" and d: "distinct mapping"
    using assms strict_sorted_iff [of mapping] by (auto simp: mapping_ok_def)
  then show "mapping ! k < m"
    using assms by (simp add: mapping_ok_def)
  show "position (\<lambda>c. c = mapping ! k) mapping = Some k"
  proof (cases "position (\<lambda>c. c = mapping ! k) mapping")
    case None
    then show ?thesis using k by (simp add: position_eq_None)
  next
    case (Some i)
    then show ?thesis using position_SomeD [OF Some] k d nth_eq_iff_index_eq by fastforce
  qed
qed

text \<open>A written plan: the blocks of some indices have another decision, nothing else is different.\<close>

definition writes :: "nat set \<Rightarrow> merge_plan \<Rightarrow> merge_plan \<Rightarrow> bool" where
  "writes X p q \<longleftrightarrow> plan_wf q \<and> has_base q = has_base p \<and> length (mp_blocks q) = length (mp_blocks p) \<and>
     (\<forall>i<length (mp_blocks p). i \<notin> X \<longrightarrow> block_decision (mp_blocks q ! i) = block_decision (mp_blocks p ! i))"

lemma in_step_write:
  assumes "in_step_but X s" "cs_merge_plan s = Some p" "writes Y p q"
  shows "in_step_but (X \<union> Y) (s\<lparr>cs_merge_plan := Some q\<rparr>)"
  by (rule in_stepI [of _ q])
    (use assms in_step_plan [OF assms(1,2)] mapping_index(1) in \<open>auto simp: writes_def\<close>)

text \<open>Synchronising a block that holds no manual text puts its region back in step.\<close>

lemma sync_keeps: "cs_merge_plan (sync_region_from_plan_block s i) = cs_merge_plan s"
  "cs_region_plan_blocks (sync_region_from_plan_block s i) = cs_region_plan_blocks s"
  "length (cs_regions (sync_region_from_plan_block s i)) = length (cs_regions s)"
  by (auto simp: sync_region_from_plan_block_def set_region_resolution_def split: option.splits)

lemma in_step_sync:
  assumes "in_step_but X s" "cs_merge_plan s = Some p" "i < length (mp_blocks p)" "mb_manual_content (mp_blocks p ! i) = None"
  shows "in_step_but (X - {i}) (sync_region_from_plan_block s i)"
proof (cases "position (\<lambda>c. c = i) (cs_region_plan_blocks s)")
  case None
  then have "i \<notin> set (cs_region_plan_blocks s)"
    by (simp add: position_eq_None)
  moreover note in_step_plan [OF assms(1,2)]
  ultimately show ?thesis
    using None assms(1,2) by (auto simp: sync_region_from_plan_block_def in_step_but_def mapping_ok_def)
next
  case (Some k)
  note p = in_step_plan [OF assms(1,2)]
  have k: "k < length (cs_regions s)" "cs_region_plan_blocks s ! k = i"
    using position_SomeD [OF Some] p(2) by (auto simp: mapping_ok_def)
  have sync: "sync_region_from_plan_block s i
      = set_region_resolution s k (resolution_for_selection (mb_selection (mp_blocks p ! i)))"
    using Some k assms(2,3) by (simp add: sync_region_from_plan_block_def nth_opt_def)
  show ?thesis
  proof (rule in_stepI)
    show "cs_merge_plan (sync_region_from_plan_block s i) = Some p"
      using assms(2) by (simp add: sync_keeps)
    show "mapping_ok (cs_region_plan_blocks (sync_region_from_plan_block s i))
        (length (cs_regions (sync_region_from_plan_block s i))) (length (mp_blocks p))"
      using p(2) by (simp add: sync_keeps)
    fix j
    assume j: "j < length (cs_regions (sync_region_from_plan_block s i))"
      "cs_region_plan_blocks (sync_region_from_plan_block s i) ! j \<notin> X - {i}"
    show "region_decision (has_base p) (cr_resolution (cs_regions (sync_region_from_plan_block s i) ! j))
        = Some (block_decision (mp_blocks p ! (cs_region_plan_blocks (sync_region_from_plan_block s i) ! j)))"
    proof (cases "j = k")
      case True
      then show ?thesis
        using k assms(4) by (simp add: sync set_region_resolution_def region_decision_selection block_decision_def)
    next
      case False
      have "j < length (cs_regions s)" using j(1) by (simp add: sync_keeps)
      moreover have "cs_region_plan_blocks s ! j \<noteq> i"
        using False mapping_index(2) [OF p(2)] k \<open>j < length (cs_regions s)\<close> by (metis option.inject)
      ultimately show ?thesis
        using p(3) [of j] j(2) False by (simp add: sync set_region_resolution_def)
    qed
  qed (rule p(1))
qed

lemma in_step_both:
  assumes "in_step s" "cs_merge_plan s = Some p" "k < length (cs_regions s)"
    and "writes {cs_region_plan_blocks s ! k} p q"
    and "region_decision (has_base p) res = Some (block_decision (mp_blocks q ! (cs_region_plan_blocks s ! k)))"
  shows "in_step ((set_region_resolution s k res)\<lparr>cs_merge_plan := Some q\<rparr>)"
proof (rule in_stepI)
  note p = in_step_plan [OF assms(1,2)]
  let ?s = "(set_region_resolution s k res)\<lparr>cs_merge_plan := Some q\<rparr>"
  show "mapping_ok (cs_region_plan_blocks ?s) (length (cs_regions ?s)) (length (mp_blocks q))"
    using p(2) assms(4) by (simp add: set_region_resolution_def writes_def)
  fix j
  assume j: "j < length (cs_regions ?s)"
  then have j: "j < length (cs_regions s)" by (simp add: set_region_resolution_def)
  show "region_decision (has_base q) (cr_resolution (cs_regions ?s ! j))
      = Some (block_decision (mp_blocks q ! (cs_region_plan_blocks ?s ! j)))"
  proof (cases "j = k")
    case True
    then show ?thesis
      using assms(3-5) by (simp add: set_region_resolution_def writes_def)
  next
    case False
    have "cs_region_plan_blocks s ! j \<noteq> cs_region_plan_blocks s ! k"
      using False mapping_index(2) [OF p(2) assms(3)] mapping_index(2) [OF p(2) j] by auto
    then show ?thesis
      using p(3) [OF j] mapping_index(1) [OF p(2) j] False assms(4)
      by (simp add: set_region_resolution_def writes_def)
  qed
qed (use assms(4) in \<open>simp_all add: writes_def\<close>)

section \<open>Plan operations as writes\<close>

lemma writes_refl: "plan_wf p \<Longrightarrow> writes X p p"
  by (simp add: writes_def)

lemma plan_wf_update:
  assumes "plan_wf p" "i < length (mp_blocks p)" "mb_rows (f (mp_blocks p ! i)) = mb_rows (mp_blocks p ! i)"
    and "block_ok p (f (mp_blocks p ! i))"
    and "mb_manual_content (f (mp_blocks p ! i)) = None \<or> selection_is_empty (mb_selection (f (mp_blocks p ! i)))"
  shows "writes {i} p (refresh_unresolved_blocks (upd_block p i f))"
  using assms plan_ok_update [of p i f]
  by (auto simp: writes_def plan_wf_def list_all_length has_base_def nth_list_update)

lemma replace_writes:
  assumes "plan_wf p" "selection_ok sel"
  shows "writes {i} p (fst (plan_replace_selection p i sel))"
    "snd (plan_replace_selection p i sel) \<Longrightarrow>
      block_decision (mp_blocks (fst (plan_replace_selection p i sel)) ! i) = (sel, None) \<and> i < length (mp_blocks p)"
proof -
  let ?f = "\<lambda>b. block_replace_selection b sel"
  have ok: "block_ok p (?f b)" if "\<not> list_ex (\<lambda>s. source_text p s = None) (sources sel)" for b
    using that assms(2) by (auto simp: block_ok_def block_replace_selection_def list_ex_iff)
  show "writes {i} p (fst (plan_replace_selection p i sel))"
    using assms(1) ok plan_wf_update [OF assms(1), of i ?f] writes_refl [OF assms(1)]
    by (auto simp: plan_replace_selection_def replace_selection_deferred_def block_replace_selection_def)
  show "block_decision (mp_blocks (fst (plan_replace_selection p i sel)) ! i) = (sel, None) \<and> i < length (mp_blocks p)"
    if "snd (plan_replace_selection p i sel)"
    using that by (auto simp: plan_replace_selection_def replace_selection_deferred_def block_replace_selection_def
        block_decision_def split: if_splits)
qed

lemma toggle_writes:
  assumes "plan_wf p"
  shows "writes {i} p (fst (plan_toggle_source p i s))"
    "snd (plan_toggle_source p i s) \<Longrightarrow>
      mb_manual_content (mp_blocks (fst (plan_toggle_source p i s)) ! i) = None \<and> i < length (mp_blocks p)"
proof -
  let ?f = "\<lambda>b. block_toggle_source b s"
  have "block_ok p (?f (mp_blocks p ! i))" if "source_text p s \<noteq> None" "i < length (mp_blocks p)"
    using that assms block_ok_toggle plan_ok_block by (auto simp: plan_wf_def)
  then show "writes {i} p (fst (plan_toggle_source p i s))"
    using plan_wf_update [OF assms, of i ?f] writes_refl [OF assms]
    by (auto simp: plan_toggle_source_def block_toggle_source_def)
  show "mb_manual_content (mp_blocks (fst (plan_toggle_source p i s)) ! i) = None \<and> i < length (mp_blocks p)"
    if "snd (plan_toggle_source p i s)"
    using that by (auto simp: plan_toggle_source_def block_toggle_source_def split: if_splits)
qed

section \<open>The operations keep the invariant\<close>

lemma replace_region_with_plan:
  assumes "cs_merge_plan s = Some p" "length (cs_region_plan_blocks s) = length (cs_regions s)"
  shows "fst (replace_region_selection s k sel) =
    (if k < length (cs_regions s) \<and> \<not> selection_foreign (Some p) sel \<and>
        cr_resolution (cs_regions s ! k) \<noteq> resolution_for_selection sel
     then (set_region_resolution s k (resolution_for_selection sel))
            \<lparr>cs_merge_plan := Some (fst (plan_replace_selection p (cs_region_plan_blocks s ! k) sel))\<rparr>
     else s)"
  using assms by (simp add: replace_region_selection_def nth_opt_def Let_def set_region_resolution_def)

lemma replace_region_in_step:
  assumes "in_step s" "selection_ok sel"
  shows "in_step (fst (replace_region_selection s k sel))"
proof (cases "cs_merge_plan s")
  case None
  then show ?thesis
    using assms(1)
    by (auto simp: replace_region_selection_def set_region_resolution_def in_step_but_def Let_def split: option.splits)
next
  case (Some p)
  note p = in_step_plan [OF assms(1) Some]
  show ?thesis
  proof (cases "k < length (cs_regions s) \<and> \<not> selection_foreign (Some p) sel \<and>
      cr_resolution (cs_regions s ! k) \<noteq> resolution_for_selection sel")
    case True
    let ?i = "cs_region_plan_blocks s ! k"
    have "?i < length (mp_blocks p)"
      using True mapping_index(1) [OF p(2)] by blast
    then have "snd (plan_replace_selection p ?i sel)"
      using True by (auto simp: plan_replace_selection_def replace_selection_deferred_def selection_foreign_def)
    with replace_writes [OF p(1) assms(2)]
    have "block_decision (mp_blocks (fst (plan_replace_selection p ?i sel)) ! ?i) = (sel, None)"
      by blast
    then have "in_step ((set_region_resolution s k (resolution_for_selection sel))
        \<lparr>cs_merge_plan := Some (fst (plan_replace_selection p ?i sel))\<rparr>)"
      using True by (intro in_step_both [OF assms(1) Some _ replace_writes(1) [OF p(1) assms(2)]])
        (simp_all add: region_decision_selection)
    then show ?thesis
      using True p(2) by (simp add: replace_region_with_plan [OF Some] mapping_ok_def)
  next
    case False
    then have "fst (replace_region_selection s k sel) = s"
      using p(2) by (subst replace_region_with_plan [OF Some]) (auto simp: mapping_ok_def)
    then show ?thesis
      using assms(1) by simp
  qed
qed

lemma region_selection_ok:
  assumes "in_step s" "cs_merge_plan s = Some p" "k < length (cs_regions s)"
    and "ordered_selection_for_resolution s (cr_resolution (cs_regions s ! k)) = Some sel"
  shows "selection_ok sel"
proof -
  note p = in_step_plan [OF assms(1,2)]
  have "session_has_base s = has_base p" by (simp add: session_has_base_def assms(2))
  then have "region_decision (has_base p) (cr_resolution (cs_regions s ! k)) = Some (sel, None)"
    using assms(4) p(3) [OF assms(3)]
    by (cases "cr_resolution (cs_regions s ! k)") (auto simp: ordered_selection_for_resolution_def split: if_splits)
  then have "mb_selection (mp_blocks p ! (cs_region_plan_blocks s ! k)) = sel"
    using p(3) [OF assms(3)] by (simp add: block_decision_def)
  then show ?thesis
    using p(1) mapping_index(1) [OF p(2) assms(3)] plan_ok_block by (auto simp: plan_wf_def block_ok_def)
qed

lemma toggle_region_in_step:
  assumes "in_step s"
  shows "in_step (fst (toggle_region_source s k source))"
proof (cases "cs_merge_plan s")
  case None
  then show ?thesis
    using assms by (auto simp: toggle_region_source_def replace_region_selection_def set_region_resolution_def
        in_step_but_def Let_def split: option.splits)
next
  case (Some p)
  show ?thesis
  proof (cases "k < length (cs_regions s)")
    case True
    let ?sel = "case ordered_selection_for_resolution s (cr_resolution (cs_regions s ! k)) of Some sel \<Rightarrow> sel | None \<Rightarrow> selection_new"
    have "selection_ok ?sel"
      using region_selection_ok [OF assms Some True] by (auto split: option.splits)
    then have "selection_ok (selection_toggle ?sel source)"
      by (rule ordsel.inv_toggle)
    from replace_region_in_step [OF assms this, of k] show ?thesis
      using True by (simp add: toggle_region_source_def nth_opt_def Let_def)
  qed (use assms in \<open>simp add: toggle_region_source_def nth_opt_def\<close>)
qed

lemma write_and_sync_in_step:
  assumes "in_step s" "cs_merge_plan s = Some p" "writes {i} p q"
    and "i < length (mp_blocks p)" "mb_manual_content (mp_blocks q ! i) = None"
  shows "in_step (sync_region_from_plan_block (s\<lparr>cs_merge_plan := Some q\<rparr>) i)"
  using in_step_sync [OF in_step_write [OF assms(1-3)], of q i] assms(3-5) by (simp add: writes_def)

lemma block_operation_in_step:
  assumes "in_step s" "cs_merge_plan s = Some p" "writes {i} p (fst r)"
    and "snd r \<Longrightarrow> mb_manual_content (mp_blocks (fst r) ! i) = None \<and> i < length (mp_blocks p)"
    and "\<not> snd r \<Longrightarrow> fst r = p"
  shows "in_step (if snd r then sync_region_from_plan_block (s\<lparr>cs_merge_plan := Some (fst r)\<rparr>) i
    else s\<lparr>cs_merge_plan := Some (fst r)\<rparr>)"
proof (cases "snd r")
  case True
  then show ?thesis
    using write_and_sync_in_step [OF assms(1-3)] assms(4) by simp
next
  case False
  then have "s\<lparr>cs_merge_plan := Some (fst r)\<rparr> = s"
    using assms(2,5) by simp
  then show ?thesis
    using assms(1) False by simp
qed

lemma toggle_block_in_step:
  assumes "in_step s"
  shows "in_step (fst (toggle_plan_block_source s bid source))"
proof (cases "cs_merge_plan s")
  case (Some p)
  note p = in_step_plan [OF assms Some]
  have step: "in_step (if snd r then sync_region_from_plan_block (s\<lparr>cs_merge_plan := Some (fst r)\<rparr>) i
      else s\<lparr>cs_merge_plan := Some (fst r)\<rparr>)" if "r = plan_toggle_source p i source" for i r
    by (rule block_operation_in_step [OF assms Some])
      (use that toggle_writes [OF p(1)] in \<open>simp_all add: plan_toggle_source_def split: if_splits\<close>)
  show ?thesis
    using assms Some step [OF refl]
    by (cases "position (\<lambda>b. mb_id b = bid) (mp_blocks p)")
      (simp_all add: toggle_plan_block_source_def Let_def split_beta)
qed (use assms in \<open>simp add: toggle_plan_block_source_def\<close>)

lemma replace_block_in_step:
  assumes "in_step s" "selection_ok sel"
  shows "in_step (fst (replace_plan_block_selection s bid sel))"
proof (cases "cs_merge_plan s")
  case (Some p)
  note p = in_step_plan [OF assms(1) Some]
  have step: "in_step (if snd r then sync_region_from_plan_block (s\<lparr>cs_merge_plan := Some (fst r)\<rparr>) i
      else s\<lparr>cs_merge_plan := Some (fst r)\<rparr>)" if "r = plan_replace_selection p i sel" for i r
    by (rule block_operation_in_step [OF assms(1) Some])
      (use that replace_writes [OF p(1) assms(2)] in
        \<open>auto simp: block_decision_def plan_replace_selection_def replace_selection_deferred_def split: if_splits\<close>)
  show ?thesis
    using assms(1) Some step [OF refl]
    by (cases "position (\<lambda>b. mb_id b = bid) (mp_blocks p)")
      (simp_all add: replace_plan_block_selection_def Let_def split_beta)
qed (use assms(1) in \<open>simp add: replace_plan_block_selection_def\<close>)

section \<open>Bulk choices\<close>

lemma deferred_blocks:
  assumes "\<forall>i\<in>set is. i < length (mp_blocks p)" "\<not> selection_foreign (Some p) sel"
    and "q = foldl (\<lambda>q i. fst (replace_selection_deferred q i sel)) p is"
  shows "same_inputs p q \<and> length (mp_blocks q) = length (mp_blocks p) \<and>
    (\<forall>i<length (mp_blocks p). mp_blocks q ! i
       = (if i \<in> set is then block_replace_selection (mp_blocks p ! i) sel else mp_blocks p ! i))"
  using assms
proof (induction "is" arbitrary: p)
  case (Cons i "is")
  let ?p = "upd_block p i (\<lambda>b. block_replace_selection b sel)"
  have step: "fst (replace_selection_deferred p i sel) = ?p"
    using Cons.prems(1,2) by (auto simp: replace_selection_deferred_def selection_foreign_def)
  have "\<not> selection_foreign (Some ?p) sel"
    using Cons.prems(2) by (simp add: selection_foreign_def source_text_None has_base_def)
  with Cons.IH [of ?p] Cons.prems have
    "same_inputs ?p q" "length (mp_blocks q) = length (mp_blocks ?p)"
    "\<forall>j<length (mp_blocks ?p). mp_blocks q ! j
       = (if j \<in> set is then block_replace_selection (mp_blocks ?p ! j) sel else mp_blocks ?p ! j)"
    by (simp_all add: step)
  then show ?case
    using Cons.prems(1) same_inputs_trans [of p ?p q]
    by (auto simp: nth_list_update block_replace_selection_def)
qed simp

lemma bulk_writes:
  assumes "plan_wf p" "selection_ok sel" "\<not> selection_foreign (Some p) sel" "\<forall>i\<in>set is. i < length (mp_blocks p)"
    and "q = refresh_unresolved_blocks (foldl (\<lambda>q i. fst (replace_selection_deferred q i sel)) p is)"
  shows "writes (set is) p q" "\<forall>i\<in>set is. mb_manual_content (mp_blocks q ! i) = None"
proof -
  let ?q = "foldl (\<lambda>q i. fst (replace_selection_deferred q i sel)) p is"
  note d = deferred_blocks [OF assms(4,3) refl]
  have base: "has_base ?q = has_base p"
    using d same_inputs_has_base by blast
  have block: "mp_blocks ?q ! i = mp_blocks p ! i \<or> mp_blocks ?q ! i = block_replace_selection (mp_blocks p ! i) sel"
    if "i < length (mp_blocks p)" for i
    using d that by simp
  have "map mb_rows (mp_blocks ?q) = map mb_rows (mp_blocks p)"
    using d by (intro nth_equalityI) (auto simp: block_replace_selection_def)
  moreover have "list_all (block_ok ?q) (mp_blocks ?q)"
    unfolding list_all_length
  proof (intro allI impI)
    fix i
    assume "i < length (mp_blocks ?q)"
    then have i: "i < length (mp_blocks p)" using d by simp
    have "block_ok p (block_replace_selection b sel)" for b
      using assms(2,3) by (auto simp: block_ok_def block_replace_selection_def selection_foreign_def list_ex_iff)
    moreover have "block_ok p (mp_blocks p ! i)"
      using assms(1) i plan_ok_block by (simp add: plan_wf_def)
    ultimately show "block_ok ?q (mp_blocks ?q ! i)"
      using block [OF i] block_ok_base [OF base] by metis
  qed
  ultimately have "plan_ok (refresh_unresolved_blocks ?q)"
    using assms(1) d by (intro plan_ok_refresh) (simp_all add: plan_wf_def plan_ok_def same_inputs_def)
  moreover have "list_all (\<lambda>b. mb_manual_content b = None \<or> selection_is_empty (mb_selection b)) (mp_blocks ?q)"
    using assms(1) d by (simp add: plan_wf_def list_all_length block_replace_selection_def)
  ultimately have "plan_wf q"
    by (simp add: plan_wf_def assms(5))
  then show "writes (set is) p q"
    using d base by (simp add: writes_def assms(5) has_base_def)
  show "\<forall>i\<in>set is. mb_manual_content (mp_blocks q ! i) = None"
    using d assms(4) by (simp add: assms(5) block_replace_selection_def)
qed

lemma sync_all_in_step:
  assumes "in_step_but X s" "cs_merge_plan s = Some p"
    "\<forall>i\<in>set is. i < length (mp_blocks p) \<and> mb_manual_content (mp_blocks p ! i) = None"
  shows "in_step_but (X - set is) (foldl sync_region_from_plan_block s is)"
  using assms
proof (induction "is" arbitrary: s X)
  case (Cons i "is")
  have "in_step_but (X - {i}) (sync_region_from_plan_block s i)"
    using in_step_sync [OF Cons.prems(1,2)] Cons.prems(3) by simp
  from Cons.IH [OF this] Cons.prems(2,3) show ?case
    by (simp add: sync_keeps Diff_insert2 [symmetric] insert_commute)
qed simp

lemma bulk_in_step:
  assumes "in_step s" "cs_merge_plan s = Some p" "selection_ok sel" "\<not> selection_foreign (Some p) sel"
    "\<forall>i\<in>set is. i < length (mp_blocks p)"
  shows "in_step (replace_blocks s p is sel)"
proof -
  define q where "q = refresh_unresolved_blocks (foldl (\<lambda>q i. fst (replace_selection_deferred q i sel)) p is)"
  note w = bulk_writes [OF in_step_plan(1) [OF assms(1,2)] assms(3-5) q_def]
  have "\<forall>i\<in>set is. i < length (mp_blocks q) \<and> mb_manual_content (mp_blocks q ! i) = None"
    using w assms(5) by (simp add: writes_def)
  with sync_all_in_step [OF in_step_write [OF assms(1,2) w(1)], of q "is"] show ?thesis
    by (simp add: replace_blocks_def q_def [symmetric])
qed

lemma bulk_operations_in_step:
  assumes "in_step s" "selection_ok sel"
  shows "in_step (fst (replace_all_delta_selections s sel))"
    "in_step (fst (replace_whitespace_conflict_selections s sel))"
proof -
  have "in_step (replace_blocks s p (indices_where P (mp_blocks p)) sel)"
    if "cs_merge_plan s = Some p" "\<not> selection_foreign (Some p) sel" for p P
    using bulk_in_step [OF assms(1) that(1) assms(2) that(2)] by (simp add: set_indices_where)
  then show "in_step (fst (replace_all_delta_selections s sel))"
    "in_step (fst (replace_whitespace_conflict_selections s sel))"
    using assms(1)
    by (auto simp: replace_all_delta_selections_def replace_whitespace_conflict_selections_def Let_def
        split: option.splits)
qed

section \<open>Writing the regions into the plan\<close>

text \<open>A session whose plan and mapping are sound and whose regions ask for decisions the plan can take.\<close>

definition can_decide :: "merge_plan \<Rightarrow> conflict_region_resolution \<Rightarrow> bool" where
  "can_decide p r \<longleftrightarrow>
     (case region_decision (has_base p) r of
        None \<Rightarrow> False
      | Some (sel, manual) \<Rightarrow> selection_ok sel \<and> \<not> selection_foreign (Some p) sel)"

lemma selection_new_fine [simp]: "selection_ok selection_new" "\<not> selection_foreign p selection_new"
  by (simp_all add: selection_foreign_def selection_new_def)

definition blocks_wf :: "merge_plan \<Rightarrow> bool" where
  "blocks_wf p \<longleftrightarrow> tiles (map mb_rows (mp_blocks p)) 0 (length (mp_rows p)) \<and>
     (\<forall>i<length (mp_blocks p). block_ok p (mp_blocks p ! i) \<and>
        (mb_manual_content (mp_blocks p ! i) = None \<or> selection_is_empty (mb_selection (mp_blocks p ! i))))"

lemma plan_wf_blocks: "plan_wf p \<Longrightarrow> blocks_wf p"
  by (simp add: plan_wf_def plan_ok_def blocks_wf_def list_all_length)

lemma plan_wf_refresh: "blocks_wf p \<Longrightarrow> plan_wf (refresh_unresolved_blocks p)"
  using plan_ok_refresh [of p] by (simp add: plan_wf_def blocks_wf_def list_all_length)

lemma blocks_wf_update:
  assumes "blocks_wf p" "i < length (mp_blocks p)" "mb_rows (f (mp_blocks p ! i)) = mb_rows (mp_blocks p ! i)"
    and "block_ok p (f (mp_blocks p ! i))"
    and "mb_manual_content (f (mp_blocks p ! i)) = None \<or> selection_is_empty (mb_selection (f (mp_blocks p ! i)))"
  shows "blocks_wf (upd_block p i f)"
proof -
  have "map mb_rows ((mp_blocks p)[i := f (mp_blocks p ! i)]) = map mb_rows (mp_blocks p)"
    using assms(2,3) by (metis list_update_id map_update)
  moreover have "block_ok (upd_block p i f) b = block_ok p b" for b
    by (rule block_ok_base) (simp add: has_base_def)
  ultimately show ?thesis
    using assms by (simp add: blocks_wf_def nth_list_update)
qed

lemma manual_decision:
  "resolution = ManualEdit content \<or> (\<exists>rule confidence. resolution = AutoResolved rule confidence content) \<Longrightarrow>
    region_decision w resolution = Some (selection_new, Some content) \<and>
    sync_block s (p, t) (i, resolution) =
      (if map_option mb_manual_content (nth_opt (mp_blocks p) i) = Some (Some content) then (p, t)
       else (case set_manual_content_deferred p i content of (q, wrote) \<Rightarrow> (q, t \<or> wrote)))"
  by (elim disjE exE) (simp_all add: sync_block_def Let_def)

lemma selection_decision:
  assumes "region_decision w r = Some (sel, None)" "session_has_base s = w"
  shows "sync_block s (p, t) (i, r) = (case replace_selection_deferred p i sel of (q, wrote) \<Rightarrow> (q, t \<or> wrote))"
  using assms
  by (cases r) (auto simp: sync_block_def Let_def ordered_selection_for_resolution_def split: if_splits)

lemma region_decision_cases:
  assumes "region_decision w r = Some (sel, manual)"
  obtains (Manual) content where "manual = Some content" "sel = selection_new"
      "r = ManualEdit content \<or> (\<exists>rule confidence. r = AutoResolved rule confidence content)"
    | (Selection) "manual = None"
  using assms by (cases r) (auto split: if_splits)

lemma sync_block_step:
  assumes "blocks_wf p" "i < length (mp_blocks p)" "can_decide p r" "session_has_base s = has_base p"
    and "sync_block s (p, t) (i, r) = (q, t')"
  shows "blocks_wf q \<and> has_base q = has_base p \<and> length (mp_blocks q) = length (mp_blocks p) \<and>
    region_decision (has_base p) r = Some (block_decision (mp_blocks q ! i)) \<and>
    (\<forall>j<length (mp_blocks p). j \<noteq> i \<longrightarrow> mp_blocks q ! j = mp_blocks p ! j) \<and> (t' \<or> q = p \<and> \<not> t)"
proof -
  obtain sel manual where d: "region_decision (has_base p) r = Some (sel, manual)" "selection_ok sel"
    "\<not> selection_foreign (Some p) sel"
    using assms(3) by (auto simp: can_decide_def split: option.splits)
  have update: ?thesis if "q = upd_block p i f" "t'" "mb_rows (f (mp_blocks p ! i)) = mb_rows (mp_blocks p ! i)"
    "block_ok p (f (mp_blocks p ! i))" "block_decision (f (mp_blocks p ! i)) = (sel, manual)"
    "manual = None \<or> sel = selection_new" for f
    using blocks_wf_update [of p i f, OF assms(1,2) that(3,4)] that d(1) assms(2)
    by (auto simp: block_decision_def has_base_def selection_is_empty_iff)
  from d(1) show ?thesis
  proof (cases rule: region_decision_cases)
    case (Manual content)
    note sync = conjunct2 [OF manual_decision [OF Manual(3), of "has_base p" s p t i]]
    show ?thesis
    proof (cases "mb_manual_content (mp_blocks p ! i) = Some content")
      case True
      then have "mb_selection (mp_blocks p ! i) = selection_new"
        using assms(1,2) by (auto simp: blocks_wf_def selection_is_empty_iff)
      then show ?thesis
        using True sync assms d(1) Manual(1,2) by (auto simp: nth_opt_def block_decision_def)
    next
      case False
      then show ?thesis
        using sync assms(2,5) Manual
        by (intro update [of "\<lambda>b. block_set_manual_content b content"])
          (simp_all add: nth_opt_def set_manual_content_deferred_def block_set_manual_content_def block_ok_def
            block_decision_def, simp add: selection_new_def)
    qed
  next
    case Selection
    note sync = selection_decision [OF d(1) [unfolded Selection] assms(4), of p t i]
    have "replace_selection_deferred p i sel = (upd_block p i (\<lambda>b. block_replace_selection b sel), True)"
      using assms(2) d(3) by (simp add: replace_selection_deferred_def selection_foreign_def)
    moreover have "block_ok p (block_replace_selection b sel)" for b
      using d(2,3) by (auto simp: block_ok_def block_replace_selection_def selection_foreign_def list_ex_iff)
    ultimately show ?thesis
      using sync assms(5) Selection
      by (intro update [of "\<lambda>b. block_replace_selection b sel"])
        (simp_all add: block_replace_selection_def block_decision_def)
  qed
qed

lemma sync_blocks:
  assumes "blocks_wf p" "distinct (map fst L)" "\<forall>(i, r)\<in>set L. i < length (mp_blocks p) \<and> can_decide p r"
    and "session_has_base s = has_base p" "foldl (sync_block s) (p, t) L = (q, t')"
  shows "blocks_wf q \<and> has_base q = has_base p \<and> length (mp_blocks q) = length (mp_blocks p) \<and>
    (\<forall>(i, r)\<in>set L. region_decision (has_base p) r = Some (block_decision (mp_blocks q ! i))) \<and>
    (\<forall>j<length (mp_blocks p). j \<notin> fst ` set L \<longrightarrow> mp_blocks q ! j = mp_blocks p ! j) \<and> (t' \<or> q = p \<and> \<not> t)"
  using assms
proof (induction L arbitrary: p t)
  case (Cons ir L)
  obtain i r where ir: "ir = (i, r)" by (cases ir)
  obtain p1 t1 where step: "sync_block s (p, t) (i, r) = (p1, t1)" by (cases "sync_block s (p, t) (i, r)")
  have i: "i < length (mp_blocks p)" "can_decide p r" "i \<notin> fst ` set L"
    using Cons.prems(2,3) ir by auto
  note st = sync_block_step [OF Cons.prems(1) i(1,2) Cons.prems(4) step]
  have can: "can_decide p1 r' = can_decide p r'" for r'
    using st by (simp add: can_decide_def selection_foreign_def source_text_None split: option.splits)
  have "blocks_wf q \<and> has_base q = has_base p1 \<and> length (mp_blocks q) = length (mp_blocks p1) \<and>
    (\<forall>(i, r)\<in>set L. region_decision (has_base p1) r = Some (block_decision (mp_blocks q ! i))) \<and>
    (\<forall>j<length (mp_blocks p1). j \<notin> fst ` set L \<longrightarrow> mp_blocks q ! j = mp_blocks p1 ! j) \<and> (t' \<or> q = p1 \<and> \<not> t1)"
    using Cons.IH [of p1 t1] Cons.prems st can ir step by auto
  then show ?case
    using st i ir by auto
qed simp

lemma sync_in_step:
  assumes "cs_merge_plan s = Some p" "plan_wf p"
    and "mapping_ok (cs_region_plan_blocks s) (length (cs_regions s)) (length (mp_blocks p))"
    and "\<forall>r\<in>set (cs_regions s). can_decide p (cr_resolution r)"
  shows "in_step (sync_merge_plan_from_regions s)"
proof -
  let ?L = "zip (cs_region_plan_blocks s) (map cr_resolution (cs_regions s))"
  obtain q t where f: "foldl (sync_block s) (p, False) ?L = (q, t)" by fastforce
  have len: "length (cs_region_plan_blocks s) = length (cs_regions s)" and d: "distinct (cs_region_plan_blocks s)"
    using assms(3) strict_sorted_iff by (auto simp: mapping_ok_def)
  have "i < length (mp_blocks p) \<and> can_decide p r" if "(i, r) \<in> set ?L" for i r
    using set_zip_leftD [OF that] set_zip_rightD [OF that] assms(3,4) by (auto simp: mapping_ok_def)
  moreover have "distinct (map fst ?L)"
    using len d by simp
  moreover have "session_has_base s = has_base p"
    by (simp add: session_has_base_def assms(1))
  ultimately have b: "blocks_wf q" "has_base q = has_base p" "length (mp_blocks q) = length (mp_blocks p)"
    "\<forall>(i, r)\<in>set ?L. region_decision (has_base p) r = Some (block_decision (mp_blocks q ! i))" "t \<or> q = p"
    using sync_blocks [OF plan_wf_blocks [OF assms(2)] _ _ _ f] by auto
  define q' where "q' = (if t then refresh_unresolved_blocks q else q)"
  have q': "plan_wf q'" "has_base q' = has_base p" "mp_blocks q' = mp_blocks q"
    using plan_wf_refresh [OF b(1)] b(2,5) assms(2) by (auto simp: q'_def has_base_def)
  have sync: "sync_merge_plan_from_regions s = s\<lparr>cs_merge_plan := Some q'\<rparr>"
    by (simp add: sync_merge_plan_from_regions_def assms(1) f q'_def)
  show ?thesis
    unfolding sync
  proof (rule in_stepI)
    fix k
    assume k: "k < length (cs_regions (s\<lparr>cs_merge_plan := Some q'\<rparr>))"
    then have "(cs_region_plan_blocks s ! k, cr_resolution (cs_regions s ! k)) \<in> set ?L"
      using len by (auto simp: set_zip intro!: exI [of _ k])
    then show "region_decision (has_base q') (cr_resolution (cs_regions (s\<lparr>cs_merge_plan := Some q'\<rparr>) ! k))
        = Some (block_decision (mp_blocks q' ! (cs_region_plan_blocks (s\<lparr>cs_merge_plan := Some q'\<rparr>) ! k)))"
      using b(4) q' by auto
  qed (use q' b(3) assms(3) in simp_all)
qed

section \<open>Automatic resolution\<close>

lemma in_step_can_decide:
  assumes "in_step s" "cs_merge_plan s = Some p" "k < length (cs_regions s)"
  shows "can_decide p (cr_resolution (cs_regions s ! k))"
proof -
  note p = in_step_plan [OF assms(1,2)]
  have "block_ok p (mp_blocks p ! (cs_region_plan_blocks s ! k))"
    using p(1) mapping_index(1) [OF p(2) assms(3)] plan_ok_block by (simp add: plan_wf_def)
  then show ?thesis
    using p(3) [OF assms(3)]
    by (auto simp: can_decide_def block_decision_def block_ok_def selection_foreign_def list_ex_iff)
qed

text \<open>A pass that resolves regions by a text leaves the plan, the mapping and the resolved regions alone.\<close>

definition region_auto :: "conflict_region \<Rightarrow> conflict_region \<Rightarrow> bool" where
  "region_auto r r' \<longleftrightarrow> r' = r \<or> \<not> region_resolved r \<and>
     (\<exists>rule content. r' = r\<lparr>cr_resolution := AutoResolved rule (rule_confidence rule) content\<rparr>)"

lemma region_auto_trans: "region_auto r r' \<Longrightarrow> region_auto r' r'' \<Longrightarrow> region_auto r r''"
  by (auto simp: region_auto_def)

definition auto_resolves :: "conflict_session \<Rightarrow> conflict_session \<Rightarrow> bool" where
  "auto_resolves s t \<longleftrightarrow> (\<exists>rs. t = s\<lparr>cs_regions := rs\<rparr> \<and> list_all2 region_auto (cs_regions s) rs)"

lemma auto_resolves_refl: "auto_resolves s s"
  unfolding auto_resolves_def by (rule exI [of _ "cs_regions s"]) (simp add: list.rel_refl region_auto_def)

lemma auto_resolves_trans:
  assumes "auto_resolves s t" "auto_resolves t u"
  shows "auto_resolves s u"
proof -
  obtain rs us where t: "t = s\<lparr>cs_regions := rs\<rparr>" "list_all2 region_auto (cs_regions s) rs"
    and u: "u = t\<lparr>cs_regions := us\<rparr>" "list_all2 region_auto (cs_regions t) us"
    using assms by (auto simp: auto_resolves_def)
  have "list_all2 region_auto (cs_regions s) us"
    using list_all2_trans [OF _ t(2), of region_auto region_auto us] u(2) t(1) region_auto_trans by auto
  then show ?thesis
    using t(1) u(1) by (auto simp: auto_resolves_def)
qed

lemma auto_with_resolves: "auto_resolves s (fst (auto_resolve_with s rule))"
proof -
  have "list_all2 region_auto (cs_regions s) (cs_regions (fst (auto_resolve_with s rule)))"
    unfolding list_all2_conv_all_nth
    by (auto simp: auto_resolve_with_def Let_def region_auto_def split: option.splits if_splits)
  then show ?thesis
    by (auto simp: auto_resolves_def auto_resolve_with_def Let_def)
qed

lemma auto_set_resolves:
  assumes "k < length (cs_regions s)" "\<not> region_resolved (cs_regions s ! k)"
  shows "auto_resolves s (set_region_resolution s k (AutoResolved rule (rule_confidence rule) content))"
proof -
  have "list_all2 region_auto (cs_regions s)
      ((cs_regions s)[k := (cs_regions s ! k)\<lparr>cr_resolution := AutoResolved rule (rule_confidence rule) content\<rparr>])"
    using assms by (auto simp: list_all2_conv_all_nth nth_list_update region_auto_def)
  then show ?thesis
    by (auto simp: auto_resolves_def set_region_resolution_def)
qed

lemma history_pass_resolves:
  "history_pass compile is_match options (s, n) is = Returns (t, m) \<Longrightarrow> \<forall>i\<in>set is. i < length (cs_regions s) \<Longrightarrow>
    auto_resolves s t"
proof (induction "is" arbitrary: s n)
  case Nil
  then show ?case by (simp add: auto_resolves_refl)
next
  case (Cons i "is")
  show ?case
  proof (cases "region_resolved (cs_regions s ! i)")
    case True
    then show ?thesis using Cons by simp
  next
    case False
    then obtain merged where "history_resolution compile is_match s i options = Returns merged"
      using Cons.prems(1) by (cases "history_resolution compile is_match s i options") auto
    with False Cons show ?thesis
    proof (cases merged)
      case (Some text')
      let ?s = "set_region_resolution s i (AutoResolved HistoryMerged (rule_confidence HistoryMerged) text')"
      have "auto_resolves ?s t"
        using Cons.IH [of ?s "n + 1"] Cons.prems False Some \<open>history_resolution compile is_match s i options = Returns merged\<close>
        by (simp add: set_region_resolution_def)
      then show ?thesis
        using auto_resolves_trans auto_set_resolves False Cons.prems(2) by (meson list.set_intros(1))
    qed simp
  qed
qed

lemma auto_history_resolves:
  "auto_resolve_history compile is_match s options = Returns (t, n) \<Longrightarrow> auto_resolves s t"
  using history_pass_resolves [of compile is_match options s 0 "[0..<length (cs_regions s)]" t n] auto_resolves_refl
  by (auto simp: auto_resolve_history_def split: if_splits)

lemma auto_resolve_operations:
  "auto_resolves s (fst (auto_resolve_safe_with_options s ws))"
  "auto_resolves s (fst (auto_resolve_regex compile_re replace_all s regex_options))"
  "auto_resolves s (fst (auto_resolve_pass2 s))"
  using auto_with_resolves auto_resolves_refl
  by (auto simp: auto_resolve_safe_with_options_def auto_resolve_regex_def auto_resolve_pass2_def
      split: option.splits)

lemma auto_in_step:
  assumes "in_step s" "auto_resolves s t"
  shows "in_step (sync_merge_plan_from_regions t)"
proof (cases "cs_merge_plan s")
  case None
  then have "cs_merge_plan t = None"
    using assms(2) by (auto simp: auto_resolves_def)
  then show ?thesis
    by (simp add: sync_merge_plan_from_regions_def in_step_but_def)
next
  case (Some p)
  note p = in_step_plan [OF assms(1) Some]
  obtain rs where t: "t = s\<lparr>cs_regions := rs\<rparr>" "list_all2 region_auto (cs_regions s) rs"
    using assms(2) by (auto simp: auto_resolves_def)
  have "can_decide p (cr_resolution (rs ! k))" if "k < length rs" for k
  proof -
    have "region_auto (cs_regions s ! k) (rs ! k)" "k < length (cs_regions s)"
      using t(2) that by (auto simp: list_all2_conv_all_nth)
    then show ?thesis
      using in_step_can_decide [OF assms(1) Some] by (auto simp: region_auto_def can_decide_def)
  qed
  then have "\<forall>r\<in>set (cs_regions t). can_decide p (cr_resolution r)"
    using t(1) by (auto simp: in_set_conv_nth)
  moreover have "length rs = length (cs_regions s)"
    using t(2) by (simp add: list_all2_lengthD)
  ultimately show ?thesis
    using Some p t(1) by (intro sync_in_step [of t p]) simp_all
qed

section \<open>Reachable sessions\<close>

text \<open>The operations of a session that decide conflicts. Automatic passes run in any number before the plan is
  synchronised, as the application runs them.\<close>

inductive session_step :: "conflict_session \<Rightarrow> conflict_session \<Rightarrow> bool" where
  select_region: "selection_ok sel \<Longrightarrow> session_step s (fst (replace_region_selection s k sel))"
| toggle_region: "session_step s (fst (toggle_region_source s k source))"
| toggle_block: "session_step s (fst (toggle_plan_block_source s bid source))"
| select_block: "selection_ok sel \<Longrightarrow> session_step s (fst (replace_plan_block_selection s bid sel))"
| select_deltas: "selection_ok sel \<Longrightarrow> session_step s (fst (replace_all_delta_selections s sel))"
| select_whitespace: "selection_ok sel \<Longrightarrow> session_step s (fst (replace_whitespace_conflict_selections s sel))"
| auto_solve: "auto_resolves s t \<Longrightarrow> session_step s (sync_merge_plan_from_regions t)"

lemma session_step_in_step: "session_step s t \<Longrightarrow> in_step s \<Longrightarrow> in_step t"
  by (induction rule: session_step.induct)
    (simp_all add: replace_region_in_step toggle_region_in_step toggle_block_in_step replace_block_in_step
      bulk_operations_in_step auto_in_step)

inductive session_reachable :: "conflict_session \<Rightarrow> conflict_session \<Rightarrow> bool" for s where
  start: "session_reachable s s"
| step: "session_reachable s t \<Longrightarrow> session_step t u \<Longrightarrow> session_reachable s u"

lemma session_reachable_in_step: "session_reachable s t \<Longrightarrow> in_step s \<Longrightarrow> in_step t"
  by (induction rule: session_reachable.induct) (auto intro: session_step_in_step)

text \<open>No step drops the plan or changes the strategy, the mapping or the number of regions.\<close>

definition same_shape :: "conflict_session \<Rightarrow> conflict_session \<Rightarrow> bool" where
  "same_shape s t \<longleftrightarrow> (cs_merge_plan t = None \<longleftrightarrow> cs_merge_plan s = None) \<and> cs_strategy t = cs_strategy s \<and>
     cs_region_plan_blocks t = cs_region_plan_blocks s \<and> length (cs_regions t) = length (cs_regions s)"

lemma same_shape_refl [simp]: "same_shape s s"
  and same_shape_trans: "same_shape s t \<Longrightarrow> same_shape t u \<Longrightarrow> same_shape s u"
  by (simp_all add: same_shape_def)

lemma same_shape_sync_block [simp]: "same_shape s (sync_region_from_plan_block t i) = same_shape s t"
  by (auto simp: same_shape_def sync_region_from_plan_block_def set_region_resolution_def split: option.splits)

lemma same_shape_sync_blocks: "same_shape s (foldl sync_region_from_plan_block t is) = same_shape s t"
  by (induction "is" arbitrary: t) simp_all

lemma same_shape_plan: "cs_merge_plan s = Some p \<Longrightarrow> same_shape s (s\<lparr>cs_merge_plan := Some q\<rparr>)"
  by (simp add: same_shape_def)

lemma same_shape_replace_region: "same_shape s (fst (replace_region_selection s k sel))"
  by (auto simp: replace_region_selection_def set_region_resolution_def same_shape_def Let_def split: option.splits)

lemma session_step_shape: "session_step s t \<Longrightarrow> same_shape s t"
proof (induction rule: session_step.induct)
  case (toggle_region s k source)
  then show ?case
    using same_shape_replace_region by (auto simp: toggle_region_source_def Let_def split: option.splits)
next
  case (toggle_block s bid source)
  then show ?case
    using same_shape_plan by (auto simp: toggle_plan_block_source_def Let_def split: option.splits prod.splits)
next
  case (select_block sel s bid)
  then show ?case
    using same_shape_plan by (auto simp: replace_plan_block_selection_def Let_def split: option.splits prod.splits)
next
  case (select_deltas sel s)
  then show ?case
    using same_shape_plan
    by (auto simp: replace_all_delta_selections_def replace_blocks_def same_shape_sync_blocks Let_def split: option.splits)
next
  case (select_whitespace sel s)
  then show ?case
    using same_shape_plan
    by (auto simp: replace_whitespace_conflict_selections_def replace_blocks_def same_shape_sync_blocks Let_def
        split: option.splits)
next
  case (auto_solve s t)
  then show ?case
    by (auto simp: auto_resolves_def same_shape_def sync_merge_plan_from_regions_def list_all2_lengthD
        split: option.splits prod.splits)
qed (rule same_shape_replace_region)

lemma session_reachable_shape: "session_reachable s t \<Longrightarrow> same_shape s t"
  by (induction rule: session_reachable.induct) (auto intro: same_shape_trans session_step_shape)

end
