(* ===== verification/Marker_Output.thy ===== *)
theory Marker_Output
  imports Render Region_Edit Output
begin

text \<open>
  The renderer of \<open>merge.rs\<close> against the parser of \<open>conflict_session/marker_parse.rs\<close>: on inputs whose
  lines are not themselves markers, the parser finds in the merged text exactly as many conflict blocks
  as the merge counted, in every conflict style.
\<close>

section \<open>Counting the blocks of lines\<close>

definition conflicts_in :: "utext list \<Rightarrow> nat" where
  "conflicts_in ls = blocks_in (line_segments ls)"

lemma conflicts_in_block: "block_wf b \<Longrightarrow> conflicts_in (seg_lines b @ rest) = Suc (conflicts_in rest)"
  using line_segments_block [of "[]" b rest] by (cases b) (simp_all add: conflicts_in_def text_lines_def)

lemma conflicts_in_context:
  assumes "\<forall>l\<in>set ctx. \<not> is_open l"
  shows "conflicts_in (ctx @ rest) = conflicts_in rest"
proof (cases rest rule: lines_cut)
  case context_only
  then have "\<forall>l\<in>set (ctx @ rest). \<not> is_open l"
    using assms by auto
  then show ?thesis
    using context_only by (simp add: conflicts_in_def line_segments_context text_lines_def)
next
  case (broken ctx' opn rest')
  then show ?thesis
    using assms line_segments_broken [of "ctx @ ctx'" opn rest'] line_segments_broken [of ctx' opn rest']
    by (simp add: conflicts_in_def text_lines_def ball_Un)
next
  case (block ctx' b rest')
  then show ?thesis
    using assms line_segments_block [of "ctx @ ctx'" b rest'] line_segments_block [of ctx' b rest']
    by (simp add: conflicts_in_def text_lines_def ball_Un)
qed

text \<open>Full lines that add a number of conflicts, whatever follows.\<close>

definition adds_conflicts :: "utext list \<Rightarrow> nat \<Rightarrow> bool" where
  "adds_conflicts ps n \<longleftrightarrow> full_lines ps \<and> (\<forall>rest. conflicts_in (ps @ rest) = n + conflicts_in rest)"

lemma adds_Nil: "adds_conflicts [] 0"
  by (simp add: adds_conflicts_def full_lines_def)

lemma adds_append: "adds_conflicts ps m \<Longrightarrow> adds_conflicts qs n \<Longrightarrow> adds_conflicts (ps @ qs) (m + n)"
  by (simp add: adds_conflicts_def)

lemma adds_concat: "\<forall>x\<in>set xs. adds_conflicts (f x) (g x) \<Longrightarrow> adds_conflicts (concat (map f xs)) (sum_list (map g xs))"
  by (induction xs) (auto simp: adds_Nil adds_append)

lemma adds_block: "block_wf b \<Longrightarrow> full_lines (seg_lines b) \<Longrightarrow> adds_conflicts (seg_lines b) 1"
  by (simp add: adds_conflicts_def conflicts_in_block)

text \<open>Written lines: without line feeds and not markers, ended by a line ending.\<close>

definition plain_lines :: "utext list \<Rightarrow> bool" where
  "plain_lines ls \<longleftrightarrow> (\<forall>l\<in>set ls. LF \<notin> set l \<and> \<not> is_markerish l)"

lemma plain_lines_subset: "plain_lines ls \<Longrightarrow> set ls' \<subseteq> set ls \<Longrightarrow> plain_lines ls'"
  by (auto simp: plain_lines_def)

lemma full_ended: "LF \<notin> set l \<Longrightarrow> eol_ok e \<Longrightarrow> full_lines [l @ e]"
  by (auto simp: full_lines_def eol_ok_def butlast_append)

lemma full_written: "\<forall>l\<in>set ls. LF \<notin> set l \<Longrightarrow> eol_ok e \<Longrightarrow> full_lines (map (\<lambda>l. l @ e) ls)"
  using full_ended by (auto simp: full_lines_def)

lemma markerish_ending: "set e \<subseteq> {LF, CR} \<Longrightarrow> is_markerish (l @ e) \<longleftrightarrow> is_markerish l"
  by (simp add: is_markerish_def starts_with_ending)

lemma adds_written: "plain_lines ls \<Longrightarrow> eol_ok e \<Longrightarrow> adds_conflicts (map (\<lambda>l. l @ e) ls) 0"
  using conflicts_in_context [of "map (\<lambda>l. l @ e) ls"] full_written [of ls e]
  by (auto simp: adds_conflicts_def plain_lines_def is_markerish_def starts_with_ending eol_chars)

section \<open>One conflict\<close>

definition labels_single :: "merge_labels \<Rightarrow> bool" where
  "labels_single lb \<longleftrightarrow> (\<forall>l. lb_ours lb = Some l \<or> lb_base lb = Some l \<or> lb_theirs lb = Some l \<longrightarrow> LF \<notin> set l)"

lemma emit_marker_starts:
  assumes "7 \<le> width"
  shows "is_open (emit_marker 60 width label e)" "is_base (emit_marker 124 width label e)"
    "is_separator (emit_marker 61 width label e)" "is_close (emit_marker 62 width label e)"
  using assms replicate_add [of 7 "width - 7"]
  by (simp_all add: emit_marker_def marker_defs starts_with_def take_replicate numeral_eq_Suc)

lemma emit_marker_full:
  assumes "eol_ok e" "c \<noteq> LF" "\<And>l. label = Some l \<Longrightarrow> LF \<notin> set l"
  shows "full_lines [emit_marker c width label e]"
  using full_ended [of "replicate width c @ (case label of None \<Rightarrow> [] | Some l \<Rightarrow> [32] @ l)" e] assms
  by (auto simp: emit_marker_def split: option.splits)

lemma adds_conflict:
  assumes "7 \<le> width" "eol_ok e" "plain_lines ours" "plain_lines theirs" "plain_lines base" "labels_single lb"
  shows "adds_conflicts (emit_marker 60 width (lb_ours lb) e # map (\<lambda>l. l @ e) ours @
    (if diff3 then emit_marker 124 width (lb_base lb) e # map (\<lambda>l. l @ e) base else []) @
    emit_marker 61 width None e # map (\<lambda>l. l @ e) theirs @ [emit_marker 62 width (lb_theirs lb) e]) 1"
proof -
  let ?w = "map (\<lambda>l. l @ e)"
  let ?b = "Line_Block (emit_marker 60 width (lb_ours lb) e) (?w ours)
      (if diff3 then Some (emit_marker 124 width (lb_base lb) e, ?w base) else None)
      (emit_marker 61 width None e) (?w theirs) (emit_marker 62 width (lb_theirs lb) e)"
  have "block_wf ?b"
    using assms emit_marker_starts [OF assms(1)]
    by (auto simp: plain_lines_def is_markerish_def starts_with_ending eol_chars)
  moreover have "full_lines (?w ours)" "full_lines (?w theirs)" "full_lines (?w base)"
    using assms full_written by (auto simp: plain_lines_def)
  moreover have "full_lines [emit_marker 60 width (lb_ours lb) e]" "full_lines [emit_marker 124 width (lb_base lb) e]"
    "full_lines [emit_marker 61 width None e]" "full_lines [emit_marker 62 width (lb_theirs lb) e]"
    using assms(2,6) by (auto simp: labels_single_def intro!: emit_marker_full)
  ultimately have "full_lines (seg_lines ?b)" "block_wf ?b"
    by (auto simp: full_lines_def)
  then show ?thesis
    using adds_block [of ?b] by (cases diff3) simp_all
qed


lemma join_lines_pieces: "join_lines e ls = concat (map (\<lambda>l. l @ e) ls)"
  by (simp add: join_lines_def)

lemma emitted_conflict:
  assumes "7 \<le> mo_marker_size options" "labels_single (mo_labels options)" "eol_ok e"
    and "plain_lines ours" "plain_lines theirs" "plain_lines base"
  shows "\<exists>ps. emit_conflict_markers ours theirs base options e = concat ps \<and> adds_conflicts ps 1"
proof -
  let ?w = "map (\<lambda>l. l @ e)" and ?ms = "mo_marker_size options" and ?lb = "mo_labels options"
  let ?block = "\<lambda>diff3 os ts bs. emit_marker 60 ?ms (lb_ours ?lb) e # ?w os @
      (if diff3 then emit_marker 124 ?ms (lb_base ?lb) e # ?w bs else []) @
      emit_marker 61 ?ms None e # ?w ts @ [emit_marker 62 ?ms (lb_theirs ?lb) e]"
  show ?thesis
  proof (cases "mo_style options")
    case Style_Merge
    then show ?thesis
      using adds_conflict [OF assms(1,3-6,2), of False]
      by (intro exI [of _ "?block False ours theirs base"]) (simp add: emit_conflict_markers_def Let_def join_lines_pieces)
  next
    case Style_Diff3
    then show ?thesis
      using adds_conflict [OF assms(1,3-6,2), of True]
      by (intro exI [of _ "?block True ours theirs base"]) (simp add: emit_conflict_markers_def Let_def join_lines_pieces)
  next
    case Style_Zdiff3
    obtain hp oc bc tc hs where z: "zdiff3_sections ours theirs base = (hp, oc, bc, tc, hs)"
      by (metis prod_cases5)
    then have sub: "set hp \<subseteq> set ours" "set oc \<subseteq> set ours" "set bc \<subseteq> set base" "set tc \<subseteq> set theirs" "set hs \<subseteq> set ours"
      by (auto simp: zdiff3_sections_def Let_def dest: in_set_takeD in_set_dropD subsetD [OF set_slice_subset] split: prod.splits)
    note plain = plain_lines_subset [OF assms(4) sub(1)] plain_lines_subset [OF assms(4) sub(5)]
    have "adds_conflicts (?block True oc tc bc) 1"
      using adds_conflict [OF assms(1,3) plain_lines_subset [OF assms(4) sub(2)] plain_lines_subset [OF assms(5) sub(4)]
          plain_lines_subset [OF assms(6) sub(3)] assms(2), of True] by simp
    then have "adds_conflicts (?w hp @ ?block True oc tc bc @ ?w hs) (0 + (1 + 0))"
      by (intro adds_append adds_written plain assms(3))
    then show ?thesis
      using Style_Zdiff3 z
      by (intro exI [of _ "?w hp @ ?block True oc tc bc @ ?w hs"]) (simp add: emit_conflict_markers_def Let_def join_lines_pieces)
  qed
qed

section \<open>The merged text\<close>

definition inputs_plain :: "merge_plan \<Rightarrow> bool" where
  "inputs_plain p \<longleftrightarrow> (\<forall>s. plain_lines (source_lines p s))"

lemma block_lines_plain: "inputs_plain p \<Longrightarrow> plain_lines (block_source_lines p b s)"
  by (rule plain_lines_subset [of "source_lines p s"])
    (auto simp: inputs_plain_def block_source_lines_def set_filter_map nth_opt_Some Option.bind_eq_Some_conv)

lemma ancestor_lines_plain: "inputs_plain p \<Longrightarrow> plain_lines (block_ancestor_lines p b)"
  by (rule plain_lines_subset [of "source_lines p A"])
    (auto simp: inputs_plain_def block_ancestor_lines_def dest: subsetD [OF set_slice_subset])

lemma rendered_block_pieces:
  assumes "7 \<le> mo_marker_size options" "labels_single (mo_labels options)" "eol_ok (mp_line_ending p)" "inputs_plain p"
    and "mb_manual_content b = None"
  shows "\<exists>ps. fst (render_block p options (line_slices_new p) b) = concat ps \<and>
    adds_conflicts ps (snd (render_block p options (line_slices_new p) b))"
proof (cases "strategy_selection options p b")
  case None
  have lines: "plain_lines (block_source_lines p b (local_source p))" "plain_lines (block_source_lines p b (remote_source p))"
      "plain_lines (block_ancestor_lines p b)" "plain_lines []"
    using block_lines_plain ancestor_lines_plain assms(4) by (auto simp: plain_lines_def)
  show ?thesis
    using None assms(5) emitted_conflict [OF assms(1,2,3) lines(1,2,3)]
      emitted_conflict [of "options\<lparr>mo_style := Style_Merge\<rparr>", OF _ _ assms(3) lines(1,2,4)] assms(1,2)
    by (cases "has_base p") (simp_all add: render_block_def render_plan_conflict_def Let_def)
next
  case (Some sel)
  let ?ls = "concat (map (block_source_lines p b) (sources sel))"
  have "plain_lines ?ls"
    using block_lines_plain [OF assms(4)] by (auto simp: plain_lines_def)
  then have "adds_conflicts (map (\<lambda>l. l @ mp_line_ending p) ?ls) 0"
    by (rule adds_written) (rule assms(3))
  then show ?thesis
    using Some assms(5) concat_join_lines [of "mp_line_ending p" "block_source_lines p b" "sources sel"]
    by (intro exI [of _ "map (\<lambda>l. l @ mp_line_ending p) ?ls"]) (simp add: render_block_def join_lines_pieces)
qed

lemma concat_map_concat: "concat (concat (map f xs)) = concat (map (\<lambda>x. concat (f x)) xs)"
  by (induction xs) simp_all

lemma raw_output_pieces:
  assumes "7 \<le> mo_marker_size options" "labels_single (mo_labels options)" "eol_ok (mp_line_ending p)" "inputs_plain p"
    and "\<forall>b\<in>set (mp_blocks p). mb_manual_content b = None"
  shows "\<exists>ps. raw_output p options = concat ps \<and> adds_conflicts ps (mr_conflict_count (render_merge_plan p options))"
proof -
  let ?r = "render_block p options (line_slices_new p)"
  have "\<forall>b. \<exists>ps. b \<in> set (mp_blocks p) \<longrightarrow> fst (?r b) = concat ps \<and> adds_conflicts ps (snd (?r b))"
    using rendered_block_pieces [OF assms(1-4)] assms(5) by blast
  then obtain f where f: "\<And>b. b \<in> set (mp_blocks p) \<Longrightarrow> fst (?r b) = concat (f b) \<and> adds_conflicts (f b) (snd (?r b))"
    by metis
  have "raw_output p options = concat (map (\<lambda>b. concat (f b)) (mp_blocks p))"
    unfolding raw_output_def using f by (metis (no_types, lifting) map_cong)
  then have "raw_output p options = concat (concat (map f (mp_blocks p)))"
    by (simp add: concat_map_concat)
  moreover have "adds_conflicts (concat (map f (mp_blocks p))) (sum_list (map (\<lambda>b. snd (?r b)) (mp_blocks p)))"
    by (rule adds_concat) (use f in blast)
  ultimately show ?thesis
    by (auto simp: render_merge_plan_def Let_def o_def)
qed


section \<open>The last line ending\<close>

lemma block_lines_scan: "block_lines opn ls = None \<longleftrightarrow> \<not> scan_found ls True False"
  using scan_found_block [of ls opn] by blast

text \<open>Lines of the same kind are cut in the same way.\<close>

definition same_kind :: "utext \<Rightarrow> utext \<Rightarrow> bool" where
  "same_kind l l' \<longleftrightarrow> (\<forall>m\<in>set markers. starts_with l m = starts_with l' m)"

lemma same_kindD:
  "same_kind l l' \<Longrightarrow> is_open l = is_open l'" "same_kind l l' \<Longrightarrow> is_base l = is_base l'"
  "same_kind l l' \<Longrightarrow> is_separator l = is_separator l'" "same_kind l l' \<Longrightarrow> is_close l = is_close l'"
  by (simp_all add: same_kind_def)

lemma same_kind_all: "list_all2 same_kind ls ls' \<Longrightarrow> (\<And>l l'. same_kind l l' \<Longrightarrow> P l \<Longrightarrow> P l') \<Longrightarrow> \<forall>l\<in>set ls. P l \<Longrightarrow> \<forall>l\<in>set ls'. P l"
  by (induction rule: list_all2_induct) auto

lemma same_kind_scan: "list_all2 same_kind ls ls' \<Longrightarrow> scan_found ls o1 s1 = scan_found ls' o1 s1"
  by (induction arbitrary: o1 s1 rule: list_all2_induct) (auto dest: same_kindD)

lemma same_kind_block:
  assumes "list_all2 same_kind (seg_lines b @ rest) ls'" "block_wf b"
  shows "\<exists>b' rest'. ls' = seg_lines b' @ rest' \<and> block_wf b' \<and> list_all2 same_kind rest rest'"
proof -
  obtain opn os bs sep ts cls where b: "b = Line_Block opn os bs sep ts cls"
    using assms(2) by (cases b) auto
  obtain opn' os' bl' sep' ts' cls' rest' where ls': "ls' = opn' # os' @ bl' @ sep' # ts' @ cls' # rest'"
    and k: "same_kind opn opn'" "list_all2 same_kind os os'" "list_all2 same_kind (base_part bs) bl'" "same_kind sep sep'"
      "list_all2 same_kind ts ts'" "same_kind cls cls'" "list_all2 same_kind rest rest'"
    using assms(1) by (auto simp: b list_all2_append1 list_all2_Cons1)
  have "\<exists>bs'. bl' = base_part bs' \<and> (case bs' of None \<Rightarrow> True | Some (m, ls) \<Rightarrow> is_base m \<and> (\<forall>l\<in>set ls. \<not> is_separator l))"
  proof (cases bs)
    case None
    then show ?thesis
      using k(3) by (intro exI [of _ None]) simp
  next
    case (Some mb)
    then obtain m ls where "bs = Some (m, ls)" "is_base m" "\<forall>l\<in>set ls. \<not> is_separator l"
      using assms(2) b by (cases mb) auto
    moreover from this obtain m' ls2 where "bl' = m' # ls2" "same_kind m m'" "list_all2 same_kind ls ls2"
      using k(3) by (auto simp: list_all2_Cons1)
    ultimately show ?thesis
      using same_kind_all [of ls ls2 "\<lambda>l. \<not> is_separator l"] same_kindD
      by (intro exI [of _ "Some (m', ls2)"]) auto
  qed
  then obtain bs' where bs': "bl' = base_part bs'" "case bs' of None \<Rightarrow> True | Some (m, ls) \<Rightarrow> is_base m \<and> (\<forall>l\<in>set ls. \<not> is_separator l)"
    by blast
  have "\<forall>l\<in>set os'. \<not> is_separator l \<and> \<not> is_base l" "\<forall>l\<in>set ts'. \<not> is_close l"
  proof -
    show "\<forall>l\<in>set os'. \<not> is_separator l \<and> \<not> is_base l"
      by (rule same_kind_all [OF k(2)]) (use assms(2) b in \<open>auto dest: same_kindD\<close>)
    show "\<forall>l\<in>set ts'. \<not> is_close l"
      by (rule same_kind_all [OF k(5)]) (use assms(2) b in \<open>auto dest: same_kindD\<close>)
  qed
  then have "block_wf (Line_Block opn' os' bs' sep' ts' cls')"
    using assms(2) b bs'(2) same_kindD(1) [OF k(1)] same_kindD(3) [OF k(4)] same_kindD(4) [OF k(6)] by simp
  then show ?thesis
    using ls' bs'(1) k(7) by (intro exI [of _ "Line_Block opn' os' bs' sep' ts' cls'"] exI [of _ rest']) simp
qed

lemma conflicts_in_same_kind: "list_all2 same_kind ls ls' \<Longrightarrow> conflicts_in ls = conflicts_in ls'"
proof (induction ls arbitrary: ls' rule: line_segments_induct)
  case (context_only ls)
  then have "\<forall>l\<in>set ls'. \<not> is_open l"
    using same_kind_all [of ls ls' "\<lambda>l. \<not> is_open l"] same_kindD(1) by blast
  then show ?case
    using context_only(1) conflicts_in_context [of ls "[]"] conflicts_in_context [of ls' "[]"] by simp
next
  case (broken ctx opn rest)
  obtain ctx' opn' rest' where ls': "ls' = ctx' @ opn' # rest'" "list_all2 same_kind ctx ctx'" "same_kind opn opn'" "list_all2 same_kind rest rest'"
    using broken(4) by (auto simp: list_all2_append1 list_all2_Cons1)
  have "\<forall>l\<in>set ctx'. \<not> is_open l" "is_open opn'" "block_lines opn' rest' = None"
    using broken(1-3) same_kind_all [OF ls'(2), of "\<lambda>l. \<not> is_open l"] same_kindD(1) same_kindD(1) [OF ls'(3)]
      same_kind_scan [OF ls'(4), of True False] by (blast, simp, simp add: block_lines_scan)
  then show ?case
    using broken(1-3) by (simp add: ls'(1) conflicts_in_def line_segments_broken text_lines_def)
next
  case (block ctx b rest)
  obtain ctx' x where x: "ls' = ctx' @ x" "list_all2 same_kind ctx ctx'" "list_all2 same_kind (seg_lines b @ rest) x"
    using block(4) by (auto simp: list_all2_append1)
  obtain b' rest' where b': "x = seg_lines b' @ rest'" "block_wf b'" "list_all2 same_kind rest rest'"
    using same_kind_block [OF x(3) block(2)] by blast
  have "\<forall>l\<in>set ctx'. \<not> is_open l"
    using block(1) same_kind_all [OF x(2), of "\<lambda>l. \<not> is_open l"] same_kindD(1) by blast
  then show ?case
    using block.IH [OF b'(3)] block(1,2) b'(2) by (simp add: x(1) b'(1) conflicts_in_context conflicts_in_block)
qed

text \<open>A line that is not a closing marker adds nothing at the end.\<close>

lemma scan_found_snoc: "\<not> is_close l \<Longrightarrow> scan_found (ls @ [l]) o1 s1 = scan_found ls o1 s1"
  by (induction ls arbitrary: o1 s1) auto

lemma conflicts_in_snoc: "\<not> is_markerish l \<Longrightarrow> conflicts_in (ls @ [l]) = conflicts_in ls"
proof (induction ls rule: line_segments_induct)
  case (context_only ls)
  then show ?case
    using conflicts_in_context [of "ls @ [l]" "[]"] conflicts_in_context [of ls "[]"] by (simp add: is_markerish_def)
next
  case (broken ctx opn rest)
  then have "block_lines opn (rest @ [l]) = None"
    by (simp add: block_lines_scan scan_found_snoc is_markerish_def)
  then show ?case
    using broken(1-3) by (simp add: conflicts_in_def line_segments_broken text_lines_def)
next
  case (block ctx b rest)
  then show ?case
    by (simp add: conflicts_in_context conflicts_in_block)
qed


lemma full_pieces: "full_lines ps \<Longrightarrow> pieces ps"
  by (auto simp: full_lines_def pieces_def dest: in_set_butlastD)

lemma not_markerish_ending: "set d \<subseteq> {LF, CR} \<Longrightarrow> \<not> is_markerish d"
  using markerish_ending [of d "[]"] by (auto simp: is_markerish_def marker_defs starts_with_def)

text \<open>Taking the last line ending off does not change the number of blocks.\<close>

lemma conflicts_in_strip:
  assumes "full_lines ps" "concat ps = x @ d" "d = [LF] \<or> d = [CR, LF]"
  shows "conflicts_in (split_inclusive x) = conflicts_in ps"
proof -
  have "ps \<noteq> []"
    using assms(2,3) by auto
  then obtain qs y where ps: "ps = qs @ [y]"
    by (metis rev_exhaust)
  have y: "y \<noteq> []" "LF \<notin> set (butlast y)" "last y = LF" and qs: "full_lines qs"
    using assms(1) ps by (auto simp: full_lines_def)
  have "\<exists>y'. y = y' @ d"
  proof (cases "d = [LF]")
    case True
    then show ?thesis
      using y(1,3) append_butlast_last_id by metis
  next
    case False
    then have d: "d = [CR, LF]"
      using assms(3) by simp
    then have eq: "concat qs @ butlast y = x @ [CR]"
      using assms(2) ps y append_butlast_last_id [of y] by (metis append_assoc append_eq_Cons_conv butlast_append butlast_snoc
          concat.simps concat_append append_Nil2 append_Cons append_Nil list.discI)
    have "butlast y \<noteq> []"
    proof
      assume "butlast y = []"
      then have c: "concat qs = x @ [CR]"
        using eq by simp
      then have "qs \<noteq> []"
        by auto
      then have "last (concat qs) = LF"
        using qs by (cases qs rule: rev_cases) (auto simp: full_lines_def)
      then show False
        using c by simp
    qed
    then have "last (butlast y) = CR"
      using eq by (metis last_appendR last_snoc)
    then show ?thesis
      using d y \<open>butlast y \<noteq> []\<close> append_butlast_last_id [of y] append_butlast_last_id [of "butlast y"]
      by (intro exI [of _ "butlast (butlast y)"]) (metis append.assoc append_Cons append_Nil)
  qed
  then obtain y' where y': "y = y' @ d"
    by blast
  then have x: "x = concat qs @ y'"
    using assms(2) ps by simp
  have d: "set d \<subseteq> {LF, CR}"
    using assms(3) by auto
  show ?thesis
  proof (cases "y' = []")
    case True
    then show ?thesis
      using x y' ps split_pieces [OF full_pieces [OF qs]] conflicts_in_snoc [OF not_markerish_ending [OF d], of qs] by simp
  next
    case False
    have "LF \<notin> set y'"
      using y(2) y' assms(3) by (auto simp: butlast_append)
    then have "pieces (qs @ [y'])"
      using False qs pieces_full [of "[y']" qs] by (auto simp: pieces_def dest: in_set_butlastD)
    then have "split_inclusive x = qs @ [y']"
      using split_pieces [of "qs @ [y']"] x by simp
    moreover have "list_all2 same_kind (qs @ [y']) (qs @ [y])"
      using d y' by (auto simp: list_all2_append list_all2_refl same_kind_def starts_with_ending intro!: list_all2_appendI)
    ultimately show ?thesis
      using conflicts_in_same_kind ps by metis
  qed
qed

lemma ends_with_cut: "ends_with t s \<Longrightarrow> t = take (length t - length s) t @ s"
  using append_take_drop_id [of "length t - length s" t] by (simp add: ends_with_def)

lemma trailing_decision_strips:
  "\<exists>d. (d = [] \<or> d = [LF] \<or> d = [CR, LF]) \<and> t = apply_trailing_newline_decision t b bls o1 ols t1 tls @ d"
proof (cases "want_trailing t b bls o1 ols t1 tls")
  case True
  then show ?thesis
    by (intro exI [of _ "[]"]) (simp add: apply_trailing_newline_decision_def)
next
  case False
  consider (crlf) "ends_with t [CR, LF]" | (lf) "\<not> ends_with t [CR, LF]" "ends_with t [LF]"
    | (none) "\<not> ends_with t [CR, LF]" "\<not> ends_with t [LF]"
    by blast
  then show ?thesis
  proof cases
    case crlf
    then show ?thesis
      using False ends_with_cut [OF crlf]
      by (intro exI [of _ "[CR, LF]"]) (simp add: apply_trailing_newline_decision_def numeral_2_eq_2)
  next
    case lf
    then show ?thesis
      using False ends_with_cut [OF lf(2)]
      by (intro exI [of _ "[LF]"]) (simp add: apply_trailing_newline_decision_def del: ends_with_singleton)
  next
    case none
    then show ?thesis
      using False by (intro exI [of _ "[]"]) (simp add: apply_trailing_newline_decision_def del: ends_with_singleton)
  qed
qed


lemma fresh_blocks_automatic:
  assumes "build_merge_plan_with_optional_base base local remote options = Some p"
  shows "\<forall>b\<in>set (mp_blocks p). mb_manual_content b = None"
  using assms build_blocks_decision(1)
  by (fastforce simp: build_merge_plan_with_optional_base_def build_merge_plan_with_alignments_def Let_def split: option.splits)

lemma source_lines_of:
  "plain_lines (lines (mp_local p)) \<Longrightarrow> plain_lines (lines (mp_remote p)) \<Longrightarrow>
    (\<And>b. mp_base p = Some b \<Longrightarrow> plain_lines (lines b)) \<Longrightarrow> inputs_plain p"
  unfolding inputs_plain_def
proof
  fix s
  assume "plain_lines (lines (mp_local p))" "plain_lines (lines (mp_remote p))"
    "\<And>b. mp_base p = Some b \<Longrightarrow> plain_lines (lines b)"
  then show "plain_lines (source_lines p s)"
    by (cases s) (auto simp: source_lines_def has_base_def plain_lines_def split: option.splits)
qed

lemma rendered_conflict_blocks:
  assumes "inputs_plain p" "eol_ok (mp_line_ending p)" "\<forall>b\<in>set (mp_blocks p). mb_manual_content b = None"
    and "7 \<le> mo_marker_size options" and "labels_single (mo_labels options)" and "r = render_merge_plan p options"
  shows "length (conflict_blocks (mr_output r)) = mr_conflict_count r"
proof -
  obtain ps where ps: "raw_output p options = concat ps" "adds_conflicts ps (mr_conflict_count r)"
    using raw_output_pieces [OF assms(4,5,2,1,3)] assms(6) by blast
  then have full: "full_lines ps" and count: "conflicts_in ps = mr_conflict_count r"
    using conflicts_in_context [of "[]" "[]"] by (auto simp: adds_conflicts_def conflicts_in_def line_segments_context text_lines_def
        dest: spec [of _ "[]"])
  have "\<not> final_block_is_manual p"
    using assms(3) by (cases "mp_blocks p = []") (simp_all add: final_block_is_manual_def)
  then obtain d where d: "d = [] \<or> d = [LF] \<or> d = [CR, LF]" "concat ps = mr_output r @ d"
    using trailing_decision_strips render_output [of p options] ps(1) assms(6) by metis
  have "conflicts_in (split_inclusive (mr_output r)) = mr_conflict_count r"
  proof (cases "d = []")
    case True
    then show ?thesis
      using d(2) count split_pieces [OF full_pieces [OF full]] by simp
  next
    case False
    then show ?thesis
      using conflicts_in_strip [OF full d(2)] d(1) count by auto
  qed
  then show ?thesis
    by (simp add: length_conflict_blocks conflicts_in_def)
qed

lemma markers_iff_blocks: "text_has_conflict_markers t \<longleftrightarrow> conflict_blocks t \<noteq> []"
proof -
  have "filter_map conflict_range rs = [] \<longleftrightarrow> (\<forall>s\<in>set rs. \<not> is_conflict_range s)" for rs
  proof (induction rs)
    case (Cons r rs)
    then show ?case
      by (cases r) auto
  qed simp
  then show ?thesis
    by (auto simp: text_has_conflict_markers_def conflict_blocks_def)
qed

text \<open>The planner's inputs give a plan of that kind.\<close>

definition inputs_unmarked :: "utext option \<Rightarrow> utext \<Rightarrow> utext \<Rightarrow> bool" where
  "inputs_unmarked base ours theirs \<longleftrightarrow>
     (\<forall>l\<in>set (lines ours @ lines theirs @ (case base of Some b \<Rightarrow> lines b | None \<Rightarrow> [])). \<not> is_markerish l)"

lemma built_inputs_plain:
  assumes "build_merge_plan_with_optional_base base ours theirs options = Some p" "inputs_unmarked base ours theirs"
  shows "inputs_plain p" "eol_ok (mp_line_ending p)"
proof -
  note built = built_plan [OF assms(1)]
  show "eol_ok (mp_line_ending p)"
    by (simp add: built(6))
  show "inputs_plain p"
    by (rule source_lines_of) (use assms(2) built(3-5) lines_no_LF in \<open>auto simp: plain_lines_def inputs_unmarked_def\<close>)
qed

section \<open>Properties\<close>

text \<open>C6: The parser finds the conflicts the merge reports. When no line of an input begins like a conflict
  marker, the marker width is at least git's seven and the labels are single lines, the merged text in
  any conflict style parses to exactly as many conflict blocks as the merge counted; so the text still
  holds markers exactly when the merge is not clean.\<close>

theorem merged_conflicts_are_parsed:
  assumes "merge_file_with_optional_base base ours theirs options = Some r"
    and "\<forall>l\<in>set (lines ours @ lines theirs @ (case base of Some b \<Rightarrow> lines b | None \<Rightarrow> [])). \<not> is_markerish l"
    and "7 \<le> mo_marker_size options" and "labels_single (mo_labels options)"
  shows "length (conflict_blocks (mr_output r)) = mr_conflict_count r \<and>
    (text_has_conflict_markers (mr_output r) \<longleftrightarrow> \<not> is_clean r)"
proof -
  obtain p where p: "build_merge_plan_with_optional_base base ours theirs options = Some p" "r = render_merge_plan p options"
    using assms(1) by (auto simp: merge_file_with_optional_base_def)
  have "inputs_unmarked base ours theirs"
    using assms(2) by (simp add: inputs_unmarked_def)
  from rendered_conflict_blocks [OF built_inputs_plain [OF p(1) this] fresh_blocks_automatic [OF p(1)] assms(3,4) p(2)]
  show ?thesis
    using length_0_conv [of "conflict_blocks (mr_output r)"] by (simp add: is_clean_def markers_iff_blocks)
qed

theorem merged_conflicts_are_parsed_witness:
  "\<exists>r. merge_file_with_optional_base (Some (str ''a'')) (str ''b'') (str ''c'') default_options = Some r \<and>
    length (conflict_blocks (mr_output r)) = mr_conflict_count r"
proof -
  obtain r where r: "merge_file_with_optional_base (Some (str ''a'')) (str ''b'') (str ''c'') default_options = Some r"
    using plan_exists [of "Some (str ''a'')" "str ''b''" "str ''c''" default_options]
    by (auto simp: merge_file_with_optional_base_def)
  have "\<forall>l\<in>set (lines (str ''b'') @ lines (str ''c'') @ (case Some (str ''a'') of Some b \<Rightarrow> lines b | None \<Rightarrow> [])). \<not> is_markerish l"
    by (simp add: lines_def strip_line_end_def is_markerish_def marker_defs starts_with_def)
  moreover have "7 \<le> mo_marker_size default_options" "labels_single (mo_labels default_options)"
    by (simp_all add: default_options_def default_marker_size_def labels_single_def)
  ultimately show ?thesis
    using merged_conflicts_are_parsed [OF r] r by (intro exI [of _ r] conjI) simp_all
qed

end
