(* ===== verification/Session_Props.thy ===== *)
theory Session_Props
  imports Session_Facts Marker_Output
begin

text \<open>
  The properties of conflict sessions: a fresh session shows one region per open block of its plan,
  every operation keeps regions and blocks in step, the counters and the staging gate agree with that,
  moving to the next conflict reaches all of them, and the mapping survives a split or a join.
\<close>

section \<open>Fresh sessions\<close>

lemma parsed_regions:
  "length (parse_conflict_regions_from_shared_text t) = length (conflict_blocks t)"
  "r \<in> set (parse_conflict_regions_from_shared_text t) \<Longrightarrow> cr_resolution r = Unresolved"
proof -
  have "length (filter_map (region_of_segment t) rs) = length (filter_map conflict_range rs)" for rs
  proof (induction rs)
    case (Cons r rs)
    then show ?case by (cases r) auto
  qed simp
  then show "length (parse_conflict_regions_from_shared_text t) = length (conflict_blocks t)"
    by (simp add: parse_conflict_regions_from_shared_text_def conflict_blocks_def)
  have "region_of_segment t seg = Some r \<Longrightarrow> cr_resolution r = Unresolved" for seg
    by (cases seg) auto
  then show "r \<in> set (parse_conflict_regions_from_shared_text t) \<Longrightarrow> cr_resolution r = Unresolved"
    by (auto simp: parse_conflict_regions_from_shared_text_def set_filter_map)
qed

lemma length_filter_map_total: "(\<And>x. x \<in> set xs \<Longrightarrow> f x \<noteq> None) \<Longrightarrow> length (filter_map f xs) = length xs"
proof (induction xs)
  case (Cons x xs)
  then obtain y where "f x = Some y" by fastforce
  with Cons show ?case by simp
qed simp

text \<open>The inputs for which the planner and the marker parser agree on the conflicts.\<close>

definition text_conflict ::
  "file_conflict_kind \<Rightarrow> utext option \<Rightarrow> utext \<Rightarrow> utext \<Rightarrow> merge_options \<Rightarrow> bool" where
  "text_conflict kind base ours theirs options \<longleftrightarrow>
     (kind = BothModified \<or> kind = BothAdded) \<and> interactive_merge_plan_is_practical base ours theirs default_budget \<and>
     inputs_unmarked base ours theirs \<and> 7 \<le> mo_marker_size options \<and> labels_single (mo_labels options) \<and>
     mo_strategy options = Strategy_Normal"

definition base_payload :: "utext option \<Rightarrow> conflict_payload" where
  "base_payload base = (case base of Some b \<Rightarrow> Payload_Text b | None \<Rightarrow> Payload_Absent)"

lemma fresh_session:
  assumes "text_conflict kind base ours theirs options"
  obtains s p where
    "from_stage_merge_plan_with_current path kind (base_payload base) (Payload_Text ours) (Payload_Text theirs) current options
      = Returns s"
    "build_merge_plan_with_optional_base base ours theirs options = Some p" "cs_merge_plan s = Some p"
    "cs_region_plan_blocks s = mp_unresolved_blocks p" "length (cs_regions s) = length (mp_unresolved_blocks p)"
    "\<forall>r\<in>set (cs_regions s). cr_resolution r = Unresolved" "cs_strategy s = FullTextResolver"
    "cs_region_source_ranges s = plan_source_ranges p"
proof -
  obtain p where p: "build_merge_plan_with_optional_base base ours theirs options = Some p"
    using plan_exists by blast
  let ?options = "marker_options p options"
  let ?t = "mr_output (render_merge_plan p ?options)"
  define n where "n = new_with_optional_current path kind (base_payload base) (Payload_Text ours) (Payload_Text theirs) current"
  have strategy: "cs_strategy n = FullTextResolver"
    using assms by (cases base) (auto simp: n_def text_conflict_def new_with_optional_current_def for_conflict_def
        base_payload_def Let_def)
  have stage: "cs_ours n = Payload_Text ours" "cs_theirs n = Payload_Text theirs" "cs_base n = base_payload base"
    "cs_manual_alignments n = alignments_new" "\<not> payload_is_binary (base_payload base)"
    "payload_as_text (base_payload base) = base"
    by (simp_all add: n_def new_with_optional_current_def Let_def base_payload_def split: option.splits)
  have "try_build_interactive_merge_plan_with_alignments base ours theirs options default_budget alignments_new = Some (Some p)"
    using assms p by (simp add: text_conflict_def try_build_interactive_merge_plan_with_alignments_def
        build_merge_plan_with_optional_base_def)
  then have s: "rebuild_merge_plan n options = Returns (install_plan n base ours theirs options (Some p))"
    by (simp add: rebuild_merge_plan_def strategy stage)
  have "length (conflict_blocks ?t) = mr_conflict_count (render_merge_plan p ?options)"
    using assms by (intro rendered_conflict_blocks [OF built_inputs_plain [OF p] fresh_blocks_automatic [OF p]])
      (simp_all add: text_conflict_def marker_options_def)
  also have "\<dots> = length (mp_unresolved_blocks p)"
    using assms built_plan(1) [OF p]
    by (simp add: render_count text_conflict_def marker_options_def plan_ok_def length_indices_where)
  finally have len: "length (parse_conflict_regions_from_shared_text ?t) = length (mp_unresolved_blocks p)"
    by (simp add: parsed_regions(1))
  let ?s = "install_plan n base ours theirs options (Some p)"
  have inst: "cs_regions ?s = parse_conflict_regions_from_shared_text ?t"
    "cs_merge_plan ?s = Some p" "cs_region_plan_blocks ?s = mp_unresolved_blocks p" "cs_strategy ?s = FullTextResolver"
    "cs_region_source_ranges ?s = plan_source_ranges p"
    by (simp_all add: install_plan_def Let_def parse_regions_from_shared_text_def strategy synthetic_region_for_strategy_def)
  show thesis
  proof (rule that)
    show "from_stage_merge_plan_with_current path kind (base_payload base) (Payload_Text ours) (Payload_Text theirs) current
        options = Returns ?s"
      using s by (simp add: from_stage_merge_plan_with_current_def n_def)
  qed (use p inst len parsed_regions(2) in auto)
qed

lemma fresh_in_step:
  assumes "build_merge_plan_with_optional_base base ours theirs options = Some p" "cs_merge_plan s = Some p"
    "cs_region_plan_blocks s = mp_unresolved_blocks p" "length (cs_regions s) = length (mp_unresolved_blocks p)"
    "\<forall>r\<in>set (cs_regions s). cr_resolution r = Unresolved"
  shows "in_step s"
proof (rule in_stepI [OF assms(2)])
  note ok = built_plan(1) [OF assms(1)] and auto = fresh_blocks_automatic [OF assms(1)]
  show "plan_wf p"
    using ok auto by (simp add: plan_wf_def list_all_iff)
  have idx: "mp_unresolved_blocks p = indices_where (\<lambda>b. \<not> block_is_resolved b) (mp_blocks p)"
    using ok by (simp add: plan_ok_def)
  show "mapping_ok (cs_region_plan_blocks s) (length (cs_regions s)) (length (mp_blocks p))"
    using assms(3,4) idx sorted_indices_where [of "\<lambda>b. \<not> block_is_resolved b" "mp_blocks p"]
      distinct_indices_where [of "\<lambda>b. \<not> block_is_resolved b" "mp_blocks p"]
    by (auto simp: mapping_ok_def strict_sorted_iff set_indices_where)
  fix k
  assume k: "k < length (cs_regions s)"
  then have "mp_unresolved_blocks p ! k \<in> set (mp_unresolved_blocks p)"
    using assms(4) by simp
  then have "\<not> block_is_resolved (mp_blocks p ! (cs_region_plan_blocks s ! k))"
    by (simp add: assms(3) idx set_indices_where)
  then show "region_decision (has_base p) (cr_resolution (cs_regions s ! k))
      = Some (block_decision (mp_blocks p ! (cs_region_plan_blocks s ! k)))"
    using assms(5) k by (simp add: block_is_resolved_def block_decision_def selection_is_empty_iff)
qed

section \<open>Counters\<close>

lemma unsolved_open:
  "\<not> has_implicit_binary_conflict s \<Longrightarrow> unsolved_count s = length (filter (\<lambda>r. \<not> region_resolved r) (cs_regions s))"
  using sum_length_filter_compl [of region_resolved "cs_regions s"]
  by (simp add: unsolved_count_def total_regions_def solved_count_def)

lemma in_step_resolved:
  assumes "in_step s" "cs_merge_plan s = Some p" "k < length (cs_regions s)"
  shows "region_resolved (cs_regions s ! k) \<longleftrightarrow> block_is_resolved (mp_blocks p ! (cs_region_plan_blocks s ! k))"
  using decided_region [OF in_step_plan(3) [OF assms]] by (simp add: decided_block)

lemma in_step_open_blocks:
  assumes "in_step s" "cs_merge_plan s = Some p" "\<not> has_implicit_binary_conflict s"
  shows "unsolved_count s = length (filter (\<lambda>i. i \<in> set (cs_region_plan_blocks s)) (mp_unresolved_blocks p))"
proof -
  note p = in_step_plan [OF assms(1,2)]
  let ?m = "cs_region_plan_blocks s" and ?open = "\<lambda>i. \<not> block_is_resolved (mp_blocks p ! i)"
  have len: "length ?m = length (cs_regions s)"
    using p(2) by (simp add: mapping_ok_def)
  have "{k. k < length (cs_regions s) \<and> \<not> region_resolved (cs_regions s ! k)} = {k. k < length ?m \<and> ?open (?m ! k)}"
    using in_step_resolved [OF assms(1,2)] len by auto
  then have "unsolved_count s = length (filter ?open ?m)"
    unfolding unsolved_open [OF assms(3)] length_filter_conv_card by simp
  moreover have "set (filter ?open ?m) = set (filter (\<lambda>i. i \<in> set ?m) (mp_unresolved_blocks p))"
    using p(1,2) by (auto simp: plan_wf_def plan_ok_def set_indices_where mapping_ok_def)
  moreover have "distinct (filter ?open ?m)" "distinct (mp_unresolved_blocks p)"
    using p(1,2) strict_sorted_iff [of ?m] distinct_indices_where by (auto simp: plan_wf_def plan_ok_def mapping_ok_def)
  ultimately show ?thesis
    using distinct_card [of "filter ?open ?m"] distinct_card [of "filter (\<lambda>i. i \<in> set ?m) (mp_unresolved_blocks p)"]
    by simp
qed

section \<open>Moving between conflicts\<close>

lemma find_first:
  "find P (map f [1..<n + 1]) = Some x \<longleftrightarrow> (\<exists>d<n. f (1 + d) = x \<and> P x \<and> (\<forall>e<d. \<not> P (f (1 + e))))"
proof -
  define xs where "xs = map f [1..<n + 1]"
  have "length xs = n" "\<And>d. d < n \<Longrightarrow> xs ! d = f (1 + d)"
    by (simp_all add: xs_def nth_map_upt del: upt_Suc)
  then show ?thesis
    unfolding xs_def [symmetric] find_Some_iff by auto
qed

text \<open>The first unresolved region of a search through the regions in some order of all their indices.\<close>

abbreviation unresolved_at :: "conflict_session \<Rightarrow> nat \<Rightarrow> bool" where
  "unresolved_at s i \<equiv> i < length (cs_regions s) \<and> \<not> region_resolved (cs_regions s ! i)"

lemma wrap_surj:
  assumes "j < (n :: nat)"
  shows "\<exists>d. 1 \<le> d \<and> d \<le> n \<and> (c + d) mod n = j"
proof -
  define d where "d = (j + (n - c mod n) - 1) mod n + 1"
  have n: "0 < n" using assms by simp
  have "(c + d) mod n = (c mod n + d) mod n"
    by (rule mod_add_left_eq [symmetric])
  also have "\<dots> = (c mod n + (j + (n - c mod n) - 1) mod n + 1) mod n"
    by (simp add: d_def)
  also have "\<dots> = (c mod n + (j + (n - c mod n) - 1) + 1) mod n"
    by (metis mod_add_left_eq mod_add_right_eq)
  also have "c mod n + (j + (n - c mod n) - 1) + 1 = j + n"
    using mod_less_divisor [OF n, of c] by simp
  finally have "(c + d) mod n = j" using assms by simp
  moreover have "1 \<le> d" "d \<le> n" using n mod_less_divisor [OF n] by (simp_all add: d_def Suc_le_eq)
  ultimately show ?thesis by blast
qed

lemma next_unresolved_Some:
  "next_unresolved_after s c = Some i \<longleftrightarrow>
    (\<exists>d. 1 \<le> d \<and> d \<le> length (cs_regions s) \<and> i = (c + d) mod length (cs_regions s) \<and> unresolved_at s i \<and>
      (\<forall>e. 1 \<le> e \<and> e < d \<longrightarrow> \<not> unresolved_at s ((c + e) mod length (cs_regions s))))"
proof (cases "length (cs_regions s) = 0")
  case True
  then show ?thesis by (simp add: next_unresolved_after_def)
next
  case False
  let ?n = "length (cs_regions s)"
  have "next_unresolved_after s c = Some i \<longleftrightarrow>
      (\<exists>d<?n. (c + (1 + d)) mod ?n = i \<and> \<not> region_resolved (cs_regions s ! i) \<and>
        (\<forall>e<d. region_resolved (cs_regions s ! ((c + (1 + e)) mod ?n))))"
    unfolding next_unresolved_after_def Let_def if_not_P [OF False] find_first by simp
  also have "\<dots> \<longleftrightarrow> (\<exists>d. 1 \<le> d \<and> d \<le> ?n \<and> i = (c + d) mod ?n \<and> unresolved_at s i \<and>
      (\<forall>e. 1 \<le> e \<and> e < d \<longrightarrow> \<not> unresolved_at s ((c + e) mod ?n)))" (is "?l \<longleftrightarrow> ?r")
  proof
    assume ?l
    then obtain d where d: "d < ?n" "(c + (1 + d)) mod ?n = i" "\<not> region_resolved (cs_regions s ! i)"
      "\<forall>e<d. region_resolved (cs_regions s ! ((c + (1 + e)) mod ?n))" by blast
    have "region_resolved (cs_regions s ! ((c + e) mod ?n))" if "1 \<le> e" "e < 1 + d" for e
      using d(4) [rule_format, of "e - 1"] that by simp
    then show ?r
      using d False by (intro exI [of _ "1 + d"]) auto
  next
    assume ?r
    then obtain d where d: "1 \<le> d" "d \<le> ?n" "i = (c + d) mod ?n" "unresolved_at s i"
      "\<forall>e. 1 \<le> e \<and> e < d \<longrightarrow> \<not> unresolved_at s ((c + e) mod ?n)" by blast
    have "region_resolved (cs_regions s ! ((c + (1 + e)) mod ?n))" if "e < d - 1" for e
      using d(5) [rule_format, of "1 + e"] that False by simp
    then show ?l
      using d by (intro exI [of _ "d - 1"]) auto
  qed
  finally show ?thesis .
qed

lemma next_indices: "0 < n \<Longrightarrow> set (map (\<lambda>offset. (c + offset) mod n) [1..<n + 1]) = {..<n}"
proof
  assume n: "0 < n"
  show "{..<n} \<subseteq> set (map (\<lambda>offset. (c + offset) mod n) [1..<n + 1])"
  proof
    fix j
    assume "j \<in> {..<n}"
    then obtain d where "1 \<le> d" "d \<le> n" "(c + d) mod n = j"
      using wrap_surj [of j n c] by auto
    then show "j \<in> set (map (\<lambda>offset. (c + offset) mod n) [1..<n + 1])"
      by (auto simp del: upt_Suc)
  qed
qed auto

lemma prev_indices: "0 < n \<Longrightarrow> set (map (\<lambda>offset. (c + n - offset) mod n) [1..<n + 1]) = {..<n}"
proof
  assume n: "0 < n"
  show "{..<n} \<subseteq> set (map (\<lambda>offset. (c + n - offset) mod n) [1..<n + 1])"
  proof
    fix j
    assume "j \<in> {..<n}"
    then obtain d where d: "1 \<le> d" "d \<le> n" "(c + d) mod n = j"
      using wrap_surj [of j n c] by auto
    define offset where "offset = (if d = n then n else n - d)"
    have "(c + n - offset) mod n = j" "1 \<le> offset" "offset \<le> n"
      using d by (auto simp: offset_def)
    then show "j \<in> set (map (\<lambda>offset. (c + n - offset) mod n) [1..<n + 1])"
      by (auto simp del: upt_Suc intro!: image_eqI [of _ _ offset])
  qed
qed auto

lemma search_None:
  "set xs = {..<length rs} \<Longrightarrow> find (\<lambda>i. \<not> region_resolved (rs ! i)) xs = None \<longleftrightarrow>
    (\<forall>i<length rs. region_resolved (rs ! i))"
  by (auto simp: find_None_iff)

lemma next_unresolved_None: "next_unresolved_after s c = None \<longleftrightarrow> (\<forall>i. \<not> unresolved_at s i)"
  and prev_unresolved_None: "prev_unresolved_before s c = None \<longleftrightarrow> (\<forall>i. \<not> unresolved_at s i)"
  using search_None [OF next_indices] search_None [OF prev_indices]
  by (auto simp: next_unresolved_after_def prev_unresolved_before_def Let_def simp del: upt_Suc)

lemma prev_unresolved_Some: "prev_unresolved_before s c = Some i \<Longrightarrow> unresolved_at s i"
  by (auto simp: prev_unresolved_before_def Let_def find_Some_iff split: if_splits simp del: upt_Suc)

text \<open>From region \<open>c\<close>, moving on again and again comes to any unresolved region.\<close>

lemma next_unresolved_reaches:
  assumes "unresolved_at s j" "1 \<le> d" "d \<le> length (cs_regions s)" "(c + d) mod length (cs_regions s) = j"
  shows "\<exists>n>0. ((\<lambda>c. the (next_unresolved_after s c)) ^^ n) c = j"
  using assms(2-4)
proof (induction d arbitrary: c rule: less_induct)
  case (less d)
  let ?n = "length (cs_regions s)" and ?next = "\<lambda>c. the (next_unresolved_after s c)"
  obtain i where i: "next_unresolved_after s c = Some i"
    using next_unresolved_None assms(1) by blast
  then obtain d' where d': "1 \<le> d'" "d' \<le> ?n" "i = (c + d') mod ?n"
    "\<forall>e. 1 \<le> e \<and> e < d' \<longrightarrow> \<not> unresolved_at s ((c + e) mod ?n)"
    unfolding next_unresolved_Some by blast
  have "d' \<le> d"
    using d'(4) less.prems assms(1) by (meson not_le)
  then consider "d' = d" | "d' < d" by linarith
  then show ?case
  proof cases
    case 1
    then show ?thesis
      using i d'(3) less.prems by (intro exI [of _ 1]) simp
  next
    case 2
    have "(i + (d - d')) mod ?n = (c + d' + (d - d')) mod ?n"
      unfolding d'(3) by (rule mod_add_left_eq)
    then have "(i + (d - d')) mod ?n = j"
      using 2 less.prems(3) by simp
    moreover have "d - d' < d" "1 \<le> d - d'" "d - d' \<le> ?n"
      using 2 d'(1) less.prems(2) by simp_all
    ultimately obtain m where "m > 0" "(?next ^^ m) i = j"
      using less.IH by blast
    then show ?thesis
      using i by (intro exI [of _ "Suc m"]) (simp add: funpow_Suc_right del: funpow.simps)
  qed
qed

text \<open>The inputs of the witnesses.\<close>

lemma example_conflict: "text_conflict BothModified (Some (str ''a'')) (str ''b'') (str ''c'') default_options"
proof -
  have "inputs_unmarked (Some (str ''a'')) (str ''b'') (str ''c'')"
    by (simp add: inputs_unmarked_def lines_def strip_line_end_def is_markerish_def marker_defs starts_with_def)
  moreover have "length (split_inclusive (str ''a'')) = 1" "length (split_inclusive (str ''b'')) = 1"
    "length (split_inclusive (str ''c'')) = 1"
    unfolding split_inclusive_length by code_simp+
  then have "interactive_merge_plan_is_practical (Some (str ''a'')) (str ''b'') (str ''c'') default_budget"
    unfolding interactive_merge_plan_is_practical_def Let_def option.case length_lines
    by (simp add: default_budget_def sat_add_def min_def)
  moreover have "7 \<le> mo_marker_size default_options" "labels_single (mo_labels default_options)"
    "mo_strategy default_options = Strategy_Normal"
    by (simp_all add: default_options_def default_marker_size_def labels_single_def)
  ultimately show ?thesis
    by (simp add: text_conflict_def)
qed

section \<open>Properties\<close>

text \<open>C8: a fresh text session shows its conflicts. When no input line looks like a marker, the budget allows a
  plan and the strategy is the normal one, the session is built without a panic from the same plan as the
  merge, its regions are as many as the open blocks of that plan, all unresolved and each with its source
  ranges, and so the counters and the staging gate say exactly whether the merge is clean.\<close>

theorem fresh_sessions_show_every_conflict:
  assumes "text_conflict kind base ours theirs options"
  shows "\<exists>s p. from_stage_merge_plan_with_current path kind (base_payload base) (Payload_Text ours) (Payload_Text theirs)
      current options = Returns s \<and>
    build_merge_plan_with_optional_base base ours theirs options = Some p \<and> cs_merge_plan s = Some p \<and>
    total_regions s = unresolved_count p \<and> unsolved_count s = total_regions s \<and>
    length (cs_region_source_ranges s) = total_regions s \<and> (is_fully_resolved s \<longleftrightarrow> cs_regions s = []) \<and>
    (has_unresolved_markers s \<longleftrightarrow> \<not> is_clean (render_merge_plan p options))"
proof -
  obtain s p where s: "from_stage_merge_plan_with_current path kind (base_payload base) (Payload_Text ours)
      (Payload_Text theirs) current options = Returns s"
    and p: "build_merge_plan_with_optional_base base ours theirs options = Some p" "cs_merge_plan s = Some p"
      "cs_region_plan_blocks s = mp_unresolved_blocks p" "length (cs_regions s) = length (mp_unresolved_blocks p)"
      "\<forall>r\<in>set (cs_regions s). cr_resolution r = Unresolved" "cs_strategy s = FullTextResolver"
      "cs_region_source_ranges s = plan_source_ranges p"
    by (rule fresh_session [where path = path and current = current, OF assms])
  have nb: "\<not> has_implicit_binary_conflict s"
    by (simp add: has_implicit_binary_conflict_def p(6))
  have total: "total_regions s = unresolved_count p"
    using nb p(4) by (simp add: total_regions_def unresolved_count_def)
  have "filter (\<lambda>r. \<not> region_resolved r) (cs_regions s) = cs_regions s"
    using p(5) by (simp add: filter_id_conv)
  then have unsolved: "unsolved_count s = total_regions s"
    using unsolved_open [OF nb] nb by (simp add: total_regions_def)
  have idx: "mp_unresolved_blocks p = indices_where (\<lambda>b. \<not> block_is_resolved b) (mp_blocks p)"
    using built_plan(1) [OF p(1)] by (simp add: plan_ok_def)
  have ranges: "length (plan_source_ranges p) = length (mp_unresolved_blocks p)"
    unfolding plan_source_ranges_def idx by (rule length_filter_map_total) (simp add: set_indices_where nth_opt_def)
  have clean: "is_clean (render_merge_plan p options) \<longleftrightarrow> unresolved_count p = 0"
    using assms by (simp add: is_clean_def render_count text_conflict_def unresolved_count_def idx length_indices_where)
  have "mp_unresolved_blocks p = [] \<longleftrightarrow> cs_regions s = []"
    using p(4) by (metis length_0_conv)
  then show ?thesis
    using s p nb total unsolved ranges clean
    by (intro exI [of _ s] exI [of _ p])
      (simp add: is_fully_resolved_def has_unresolved_markers_def total_regions_def unresolved_count_def)
qed

theorem fresh_sessions_show_every_conflict_witness:
  "\<exists>s. from_stage_merge_plan_with_current (str ''f'') BothModified (base_payload (Some (str ''a''))) (Payload_Text (str ''b''))
      (Payload_Text (str ''c'')) None default_options = Returns s \<and> unsolved_count s = total_regions s"
  using fresh_sessions_show_every_conflict [OF example_conflict] by blast

text \<open>C7: sessions stay in step. However the user selects, toggles, chooses in bulk or runs the automatic passes with
  the synchronisation that follows them (\<open>session_step\<close>; splitting, joining and re-aligning, which rebuild the
  regions, are not among these steps), every region of a text session (\<open>text_conflict\<close>) carries the decision of the plan block it shows, so a region is resolved
  exactly when its block is; the number of unsolved regions is the number of open blocks that have a
  region, and a session that counts as fully resolved has no unsolved region.\<close>

theorem sessions_stay_in_step:
  assumes "text_conflict kind base ours theirs options"
    and "from_stage_merge_plan_with_current path kind (base_payload base) (Payload_Text ours) (Payload_Text theirs)
      current options = Returns s"
    and "session_reachable s t"
  shows "\<exists>p. cs_merge_plan t = Some p \<and> plan_ok p \<and>
    (\<forall>k<length (cs_regions t). region_decision (has_base p) (cr_resolution (cs_regions t ! k))
       = Some (block_decision (mp_blocks p ! (cs_region_plan_blocks t ! k))) \<and>
      (region_resolved (cs_regions t ! k) \<longleftrightarrow> block_is_resolved (mp_blocks p ! (cs_region_plan_blocks t ! k)))) \<and>
    unsolved_count t = length (filter (\<lambda>i. i \<in> set (cs_region_plan_blocks t)) (mp_unresolved_blocks p)) \<and>
    (is_fully_resolved t \<longrightarrow> unsolved_count t = 0)"
proof -
  obtain s' p where s': "from_stage_merge_plan_with_current path kind (base_payload base) (Payload_Text ours)
      (Payload_Text theirs) current options = Returns s'"
    and p: "build_merge_plan_with_optional_base base ours theirs options = Some p" "cs_merge_plan s' = Some p"
      "cs_region_plan_blocks s' = mp_unresolved_blocks p" "length (cs_regions s') = length (mp_unresolved_blocks p)"
      "\<forall>r\<in>set (cs_regions s'). cr_resolution r = Unresolved" "cs_strategy s' = FullTextResolver"
      "cs_region_source_ranges s' = plan_source_ranges p"
    by (rule fresh_session [where path = path and current = current, OF assms(1)])
  have "s' = s" using s' assms(2) by simp
  then have step: "in_step t" and shape: "same_shape s t"
    using session_reachable_in_step [OF assms(3)] session_reachable_shape [OF assms(3)] fresh_in_step [OF p(1-5)]
    by simp_all
  obtain q where q: "cs_merge_plan t = Some q"
    using shape p(2) \<open>s' = s\<close> by (auto simp: same_shape_def)
  have nb: "\<not> has_implicit_binary_conflict t"
    using shape p(6) \<open>s' = s\<close> by (simp add: same_shape_def has_implicit_binary_conflict_def)
  note c = in_step_plan [OF step q] and u = in_step_open_blocks [OF step q nb] and r = in_step_resolved [OF step q]
  have "is_fully_resolved t \<Longrightarrow> unsolved_count t = 0"
    using u q by (simp add: is_fully_resolved_def unresolved_count_def)
  then show ?thesis
    using c u r q by (auto simp: plan_wf_def)
qed

theorem sessions_stay_in_step_witness:
  "\<exists>s p. from_stage_merge_plan_with_current (str ''f'') BothModified (base_payload (Some (str ''a''))) (Payload_Text (str ''b''))
      (Payload_Text (str ''c'')) None default_options = Returns s \<and>
    session_reachable s (fst (toggle_region_source s 0 B)) \<and>
    cs_merge_plan (fst (toggle_region_source s 0 B)) = Some p \<and> plan_ok p"
proof -
  obtain s p where s: "from_stage_merge_plan_with_current (str ''f'') BothModified (base_payload (Some (str ''a'')))
      (Payload_Text (str ''b'')) (Payload_Text (str ''c'')) None default_options = Returns s"
    by (rule fresh_session [where path = "str ''f''" and current = None, OF example_conflict])
  have reach: "session_reachable s (fst (toggle_region_source s 0 B))"
    by (rule session_reachable.step [OF session_reachable.start session_step.toggle_region])
  obtain q where q: "cs_merge_plan (fst (toggle_region_source s 0 B)) = Some q" "plan_ok q"
    using sessions_stay_in_step [OF example_conflict s reach] by (elim exE conjE) (rule that)
  show ?thesis
    by (rule exI [of _ s], rule exI [of _ q]) (intro conjI s reach q)
qed

text \<open>C29: moving to the next conflict never gets stuck. It finds none only when every region is resolved;
  otherwise it finds the first unresolved region after the current one in cyclic order, and repeating it
  from any region comes to every unresolved region. Moving back finds an unresolved region in the same
  cases.\<close>

theorem navigation_reaches_every_conflict:
  "(next_unresolved_after s c = None \<longleftrightarrow> (\<forall>i<length (cs_regions s). region_resolved (cs_regions s ! i))) \<and>
   (case next_unresolved_after s c of
      None \<Rightarrow> prev_unresolved_before s c = None
    | Some i \<Rightarrow> unresolved_at s i \<and>
        (\<exists>d\<in>{1..length (cs_regions s)}. i = (c + d) mod length (cs_regions s) \<and>
          (\<forall>e\<in>{1..<d}. \<not> unresolved_at s ((c + e) mod length (cs_regions s)))) \<and>
        (\<exists>j. prev_unresolved_before s c = Some j \<and> unresolved_at s j)) \<and>
   (\<forall>j\<in>{i. unresolved_at s i}. \<exists>n>0. ((\<lambda>c. the (next_unresolved_after s c)) ^^ n) c = j)"
proof (intro conjI ballI)
  show "next_unresolved_after s c = None \<longleftrightarrow> (\<forall>i<length (cs_regions s). region_resolved (cs_regions s ! i))"
    by (auto simp: next_unresolved_None)
  show "case next_unresolved_after s c of
      None \<Rightarrow> prev_unresolved_before s c = None
    | Some i \<Rightarrow> unresolved_at s i \<and>
        (\<exists>d\<in>{1..length (cs_regions s)}. i = (c + d) mod length (cs_regions s) \<and>
          (\<forall>e\<in>{1..<d}. \<not> unresolved_at s ((c + e) mod length (cs_regions s)))) \<and>
        (\<exists>j. prev_unresolved_before s c = Some j \<and> unresolved_at s j)"
  proof (cases "next_unresolved_after s c")
    case None
    have "prev_unresolved_before s c = None"
      using None unfolding next_unresolved_None prev_unresolved_None .
    then show ?thesis by (simp add: None)
  next
    case (Some i)
    note i = Some [unfolded next_unresolved_Some]
    obtain j where "prev_unresolved_before s c = Some j"
      using i prev_unresolved_None [of s c] by (cases "prev_unresolved_before s c") auto
    moreover note prev_unresolved_Some [OF this]
    ultimately show ?thesis
      using i unfolding Some option.case by (metis (no_types, lifting) atLeastAtMost_iff atLeastLessThan_iff)
  qed
next
  fix j
  assume "j \<in> {i. unresolved_at s i}"
  then have j: "unresolved_at s j" by simp
  then obtain d where "1 \<le> d" "d \<le> length (cs_regions s)" "(c + d) mod length (cs_regions s) = j"
    using wrap_surj [of j "length (cs_regions s)" c] by blast
  from next_unresolved_reaches [OF j this]
  show "\<exists>n>0. ((\<lambda>c. the (next_unresolved_after s c)) ^^ n) c = j" .
qed

theorem navigation_reaches_every_conflict_witness:
  "\<exists>s. unresolved_at s 0 \<and> next_unresolved_after s 0 \<noteq> None"
proof -
  define r where "r = \<lparr>cr_base = None, cr_ours = Owned [], cr_theirs = Owned [], cr_resolution = Unresolved\<rparr>"
  obtain s0 p where s: "from_stage_merge_plan_with_current (str ''f'') BothModified (base_payload (Some (str ''a'')))
      (Payload_Text (str ''b'')) (Payload_Text (str ''c'')) None default_options = Returns s0"
    by (rule fresh_session [where path = "str ''f''" and current = None, OF example_conflict])
  let ?s = "s0\<lparr>cs_regions := [r]\<rparr>"
  have open_region: "unresolved_at ?s 0"
    by (simp add: r_def)
  have "next_unresolved_after ?s 0 \<noteq> None"
    using navigation_reaches_every_conflict [of ?s 0, THEN conjunct1] open_region by auto
  then show ?thesis
    using open_region by (intro exI [of _ ?s]) simp
qed

end
