(* ===== verification/Levenshtein.thy ===== *)
theory Levenshtein
  imports Strings
begin

text \<open>
  The edit distance by which the side-by-side diff pairs replaced lines (\<open>file_diff.rs\<close>,
  \<open>LevenshteinScratch\<close> and below): the two-row dynamic program for sequences of any unit, and the
  bit-parallel version that keeps a column of the table in two 128-bit words. Both are proved to
  compute the least cost of an edit script.
\<close>

unbundle bit_operations_syntax

section \<open>The reference distance\<close>

text \<open>The costs of the ways to turn one sequence into another, unit by unit.\<close>

inductive edit_cost :: "'a list \<Rightarrow> 'a list \<Rightarrow> nat \<Rightarrow> bool" where
  no_units: "edit_cost [] [] 0"
| replace_unit: "edit_cost xs ys c \<Longrightarrow> edit_cost (x # xs) (y # ys) (c + of_bool (x \<noteq> y))"
| delete_unit: "edit_cost xs ys c \<Longrightarrow> edit_cost (x # xs) ys (c + 1)"
| insert_unit: "edit_cost xs ys c \<Longrightarrow> edit_cost xs (y # ys) (c + 1)"

fun lev :: "'a list \<Rightarrow> 'a list \<Rightarrow> nat" where
  "lev [] ys = length ys"
| "lev (x # xs) [] = Suc (length xs)"
| "lev (x # xs) (y # ys) =
     min (min (lev xs (y # ys) + 1) (lev (x # xs) ys + 1)) (lev xs ys + of_bool (x \<noteq> y))"

lemma lev_Nil2 [simp]: "lev xs [] = length xs"
  by (cases xs) simp_all

lemma edit_cost_delete_all: "edit_cost xs [] (length xs)"
  by (induction xs) (auto intro: edit_cost.intros delete_unit [of _ _ "length _", simplified])

lemma edit_cost_insert_all: "edit_cost [] ys (length ys)"
  by (induction ys) (auto intro: edit_cost.intros insert_unit [of _ _ "length _", simplified])

lemma edit_cost_lev: "edit_cost xs ys (lev xs ys)"
proof (induction xs ys rule: lev.induct)
  case (2 x xs)
  then show ?case using edit_cost_delete_all [of "x # xs"] by simp
next
  case (3 x xs y ys)
  note cases = delete_unit [OF 3(1), of x] insert_unit [OF 3(2), of y] replace_unit [OF 3(3), of x y]
  show ?case
    using cases by (auto simp: min_def)
qed (simp add: edit_cost_insert_all)

lemma lev_insert: "lev xs (y # ys) \<le> lev xs ys + 1"
  by (cases xs) auto

lemma lev_delete: "lev (x # xs) ys \<le> lev xs ys + 1"
  by (cases ys) auto

lemma lev_least: "edit_cost xs ys c \<Longrightarrow> lev xs ys \<le> c"
proof (induction rule: edit_cost.induct)
  case (delete_unit xs ys c x)
  then show ?case using lev_delete [of x xs ys] by simp
next
  case (insert_unit xs ys c y)
  then show ?case using lev_insert [of xs y ys] by simp
qed auto

lemma edit_cost_append: "edit_cost xs ys c \<Longrightarrow> edit_cost us vs d \<Longrightarrow> edit_cost (xs @ us) (ys @ vs) (c + d)"
proof (induction rule: edit_cost.induct)
  case (replace_unit xs ys c x y)
  then show ?case
    using edit_cost.replace_unit [of "xs @ us" "ys @ vs" "c + d" x y] by (simp add: ac_simps)
next
  case (delete_unit xs ys c x)
  then show ?case
    using edit_cost.delete_unit [of "xs @ us" "ys @ vs" "c + d" x] by simp
next
  case (insert_unit xs ys c y)
  then show ?case
    using edit_cost.insert_unit [of "xs @ us" "ys @ vs" "c + d" y] by simp
qed simp

lemma edit_cost_rev: "edit_cost xs ys c \<Longrightarrow> edit_cost (rev xs) (rev ys) c"
proof (induction rule: edit_cost.induct)
  case (replace_unit xs ys c x y)
  then show ?case
    using edit_cost_append [OF replace_unit.IH, of "[x]" "[y]" "of_bool (x \<noteq> y)"]
      edit_cost.replace_unit [OF no_units, where x = x and y = y] by simp
next
  case (delete_unit xs ys c x)
  then show ?case
    using edit_cost_append [OF delete_unit.IH, of "[x]" "[]" 1] edit_cost_delete_all [of "[x]"] by simp
next
  case (insert_unit xs ys c y)
  then show ?case
    using edit_cost_append [OF insert_unit.IH, of "[]" "[y]" 1] edit_cost_insert_all [of "[y]"] by simp
qed (simp add: no_units)

lemma lev_rev: "lev (rev xs) (rev ys) = lev xs ys"
proof (rule antisym)
  show "lev (rev xs) (rev ys) \<le> lev xs ys" for xs ys :: "'a list"
    by (rule lev_least [OF edit_cost_rev [OF edit_cost_lev]])
  from this [of "rev xs" "rev ys"] show "lev xs ys \<le> lev (rev xs) (rev ys)" by simp
qed

lemma edit_cost_swap: "edit_cost xs ys c \<Longrightarrow> edit_cost ys xs c"
proof (induction rule: edit_cost.induct)
  case (replace_unit xs ys c x y)
  then show ?case using edit_cost.replace_unit [OF replace_unit.IH, of y x] by (simp add: eq_commute)
qed (auto intro: edit_cost.intros edit_cost.delete_unit [simplified] edit_cost.insert_unit [simplified])

lemma lev_commute: "lev xs ys = lev ys xs"
  by (rule antisym) (rule lev_least [OF edit_cost_swap [OF edit_cost_lev]])+

lemma lev_le_max: "lev xs ys \<le> max (length xs) (length ys)"
  by (induction xs ys rule: lev.induct) (auto simp: min_le_iff_disj)

lemma lev_same [simp]: "lev xs xs = 0"
  by (induction xs) auto

lemma lev_snoc:
  "lev (xs @ [x]) (ys @ [y]) =
     min (min (lev xs (ys @ [y]) + 1) (lev (xs @ [x]) ys + 1)) (lev xs ys + of_bool (x \<noteq> y))"
proof -
  have "lev (xs @ [x]) (ys @ [y]) = lev (x # rev xs) (y # rev ys)"
    using lev_rev [of "xs @ [x]" "ys @ [y]"] by simp
  moreover have "lev (rev xs) (y # rev ys) = lev xs (ys @ [y])" "lev (x # rev xs) (rev ys) = lev (xs @ [x]) ys"
    using lev_rev [of xs "ys @ [y]"] lev_rev [of "xs @ [x]" ys] by simp_all
  ultimately show ?thesis by (simp add: lev_rev)
qed

text \<open>The table: cell \<open>i\<close>, \<open>j\<close> is the distance of the prefixes of these lengths.\<close>

definition cell :: "'a list \<Rightarrow> 'a list \<Rightarrow> nat \<Rightarrow> nat \<Rightarrow> nat" where
  "cell a b i j = lev (take i a) (take j b)"

lemma cell_0 [simp]: "j \<le> length b \<Longrightarrow> cell a b 0 j = j" "i \<le> length a \<Longrightarrow> cell a b i 0 = i"
  by (simp_all add: cell_def)

lemma cell_Suc:
  "i < length a \<Longrightarrow> j < length b \<Longrightarrow> cell a b (Suc i) (Suc j) =
     min (min (cell a b i (Suc j) + 1) (cell a b (Suc i) j + 1)) (cell a b i j + of_bool (a ! i \<noteq> b ! j))"
  by (simp add: cell_def take_Suc_conv_app_nth lev_snoc del: take_Suc)

lemma cell_all: "cell a b (length a) (length b) = lev a b"
  by (simp add: cell_def)

section \<open>Two rows\<close>

text \<open>
  \<open>distance_non_empty_unequal_with_cache\<close>: the inner loop runs over the longer sequence and the cache,
  which holds the previous row; \<open>distance_b\<close> is the cell above on the left.
\<close>

fun distance_row :: "'a \<Rightarrow> 'a list \<Rightarrow> nat list \<Rightarrow> nat \<Rightarrow> nat \<Rightarrow> nat list \<times> nat" where
  "distance_row a_ch (b_ch # b) (c # cache) distance_b result =
     (let cost = of_bool (a_ch \<noteq> b_ch);
          distance_a = distance_b + cost;
          distance_b = c;
          result = min (min (result + 1) distance_a) (distance_b + 1)
      in case distance_row a_ch b cache distance_b result of (row, r) \<Rightarrow> (result # row, r))"
| "distance_row a_ch b cache distance_b result = ([], result)"

fun distance_rows :: "nat \<Rightarrow> 'a list \<Rightarrow> 'a list \<Rightarrow> nat list \<Rightarrow> nat \<Rightarrow> nat" where
  "distance_rows i [] b cache result = result"
| "distance_rows i (a_ch # a) b cache result =
     (case distance_row a_ch b cache i (i + 1) of (cache', r) \<Rightarrow> distance_rows (i + 1) a b cache' r)"

definition distance_non_empty_unequal :: "'a list \<Rightarrow> 'a list \<Rightarrow> nat" where
  "distance_non_empty_unequal a b =
     (case (if length b > length a then (a, b) else (b, a)) of (a, b) \<Rightarrow>
        distance_rows 0 a b (map (\<lambda>ix. ix + 1) [0..<length b]) (length b))"

definition levenshtein_distance :: "'a list \<Rightarrow> 'a list \<Rightarrow> nat" where
  "levenshtein_distance a b =
     (if a = b then 0 else if a = [] then length b else if b = [] then length a
      else distance_non_empty_unequal a b)"

lemma distance_row_cells:
  assumes "i < length a" "j \<le> length b"
  shows "distance_row (a ! i) (drop j b) (map (cell a b i) [Suc j..<Suc (length b)]) (cell a b i j) (cell a b (Suc i) j)
    = (map (cell a b (Suc i)) [Suc j..<Suc (length b)], cell a b (Suc i) (length b))"
  using assms(2)
proof (induction "length b - j" arbitrary: j)
  case 0
  then show ?case by simp
next
  case (Suc n)
  then have j: "j < length b" by simp
  have next_cell: "min (min (cell a b (Suc i) j + 1) (cell a b i j + of_bool (a ! i \<noteq> b ! j))) (cell a b i (Suc j) + 1)
      = cell a b (Suc i) (Suc j)"
    using cell_Suc [OF assms(1) j] by simp
  have IH: "distance_row (a ! i) (drop (Suc j) b) (map (cell a b i) [Suc (Suc j)..<Suc (length b)])
      (cell a b i (Suc j)) (cell a b (Suc i) (Suc j))
    = (map (cell a b (Suc i)) [Suc (Suc j)..<Suc (length b)], cell a b (Suc i) (length b))"
    using Suc by simp
  have "drop j b = b ! j # drop (Suc j) b" "[Suc j..<Suc (length b)] = Suc j # [Suc (Suc j)..<Suc (length b)]"
    using j by (simp_all add: Cons_nth_drop_Suc upt_rec)
  then show ?case
    by (simp only: distance_row.simps Let_def next_cell IH prod.case list.map)
qed

lemma distance_rows_cells:
  assumes "i \<le> length a"
  shows "distance_rows i (drop i a) b (map (cell a b i) [Suc 0..<Suc (length b)]) (cell a b i (length b)) = lev a b"
  using assms
proof (induction "length a - i" arbitrary: i)
  case 0
  then have "i = length a" by simp
  then show ?case by (simp add: cell_all)
next
  case (Suc n)
  then have i: "i < length a" by simp
  have "drop i a = a ! i # drop (Suc i) a" using i by (simp add: Cons_nth_drop_Suc)
  moreover have "distance_row (a ! i) b (map (cell a b i) [Suc 0..<Suc (length b)]) i (Suc i)
      = (map (cell a b (Suc i)) [Suc 0..<Suc (length b)], cell a b (Suc i) (length b))"
    using distance_row_cells [OF i, of 0 b] i by (simp del: upt_Suc)
  moreover have "distance_rows (Suc i) (drop (Suc i) a) b (map (cell a b (Suc i)) [Suc 0..<Suc (length b)])
      (cell a b (Suc i) (length b)) = lev a b"
    using Suc by simp
  ultimately show ?case by (simp del: upt_Suc)
qed

lemma distance_rows_lev: "distance_rows 0 a b (map (\<lambda>ix. ix + 1) [0..<length b]) (length b) = lev a b"
proof -
  have "map (\<lambda>ix. ix + 1) [0..<length b] = map (cell a b 0) [Suc 0..<Suc (length b)]"
    by (rule nth_equalityI) (simp_all del: upt_Suc)
  then show ?thesis
    using distance_rows_cells [of 0 a b] by (simp del: upt_Suc)
qed

lemma distance_non_empty_unequal_lev: "distance_non_empty_unequal a b = lev a b"
  unfolding distance_non_empty_unequal_def
  by (simp only: distance_rows_lev split: if_split prod.split) (simp add: lev_commute)

lemma levenshtein_distance_lev: "levenshtein_distance a b = lev a b"
  by (auto simp: levenshtein_distance_def distance_non_empty_unequal_lev)

section \<open>Bit-parallel\<close>

definition ascii_bitparallel_max_pattern_len :: nat where
  "ascii_bitparallel_max_pattern_len = 128"

fun eq_masks_from :: "nat \<Rightarrow> byte list \<Rightarrow> (byte \<Rightarrow> 128 word) \<Rightarrow> byte \<Rightarrow> 128 word" where
  "eq_masks_from ix [] masks = masks"
| "eq_masks_from ix (b # bs) masks = eq_masks_from (ix + 1) bs (masks(b := masks b OR push_bit ix 1))"

text \<open>One byte of the text: the vertical differences of the column and the distance in its last row.\<close>

definition bitparallel_step ::
  "(byte \<Rightarrow> 128 word) \<Rightarrow> 128 word \<Rightarrow> 128 word \<Rightarrow> 128 word \<times> 128 word \<times> nat \<Rightarrow> byte \<Rightarrow> 128 word \<times> 128 word \<times> nat" where
  "bitparallel_step eq_masks row_mask high_bit state b =
     (case state of (positive, negative, distance) \<Rightarrow>
        (let eq = eq_masks b;
             xv = eq OR negative;
             xh = (((eq AND positive) + positive) XOR positive) OR eq;
             positive_h = negative OR NOT (xh OR positive);
             negative_h = positive AND xh;
             distance = (if positive_h AND high_bit \<noteq> 0 then distance + 1
                         else if negative_h AND high_bit \<noteq> 0 then distance - 1 else distance);
             positive_h = (push_bit 1 positive_h OR 1) AND row_mask;
             negative_h = push_bit 1 negative_h AND row_mask
         in ((negative_h OR NOT (xv OR positive_h)) AND row_mask, positive_h AND xv, distance)))"

definition bitparallel_levenshtein :: "byte list \<Rightarrow> byte list \<Rightarrow> nat option" where
  "bitparallel_levenshtein a b =
     (case (if length a \<le> length b then (a, b) else (b, a)) of (pattern, t) \<Rightarrow>
        (let pattern_len = length pattern
         in if pattern_len = 0 then Some (length t)
            else if pattern_len > ascii_bitparallel_max_pattern_len then None
            else
              (let eq_masks = eq_masks_from 0 pattern (\<lambda>_. 0);
                   row_mask = (if pattern_len = ascii_bitparallel_max_pattern_len then - 1 else push_bit pattern_len 1 - 1);
                   high_bit = push_bit (pattern_len - 1) 1
               in Some (snd (snd (foldl (bitparallel_step eq_masks row_mask high_bit) (row_mask, 0, pattern_len) t))))))"

text \<open>Cells that touch differ by at most one.\<close>

lemma edit_cost_drop: "edit_cost zs ys c \<Longrightarrow> zs = x # xs \<Longrightarrow> \<exists>d\<le>c + 1. edit_cost xs ys d"
proof (induction arbitrary: xs rule: edit_cost.induct)
  case (replace_unit us ys c u y)
  then show ?case
    using edit_cost.insert_unit [OF replace_unit.hyps, of y] by (intro exI [of _ "c + 1"]) auto
next
  case (delete_unit us ys c u)
  then show ?case by (intro exI [of _ c]) auto
next
  case (insert_unit us ys c y)
  then obtain d where "d \<le> c + 1" "edit_cost xs ys d" by blast
  then show ?case
    using edit_cost.insert_unit [of xs ys d y] by (intro exI [of _ "d + 1"]) auto
qed simp

lemma lev_drop: "lev xs ys \<le> lev (x # xs) ys + 1"
  using edit_cost_drop [OF edit_cost_lev refl] lev_least by (metis order_trans)

lemma lev_touching: "lev xs ys \<le> lev (xs @ [x]) ys + 1" "lev (xs @ [x]) ys \<le> lev xs ys + 1"
  using lev_drop [of "rev xs" "rev ys" x] lev_delete [of x "rev xs" "rev ys"] lev_rev [of xs ys] lev_rev [of "xs @ [x]" ys]
  by simp_all

lemma cell_touching:
  "i < length a \<Longrightarrow> cell a b i j \<le> cell a b (Suc i) j + 1"
  "i < length a \<Longrightarrow> cell a b (Suc i) j \<le> cell a b i j + 1"
  "j < length b \<Longrightarrow> cell a b i j \<le> cell a b i (Suc j) + 1"
  "j < length b \<Longrightarrow> cell a b i (Suc j) \<le> cell a b i j + 1"
  using lev_touching [where xs = "take i a" and ys = "take j b"] lev_touching [where xs = "take j b" and ys = "take i a"]
  by (simp_all add: cell_def take_Suc_conv_app_nth lev_commute)

text \<open>One cell of the table in terms of the differences along its sides.\<close>

lemma cell_arith:
  fixes A B C E :: nat
  assumes "A \<le> B + 1" "B \<le> A + 1" "A \<le> C + 1" "C \<le> A + 1" "E = min (min (C + 1) (B + 1)) (A + of_bool (\<not> eq))"
  shows "E = B + 1 \<longleftrightarrow> A = B + 1 \<or> \<not> (eq \<or> A = C + 1 \<or> B = A + 1)"
    "B = E + 1 \<longleftrightarrow> B = A + 1 \<and> (eq \<or> A = C + 1)"
proof -
  have "B = A + 1 \<or> B = A \<or> A = B + 1" "C = A + 1 \<or> C = A \<or> A = C + 1"
    using assms(1-4) by linarith+
  then show "E = B + 1 \<longleftrightarrow> A = B + 1 \<or> \<not> (eq \<or> A = C + 1 \<or> B = A + 1)"
    "B = E + 1 \<longleftrightarrow> B = A + 1 \<and> (eq \<or> A = C + 1)"
    using assms(5) by (elim disjE; cases eq; simp)+
qed

lemma cell_differences:
  assumes "i < length a" "j < length b"
  defines "up \<equiv> cell a b (Suc i) j = cell a b i j + 1" and "down \<equiv> cell a b i j = cell a b (Suc i) j + 1"
    and "right \<equiv> cell a b i (Suc j) = cell a b i j + 1" and "left \<equiv> cell a b i j = cell a b i (Suc j) + 1"
    and "eq \<equiv> a ! i = b ! j"
  shows "cell a b (Suc i) (Suc j) = cell a b (Suc i) j + 1 \<longleftrightarrow> down \<or> \<not> (eq \<or> left \<or> up)"
    "cell a b (Suc i) j = cell a b (Suc i) (Suc j) + 1 \<longleftrightarrow> up \<and> (eq \<or> left)"
    "cell a b (Suc i) (Suc j) = cell a b i (Suc j) + 1 \<longleftrightarrow> left \<or> \<not> (eq \<or> down \<or> right)"
    "cell a b i (Suc j) = cell a b (Suc i) (Suc j) + 1 \<longleftrightarrow> right \<and> (eq \<or> down)"
proof -
  note touching = cell_touching(1,2) [OF assms(1), of b j] cell_touching(3,4) [OF assms(2), of a i]
  have "cell a b (Suc i) (Suc j) = min (min (cell a b (Suc i) j + 1) (cell a b i (Suc j) + 1)) (cell a b i j + of_bool (\<not> eq))"
    using cell_Suc [OF assms(1,2)] unfolding eq_def by (simp only: min.commute min.left_commute min.assoc)
  note cell_arith [OF touching cell_Suc [OF assms(1,2), folded eq_def]] cell_arith [OF touching(3,4,1,2) this]
  then show "cell a b (Suc i) (Suc j) = cell a b (Suc i) j + 1 \<longleftrightarrow> down \<or> \<not> (eq \<or> left \<or> up)"
    "cell a b (Suc i) j = cell a b (Suc i) (Suc j) + 1 \<longleftrightarrow> up \<and> (eq \<or> left)"
    "cell a b (Suc i) (Suc j) = cell a b i (Suc j) + 1 \<longleftrightarrow> left \<or> \<not> (eq \<or> down \<or> right)"
    "cell a b i (Suc j) = cell a b (Suc i) (Suc j) + 1 \<longleftrightarrow> right \<and> (eq \<or> down)"
    by (simp_all only: up_def down_def left_def right_def) 
qed

text \<open>The carries of an addition of words.\<close>

primrec carry :: "'a::len word \<Rightarrow> 'a word \<Rightarrow> nat \<Rightarrow> bool" where
  "carry x y 0 = False"
| "carry x y (Suc n) = (bit x n \<and> bit y n \<or> (bit x n \<or> bit y n) \<and> carry x y n)"

lemma carry_mod: "carry x y n \<longleftrightarrow> 2 ^ n \<le> unat x mod 2 ^ n + unat y mod 2 ^ n"
proof (induction n)
  case (Suc n)
  have split: "z mod 2 ^ Suc n = of_bool (bit z n) * 2 ^ n + z mod 2 ^ n" for z :: nat
    using take_bit_Suc_from_most [of n z] by (simp add: take_bit_eq_mod)
  define u v where "u = unat x mod 2 ^ n" and "v = unat y mod 2 ^ n"
  have "u < 2 ^ n" "v < 2 ^ n" by (simp_all add: u_def v_def)
  then show ?case
    using Suc unfolding split u_def [symmetric] v_def [symmetric] by (auto simp: bit_unsigned_iff)
qed simp

lemma bit_add_carry:
  fixes x y :: "'a::len word"
  assumes "n < LENGTH('a)"
  shows "bit (x + y) n \<longleftrightarrow> (bit x n \<noteq> bit y n) \<noteq> carry x y n"
proof -
  let ?a = "unat x" and ?b = "unat y" and ?c = "2 ^ n :: nat"
  have "unat (x + y) = take_bit LENGTH('a) (?a + ?b)"
    by (simp add: unat_word_ariths take_bit_eq_mod)
  moreover have unsigned: "bit z n \<longleftrightarrow> bit (unat z) n" for z :: "'a word"
    by (simp add: bit_unsigned_iff)
  ultimately have "bit (x + y) n \<longleftrightarrow> bit (?a + ?b) n"
    using assms by (simp add: bit_take_bit_iff)
  also have "\<dots> \<longleftrightarrow> odd (?a div ?c + ?b div ?c + (?a mod ?c + ?b mod ?c) div ?c)"
    unfolding bit_iff_odd div_add1_eq [of ?a ?b ?c] by (rule refl)
  also have "(?a mod ?c + ?b mod ?c) div ?c = of_bool (carry x y n)"
  proof -
    have "?a mod ?c < ?c" "?b mod ?c < ?c" by simp_all
    then have "?a mod ?c + ?b mod ?c < 2 * ?c" by linarith
    then show ?thesis
      by (auto simp: carry_mod div_nat_eqI)
  qed
  also have "odd (?a div ?c + ?b div ?c + of_bool (carry x y n)) \<longleftrightarrow> (bit x n \<noteq> bit y n) \<noteq> carry x y n"
    unfolding unsigned unfolding bit_iff_odd by auto
  finally show ?thesis .
qed

text \<open>The masks.\<close>

lemma bit_eq_masks:
  "bit (eq_masks_from k p masks c) i \<longleftrightarrow> bit (masks c) i \<or> i < 128 \<and> k \<le> i \<and> i - k < length p \<and> p ! (i - k) = c"
proof (induction p arbitrary: k masks)
  case (Cons b bs)
  have "(i < 128 \<and> k \<le> i \<and> i - k < length (b # bs) \<and> (b # bs) ! (i - k) = c) \<longleftrightarrow>
      (i < 128 \<and> i = k \<and> b = c) \<or> (i < 128 \<and> k + 1 \<le> i \<and> i - (k + 1) < length bs \<and> bs ! (i - (k + 1)) = c)"
  proof (cases "k < i")
    case True
    then have "i - k = Suc (i - (k + 1))" by simp
    with True show ?thesis by auto
  qed (cases "i = k"; simp)
  then show ?case
    by (auto simp: Cons.IH bit_simps)
qed simp

lemma bit_row_mask:
  assumes "m \<le> 128"
  shows "bit (if m = ascii_bitparallel_max_pattern_len then - 1 else push_bit m 1 - 1 :: 128 word) i \<longleftrightarrow> i < m"
  using assms
  by (auto simp: ascii_bitparallel_max_pattern_len_def push_bit_of_1 bit_simps simp flip: mask_eq_exp_minus_1)

lemma bit_high_bit: "k < 128 \<Longrightarrow> w AND push_bit k 1 \<noteq> 0 \<longleftrightarrow> bit w k" for w :: "128 word"
  by (simp add: bit_iff_and_push_bit_not_eq_0)

section \<open>One column of the table in two words\<close>

definition column :: "byte list \<Rightarrow> byte list \<Rightarrow> nat \<Rightarrow> 128 word \<Rightarrow> 128 word \<Rightarrow> bool" where
  "column a b j positive negative \<longleftrightarrow>
     (\<forall>i. (bit positive i \<longleftrightarrow> i < length a \<and> cell a b (Suc i) j = cell a b i j + 1) \<and>
          (bit negative i \<longleftrightarrow> i < length a \<and> cell a b i j = cell a b (Suc i) j + 1))"

lemma column_start:
  assumes "length a \<le> 128" "\<And>i. bit m i \<longleftrightarrow> i < length a"
  shows "column a b 0 m 0"
  unfolding column_def
proof (intro allI conjI)
  fix i
  show "bit m i \<longleftrightarrow> i < length a \<and> cell a b (Suc i) 0 = cell a b i 0 + 1"
    using assms(2) [of i] by (cases "i < length a") simp_all
  show "bit (0 :: 128 word) i \<longleftrightarrow> i < length a \<and> cell a b i 0 = cell a b (Suc i) 0 + 1"
    by (cases "i < length a") simp_all
qed

text \<open>The addition computes where the row above falls to the right.\<close>

lemma carry_left:
  assumes "column a b j positive negative" "j < length b" "length a \<le> 128"
    and "\<And>i. bit eq i \<longleftrightarrow> i < length a \<and> a ! i = b ! j"
  shows "i \<le> length a \<Longrightarrow>
    carry (eq AND positive) positive i \<longleftrightarrow> cell a b i j = cell a b i (Suc j) + 1"
proof (induction i)
  case 0
  then show ?case using assms(2) by simp
next
  case (Suc i)
  then have i: "i < length a" by simp
  have "bit positive i \<longleftrightarrow> cell a b (Suc i) j = cell a b i j + 1"
    using assms(1) i by (simp add: column_def)
  then show ?case
    using Suc cell_differences(2) [OF i assms(2)] assms(4) i by (auto simp: bit_simps)
qed

lemma bit_xh:
  assumes "column a b j positive negative" "j < length b" "length a \<le> 128"
    and "\<And>i. bit eq i \<longleftrightarrow> i < length a \<and> a ! i = b ! j" "i < length a"
  shows "bit ((((eq AND positive) + positive) XOR positive) OR eq) i \<longleftrightarrow>
    a ! i = b ! j \<or> cell a b i j = cell a b i (Suc j) + 1"
proof -
  have "bit ((eq AND positive) + positive) i \<longleftrightarrow>
      (bit (eq AND positive) i \<noteq> bit positive i) \<noteq> (cell a b i j = cell a b i (Suc j) + 1)"
    using bit_add_carry [of i "eq AND positive" positive] carry_left [OF assms(1-4), of i] assms(3,5) by simp
  then show ?thesis
    using assms(4,5) by (auto simp: bit_simps)
qed

lemma bitparallel_step_column:
  assumes "column a b j positive negative" "j < length b" "0 < length a" "length a \<le> 128"
    and eq: "\<And>i. bit (eq_masks (b ! j)) i \<longleftrightarrow> i < length a \<and> a ! i = b ! j"
    and row: "\<And>i. bit row_mask i \<longleftrightarrow> i < length a"
    and step: "bitparallel_step eq_masks row_mask (push_bit (length a - 1) 1) (positive, negative, cell a b (length a) j) (b ! j)
      = (positive', negative', distance)"
  shows "column a b (Suc j) positive' negative'" "distance = cell a b (length a) (Suc j)"
proof -
  let ?eq = "eq_masks (b ! j)"
  define xv where "xv = ?eq OR negative"
  define xh where "xh = (((?eq AND positive) + positive) XOR positive) OR ?eq"
  define ph where "ph = negative OR NOT (xh OR positive)"
  define nh where "nh = positive AND xh"
  define ph' where "ph' = (push_bit 1 ph OR 1) AND row_mask"
  define nh' where "nh' = push_bit 1 nh AND row_mask"
  have step: "positive' = (nh' OR NOT (xv OR ph')) AND row_mask" "negative' = ph' AND xv"
    "distance = (if ph AND push_bit (length a - 1) 1 \<noteq> 0 then cell a b (length a) j + 1
      else if nh AND push_bit (length a - 1) 1 \<noteq> 0 then cell a b (length a) j - 1 else cell a b (length a) j)"
    using step [symmetric]
    by (simp_all only: bitparallel_step_def Let_def prod.case prod.inject xv_def xh_def ph_def nh_def ph'_def nh'_def)
  have bits: "bit positive i \<longleftrightarrow> cell a b (Suc i) j = cell a b i j + 1"
    "bit negative i \<longleftrightarrow> cell a b i j = cell a b (Suc i) j + 1"
    "bit xh i \<longleftrightarrow> a ! i = b ! j \<or> cell a b i j = cell a b i (Suc j) + 1"
    "bit xv i \<longleftrightarrow> a ! i = b ! j \<or> cell a b i j = cell a b (Suc i) j + 1" if "i < length a" for i
    using that assms(1) bit_xh [OF assms(1,2,4) eq that] eq
    by (auto simp: column_def xh_def xv_def bit_simps)
  have h: "bit ph i \<longleftrightarrow> cell a b (Suc i) (Suc j) = cell a b (Suc i) j + 1"
    "bit nh i \<longleftrightarrow> cell a b (Suc i) j = cell a b (Suc i) (Suc j) + 1" if i: "i < length a" for i
    unfolding cell_differences [OF i assms(2)]
    using bits [OF i] i assms(4) by (auto simp: ph_def nh_def bit_simps)
  have above: "bit ph' i \<longleftrightarrow> cell a b i (Suc j) = cell a b i j + 1"
    "bit nh' i \<longleftrightarrow> cell a b i j = cell a b i (Suc j) + 1" if "i < length a" for i
  proof -
    show "bit ph' i \<longleftrightarrow> cell a b i (Suc j) = cell a b i j + 1"
    proof (cases i)
      case (Suc k)
      then show ?thesis using that h(1) [of k] row [of i] assms(4) by (simp add: ph'_def bit_simps del: push_bit_Suc)
    qed (use that row [of 0] assms(2) in \<open>simp add: ph'_def bit_simps del: push_bit_Suc\<close>)
    show "bit nh' i \<longleftrightarrow> cell a b i j = cell a b i (Suc j) + 1"
    proof (cases i)
      case (Suc k)
      then show ?thesis using that h(2) [of k] row [of i] assms(4) by (simp add: nh'_def bit_simps del: push_bit_Suc)
    qed (use that row [of 0] assms(2) in \<open>simp add: nh'_def bit_simps del: push_bit_Suc\<close>)
  qed
  show "column a b (Suc j) positive' negative'"
    unfolding column_def
  proof (intro allI conjI)
    fix i
    show "bit positive' i \<longleftrightarrow> i < length a \<and> cell a b (Suc i) (Suc j) = cell a b i (Suc j) + 1"
    proof (cases "i < length a")
      case True
      then show ?thesis
        using above [OF True] bits(4) [OF True] cell_differences(3) [OF True assms(2)] row assms(4)
        by (simp add: step(1) bit_simps)
    qed (simp add: step(1) bit_simps row)
    show "bit negative' i \<longleftrightarrow> i < length a \<and> cell a b i (Suc j) = cell a b (Suc i) (Suc j) + 1"
    proof (cases "i < length a")
      case True
      then show ?thesis
        using above(1) [OF True] bits(4) [OF True] cell_differences(4) [OF True assms(2)]
        by (simp add: step(2) bit_simps)
    qed (simp add: step(2) ph'_def bit_simps row)
  qed
  have last: "length a - 1 < 128" "length a - 1 < length a" "Suc (length a - 1) = length a"
    using assms(3,4) by simp_all
  show "distance = cell a b (length a) (Suc j)"
    unfolding step(3) bit_high_bit [OF last(1)] h [OF last(2)] last(3)
    using cell_touching(3,4) [OF assms(2), of a "length a"] by auto
qed

lemma bitparallel_columns:
  assumes "0 < length a" "length a \<le> 128" "\<And>i. bit row_mask i \<longleftrightarrow> i < length a"
  shows "j \<le> length b \<Longrightarrow> \<exists>positive negative.
    foldl (bitparallel_step (eq_masks_from 0 a (\<lambda>_. 0)) row_mask (push_bit (length a - 1) 1)) (row_mask, 0, length a) (take j b)
      = (positive, negative, cell a b (length a) j) \<and> column a b j positive negative"
proof (induction j)
  case 0
  then show ?case using column_start [OF assms(2,3)] by simp
next
  case (Suc j)
  then obtain positive negative where s:
    "foldl (bitparallel_step (eq_masks_from 0 a (\<lambda>_. 0)) row_mask (push_bit (length a - 1) 1)) (row_mask, 0, length a) (take j b)
      = (positive, negative, cell a b (length a) j)" "column a b j positive negative" by auto
  have j: "j < length b" using Suc.prems by simp
  have eq: "bit (eq_masks_from 0 a (\<lambda>_. 0) (b ! j)) i \<longleftrightarrow> i < length a \<and> a ! i = b ! j" for i
    using assms(2) by (auto simp: bit_eq_masks)
  obtain positive' negative' distance where t:
    "bitparallel_step (eq_masks_from 0 a (\<lambda>_. 0)) row_mask (push_bit (length a - 1) 1)
      (positive, negative, cell a b (length a) j) (b ! j) = (positive', negative', distance)"
    by (metis prod_cases3)
  note bitparallel_step_column [OF s(2) j assms(1,2) eq assms(3) t]
  then show ?case
    using s(1) t j by (simp add: take_Suc_conv_app_nth)
qed

lemma bitparallel_loop:
  assumes "0 < length p" "length p \<le> ascii_bitparallel_max_pattern_len"
  defines "row_mask \<equiv> if length p = ascii_bitparallel_max_pattern_len then - 1 else push_bit (length p) 1 - 1"
  shows "snd (snd (foldl (bitparallel_step (eq_masks_from 0 p (\<lambda>_. 0)) row_mask (push_bit (length p - 1) 1))
    (row_mask, 0, length p) t)) = lev p t"
proof -
  have len: "length p \<le> 128"
    using assms(2) by (simp add: ascii_bitparallel_max_pattern_len_def)
  obtain positive negative where
    "foldl (bitparallel_step (eq_masks_from 0 p (\<lambda>_. 0)) row_mask (push_bit (length p - 1) 1))
      (row_mask, 0, length p) (take (length t) t) = (positive, negative, cell p t (length p) (length t))"
    using bitparallel_columns [OF assms(1) len, of row_mask "length t" t] bit_row_mask [OF len] row_mask_def
    by blast
  then show ?thesis by (simp only: cell_all take_all [OF order.refl] snd_conv)
qed

lemma bitparallel_lev:
  "bitparallel_levenshtein a b =
    (if min (length a) (length b) \<le> ascii_bitparallel_max_pattern_len then Some (lev a b) else None)"
proof -
  define body where "body p t = (if length p = 0 then Some (length t)
    else if length p > ascii_bitparallel_max_pattern_len then None
    else Some (snd (snd (foldl (bitparallel_step (eq_masks_from 0 p (\<lambda>_. 0))
      (if length p = ascii_bitparallel_max_pattern_len then - 1 else push_bit (length p) 1 - 1) (push_bit (length p - 1) 1))
      (if length p = ascii_bitparallel_max_pattern_len then - 1 else push_bit (length p) 1 - 1, 0, length p) t))))"
    for p t :: "byte list"
  have "body p t = (if length p \<le> ascii_bitparallel_max_pattern_len then Some (lev p t) else None)" for p t
  proof (cases "length p = 0")
    case False
    then have "0 < length p" by simp
    note loop = bitparallel_loop [OF this]
    show ?thesis
    proof (cases "length p \<le> ascii_bitparallel_max_pattern_len")
      case True
      then have "\<not> length p > ascii_bitparallel_max_pattern_len" by simp
      then show ?thesis
        unfolding body_def loop [OF True] by (simp only: False True if_False if_True)
    next
      case longer: False
      then have "length p > ascii_bitparallel_max_pattern_len" by simp
      then show ?thesis
        unfolding body_def by (simp only: False longer if_False if_True)
    qed
  qed (simp add: body_def)
  moreover have "bitparallel_levenshtein a b = (if length a \<le> length b then body a b else body b a)"
    by (cases "length a \<le> length b")
      (simp_all only: bitparallel_levenshtein_def body_def Let_def prod.case if_True if_False)
  ultimately show ?thesis
    by (simp add: min_def lev_commute)
qed

definition distance_bytes :: "byte list \<Rightarrow> byte list \<Rightarrow> nat" where
  "distance_bytes a b =
     (if a = b then 0 else if a = [] then length b else if b = [] then length a
      else case bitparallel_levenshtein a b of
             Some distance \<Rightarrow> distance
           | None \<Rightarrow> distance_non_empty_unequal a b)"

lemma distance_bytes_lev: "distance_bytes a b = lev a b"
  by (auto simp: distance_bytes_def bitparallel_lev distance_non_empty_unequal_lev)

section \<open>Properties\<close>

text \<open>C38: all the ways to measure the distance of two lines agree. The bit-parallel routine, which packs a
  column of the table into the 128 bits of two words and lets the carries of one addition run down it,
  answers for a pattern of at most 128 bytes and is exact there; the two-row program that takes over for
  longer patterns gives the same number; and that number is the cost of an edit script and no script
  costs less.\<close>

theorem distances_are_least_edit_costs:
  "distance_bytes a b = levenshtein_distance a b \<and> edit_cost a b (distance_bytes a b) \<and>
   (\<forall>c\<in>{c. edit_cost a b c}. distance_bytes a b \<le> c) \<and>
   bitparallel_levenshtein a b =
     (if min (length a) (length b) \<le> 128 then Some (levenshtein_distance a b) else None)"
  using edit_cost_lev [of a b] lev_least [of a b]
  by (auto simp: distance_bytes_lev levenshtein_distance_lev bitparallel_lev ascii_bitparallel_max_pattern_len_def)

theorem distances_are_least_edit_costs_witness:
  "distance_bytes (str ''cat'') (str ''cut'') \<le> 1"
proof -
  have "edit_cost (str ''cat'') (str ''cut'') 1"
    using edit_cost_lev [of "str ''cat''" "str ''cut''"] by (simp add: str_def of_bool_def)
  then show ?thesis
    using distances_are_least_edit_costs [of "str ''cat''" "str ''cut''"] by blast
qed

end
