(* ===== verification/Replacement.thy ===== *)
theory Replacement
  imports Levenshtein
begin

text \<open>
  How the side-by-side diff pairs the lines of a replaced block (\<open>file_diff.rs\<close>): the cost of showing
  two lines in one row, and the cheapest alignment of the deleted lines with the inserted ones, found
  by a dynamic program over two rows of costs with a table of steps that is traced back. The costs of
  repeated lines are cached.
\<close>

section \<open>The cost of a pair\<close>

definition replacement_align_cell_budget :: nat where "replacement_align_cell_budget = 50000"
definition replacement_gap_cost :: nat where "replacement_gap_cost = 100"
definition replacement_pair_base_cost :: nat where "replacement_pair_base_cost = 80"
definition replacement_pair_scale_cost :: nat where "replacement_pair_scale_cost = 120"
definition replacement_dissimilar_penalty_cost :: nat where "replacement_dissimilar_penalty_cost = 40"
definition replacement_dissimilar_penalty_min_len :: nat where "replacement_dissimilar_penalty_min_len = 4"

lemmas replacement_constants = replacement_align_cell_budget_def replacement_gap_cost_def
  replacement_pair_base_cost_def replacement_pair_scale_cost_def replacement_dissimilar_penalty_cost_def
  replacement_dissimilar_penalty_min_len_def

text \<open>Values of type \<open>u32\<close> are natural numbers; a cast drops the high bits.\<close>

definition as_u32 :: "nat \<Rightarrow> nat" where "as_u32 n = n mod 2 ^ 32"
definition u32_sat_add :: "nat \<Rightarrow> nat \<Rightarrow> nat" where "u32_sat_add a b = min (a + b) u32_max"
definition u32_sat_mul :: "nat \<Rightarrow> nat \<Rightarrow> nat" where "u32_sat_mul a b = min (a * b) u32_max"

text \<open>
  \<open>PreparedReplacementLine\<close>: the text, and its bytes when it is ASCII. The characters, which the code
  computes on demand, are the text itself.
\<close>

record prepared_line =
  pl_text :: utext
  pl_ascii_bytes :: "byte list option"

definition is_ascii :: "utext \<Rightarrow> bool" where
  "is_ascii t \<longleftrightarrow> list_all (\<lambda>c. c < 128) t"

definition prepare_line :: "utext \<Rightarrow> prepared_line" where
  "prepare_line t = \<lparr>pl_text = t, pl_ascii_bytes = (if is_ascii t then Some (as_bytes t) else None)\<rparr>"

definition shared_boundary_units :: "'a list \<Rightarrow> 'a list \<Rightarrow> nat \<times> nat" where
  "shared_boundary_units a b =
     (let prefix_len = common_prefix_len a b in (prefix_len, common_suffix_len prefix_len a b))"

text \<open>The prefix of two byte sequences is first walked in steps of one machine word, of 8 bytes.\<close>

definition word_bytes :: nat where "word_bytes = 8"

function word_prefix :: "byte list \<Rightarrow> byte list \<Rightarrow> nat \<Rightarrow> nat" where
  "word_prefix a b p =
     (if p + word_bytes \<le> min (length a) (length b) \<and> slice a p (p + word_bytes) = slice b p (p + word_bytes)
      then word_prefix a b (p + word_bytes) else p)"
  by pat_completeness auto
termination
  by (relation "measure (\<lambda>(a, b, p). length a - p)") (auto simp: word_bytes_def)

declare word_prefix.simps [simp del]

definition shared_boundary_bytes :: "byte list \<Rightarrow> byte list \<Rightarrow> nat \<times> nat" where
  "shared_boundary_bytes a b =
     (let p = word_prefix a b 0;
          prefix_len = p + common_prefix_len (drop p a) (drop p b)
      in (prefix_len, common_suffix_len prefix_len a b))"

definition replacement_pair_cost_with_shared_boundary ::
  "'a list \<Rightarrow> 'a list \<Rightarrow> nat \<Rightarrow> nat \<Rightarrow> ('a list \<Rightarrow> 'a list \<Rightarrow> nat) \<Rightarrow> nat" where
  "replacement_pair_cost_with_shared_boundary old_units new_units shared_prefix shared_suffix distance_fn =
     (let max_len_usize = max (max (length old_units) (length new_units)) 1;
          max_len = as_u32 max_len_usize;
          old_trimmed = slice old_units shared_prefix (length old_units - shared_suffix);
          new_trimmed = slice new_units shared_prefix (length new_units - shared_suffix);
          trimmed_cells = sat_mul (length old_trimmed) (length new_trimmed);
          distance = (if old_trimmed = [] \<or> new_trimmed = [] then as_u32 (length old_trimmed + length new_trimmed)
                      else if trimmed_cells > replacement_align_cell_budget
                      then min (max (length old_trimmed) (length new_trimmed)) u32_max
                      else distance_fn old_trimmed new_trimmed);
          cost = replacement_pair_base_cost
                 + u32_sat_mul (min distance max_len) replacement_pair_scale_cost div max_len
      in (if shared_prefix = 0 \<and> shared_suffix = 0 \<and> max_len_usize \<ge> replacement_dissimilar_penalty_min_len
          then u32_sat_add cost replacement_dissimilar_penalty_cost else cost))"

definition replacement_pair_cost_with_distance ::
  "'a list \<Rightarrow> 'a list \<Rightarrow> ('a list \<Rightarrow> 'a list \<Rightarrow> nat) \<Rightarrow> nat" where
  "replacement_pair_cost_with_distance old_units new_units distance_fn =
     (case shared_boundary_units old_units new_units of (shared_prefix, shared_suffix) \<Rightarrow>
        replacement_pair_cost_with_shared_boundary old_units new_units shared_prefix shared_suffix distance_fn)"

definition replacement_pair_cost :: "prepared_line \<Rightarrow> prepared_line \<Rightarrow> nat" where
  "replacement_pair_cost old new =
     (if pl_text old = pl_text new then 0
      else case (pl_ascii_bytes old, pl_ascii_bytes new) of
        (Some old_bytes, Some new_bytes) \<Rightarrow>
          (case shared_boundary_bytes old_bytes new_bytes of (shared_prefix, shared_suffix) \<Rightarrow>
             replacement_pair_cost_with_shared_boundary old_bytes new_bytes shared_prefix shared_suffix
               (\<lambda>a b. as_u32 (distance_bytes a b)))
      | _ \<Rightarrow> replacement_pair_cost_with_distance (pl_text old) (pl_text new) (\<lambda>a b. as_u32 (levenshtein_distance a b)))"

section \<open>Cached costs\<close>

text \<open>\<open>prepare_replacement_text_cache_ids\<close>: each text is numbered by its first occurrence.\<close>

record cache_ids =
  ci_ids :: "nat list"
  ci_unique_texts :: nat
  ci_has_duplicates :: bool

fun text_ids_from :: "utext list \<Rightarrow> prepared_line list \<Rightarrow> nat list \<times> utext list" where
  "text_ids_from seen [] = ([], seen)"
| "text_ids_from seen (l # ls) =
     (case position (\<lambda>t. t = pl_text l) seen of
        Some k \<Rightarrow> (case text_ids_from seen ls of (ids, seen') \<Rightarrow> (k # ids, seen'))
      | None \<Rightarrow> (case text_ids_from (seen @ [pl_text l]) ls of (ids, seen') \<Rightarrow> (length seen # ids, seen')))"

definition prepare_replacement_text_cache_ids :: "prepared_line list \<Rightarrow> cache_ids" where
  "prepare_replacement_text_cache_ids ls =
     (case text_ids_from [] ls of (ids, texts) \<Rightarrow>
        \<lparr>ci_ids = ids, ci_unique_texts = length texts, ci_has_duplicates = length texts < length ls\<rparr>)"

text \<open>One lookup: \<open>u32::MAX\<close> marks an entry that has not been computed.\<close>

definition cached_pair_cost ::
  "(prepared_line \<Rightarrow> prepared_line \<Rightarrow> nat) \<Rightarrow> nat \<Rightarrow> prepared_line \<times> nat \<Rightarrow> prepared_line \<times> nat \<Rightarrow> nat list option \<Rightarrow>
    nat \<times> nat list option" where
  "cached_pair_cost pair_cost_fn unique_inserts d i cache =
     (case cache of
        None \<Rightarrow> (pair_cost_fn (fst d) (fst i), None)
      | Some costs \<Rightarrow>
          (let k = snd d * unique_inserts + snd i
           in if costs ! k = u32_max
              then (let computed = pair_cost_fn (fst d) (fst i) in (computed, Some (costs[k := computed])))
              else (costs ! k, cache)))"

section \<open>The cheapest alignment\<close>

datatype align_step = Step_None | Step_Pair | Step_Delete | Step_Insert
datatype planned_op = Op_Pair | Op_Delete | Op_Insert

text \<open>
  The cells of one row from left to right. The list of the previous row starts at the cell above on
  the left; \<open>left\<close> is the cost of the cell to the left.
\<close>

fun align_cells ::
  "(prepared_line \<Rightarrow> prepared_line \<Rightarrow> nat) \<Rightarrow> nat \<Rightarrow> prepared_line \<times> nat \<Rightarrow> (prepared_line \<times> nat) list \<Rightarrow> nat list \<Rightarrow>
    nat \<Rightarrow> nat list option \<Rightarrow> nat list \<times> align_step list \<times> nat list option" where
  "align_cells f u d (i # is) (up_left # up # prev) left cache =
     (case cached_pair_cost f u d i cache of (pair_cost_value, cache) \<Rightarrow>
        (let pair_cost = u32_sat_add up_left pair_cost_value;
             insert_cost = u32_sat_add left replacement_gap_cost;
             delete_cost = u32_sat_add up replacement_gap_cost;
             (best_cost, best_step) = (if insert_cost < pair_cost then (insert_cost, Step_Insert) else (pair_cost, Step_Pair));
             (best_cost, best_step) = (if delete_cost < best_cost then (delete_cost, Step_Delete) else (best_cost, best_step))
         in case align_cells f u d is (up # prev) best_cost cache of (costs, steps, cache) \<Rightarrow>
              (best_cost # costs, best_step # steps, cache)))"
| "align_cells f u d is prev left cache = ([], [], cache)"

fun align_rows ::
  "(prepared_line \<Rightarrow> prepared_line \<Rightarrow> nat) \<Rightarrow> nat \<Rightarrow> nat \<Rightarrow> (prepared_line \<times> nat) list \<Rightarrow> (prepared_line \<times> nat) list \<Rightarrow>
    nat list \<Rightarrow> nat list option \<Rightarrow> align_step list list" where
  "align_rows f u i [] inserts prev_costs cache = []"
| "align_rows f u i (d # ds) inserts prev_costs cache =
     (let first = as_u32 i * replacement_gap_cost
      in case align_cells f u d inserts prev_costs first cache of (costs, steps, cache) \<Rightarrow>
           (Step_Delete # steps) # align_rows f u (i + 1) ds inserts (first # costs) cache)"

text \<open>Tracing the steps back from the last cell; the operations come out last first.\<close>

function trace_steps :: "align_step list list \<Rightarrow> nat \<Rightarrow> nat \<Rightarrow> planned_op list" where
  "trace_steps table i j =
     (if i = 0 \<and> j = 0 then []
      else (let step = table ! i ! j
            in if step = Step_Pair \<and> i > 0 \<and> j > 0 then Op_Pair # trace_steps table (i - 1) (j - 1)
               else if step = Step_Insert \<and> j > 0 then Op_Insert # trace_steps table i (j - 1)
               else if step = Step_Delete \<and> i > 0 then Op_Delete # trace_steps table (i - 1) j
               else if j > 0 then Op_Insert # trace_steps table i (j - 1)
               else Op_Delete # trace_steps table (i - 1) j))"
  by pat_completeness auto
termination
  by (relation "measure (\<lambda>(table, i, j). i + j)") auto

declare trace_steps.simps [simp del]

definition replacement_alignment_ops_with_pair_cost ::
  "prepared_line list \<Rightarrow> prepared_line list \<Rightarrow> (prepared_line \<Rightarrow> prepared_line \<Rightarrow> nat) \<Rightarrow> planned_op list" where
  "replacement_alignment_ops_with_pair_cost deletes inserts pair_cost_fn =
     (let n = length deletes;
          m = length inserts;
          delete_text_ids = prepare_replacement_text_cache_ids deletes;
          insert_text_ids = prepare_replacement_text_cache_ids inserts;
          cache = (if ci_has_duplicates delete_text_ids \<or> ci_has_duplicates insert_text_ids
                   then Some (replicate (ci_unique_texts delete_text_ids * ci_unique_texts insert_text_ids) u32_max)
                   else None);
          first_costs = map (\<lambda>j. as_u32 j * replacement_gap_cost) [0..<m + 1];
          table = (Step_None # replicate m Step_Insert)
                  # align_rows pair_cost_fn (ci_unique_texts insert_text_ids) 1 (zip deletes (ci_ids delete_text_ids))
                      (zip inserts (ci_ids insert_text_ids)) first_costs cache
      in rev (trace_steps table n m))"

section \<open>The boundaries\<close>

lemma take_word_prefix: "p \<le> length a \<Longrightarrow> p \<le> length b \<Longrightarrow> take p a = take p b \<Longrightarrow>
  take (word_prefix a b p) a = take (word_prefix a b p) b \<and> word_prefix a b p \<le> length a \<and> word_prefix a b p \<le> length b"
proof (induction a b p rule: word_prefix.induct)
  case (1 a b p)
  show ?case
  proof (cases "p + word_bytes \<le> min (length a) (length b) \<and> slice a p (p + word_bytes) = slice b p (p + word_bytes)")
    case True
    then have "take (p + word_bytes) a = take (p + word_bytes) b"
      using 1(4) take_append_slice [of p "p + word_bytes" a] take_append_slice [of p "p + word_bytes" b] by simp
    then show ?thesis
      using True 1(1) by (simp add: word_prefix.simps [of a b p])
  next
    case False
    then have "word_prefix a b p = p"
      by (simp only: word_prefix.simps [of a b p] if_False)
    then show ?thesis using 1(2-4) by simp
  qed
qed

lemma common_prefix_drop:
  "take p a = take p b \<Longrightarrow> p \<le> length a \<Longrightarrow> p \<le> length b \<Longrightarrow>
    p + common_prefix_len (drop p a) (drop p b) = common_prefix_len a b"
proof (induction p arbitrary: a b)
  case (Suc p)
  then show ?case by (cases a; cases b) auto
qed simp

lemma shared_boundary_bytes: "shared_boundary_bytes a b = shared_boundary_units a b"
  using take_word_prefix [of 0 a b] common_prefix_drop [of "word_prefix a b 0" a b]
  by (simp add: shared_boundary_bytes_def shared_boundary_units_def Let_def)

lemma as_bytes_ascii: "is_ascii t \<Longrightarrow> as_bytes t = t"
  by (induction t) (auto simp: is_ascii_def as_bytes_def utf8_char_def)

text \<open>The cost without the bytes: both representations of a line give the same.\<close>

definition line_pair_cost :: "utext \<Rightarrow> utext \<Rightarrow> nat" where
  "line_pair_cost a b =
     (if a = b then 0
      else replacement_pair_cost_with_distance a b (\<lambda>x y. as_u32 (lev x y)))"

lemma replacement_pair_cost: "replacement_pair_cost (prepare_line a) (prepare_line b) = line_pair_cost a b"
  by (simp add: replacement_pair_cost_def line_pair_cost_def prepare_line_def shared_boundary_bytes as_bytes_ascii
      replacement_pair_cost_with_distance_def distance_bytes_lev levenshtein_distance_lev)

lemma scaled_distance_le: "u32_sat_mul (min d n) 120 div n \<le> 120"
proof (cases "n = 0")
  case False
  have "u32_sat_mul (min d n) 120 div n \<le> n * 120 div n"
    by (rule div_le_mono) (simp add: u32_sat_mul_def min_le_iff_disj)
  then show ?thesis using False by simp
qed simp

lemma pair_cost_le: "replacement_pair_cost_with_shared_boundary a b p s f \<le> 240"
proof -
  have "(if P then u32_sat_add (80 + c) 40 else 80 + c) \<le> 240" if "c \<le> 120" for P c
    using that by (simp add: u32_sat_add_def min_le_iff_disj)
  from this [OF scaled_distance_le] show ?thesis
    unfolding replacement_pair_cost_with_shared_boundary_def Let_def replacement_constants
    .
qed

lemma line_pair_cost_le: "line_pair_cost a b \<le> 240"
  using pair_cost_le by (auto simp: line_pair_cost_def replacement_pair_cost_with_distance_def split: prod.split)

section \<open>The reference alignment\<close>

text \<open>Operations in order, from delete \<open>i\<close> and insert \<open>j\<close> on, and what showing them costs.\<close>

definition ops_deletes :: "planned_op list \<Rightarrow> nat" where
  "ops_deletes ops = length (filter (\<lambda>op. op \<noteq> Op_Insert) ops)"

definition ops_inserts :: "planned_op list \<Rightarrow> nat" where
  "ops_inserts ops = length (filter (\<lambda>op. op \<noteq> Op_Delete) ops)"

fun ops_cost :: "(nat \<Rightarrow> nat \<Rightarrow> nat) \<Rightarrow> nat \<Rightarrow> nat \<Rightarrow> planned_op list \<Rightarrow> nat" where
  "ops_cost c i j [] = 0"
| "ops_cost c i j (Op_Pair # ops) = c i j + ops_cost c (i + 1) (j + 1) ops"
| "ops_cost c i j (Op_Delete # ops) = replacement_gap_cost + ops_cost c (i + 1) j ops"
| "ops_cost c i j (Op_Insert # ops) = replacement_gap_cost + ops_cost c i (j + 1) ops"

lemma ops_cost_snoc:
  "ops_cost c i j (ops @ [op]) = ops_cost c i j ops +
     (if op = Op_Pair then c (i + ops_deletes ops) (j + ops_inserts ops) else replacement_gap_cost)"
proof (induction ops arbitrary: i j)
  case Nil
  then show ?case by (cases op) (simp_all add: ops_deletes_def ops_inserts_def)
next
  case (Cons o' ops)
  then show ?case by (cases o') (simp_all add: ops_deletes_def ops_inserts_def)
qed

lemma ops_counts_snoc:
  "ops_deletes (ops @ [op]) = ops_deletes ops + of_bool (op \<noteq> Op_Insert)"
  "ops_inserts (ops @ [op]) = ops_inserts ops + of_bool (op \<noteq> Op_Delete)"
  by (simp_all add: ops_deletes_def ops_inserts_def)

fun best_cost :: "(nat \<Rightarrow> nat \<Rightarrow> nat) \<Rightarrow> nat \<Rightarrow> nat \<Rightarrow> nat" where
  "best_cost c 0 j = j * replacement_gap_cost"
| "best_cost c (Suc i) 0 = Suc i * replacement_gap_cost"
| "best_cost c (Suc i) (Suc j) =
     min (min (best_cost c i j + c i j) (best_cost c (Suc i) j + replacement_gap_cost)) (best_cost c i (Suc j) + replacement_gap_cost)"

lemma best_cost_0 [simp]: "best_cost c i 0 = i * replacement_gap_cost"
  by (cases i) simp_all

lemma best_cost_le: "best_cost c i j \<le> (i + j) * replacement_gap_cost"
  by (induction c i j rule: best_cost.induct) (auto simp: min_le_iff_disj algebra_simps)

lemma best_cost_gap:
  "best_cost c (Suc i) j \<le> best_cost c i j + replacement_gap_cost"
  "best_cost c i (Suc j) \<le> best_cost c i j + replacement_gap_cost"
  by (cases j; simp) (cases i; simp)

lemma best_cost_least: "best_cost c (ops_deletes ops) (ops_inserts ops) \<le> ops_cost c 0 0 ops"
proof (induction ops rule: rev_induct)
  case (snoc op ops)
  then show ?case
    using best_cost_gap [of c "ops_deletes ops" "ops_inserts ops"]
    by (cases op) (auto simp: ops_cost_snoc ops_counts_snoc min_le_iff_disj)
qed (simp add: ops_deletes_def ops_inserts_def)

section \<open>The cache\<close>

text \<open>Lines with their numbers: equal numbers mean equal lines, and the numbers of the inserts are below \<open>u\<close>.\<close>

definition ids_ok :: "nat \<Rightarrow> (prepared_line \<times> nat) list \<Rightarrow> (prepared_line \<times> nat) list \<Rightarrow> bool" where
  "ids_ok u ds is \<longleftrightarrow>
     (\<forall>d\<in>set ds. \<forall>d'\<in>set ds. snd d = snd d' \<longrightarrow> fst d = fst d') \<and>
     (\<forall>i\<in>set is. \<forall>i'\<in>set is. snd i = snd i' \<longrightarrow> fst i = fst i') \<and> (\<forall>i\<in>set is. snd i < u)"

definition cache_ok ::
  "(prepared_line \<Rightarrow> prepared_line \<Rightarrow> nat) \<Rightarrow> nat \<Rightarrow> (prepared_line \<times> nat) list \<Rightarrow> (prepared_line \<times> nat) list \<Rightarrow>
    nat list option \<Rightarrow> bool" where
  "cache_ok f u ds is cache \<longleftrightarrow>
     (case cache of
        None \<Rightarrow> True
      | Some costs \<Rightarrow> \<forall>d\<in>set ds. \<forall>i\<in>set is. snd d * u + snd i < length costs \<and>
          (costs ! (snd d * u + snd i) = u32_max \<or> costs ! (snd d * u + snd i) = f (fst d) (fst i)))"

lemma divmod_unique:
  assumes "a * u + x = b * u + (y :: nat)" "x < u" "y < u"
  shows "a = b" "x = y"
proof -
  have "a = (a * u + x) div u" "b = (b * u + y) div u" using assms(2,3) by simp_all
  then show "a = b" using assms(1) by simp
  then show "x = y" using assms(1) by simp
qed

lemma cached_pair_cost:
  assumes "ids_ok u ds is" "cache_ok f u ds is cache" "d \<in> set ds" "i \<in> set is"
  shows "\<exists>cache'. cached_pair_cost f u d i cache = (f (fst d) (fst i), cache') \<and> cache_ok f u ds is cache'"
proof (cases cache)
  case None
  then show ?thesis by (simp add: cached_pair_cost_def cache_ok_def)
next
  case (Some costs)
  let ?k = "snd d * u + snd i"
  have k: "?k < length costs" "costs ! ?k = u32_max \<or> costs ! ?k = f (fst d) (fst i)"
    using assms(2-4) Some by (auto simp: cache_ok_def)
  have same: "fst d' = fst d \<and> fst i' = fst i" if "d' \<in> set ds" "i' \<in> set is" "snd d' * u + snd i' = ?k" for d' i'
  proof -
    have u: "snd i < u" "snd i' < u"
      using assms(1,4) that(2) by (auto simp: ids_ok_def)
    then have "snd d' = snd d" "snd i' = snd i"
      using divmod_unique [OF that(3)] by simp_all
    then show ?thesis
      using assms(1,3,4) that(1,2) unfolding ids_ok_def by metis
  qed
  show ?thesis
  proof (cases "costs ! ?k = u32_max")
    case True
    have "cache_ok f u ds is (Some (costs[?k := f (fst d) (fst i)]))"
      unfolding cache_ok_def option.case
    proof (intro ballI)
      fix d' i'
      assume m: "d' \<in> set ds" "i' \<in> set is"
      then have "snd d' * u + snd i' < length costs" "costs ! (snd d' * u + snd i') = u32_max \<or>
          costs ! (snd d' * u + snd i') = f (fst d') (fst i')"
        using assms(2) Some by (auto simp: cache_ok_def)
      then show "snd d' * u + snd i' < length (costs[?k := f (fst d) (fst i)]) \<and>
          (costs[?k := f (fst d) (fst i)] ! (snd d' * u + snd i') = u32_max \<or>
           costs[?k := f (fst d) (fst i)] ! (snd d' * u + snd i') = f (fst d') (fst i'))"
        using same [OF m] k(1) by (cases "snd d' * u + snd i' = ?k") simp_all
    qed
    then show ?thesis
      using True Some by (simp add: cached_pair_cost_def Let_def)
  next
    case False
    then show ?thesis
      using k(2) Some assms(2) by (simp add: cached_pair_cost_def Let_def)
  qed
qed

lemma text_ids:
  "text_ids_from seen ls = (ids, texts) \<Longrightarrow> distinct seen \<Longrightarrow>
    length ids = length ls \<and> distinct texts \<and> prefix seen texts \<and>
    (\<forall>k<length ls. ids ! k < length texts \<and> texts ! (ids ! k) = pl_text (ls ! k))"
proof (induction ls arbitrary: seen ids)
  case (Cons l ls)
  obtain k0 seen0 where step: "k0 < length seen0" "seen0 ! k0 = pl_text l" "distinct seen0" "prefix seen seen0"
    and rest: "text_ids_from seen (l # ls) = (case text_ids_from seen0 ls of (ids, seen') \<Rightarrow> (k0 # ids, seen'))"
  proof (cases "position (\<lambda>t. t = pl_text l) seen")
    case None
    then have "pl_text l \<notin> set seen" by (auto simp: position_None)
    then show ?thesis
      using None Cons.prems(2) that [of "length seen" "seen @ [pl_text l]"] by simp
  next
    case (Some k)
    then show ?thesis
      using position_SomeD [OF Some] Cons.prems(2) that [of k seen] by simp
  qed
  obtain ids0 where ids0: "text_ids_from seen0 ls = (ids0, texts)" "ids = k0 # ids0"
    using Cons.prems(1) rest by (auto split: prod.splits)
  note IH = Cons.IH [OF ids0(1) step(3)]
  have "k0 < length texts" "texts ! k0 = pl_text l"
    using IH step(1,2) by (auto elim!: prefixE simp: nth_append)
  then show ?case
    using IH step(4) ids0(2) by (auto simp: nth_Cons split: nat.splits)
qed simp

section \<open>The table\<close>

fun best_step :: "(nat \<Rightarrow> nat \<Rightarrow> nat) \<Rightarrow> nat \<Rightarrow> nat \<Rightarrow> align_step" where
  "best_step c 0 0 = Step_None"
| "best_step c 0 (Suc j) = Step_Insert"
| "best_step c (Suc i) 0 = Step_Delete"
| "best_step c (Suc i) (Suc j) =
     (if best_cost c i (Suc j) + replacement_gap_cost < min (best_cost c i j + c i j) (best_cost c (Suc i) j + replacement_gap_cost)
      then Step_Delete
      else if best_cost c (Suc i) j + replacement_gap_cost < best_cost c i j + c i j then Step_Insert else Step_Pair)"

lemma u32_sat_add_small: "a + b \<le> u32_max \<Longrightarrow> u32_sat_add a b = a + b"
  by (simp add: u32_sat_add_def)

lemma align_cells_best:
  fixes f ds ins n m
  defines "c \<equiv> \<lambda>i j. f (fst (ds ! i)) (fst (ins ! j))" and "m \<equiv> length ins"
  assumes ids: "ids_ok u ds ins" and i: "i < length ds" and costs: "\<And>a b. f a b \<le> k"
    and bound: "(length ds + m) * replacement_gap_cost + k + replacement_gap_cost \<le> u32_max"
  shows "j \<le> m \<Longrightarrow> cache_ok f u ds ins cache \<Longrightarrow>
    \<exists>cache'. align_cells f u (ds ! i) (drop j ins) (map (best_cost c i) [j..<Suc m]) (best_cost c (Suc i) j) cache
      = (map (best_cost c (Suc i)) [Suc j..<Suc m], map (best_step c (Suc i)) [Suc j..<Suc m], cache') \<and>
      cache_ok f u ds ins cache'"
proof (induction "m - j" arbitrary: j cache)
  case 0
  then show ?case by (simp add: m_def)
next
  case (Suc l)
  then have j: "j < m" by simp
  obtain cache1 where c1: "cached_pair_cost f u (ds ! i) (ins ! j) cache = (c i j, cache1)" "cache_ok f u ds ins cache1"
    using cached_pair_cost [OF ids Suc.prems(2)] i j unfolding c_def m_def by (meson nth_mem)
  obtain cache2 where IH: "align_cells f u (ds ! i) (drop (Suc j) ins) (map (best_cost c i) [Suc j..<Suc m])
      (best_cost c (Suc i) (Suc j)) cache1
      = (map (best_cost c (Suc i)) [Suc (Suc j)..<Suc m], map (best_step c (Suc i)) [Suc (Suc j)..<Suc m], cache2)"
    "cache_ok f u ds ins cache2"
  proof -
    have "l = m - Suc j" "Suc j \<le> m" using Suc.hyps(2) j by simp_all
    from Suc.hyps(1) [OF this c1(2)] show thesis using that by blast
  qed
  have small: "a + j' \<le> length ds + m \<Longrightarrow> best_cost c a j' + k + replacement_gap_cost \<le> u32_max" for a j'
  proof -
    assume "a + j' \<le> length ds + m"
    then have "(a + j') * replacement_gap_cost \<le> (length ds + m) * replacement_gap_cost"
      by (rule mult_le_mono1)
    then show ?thesis using best_cost_le [of c a j'] bound by linarith
  qed
  have ck: "c i j \<le> k" by (simp add: c_def costs)
  have sat: "u32_sat_add (best_cost c i j) (c i j) = best_cost c i j + c i j"
    "u32_sat_add (best_cost c (Suc i) j) replacement_gap_cost = best_cost c (Suc i) j + replacement_gap_cost"
    "u32_sat_add (best_cost c i (Suc j)) replacement_gap_cost = best_cost c i (Suc j) + replacement_gap_cost"
    using small [of i j] small [of "Suc i" j] small [of i "Suc j"] i j ck by (simp_all add: u32_sat_add_small)
  have lists: "drop j ins = ins ! j # drop (Suc j) ins" "map h [Suc j..<Suc m] = h (Suc j) # map h [Suc (Suc j)..<Suc m]"
    "map g [j..<Suc m] = g j # g (Suc j) # map g [Suc (Suc j)..<Suc m]"
    "map g [Suc j..<Suc m] = g (Suc j) # map g [Suc (Suc j)..<Suc m]" for g :: "nat \<Rightarrow> nat" and h :: "nat \<Rightarrow> align_step"
    using j by (simp_all add: m_def Cons_nth_drop_Suc upt_conv_Cons del: upt_Suc)
  define best where "best = best_cost c (Suc i) (Suc j)"
  have best: "best = min (min (best_cost c i j + c i j) (best_cost c (Suc i) j + replacement_gap_cost))
      (best_cost c i (Suc j) + replacement_gap_cost)"
    by (simp add: best_def)
  have "align_cells f u (ds ! i) (drop j ins) (map (best_cost c i) [j..<Suc m]) (best_cost c (Suc i) j) cache
      = (best # map (best_cost c (Suc i)) [Suc (Suc j)..<Suc m],
         best_step c (Suc i) (Suc j) # map (best_step c (Suc i)) [Suc (Suc j)..<Suc m], cache2)"
    using IH(1) unfolding lists(1,3) lists(4) [of "best_cost c i"] best_def [symmetric]
    by (auto simp: c1(1) sat best min_def simp del: upt_Suc best_cost.simps split: if_split)
  then show ?case
    using IH(2) unfolding lists(4) [of "best_cost c (Suc i)"] lists(2) best_def by blast
qed

lemma align_rows_best:
  fixes f ds ins n m
  defines "c \<equiv> \<lambda>i j. f (fst (ds ! i)) (fst (ins ! j))" and "m \<equiv> length ins"
  assumes ids: "ids_ok u ds ins" and costs: "\<And>a b. f a b \<le> k"
    and bound: "(length ds + m) * replacement_gap_cost + k + replacement_gap_cost \<le> u32_max"
  shows "i \<le> length ds \<Longrightarrow> cache_ok f u ds ins cache \<Longrightarrow>
    align_rows f u (Suc i) (drop i ds) ins (map (best_cost c i) [0..<Suc m]) cache
      = map (\<lambda>i. map (best_step c i) [0..<Suc m]) [Suc i..<Suc (length ds)]"
proof (induction "length ds - i" arbitrary: i cache)
  case 0
  then show ?case by simp
next
  case (Suc l)
  then have i: "i < length ds" "l = length ds - Suc i" by simp_all
  have first: "as_u32 (Suc i) * replacement_gap_cost = best_cost c (Suc i) 0"
    using bound i by (simp add: as_u32_def u32_max_def replacement_gap_cost_def)
  obtain cache' where row: "align_cells f u (ds ! i) ins (map (best_cost c i) [0..<Suc m]) (best_cost c (Suc i) 0) cache
      = (map (best_cost c (Suc i)) [Suc 0..<Suc m], map (best_step c (Suc i)) [Suc 0..<Suc m], cache')"
    "cache_ok f u ds ins cache'"
    using align_cells_best [where f = f and ds = ds and ins = ins and j = 0 and cache = cache, OF ids i(1) costs] bound Suc.prems(2) unfolding c_def m_def by auto
  have zero: "map g [0..<Suc m] = g 0 # map g [Suc 0..<Suc m]" for g :: "nat \<Rightarrow> 'z"
    by (simp add: upt_conv_Cons del: upt_Suc)
  have "align_rows f u (Suc (Suc i)) (drop (Suc i) ds) ins (map (best_cost c (Suc i)) [0..<Suc m]) cache'
      = map (\<lambda>i. map (best_step c i) [0..<Suc m]) [Suc (Suc i)..<Suc (length ds)]"
    using Suc.hyps(1) [OF i(2) _ row(2)] i by simp
  moreover have "drop i ds = ds ! i # drop (Suc i) ds"
    "[Suc i..<Suc (length ds)] = Suc i # [Suc (Suc i)..<Suc (length ds)]"
    using i by (simp_all add: Cons_nth_drop_Suc upt_conv_Cons del: upt_Suc)
  ultimately show ?case
    by (simp only: align_rows.simps Let_def first row(1) prod.case zero [of "best_step c (Suc i)"]
        zero [of "best_cost c (Suc i)"] list.map best_step.simps add_Suc_right add_0_right One_nat_def)
qed

lemma trace_best:
  fixes table
  assumes "\<And>i j. i \<le> n \<Longrightarrow> j \<le> m \<Longrightarrow> table ! i ! j = best_step c i j"
  shows "i \<le> n \<Longrightarrow> j \<le> m \<Longrightarrow>
    ops_deletes (rev (trace_steps table i j)) = i \<and> ops_inserts (rev (trace_steps table i j)) = j \<and>
    ops_cost c 0 0 (rev (trace_steps table i j)) = best_cost c i j"
proof (induction "i + j" arbitrary: i j rule: less_induct)
  case less
  note step = assms [OF less.prems]
  show ?case
  proof (cases i)
    case 0
    show ?thesis
    proof (cases j)
      case (Suc j')
      then have "trace_steps table i j = Op_Insert # trace_steps table i j'"
        unfolding trace_steps.simps [of table i j] using 0 step Suc by simp
      then show ?thesis
        using less.hyps [of i j'] less.prems 0 Suc by (simp add: ops_cost_snoc ops_counts_snoc)
    qed (simp add: 0 trace_steps.simps [of table 0 0] ops_deletes_def ops_inserts_def)
  next
    case i: (Suc i')
    show ?thesis
    proof (cases j)
      case 0
      then have "trace_steps table i j = Op_Delete # trace_steps table i' j"
        unfolding trace_steps.simps [of table i j] using i step 0 by simp
      then show ?thesis
        using less.hyps [of i' j] less.prems 0 i by (simp add: ops_cost_snoc ops_counts_snoc)
    next
      case (Suc j')
      note IH = less.hyps [of i' j'] less.hyps [of i' j] less.hyps [of i j']
      define pr ins dl where "pr = best_cost c i' j' + c i' j'" and "ins = best_cost c i j' + replacement_gap_cost"
        and "dl = best_cost c i' j + replacement_gap_cost"
      have "table ! i ! j = (if dl < min pr ins then Step_Delete else if ins < pr then Step_Insert else Step_Pair)"
        "best_cost c i j = min (min pr ins) dl"
        using step by (simp_all add: i Suc pr_def ins_def dl_def)
      then consider "table ! i ! j = Step_Delete" "best_cost c i j = best_cost c i' j + replacement_gap_cost"
        | "table ! i ! j = Step_Insert" "best_cost c i j = best_cost c i j' + replacement_gap_cost"
        | "table ! i ! j = Step_Pair" "best_cost c i j = best_cost c i' j' + c i' j'"
        unfolding pr_def [symmetric] ins_def [symmetric] dl_def [symmetric]
        by (cases "dl < min pr ins"; cases "ins < pr") auto
      then show ?thesis
      proof cases
        case 1
        then have "trace_steps table i j = Op_Delete # trace_steps table i' j"
          unfolding trace_steps.simps [of table i j] using i Suc by simp
        then show ?thesis
          using IH(2) less.prems 1(2) i Suc by (simp add: ops_cost_snoc ops_counts_snoc)
      next
        case 2
        then have "trace_steps table i j = Op_Insert # trace_steps table i j'"
          unfolding trace_steps.simps [of table i j] using i Suc by simp
        then show ?thesis
          using IH(3) less.prems 2(2) i Suc by (simp add: ops_cost_snoc ops_counts_snoc)
      next
        case 3
        then have "trace_steps table i j = Op_Pair # trace_steps table i' j'"
          unfolding trace_steps.simps [of table i j] using i Suc by simp
        then show ?thesis
          using IH(1) less.prems 3(2) i Suc by (simp add: ops_cost_snoc ops_counts_snoc)
      qed
    qed
  qed
qed

lemma best_cost_cong:
  "(\<And>x y. x < i \<Longrightarrow> y < j \<Longrightarrow> c x y = c' x y) \<Longrightarrow> best_cost c i j = best_cost c' i j"
  by (induction c i j rule: best_cost.induct) simp_all

lemma ops_cost_cong:
  "(\<And>x y. x < i + ops_deletes ops \<Longrightarrow> y < j + ops_inserts ops \<Longrightarrow> c x y = c' x y) \<Longrightarrow>
    ops_cost c i j ops = ops_cost c' i j ops"
proof (induction ops arbitrary: i j)
  case (Cons op ops)
  then show ?case by (cases op) (simp_all add: ops_deletes_def ops_inserts_def)
qed simp

lemma zip_same_ids:
  assumes "length ids = length ls" "\<And>x y. x < length ls \<Longrightarrow> y < length ls \<Longrightarrow> ids ! x = ids ! y \<Longrightarrow> ls ! x = ls ! y"
    and "d \<in> set (zip ls ids)" "d' \<in> set (zip ls ids)" "snd d = snd d'"
  shows "fst d = fst d'"
proof -
  obtain x y where x: "d = (ls ! x, ids ! x)" "x < length ls" and y: "d' = (ls ! y, ids ! y)" "y < length ls"
    using assms(1,3,4) unfolding set_zip by auto
  have "ids ! x = ids ! y" using assms(5) x(1) y(1) by simp
  from assms(2) [OF x(2) y(2) this] show ?thesis using x(1) y(1) by simp
qed

lemma alignment_ops_best:
  fixes deletes inserts f
  defines "n \<equiv> length deletes" and "m \<equiv> length inserts" and "c \<equiv> \<lambda>i j. f (deletes ! i) (inserts ! j)"
  assumes prepared: "\<forall>l\<in>set deletes \<union> set inserts. l = prepare_line (pl_text l)" and costs: "\<And>a b. f a b \<le> k"
    and bound: "(n + m) * replacement_gap_cost + k + replacement_gap_cost \<le> u32_max"
  defines "ops \<equiv> replacement_alignment_ops_with_pair_cost deletes inserts f"
  shows "ops_deletes ops = n" "ops_inserts ops = m" "ops_cost c 0 0 ops = best_cost c n m"
proof -
  obtain dids dtexts where d: "text_ids_from [] deletes = (dids, dtexts)" by fastforce
  obtain iids itexts where i: "text_ids_from [] inserts = (iids, itexts)" by fastforce
  note dt = text_ids [OF d] and it = text_ids [OF i]
  let ?ds = "zip deletes dids" and ?is = "zip inserts iids" and ?u = "length itexts"
  define cache where "cache = (if length dtexts < n \<or> length itexts < m
    then Some (replicate (length dtexts * ?u) u32_max) else None)"
  have same: "ls ! x = ls ! y" if "text_ids_from [] ls = (ids, texts)" "x < length ls" "y < length ls"
    "ids ! x = ids ! y" "\<forall>l\<in>set ls. l = prepare_line (pl_text l)" for ls ids texts x y
  proof -
    have "pl_text (ls ! x) = pl_text (ls ! y)"
      using text_ids [OF that(1)] that(2-4) by (metis distinct.simps(1))
    moreover have "ls ! x = prepare_line (pl_text (ls ! x))" "ls ! y = prepare_line (pl_text (ls ! y))"
      using that(2,3,5) by simp_all
    ultimately show ?thesis by metis
  qed
  have ids: "ids_ok ?u ?ds ?is"
    unfolding ids_ok_def
  proof (intro conjI ballI impI)
    show "fst x = fst y" if "x \<in> set ?ds" "y \<in> set ?ds" "snd x = snd y" for x y
      by (rule zip_same_ids [OF _ same [OF d] that]) (use dt prepared in simp_all)
    show "fst x = fst y" if "x \<in> set ?is" "y \<in> set ?is" "snd x = snd y" for x y
      by (rule zip_same_ids [OF _ same [OF i] that]) (use it prepared in simp_all)
    show "snd x < ?u" if "x \<in> set ?is" for x
      using that it by (auto simp: set_zip)
  qed
  have cache: "cache_ok f ?u ?ds ?is cache"
  proof -
    have "a * ?u + b < length dtexts * ?u" if "a < length dtexts" "b < ?u" for a b
    proof -
      have "a * ?u + b < Suc a * ?u" using that(2) by simp
      also have "\<dots> \<le> length dtexts * ?u" using that(1) by (intro mult_le_mono1) simp
      finally show ?thesis .
    qed
    then show ?thesis
      using dt it by (auto simp: cache_ok_def cache_def set_zip)
  qed
  have len: "length ?ds = n" "length ?is = m"
    using dt it by (simp_all add: n_def m_def)
  define c' where "c' = (\<lambda>i j. f (fst (?ds ! i)) (fst (?is ! j)))"
  have c: "c' x y = c x y" if "x < n" "y < m" for x y
    using that dt it by (simp add: c'_def c_def n_def m_def)
  define table where "table = map (\<lambda>i. map (best_step c' i) [0..<Suc m]) [0..<Suc n]"
  have first: "map (\<lambda>j. as_u32 j * replacement_gap_cost) [0..<m + 1] = map (best_cost c' 0) [0..<Suc m]"
    using bound by (intro map_cong) (auto simp: as_u32_def u32_max_def replacement_gap_cost_def)
  have "align_rows f ?u (Suc 0) ?ds ?is (map (best_cost c' 0) [0..<Suc m]) cache
      = map (\<lambda>i. map (best_step c' i) [0..<Suc m]) [Suc 0..<Suc n]"
    using align_rows_best [where f = f and ds = ?ds and ins = ?is and i = 0 and k = k and cache = cache, OF ids costs _ _ cache]
      bound unfolding c'_def len by simp
  moreover have "Step_None # replicate m Step_Insert = map (best_step c' 0) [0..<Suc m]"
    by (rule nth_equalityI) (auto simp: nth_Cons less_Suc_eq_0_disj simp del: upt_Suc split: nat.split)
  moreover have "[0..<Suc n] = 0 # [Suc 0..<Suc n]"
    by (simp add: upt_conv_Cons del: upt_Suc)
  ultimately have "ops = rev (trace_steps table n m)"
    unfolding ops_def replacement_alignment_ops_with_pair_cost_def Let_def table_def
      prepare_replacement_text_cache_ids_def d i prod.case cache_ids.simps cache_def [symmetric] n_def [symmetric]
      m_def [symmetric] first
    by (simp only: list.map One_nat_def)
  moreover have "table ! x ! y = best_step c' x y" if "x \<le> n" "y \<le> m" for x y
    using that by (simp add: table_def del: upt_Suc)
  ultimately have ops: "ops_deletes ops = n" "ops_inserts ops = m" "ops_cost c' 0 0 ops = best_cost c' n m"
    using trace_best [of n m table c' n m] by simp_all
  then show "ops_deletes ops = n" "ops_inserts ops = m" by simp_all
  have "ops_cost c 0 0 ops = ops_cost c' 0 0 ops"
    by (rule ops_cost_cong) (use ops(1,2) c in simp)
  moreover have "best_cost c n m = best_cost c' n m"
    by (rule best_cost_cong) (use c in simp)
  ultimately show "ops_cost c 0 0 ops = best_cost c n m"
    using ops(3) by simp
qed

lemma aligned_lines:
  fixes deletes inserts
  defines "ops \<equiv> replacement_alignment_ops_with_pair_cost (map prepare_line deletes) (map prepare_line inserts) replacement_pair_cost"
    and "c \<equiv> \<lambda>i j. line_pair_cost (deletes ! i) (inserts ! j)"
  assumes "deletes \<noteq> []" "inserts \<noteq> []" "length deletes * length inserts \<le> replacement_align_cell_budget"
  shows "ops_deletes ops = length deletes" "ops_inserts ops = length inserts"
    "ops_cost c 0 0 ops = best_cost c (length deletes) (length inserts)"
proof -
  let ?deletes = "map prepare_line deletes" and ?inserts = "map prepare_line inserts"
  have prepared: "\<forall>l\<in>set ?deletes \<union> set ?inserts. l = prepare_line (pl_text l)"
    by (auto simp: prepare_line_def)
  have costs: "replacement_pair_cost a b \<le> 240" for a b
    using pair_cost_le by (auto simp: replacement_pair_cost_def replacement_pair_cost_with_distance_def
        split: option.split prod.split)
  obtain n m where nm: "length deletes = Suc n" "length inserts = Suc m"
    using assms(3,4) by (metis length_Suc_conv neq_Nil_conv)
  then have "length deletes + length inserts \<le> length deletes * length inserts + 1" by simp
  then have bound: "(length ?deletes + length ?inserts) * replacement_gap_cost + 240 + replacement_gap_cost \<le> u32_max"
    using assms(5) by (simp add: replacement_constants u32_max_def)
  note best = alignment_ops_best [where f = replacement_pair_cost, OF prepared costs bound, folded ops_def]
  show "ops_deletes ops = length deletes" "ops_inserts ops = length inserts"
    using best(1,2) by simp_all
  have "ops_cost c 0 0 ops = ops_cost (\<lambda>i j. replacement_pair_cost (?deletes ! i) (?inserts ! j)) 0 0 ops"
    unfolding c_def by (rule ops_cost_cong) (use best(1,2) in \<open>simp add: replacement_pair_cost\<close>)
  also have "\<dots> = best_cost c (length deletes) (length inserts)"
    unfolding best(3) c_def by (simp, rule best_cost_cong) (simp add: replacement_pair_cost)
  finally show "ops_cost c 0 0 ops = best_cost c (length deletes) (length inserts)" .
qed

section \<open>Properties\<close>

text \<open>C37: the alignment of a replaced block is the cheapest one. Within the budget of cells it shows every
  deleted and every inserted line once and in order, and no other way of pairing, deleting and
  inserting them costs less: neither the 32-bit sums saturate, nor does the cache of repeated lines or
  the byte representation of ASCII lines change a cost.\<close>

theorem replacement_alignment_is_cheapest:
  assumes "deletes \<noteq> []" "inserts \<noteq> []" "length deletes * length inserts \<le> replacement_align_cell_budget"
  defines "ops \<equiv> replacement_alignment_ops_with_pair_cost (map prepare_line deletes) (map prepare_line inserts) replacement_pair_cost"
  shows "ops_deletes ops = length deletes \<and> ops_inserts ops = length inserts \<and>
    (\<forall>ops'. ops_deletes ops' = length deletes \<and> ops_inserts ops' = length inserts \<longrightarrow>
      ops_cost (\<lambda>i j. line_pair_cost (deletes ! i) (inserts ! j)) 0 0 ops
        \<le> ops_cost (\<lambda>i j. line_pair_cost (deletes ! i) (inserts ! j)) 0 0 ops')"
  using aligned_lines [OF assms(1-3), folded ops_def] best_cost_least
  by (metis (no_types, lifting))

theorem replacement_alignment_is_cheapest_witness:
  "ops_cost (\<lambda>i j. line_pair_cost ([str ''ab''] ! i) ([str ''x'', str ''ab''] ! j)) 0 0
     (replacement_alignment_ops_with_pair_cost (map prepare_line [str ''ab'']) (map prepare_line [str ''x'', str ''ab''])
        replacement_pair_cost) \<le> 100"
proof -
  have small: "ops_cost (\<lambda>i j. line_pair_cost ([str ''ab''] ! i) ([str ''x'', str ''ab''] ! j)) 0 0 [Op_Insert, Op_Pair] \<le> 100"
    by (simp add: line_pair_cost_def replacement_constants)
  have valid: "ops_deletes [Op_Insert, Op_Pair] = length [str ''ab'']
      \<and> ops_inserts [Op_Insert, Op_Pair] = length [str ''x'', str ''ab'']"
    by (simp add: ops_deletes_def ops_inserts_def)
  have "length [str ''ab''] * length [str ''x'', str ''ab''] \<le> replacement_align_cell_budget"
    by (simp add: replacement_constants)
  from replacement_alignment_is_cheapest [OF list.distinct(2) list.distinct(2) this, THEN conjunct2, THEN conjunct2,
      rule_format, OF valid] small
  show ?thesis by (rule order_trans)
qed

end
