(* ===== verification/Side_Plan.thy ===== *)
theory Side_Plan
  imports Replacement Patience Myers_Correct
begin

text \<open>
  The plan of a side-by-side diff (\<open>file_diff.rs\<close>): runs of rows that name lines of the old and the new
  text by index. A plan is built from an edit script, position by position when only a few lines
  differ, or from the common ends of two long texts; replaced blocks are aligned. The plan is read as
  a list of cells, one for each row, and every way of building it is shown to append the cells of
  the lines it has reached.
\<close>

section \<open>Runs\<close>

datatype row_kind = Row_Context | Row_Add | Row_Remove | Row_Modify

datatype eof_newline = Missing_In_Old | Missing_In_New

datatype plan_run =
    Run_Context (run_old_start: nat) (run_new_start: nat) (row_len: nat)
  | Run_Remove (run_old_start: nat) (row_len: nat)
  | Run_Add (run_new_start: nat) (row_len: nat)
  | Run_Modify (run_old_start: nat) (run_new_start: nat) (row_len: nat)

fun inline_row_len :: "plan_run \<Rightarrow> nat" where
  "inline_row_len (Run_Modify old_start new_start len) = sat_mul len 2"
| "inline_row_len run = row_len run"

fun run_kind :: "plan_run \<Rightarrow> row_kind" where
  "run_kind (Run_Context old_start new_start len) = Row_Context"
| "run_kind (Run_Remove old_start len) = Row_Remove"
| "run_kind (Run_Add new_start len) = Row_Add"
| "run_kind (Run_Modify old_start new_start len) = Row_Modify"

record side_plan =
  sp_runs :: "plan_run list"
  sp_row_count :: nat
  sp_inline_row_count :: nat
  sp_eof_newline :: "eof_newline option"

text \<open>A run that continues the last one is merged into it.\<close>

fun extend_run :: "plan_run \<Rightarrow> plan_run \<Rightarrow> plan_run option" where
  "extend_run (Run_Context last_old_start last_new_start last_len) (Run_Context old_start new_start len) =
     (if sat_add last_old_start last_len = old_start \<and> sat_add last_new_start last_len = new_start
      then Some (Run_Context last_old_start last_new_start (sat_add last_len len)) else None)"
| "extend_run (Run_Remove last_old_start last_len) (Run_Remove old_start len) =
     (if sat_add last_old_start last_len = old_start
      then Some (Run_Remove last_old_start (sat_add last_len len)) else None)"
| "extend_run (Run_Add last_new_start last_len) (Run_Add new_start len) =
     (if sat_add last_new_start last_len = new_start
      then Some (Run_Add last_new_start (sat_add last_len len)) else None)"
| "extend_run (Run_Modify last_old_start last_new_start last_len) (Run_Modify old_start new_start len) =
     (if sat_add last_old_start last_len = old_start \<and> sat_add last_new_start last_len = new_start
      then Some (Run_Modify last_old_start last_new_start (sat_add last_len len)) else None)"
| "extend_run _ _ = None"

definition push_plan_run :: "plan_run list \<Rightarrow> plan_run \<Rightarrow> plan_run list" where
  "push_plan_run runs run =
     (if row_len run = 0 then runs
      else if runs = [] then [run]
      else (case extend_run (last runs) run of
              Some extended \<Rightarrow> butlast runs @ [extended]
            | None \<Rightarrow> runs @ [run]))"

text \<open>The runs built so far with the two counters.\<close>

type_synonym plan_acc = "plan_run list \<times> nat \<times> nat"

definition push_plan_run_with_counts :: "plan_acc \<Rightarrow> plan_run \<Rightarrow> plan_acc" where
  "push_plan_run_with_counts acc run =
     (case acc of (runs, row_count, inline_row_count) \<Rightarrow>
        if row_len run = 0 then acc
        else (push_plan_run runs run, sat_add row_count (row_len run), sat_add inline_row_count (inline_row_len run)))"

definition eof_newline_delta :: "utext \<Rightarrow> utext \<Rightarrow> eof_newline option" where
  "eof_newline_delta old_text new_text =
     (case (ends_with old_text [LF], ends_with new_text [LF]) of
        (False, True) \<Rightarrow> Some Missing_In_Old
      | (True, False) \<Rightarrow> Some Missing_In_New
      | _ \<Rightarrow> None)"

text \<open>A final newline that differs turns a last context row into a modified one.\<close>

definition apply_eof_newline_to_plan :: "plan_run list \<Rightarrow> eof_newline option \<Rightarrow> plan_run list \<times> bool" where
  "apply_eof_newline_to_plan runs eof =
     (if eof = None then (runs, False)
      else if runs = [] then (runs, False)
      else (case last runs of
              Run_Context old_start new_start len \<Rightarrow>
                (if len > 1
                 then (butlast runs @ [Run_Context old_start new_start (len - 1),
                         Run_Modify (sat_add old_start (len - 1)) (sat_add new_start (len - 1)) 1], True)
                 else (butlast runs @ [Run_Modify old_start new_start 1], True))
            | other \<Rightarrow> (butlast runs @ [other], False)))"

definition finish_plan :: "utext \<Rightarrow> utext \<Rightarrow> plan_acc \<Rightarrow> side_plan" where
  "finish_plan old_text new_text acc =
     (case acc of (runs, row_count, inline_row_count) \<Rightarrow>
        (let eof = eof_newline_delta old_text new_text
         in case apply_eof_newline_to_plan runs eof of (runs, applied) \<Rightarrow>
              \<lparr>sp_runs = runs, sp_row_count = row_count,
               sp_inline_row_count = (if applied then sat_add inline_row_count 1 else inline_row_count),
               sp_eof_newline = eof\<rparr>))"

section \<open>Replaced blocks\<close>

definition push_paired_replacement_runs_by_position_to_plan ::
  "nat \<Rightarrow> nat \<Rightarrow> nat \<Rightarrow> nat \<Rightarrow> plan_acc \<Rightarrow> plan_acc" where
  "push_paired_replacement_runs_by_position_to_plan old_start old_len new_start new_len acc =
     (let paired = min old_len new_len;
          acc = (if paired > 0 then push_plan_run_with_counts acc (Run_Modify old_start new_start paired) else acc);
          acc = (if old_len > paired
                 then push_plan_run_with_counts acc (Run_Remove (sat_add old_start paired) (old_len - paired)) else acc)
      in if new_len > paired
         then push_plan_run_with_counts acc (Run_Add (sat_add new_start paired) (new_len - paired)) else acc)"

fun push_ops :: "nat \<Rightarrow> nat \<Rightarrow> planned_op list \<Rightarrow> nat \<Rightarrow> nat \<Rightarrow> plan_acc \<Rightarrow> plan_acc" where
  "push_ops old_start new_start [] local_old local_new acc = acc"
| "push_ops old_start new_start (Op_Pair # ops) local_old local_new acc =
     push_ops old_start new_start ops (local_old + 1) (local_new + 1)
       (push_plan_run_with_counts acc (Run_Modify (sat_add old_start local_old) (sat_add new_start local_new) 1))"
| "push_ops old_start new_start (Op_Delete # ops) local_old local_new acc =
     push_ops old_start new_start ops (local_old + 1) local_new
       (push_plan_run_with_counts acc (Run_Remove (sat_add old_start local_old) 1))"
| "push_ops old_start new_start (Op_Insert # ops) local_old local_new acc =
     push_ops old_start new_start ops local_old (local_new + 1)
       (push_plan_run_with_counts acc (Run_Add (sat_add new_start local_new) 1))"

definition push_aligned_replacement_runs_to_plan ::
  "utext list \<Rightarrow> utext list \<Rightarrow> range \<Rightarrow> range \<Rightarrow> (prepared_line \<Rightarrow> prepared_line \<Rightarrow> nat) \<Rightarrow> plan_acc \<Rightarrow> plan_acc" where
  "push_aligned_replacement_runs_to_plan olds news old_range new_range pair_cost_fn acc =
     (let old_start = rng_start old_range;
          new_start = rng_start new_range;
          deletes = slice olds old_start (rng_end old_range);
          inserts = slice news new_start (rng_end new_range)
      in if deletes = [] then push_plan_run_with_counts acc (Run_Add new_start (length inserts))
         else if inserts = [] then push_plan_run_with_counts acc (Run_Remove old_start (length deletes))
         else if sat_mul (length deletes) (length inserts) > replacement_align_cell_budget
         then push_paired_replacement_runs_by_position_to_plan old_start (length deletes) new_start (length inserts) acc
         else push_ops old_start new_start
                (replacement_alignment_ops_with_pair_cost (map prepare_line deletes) (map prepare_line inserts) pair_cost_fn)
                0 0 acc)"

section \<open>The three ways to build a plan\<close>

definition side_by_side_histogram_line_threshold :: nat where
  "side_by_side_histogram_line_threshold = 1024"

definition side_by_side_linear_fallback_line_threshold :: nat where
  "side_by_side_linear_fallback_line_threshold = 100000"

definition sparse_positional_max_changed_ratio_denominator :: nat where
  "sparse_positional_max_changed_ratio_denominator = 4"

definition sparse_positional_max_block_len :: nat where
  "sparse_positional_max_block_len = 1"

definition select_side_by_side_edits :: "utext list \<Rightarrow> utext list \<Rightarrow> utext edit list" where
  "select_side_by_side_edits old new =
     (let combined = sat_add (length old) (length new)
      in if combined \<ge> side_by_side_linear_fallback_line_threshold then myers_fallback_edits old new
         else if combined \<ge> side_by_side_histogram_line_threshold then histogram_edits old new
         else myers_edits old new)"

text \<open>The end of the block of positions from \<open>ix\<close> on that compare alike.\<close>

definition block_end :: "('a \<Rightarrow> 'a \<Rightarrow> bool) \<Rightarrow> 'a list \<Rightarrow> 'a list \<Rightarrow> nat \<Rightarrow> nat" where
  "block_end alike olds news ix =
     ix + length (takeWhile (\<lambda>(a, b). alike a b) (zip (drop ix olds) (drop ix news)))"

lemma block_end_ge: "ix \<le> block_end alike olds news ix"
  by (simp add: block_end_def)

function sparse_runs :: "utext list \<Rightarrow> utext list \<Rightarrow> nat \<Rightarrow> nat \<Rightarrow> plan_acc \<Rightarrow> plan_acc option" where
  "sparse_runs olds news ix changed_lines acc =
     (let line_count = length olds
      in if ix \<ge> line_count then Some acc
         else if olds ! ix = news ! ix
         then (let start = ix;
                   ix = block_end (=) olds news (ix + 1)
               in sparse_runs olds news ix changed_lines
                    (push_plan_run_with_counts acc (Run_Context start start (ix - start))))
         else (let block_start = ix;
                   ix = block_end (\<noteq>) olds news (ix + 1);
                   block_len = ix - block_start;
                   changed_lines = sat_add changed_lines block_len
               in if block_len > sparse_positional_max_block_len \<or>
                     sat_mul changed_lines sparse_positional_max_changed_ratio_denominator > line_count
                  then None
                  else sparse_runs olds news ix changed_lines
                         (push_plan_run_with_counts acc (Run_Modify block_start block_start block_len))))"
  by pat_completeness auto
termination
  by (relation "measure (\<lambda>(olds, news, ix, changed_lines, acc). length olds - ix)")
    (use block_end_ge [of "Suc _"] in \<open>auto simp: Suc_le_eq intro!: diff_less_mono2\<close>)

declare sparse_runs.simps [simp del]

definition build_sparse_positional_side_by_side_plan ::
  "utext \<Rightarrow> utext \<Rightarrow> utext list \<Rightarrow> utext list \<Rightarrow> side_plan option" where
  "build_sparse_positional_side_by_side_plan old_text new_text olds news =
     (let line_count = length olds
      in if line_count \<noteq> length news then None
         else if line_count = 0 \<or> sat_add line_count line_count < side_by_side_histogram_line_threshold then None
         else map_option (finish_plan old_text new_text) (sparse_runs olds news 0 0 ([], 0, 0)))"

definition build_linear_fallback_side_by_side_plan ::
  "utext \<Rightarrow> utext \<Rightarrow> utext list \<Rightarrow> utext list \<Rightarrow> (prepared_line \<Rightarrow> prepared_line \<Rightarrow> nat) \<Rightarrow> side_plan" where
  "build_linear_fallback_side_by_side_plan old_text new_text olds news pair_cost_fn =
     (let prefix_len = common_prefix_len olds news;
          suffix_len = common_suffix_len prefix_len olds news;
          old_mid_end = length olds - suffix_len;
          new_mid_end = length news - suffix_len;
          acc = push_plan_run_with_counts ([], 0, 0) (Run_Context 0 0 prefix_len);
          acc = push_aligned_replacement_runs_to_plan olds news (prefix_len, old_mid_end)
                  (prefix_len, new_mid_end) pair_cost_fn acc;
          acc = push_plan_run_with_counts acc (Run_Context old_mid_end new_mid_end suffix_len)
      in finish_plan old_text new_text acc)"

text \<open>The walk over the script, one run of edits of a kind at a time.\<close>

definition edit_run :: "edit_kind \<Rightarrow> 'a edit list \<Rightarrow> nat" where
  "edit_run k edits = length (takeWhile (\<lambda>e. ed_kind e = k) edits)"

function plan_edits ::
  "utext list \<Rightarrow> utext list \<Rightarrow> (prepared_line \<Rightarrow> prepared_line \<Rightarrow> nat) \<Rightarrow> utext edit list \<Rightarrow> nat \<Rightarrow> nat \<Rightarrow> plan_acc \<Rightarrow> plan_acc" where
  "plan_edits olds news f edits old_ix new_ix acc =
     (if edits = [] then acc
      else (case ed_kind (hd edits) of
        Equal \<Rightarrow>
          (let n = edit_run Equal edits
           in plan_edits olds news f (drop n edits) (old_ix + n) (new_ix + n)
                (push_plan_run_with_counts acc (Run_Context old_ix new_ix n)))
      | Delete \<Rightarrow>
          (let n = edit_run Delete edits;
               m = edit_run Insert (drop n edits)
           in plan_edits olds news f (drop (n + m) edits) (old_ix + n) (new_ix + m)
                (if m = 0 then push_plan_run_with_counts acc (Run_Remove old_ix n)
                 else push_aligned_replacement_runs_to_plan olds news (old_ix, old_ix + n)
                        (new_ix, new_ix + m) f acc))
      | Insert \<Rightarrow>
          (let m = edit_run Insert edits
           in plan_edits olds news f (drop m edits) old_ix (new_ix + m)
                (push_plan_run_with_counts acc (Run_Add new_ix m)))))"
  by pat_completeness auto
termination
proof (relation "measure (\<lambda>(olds, news, f, edits, old_ix, new_ix, acc). length edits)", goal_cases)
  case 1
  then show ?case by simp
next
  case (2 olds news f edits)
  then show ?case by (cases edits) (simp_all add: edit_run_def)
next
  case (3 olds news f edits)
  then show ?case by (cases edits) (simp_all add: edit_run_def)
next
  case (4 olds news f edits)
  then show ?case by (cases edits) (simp_all add: edit_run_def)
qed

declare plan_edits.simps [simp del]

definition build_side_by_side_plan ::
  "utext \<Rightarrow> utext \<Rightarrow> utext list \<Rightarrow> utext list \<Rightarrow> (prepared_line \<Rightarrow> prepared_line \<Rightarrow> nat) \<Rightarrow> side_plan" where
  "build_side_by_side_plan old_text new_text olds news pair_cost_fn =
     (if sat_add (length olds) (length news) \<ge> side_by_side_linear_fallback_line_threshold
      then build_linear_fallback_side_by_side_plan old_text new_text olds news pair_cost_fn
      else (case build_sparse_positional_side_by_side_plan old_text new_text olds news of
              Some plan \<Rightarrow> plan
            | None \<Rightarrow> finish_plan old_text new_text
                (plan_edits olds news pair_cost_fn (select_side_by_side_edits olds news) 0 0 ([], 0, 0))))"

definition side_by_side_plan_from_lines :: "utext \<Rightarrow> utext \<Rightarrow> utext list \<Rightarrow> utext list \<Rightarrow> side_plan" where
  "side_by_side_plan_from_lines old_text new_text olds news =
     build_side_by_side_plan old_text new_text olds news replacement_pair_cost"

definition side_by_side_plan :: "utext \<Rightarrow> utext \<Rightarrow> side_plan" where
  "side_by_side_plan old new = side_by_side_plan_from_lines old new (split_lines old) (split_lines new)"

section \<open>Cells\<close>

text \<open>What a plan shows: for each row its kind and the lines it names on the two sides.\<close>

type_synonym plan_cell = "row_kind \<times> nat option \<times> nat option"

abbreviation cell_old :: "plan_cell \<Rightarrow> nat option" where "cell_old c \<equiv> fst (snd c)"
abbreviation cell_new :: "plan_cell \<Rightarrow> nat option" where "cell_new c \<equiv> snd (snd c)"

fun run_cells :: "plan_run \<Rightarrow> plan_cell list" where
  "run_cells (Run_Context a b l) = map (\<lambda>k. (Row_Context, Some (a + k), Some (b + k))) [0..<l]"
| "run_cells (Run_Remove a l) = map (\<lambda>k. (Row_Remove, Some (a + k), None)) [0..<l]"
| "run_cells (Run_Add b l) = map (\<lambda>k. (Row_Add, None, Some (b + k))) [0..<l]"
| "run_cells (Run_Modify a b l) = map (\<lambda>k. (Row_Modify, Some (a + k), Some (b + k))) [0..<l]"

definition plan_cells :: "plan_run list \<Rightarrow> plan_cell list" where
  "plan_cells runs = concat (map run_cells runs)"

definition kind_count :: "row_kind \<Rightarrow> plan_cell list \<Rightarrow> nat" where
  "kind_count k cells = length (filter (\<lambda>c. fst c = k) cells)"

definition inline_len :: "plan_cell list \<Rightarrow> nat" where
  "inline_len cells = length cells + kind_count Row_Modify cells"

fun run_bounded :: "plan_run \<Rightarrow> bool" where
  "run_bounded (Run_Context a b l) = (0 < l \<and> a + l \<le> usize_max \<and> b + l \<le> usize_max)"
| "run_bounded (Run_Remove a l) = (0 < l \<and> a + l \<le> usize_max)"
| "run_bounded (Run_Add b l) = (0 < l \<and> b + l \<le> usize_max)"
| "run_bounded (Run_Modify a b l) = (0 < l \<and> a + l \<le> usize_max \<and> b + l \<le> usize_max)"

lemma run_bounded_len: "run_bounded r \<Longrightarrow> 0 < row_len r"
  by (cases r) simp_all

lemma plan_cells_simps [simp]:
  "plan_cells [] = []" "plan_cells (r # rs) = run_cells r @ plan_cells rs"
  "plan_cells (rs @ rs') = plan_cells rs @ plan_cells rs'"
  by (simp_all add: plan_cells_def)

lemma kind_count_simps [simp]:
  "kind_count k [] = 0" "kind_count k (c # cs) = of_bool (fst c = k) + kind_count k cs"
  "kind_count k (cs @ cs') = kind_count k cs + kind_count k cs'"
  by (simp_all add: kind_count_def)

lemma inline_len_simps [simp]: "inline_len [] = 0" "inline_len (cs @ cs') = inline_len cs + inline_len cs'"
  by (simp_all add: inline_len_def)

lemma length_run_cells [simp]: "length (run_cells r) = row_len r"
  by (cases r) simp_all

lemma run_cells_Nil [simp]: "run_cells r = [] \<longleftrightarrow> row_len r = 0"
  by (simp flip: length_0_conv)

lemma kind_count_run: "kind_count k (run_cells r) = (if run_kind r = k then row_len r else 0)"
  by (cases r) (simp_all add: kind_count_def filter_map comp_def)

lemma upt_shift: "map (\<lambda>k. a + k) [0..<l] = [a..<a + l]" for a l :: nat
  by (intro nth_equalityI) simp_all

lemma map_upt_split: "map g [0..<l + m] = map g [0..<l] @ map (\<lambda>k. g (l + k)) [0..<m]" for g :: "nat \<Rightarrow> 'z"
proof -
  have "[0..<l + m] = [0..<l] @ map (\<lambda>k. l + k) [0..<m]"
    using upt_add_eq_append [of 0 l m] upt_shift [of l m] by simp
  then show ?thesis by (simp add: comp_def)
qed

lemma sat_add_small: "a + b \<le> usize_max \<Longrightarrow> sat_add a b = a + b"
  by (simp add: sat_add_def)

lemma extend_run_cells:
  assumes "extend_run x y = Some r" "run_bounded x" "run_bounded y"
  shows "run_cells r = run_cells x @ run_cells y \<and> run_bounded r"
proof (cases x)
  case (Run_Context a b l)
  then obtain m where y: "y = Run_Context (a + l) (b + l) m" and r: "r = Run_Context a b (sat_add l m)"
    using assms by (cases y) (auto simp: sat_add_small split: if_splits)
  then have "r = Run_Context a b (l + m)"
    using assms(3) by (simp add: sat_add_small)
  then show ?thesis
    using assms(2,3) by (simp add: Run_Context y map_upt_split add.assoc)
next
  case (Run_Remove a l)
  then obtain m where y: "y = Run_Remove (a + l) m" and r: "r = Run_Remove a (sat_add l m)"
    using assms by (cases y) (auto simp: sat_add_small split: if_splits)
  then have "r = Run_Remove a (l + m)"
    using assms(3) by (simp add: sat_add_small)
  then show ?thesis
    using assms(2,3) by (simp add: Run_Remove y map_upt_split add.assoc)
next
  case (Run_Add b l)
  then obtain m where y: "y = Run_Add (b + l) m" and r: "r = Run_Add b (sat_add l m)"
    using assms by (cases y) (auto simp: sat_add_small split: if_splits)
  then have "r = Run_Add b (l + m)"
    using assms(3) by (simp add: sat_add_small)
  then show ?thesis
    using assms(2,3) by (simp add: Run_Add y map_upt_split add.assoc)
next
  case (Run_Modify a b l)
  then obtain m where y: "y = Run_Modify (a + l) (b + l) m" and r: "r = Run_Modify a b (sat_add l m)"
    using assms by (cases y) (auto simp: sat_add_small split: if_splits)
  then have "r = Run_Modify a b (l + m)"
    using assms(3) by (simp add: sat_add_small)
  then show ?thesis
    using assms(2,3) by (simp add: Run_Modify y map_upt_split add.assoc)
qed

lemma push_plan_run_cells:
  assumes "\<forall>r\<in>set runs. run_bounded r" "run_bounded run"
  shows "plan_cells (push_plan_run runs run) = plan_cells runs @ run_cells run \<and>
    (\<forall>r\<in>set (push_plan_run runs run). run_bounded r)"
proof (cases "row_len run = 0 \<or> runs = []")
  case True
  then show ?thesis using assms by (auto simp: push_plan_run_def)
next
  case False
  then obtain rs l where runs: "runs = rs @ [l]" by (metis rev_exhaust)
  show ?thesis
  proof (cases "extend_run l run")
    case None
    then show ?thesis using False assms runs by (auto simp: push_plan_run_def)
  next
    case (Some r)
    with extend_run_cells [OF Some] assms runs False show ?thesis by (auto simp: push_plan_run_def)
  qed
qed

text \<open>
  An accumulator that has reached line \<open>i\<close> of the old and line \<open>j\<close> of the new text: its cells show these
  lines once and in order, a context row shows equal lines, and \<open>c\<close> rows are context rows.
\<close>

definition cells_show :: "'a list \<Rightarrow> 'a list \<Rightarrow> nat \<Rightarrow> nat \<Rightarrow> plan_cell list \<Rightarrow> bool" where
  "cells_show olds news i j cells \<longleftrightarrow>
     filter_map cell_old cells = [0..<i] \<and> filter_map cell_new cells = [0..<j] \<and>
     (\<forall>c\<in>set cells. case c of
        (Row_Context, Some x, Some y) \<Rightarrow> olds ! x = news ! y
      | (Row_Modify, Some x, Some y) \<Rightarrow> True
      | (Row_Remove, Some x, None) \<Rightarrow> True
      | (Row_Add, None, Some y) \<Rightarrow> True
      | _ \<Rightarrow> False)"

definition acc_ok :: "'a list \<Rightarrow> 'a list \<Rightarrow> nat \<Rightarrow> nat \<Rightarrow> nat \<Rightarrow> plan_acc \<Rightarrow> bool" where
  "acc_ok olds news i j c acc \<longleftrightarrow>
     (case acc of (runs, row_count, inline_row_count) \<Rightarrow>
        i \<le> length olds \<and> j \<le> length news \<and> length olds + length news \<le> usize_max \<and>
        cells_show olds news i j (plan_cells runs) \<and> (\<forall>r\<in>set runs. run_bounded r) \<and>
        kind_count Row_Context (plan_cells runs) = c \<and>
        row_count = length (plan_cells runs) \<and> inline_row_count = inline_len (plan_cells runs))"

text \<open>The lines of a run, at the place the accumulator has reached.\<close>

fun run_at :: "'a list \<Rightarrow> 'a list \<Rightarrow> nat \<Rightarrow> nat \<Rightarrow> plan_run \<Rightarrow> nat \<Rightarrow> nat \<Rightarrow> bool" where
  "run_at olds news i j (Run_Context a b l) i' j' \<longleftrightarrow>
     a = i \<and> b = j \<and> i' = i + l \<and> j' = j + l \<and> (\<forall>k<l. olds ! (i + k) = news ! (j + k))"
| "run_at olds news i j (Run_Remove a l) i' j' \<longleftrightarrow> a = i \<and> i' = i + l \<and> j' = j"
| "run_at olds news i j (Run_Add b l) i' j' \<longleftrightarrow> b = j \<and> i' = i \<and> j' = j + l"
| "run_at olds news i j (Run_Modify a b l) i' j' \<longleftrightarrow> a = i \<and> b = j \<and> i' = i + l \<and> j' = j + l"

lemma filter_map_Some_all: "filter_map (\<lambda>x. Some (f x)) xs = map f xs"
  by (induction xs) simp_all

lemma filter_map_None_all: "filter_map (\<lambda>x. None) xs = []"
  by (induction xs) simp_all

lemma run_at_cells:
  assumes "run_at olds news i j run i' j'"
  shows "filter_map cell_old (run_cells run) = [i..<i']" "filter_map cell_new (run_cells run) = [j..<j']"
  using assms by (cases run; simp add: filter_map_Some_all filter_map_None_all upt_shift)+

lemma cells_show_append_run:
  assumes "cells_show olds news i j cells" "run_at olds news i j run i' j'"
  shows "cells_show olds news i' j' (cells @ run_cells run)"
proof -
  have le: "i \<le> i'" "j \<le> j'" using assms(2) by (cases run; simp)+
  have "\<forall>c\<in>set (run_cells run). case c of
        (Row_Context, Some x, Some y) \<Rightarrow> olds ! x = news ! y
      | (Row_Modify, Some x, Some y) \<Rightarrow> True
      | (Row_Remove, Some x, None) \<Rightarrow> True
      | (Row_Add, None, Some y) \<Rightarrow> True
      | _ \<Rightarrow> False"
    using assms(2) by (cases run) auto
  then show ?thesis
    using assms(1) run_at_cells [OF assms(2)] le upt_add_eq_append [of 0 i "i' - i"] upt_add_eq_append [of 0 j "j' - j"]
    by (auto simp: cells_show_def)
qed

lemma cells_show_counts:
  "cells_show olds news i j cells \<Longrightarrow>
    length (filter_map cell_old cells) + length (filter_map cell_new cells)
      = inline_len cells + kind_count Row_Context cells"
proof -
  have "\<forall>c\<in>set cells. case c of
        (Row_Context, Some x, Some y) \<Rightarrow> olds ! x = news ! y
      | (Row_Modify, Some x, Some y) \<Rightarrow> True
      | (Row_Remove, Some x, None) \<Rightarrow> True
      | (Row_Add, None, Some y) \<Rightarrow> True
      | _ \<Rightarrow> False \<Longrightarrow> ?thesis"
  proof (induction cells)
    case (Cons c cells)
    then show ?case
      by (cases c) (auto simp: inline_len_def split: row_kind.splits option.splits)
  qed simp
  then show "cells_show olds news i j cells \<Longrightarrow> ?thesis"
    by (simp add: cells_show_def)
qed

lemma cells_show_length:
  assumes "cells_show olds news i j cells"
  shows "i + j = inline_len cells + kind_count Row_Context cells"
  using cells_show_counts [OF assms] assms by (simp add: cells_show_def)

lemma acc_ok_start: "length olds + length news \<le> usize_max \<Longrightarrow> acc_ok olds news 0 0 0 ([], 0, 0)"
  by (simp add: acc_ok_def cells_show_def)

lemma inline_run: "inline_len (run_cells run) = row_len run + (if run_kind run = Row_Modify then row_len run else 0)"
  by (simp add: inline_len_def kind_count_run)

lemma push_acc:
  assumes acc: "acc_ok olds news i j c acc" and run: "run_at olds news i j run i' j'"
    and le: "i' \<le> length olds" "j' \<le> length news"
  shows "acc_ok olds news i' j' (c + (if run_kind run = Row_Context then row_len run else 0))
    (push_plan_run_with_counts acc run)"
proof (cases "row_len run = 0")
  case True
  then have "i' = i" "j' = j" using run by (cases run; simp)+
  then show ?thesis using acc True by (auto simp: push_plan_run_with_counts_def split: prod.splits)
next
  case False
  obtain runs rc ic where a: "acc = (runs, rc, ic)" by (cases acc)
  note ok = acc [unfolded acc_ok_def a prod.case]
  have len: "length olds + length news \<le> usize_max" using ok by simp
  have bounded: "run_bounded run" "inline_row_len run = inline_len (run_cells run)"
    unfolding inline_run using run le len False by (cases run; simp add: sat_mul_def)+
  note push = push_plan_run_cells [OF _ bounded(1), of runs]
  have shown: "cells_show olds news i' j' (plan_cells runs @ run_cells run)"
    by (rule cells_show_append_run [OF _ run]) (use ok in simp)
  have "inline_len (plan_cells runs @ run_cells run) \<le> i' + j'"
    using cells_show_length [OF shown] by simp
  then have "inline_len (plan_cells runs @ run_cells run) \<le> usize_max"
    using le ok by linarith
  then have counts: "sat_add rc (row_len run) = length (plan_cells runs @ run_cells run)"
    "sat_add ic (inline_row_len run) = inline_len (plan_cells runs @ run_cells run)"
    using ok bounded(2) by (simp_all add: sat_add_small inline_len_def)
  show ?thesis
    unfolding acc_ok_def push_plan_run_with_counts_def a prod.case if_not_P [OF False] counts
    using push ok le shown by (simp add: kind_count_run)
qed

lemma acc_ok_le: "acc_ok olds news i j c acc \<Longrightarrow> i \<le> length olds \<and> j \<le> length news \<and> length olds + length news \<le> usize_max"
  by (cases acc) (simp add: acc_ok_def)

lemma push_context_acc:
  "acc_ok olds news i j c acc \<Longrightarrow> i + l \<le> length olds \<Longrightarrow> j + l \<le> length news \<Longrightarrow>
    \<forall>k<l. olds ! (i + k) = news ! (j + k) \<Longrightarrow>
    acc_ok olds news (i + l) (j + l) (c + l) (push_plan_run_with_counts acc (Run_Context i j l))"
  using push_acc [of olds news i j c acc "Run_Context i j l" "i + l" "j + l"] by simp

lemma push_remove_acc:
  "acc_ok olds news i j c acc \<Longrightarrow> i + l \<le> length olds \<Longrightarrow>
    acc_ok olds news (i + l) j c (push_plan_run_with_counts acc (Run_Remove i l))"
  using push_acc [of olds news i j c acc "Run_Remove i l" "i + l" j] acc_ok_le [of olds news i j c acc] by simp

lemma push_add_acc:
  "acc_ok olds news i j c acc \<Longrightarrow> j + l \<le> length news \<Longrightarrow>
    acc_ok olds news i (j + l) c (push_plan_run_with_counts acc (Run_Add j l))"
  using push_acc [of olds news i j c acc "Run_Add j l" i "j + l"] acc_ok_le [of olds news i j c acc] by simp

lemma push_modify_acc:
  "acc_ok olds news i j c acc \<Longrightarrow> i + l \<le> length olds \<Longrightarrow> j + l \<le> length news \<Longrightarrow>
    acc_ok olds news (i + l) (j + l) c (push_plan_run_with_counts acc (Run_Modify i j l))"
  using push_acc [of olds news i j c acc "Run_Modify i j l" "i + l" "j + l"] by simp

lemma push_paired_acc:
  assumes acc: "acc_ok olds news i j c acc" and le: "i + n \<le> length olds" "j + m \<le> length news"
  shows "acc_ok olds news (i + n) (j + m) c (push_paired_replacement_runs_by_position_to_plan i n j m acc)"
proof -
  let ?p = "min n m"
  note len = acc_ok_le [OF acc]
  define acc1 where "acc1 = (if ?p > 0 then push_plan_run_with_counts acc (Run_Modify i j ?p) else acc)"
  define acc2 where "acc2 = (if n > ?p then push_plan_run_with_counts acc1 (Run_Remove (i + ?p) (n - ?p)) else acc1)"
  have 1: "acc_ok olds news (i + ?p) (j + ?p) c acc1"
    using push_modify_acc [OF acc, of ?p] acc le by (cases "?p = 0") (simp_all add: acc1_def)
  have 2: "acc_ok olds news (i + n) (j + ?p) c acc2"
    using push_remove_acc [OF 1, of "n - ?p"] 1 le by (cases n m rule: linorder_cases) (simp_all add: acc2_def)
  have 3: "acc_ok olds news (i + n) (j + m) c
      (if m > ?p then push_plan_run_with_counts acc2 (Run_Add (j + ?p) (m - ?p)) else acc2)"
    using push_add_acc [OF 2, of "m - ?p"] 2 le by (cases n m rule: linorder_cases) simp_all
  have "sat_add i ?p = i + ?p" "sat_add j ?p = j + ?p"
    using le len by (simp_all add: sat_add_small)
  then show ?thesis
    unfolding push_paired_replacement_runs_by_position_to_plan_def Let_def acc1_def [symmetric]
    using 3 by (simp only: acc2_def)
qed

lemma push_ops_acc:
  assumes "acc_ok olds news (i + x) (j + y) c acc"
    and "i + x + ops_deletes ops \<le> length olds" "j + y + ops_inserts ops \<le> length news"
  shows "acc_ok olds news (i + x + ops_deletes ops) (j + y + ops_inserts ops) c (push_ops i j ops x y acc)"
  using assms
proof (induction ops arbitrary: x y acc)
  case (Cons op ops)
  note len = acc_ok_le [OF Cons.prems(1)]
  note push = push_modify_acc [OF Cons.prems(1), of 1] push_remove_acc [OF Cons.prems(1), of 1]
    push_add_acc [OF Cons.prems(1), of 1]
  have sat: "sat_add i x = i + x" "sat_add j y = j + y"
    using Cons.prems len by (simp_all add: sat_add_small)
  show ?case
    using Cons.IH [of "x + 1" "y + 1"] Cons.IH [of "x + 1" y] Cons.IH [of x "y + 1"] push Cons.prems sat
    by (cases op) (simp_all add: ops_deletes_def ops_inserts_def)
qed (simp add: ops_deletes_def ops_inserts_def)

lemma push_aligned_acc:
  assumes acc: "acc_ok olds news i j c acc" and le: "i \<le> i'" "i' \<le> length olds" "j \<le> j'" "j' \<le> length news"
  shows "acc_ok olds news i' j' c
    (push_aligned_replacement_runs_to_plan olds news (i, i') (j, j') replacement_pair_cost acc)"
proof -
  let ?d = "slice olds i i'" and ?s = "slice news j j'"
  have len: "length ?d = i' - i" "length ?s = j' - j" using le by simp_all
  consider (del) "?d = []" | (ins) "?d \<noteq> []" "?s = []" | (big) "?d \<noteq> []" "?s \<noteq> []"
      "sat_mul (length ?d) (length ?s) > replacement_align_cell_budget"
    | (small) "?d \<noteq> []" "?s \<noteq> []" "\<not> sat_mul (length ?d) (length ?s) > replacement_align_cell_budget"
    by blast
  then show ?thesis
  proof cases
    case del
    then have "i' = i" using len le by simp
    then show ?thesis
      using push_add_acc [OF acc, of "j' - j"] del len le
      by (simp add: push_aligned_replacement_runs_to_plan_def Let_def)
  next
    case ins
    then have "j' = j" using len le by simp
    then show ?thesis
      using push_remove_acc [OF acc, of "i' - i"] ins len le
      by (simp add: push_aligned_replacement_runs_to_plan_def Let_def)
  next
    case big
    then show ?thesis
      using push_paired_acc [OF acc, of "i' - i" "j' - j"] len le
      by (simp add: push_aligned_replacement_runs_to_plan_def Let_def)
  next
    case small
    let ?ops = "replacement_alignment_ops_with_pair_cost (map prepare_line ?d) (map prepare_line ?s) replacement_pair_cost"
    have "length ?d * length ?s \<le> replacement_align_cell_budget"
      using small(3) by (simp add: sat_mul_def replacement_constants usize_max_def min_def split: if_splits)
    note ops = aligned_lines [OF small(1,2) this]
    have "acc_ok olds news (i + 0 + ops_deletes ?ops) (j + 0 + ops_inserts ?ops) c (push_ops i j ?ops 0 0 acc)"
      by (rule push_ops_acc) (use acc ops(1,2) le in simp_all)
    then show ?thesis
      using small ops(1,2) len le
      by (simp add: push_aligned_replacement_runs_to_plan_def Let_def)
  qed
qed

section \<open>The builders\<close>

lemma block_end_spec:
  assumes "length olds = length news" "ix \<le> length olds"
  shows "block_end alike olds news ix \<le> length olds"
    and "ix + k < block_end alike olds news ix \<Longrightarrow> alike (olds ! (ix + k)) (news ! (ix + k))"
proof -
  let ?z = "zip (drop ix olds) (drop ix news)"
  have "length (takeWhile (\<lambda>(a, b). alike a b) ?z) \<le> length olds - ix"
    using length_takeWhile_le [of "\<lambda>(a, b). alike a b" ?z] assms by simp
  then show "block_end alike olds news ix \<le> length olds"
    using assms by (simp add: block_end_def)
  assume "ix + k < block_end alike olds news ix"
  then have k: "k < length (takeWhile (\<lambda>(a, b). alike a b) ?z)"
    by (simp add: block_end_def)
  then have "k < length ?z"
    using length_takeWhile_le [of "\<lambda>(a, b). alike a b" ?z] by linarith
  then show "alike (olds ! (ix + k)) (news ! (ix + k))"
    using nth_mem [OF k] takeWhile_nth [OF k] assms by (auto dest: set_takeWhileD)
qed

lemma sparse_runs_acc:
  assumes "sparse_runs olds news ix changed acc = Some acc'" "length olds = length news"
    and "acc_ok olds news ix ix c acc"
  shows "\<exists>c'. acc_ok olds news (length olds) (length news) c' acc' \<and> (olds = news \<longrightarrow> c' = c + (length olds - ix))"
  using assms
proof (induction olds news ix changed acc arbitrary: c rule: sparse_runs.induct)
  case (1 olds news ix changed acc)
  note step = 1(3) [unfolded sparse_runs.simps [of olds news ix] Let_def]
  note ok = acc_ok_le [OF 1(5)]
  consider (all) "ix \<ge> length olds" | (same) "ix < length olds" "olds ! ix = news ! ix"
    | (diff) "ix < length olds" "olds ! ix \<noteq> news ! ix" by linarith
  then show ?case
  proof cases
    case all
    then show ?thesis using step ok 1(4,5) by (intro exI [of _ c]) auto
  next
    case same
    let ?e = "block_end (=) olds news (ix + 1)"
    note e = block_end_ge [of "ix + 1" "(=)" olds news] block_end_spec [OF 1(4), where ix = "ix + 1" and alike = "(=)"]
    have rest: "sparse_runs olds news ?e changed (push_plan_run_with_counts acc (Run_Context ix ix (?e - ix))) = Some acc'"
      using step same by simp
    have "olds ! (ix + k) = news ! (ix + k)" if "k < ?e - ix" for k
      using e(3) [of "k - 1"] same that by (cases k) simp_all
    then have "acc_ok olds news ?e ?e (c + (?e - ix)) (push_plan_run_with_counts acc (Run_Context ix ix (?e - ix)))"
      using push_context_acc [OF 1(5), of "?e - ix"] e(1,2) same(1) 1(4) by simp
    from 1(1) [OF refl _ same(2) refl refl rest 1(4) this] same(1)
    obtain c' where "acc_ok olds news (length olds) (length news) c' acc'"
      "olds = news \<longrightarrow> c' = c + (?e - ix) + (length olds - ?e)"
      by auto
    moreover have "c + (?e - ix) + (length olds - ?e) = c + (length olds - ix)"
      using e(1,2) same(1) by simp
    ultimately show ?thesis by auto
  next
    case diff
    let ?e = "block_end (\<noteq>) olds news (ix + 1)"
    let ?changed = "sat_add changed (?e - ix)"
    note e = block_end_ge [of "ix + 1" "(\<noteq>)" olds news] block_end_spec(1) [OF 1(4), where ix = "ix + 1" and alike = "(\<noteq>)"]
    have few: "\<not> (?e - ix > sparse_positional_max_block_len \<or>
        sat_mul ?changed sparse_positional_max_changed_ratio_denominator > length olds)"
      and rest: "sparse_runs olds news ?e ?changed (push_plan_run_with_counts acc (Run_Modify ix ix (?e - ix))) = Some acc'"
      using step diff by (simp_all split: if_splits)
    have "acc_ok olds news ?e ?e c (push_plan_run_with_counts acc (Run_Modify ix ix (?e - ix)))"
      using push_modify_acc [OF 1(5), of "?e - ix"] e diff(1) 1(4) by simp
    from 1(2) [OF refl _ diff(2) refl refl refl refl few rest 1(4) this] diff(1)
    obtain c' where "acc_ok olds news (length olds) (length news) c' acc'" by auto
    then show ?thesis using diff(2) by auto
  qed
qed

text \<open>A run of edits of one kind is a script for what it covers, and what follows is one for the rest.\<close>

definition kept :: "'a edit list \<Rightarrow> nat" where
  "kept es = length (filter (\<lambda>e. ed_kind e = Equal) es)"

lemma same_kind_sides:
  "\<forall>e\<in>set xs. edit_ok e \<and> ed_kind e = k \<Longrightarrow>
    length (old_side xs) = (if k = Insert then 0 else length xs) \<and>
    length (new_side xs) = (if k = Delete then 0 else length xs) \<and>
    (k = Equal \<longrightarrow> old_side xs = new_side xs) \<and> kept xs = (if k = Equal then length xs else 0)"
proof (induction xs)
  case (Cons e xs)
  then have "edit_ok e" "ed_kind e = k" by simp_all
  then show ?case
    by (cases rule: edit_ok_cases) (use Cons in \<open>auto simp: kept_def\<close>)
qed (simp add: kept_def)

lemma script_edit_run:
  assumes script: "script_for es olds news" and n: "n = edit_run k es"
  shows "script_for (drop n es) (drop (if k = Insert then 0 else n) olds) (drop (if k = Delete then 0 else n) news)"
    and "k \<noteq> Insert \<Longrightarrow> n \<le> length olds" "k \<noteq> Delete \<Longrightarrow> n \<le> length news"
    and "k = Equal \<Longrightarrow> take n olds = take n news"
    and "kept es = (if k = Equal then n else 0) + kept (drop n es)"
proof -
  let ?run = "takeWhile (\<lambda>e. ed_kind e = k) es" and ?rest = "dropWhile (\<lambda>e. ed_kind e = k) es"
  have n': "n = length ?run" and rest: "drop n es = ?rest"
    using n by (simp_all add: edit_run_def dropWhile_eq_drop)
  have "es = ?run @ ?rest" by simp
  then have sides: "olds = old_side ?run @ old_side ?rest" "news = new_side ?run @ new_side ?rest"
    "kept es = kept ?run + kept ?rest"
    using script by (metis script_for_def side_simps(3), metis script_for_def side_simps(4),
        metis (no_types, lifting) filter_append kept_def length_append)
  have "\<forall>e\<in>set ?run. edit_ok e \<and> ed_kind e = k"
    using script by (auto simp: script_for_def dest: set_takeWhileD)
  note run = same_kind_sides [OF this, folded n']
  have ok: "\<forall>e\<in>set ?rest. edit_ok e"
    using script by (auto simp: script_for_def dest: set_dropWhileD)
  show "script_for (drop n es) (drop (if k = Insert then 0 else n) olds) (drop (if k = Delete then 0 else n) news)"
    unfolding rest script_for_def using ok run by (subst sides(1), subst sides(2)) (cases k; simp)
  show "k \<noteq> Insert \<Longrightarrow> n \<le> length olds" "k \<noteq> Delete \<Longrightarrow> n \<le> length news"
    using run sides(1,2) by (metis length_append le_add1)+
  show "take n olds = take n news" if "k = Equal"
  proof -
    have "take n olds = old_side ?run" "take n news = new_side ?run"
      using run that by (subst sides(1), simp, subst sides(2), simp)
    then show ?thesis using run that by simp
  qed
  show "kept es = (if k = Equal then n else 0) + kept (drop n es)"
    unfolding rest using sides(3) run by simp
qed

lemma edit_run_pos: "edits \<noteq> [] \<Longrightarrow> 0 < edit_run (ed_kind (hd edits)) edits"
  by (cases edits) (simp_all add: edit_run_def)

lemma plan_edits_acc:
  assumes "script_for edits (drop i olds) (drop j news)" "acc_ok olds news i j c acc"
  shows "acc_ok olds news (length olds) (length news) (c + kept edits)
    (plan_edits olds news replacement_pair_cost edits i j acc)"
  using assms
proof (induction "length edits" arbitrary: edits i j c acc rule: less_induct)
  case less
  note ok = acc_ok_le [OF less.prems(2)]
  show ?case
  proof (cases "edits = []")
    case True
    then have "i = length olds" "j = length news" using less.prems(1) ok by simp_all
    then show ?thesis using less.prems(2) True by (simp add: plan_edits.simps [of _ _ _ "[]"] kept_def)
  next
    case False
    define k n where "k = ed_kind (hd edits)" and "n = edit_run k edits"
    have n: "0 < n" using edit_run_pos [OF False] by (simp add: n_def k_def)
    note run = script_edit_run [OF less.prems(1) n_def]
    note step = plan_edits.simps [of olds news replacement_pair_cost edits i j acc, unfolded if_not_P [OF False], folded k_def]
    have shorter: "length (drop (n + m) edits) < length edits" for m using n False by simp
    show ?thesis
    proof (cases k)
      case Equal
      have le: "i + n \<le> length olds" "j + n \<le> length news"
        using run(2,3) Equal ok n by auto
      have "olds ! (i + x) = news ! (j + x)" if "x < n" for x
        using run(4) [OF Equal] that ok run(2,3) Equal by (metis (no_types, lifting) nth_drop nth_take edit_kind.distinct(1,3))
      then have "acc_ok olds news (i + n) (j + n) (c + n) (push_plan_run_with_counts acc (Run_Context i j n))"
        using push_context_acc [OF less.prems(2) le] by simp
      note IH = less.hyps [OF shorter [of 0, unfolded add_0_right] _ this]
      have "script_for (drop n edits) (drop (i + n) olds) (drop (j + n) news)"
        using run(1) Equal by (simp add: add.commute)
      note IH [OF this]
      moreover have "c + n + kept (drop n edits) = c + kept edits" using run(5) Equal by simp
      ultimately show ?thesis
        unfolding step Equal edit_kind.case Let_def n_def [unfolded Equal, symmetric] by simp
    next
      case Insert
      have "acc_ok olds news i (j + n) c (push_plan_run_with_counts acc (Run_Add j n))"
        using push_add_acc [OF less.prems(2), of n] run(3) Insert ok n by force
      note IH = less.hyps [OF shorter [of 0, unfolded add_0_right] _ this]
      have "script_for (drop n edits) (drop i olds) (drop (j + n) news)"
        using run(1) Insert by (simp add: add.commute)
      note IH [OF this]
      moreover have "kept (drop n edits) = kept edits" using run(5) Insert by simp
      ultimately show ?thesis
        unfolding step Insert edit_kind.case Let_def n_def [unfolded Insert, symmetric] by simp
    next
      case Delete
      define m where "m = edit_run Insert (drop n edits)"
      have "script_for (drop n edits) (drop (i + n) olds) (drop j news)"
        using run(1) Delete by (simp add: add.commute)
      note run' = script_edit_run [OF this m_def]
      have le: "i + n \<le> length olds" "j + m \<le> length news"
        using run(2) run'(3) Delete ok n by force+
      let ?acc = "if m = 0 then push_plan_run_with_counts acc (Run_Remove i n)
        else push_aligned_replacement_runs_to_plan olds news (i, i + n) (j, j + m) replacement_pair_cost acc"
      have "acc_ok olds news (i + n) (j + m) c ?acc"
        using push_remove_acc [OF less.prems(2) le(1)] push_aligned_acc [OF less.prems(2), of "i + n" "j + m"] le by simp
      note IH = less.hyps [OF shorter [of m] _ this]
      have "script_for (drop (n + m) edits) (drop (i + n) olds) (drop (j + m) news)"
        using run'(1) by (simp add: add.commute)
      note IH [OF this]
      moreover have "kept (drop (n + m) edits) = kept edits"
        using run(5) run'(5) Delete by (simp add: add.commute)
      ultimately show ?thesis
        unfolding step Delete edit_kind.case Let_def n_def [unfolded Delete, symmetric] m_def [symmetric] by simp
    qed
  qed
qed

lemma sparse_runs_same: "sparse_runs olds olds ix changed acc \<noteq> None"
proof (induction "length olds - ix" arbitrary: ix acc rule: less_induct)
  case less
  have "length olds - block_end (=) olds olds (ix + 1) < length olds - ix" if "ix < length olds"
    using that block_end_ge [of "ix + 1" "(=)" olds olds] by linarith
  then show ?case
    unfolding sparse_runs.simps [of olds olds ix] Let_def using less by (simp del: not_None_eq)
qed

lemma select_script: "script_for (select_side_by_side_edits olds news) olds news"
  by (simp add: select_side_by_side_edits_def Let_def fallback.diff_script histogram.diff_script myers.diff_script)

lemma linear_acc:
  fixes olds news :: "utext list"
  defines "p \<equiv> common_prefix_len olds news"
  defines "l \<equiv> common_suffix_len p olds news"
  assumes len: "length olds + length news \<le> usize_max"
  shows "acc_ok olds news (length olds) (length news) (p + l)
    (push_plan_run_with_counts
      (push_aligned_replacement_runs_to_plan olds news (p, length olds - l) (p, length news - l) replacement_pair_cost
        (push_plan_run_with_counts ([], 0, 0) (Run_Context 0 0 p)))
      (Run_Context (length olds - l) (length news - l) l))"
proof -
  have p: "p \<le> length olds" "p \<le> length news" by (simp_all add: p_def)
  have l: "l \<le> length olds - p" "l \<le> length news - p"
    using common_suffix_len_le [of p olds news] by (simp_all add: l_def)
  have front: "olds ! k = news ! k" if "k < p" for k
    using take_common_prefix [of olds news] that unfolding p_def by (metis nth_take)
  have rear: "olds ! (length olds - l + k) = news ! (length news - l + k)" if "k < l" for k
    using drop_common_suffix [of l p olds news, OF l_def [THEN meta_eq_to_obj_eq]] that l p
    by (metis diff_le_self nth_drop)
  have "acc_ok olds news (0 + p) (0 + p) (0 + p) (push_plan_run_with_counts ([], 0, 0) (Run_Context 0 0 p))"
    by (rule push_context_acc [OF acc_ok_start [OF len]]) (use p front in simp_all)
  then have "acc_ok olds news p p p (push_plan_run_with_counts ([], 0, 0) (Run_Context 0 0 p))" by simp
  from push_aligned_acc [OF this, of "length olds - l" "length news - l"]
  have "acc_ok olds news (length olds - l) (length news - l) p
      (push_aligned_replacement_runs_to_plan olds news (p, length olds - l) (p, length news - l) replacement_pair_cost
        (push_plan_run_with_counts ([], 0, 0) (Run_Context 0 0 p)))"
    using p l by simp
  from push_context_acc [OF this, of l] show ?thesis
    using p l rear by simp
qed

text \<open>Whichever way it is built, a plan is a finished accumulator that has reached the ends of both texts.\<close>

lemma plan_from_acc:
  assumes len: "length olds + length news \<le> usize_max"
  obtains acc c where
    "build_side_by_side_plan old_text new_text olds news replacement_pair_cost = finish_plan old_text new_text acc"
    "acc_ok olds news (length olds) (length news) c acc" "olds = news \<Longrightarrow> c = length olds"
    "length olds + length news < 1024 \<Longrightarrow> c = kept (myers_edits olds news)"
proof -
  let ?n = "length olds + length news"
  have sat: "sat_add (length olds) (length news) = ?n" using len by (simp add: sat_add_small)
  note thresholds = side_by_side_histogram_line_threshold_def side_by_side_linear_fallback_line_threshold_def
  note build = build_side_by_side_plan_def sat thresholds
  consider (linear) "?n \<ge> 100000" | (sparse) plan where "?n < 100000"
      "build_sparse_positional_side_by_side_plan old_text new_text olds news = Some plan"
    | (script) "?n < 100000" "build_sparse_positional_side_by_side_plan old_text new_text olds news = None"
    by force
  then show thesis
  proof cases
    case linear
    show thesis
      by (rule that [OF _ linear_acc [OF len]])
        (use linear in \<open>simp_all add: build build_linear_fallback_side_by_side_plan_def Let_def common_suffix_len_def\<close>)
  next
    case sparse
    then obtain acc where acc: "sparse_runs olds news 0 0 ([], 0, 0) = Some acc" "length olds = length news" "?n \<ge> 1024"
      and plan: "plan = finish_plan old_text new_text acc"
      using sat unfolding build_sparse_positional_side_by_side_plan_def thresholds Let_def by (auto split: if_splits)
    from sparse_runs_acc [OF acc(1,2) acc_ok_start [OF len]] obtain c where
      "acc_ok olds news (length olds) (length news) c acc" "olds = news \<longrightarrow> c = length olds" by auto
    then show thesis
      by (intro that [of acc c]) (use sparse plan acc(3) in \<open>simp_all add: build\<close>)
  next
    case script
    let ?es = "select_side_by_side_edits olds news"
    have "script_for ?es (drop 0 olds) (drop 0 news)" using select_script by simp
    note acc = plan_edits_acc [OF this acc_ok_start [OF len]]
    have small: "?es = myers_edits olds news" if "?n < 1024"
      using that unfolding select_side_by_side_edits_def Let_def sat thresholds by simp
    have "kept ?es = length olds" if "olds = news"
    proof -
      have short: "?n < 1024"
        using script(2) that sat sparse_runs_same [of news 0 0 "([], 0, 0)"]
        unfolding build_sparse_positional_side_by_side_plan_def thresholds Let_def by (auto split: if_splits)
      have "script_cost ?es \<le> script_cost (map equal_edit olds)"
        unfolding small [OF short] by (rule myers_least_cost) (use short that in \<open>simp_all add: u32_max_def\<close>)
      moreover have "script_cost (map equal_edit xs) = 0" for xs :: "utext list" by (induction xs) simp_all
      ultimately show ?thesis
        using script_for_length [OF select_script [of olds news]] that by (simp add: kept_def)
    qed
    then show thesis
      by (intro that [OF _ acc]) (use script small in \<open>simp_all add: build\<close>)
  qed
qed

section \<open>The final newline\<close>

definition mark_last :: "plan_cell list \<Rightarrow> plan_cell list" where
  "mark_last cells =
     (if cells \<noteq> [] \<and> fst (last cells) = Row_Context
      then butlast cells @ [(Row_Modify, snd (last cells))] else cells)"

lemma mark_last_snoc:
  "mark_last (cells @ [c]) = cells @ [(if fst c = Row_Context then Row_Modify else fst c, snd c)]"
  by (cases c) (simp add: mark_last_def)

lemma last_run_cells: "0 < row_len r \<Longrightarrow> run_cells r \<noteq> [] \<and> fst (last (run_cells r)) = run_kind r"
  by (cases r) (simp_all add: last_map)

lemma apply_eof_cells:
  assumes "\<forall>r\<in>set runs. run_bounded r" "apply_eof_newline_to_plan runs eof = (runs', applied)" "eof \<noteq> None"
  shows "plan_cells runs' = mark_last (plan_cells runs) \<and>
    (applied \<longleftrightarrow> runs \<noteq> [] \<and> fst (last (plan_cells runs)) = Row_Context)"
proof (cases runs rule: rev_cases)
  case Nil
  then show ?thesis using assms by (auto simp: apply_eof_newline_to_plan_def mark_last_def)
next
  case (snoc rs r)
  have r: "run_bounded r" using assms(1) snoc by simp
  then have pos: "0 < row_len r" by (rule run_bounded_len)
  show ?thesis
  proof (cases "run_kind r = Row_Context")
    case False
    then have "mark_last (plan_cells runs) = plan_cells runs" "fst (last (plan_cells runs)) \<noteq> Row_Context"
      using last_run_cells [OF pos] snoc by (simp_all add: mark_last_def)
    then show ?thesis using assms(2,3) snoc False by (cases r) (auto simp: apply_eof_newline_to_plan_def)
  next
    case True
    then obtain a b l where ctx: "r = Run_Context a b l" by (cases r) simp_all
    then obtain l' where l: "l = Suc l'" using pos by (cases l) simp_all
    have sat: "sat_add a l' = a + l'" "sat_add b l' = b + l'" using r ctx l by (simp_all add: sat_add_small)
    have "runs' = rs @ (if l' = 0 then [] else [Run_Context a b l']) @ [Run_Modify (a + l') (b + l') 1] \<and> applied"
      using assms(2,3) snoc ctx l sat by (auto simp: apply_eof_newline_to_plan_def split: if_splits)
    then have "plan_cells runs' = plan_cells rs @ run_cells (Run_Context a b l') @ [(Row_Modify, Some (a + l'), Some (b + l'))]"
      and applied by simp_all
    then show ?thesis
      using snoc ctx l by (simp flip: append_assoc add: mark_last_snoc)
  qed
qed

text \<open>A finished plan: the cells of the accumulator, with the last row marked when the newlines differ.\<close>

lemma finished_plan:
  fixes old_text new_text :: utext
  assumes "acc_ok olds news (length olds) (length news) c acc"
  defines "eof \<equiv> eof_newline_delta old_text new_text" and "plan \<equiv> finish_plan old_text new_text acc"
  obtains cells where "cells_show olds news (length olds) (length news) cells" "kind_count Row_Context cells = c"
    "plan_cells (sp_runs plan) = (if eof = None then cells else mark_last cells)"
    "sp_row_count plan = length (plan_cells (sp_runs plan))" "sp_inline_row_count plan = inline_len (plan_cells (sp_runs plan))"
    "sp_eof_newline plan = eof"
proof -
  obtain runs rc ic where a: "acc = (runs, rc, ic)" by (cases acc)
  let ?cells = "plan_cells runs"
  note ok = assms(1) [unfolded acc_ok_def a prod.case]
  obtain runs' applied where ap: "apply_eof_newline_to_plan runs eof = (runs', applied)" by fastforce
  then have plan: "sp_runs plan = runs'" "sp_row_count plan = rc" "sp_eof_newline plan = eof"
    "sp_inline_row_count plan = (if applied then sat_add ic 1 else ic)"
    by (simp_all add: plan_def finish_plan_def a eof_def)
  have shown: "cells_show olds news (length olds) (length news) ?cells" using ok by simp
  have "plan_cells runs' = (if eof = None then ?cells else mark_last ?cells) \<and>
      rc = length (plan_cells runs') \<and> (if applied then sat_add ic 1 else ic) = inline_len (plan_cells runs')"
  proof (cases "eof = None")
    case True
    then have "runs' = runs" "\<not> applied" using ap by (simp_all add: apply_eof_newline_to_plan_def)
    then show ?thesis using ok True by simp
  next
    case False
    from apply_eof_cells [OF _ ap False] ok have cells: "plan_cells runs' = mark_last ?cells"
      and app: "applied \<longleftrightarrow> runs \<noteq> [] \<and> fst (last ?cells) = Row_Context" by simp_all
    show ?thesis
    proof (cases ?cells rule: rev_cases)
      case Nil
      then have "runs = []" using ok run_bounded_len by (cases runs) fastforce+
      then show ?thesis using ok cells app False by (simp add: mark_last_def)
    next
      case (snoc cs d)
      have total: "length olds + length news = inline_len ?cells + kind_count Row_Context ?cells"
        by (rule cells_show_length [OF shown])
      have "sat_add ic 1 = inline_len ?cells + 1" if "fst d = Row_Context"
        using ok total that snoc by (simp add: sat_add_small)
      moreover have "runs \<noteq> []" using snoc by auto
      ultimately show ?thesis
        unfolding if_not_P [OF False] using ok cells app snoc by (simp add: mark_last_snoc inline_len_def)
    qed
  qed
  then show thesis
    by (intro that [of ?cells]) (use ok plan in simp_all)
qed

lemma cells_show_mark_last:
  assumes "cells_show olds news i j cells"
  shows "cells_show olds news i j (mark_last cells)"
proof (cases cells rule: rev_cases)
  case (snoc cs c)
  then show ?thesis
    using assms by (cases c) (auto simp: cells_show_def mark_last_snoc split: row_kind.splits option.splits)
qed (use assms in \<open>simp add: mark_last_def\<close>)

text \<open>A context row counts for two lines, a row of another kind for at least one.\<close>

lemma all_context_count:
  assumes "cells_show olds news i j cells"
  shows "(\<forall>d\<in>set cells. fst d = Row_Context) \<longleftrightarrow> i = kind_count Row_Context cells \<and> j = kind_count Row_Context cells"
proof -
  have len: "i + j = length cells + kind_count Row_Modify cells + kind_count Row_Context cells"
    using cells_show_length [OF assms] by (simp add: inline_len_def)
  have kinds: "length cells = kind_count Row_Context cells + kind_count Row_Add cells + kind_count Row_Remove cells
      + kind_count Row_Modify cells" for cells :: "plan_cell list"
  proof (induction cells)
    case (Cons d cells)
    then show ?case by (cases "fst d") simp_all
  qed simp
  have all: "(\<forall>d\<in>set cells. fst d = Row_Context) \<longleftrightarrow> kind_count Row_Context cells = length cells" for cells
  proof (induction cells)
    case (Cons d cells)
    have "kind_count Row_Context cells \<le> length cells" by (simp add: kind_count_def)
    then show ?case using Cons by auto
  qed simp
  have "filter_map cell_old cells = [0..<i]" "filter_map cell_new cells = [0..<j]"
    using assms by (simp_all add: cells_show_def)
  then have "i \<le> length cells" "j \<le> length cells"
    by (metis diff_zero length_filter_map_le length_upt)+
  then show ?thesis
    unfolding all using len kinds [of cells] by linarith
qed

lemma context_cell:
  assumes "cells_show olds news i j cells" "d \<in> set cells" "fst d = Row_Context"
  shows "\<exists>x y. d = (Row_Context, Some x, Some y) \<and> olds ! x = news ! y"
proof -
  obtain u v where d: "d = (Row_Context, u, v)" using assms(3) by (cases d) simp
  have "case d of
        (Row_Context, Some x, Some y) \<Rightarrow> olds ! x = news ! y
      | (Row_Modify, Some x, Some y) \<Rightarrow> True
      | (Row_Remove, Some x, None) \<Rightarrow> True
      | (Row_Add, None, Some y) \<Rightarrow> True
      | _ \<Rightarrow> False"
    using assms(1,2) by (simp only: cells_show_def)
  then show ?thesis unfolding d by (cases u; cases v) simp_all
qed

lemma all_context_lines:
  assumes "cells_show olds news (length olds) (length news) cells" "\<forall>d\<in>set cells. fst d = Row_Context"
  shows "olds = news"
proof (rule nth_equalityI)
  show len: "length olds = length news"
    using all_context_count [OF assms(1)] assms(2) by simp
  have both: "cell_old d \<noteq> None" "cell_new d \<noteq> None" if "d \<in> set cells" for d
    using context_cell [OF assms(1) that] assms(2) that by auto
  have the_map: "filter_map f cells = map (\<lambda>d. the (f d)) cells" if "\<And>d. d \<in> set cells \<Longrightarrow> f d \<noteq> None" for f :: "plan_cell \<Rightarrow> nat option"
    using that
  proof (induction cells)
    case (Cons d cells)
    then obtain y where "f d = Some y" by fastforce
    then show ?case using Cons by simp
  qed simp
  have olds: "map (\<lambda>d. the (cell_old d)) cells = [0..<length olds]" and news: "map (\<lambda>d. the (cell_new d)) cells = [0..<length news]"
    using assms(1) the_map [OF both(1)] the_map [OF both(2)] by (simp_all add: cells_show_def)
  show "olds ! k = news ! k" if "k < length olds" for k
  proof -
    have k: "k < length cells" using arg_cong [OF olds, of length] that by simp
    then have "the (cell_old (cells ! k)) = k" "the (cell_new (cells ! k)) = k"
      using arg_cong [OF olds, of "\<lambda>l. l ! k"] arg_cong [OF news, of "\<lambda>l. l ! k"] that len by simp_all
    moreover obtain x y where "cells ! k = (Row_Context, Some x, Some y)" "olds ! x = news ! y"
      using context_cell [OF assms(1) nth_mem [OF k]] assms(2) nth_mem [OF k] by auto
    ultimately show ?thesis by simp
  qed
qed

lemma side_by_side_plan_cells:
  fixes old new :: utext
  assumes "length (lines old) + length (lines new) \<le> usize_max"
  defines "plan \<equiv> side_by_side_plan old new" and "eof \<equiv> eof_newline_delta old new"
  obtains cells c where "cells_show (lines old) (lines new) (length (lines old)) (length (lines new)) cells"
    "kind_count Row_Context cells = c" "plan_cells (sp_runs plan) = (if eof = None then cells else mark_last cells)"
    "sp_row_count plan = length (plan_cells (sp_runs plan))" "sp_inline_row_count plan = inline_len (plan_cells (sp_runs plan))"
    "sp_eof_newline plan = eof" "lines old = lines new \<Longrightarrow> c = length (lines old)"
    "length (lines old) + length (lines new) < 1024 \<Longrightarrow> c = kept (myers_edits (lines old) (lines new))"
proof -
  have plan: "plan = build_side_by_side_plan old new (lines old) (lines new) replacement_pair_cost"
    unfolding plan_def side_by_side_plan_def side_by_side_plan_from_lines_def split_lines_eq by (rule refl)
  obtain acc c where
    acc: "plan = finish_plan old new acc" "acc_ok (lines old) (lines new) (length (lines old)) (length (lines new)) c acc"
    "lines old = lines new \<Longrightarrow> c = length (lines old)"
    "length (lines old) + length (lines new) < 1024 \<Longrightarrow> c = kept (myers_edits (lines old) (lines new))"
    by (rule plan_from_acc [OF assms(1), of old new], rule that) (simp_all add: plan)
  from finished_plan [OF acc(2), of old new, folded acc(1) eof_def] that [OF _ _ _ _ _ _ acc(3,4)]
  show thesis by metis
qed

lemma mark_last_context:
  "cells \<noteq> [] \<Longrightarrow> \<exists>d\<in>set (mark_last cells). fst d \<noteq> Row_Context"
  "kind_count Row_Context cells \<le> kind_count Row_Context (mark_last cells) + 1"
  by (cases cells rule: rev_cases; auto simp: mark_last_snoc mark_last_def)+

section \<open>Properties\<close>

text \<open>C13: the plan of a side-by-side diff shows every line of both files exactly once and in order,
  whichever of the three ways of building it is taken: the rows name the old lines 0, 1, 2 and so on on
  the left and the new lines on the right, a row of unchanged text shows equal lines, a removed row
  has no right side and an added row no left side. The two row counters that are carried along are
  the number of rows, and of rows when each modified one takes two, and the plan carries the
  difference of the final newlines.\<close>

theorem plans_show_both_files:
  assumes "length (lines old) + length (lines new) \<le> usize_max"
  defines "plan \<equiv> side_by_side_plan old new"
  shows "cells_show (lines old) (lines new) (length (lines old)) (length (lines new)) (plan_cells (sp_runs plan)) \<and>
    sp_row_count plan = length (plan_cells (sp_runs plan)) \<and>
    sp_inline_row_count plan = inline_len (plan_cells (sp_runs plan)) \<and>
    sp_eof_newline plan = eof_newline_delta old new"
  using side_by_side_plan_cells [OF assms(1)] cells_show_mark_last unfolding plan_def by metis

theorem plans_show_both_files_witness:
  "sp_row_count (side_by_side_plan (str ''a'' @ [LF]) (str ''b''))
     = length (plan_cells (sp_runs (side_by_side_plan (str ''a'' @ [LF]) (str ''b''))))"
  using plans_show_both_files [of "str ''a'' @ [LF]" "str ''b''"]
  by (simp add: split_inclusive_length line_count_def str_def usize_max_def)

text \<open>C18: a plan has at least as many rows as the longer file has lines; written in one column, it never
  has more rows than both files together have lines, so neither counter can overflow.\<close>

theorem plan_rows_are_bounded:
  assumes "length (lines old) + length (lines new) \<le> usize_max"
  shows "max (length (lines old)) (length (lines new)) \<le> sp_row_count (side_by_side_plan old new) \<and>
    sp_row_count (side_by_side_plan old new) \<le> sp_inline_row_count (side_by_side_plan old new) \<and>
    sp_inline_row_count (side_by_side_plan old new) \<le> length (lines old) + length (lines new)"
proof -
  let ?cells = "plan_cells (sp_runs (side_by_side_plan old new))"
  obtain shown: "cells_show (lines old) (lines new) (length (lines old)) (length (lines new)) ?cells"
    and counts: "sp_row_count (side_by_side_plan old new) = length ?cells"
      "sp_inline_row_count (side_by_side_plan old new) = inline_len ?cells"
    using side_by_side_plan_cells [OF assms] cells_show_mark_last by metis
  have "filter_map cell_old ?cells = [0..<length (lines old)]" "filter_map cell_new ?cells = [0..<length (lines new)]"
    using shown by (simp_all add: cells_show_def del: length_lines)
  then have "length (lines old) \<le> length ?cells" "length (lines new) \<le> length ?cells"
    by (metis diff_zero length_filter_map_le length_upt)+
  moreover have "length (lines old) + length (lines new) = inline_len ?cells + kind_count Row_Context ?cells"
    by (rule cells_show_length [OF shown])
  ultimately show ?thesis
    unfolding counts by (simp add: inline_len_def del: length_lines)
qed

theorem plan_rows_are_bounded_witness:
  "sp_row_count (side_by_side_plan (str ''a'') (str ''b'')) \<le> 2"
  using plan_rows_are_bounded [of "str ''a''" "str ''b''"]
  by (simp add: split_inclusive_length line_count_def str_def usize_max_def ends_with_def)

text \<open>C14: a plan has only unchanged rows exactly when the two files have the same lines and both or neither
  end in a newline, and on files of less than 1024 lines together no edit script keeps more lines
  than the plan shows unchanged, the last row apart when only one file ends in a newline.\<close>

theorem plans_show_least_changes:
  assumes "length (lines old) + length (lines new) \<le> usize_max"
  defines "cells \<equiv> plan_cells (sp_runs (side_by_side_plan old new))"
  shows "((\<forall>d\<in>set cells. fst d = Row_Context) \<longleftrightarrow> lines old = lines new \<and> eof_newline_delta old new = None) \<and>
    (length (lines old) + length (lines new) < 1024 \<longrightarrow>
      (\<forall>es. script_for es (lines old) (lines new) \<longrightarrow>
        kept es \<le> kind_count Row_Context cells + of_bool (eof_newline_delta old new \<noteq> None)))"
proof -
  let ?n = "length (lines old)" and ?m = "length (lines new)" and ?eof = "eof_newline_delta old new"
  obtain all c where all: "cells_show (lines old) (lines new) ?n ?m all" "kind_count Row_Context all = c"
    "cells = (if ?eof = None then all else mark_last all)" "lines old = lines new \<Longrightarrow> c = ?n"
    "?n + ?m < 1024 \<Longrightarrow> c = kept (myers_edits (lines old) (lines new))"
    unfolding cells_def by (rule side_by_side_plan_cells [OF assms(1)]) blast
  have "all = [] \<Longrightarrow> ?eof = None"
    using cells_show_length [OF all(1)] by (auto simp: eof_newline_delta_def ends_with_def)
  then have "(\<forall>d\<in>set cells. fst d = Row_Context) \<longleftrightarrow> (\<forall>d\<in>set all. fst d = Row_Context) \<and> ?eof = None"
    using all(3) mark_last_context(1) [of all] by (cases "?eof = None") (simp, metis)
  moreover have "(\<forall>d\<in>set all. fst d = Row_Context) \<longleftrightarrow> lines old = lines new"
    using all_context_count [OF all(1)] all_context_lines [OF all(1)] all(2,4) by metis
  moreover have "kept es \<le> kind_count Row_Context cells + of_bool (?eof \<noteq> None)"
    if "?n + ?m < 1024" "script_for es (lines old) (lines new)" for es
  proof -
    have "script_cost (myers_edits (lines old) (lines new)) \<le> script_cost es"
      by (rule myers_least_cost [OF _ that(2)]) (use that(1) in \<open>simp add: u32_max_def\<close>)
    then have "kept es \<le> c"
      using script_for_length [OF that(2)] script_for_length [OF myers.diff_script [of "lines old" "lines new"]] all(5) [OF that(1)]
      by (simp add: kept_def)
    then show ?thesis using all(2,3) mark_last_context(2) [of all] by auto
  qed
  ultimately show ?thesis by blast
qed

theorem plans_show_least_changes_witness:
  "\<exists>d\<in>set (plan_cells (sp_runs (side_by_side_plan (str ''a'') (str ''b'')))). fst d \<noteq> Row_Context"
proof -
  have "lines (str ''a'') \<noteq> lines (str ''b'')" by (simp add: lines_def str_def strip_line_end_def)
  then show ?thesis
    using plans_show_least_changes [of "str ''a''" "str ''b''"]
    by (simp add: split_inclusive_length line_count_def str_def usize_max_def ends_with_def)
qed

text \<open>An empty file has no last line, but is marked as missing its final newline.\<close>

lemma empty_file_is_marked:
  "eof_newline_delta [] (str ''a'' @ [LF]) = Some Missing_In_Old"
  by (simp add: eof_newline_delta_def ends_with_def str_def)

end
