(* ===== verification/Side_Rows.thy ===== *)
theory Side_Rows
  imports Side_Plan
begin

text \<open>
  What the diff views read off a side-by-side plan (\<open>file_diff.rs\<close>): the rows with their texts and line
  numbers, the borrowed row views, the masks of changed lines, the maps from lines to rows, the
  prefix counts, and the anchors of rows and of regions of change. Every reader walks the
  runs of the plan; the theory shows that they all agree with the cells of the plan.
\<close>

section \<open>Rows\<close>

text \<open>Line numbers are of type \<open>u32\<close> and start at 1; a line beyond has no number.\<close>

definition one_based_line_number :: "nat \<Rightarrow> nat option" where
  "one_based_line_number line_ix =
     (if line_ix + 1 \<le> usize_max \<and> line_ix + 1 \<le> u32_max then Some (line_ix + 1) else None)"

record file_diff_row =
  fr_kind :: row_kind
  fr_old_line :: "nat option"
  fr_new_line :: "nat option"
  fr_old :: "utext option"
  fr_new :: "utext option"
  fr_eof_newline :: "eof_newline option"

text \<open>\<open>lines.get(ix).copied().unwrap_or_default()\<close>.\<close>

definition line_or_default :: "utext list \<Rightarrow> nat \<Rightarrow> utext" where
  "line_or_default ls ix = (if ix < length ls then ls ! ix else [])"

definition numbered :: "nat \<Rightarrow> nat \<Rightarrow> nat option" where
  "numbered delta ix = map_option (\<lambda>line. u32_sat_add line delta) (one_based_line_number ix)"

fun materialize_run :: "utext list \<Rightarrow> utext list \<Rightarrow> nat \<Rightarrow> nat \<Rightarrow> plan_run \<Rightarrow> file_diff_row list" where
  "materialize_run olds news od nd (Run_Context old_start new_start len) =
     map (\<lambda>k. let old_ix = sat_add old_start k; new_ix = sat_add new_start k; line = line_or_default olds old_ix
              in \<lparr>fr_kind = Row_Context, fr_old_line = numbered od old_ix, fr_new_line = numbered nd new_ix,
                  fr_old = Some line, fr_new = Some line, fr_eof_newline = None\<rparr>) [0..<len]"
| "materialize_run olds news od nd (Run_Remove old_start len) =
     map (\<lambda>k. let old_ix = sat_add old_start k
              in \<lparr>fr_kind = Row_Remove, fr_old_line = numbered od old_ix, fr_new_line = None,
                  fr_old = Some (line_or_default olds old_ix), fr_new = None, fr_eof_newline = None\<rparr>) [0..<len]"
| "materialize_run olds news od nd (Run_Add new_start len) =
     map (\<lambda>k. let new_ix = sat_add new_start k
              in \<lparr>fr_kind = Row_Add, fr_old_line = None, fr_new_line = numbered nd new_ix,
                  fr_old = None, fr_new = Some (line_or_default news new_ix), fr_eof_newline = None\<rparr>) [0..<len]"
| "materialize_run olds news od nd (Run_Modify old_start new_start len) =
     map (\<lambda>k. let old_ix = sat_add old_start k; new_ix = sat_add new_start k
              in \<lparr>fr_kind = Row_Modify, fr_old_line = numbered od old_ix, fr_new_line = numbered nd new_ix,
                  fr_old = Some (line_or_default olds old_ix), fr_new = Some (line_or_default news new_ix),
                  fr_eof_newline = None\<rparr>) [0..<len]"

text \<open>The marker of the final newline goes to the last of the rows just added.\<close>

definition materialize_rows_from_plan_into ::
  "file_diff_row list \<Rightarrow> side_plan \<Rightarrow> utext list \<Rightarrow> utext list \<Rightarrow> nat \<Rightarrow> nat \<Rightarrow> file_diff_row list" where
  "materialize_rows_from_plan_into rows plan olds news old_line_offset new_line_offset =
     (let added = concat (map (materialize_run olds news (old_line_offset - 1) (new_line_offset - 1)) (sp_runs plan))
      in rows @ (case sp_eof_newline plan of
           None \<Rightarrow> added
         | Some marker \<Rightarrow>
             (if added \<noteq> [] then butlast added @ [last added\<lparr>fr_eof_newline := Some marker\<rparr>]
              else [\<lparr>fr_kind = Row_Modify, fr_old_line = None, fr_new_line = None, fr_old = None, fr_new = None,
                     fr_eof_newline = Some marker\<rparr>])))"

definition materialize_rows_from_plan :: "side_plan \<Rightarrow> utext list \<Rightarrow> utext list \<Rightarrow> file_diff_row list" where
  "materialize_rows_from_plan plan olds news = materialize_rows_from_plan_into [] plan olds news 0 0"

definition side_by_side_rows :: "utext \<Rightarrow> utext \<Rightarrow> file_diff_row list" where
  "side_by_side_rows old new =
     (let olds = split_lines old; news = split_lines new;
          plan = build_side_by_side_plan old new olds news replacement_pair_cost
      in materialize_rows_from_plan plan olds news)"

definition append_side_by_side_rows_with_offsets ::
  "file_diff_row list \<Rightarrow> utext \<Rightarrow> utext \<Rightarrow> nat \<Rightarrow> nat \<Rightarrow> file_diff_row list" where
  "append_side_by_side_rows_with_offsets rows old new old_line_offset new_line_offset =
     (let olds = split_lines old; news = split_lines new;
          plan = build_side_by_side_plan old new olds news replacement_pair_cost
      in materialize_rows_from_plan_into rows plan olds news old_line_offset new_line_offset)"

section \<open>Borrowed views\<close>

datatype plan_row_view =
    View_Context nat nat utext
  | View_Remove nat utext
  | View_Add nat utext
  | View_Modify nat nat utext utext

fun view_kind :: "plan_row_view \<Rightarrow> row_kind" where
  "view_kind (View_Context old_line new_line line) = Row_Context"
| "view_kind (View_Remove old_line line) = Row_Remove"
| "view_kind (View_Add new_line line) = Row_Add"
| "view_kind (View_Modify old_line new_line old_line_text new_line_text) = Row_Modify"

text \<open>The calls of the visitor, in order; a line without a number is passed over.\<close>

fun run_views :: "utext list \<Rightarrow> utext list \<Rightarrow> plan_run \<Rightarrow> plan_row_view list" where
  "run_views olds news (Run_Context old_start new_start len) =
     filter_map (\<lambda>k. let old_ix = sat_add old_start k; new_ix = sat_add new_start k
       in case (one_based_line_number old_ix, one_based_line_number new_ix) of
            (Some ol, Some nl) \<Rightarrow> Some (View_Context ol nl (line_or_default olds old_ix))
          | _ \<Rightarrow> None) [0..<len]"
| "run_views olds news (Run_Remove old_start len) =
     filter_map (\<lambda>k. let old_ix = sat_add old_start k
       in case one_based_line_number old_ix of
            Some ol \<Rightarrow> Some (View_Remove ol (line_or_default olds old_ix)) | None \<Rightarrow> None) [0..<len]"
| "run_views olds news (Run_Add new_start len) =
     filter_map (\<lambda>k. let new_ix = sat_add new_start k
       in case one_based_line_number new_ix of
            Some nl \<Rightarrow> Some (View_Add nl (line_or_default news new_ix)) | None \<Rightarrow> None) [0..<len]"
| "run_views olds news (Run_Modify old_start new_start len) =
     filter_map (\<lambda>k. let old_ix = sat_add old_start k; new_ix = sat_add new_start k
       in case (one_based_line_number old_ix, one_based_line_number new_ix) of
            (Some ol, Some nl) \<Rightarrow> Some (View_Modify ol nl (line_or_default olds old_ix) (line_or_default news new_ix))
          | _ \<Rightarrow> None) [0..<len]"

definition for_each_side_by_side_row :: "utext \<Rightarrow> utext \<Rightarrow> plan_row_view list" where
  "for_each_side_by_side_row old new =
     (let olds = split_lines old; news = split_lines new;
          plan = build_side_by_side_plan old new olds news replacement_pair_cost
      in concat (map (run_views olds news) (sp_runs plan)))"

section \<open>Row metadata\<close>

record diff_row_meta =
  dm_kind :: row_kind
  dm_old_line :: "nat option"
  dm_new_line :: "nat option"

fun run_metas :: "plan_run \<Rightarrow> diff_row_meta list" where
  "run_metas (Run_Context old_start new_start len) =
     map (\<lambda>k. \<lparr>dm_kind = Row_Context, dm_old_line = one_based_line_number (sat_add old_start k),
               dm_new_line = one_based_line_number (sat_add new_start k)\<rparr>) [0..<len]"
| "run_metas (Run_Remove old_start len) =
     map (\<lambda>k. \<lparr>dm_kind = Row_Remove, dm_old_line = one_based_line_number (sat_add old_start k), dm_new_line = None\<rparr>) [0..<len]"
| "run_metas (Run_Add new_start len) =
     map (\<lambda>k. \<lparr>dm_kind = Row_Add, dm_old_line = None, dm_new_line = one_based_line_number (sat_add new_start k)\<rparr>) [0..<len]"
| "run_metas (Run_Modify old_start new_start len) =
     map (\<lambda>k. \<lparr>dm_kind = Row_Modify, dm_old_line = one_based_line_number (sat_add old_start k),
               dm_new_line = one_based_line_number (sat_add new_start k)\<rparr>) [0..<len]"

text \<open>The calls of \<open>for_each_plan_row_meta\<close>: each row with its index.\<close>

fun indexed_from :: "nat \<Rightarrow> 'a list \<Rightarrow> (nat \<times> 'a) list" where
  "indexed_from row_index [] = []"
| "indexed_from row_index (row # rows) = (row_index, row) # indexed_from (sat_add row_index 1) rows"

definition for_each_plan_row_meta :: "side_plan \<Rightarrow> (nat \<times> diff_row_meta) list" where
  "for_each_plan_row_meta plan = indexed_from 0 (concat (map run_metas (sp_runs plan)))"

definition meta_of_row :: "file_diff_row \<Rightarrow> diff_row_meta" where
  "meta_of_row row = \<lparr>dm_kind = fr_kind row, dm_old_line = fr_old_line row, dm_new_line = fr_new_line row\<rparr>"

text \<open>\<open>plan_emitted_line_prefix_counts\<close>: how many lines of each side the first rows show.\<close>

fun prefix_counts_from :: "nat \<Rightarrow> nat \<Rightarrow> (nat \<times> diff_row_meta) list \<Rightarrow> nat list \<times> nat list" where
  "prefix_counts_from old_count new_count [] = ([], [])"
| "prefix_counts_from old_count new_count ((i, row) # rows) =
     (let old_count = (if dm_old_line row \<noteq> None then sat_add old_count 1 else old_count);
          new_count = (if dm_new_line row \<noteq> None then sat_add new_count 1 else new_count)
      in case prefix_counts_from old_count new_count rows of
           (old_prefix, new_prefix) \<Rightarrow> (old_count # old_prefix, new_count # new_prefix))"

definition plan_emitted_line_prefix_counts :: "side_plan \<Rightarrow> nat list \<times> nat list" where
  "plan_emitted_line_prefix_counts plan =
     (case prefix_counts_from 0 0 (for_each_plan_row_meta plan) of
        (old_prefix, new_prefix) \<Rightarrow> (0 # old_prefix, 0 # new_prefix))"

definition mark_changed_line :: "bool list \<Rightarrow> nat option \<Rightarrow> bool list" where
  "mark_changed_line m line =
     (case line of
        None \<Rightarrow> m
      | Some line \<Rightarrow> (if line - 1 < length m then m[line - 1 := True] else m))"

definition mask_step :: "bool list \<times> bool list \<Rightarrow> nat \<times> diff_row_meta \<Rightarrow> bool list \<times> bool list" where
  "mask_step ms r =
     (case (ms, r) of ((old_mask, new_mask), (row_index, row)) \<Rightarrow>
        (case dm_kind row of
           Row_Context \<Rightarrow> (old_mask, new_mask)
         | Row_Remove \<Rightarrow> (mark_changed_line old_mask (dm_old_line row), new_mask)
         | Row_Add \<Rightarrow> (old_mask, mark_changed_line new_mask (dm_new_line row))
         | Row_Modify \<Rightarrow> (mark_changed_line old_mask (dm_old_line row), mark_changed_line new_mask (dm_new_line row))))"

definition plan_changed_line_masks :: "side_plan \<Rightarrow> nat \<Rightarrow> nat \<Rightarrow> bool list \<times> bool list" where
  "plan_changed_line_masks plan old_line_count new_line_count =
     foldl mask_step (replicate old_line_count False, replicate new_line_count False) (for_each_plan_row_meta plan)"

definition assign_line_to_row :: "nat option list \<Rightarrow> nat option \<Rightarrow> nat \<Rightarrow> nat option list" where
  "assign_line_to_row line_to_row line row_index =
     (case line of
        None \<Rightarrow> line_to_row
      | Some line \<Rightarrow> (if line - 1 < length line_to_row then line_to_row[line - 1 := Some row_index] else line_to_row))"

definition plan_line_to_row_maps :: "side_plan \<Rightarrow> nat \<Rightarrow> nat \<Rightarrow> nat option list \<times> nat option list" where
  "plan_line_to_row_maps plan old_line_count new_line_count =
     foldl (\<lambda>(old_map, new_map) (row_index, row).
         (assign_line_to_row old_map (dm_old_line row) row_index, assign_line_to_row new_map (dm_new_line row) row_index))
       (replicate old_line_count None, replicate new_line_count None) (for_each_plan_row_meta plan)"

section \<open>The readers and the cells\<close>

lemma u32_usize: "n \<le> u32_max \<Longrightarrow> n + n \<le> usize_max" "n \<le> u32_max \<Longrightarrow> n \<le> usize_max"
  by (simp_all add: u32_max_def usize_max_def)

lemma one_based_small: "ix < n \<Longrightarrow> n \<le> u32_max \<Longrightarrow> one_based_line_number ix = Some (Suc ix)"
  using u32_usize(2) [of n] by (simp add: one_based_line_number_def)

text \<open>A cell that names lines of texts of this length, with equal lines in a context row.\<close>

definition cell_in :: "'a list \<Rightarrow> 'a list \<Rightarrow> plan_cell \<Rightarrow> bool" where
  "cell_in olds news d \<longleftrightarrow>
     (case d of
        (Row_Context, Some x, Some y) \<Rightarrow> x < length olds \<and> y < length news \<and> olds ! x = news ! y
      | (Row_Modify, Some x, Some y) \<Rightarrow> x < length olds \<and> y < length news
      | (Row_Remove, Some x, None) \<Rightarrow> x < length olds
      | (Row_Add, None, Some y) \<Rightarrow> y < length news
      | _ \<Rightarrow> False)"

lemma cell_in_cases:
  assumes "cell_in olds news d"
  obtains (Context) x y where "d = (Row_Context, Some x, Some y)" "x < length olds" "y < length news" "olds ! x = news ! y"
    | (Modify) x y where "d = (Row_Modify, Some x, Some y)" "x < length olds" "y < length news"
    | (Remove) x where "d = (Row_Remove, Some x, None)" "x < length olds"
    | (Add) y where "d = (Row_Add, None, Some y)" "y < length news"
proof -
  obtain k u v where d: "d = (k, u, v)" by (cases d)
  show thesis
    using assms that unfolding d cell_in_def by (cases k; cases u; cases v; simp)
qed

lemma cells_in:
  assumes "cells_show olds news (length olds) (length news) cells" "d \<in> set cells"
  shows "cell_in olds news d"
proof -
  obtain k u v where d: "d = (k, u, v)" by (cases d)
  have "set (filter_map cell_old cells) = {0..<length olds}" "set (filter_map cell_new cells) = {0..<length news}"
    using assms(1) by (simp_all add: cells_show_def)
  then have range: "\<And>x. u = Some x \<Longrightarrow> x < length olds" "\<And>y. v = Some y \<Longrightarrow> y < length news"
    using assms(2) unfolding d set_filter_map by force+
  have "case d of
        (Row_Context, Some x, Some y) \<Rightarrow> olds ! x = news ! y
      | (Row_Modify, Some x, Some y) \<Rightarrow> True
      | (Row_Remove, Some x, None) \<Rightarrow> True
      | (Row_Add, None, Some y) \<Rightarrow> True
      | _ \<Rightarrow> False"
    using assms by (simp only: cells_show_def)
  then show ?thesis
    using range unfolding d cell_in_def by (cases k; cases u; cases v; simp)
qed

text \<open>What each reader makes of one cell.\<close>

fun row_of :: "utext list \<Rightarrow> utext list \<Rightarrow> nat \<Rightarrow> nat \<Rightarrow> plan_cell \<Rightarrow> file_diff_row" where
  "row_of olds news od nd (k, u, v) =
     \<lparr>fr_kind = k, fr_old_line = map_option (\<lambda>x. u32_sat_add (Suc x) od) u,
      fr_new_line = map_option (\<lambda>y. u32_sat_add (Suc y) nd) v,
      fr_old = map_option ((!) olds) u, fr_new = map_option ((!) news) v, fr_eof_newline = None\<rparr>"

fun meta_of :: "plan_cell \<Rightarrow> diff_row_meta" where
  "meta_of (k, u, v) = \<lparr>dm_kind = k, dm_old_line = map_option Suc u, dm_new_line = map_option Suc v\<rparr>"

fun view_of :: "file_diff_row \<Rightarrow> plan_row_view" where
  "view_of r =
     (case fr_kind r of
        Row_Context \<Rightarrow> View_Context (the (fr_old_line r)) (the (fr_new_line r)) (the (fr_old r))
      | Row_Remove \<Rightarrow> View_Remove (the (fr_old_line r)) (the (fr_old r))
      | Row_Add \<Rightarrow> View_Add (the (fr_new_line r)) (the (fr_new r))
      | Row_Modify \<Rightarrow> View_Modify (the (fr_old_line r)) (the (fr_new_line r)) (the (fr_old r)) (the (fr_new r)))"

lemma run_readers:
  assumes "\<forall>d\<in>set (run_cells r). cell_in olds news d" and len: "length olds \<le> u32_max" "length news \<le> u32_max"
  shows "materialize_run olds news od nd r = map (row_of olds news od nd) (run_cells r)"
    "run_metas r = map meta_of (run_cells r)"
    "run_views olds news r = map (view_of \<circ> row_of olds news 0 0) (run_cells r)"
proof -
  note small = one_based_small [OF _ len(1)] one_based_small [OF _ len(2)]
  have sat: "sat_add a k = a + k" if "a + k < length olds \<or> a + k < length news" for a k
    using that len by (auto intro!: sat_add_small dest: u32_usize(2))
  have one: "u32_sat_add (Suc x) 0 = Suc x" if "x < length olds \<or> x < length news" for x
    using that len by (auto simp: u32_sat_add_def)
  have all: "filter_map f xs = map g xs" if "\<And>x. x \<in> set xs \<Longrightarrow> f x = Some (g x)" for f :: "nat \<Rightarrow> 'z option" and g xs
    using that by (induction xs) simp_all
  have parts: "materialize_run olds news od nd r = map (row_of olds news od nd) (run_cells r) \<and>
      run_metas r = map meta_of (run_cells r) \<and>
      run_views olds news r = map (view_of \<circ> row_of olds news 0 0) (run_cells r)"
  proof (cases r)
    case (Run_Context a b l)
    then have "a + k < length olds \<and> b + k < length news \<and> olds ! (a + k) = news ! (b + k)" if "k < l" for k
      using assms(1) that by (auto simp: cell_in_def)
    then show ?thesis
      unfolding Run_Context by (auto simp: Let_def sat small one numbered_def line_or_default_def intro!: all)
  next
    case (Run_Remove a l)
    then have "a + k < length olds" if "k < l" for k
      using assms(1) that by (auto simp: cell_in_def)
    then show ?thesis
      unfolding Run_Remove by (auto simp: Let_def sat small one numbered_def line_or_default_def intro!: all)
  next
    case (Run_Add b l)
    then have "b + k < length news" if "k < l" for k
      using assms(1) that by (auto simp: cell_in_def)
    then show ?thesis
      unfolding Run_Add by (auto simp: Let_def sat small one numbered_def line_or_default_def intro!: all)
  next
    case (Run_Modify a b l)
    then have "a + k < length olds \<and> b + k < length news" if "k < l" for k
      using assms(1) that by (auto simp: cell_in_def)
    then show ?thesis
      unfolding Run_Modify by (auto simp: Let_def sat small one numbered_def line_or_default_def intro!: all)
  qed
  then show "materialize_run olds news od nd r = map (row_of olds news od nd) (run_cells r)"
    "run_metas r = map meta_of (run_cells r)"
    "run_views olds news r = map (view_of \<circ> row_of olds news 0 0) (run_cells r)" by simp_all
qed

lemma plan_readers:
  assumes "cells_show olds news (length olds) (length news) (plan_cells runs)"
    and "length olds \<le> u32_max" "length news \<le> u32_max"
  shows "concat (map (materialize_run olds news od nd) runs) = map (row_of olds news od nd) (plan_cells runs)"
    "concat (map run_metas runs) = map meta_of (plan_cells runs)"
    "concat (map (run_views olds news) runs) = map (view_of \<circ> row_of olds news 0 0) (plan_cells runs)"
proof -
  have "\<forall>d\<in>set (run_cells r). cell_in olds news d" if "r \<in> set runs" for r
    using cells_in [OF assms(1)] that by (auto simp: plan_cells_def)
  note readers = run_readers [OF this assms(2,3)]
  show "concat (map (materialize_run olds news od nd) runs) = map (row_of olds news od nd) (plan_cells runs)"
    unfolding plan_cells_def map_concat map_map comp_def by (intro arg_cong [of _ _ concat] map_cong readers(1)) simp_all
  show "concat (map run_metas runs) = map meta_of (plan_cells runs)"
    unfolding plan_cells_def map_concat map_map comp_def by (intro arg_cong [of _ _ concat] map_cong readers(2)) simp_all
  show "concat (map (run_views olds news) runs) = map (view_of \<circ> row_of olds news 0 0) (plan_cells runs)"
    unfolding plan_cells_def map_concat map_map comp_def
    by (intro arg_cong [of _ _ concat] map_cong readers(3) [unfolded comp_def]) simp_all
qed

lemma indexed_from: "i + length xs \<le> usize_max \<Longrightarrow> indexed_from i xs = zip [i..<i + length xs] xs"
proof (induction xs arbitrary: i)
  case (Cons x xs)
  then have "sat_add i 1 = Suc i" by (simp add: sat_add_def)
  then show ?case using Cons by (simp add: upt_conv_Cons del: upt_Suc)
qed simp

section \<open>The rows of a plan\<close>

definition mark_row :: "eof_newline option \<Rightarrow> file_diff_row list \<Rightarrow> file_diff_row list" where
  "mark_row eof rs =
     (case eof of None \<Rightarrow> rs | Some marker \<Rightarrow> butlast rs @ [last rs\<lparr>fr_eof_newline := Some marker\<rparr>])"

lemma map_mark_row:
  assumes "eof = None \<or> rs \<noteq> []" "\<And>r m. f (r\<lparr>fr_eof_newline := m\<rparr>) = f r"
  shows "map f (mark_row eof rs) = map f rs"
  using assms by (cases rs rule: rev_cases) (auto simp: mark_row_def split: option.splits)

lemma filter_map_mark_row:
  assumes "eof = None \<or> rs \<noteq> []" "\<And>r m. f (r\<lparr>fr_eof_newline := m\<rparr>) = f r"
  shows "filter_map f (mark_row eof rs) = filter_map f rs"
  using arg_cong [OF map_mark_row [OF assms], of "filter_map (\<lambda>x. x)"] by simp

lemma mark_row_markers:
  assumes "\<forall>r\<in>set rs. fr_eof_newline r = None" "k < length (mark_row eof rs)" "eof = None \<or> rs \<noteq> []"
  shows "fr_eof_newline (mark_row eof rs ! k) = (if k = length (mark_row eof rs) - 1 then eof else None)"
proof (cases rs rule: rev_cases)
  case (snoc qs r)
  have "k < length qs \<Longrightarrow> fr_eof_newline (qs ! k) = None" "fr_eof_newline r = None"
    using assms(1) snoc by simp_all
  then show ?thesis
    using assms(2) snoc by (auto simp: mark_row_def nth_append less_Suc_eq split: option.splits)
qed (use assms in \<open>simp add: mark_row_def\<close>)

lemma filter_map_option: "filter_map (\<lambda>d. map_option g (f d)) xs = map g (filter_map f xs)"
  by (induction xs) (simp_all split: option.splits)

lemma row_of_fields [simp]:
  "fr_kind (row_of olds news od nd d) = fst d"
  "fr_old (row_of olds news od nd d) = map_option ((!) olds) (cell_old d)"
  "fr_new (row_of olds news od nd d) = map_option ((!) news) (cell_new d)"
  "fr_old_line (row_of olds news od nd d) = map_option (\<lambda>x. u32_sat_add (Suc x) od) (cell_old d)"
  "fr_new_line (row_of olds news od nd d) = map_option (\<lambda>y. u32_sat_add (Suc y) nd) (cell_new d)"
  "fr_eof_newline (row_of olds news od nd d) = None"
  by (cases d; simp)+

lemma side_by_side_rows_append: "side_by_side_rows old new = append_side_by_side_rows_with_offsets [] old new 0 0"
  by (simp add: side_by_side_rows_def append_side_by_side_rows_with_offsets_def materialize_rows_from_plan_def)

lemma plan_of_texts:
  "build_side_by_side_plan old new (lines old) (lines new) replacement_pair_cost = side_by_side_plan old new"
  by (simp add: side_by_side_plan_def side_by_side_plan_from_lines_def)

lemma shown_cells:
  assumes "length (lines old) \<le> u32_max" "length (lines new) \<le> u32_max"
  defines "plan \<equiv> side_by_side_plan old new"
  shows "cells_show (lines old) (lines new) (length (lines old)) (length (lines new)) (plan_cells (sp_runs plan))"
    "sp_row_count plan = length (plan_cells (sp_runs plan))" "length (plan_cells (sp_runs plan)) \<le> usize_max"
    "sp_eof_newline plan = eof_newline_delta old new"
    "eof_newline_delta old new = None \<or> plan_cells (sp_runs plan) \<noteq> []"
proof -
  have len: "length (lines old) + length (lines new) \<le> usize_max"
    using assms(1,2) by (simp add: u32_max_def usize_max_def del: length_lines)
  let ?cells = "plan_cells (sp_runs plan)"
  obtain shown: "cells_show (lines old) (lines new) (length (lines old)) (length (lines new)) ?cells"
    and rest: "sp_row_count plan = length ?cells" "sp_eof_newline plan = eof_newline_delta old new"
    unfolding plan_def using side_by_side_plan_cells [OF len] cells_show_mark_last by metis
  have total: "length (lines old) + length (lines new) = inline_len ?cells + kind_count Row_Context ?cells"
    by (rule cells_show_length [OF shown])
  then show "length ?cells \<le> usize_max" using len by (simp add: inline_len_def del: length_lines)
  have "eof_newline_delta old new = None" if "?cells = []"
    using total that by (auto simp: eof_newline_delta_def ends_with_def)
  then show "eof_newline_delta old new = None \<or> ?cells \<noteq> []" by blast
  show "cells_show (lines old) (lines new) (length (lines old)) (length (lines new)) ?cells"
    "sp_row_count plan = length ?cells" "sp_eof_newline plan = eof_newline_delta old new"
    by (fact shown rest)+
qed

lemma appended_rows:
  assumes "length (lines old) \<le> u32_max" "length (lines new) \<le> u32_max"
  shows "append_side_by_side_rows_with_offsets rows old new oo no
    = rows @ mark_row (eof_newline_delta old new)
        (map (row_of (lines old) (lines new) (oo - 1) (no - 1)) (plan_cells (sp_runs (side_by_side_plan old new))))"
proof -
  note cells = shown_cells [OF assms]
  note readers = plan_readers [OF cells(1) assms]
  show ?thesis
    unfolding append_side_by_side_rows_with_offsets_def split_lines_eq plan_of_texts Let_def
      materialize_rows_from_plan_into_def readers cells(4)
    using cells(5) by (auto simp: mark_row_def split: option.split)
qed

lemma shifted_numbers:
  assumes "n + max 1 d \<le> u32_max + 1"
  shows "map (\<lambda>x. u32_sat_add (Suc x) (d - 1)) [0..<n] = [max 1 d..<max 1 d + n]"
  by (rule nth_equalityI) (use assms in \<open>auto simp: u32_sat_add_def max_def split: if_splits\<close>)

lemma side_rows:
  assumes "length (lines old) \<le> u32_max" "length (lines new) \<le> u32_max"
  shows "side_by_side_rows old new = mark_row (eof_newline_delta old new)
    (map (row_of (lines old) (lines new) 0 0) (plan_cells (sp_runs (side_by_side_plan old new))))"
  using appended_rows [OF assms, of "[]" 0 0] by (simp add: side_by_side_rows_append)

lemma each_row:
  assumes "length (lines old) \<le> u32_max" "length (lines new) \<le> u32_max"
  shows "for_each_side_by_side_row old new = map view_of (side_by_side_rows old new)"
proof -
  let ?rows = "map (row_of (lines old) (lines new) 0 0) (plan_cells (sp_runs (side_by_side_plan old new)))"
  have ok: "eof_newline_delta old new = None \<or> ?rows \<noteq> []" using shown_cells(5) [OF assms] by simp
  have "for_each_side_by_side_row old new = map view_of ?rows"
    unfolding for_each_side_by_side_row_def split_lines_eq plan_of_texts Let_def
    using plan_readers(3) [OF shown_cells(1) [OF assms] assms] by simp
  also have "\<dots> = map view_of (side_by_side_rows old new)"
    unfolding side_rows [OF assms] by (rule map_mark_row [OF ok, symmetric]) (simp split: row_kind.split)
  finally show ?thesis .
qed

text \<open>Row by row: the numbers and the kind of a row are those of its cell.\<close>

lemma row_fields:
  assumes "length (lines old) \<le> u32_max" "length (lines new) \<le> u32_max"
  defines "rows \<equiv> side_by_side_rows old new" and "cells \<equiv> plan_cells (sp_runs (side_by_side_plan old new))"
  shows "length rows = length cells"
    and "r < length cells \<Longrightarrow> fr_kind (rows ! r) = fst (cells ! r) \<and>
      fr_old_line (rows ! r) = map_option Suc (cell_old (cells ! r)) \<and>
      fr_new_line (rows ! r) = map_option Suc (cell_new (cells ! r))"
proof -
  let ?eof = "eof_newline_delta old new" and ?rows = "map (row_of (lines old) (lines new) 0 0) cells"
  note shown = shown_cells [OF assms(1,2), folded cells_def]
  have rows: "rows = mark_row ?eof ?rows"
    unfolding rows_def cells_def by (rule side_rows [OF assms(1,2)])
  have ok: "?eof = None \<or> ?rows \<noteq> []" using shown(5) by simp
  show len: "length rows = length cells"
    using arg_cong [OF map_mark_row [OF ok, of "\<lambda>r. ()"], of length] rows by simp
  assume r: "r < length cells"
  have fields: "fr_kind (rows ! r) = fst (cells ! r)"
    "fr_old_line (rows ! r) = map_option (\<lambda>x. u32_sat_add (Suc x) 0) (cell_old (cells ! r))"
    "fr_new_line (rows ! r) = map_option (\<lambda>x. u32_sat_add (Suc x) 0) (cell_new (cells ! r))"
    using arg_cong [OF map_mark_row [OF ok, of fr_kind], of "\<lambda>l. l ! r"] arg_cong [OF map_mark_row [OF ok, of fr_old_line], of "\<lambda>l. l ! r"]
      arg_cong [OF map_mark_row [OF ok, of fr_new_line], of "\<lambda>l. l ! r"] r len rows by simp_all
  have "cell_in (lines old) (lines new) (cells ! r)" using cells_in [OF shown(1)] r by simp
  then show "fr_kind (rows ! r) = fst (cells ! r) \<and>
      fr_old_line (rows ! r) = map_option Suc (cell_old (cells ! r)) \<and>
      fr_new_line (rows ! r) = map_option Suc (cell_new (cells ! r))"
    by (cases rule: cell_in_cases) (use fields assms(1,2) in \<open>simp_all add: u32_sat_add_def del: length_lines\<close>)
qed

section \<open>Lines and rows\<close>

lemma plan_metas:
  assumes "length (lines old) \<le> u32_max" "length (lines new) \<le> u32_max"
  defines "cells \<equiv> plan_cells (sp_runs (side_by_side_plan old new))"
  shows "for_each_plan_row_meta (side_by_side_plan old new) = zip [0..<length cells] (map meta_of cells)"
proof -
  have "concat (map run_metas (sp_runs (side_by_side_plan old new))) = map meta_of cells"
    using plan_readers(2) [OF shown_cells(1) [OF assms(1,2)] assms(1,2)] by (simp add: cells_def)
  then show ?thesis
    using indexed_from [of 0 "map meta_of cells"] shown_cells(3) [OF assms(1,2)]
    by (simp add: for_each_plan_row_meta_def cells_def)
qed

lemma meta_of_fields [simp]:
  "dm_kind (meta_of d) = fst d" "dm_old_line (meta_of d) = map_option Suc (cell_old d)"
  "dm_new_line (meta_of d) = map_option Suc (cell_new d)"
  by (cases d; simp)+

lemma zip_snoc: "length xs = length ys \<Longrightarrow> zip (xs @ [x]) (ys @ [y]) = zip xs ys @ [(x, y)]"
  by simp

lemma masks_of_cells:
  assumes "\<forall>d\<in>set cells. cell_in olds news d"
    and "foldl mask_step (replicate n False, replicate m False) (zip [0..<length cells] (map meta_of cells)) = (om, nm)"
  shows "length om = n \<and> length nm = m \<and>
    (\<forall>x<n. om ! x \<longleftrightarrow> (\<exists>d\<in>set cells. fst d \<noteq> Row_Context \<and> cell_old d = Some x)) \<and>
    (\<forall>y<m. nm ! y \<longleftrightarrow> (\<exists>d\<in>set cells. fst d \<noteq> Row_Context \<and> cell_new d = Some y))"
  using assms
proof (induction cells arbitrary: om nm rule: rev_induct)
  case Nil
  then show ?case by auto
next
  case (snoc d cells)
  obtain om' nm' where f: "foldl mask_step (replicate n False, replicate m False) (zip [0..<length cells] (map meta_of cells)) = (om', nm')"
    by fastforce
  have step: "mask_step (om', nm') (length cells, meta_of d) = (om, nm)"
    using snoc.prems(2) f by simp
  note IH = snoc.IH [OF _ f]
  have d: "cell_in olds news d" and "\<forall>d\<in>set cells. cell_in olds news d" using snoc.prems(1) by simp_all
  note IH = IH [OF this(2)]
  from d show ?case
    by (cases rule: cell_in_cases)
      (use IH step in \<open>auto simp: mask_step_def mark_changed_line_def nth_list_update split: if_splits\<close>)
qed

lemma foldl_pair: "foldl (\<lambda>(a, b) p. (g a p, h b p)) (a, b) ps = (foldl g a ps, foldl h b ps)"
  by (induction ps arbitrary: a b) simp_all

text \<open>One side: a line is assigned the last row that shows it.\<close>

lemma assigned_column:
  fixes cells :: "plan_cell list" and f :: "plan_cell \<Rightarrow> nat option" and n :: nat
  defines "fill \<equiv> \<lambda>cells. foldl (\<lambda>m (row_index, d). assign_line_to_row m (map_option Suc (f d)) row_index)
    (replicate n None) (zip [0..<length cells] cells)"
  shows "length (fill cells) = n \<and>
    (\<forall>k<length cells. \<forall>x<n. f (cells ! k) = Some x \<and> (\<forall>l<length cells. f (cells ! l) = Some x \<longrightarrow> l \<le> k)
       \<longrightarrow> fill cells ! x = Some k)"
proof (induction cells rule: rev_induct)
  case Nil
  then show ?case by (simp add: fill_def)
next
  case (snoc d cells)
  have fill: "fill (cells @ [d]) = assign_line_to_row (fill cells) (map_option Suc (f d)) (length cells)"
    by (simp add: fill_def)
  have "fill (cells @ [d]) ! x = Some k" if k: "k < length (cells @ [d])" and x: "x < n"
    and here: "f ((cells @ [d]) ! k) = Some x" "\<forall>l<length (cells @ [d]). f ((cells @ [d]) ! l) = Some x \<longrightarrow> l \<le> k" for k x
  proof (cases "k = length cells")
    case True
    then show ?thesis using here x snoc by (simp add: fill assign_line_to_row_def)
  next
    case False
    then have k': "k < length cells" using k by simp
    have "f d \<noteq> Some x" using here k' by (metis length_append_singleton lessI not_less nth_append_length)
    moreover have "f (cells ! k) = Some x" "\<forall>l<length cells. f (cells ! l) = Some x \<longrightarrow> l \<le> k"
      using here k' by (simp_all add: nth_append less_SucI)
    ultimately show ?thesis
      using snoc k' x by (auto simp: fill assign_line_to_row_def nth_list_update split: option.splits)
  qed
  moreover have "length (fill (cells @ [d])) = n"
    using snoc by (auto simp: fill assign_line_to_row_def split: option.splits)
  ultimately show ?case by blast
qed

lemma maps_split:
  "foldl (\<lambda>(old_map, new_map) (row_index, row).
         (assign_line_to_row old_map (dm_old_line row) row_index, assign_line_to_row new_map (dm_new_line row) row_index))
       (om, nm) (zip ixs (map meta_of cells))
     = (foldl (\<lambda>m (row_index, d). assign_line_to_row m (map_option Suc (cell_old d)) row_index) om (zip ixs cells),
        foldl (\<lambda>m (row_index, d). assign_line_to_row m (map_option Suc (cell_new d)) row_index) nm (zip ixs cells))"
proof (induction cells arbitrary: ixs om nm)
  case (Cons d cells)
  then show ?case by (cases ixs) simp_all
qed simp

lemma prefix_counts:
  assumes "max oc nc + length cells \<le> usize_max" "length ixs = length cells"
  shows "prefix_counts_from oc nc (zip ixs (map meta_of cells))
    = (map (\<lambda>k. oc + length (filter_map cell_old (take (Suc k) cells))) [0..<length cells],
       map (\<lambda>k. nc + length (filter_map cell_new (take (Suc k) cells))) [0..<length cells])"
  using assms
proof (induction cells arbitrary: oc nc ixs)
  case (Cons d cells)
  obtain j js where ixs: "ixs = j # js" using Cons.prems(2) by (cases ixs) simp_all
  have sat: "sat_add oc 1 = Suc oc" "sat_add nc 1 = Suc nc" using Cons.prems(1) by (simp_all add: sat_add_def)
  have upt: "[0..<length (d # cells)] = 0 # map Suc [0..<length cells]"
    by (simp add: map_Suc_upt upt_conv_Cons del: upt_Suc)
  show ?case
    unfolding upt ixs
    using Cons.IH [where ixs = js and oc = oc and nc = nc] Cons.IH [where ixs = js and oc = "Suc oc" and nc = nc]
      Cons.IH [where ixs = js and oc = oc and nc = "Suc nc"] Cons.IH [where ixs = js and oc = "Suc oc" and nc = "Suc nc"]
      Cons.prems sat ixs
    by (cases "cell_old d"; cases "cell_new d") (simp_all add: comp_def)
qed simp

text \<open>A column of lines \<open>0..<n\<close>: each line is in one row, and the rows above show the lines before it.\<close>

lemma column_rows:
  assumes "filter_map f cells = [0..<n]" "x < n"
  obtains r where "r < length cells" "f (cells ! r) = Some x" "length (filter_map f (take r cells)) = x"
    "\<And>l. l < length cells \<Longrightarrow> f (cells ! l) = Some x \<Longrightarrow> l = r"
proof -
  have at: "length (filter_map f (take r cells)) = y" if "r < length cells" "f (cells ! r) = Some y" for r y
  proof -
    have "[0..<n] = filter_map f (take r cells @ cells ! r # drop (Suc r) cells)"
      using assms(1) id_take_nth_drop [OF that(1)] by simp
    then have eq: "[0..<n] = filter_map f (take r cells) @ y # filter_map f (drop (Suc r) cells)"
      using that(2) by simp
    let ?l = "length (filter_map f (take r cells))"
    have "?l < length [0..<n]" "[0..<n] ! ?l = y"
      by (subst eq, simp, subst eq, simp only: nth_append_length)
    then show ?thesis by simp
  qed
  have "x \<in> set (filter_map f cells)" using assms by simp
  then obtain r where r: "r < length cells" "f (cells ! r) = Some x"
    unfolding set_filter_map by (auto simp: in_set_conv_nth)
  have mono: "length (filter_map f (take k cells)) < length (filter_map f (take l cells))"
    if "k < l" "l < length cells" "f (cells ! k) = Some x" for k l
  proof -
    have "take l cells = take k cells @ cells ! k # drop (Suc k) (take l cells)"
      using that id_take_nth_drop [of k "take l cells"] by (simp add: min_def)
    then have "filter_map f (take l cells)
        = filter_map f (take k cells) @ x # filter_map f (drop (Suc k) (take l cells))"
      using that(3) by (metis filter_map.simps(2) filter_map_append option.simps(5))
    then show ?thesis by simp
  qed
  show thesis
  proof (rule that [OF r at [OF r]])
    fix l assume l: "l < length cells" "f (cells ! l) = Some x"
    show "l = r"
      using at [OF r] at [OF l] mono [OF _ l(1) r(2)] mono [OF _ r(1) l(2)]
      by (cases l r rule: linorder_cases) simp_all
  qed
qed

lemma column_lookup:
  assumes col: "filter_map f cells = [0..<n]" "x < n"
    and the_map: "\<forall>k<length cells. \<forall>x<n. f (cells ! k) = Some x \<and> (\<forall>l<length cells. f (cells ! l) = Some x \<longrightarrow> l \<le> k)
       \<longrightarrow> lm ! x = Some k"
    and the_mask: "\<forall>x<n. m ! x \<longleftrightarrow> (\<exists>d\<in>set cells. fst d \<noteq> Row_Context \<and> f d = Some x)"
    and the_prefix: "\<forall>k\<le>length cells. p ! k = length (filter_map f (take k cells))"
  shows "\<exists>r<length cells. lm ! x = Some r \<and> f (cells ! r) = Some x \<and> p ! r = x \<and>
    (m ! x \<longleftrightarrow> fst (cells ! r) \<noteq> Row_Context)"
proof -
  obtain r where r: "r < length cells" "f (cells ! r) = Some x" "length (filter_map f (take r cells)) = x"
    "\<And>l. l < length cells \<Longrightarrow> f (cells ! l) = Some x \<Longrightarrow> l = r"
    using column_rows [OF col] by blast
  have "lm ! x = Some r"
    using the_map r col(2) by (metis order_refl)
  moreover have "p ! r = x" using the_prefix r(1,3) by simp
  moreover have "m ! x \<longleftrightarrow> fst (cells ! r) \<noteq> Row_Context"
    using the_mask col(2) r(1,2,4) by (metis in_set_conv_nth)
  ultimately show ?thesis using r(1,2) by blast
qed

lemma prefix_columns:
  assumes "length (lines old) \<le> u32_max" "length (lines new) \<le> u32_max"
  defines "cells \<equiv> plan_cells (sp_runs (side_by_side_plan old new))"
    and "p \<equiv> plan_emitted_line_prefix_counts (side_by_side_plan old new)"
  shows "\<forall>k\<le>length cells. fst p ! k = length (filter_map cell_old (take k cells))"
    "\<forall>k\<le>length cells. snd p ! k = length (filter_map cell_new (take k cells))"
proof -
  have small: "max 0 0 + length cells \<le> usize_max" using shown_cells(3) [OF assms(1,2)] by (simp add: cells_def)
  have "p = (0 # map (\<lambda>k. length (filter_map cell_old (take (Suc k) cells))) [0..<length cells],
      0 # map (\<lambda>k. length (filter_map cell_new (take (Suc k) cells))) [0..<length cells])"
    unfolding p_def plan_emitted_line_prefix_counts_def plan_metas [OF assms(1,2), folded cells_def]
    by (simp add: prefix_counts [OF small])
  then show "\<forall>k\<le>length cells. fst p ! k = length (filter_map cell_old (take k cells))"
    "\<forall>k\<le>length cells. snd p ! k = length (filter_map cell_new (take k cells))"
    by (auto simp: nth_Cons split: nat.split)
qed

section \<open>Properties\<close>

text \<open>C15: the rows of a side-by-side diff give both files back. Added to the rows collected so far, which
  they leave alone, they carry the lines of the old file on the left and of the new file on the right,
  each once and in order, numbered without a gap from the offset that was asked for; a row of
  unchanged text has the same text on both sides; and the marker of a missing final newline is on the
  last row and on no other.\<close>

theorem rows_give_both_files_back:
  fixes rows :: "file_diff_row list"
  assumes "length (lines old) + max 1 old_offset \<le> u32_max" "length (lines new) + max 1 new_offset \<le> u32_max"
  defines "result \<equiv> append_side_by_side_rows_with_offsets rows old new old_offset new_offset"
  defines "added \<equiv> drop (length rows) result"
  shows "take (length rows) result = rows \<and>
    filter_map fr_old added = lines old \<and> filter_map fr_new added = lines new \<and>
    filter_map fr_old_line added = [max 1 old_offset..<max 1 old_offset + length (lines old)] \<and>
    filter_map fr_new_line added = [max 1 new_offset..<max 1 new_offset + length (lines new)] \<and>
    (\<forall>r\<in>set added. fr_kind r = Row_Context \<longrightarrow> fr_old r = fr_new r) \<and>
    (\<forall>k<length added. fr_eof_newline (added ! k) = (if k = length added - 1 then eof_newline_delta old new else None))"
proof -
  have len: "length (lines old) \<le> u32_max" "length (lines new) \<le> u32_max" using assms(1,2) by linarith+
  let ?cells = "plan_cells (sp_runs (side_by_side_plan old new))" and ?eof = "eof_newline_delta old new"
  let ?rows = "map (row_of (lines old) (lines new) (old_offset - 1) (new_offset - 1)) ?cells"
  note cells = shown_cells [OF len]
  have result: "result = rows @ mark_row ?eof ?rows"
    unfolding result_def by (rule appended_rows [OF len])
  then have added: "added = mark_row ?eof ?rows" by (simp add: added_def)
  have ok: "?eof = None \<or> ?rows \<noteq> []" using cells(5) by simp
  have olds: "filter_map cell_old ?cells = [0..<length (lines old)]" and news: "filter_map cell_new ?cells = [0..<length (lines new)]"
    using cells(1) by (simp_all add: cells_show_def del: length_lines)
  have texts: "filter_map fr_old added = map ((!) (lines old)) [0..<length (lines old)]"
    "filter_map fr_new added = map ((!) (lines new)) [0..<length (lines new)]"
    unfolding added by (simp_all add: filter_map_mark_row [OF ok] filter_map_option olds news del: length_lines One_nat_def)
  have numbers: "filter_map fr_old_line added = map (\<lambda>x. u32_sat_add (Suc x) (old_offset - 1)) [0..<length (lines old)]"
    "filter_map fr_new_line added = map (\<lambda>x. u32_sat_add (Suc x) (new_offset - 1)) [0..<length (lines new)]"
    unfolding added by (simp_all add: filter_map_mark_row [OF ok] filter_map_option olds news del: length_lines One_nat_def)
  have "\<forall>t\<in>set (map (\<lambda>r. (fr_kind r, fr_old r, fr_new r)) ?rows). fst t = Row_Context \<longrightarrow> fst (snd t) = snd (snd t)"
    using context_cell [OF cells(1)] cells_in [OF cells(1)] by (fastforce simp: cell_in_def)
  then have same: "\<forall>t\<in>set (map (\<lambda>r. (fr_kind r, fr_old r, fr_new r)) added). fst t = Row_Context \<longrightarrow> fst (snd t) = snd (snd t)"
    unfolding added by (subst map_mark_row [OF ok]) simp_all
  have marks: "fr_eof_newline (added ! k) = (if k = length added - 1 then ?eof else None)" if "k < length added" for k
    using mark_row_markers [OF _ _ ok, of k] that unfolding added by auto
  show ?thesis
    using texts numbers shifted_numbers [of "length (lines old)" old_offset] shifted_numbers [of "length (lines new)" new_offset]
      assms(1,2) same marks result by (simp add: map_nth del: length_lines)
qed



theorem rows_give_both_files_back_witness:
  "filter_map fr_old (append_side_by_side_rows_with_offsets [] (str ''a'' @ [LF]) (str ''b'') 3 7) = lines (str ''a'' @ [LF])"
  using rows_give_both_files_back [of "str ''a'' @ [LF]" 3 "str ''b''" 7 "[]"]
  by (simp add: split_inclusive_length line_count_def str_def u32_max_def ends_with_def)

text \<open>Walking the rows with borrowed texts visits exactly the rows that are materialised, in the same
  order and with the same numbers and texts.\<close>

lemma borrowed_rows_agree:
  assumes "length (lines old) \<le> u32_max" "length (lines new) \<le> u32_max"
  shows "for_each_side_by_side_row old new = map view_of (side_by_side_rows old new)"
  by (rule each_row [OF assms])

lemma borrowed_rows_agree_witness:
  "for_each_side_by_side_row (str ''a'' @ [LF]) (str ''b'') = map view_of (side_by_side_rows (str ''a'' @ [LF]) (str ''b''))"
  using borrowed_rows_agree [of "str ''a'' @ [LF]" "str ''b''"]
  by (simp add: split_inclusive_length line_count_def str_def u32_max_def ends_with_def)

text \<open>C17: the tables that find a line in a plan agree with its rows: for every line of either file the map
  names the row that carries its number, the prefix counts at that row count the lines before it, and
  the mask marks the line exactly when that row is not one of unchanged text.\<close>

theorem line_lookups_agree:
  assumes "length (lines old) \<le> u32_max" "length (lines new) \<le> u32_max"
  defines "plan \<equiv> side_by_side_plan old new" and "rows \<equiv> side_by_side_rows old new"
    and "n \<equiv> length (lines old)" and "m \<equiv> length (lines new)"
  shows "(\<forall>x<n. \<exists>r<length rows. fst (plan_line_to_row_maps plan n m) ! x = Some r \<and> fr_old_line (rows ! r) = Some (Suc x) \<and>
      fst (plan_emitted_line_prefix_counts plan) ! r = x \<and>
      (fst (plan_changed_line_masks plan n m) ! x \<longleftrightarrow> fr_kind (rows ! r) \<noteq> Row_Context)) \<and>
    (\<forall>y<m. \<exists>r<length rows. snd (plan_line_to_row_maps plan n m) ! y = Some r \<and> fr_new_line (rows ! r) = Some (Suc y) \<and>
      snd (plan_emitted_line_prefix_counts plan) ! r = y \<and>
      (snd (plan_changed_line_masks plan n m) ! y \<longleftrightarrow> fr_kind (rows ! r) \<noteq> Row_Context))"
proof -
  let ?cells = "plan_cells (sp_runs plan)"
  note cells = shown_cells [OF assms(1,2), folded plan_def n_def m_def]
  note metas = plan_metas [OF assms(1,2), folded plan_def]
  note pre = prefix_columns [OF assms(1,2), folded plan_def]
  obtain om nm where masks: "plan_changed_line_masks plan n m = (om, nm)" by fastforce
  have shape: "\<forall>d\<in>set ?cells. cell_in (lines old) (lines new) d"
    using cells_in [OF cells(1) [unfolded n_def m_def]] by blast
  note mask = masks_of_cells [OF shape masks [unfolded plan_changed_line_masks_def metas]]
  obtain ol nl where maps: "plan_line_to_row_maps plan n m = (ol, nl)" by fastforce
  note maps' = maps [unfolded plan_line_to_row_maps_def metas maps_split prod.inject]
  note old_map = assigned_column [of cell_old n ?cells, unfolded conjunct1 [OF maps']]
    and new_map = assigned_column [of cell_new m ?cells, unfolded conjunct2 [OF maps']]
  note fields = row_fields [OF assms(1,2), folded plan_def rows_def]
  have olds: "filter_map cell_old ?cells = [0..<n]" and news: "filter_map cell_new ?cells = [0..<m]"
    using cells(1) by (simp_all add: cells_show_def)
  have "\<exists>r<length rows. ol ! x = Some r \<and> fr_old_line (rows ! r) = Some (Suc x) \<and>
      fst (plan_emitted_line_prefix_counts plan) ! r = x \<and> (om ! x \<longleftrightarrow> fr_kind (rows ! r) \<noteq> Row_Context)" if "x < n" for x
  proof -
    have "\<exists>r<length ?cells. ol ! x = Some r \<and> cell_old (?cells ! r) = Some x \<and>
        fst (plan_emitted_line_prefix_counts plan) ! r = x \<and> (om ! x \<longleftrightarrow> fst (?cells ! r) \<noteq> Row_Context)"
      by (rule column_lookup [OF olds that]) (use old_map mask pre in simp_all)
    then obtain r where "r < length ?cells" "ol ! x = Some r" "cell_old (?cells ! r) = Some x"
      "fst (plan_emitted_line_prefix_counts plan) ! r = x" "om ! x \<longleftrightarrow> fst (?cells ! r) \<noteq> Row_Context" by blast
    then show ?thesis using fields by (intro exI [of _ r]) simp
  qed
  moreover have "\<exists>r<length rows. nl ! y = Some r \<and> fr_new_line (rows ! r) = Some (Suc y) \<and>
      snd (plan_emitted_line_prefix_counts plan) ! r = y \<and> (nm ! y \<longleftrightarrow> fr_kind (rows ! r) \<noteq> Row_Context)" if "y < m" for y
  proof -
    have "\<exists>r<length ?cells. nl ! y = Some r \<and> cell_new (?cells ! r) = Some y \<and>
        snd (plan_emitted_line_prefix_counts plan) ! r = y \<and> (nm ! y \<longleftrightarrow> fst (?cells ! r) \<noteq> Row_Context)"
      by (rule column_lookup [OF news that]) (use new_map mask pre in simp_all)
    then obtain r where "r < length ?cells" "nl ! y = Some r" "cell_new (?cells ! r) = Some y"
      "snd (plan_emitted_line_prefix_counts plan) ! r = y" "nm ! y \<longleftrightarrow> fst (?cells ! r) \<noteq> Row_Context" by blast
    then show ?thesis using fields by (intro exI [of _ r]) simp
  qed
  ultimately show ?thesis
    unfolding masks maps fst_conv snd_conv by blast
qed

theorem line_lookups_agree_witness:
  "\<exists>r<length (side_by_side_rows (str ''a'') (str ''b'')).
     fst (plan_line_to_row_maps (side_by_side_plan (str ''a'') (str ''b'')) 1 1) ! 0 = Some r"
  using line_lookups_agree [of "str ''a''" "str ''b''"]
  by (auto simp: split_inclusive_length line_count_def str_def u32_max_def ends_with_def)

end
