(* ===== verification/Side_Anchors.thy ===== *)
theory Side_Anchors
  imports Side_Rows
begin

text \<open>
  The anchors of a side-by-side diff (\<open>file_diff.rs\<close>): while the rows go by, a builder keeps the region
  of change that is open, closes it at the next row of unchanged text, and notes for every row the
  region it is in and its place there. The regions are shown to be the maximal runs of changed rows.
\<close>

section \<open>The builder\<close>

record file_diff_row_anchor =
  ra_row_index :: nat
  ra_region_id :: "nat option"
  ra_ordinal_in_region :: "nat option"
  ra_old_line :: "nat option"
  ra_new_line :: "nat option"

record file_diff_region_anchor =
  ga_region_id :: nat
  ga_row_start :: nat
  ga_row_end :: nat
  ga_old_start_line :: "nat option"
  ga_old_end_line :: "nat option"
  ga_new_start_line :: "nat option"
  ga_new_end_line :: "nat option"

record file_diff_anchors =
  fa_row_anchors :: "file_diff_row_anchor list"
  fa_region_anchors :: "file_diff_region_anchor list"

record active_region =
  ar_region_id :: nat
  ar_row_start :: nat
  ar_old_start_line :: "nat option"
  ar_old_end_line :: "nat option"
  ar_new_start_line :: "nat option"
  ar_new_end_line :: "nat option"
  ar_next_ordinal :: nat

definition active_region_new :: "nat \<Rightarrow> nat \<Rightarrow> active_region" where
  "active_region_new region_id row_start =
     \<lparr>ar_region_id = region_id, ar_row_start = row_start, ar_old_start_line = None, ar_old_end_line = None,
      ar_new_start_line = None, ar_new_end_line = None, ar_next_ordinal = 0\<rparr>"

definition map_or :: "nat \<Rightarrow> (nat \<Rightarrow> nat) \<Rightarrow> nat option \<Rightarrow> nat" where
  "map_or other f v = (case v of None \<Rightarrow> other | Some x \<Rightarrow> f x)"

definition update_lines :: "active_region \<Rightarrow> diff_row_meta \<Rightarrow> active_region" where
  "update_lines region row =
     (let region = (case dm_old_line row of
            None \<Rightarrow> region
          | Some old_line \<Rightarrow>
              region\<lparr>ar_old_start_line := Some (map_or old_line (\<lambda>line. min line old_line) (ar_old_start_line region)),
                     ar_old_end_line := Some (map_or old_line (\<lambda>line. max line old_line) (ar_old_end_line region))\<rparr>)
      in (case dm_new_line row of
            None \<Rightarrow> region
          | Some new_line \<Rightarrow>
              region\<lparr>ar_new_start_line := Some (map_or new_line (\<lambda>line. min line new_line) (ar_new_start_line region)),
                     ar_new_end_line := Some (map_or new_line (\<lambda>line. max line new_line) (ar_new_end_line region))\<rparr>))"

definition as_region_anchor :: "active_region \<Rightarrow> nat \<Rightarrow> file_diff_region_anchor" where
  "as_region_anchor region row_end_exclusive =
     \<lparr>ga_region_id = ar_region_id region, ga_row_start = ar_row_start region, ga_row_end = row_end_exclusive,
      ga_old_start_line = ar_old_start_line region, ga_old_end_line = ar_old_end_line region,
      ga_new_start_line = ar_new_start_line region, ga_new_end_line = ar_new_end_line region\<rparr>"

record anchor_builder =
  ab_row_anchors :: "file_diff_row_anchor list"
  ab_region_anchors :: "file_diff_region_anchor list"
  ab_active_region :: "active_region option"

definition builder_new :: anchor_builder where
  "builder_new = \<lparr>ab_row_anchors = [], ab_region_anchors = [], ab_active_region = None\<rparr>"

definition builder_push :: "anchor_builder \<Rightarrow> nat \<times> diff_row_meta \<Rightarrow> anchor_builder" where
  "builder_push builder indexed_row =
     (case indexed_row of (row_index, row) \<Rightarrow>
        if dm_kind row = Row_Context
        then (let builder = (case ab_active_region builder of
                    None \<Rightarrow> builder
                  | Some region \<Rightarrow>
                      builder\<lparr>ab_active_region := None,
                              ab_region_anchors := ab_region_anchors builder @ [as_region_anchor region row_index]\<rparr>)
              in builder\<lparr>ab_row_anchors := ab_row_anchors builder @
                   [\<lparr>ra_row_index = row_index, ra_region_id = None, ra_ordinal_in_region = None,
                     ra_old_line = dm_old_line row, ra_new_line = dm_new_line row\<rparr>]\<rparr>)
        else (let region = (case ab_active_region builder of
                    Some region \<Rightarrow> region
                  | None \<Rightarrow> active_region_new (Replacement.as_u32 (length (ab_region_anchors builder))) row_index);
                  region = update_lines region row;
                  ordinal_in_region = ar_next_ordinal region;
                  region = region\<lparr>ar_next_ordinal := u32_sat_add (ar_next_ordinal region) 1\<rparr>
              in builder\<lparr>ab_active_region := Some region,
                         ab_row_anchors := ab_row_anchors builder @
                           [\<lparr>ra_row_index = row_index, ra_region_id = Some (ar_region_id region),
                             ra_ordinal_in_region = Some ordinal_in_region,
                             ra_old_line = dm_old_line row, ra_new_line = dm_new_line row\<rparr>]\<rparr>))"

definition builder_finish :: "anchor_builder \<Rightarrow> nat \<Rightarrow> file_diff_anchors" where
  "builder_finish builder row_count =
     \<lparr>fa_row_anchors = ab_row_anchors builder,
      fa_region_anchors = (case ab_active_region builder of
          None \<Rightarrow> ab_region_anchors builder
        | Some region \<Rightarrow> ab_region_anchors builder @ [as_region_anchor region row_count])\<rparr>"

definition plan_row_region_anchors :: "side_plan \<Rightarrow> file_diff_anchors" where
  "plan_row_region_anchors plan =
     builder_finish (foldl builder_push builder_new (for_each_plan_row_meta plan)) (sp_row_count plan)"

definition compute_row_region_anchors :: "file_diff_row list \<Rightarrow> file_diff_anchors" where
  "compute_row_region_anchors rows =
     builder_finish (foldl builder_push builder_new (zip [0..<length rows] (map meta_of_row rows))) (length rows)"

record file_diff_rows_with_anchors =
  rw_rows :: "file_diff_row list"
  rw_anchors :: file_diff_anchors

definition side_by_side_rows_with_anchors :: "utext \<Rightarrow> utext \<Rightarrow> file_diff_rows_with_anchors" where
  "side_by_side_rows_with_anchors old new =
     (let rows = side_by_side_rows old new
      in \<lparr>rw_rows = rows, rw_anchors = compute_row_region_anchors rows\<rparr>)"

section \<open>Maximal runs of changed rows\<close>

definition least_line :: "nat list \<Rightarrow> nat option" where
  "least_line ls = (if ls = [] then None else Some (Min (set ls)))"

definition greatest_line :: "nat list \<Rightarrow> nat option" where
  "greatest_line ls = (if ls = [] then None else Some (Max (set ls)))"

definition changed_row :: "diff_row_meta \<Rightarrow> bool" where
  "changed_row row \<longleftrightarrow> dm_kind row \<noteq> Row_Context"

text \<open>A region spans changed rows only and names the first and last line of either side in them.\<close>

definition region_of :: "diff_row_meta list \<Rightarrow> nat \<Rightarrow> file_diff_region_anchor \<Rightarrow> bool" where
  "region_of rows g r \<longleftrightarrow>
     ga_region_id r = g \<and> ga_row_start r < ga_row_end r \<and> ga_row_end r \<le> length rows \<and>
     list_all changed_row (slice rows (ga_row_start r) (ga_row_end r)) \<and>
     (let olds = filter_map dm_old_line (slice rows (ga_row_start r) (ga_row_end r));
          news = filter_map dm_new_line (slice rows (ga_row_start r) (ga_row_end r))
      in ga_old_start_line r = least_line olds \<and> ga_old_end_line r = greatest_line olds \<and>
         ga_new_start_line r = least_line news \<and> ga_new_end_line r = greatest_line news)"

definition regions_ok :: "diff_row_meta list \<Rightarrow> file_diff_region_anchor list \<Rightarrow> bool" where
  "regions_ok rows regions \<longleftrightarrow>
     (\<forall>g<length regions. region_of rows g (regions ! g)) \<and>
     sorted_wrt (\<lambda>r s. ga_row_end r < ga_row_start s) regions \<and>
     (\<forall>k<length rows. changed_row (rows ! k) \<longrightarrow> (\<exists>r\<in>set regions. ga_row_start r \<le> k \<and> k < ga_row_end r))"

definition row_anchor_ok :: "diff_row_meta list \<Rightarrow> file_diff_region_anchor list \<Rightarrow> nat \<Rightarrow> file_diff_row_anchor \<Rightarrow> bool" where
  "row_anchor_ok rows regions k a \<longleftrightarrow>
     ra_row_index a = k \<and> ra_old_line a = dm_old_line (rows ! k) \<and> ra_new_line a = dm_new_line (rows ! k) \<and>
     (if changed_row (rows ! k)
      then (\<exists>r\<in>set regions. ga_row_start r \<le> k \<and> k < ga_row_end r \<and> ra_region_id a = Some (ga_region_id r) \<and>
              ra_ordinal_in_region a = Some (k - ga_row_start r))
      else ra_region_id a = None \<and> ra_ordinal_in_region a = None)"

lemma line_snoc:
  "least_line (ls @ [x]) = Some (map_or x (\<lambda>line. min line x) (least_line ls))"
  "greatest_line (ls @ [x]) = Some (map_or x (\<lambda>line. max line x) (greatest_line ls))"
  by (auto simp: least_line_def greatest_line_def map_or_def min.commute max.commute)

text \<open>The regions of a builder: the closed ones and the open one, up to the row reached.\<close>

definition built_regions :: "anchor_builder \<Rightarrow> nat \<Rightarrow> file_diff_region_anchor list" where
  "built_regions b n = fa_region_anchors (builder_finish b n)"

definition builder_ok :: "diff_row_meta list \<Rightarrow> anchor_builder \<Rightarrow> bool" where
  "builder_ok rows b \<longleftrightarrow>
     regions_ok rows (built_regions b (length rows)) \<and>
     (ab_active_region b = None \<longrightarrow> rows = [] \<or> \<not> changed_row (last rows)) \<and>
     (\<forall>r. ab_active_region b = Some r \<longrightarrow> ar_next_ordinal r = length rows - ar_row_start r) \<and>
     length (ab_row_anchors b) = length rows \<and>
     (\<forall>k<length rows. row_anchor_ok rows (built_regions b (length rows)) k (ab_row_anchors b ! k))"

lemma region_of_append:
  assumes "region_of rows g r"
  shows "region_of (rows @ ms) g r"
proof -
  have "slice (rows @ ms) (ga_row_start r) (ga_row_end r) = slice rows (ga_row_start r) (ga_row_end r)"
    using assms by (simp add: region_of_def slice_def)
  then show ?thesis using assms by (simp add: region_of_def)
qed

lemma regions_count:
  assumes "\<forall>g<length rs. region_of rows g (rs ! g)" "sorted_wrt (\<lambda>r s. ga_row_end r < ga_row_start s) rs"
  shows "length rs \<le> length rows"
proof -
  have "g \<le> ga_row_start (rs ! g)" if "g < length rs" for g
    using that
  proof (induction g)
    case (Suc g)
    have "ga_row_end (rs ! g) < ga_row_start (rs ! Suc g)"
      using assms(2) Suc.prems by (auto simp: sorted_wrt_iff_nth_less)
    moreover have "ga_row_start (rs ! g) < ga_row_end (rs ! g)"
      using assms(1) Suc.prems by (auto simp: region_of_def)
    ultimately show ?case using Suc by simp
  qed simp
  note start = this
  show ?thesis
  proof (cases "length rs")
    case (Suc g)
    then have "region_of rows g (rs ! g)" using assms(1) by simp
    then have "ga_row_start (rs ! g) < length rows" by (auto simp: region_of_def)
    then show ?thesis using start [of g] Suc by simp
  qed simp
qed

text \<open>An open region, which may not span a row yet.\<close>

definition open_region :: "diff_row_meta list \<Rightarrow> nat \<Rightarrow> active_region \<Rightarrow> bool" where
  "open_region rows g a \<longleftrightarrow>
     ar_region_id a = g \<and> ar_row_start a \<le> length rows \<and> list_all changed_row (drop (ar_row_start a) rows) \<and>
     (let olds = filter_map dm_old_line (drop (ar_row_start a) rows);
          news = filter_map dm_new_line (drop (ar_row_start a) rows)
      in ar_old_start_line a = least_line olds \<and> ar_old_end_line a = greatest_line olds \<and>
         ar_new_start_line a = least_line news \<and> ar_new_end_line a = greatest_line news)"

lemma region_of_open:
  "region_of rows g (as_region_anchor a (length rows)) \<longleftrightarrow> open_region rows g a \<and> ar_row_start a < length rows"
  by (auto simp: region_of_def open_region_def as_region_anchor_def Let_def)

lemma open_region_new: "open_region rows g (active_region_new g (length rows))"
  by (simp add: open_region_def active_region_new_def Let_def least_line_def greatest_line_def)

lemma update_lines_keeps [simp]:
  "ar_region_id (update_lines a m) = ar_region_id a" "ar_row_start (update_lines a m) = ar_row_start a"
  "ar_next_ordinal (update_lines a m) = ar_next_ordinal a"
  by (simp_all add: update_lines_def Let_def split: option.split)

lemma open_region_update:
  assumes "open_region rows g a" "changed_row m"
  shows "open_region (rows @ [m]) g (update_lines a m\<lparr>ar_next_ordinal := k\<rparr>)"
  using assms by (cases "dm_old_line m"; cases "dm_new_line m")
    (simp_all add: open_region_def Let_def update_lines_def line_snoc)

lemma regions_snoc_context:
  assumes "regions_ok rows rs" "\<not> changed_row m"
  shows "regions_ok (rows @ [m]) rs"
  using assms by (auto simp: regions_ok_def nth_append less_Suc_eq intro: region_of_append)

lemma region_bounds: "region_of rows g r \<Longrightarrow> ga_row_start r < ga_row_end r \<and> ga_row_end r \<le> length rows"
  by (simp add: region_of_def)

lemma region_rows_changed:
  assumes "region_of rows g r" "ga_row_start r \<le> k" "k < ga_row_end r"
  shows "changed_row (rows ! k)"
proof -
  have "slice rows (ga_row_start r) (ga_row_end r) ! (k - ga_row_start r) = rows ! k"
    using assms nth_slice [of "k - ga_row_start r" "ga_row_end r" "ga_row_start r" rows] by (simp add: region_of_def)
  moreover have "k - ga_row_start r < length (slice rows (ga_row_start r) (ga_row_end r))"
    using region_bounds [OF assms(1)] assms(2,3) by (simp add: less_diff_conv2 diff_less_mono)
  ultimately show ?thesis
    using assms(1) unfolding region_of_def list_all_length by metis
qed

lemma region_of_nth: "regions_ok rows rs \<Longrightarrow> r \<in> set rs \<Longrightarrow> \<exists>g<length rs. rs ! g = r \<and> region_of rows g r"
  by (metis in_set_conv_nth regions_ok_def)

lemma regions_snoc_new:
  assumes ok: "regions_ok rows rs" and last: "rows = [] \<or> \<not> changed_row (last rows)"
    and r: "region_of (rows @ [m]) (length rs) r" "ga_row_start r = length rows" "ga_row_end r = Suc (length rows)"
  shows "regions_ok (rows @ [m]) (rs @ [r])"
proof -
  have "ga_row_end q < length rows" if q: "q \<in> set rs" for q
  proof -
    obtain g where g: "region_of rows g q" using region_of_nth [OF ok q] by blast
    note bounds = region_bounds [OF g]
    then have rows: "rows \<noteq> []" by auto
    then have "\<not> changed_row (rows ! (length rows - 1))" using last by (simp add: last_conv_nth)
    then have "ga_row_end q \<noteq> length rows"
      using region_rows_changed [OF g, of "length rows - 1"] bounds rows by fastforce
    then show ?thesis using bounds by simp
  qed
  then show ?thesis
    using ok r by (auto simp: regions_ok_def nth_append sorted_wrt_append less_Suc_eq intro: region_of_append)
qed

lemma regions_snoc_extend:
  assumes ok: "regions_ok rows (rs @ [r])" and "ga_row_end r = length rows"
    and r: "region_of (rows @ [m]) (length rs) r'" "ga_row_start r' = ga_row_start r" "ga_row_end r' = Suc (length rows)"
  shows "regions_ok (rows @ [m]) (rs @ [r'])"
proof -
  have start: "ga_row_start r \<le> length rows" using r by (simp add: region_of_def)
  have "region_of (rows @ [m]) g ((rs @ [r']) ! g)" if "g < length (rs @ [r'])" for g
  proof (cases "g = length rs")
    case False
    then have "region_of rows g ((rs @ [r]) ! g)" using ok that by (simp add: regions_ok_def)
    then show ?thesis using False that by (auto simp: nth_append intro: region_of_append)
  qed (use r in simp)
  moreover have "\<exists>q\<in>set (rs @ [r']). ga_row_start q \<le> k \<and> k < ga_row_end q"
    if k: "k < length (rows @ [m])" "changed_row ((rows @ [m]) ! k)" for k
  proof (cases "k = length rows")
    case True
    then show ?thesis using r start by simp
  next
    case False
    then have "\<exists>q\<in>set (rs @ [r]). ga_row_start q \<le> k \<and> k < ga_row_end q"
      using k ok by (auto simp: regions_ok_def nth_append)
    then show ?thesis using r assms(2) by auto
  qed
  moreover have "sorted_wrt (\<lambda>r s. ga_row_end r < ga_row_start s) (rs @ [r'])"
    using ok r by (simp add: regions_ok_def sorted_wrt_append)
  ultimately show ?thesis by (simp add: regions_ok_def)
qed

lemma row_anchor_mono:
  assumes "row_anchor_ok rows rs k a" "k < length rows"
    and "\<And>r. r \<in> set rs \<Longrightarrow> \<exists>r'\<in>set rs'. ga_row_start r' = ga_row_start r \<and> ga_region_id r' = ga_region_id r \<and> ga_row_end r \<le> ga_row_end r'"
  shows "row_anchor_ok (rows @ [m]) rs' k a"
proof -
  have rows: "(rows @ [m]) ! k = rows ! k" using assms(2) by (simp add: nth_append)
  show ?thesis
  proof (cases "changed_row (rows ! k)")
    case True
    then obtain r where "r \<in> set rs" "ga_row_start r \<le> k" "k < ga_row_end r" "ra_region_id a = Some (ga_region_id r)"
      "ra_ordinal_in_region a = Some (k - ga_row_start r)"
      using assms(1) by (auto simp: row_anchor_ok_def)
    moreover from assms(3) [OF this(1)] obtain r' where "r' \<in> set rs'" "ga_row_start r' = ga_row_start r"
      "ga_region_id r' = ga_region_id r" "ga_row_end r \<le> ga_row_end r'" by blast
    ultimately show ?thesis
      using assms(1) True by (auto simp: row_anchor_ok_def rows intro!: bexI [of _ r'])
  next
    case False
    then show ?thesis using assms(1) by (simp add: row_anchor_ok_def rows)
  qed
qed

text \<open>One row: the three cases of \<open>push\<close>.\<close>

lemma row_anchors_snoc:
  assumes "length as = length rows" "\<forall>k<length rows. row_anchor_ok rows rs k (as ! k)"
    and "\<And>r. r \<in> set rs \<Longrightarrow> \<exists>r'\<in>set rs'. ga_row_start r' = ga_row_start r \<and> ga_region_id r' = ga_region_id r \<and> ga_row_end r \<le> ga_row_end r'"
    and "row_anchor_ok (rows @ [m]) rs' (length rows) a"
  shows "\<forall>k<length (rows @ [m]). row_anchor_ok (rows @ [m]) rs' k ((as @ [a]) ! k)"
  using assms(1,2,4) row_anchor_mono [OF _ _ assms(3)] by (auto simp: nth_append less_Suc_eq)

lemma builder_push_context:
  assumes ok: "builder_ok rows b" and m: "\<not> changed_row m"
  shows "builder_ok (rows @ [m]) (builder_push b (length rows, m))"
proof -
  let ?a = "\<lparr>ra_row_index = length rows, ra_region_id = None, ra_ordinal_in_region = None,
    ra_old_line = dm_old_line m, ra_new_line = dm_new_line m\<rparr>"
  let ?b = "builder_push b (length rows, m)"
  have b: "built_regions ?b n = built_regions b (length rows)" "ab_active_region ?b = None"
    "ab_row_anchors ?b = ab_row_anchors b @ [?a]" for n
    using m by (simp_all add: builder_push_def changed_row_def built_regions_def builder_finish_def split: option.split)
  have "row_anchor_ok (rows @ [m]) (built_regions b (length rows)) (length rows) ?a"
    using m by (simp add: row_anchor_ok_def)
  then show ?thesis
    using ok m regions_snoc_context [OF _ m] row_anchors_snoc [of "ab_row_anchors b" rows "built_regions b (length rows)" "built_regions b (length rows)" m ?a]
    unfolding builder_ok_def b by auto
qed

lemma regions_last: "regions_ok rows (rs @ [r]) \<Longrightarrow> region_of rows (length rs) r"
  unfolding regions_ok_def by (metis length_append_singleton lessI nth_append_length)

text \<open>The region a changed row goes to: the open one, or a new one.\<close>

definition region_for :: "anchor_builder \<Rightarrow> nat \<Rightarrow> active_region" where
  "region_for b n = (case ab_active_region b of Some r \<Rightarrow> r | None \<Rightarrow> active_region_new (length (ab_region_anchors b)) n)"

lemma region_for_ok:
  assumes ok: "builder_ok rows b"
  defines "region \<equiv> region_for b (length rows)"
  shows "open_region rows (length (ab_region_anchors b)) region \<and> ar_row_start region \<le> length rows \<and>
    ar_next_ordinal region = length rows - ar_row_start region"
    and "length (ab_region_anchors b) \<le> length rows"
proof -
  have regs: "regions_ok rows (built_regions b (length rows))" using ok by (simp add: builder_ok_def)
  then have "length (built_regions b (length rows)) \<le> length rows"
    by (intro regions_count) (simp_all add: regions_ok_def)
  then show "length (ab_region_anchors b) \<le> length rows"
    by (simp add: built_regions_def builder_finish_def split: option.splits)
  show "open_region rows (length (ab_region_anchors b)) region \<and> ar_row_start region \<le> length rows \<and>
    ar_next_ordinal region = length rows - ar_row_start region"
  proof (cases "ab_active_region b")
    case None
    then show ?thesis using open_region_new [of rows] by (simp add: region_def region_for_def active_region_new_def)
  next
    case (Some r)
    then have "region_of rows (length (ab_region_anchors b)) (as_region_anchor r (length rows))"
      using regs by (intro regions_last) (simp add: built_regions_def builder_finish_def)
    then show ?thesis using ok Some by (simp add: region_of_open region_def region_for_def builder_ok_def)
  qed
qed

lemma builder_push_changed:
  assumes ok: "builder_ok rows b" and m: "changed_row m" and len: "length rows < u32_max"
  shows "builder_ok (rows @ [m]) (builder_push b (length rows, m))"
proof -
  let ?b = "builder_push b (length rows, m)" and ?n = "length rows"
  define region where "region = region_for b ?n"
  define region' where "region' = update_lines region m\<lparr>ar_next_ordinal := Suc (ar_next_ordinal region)\<rparr>"
  let ?r = "as_region_anchor region' (Suc ?n)"
  let ?a = "\<lparr>ra_row_index = ?n, ra_region_id = Some (ar_region_id region), ra_ordinal_in_region = Some (ar_next_ordinal region),
    ra_old_line = dm_old_line m, ra_new_line = dm_new_line m\<rparr>"
  note start = region_for_ok(1) [OF ok, folded region_def]
  have regs: "regions_ok rows (built_regions b ?n)" using ok by (simp add: builder_ok_def)
  have id: "Replacement.as_u32 (length (ab_region_anchors b)) = length (ab_region_anchors b)"
    using len region_for_ok(2) [OF ok] by (simp add: Replacement.as_u32_def u32_max_def)
  have ord: "u32_sat_add (ar_next_ordinal region) 1 = Suc (ar_next_ordinal region)"
    using start len by (simp add: u32_sat_add_def)
  have b: "ab_active_region ?b = Some region'" "ab_region_anchors ?b = ab_region_anchors b"
    "ab_row_anchors ?b = ab_row_anchors b @ [?a]"
    using m ord unfolding region_def region_for_def region'_def
    by (simp_all add: builder_push_def changed_row_def Let_def id split: option.splits)
  have region': "open_region (rows @ [m]) (length (ab_region_anchors b)) region'"
    unfolding region'_def by (rule open_region_update) (use start m in simp_all)
  have same: "ar_row_start region' = ar_row_start region" "ar_region_id region' = ar_region_id region"
    by (simp_all add: region'_def)
  have r: "region_of (rows @ [m]) (length (ab_region_anchors b)) ?r"
    using region_of_open [of "rows @ [m]" "length (ab_region_anchors b)" region'] region' start same by simp
  have built: "built_regions ?b (Suc ?n) = ab_region_anchors b @ [?r]"
    by (simp add: built_regions_def builder_finish_def b)
  have regs': "regions_ok (rows @ [m]) (ab_region_anchors b @ [?r])"
  proof (cases "ab_active_region b")
    case None
    then show ?thesis
      using regions_snoc_new [OF _ _ r] regs ok same
      by (simp add: built_regions_def builder_finish_def builder_ok_def region_def region_for_def active_region_new_def as_region_anchor_def)
  next
    case (Some a)
    then have "regions_ok rows (ab_region_anchors b @ [as_region_anchor a ?n])"
      using regs by (simp add: built_regions_def builder_finish_def)
    from regions_snoc_extend [OF this _ r] show ?thesis
      using same Some by (simp add: region_def region_for_def as_region_anchor_def)
  qed
  have "\<exists>q'\<in>set (ab_region_anchors b @ [?r]). ga_row_start q' = ga_row_start q \<and> ga_region_id q' = ga_region_id q \<and> ga_row_end q \<le> ga_row_end q'"
    if "q \<in> set (built_regions b ?n)" for q
    using that same by (auto simp: built_regions_def builder_finish_def region_def region_for_def as_region_anchor_def split: option.splits)
  moreover have "row_anchor_ok (rows @ [m]) (ab_region_anchors b @ [?r]) ?n ?a"
    using m start same by (auto simp: row_anchor_ok_def as_region_anchor_def)
  ultimately have "\<forall>k<length (rows @ [m]). row_anchor_ok (rows @ [m]) (ab_region_anchors b @ [?r]) k ((ab_row_anchors b @ [?a]) ! k)"
    using ok by (intro row_anchors_snoc [where rs = "built_regions b ?n"]) (simp_all add: builder_ok_def)
  then show ?thesis
    using ok regs' start m built unfolding builder_ok_def b length_append_singleton
    by (simp add: region'_def Suc_diff_le)
qed

lemma built:
  assumes "length rows \<le> u32_max"
  shows "builder_ok rows (foldl builder_push builder_new (zip [0..<length rows] rows))"
  using assms
proof (induction rows rule: rev_induct)
  case Nil
  then show ?case
    by (simp add: builder_ok_def builder_new_def built_regions_def builder_finish_def regions_ok_def)
next
  case (snoc m rows)
  then show ?case
    using builder_push_context builder_push_changed by (cases "changed_row m") simp_all
qed

lemma finished_anchors:
  assumes "length rows \<le> u32_max"
  defines "anchors \<equiv> builder_finish (foldl builder_push builder_new (zip [0..<length rows] rows)) (length rows)"
  shows "regions_ok rows (fa_region_anchors anchors) \<and> length (fa_row_anchors anchors) = length rows \<and>
    (\<forall>k<length rows. row_anchor_ok rows (fa_region_anchors anchors) k (fa_row_anchors anchors ! k))"
  using built [OF assms(1)] unfolding builder_ok_def built_regions_def anchors_def
  by (simp add: builder_finish_def)

lemma rows_and_plan_anchors:
  assumes "length (lines old) \<le> u32_max" "length (lines new) \<le> u32_max"
  defines "rows \<equiv> side_by_side_rows old new"
  shows "plan_row_region_anchors (side_by_side_plan old new)
      = builder_finish (foldl builder_push builder_new (zip [0..<length rows] (map meta_of_row rows))) (length rows)"
proof -
  let ?cells = "plan_cells (sp_runs (side_by_side_plan old new))"
  note fields = row_fields [OF assms(1,2), folded rows_def]
  have "map meta_of_row rows = map meta_of ?cells"
  proof (rule nth_equalityI)
    fix k assume "k < length (map meta_of_row rows)"
    then show "map meta_of_row rows ! k = map meta_of ?cells ! k"
      using fields by (cases "?cells ! k") (simp add: meta_of_row_def)
  qed (use fields in simp)
  then show ?thesis
    using shown_cells(2) [OF assms(1,2)] fields(1)
    by (simp add: plan_row_region_anchors_def plan_metas [OF assms(1,2)])
qed

section \<open>Properties\<close>

text \<open>C16: the regions of a side-by-side diff are exactly the maximal runs of changed rows. Whether they are
  computed from the plan or from the rows, they are numbered from 0, lie in order with at least one
  row of unchanged text between two of them, span no such row, and every changed row is in one; each
  names the first and the last line it shows of either file. Every row is anchored with its own index
  and line numbers, to its region and to its place from the start of it, and a row of unchanged text
  to none.\<close>

theorem regions_are_maximal_changes:
  assumes "length (lines old) + length (lines new) \<le> u32_max"
  defines "rows \<equiv> side_by_side_rows old new" and "anchors \<equiv> plan_row_region_anchors (side_by_side_plan old new)"
  shows "side_by_side_rows_with_anchors old new = \<lparr>rw_rows = rows, rw_anchors = anchors\<rparr> \<and>
    regions_ok (map meta_of_row rows) (fa_region_anchors anchors) \<and>
    length (fa_row_anchors anchors) = length rows \<and>
    (\<forall>k<length rows. row_anchor_ok (map meta_of_row rows) (fa_region_anchors anchors) k (fa_row_anchors anchors ! k))"
proof -
  have len: "length (lines old) \<le> u32_max" "length (lines new) \<le> u32_max" using assms(1) by linarith+
  note anchors = rows_and_plan_anchors [OF len, folded rows_def anchors_def]
  have "length rows \<le> length (lines old) + length (lines new)"
    using row_fields(1) [OF len] cells_show_length [OF shown_cells(1) [OF len]]
    by (simp add: rows_def inline_len_def del: length_lines)
  then have "length (map meta_of_row rows) \<le> u32_max" using assms(1) by simp
  from finished_anchors [OF this] show ?thesis
    by (simp add: anchors side_by_side_rows_with_anchors_def compute_row_region_anchors_def rows_def Let_def)
qed

theorem regions_are_maximal_changes_witness:
  "regions_ok (map meta_of_row (side_by_side_rows (str ''a'') (str ''b'')))
     (fa_region_anchors (plan_row_region_anchors (side_by_side_plan (str ''a'') (str ''b''))))"
  using regions_are_maximal_changes [of "str ''a''" "str ''b''"]
  by (simp add: split_inclusive_length line_count_def str_def u32_max_def ends_with_def)

end
