(* ===== verification/Aligned_Runs.thy ===== *)
theory Aligned_Runs
  imports Render Payload
begin

text \<open>
  The aligned runs of a merge (\<open>merge.rs\<close>): the rows of a plan grouped into runs of one kind, each a
  range of lines in every input, for the views that show the inputs side by side; and the merge of
  raw bytes, which refuses binary content. The runs partition the inputs, and the kind of a run
  is the three-way comparison of its ranges.
\<close>

section \<open>Runs\<close>

datatype aligned_run_kind = Run_Unchanged | Run_Ours_Changed | Run_Theirs_Changed | Run_Both_Same | Run_Conflict

record aligned_run =
  ag_base :: range
  ag_ours :: range
  ag_theirs :: range
  ag_kind :: aligned_run_kind

definition visual_rows :: "aligned_run \<Rightarrow> nat" where
  "visual_rows run = max (max (rng_len (ag_base run)) (rng_len (ag_ours run))) (rng_len (ag_theirs run))"

definition aligned_row_kind :: "aligned_row \<Rightarrow> bool \<Rightarrow> aligned_run_kind" where
  "aligned_row_kind r three_way =
     (if \<not> three_way
      then (case (row_a r, row_b r) of
              (Some _, Some _) \<Rightarrow> if equal_ab r then Run_Unchanged else Run_Conflict
            | (Some _, None) \<Rightarrow> Run_Ours_Changed
            | (None, Some _) \<Rightarrow> Run_Theirs_Changed
            | (None, None) \<Rightarrow> Run_Unchanged)
      else (case (row_a r, row_b r, row_c r) of
              (Some _, Some _, Some _) \<Rightarrow>
                if equal_ab r \<and> equal_ac r then Run_Unchanged
                else if equal_ab r then Run_Theirs_Changed
                else if equal_ac r then Run_Ours_Changed
                else if equal_bc r then Run_Both_Same
                else Run_Conflict
            | (Some _, Some _, None) \<Rightarrow> if equal_ab r then Run_Theirs_Changed else Run_Conflict
            | (Some _, None, Some _) \<Rightarrow> if equal_ac r then Run_Ours_Changed else Run_Conflict
            | (None, Some _, Some _) \<Rightarrow> if equal_bc r then Run_Both_Same else Run_Conflict
            | (None, Some _, None) \<Rightarrow> Run_Ours_Changed
            | (None, None, Some _) \<Rightarrow> Run_Theirs_Changed
            | (Some _, None, None) \<Rightarrow> Run_Both_Same
            | (None, None, None) \<Rightarrow> Run_Conflict))"

text \<open>The lines a row gives to the three sides: with two inputs there is no base, and ours is the first.\<close>

definition side_present :: "bool \<Rightarrow> aligned_row \<Rightarrow> bool \<times> bool \<times> bool" where
  "side_present three_way row =
     (if three_way then (row_a row \<noteq> None, row_b row \<noteq> None, row_c row \<noteq> None)
      else (False, row_a row \<noteq> None, row_b row \<noteq> None))"

definition extends_run :: "aligned_run \<Rightarrow> aligned_run \<Rightarrow> bool \<times> bool \<times> bool \<Rightarrow> bool \<Rightarrow> bool" where
  "extends_run previous nxt next_presence forced \<longleftrightarrow>
     ag_kind previous = ag_kind nxt \<and>
     (let previous_rows = visual_rows previous;
          previous_presence = (rng_len (ag_base previous) = previous_rows, rng_len (ag_ours previous) = previous_rows,
                               rng_len (ag_theirs previous) = previous_rows);
          combined_rows = max (rng_end (ag_base nxt) - rng_start (ag_base previous))
                            (max (rng_end (ag_ours nxt) - rng_start (ag_ours previous))
                                 (rng_end (ag_theirs nxt) - rng_start (ag_theirs previous)))
      in combined_rows = previous_rows + 1 \<and> (previous_presence = next_presence \<or> forced))"

definition push_aligned_row ::
  "bool \<Rightarrow> bool list \<Rightarrow> aligned_run list \<times> nat \<times> nat \<times> nat \<Rightarrow> nat \<times> aligned_row \<Rightarrow> aligned_run list \<times> nat \<times> nat \<times> nat" where
  "push_aligned_row three_way forced_conflict state indexed_row =
     (case (state, indexed_row) of ((runs, a, b, c), (row_index, row)) \<Rightarrow>
        (case side_present three_way row of (base_present, ours_present, theirs_present) \<Rightarrow>
           (let forced = (case nth_opt forced_conflict row_index of Some f \<Rightarrow> f | None \<Rightarrow> False);
                kind = (if forced then Run_Conflict else aligned_row_kind row three_way);
                nxt = \<lparr>ag_base = (a, a + of_bool base_present), ag_ours = (b, b + of_bool ours_present),
                       ag_theirs = (c, c + of_bool theirs_present), ag_kind = kind\<rparr>;
                runs = (if runs \<noteq> [] \<and> extends_run (last runs) nxt (base_present, ours_present, theirs_present) forced
                        then butlast runs @
                          [\<lparr>ag_base = (rng_start (ag_base (last runs)), rng_end (ag_base nxt)),
                            ag_ours = (rng_start (ag_ours (last runs)), rng_end (ag_ours nxt)),
                            ag_theirs = (rng_start (ag_theirs (last runs)), rng_end (ag_theirs nxt)),
                            ag_kind = ag_kind (last runs)\<rparr>]
                        else runs @ [nxt])
            in (runs, rng_end (ag_base nxt), rng_end (ag_ours nxt), rng_end (ag_theirs nxt)))))"

definition aligned_rows_to_runs :: "aligned_row list \<Rightarrow> bool \<Rightarrow> bool list \<Rightarrow> aligned_run list" where
  "aligned_rows_to_runs rows three_way forced_conflict =
     fst (foldl (push_aligned_row three_way forced_conflict) ([], 0, 0, 0) (zip [0..<length rows] rows))"

text \<open>The rows of an original conflict of two inputs that replaces lines stay together.\<close>

definition contains_replacement :: "merge_plan \<Rightarrow> merge_block \<Rightarrow> bool" where
  "contains_replacement p b \<longleftrightarrow>
     list_ex (\<lambda>row. row_a row \<noteq> None \<and> row_b row \<noteq> None \<and> \<not> equal_ab row)
       (slice (mp_rows p) (rng_start (mb_rows b)) (rng_end (mb_rows b)))"

definition fill_range :: "bool list \<Rightarrow> range \<Rightarrow> bool list" where
  "fill_range bs r = map (\<lambda>i. if rng_start r \<le> i \<and> i < rng_end r then True else bs ! i) [0..<length bs]"

definition forced_rows :: "merge_plan \<Rightarrow> bool list" where
  "forced_rows p =
     (if has_base p then []
      else foldl (\<lambda>forced b. if mb_original_conflict b \<and> contains_replacement p b then fill_range forced (mb_rows b) else forced)
             (replicate (length (mp_rows p)) False) (mp_blocks p))"

definition aligned_plan_to_runs :: "merge_plan \<Rightarrow> aligned_run list" where
  "aligned_plan_to_runs p = aligned_rows_to_runs (mp_rows p) (has_base p) (forced_rows p)"

definition align_merge_plan :: "merge_plan \<Rightarrow> aligned_run list" where
  "align_merge_plan p = aligned_plan_to_runs p"

definition align_three_way :: "utext \<Rightarrow> utext \<Rightarrow> utext \<Rightarrow> merge_diff_algorithm \<Rightarrow> aligned_run list option" where
  "align_three_way base ours theirs algorithm =
     map_option aligned_plan_to_runs
       (build_merge_plan base ours theirs (default_options\<lparr>mo_diff_algorithm := algorithm\<rparr>))"

definition align_two_way :: "utext \<Rightarrow> utext \<Rightarrow> merge_diff_algorithm \<Rightarrow> aligned_run list option" where
  "align_two_way ours theirs algorithm =
     map_option aligned_plan_to_runs
       (build_merge_plan_with_optional_base None ours theirs (default_options\<lparr>mo_diff_algorithm := algorithm\<rparr>))"

section \<open>Bytes\<close>

datatype merge_error = Binary_Content

type_synonym 'a merge_outcome = "merge_error + 'a"

definition check_binary :: "byte list \<Rightarrow> utext merge_outcome" where
  "check_binary bs =
     (if 0 \<in> set bs then Inl Binary_Content
      else (case utf8_decode bs of None \<Rightarrow> Inl Binary_Content | Some t \<Rightarrow> Inr t))"

text \<open>The inner option is that of the plan: \<open>None\<close> stands for a failed \<open>expect\<close>.\<close>

definition build_merge_plan_bytes_with_optional_base ::
  "byte list option \<Rightarrow> byte list \<Rightarrow> byte list \<Rightarrow> merge_options \<Rightarrow> merge_plan option merge_outcome" where
  "build_merge_plan_bytes_with_optional_base base ours theirs options =
     (case (case base of None \<Rightarrow> Inr None
          | Some bs \<Rightarrow> (case check_binary bs of Inl e \<Rightarrow> Inl e | Inr t \<Rightarrow> Inr (Some t))) of
        Inl e \<Rightarrow> Inl e
      | Inr base \<Rightarrow>
          (case check_binary ours of
             Inl e \<Rightarrow> Inl e
           | Inr ours \<Rightarrow>
               (case check_binary theirs of
                  Inl e \<Rightarrow> Inl e
                | Inr theirs \<Rightarrow> Inr (build_merge_plan_with_optional_base base ours theirs options))))"

definition merge_file_bytes_with_optional_base ::
  "byte list option \<Rightarrow> byte list \<Rightarrow> byte list \<Rightarrow> merge_options \<Rightarrow> merge_result option merge_outcome" where
  "merge_file_bytes_with_optional_base base ours theirs options =
     (case build_merge_plan_bytes_with_optional_base base ours theirs options of
        Inl e \<Rightarrow> Inl e
      | Inr plan \<Rightarrow> Inr (map_option (\<lambda>p. render_merge_plan p options) plan))"

definition merge_file_bytes_optional_base ::
  "byte list option \<Rightarrow> byte list \<Rightarrow> byte list \<Rightarrow> merge_options \<Rightarrow> merge_result option merge_outcome" where
  "merge_file_bytes_optional_base base ours theirs options = merge_file_bytes_with_optional_base base ours theirs options"

definition merge_file_bytes ::
  "byte list \<Rightarrow> byte list \<Rightarrow> byte list \<Rightarrow> merge_options \<Rightarrow> merge_result option merge_outcome" where
  "merge_file_bytes base ours theirs options = merge_file_bytes_with_optional_base (Some base) ours theirs options"

section \<open>The runs partition the inputs\<close>

fun chained :: "nat \<Rightarrow> range list \<Rightarrow> nat \<Rightarrow> bool" where
  "chained i [] n \<longleftrightarrow> i = n"
| "chained i (r # rs) n \<longleftrightarrow> rng_start r = i \<and> i \<le> rng_end r \<and> chained (rng_end r) rs n"

lemma chained_snoc: "chained i (rs @ [r]) n \<longleftrightarrow> chained i rs (rng_start r) \<and> rng_start r \<le> rng_end r \<and> rng_end r = n"
  by (induction rs arbitrary: i) auto

definition shows_line :: "bool \<Rightarrow> aligned_row \<Rightarrow> bool" where
  "shows_line three_way row \<longleftrightarrow> side_present three_way row \<noteq> (False, False, False)"

definition present_count :: "bool \<Rightarrow> (bool \<times> bool \<times> bool \<Rightarrow> bool) \<Rightarrow> aligned_row list \<Rightarrow> nat" where
  "present_count three_way side rows = length (filter (\<lambda>row. side (side_present three_way row)) rows)"

definition partitioned :: "bool \<Rightarrow> aligned_row list \<Rightarrow> aligned_run list \<times> nat \<times> nat \<times> nat \<Rightarrow> bool" where
  "partitioned three_way rows state \<longleftrightarrow>
     (case state of (runs, a, b, c) \<Rightarrow>
        chained 0 (map ag_base runs) a \<and> chained 0 (map ag_ours runs) b \<and> chained 0 (map ag_theirs runs) c \<and>
        a = present_count three_way fst rows \<and> b = present_count three_way (\<lambda>s. fst (snd s)) rows \<and>
        c = present_count three_way (\<lambda>s. snd (snd s)) rows \<and>
        sum_list (map visual_rows runs) = length (filter (shows_line three_way) rows))"

lemma push_partitioned:
  assumes ok: "partitioned three_way rows (runs, a, b, c)"
  shows "partitioned three_way (rows @ [row]) (push_aligned_row three_way forced (runs, a, b, c) (i, row))"
proof -
  obtain pa pb pc where pres: "side_present three_way row = (pa, pb, pc)" by (cases "side_present three_way row")
  let ?f = "case nth_opt forced i of Some f \<Rightarrow> f | None \<Rightarrow> False"
  let ?nxt = "\<lparr>ag_base = (a, a + of_bool pa), ag_ours = (b, b + of_bool pb), ag_theirs = (c, c + of_bool pc),
    ag_kind = (if ?f then Run_Conflict else aligned_row_kind row three_way)\<rparr>"
  have counts: "present_count three_way fst (rows @ [row]) = a + of_bool pa"
    "present_count three_way (\<lambda>s. fst (snd s)) (rows @ [row]) = b + of_bool pb"
    "present_count three_way (\<lambda>s. snd (snd s)) (rows @ [row]) = c + of_bool pc"
    using ok pres by (simp_all add: partitioned_def present_count_def)
  have shown: "length (filter (shows_line three_way) (rows @ [row])) = sum_list (map visual_rows runs) + of_bool (pa \<or> pb \<or> pc)"
    using ok pres by (auto simp: partitioned_def shows_line_def)
  have chains: "chained 0 (map ag_base runs) a" "chained 0 (map ag_ours runs) b" "chained 0 (map ag_theirs runs) c"
    using ok unfolding partitioned_def by auto
  show ?thesis
  proof (cases "runs \<noteq> [] \<and> extends_run (last runs) ?nxt (pa, pb, pc) ?f")
    case False
    have visual: "visual_rows ?nxt = of_bool (pa \<or> pb \<or> pc)" by (simp add: visual_rows_def rng_len_def)
    have push: "push_aligned_row three_way forced (runs, a, b, c) (i, row)
        = (runs @ [?nxt], a + of_bool pa, b + of_bool pb, c + of_bool pc)"
      unfolding push_aligned_row_def prod.case pres Let_def
      by (simp only: if_not_P [OF False] aligned_run.select_convs snd_conv)
    show ?thesis
      unfolding partitioned_def push prod.case counts shown
      using chains by (simp add: chained_snoc visual del: of_bool_or_iff)
  next
    case True
    then obtain rs l where runs: "runs = rs @ [l]" by (metis rev_exhaust)
    let ?l = "\<lparr>ag_base = (rng_start (ag_base l), a + of_bool pa), ag_ours = (rng_start (ag_ours l), b + of_bool pb),
      ag_theirs = (rng_start (ag_theirs l), c + of_bool pc), ag_kind = ag_kind l\<rparr>"
    have ends: "rng_end (ag_base l) = a" "rng_end (ag_ours l) = b" "rng_end (ag_theirs l) = c"
      "rng_start (ag_base l) \<le> a" "rng_start (ag_ours l) \<le> b" "rng_start (ag_theirs l) \<le> c"
      using chains runs by (auto simp: chained_snoc)
    have more: "visual_rows ?l = visual_rows l + 1"
      using True runs by (simp add: extends_run_def Let_def visual_rows_def rng_len_def max.assoc)
    have any: "pa \<or> pb \<or> pc"
      by (rule ccontr) (use ends more in \<open>simp add: visual_rows_def rng_len_def\<close>)
    have push: "push_aligned_row three_way forced (runs, a, b, c) (i, row) = (rs @ [?l], a + of_bool pa, b + of_bool pb, c + of_bool pc)"
      using True by (simp add: push_aligned_row_def pres Let_def runs)
    show ?thesis
      unfolding partitioned_def push prod.case counts shown
      using chains more any runs by (simp add: chained_snoc)
  qed
qed

lemma rows_partitioned:
  "partitioned three_way rows (foldl (push_aligned_row three_way forced) ([], 0, 0, 0) (zip [0..<length rows] rows))"
proof (induction rows rule: rev_induct)
  case Nil
  then show ?case by (simp add: partitioned_def present_count_def)
next
  case (snoc row rows)
  obtain runs a b c where st: "foldl (push_aligned_row three_way forced) ([], 0, 0, 0) (zip [0..<length rows] rows) = (runs, a, b, c)"
    by (cases "foldl (push_aligned_row three_way forced) ([], 0, 0, 0) (zip [0..<length rows] rows)") auto
  show ?case using push_partitioned [of three_way rows runs a b c row forced "length rows"] snoc st by simp
qed

lemma present_column:
  "present_count True fst rows = length (column A rows)"
  "present_count True (\<lambda>s. fst (snd s)) rows = length (column B rows)"
  "present_count True (\<lambda>s. snd (snd s)) rows = length (column C rows)"
  "present_count False fst rows = 0" "present_count False (\<lambda>s. fst (snd s)) rows = length (column A rows)"
  "present_count False (\<lambda>s. snd (snd s)) rows = length (column B rows)"
  by (induction rows) (auto simp: present_count_def side_present_def column_def split: option.splits)

lemma plan_partitioned:
  assumes "plan_complete p"
  defines "runs \<equiv> aligned_plan_to_runs p"
  shows "chained 0 (map ag_base runs) (if has_base p then length (source_lines p A) else 0)"
    "chained 0 (map ag_ours runs) (length (source_lines p (if has_base p then B else A)))"
    "chained 0 (map ag_theirs runs) (length (source_lines p (if has_base p then C else B)))"
    "sum_list (map visual_rows runs) = length (filter (shows_line (has_base p)) (mp_rows p))"
proof -
  have cols: "length (column s (mp_rows p)) = length (source_lines p s)" for s
    using assms(1) by (cases s) (simp_all add: plan_complete_def rows_ok_def)
  have "partitioned (has_base p) (mp_rows p)
      (foldl (push_aligned_row (has_base p) (forced_rows p)) ([], 0, 0, 0) (zip [0..<length (mp_rows p)] (mp_rows p)))"
    by (rule rows_partitioned)
  then show "chained 0 (map ag_base runs) (if has_base p then length (source_lines p A) else 0)"
    "chained 0 (map ag_ours runs) (length (source_lines p (if has_base p then B else A)))"
    "chained 0 (map ag_theirs runs) (length (source_lines p (if has_base p then C else B)))"
    "sum_list (map visual_rows runs) = length (filter (shows_line (has_base p)) (mp_rows p))"
    by (auto simp: partitioned_def runs_def aligned_plan_to_runs_def aligned_rows_to_runs_def present_column cols
        split: prod.splits)
qed

section \<open>The kind of a run\<close>

text \<open>The rows a run stands for, when no row is forced: rows of one kind that show the same sides.\<close>

definition run_of_rows :: "aligned_run \<Rightarrow> aligned_row list \<Rightarrow> bool" where
  "run_of_rows run g \<longleftrightarrow>
     g \<noteq> [] \<and> (\<forall>r\<in>set g. aligned_row_kind r True = ag_kind run \<and> side_present True r = side_present True (hd g)) \<and>
     column A g = [rng_start (ag_base run)..<rng_end (ag_base run)] \<and>
     column B g = [rng_start (ag_ours run)..<rng_end (ag_ours run)] \<and>
     column C g = [rng_start (ag_theirs run)..<rng_end (ag_theirs run)]"

lemma same_presence_column:
  "\<forall>r\<in>set g. (row_line r s \<noteq> None) = q \<Longrightarrow> length (column s g) = (if q then length g else 0)"
  by (induction g) (auto simp: column_def)

lemma run_presence:
  assumes run: "run_of_rows run g" and "row_nonempty (hd g)"
  shows "visual_rows run = length g"
    and "(rng_len (ag_base run) = length g, rng_len (ag_ours run) = length g, rng_len (ag_theirs run) = length g)
      = side_present True (hd g)"
proof -
  obtain qa qb qc where q: "side_present True (hd g) = (qa, qb, qc)" by (cases "side_present True (hd g)")
  have same: "\<forall>r\<in>set g. side_present True r = (qa, qb, qc)" using run q by (simp add: run_of_rows_def)
  then have "\<forall>r\<in>set g. (row_line r A \<noteq> None) = qa" "\<forall>r\<in>set g. (row_line r B \<noteq> None) = qb"
    "\<forall>r\<in>set g. (row_line r C \<noteq> None) = qc" by (simp_all add: side_present_def)
  note lens = this [THEN same_presence_column]
  have cols: "column A g = [rng_start (ag_base run)..<rng_end (ag_base run)]"
    "column B g = [rng_start (ag_ours run)..<rng_end (ag_ours run)]"
    "column C g = [rng_start (ag_theirs run)..<rng_end (ag_theirs run)]" using run by (simp_all add: run_of_rows_def)
  have len: "rng_len (ag_base run) = (if qa then length g else 0)" "rng_len (ag_ours run) = (if qb then length g else 0)"
    "rng_len (ag_theirs run) = (if qc then length g else 0)"
    using lens unfolding cols by (simp_all add: rng_len_def)
  have any: "qa \<or> qb \<or> qc" using q assms(2) by (auto simp: side_present_def row_nonempty_def)
  then show "visual_rows run = length g" using len by (auto simp: visual_rows_def)
  have "0 < length g" using run by (simp add: run_of_rows_def)
  then show "(rng_len (ag_base run) = length g, rng_len (ag_ours run) = length g, rng_len (ag_theirs run) = length g)
      = side_present True (hd g)"
    using len q by auto
qed

definition grouped :: "aligned_row list \<Rightarrow> aligned_run list \<times> nat \<times> nat \<times> nat \<Rightarrow> bool" where
  "grouped rows state \<longleftrightarrow>
     (case state of (runs, a, b, c) \<Rightarrow>
        (\<exists>gs. concat gs = rows \<and> list_all2 run_of_rows runs gs) \<and>
        column A rows = [0..<a] \<and> column B rows = [0..<b] \<and> column C rows = [0..<c] \<and>
        (\<forall>run. runs \<noteq> [] \<and> run = last runs \<longrightarrow>
           rng_end (ag_base run) = a \<and> rng_end (ag_ours run) = b \<and> rng_end (ag_theirs run) = c \<and>
           rng_start (ag_base run) \<le> a \<and> rng_start (ag_ours run) \<le> b \<and> rng_start (ag_theirs run) \<le> c))"

lemma column_next:
  assumes "column s (rows @ [row]) = [0..<n]" "column s rows = [0..<a]"
  shows "column s [row] = [a..<a + of_bool (row_line row s \<noteq> None)]" "n = a + of_bool (row_line row s \<noteq> None)"
proof -
  have "[0..<n] = [0..<a] @ column s [row]" using assms by (simp add: column_def)
  moreover have "length (column s [row]) = of_bool (row_line row s \<noteq> None)"
    by (simp add: column_def split: option.split)
  ultimately show n: "n = a + of_bool (row_line row s \<noteq> None)"
    by (metis diff_zero length_append length_upt)
  have "[0..<n] = [0..<a] @ [a..<n]" unfolding n by (rule upt_add_eq_append) simp
  with \<open>[0..<n] = [0..<a] @ column s [row]\<close> show "column s [row] = [a..<a + of_bool (row_line row s \<noteq> None)]"
    unfolding n by simp
qed

lemma list_all2_snoc: "list_all2 P (xs @ [x]) ys \<longleftrightarrow> (\<exists>zs z. ys = zs @ [z] \<and> list_all2 P xs zs \<and> P x z)"
proof (cases ys rule: rev_cases)
  case (snoc zs z)
  then show ?thesis using list_all2_rev [of P "x # rev xs" "z # rev zs"] by auto
qed simp

lemma push_grouped:
  assumes ok: "grouped rows (runs, a, b, c)" and row: "row_nonempty row" "\<forall>r\<in>set rows. row_nonempty r"
    and cols: "column A (rows @ [row]) = [0..<na]" "column B (rows @ [row]) = [0..<nb]" "column C (rows @ [row]) = [0..<nc]"
  shows "grouped (rows @ [row]) (push_aligned_row True [] (runs, a, b, c) (i, row))"
proof -
  let ?pa = "row_a row \<noteq> None" and ?pb = "row_b row \<noteq> None" and ?pc = "row_c row \<noteq> None"
  have pres: "side_present True row = (?pa, ?pb, ?pc)" by (simp add: side_present_def)
  let ?nxt = "\<lparr>ag_base = (a, a + of_bool ?pa), ag_ours = (b, b + of_bool ?pb), ag_theirs = (c, c + of_bool ?pc),
    ag_kind = aligned_row_kind row True\<rparr>"
  obtain gs where gs: "concat gs = rows" "list_all2 run_of_rows runs gs" using ok by (auto simp: grouped_def)
  have here: "column A rows = [0..<a]" "column B rows = [0..<b]" "column C rows = [0..<c]"
    using ok by (auto simp: grouped_def)
  note nexts = column_next [OF cols(1) here(1)] column_next [OF cols(2) here(2)] column_next [OF cols(3) here(3)]
  have forced: "(case nth_opt [] i of Some f \<Rightarrow> f | None \<Rightarrow> False) = False" by (simp add: nth_opt_def)
  show ?thesis
  proof (cases "runs \<noteq> [] \<and> extends_run (last runs) ?nxt (?pa, ?pb, ?pc) False")
    case False
    have push: "push_aligned_row True [] (runs, a, b, c) (i, row)
        = (runs @ [?nxt], a + of_bool ?pa, b + of_bool ?pb, c + of_bool ?pc)"
      unfolding push_aligned_row_def prod.case pres Let_def forced if_False
      by (simp only: if_not_P [OF False] aligned_run.select_convs snd_conv)
    have "run_of_rows ?nxt [row]"
      using nexts by (simp add: run_of_rows_def)
    then have "list_all2 run_of_rows (runs @ [?nxt]) (gs @ [[row]])"
      using gs(2) by (simp add: list_all2_appendI)
    moreover have "concat (gs @ [[row]]) = rows @ [row]" using gs(1) by simp
    ultimately have "\<exists>gs. concat gs = rows @ [row] \<and> list_all2 run_of_rows (runs @ [?nxt]) gs" by blast
    then show ?thesis
      unfolding grouped_def push prod.case using cols nexts by simp
  next
    case True
    then obtain rs l where runs: "runs = rs @ [l]" by (metis rev_exhaust)
    then obtain hs g where g: "gs = hs @ [g]" "list_all2 run_of_rows rs hs" "run_of_rows l g"
      using gs(2) by (auto simp: list_all2_snoc)
    have ends: "rng_end (ag_base l) = a" "rng_end (ag_ours l) = b" "rng_end (ag_theirs l) = c"
      "rng_start (ag_base l) \<le> a" "rng_start (ag_ours l) \<le> b" "rng_start (ag_theirs l) \<le> c"
      using ok runs unfolding grouped_def by auto
    let ?l = "\<lparr>ag_base = (rng_start (ag_base l), a + of_bool ?pa), ag_ours = (rng_start (ag_ours l), b + of_bool ?pb),
      ag_theirs = (rng_start (ag_theirs l), c + of_bool ?pc), ag_kind = ag_kind l\<rparr>"
    have push: "push_aligned_row True [] (runs, a, b, c) (i, row)
        = (rs @ [?l], a + of_bool ?pa, b + of_bool ?pb, c + of_bool ?pc)"
      unfolding push_aligned_row_def prod.case pres Let_def forced if_False
      by (simp only: if_P [OF True] aligned_run.select_convs snd_conv) (simp add: runs)
    have "hd g \<in> set rows" using g gs(1) by (auto simp: run_of_rows_def)
    then have hd: "row_nonempty (hd g)" using row(2) by blast
    have "ag_kind l = aligned_row_kind row True" "side_present True (hd g) = (?pa, ?pb, ?pc)"
      using True runs run_presence [OF g(3) hd] by (auto simp: extends_run_def Let_def)
    then have "run_of_rows ?l (g @ [row])"
      using g(3) nexts ends pres upt_add_eq_append [OF ends(4), of "of_bool ?pa"] upt_add_eq_append [OF ends(5), of "of_bool ?pb"]
        upt_add_eq_append [OF ends(6), of "of_bool ?pc"]
      by (auto simp: run_of_rows_def column_def simp del: upt_Suc)
    then have "list_all2 run_of_rows (rs @ [?l]) (hs @ [g @ [row]])"
      using g(2) by (simp add: list_all2_appendI)
    moreover have "concat (hs @ [g @ [row]]) = rows @ [row]" using gs(1) g(1) by simp
    ultimately have "\<exists>gs. concat gs = rows @ [row] \<and> list_all2 run_of_rows (rs @ [?l]) gs" by blast
    then show ?thesis
      unfolding grouped_def push prod.case using cols nexts ends by simp
  qed
qed

lemma upt_front: "xs @ ys = [0..<n] \<Longrightarrow> xs = [0..<length xs]"
  by (metis add_0 append_eq_conv_conj le_add1 length_append length_upt take_upt diff_zero)

lemma rows_grouped:
  assumes "\<forall>r\<in>set rows. row_nonempty r"
    and "column A rows = [0..<na]" "column B rows = [0..<nb]" "column C rows = [0..<nc]"
  shows "grouped rows (foldl (push_aligned_row True []) ([], 0, 0, 0) (zip [0..<length rows] rows))"
  using assms
proof (induction rows arbitrary: na nb nc rule: rev_induct)
  case Nil
  have "\<exists>gs. concat gs = ([] :: aligned_row list) \<and> list_all2 run_of_rows [] gs" by (intro exI [of _ "[]"]) simp
  then show ?case by (simp add: grouped_def)
next
  case (snoc row rows)
  have split: "column s (rows @ [row]) = column s rows @ column s [row]" for s by (simp add: column_def)
  note front = upt_front [OF snoc.prems(2) [unfolded split]] upt_front [OF snoc.prems(3) [unfolded split]]
    upt_front [OF snoc.prems(4) [unfolded split]]
  obtain runs a b c where st: "foldl (push_aligned_row True []) ([], 0, 0, 0) (zip [0..<length rows] rows) = (runs, a, b, c)"
    by (cases "foldl (push_aligned_row True []) ([], 0, 0, 0) (zip [0..<length rows] rows)") auto
  have "grouped rows (runs, a, b, c)" using snoc.IH [OF _ front] snoc.prems(1) st by simp
  from push_grouped [OF this _ _ snoc.prems(2-4)] show ?case using snoc.prems(1) st by simp
qed

text \<open>The three-way comparison of what the sides show in a run.\<close>

definition three_way_kind :: "'a \<Rightarrow> 'a \<Rightarrow> 'a \<Rightarrow> aligned_run_kind" where
  "three_way_kind b o' t =
     (if b = o' \<and> o' = t then Run_Unchanged
      else if b = o' then Run_Theirs_Changed
      else if b = t then Run_Ours_Changed
      else if o' = t then Run_Both_Same
      else Run_Conflict)"

lemma three_way_kind_iff:
  assumes "k = three_way_kind b o' t"
  shows "(b = o') = (k = Run_Unchanged \<or> k = Run_Theirs_Changed)"
    "(b = t) = (k = Run_Unchanged \<or> k = Run_Ours_Changed)"
    "(o' = t) = (k = Run_Unchanged \<or> k = Run_Both_Same)"
  unfolding assms three_way_kind_def by auto

lemma row_kind_cells:
  assumes "plan_complete p" "r \<in> set (mp_rows p)" "row_nonempty r"
  shows "aligned_row_kind r True = three_way_kind (cell p r A) (cell p r B) (cell p r C)"
proof -
  note cells = complete_cells [OF assms(1,2)]
  note present = cells(1) [of A] cells(1) [of B] cells(1) [of C]
  show ?thesis
    using cells(2-4) present assms(3)
    by (cases "row_a r"; cases "row_b r"; cases "row_c r") (auto simp: aligned_row_kind_def three_way_kind_def row_nonempty_def)
qed

lemma cells_of_column:
  assumes "plan_complete p" "set g \<subseteq> set (mp_rows p)" "column s g = [i..<j]"
  shows "slice (source_lines p s) i j = filter_map (\<lambda>r. cell p r s) g"
proof -
  have "k < length (source_lines p s)" if "k \<in> set (column s g)" for k
    using complete_bounds [OF assms(1)] that assms(2) by (auto simp: column_def set_filter_map)
  then have "j - 1 < length (source_lines p s)" if "i < j"
    using assms(3) that by auto
  then have bound: "i < j \<Longrightarrow> j \<le> length (source_lines p s)" by fastforce
  have "filter_map (\<lambda>r. cell p r s) g = filter_map (nth_opt (source_lines p s)) [i..<j]"
    unfolding cell_def filter_map_bind_column assms(3) ..
  also have "\<dots> = map ((!) (source_lines p s)) [i..<j]"
    by (rule filter_map_Some) (use bound in auto)
  also have "\<dots> = slice (source_lines p s) i j"
    by (cases "i < j") (use bound in \<open>auto simp: nth_slice intro!: nth_equalityI\<close>)
  finally show ?thesis by simp
qed

text \<open>Columns that are present alike are equal exactly when their cells are, in rows that all compare alike.\<close>

lemma columns_equal:
  assumes "g \<noteq> []" "\<forall>r\<in>set g. (f r = None) = (f (hd g) = None) \<and> (h r = None) = (h (hd g) = None)"
    and "\<forall>r\<in>set g. (f r = h r) = e"
  shows "(filter_map f g = filter_map h g) = e"
proof (cases e)
  case True
  have "filter_map f g = filter_map h g" by (rule filter_map_cong) (use True assms(3) in auto)
  then show ?thesis using True by simp
next
  case False
  obtain r rs where g: "g = r # rs" using assms(1) by (cases g) simp_all
  have all: "filter_map k xs = []" if "\<forall>x\<in>set xs. k x = None" for k :: "'a \<Rightarrow> 'b option" and xs
    using that by (induction xs) simp_all
  have ne: "f r \<noteq> h r" using assms(3) False g by simp
  show ?thesis
  proof (cases "f r"; cases "h r")
    fix x y assume "f r = Some x" "h r = Some y"
    then show ?thesis using ne g False by simp
  next
    fix y assume fr: "f r = None" "h r = Some y"
    have "filter_map f g = []" by (rule all) (use assms(2) g fr in simp)
    then show ?thesis using fr g False by simp
  next
    fix x assume fr: "f r = Some x" "h r = None"
    have "filter_map h g = []" by (rule all) (use assms(2) g fr in simp)
    then show ?thesis using fr g False by simp
  qed (use ne in simp)
qed

lemma run_kind_sides:
  assumes p: "plan_complete p" "has_base p" and run: "run \<in> set (aligned_plan_to_runs p)"
  shows "ag_kind run = three_way_kind
    (slice (source_lines p A) (rng_start (ag_base run)) (rng_end (ag_base run)))
    (slice (source_lines p B) (rng_start (ag_ours run)) (rng_end (ag_ours run)))
    (slice (source_lines p C) (rng_start (ag_theirs run)) (rng_end (ag_theirs run)))"
proof -
  have rows: "\<forall>r\<in>set (mp_rows p). row_nonempty r" and
    cols: "column s (mp_rows p) = [0..<length (source_lines p s)]" for s
    using p by (cases s; simp add: plan_complete_def rows_ok_def)+
  have "grouped (mp_rows p) (foldl (push_aligned_row True []) ([], 0, 0, 0) (zip [0..<length (mp_rows p)] (mp_rows p)))"
    by (rule rows_grouped [OF rows cols cols cols])
  then obtain gs where gs: "concat gs = mp_rows p" "list_all2 run_of_rows (aligned_plan_to_runs p) gs"
    using p(2) by (auto simp: grouped_def aligned_plan_to_runs_def aligned_rows_to_runs_def forced_rows_def split: prod.splits)
  then obtain g where g: "g \<in> set gs" "run_of_rows run g"
    using run by (metis in_set_conv_nth list_all2_conv_all_nth)
  then have sub: "set g \<subseteq> set (mp_rows p)" using arg_cong [OF gs(1), of set] by auto
  note ok = g(2) [unfolded run_of_rows_def]
  define F where "F s = filter_map (\<lambda>r. cell p r s) g" for s
  have slices: "slice (source_lines p A) (rng_start (ag_base run)) (rng_end (ag_base run)) = F A"
    "slice (source_lines p B) (rng_start (ag_ours run)) (rng_end (ag_ours run)) = F B"
    "slice (source_lines p C) (rng_start (ag_theirs run)) (rng_end (ag_theirs run)) = F C"
    unfolding F_def using cells_of_column [OF p(1) sub] ok by blast+
  have kind: "ag_kind run = three_way_kind (cell p r A) (cell p r B) (cell p r C)" if "r \<in> set g" for r
    using row_kind_cells [OF p(1)] rows sub ok that by (metis subsetD)
  have pres: "(cell p r s = None) = (cell p (hd g) s = None)" if "r \<in> set g" for r s
  proof -
    have "side_present True r = side_present True (hd g)" using ok that by blast
    then have "(row_line r s = None) = (row_line (hd g) s = None)" by (cases s) (auto simp: side_present_def)
    then show ?thesis using complete_cells(1) [OF p(1)] sub ok that by (metis hd_in_set subsetD)
  qed
  have eq: "(F s = F s') = e" if "\<forall>r\<in>set g. (cell p r s = cell p r s') = e" for s s' e
    unfolding F_def
  proof (rule columns_equal [OF _ _ that])
    show "g \<noteq> []" using ok by blast
    show "\<forall>r\<in>set g. (cell p r s = None) = (cell p (hd g) s = None) \<and> (cell p r s' = None) = (cell p (hd g) s' = None)"
      by (intro ballI conjI pres)
  qed
  let ?k = "ag_kind run"
  have "(F A = F B) = (?k = Run_Unchanged \<or> ?k = Run_Theirs_Changed)"
    by (rule eq, rule ballI, rule three_way_kind_iff(1), rule kind)
  moreover have "(F A = F C) = (?k = Run_Unchanged \<or> ?k = Run_Ours_Changed)"
    by (rule eq, rule ballI, rule three_way_kind_iff(2), rule kind)
  moreover have "(F B = F C) = (?k = Run_Unchanged \<or> ?k = Run_Both_Same)"
    by (rule eq, rule ballI, rule three_way_kind_iff(3), rule kind)
  ultimately have "?k = three_way_kind (F A) (F B) (F C)"
    by (cases ?k) (simp_all add: three_way_kind_def)
  then show ?thesis unfolding slices .
qed

section \<open>Properties\<close>

text \<open>C19: the aligned runs of a three-way merge partition the base, our and their text exactly and in order,
  they take as many rows on the screen as the plan has, and the kind of each run is what comparing
  the lines it shows of the three texts says: unchanged when all are the same, changed by one side
  when the other agrees with the base, the same change when only the base differs, and a conflict when
  all three differ.\<close>

theorem aligned_runs_compare_the_texts:
  "\<exists>p runs. build_merge_plan base ours theirs (default_options\<lparr>mo_diff_algorithm := algorithm\<rparr>) = Some p \<and>
    align_three_way base ours theirs algorithm = Some runs \<and>
    chained 0 (map ag_base runs) (length (lines base)) \<and> chained 0 (map ag_ours runs) (length (lines ours)) \<and>
    chained 0 (map ag_theirs runs) (length (lines theirs)) \<and> sum_list (map visual_rows runs) = length (mp_rows p) \<and>
    list_all (\<lambda>run. ag_kind run = three_way_kind
      (slice (lines base) (rng_start (ag_base run)) (rng_end (ag_base run)))
      (slice (lines ours) (rng_start (ag_ours run)) (rng_end (ag_ours run)))
      (slice (lines theirs) (rng_start (ag_theirs run)) (rng_end (ag_theirs run)))) runs"
proof -
  let ?options = "default_options\<lparr>mo_diff_algorithm := algorithm\<rparr>"
  obtain p where p: "build_merge_plan_with_optional_base (Some base) ours theirs ?options = Some p" using plan_exists by blast
  note plan = built_plan [OF p]
  have sources: "has_base p" "source_lines p A = lines base" "source_lines p B = lines ours" "source_lines p C = lines theirs"
    using plan(3-5) by (simp_all add: has_base_def source_lines_def del: length_lines)
  have "\<forall>r\<in>set (mp_rows p). shows_line True r"
    using plan(2) sources(1) by (auto simp: plan_complete_def row_nonempty_def shows_line_def side_present_def)
  then have "filter (shows_line True) (mp_rows p) = mp_rows p" by simp
  then show ?thesis
    using p plan_partitioned [OF plan(2)] run_kind_sides [OF plan(2) sources(1)] sources
    by (intro exI [of _ p] exI [of _ "aligned_plan_to_runs p"])
      (simp add: build_merge_plan_def align_three_way_def list_all_iff del: length_lines)
qed

text \<open>With two inputs the runs partition both of them, and show no base.\<close>

lemma aligned_runs_of_two:
  "\<exists>runs. align_two_way ours theirs algorithm = Some runs \<and>
    chained 0 (map ag_base runs) 0 \<and> chained 0 (map ag_ours runs) (length (lines ours)) \<and>
    chained 0 (map ag_theirs runs) (length (lines theirs))"
proof -
  let ?options = "default_options\<lparr>mo_diff_algorithm := algorithm\<rparr>"
  obtain p where p: "build_merge_plan_with_optional_base None ours theirs ?options = Some p" using plan_exists by blast
  note plan = built_plan [OF p]
  have sources: "\<not> has_base p" "source_lines p A = lines ours" "source_lines p B = lines theirs"
    using plan(3-5) by (simp_all add: has_base_def source_lines_def del: length_lines)
  then show ?thesis
    using p plan_partitioned [OF plan(2)]
    by (intro exI [of _ "aligned_plan_to_runs p"]) (simp add: align_two_way_def del: length_lines)
qed

text \<open>C20: the merge of raw bytes refuses its inputs exactly when one of them contains a zero byte or is
  not UTF-8, and otherwise gives the merge of the texts they encode.\<close>

theorem byte_merge_refuses_binary:
  "merge_file_bytes base ours theirs options =
     (case (utf8_decode base, utf8_decode ours, utf8_decode theirs) of
        (Some b, Some o', Some t) \<Rightarrow>
          if 0 \<in> set base \<union> set ours \<union> set theirs then Inl Binary_Content else Inr (merge_file b o' t options)
      | _ \<Rightarrow> Inl Binary_Content)"
  by (cases "utf8_decode base"; cases "utf8_decode ours"; cases "utf8_decode theirs")
    (simp_all add: merge_file_bytes_def merge_file_bytes_with_optional_base_def build_merge_plan_bytes_with_optional_base_def
      check_binary_def merge_file_def merge_file_with_optional_base_def)

end
