(* ===== verification/Hex.thy ===== *)
theory Hex
  imports Payload History
begin

text \<open>
  Hexadecimal texts of bytes (\<open>hex.rs\<close>), which are the texts of object ids. A text in either case is
  decoded; the encoder writes lower case. \<open>as_chunks::<2>().0\<close> is \<open>pairs_of\<close>.
\<close>

section \<open>Operations\<close>

definition hex_digits :: "byte list" where
  "hex_digits = str ''0123456789abcdef''"

fun pairs_of :: "'a list \<Rightarrow> ('a \<times> 'a) list" where
  "pairs_of (a # b # xs) = (a, b) # pairs_of xs"
| "pairs_of _ = []"

definition nibble :: "byte \<Rightarrow> byte option" where
  "nibble b =
     (if 48 \<le> b \<and> b \<le> 57 then Some (b - 48)
      else if 97 \<le> b \<and> b \<le> 102 then Some (b - 97 + 10)
      else if 65 \<le> b \<and> b \<le> 70 then Some (b - 65 + 10)
      else None)"

definition hex_pair :: "byte \<Rightarrow> byte list" where
  "hex_pair b = [hex_digits ! (b div 16), hex_digits ! (b mod 16)]"

definition hex_encode :: "byte list \<Rightarrow> utext" where
  "hex_encode bs = concat (map hex_pair bs)"

fun decode_pairs :: "(byte \<times> byte) list \<Rightarrow> byte list option" where
  "decode_pairs [] = Some []"
| "decode_pairs ((a, b) # ps) =
     (case nibble a of
        None \<Rightarrow> None
      | Some high \<Rightarrow>
          (case nibble b of
             None \<Rightarrow> None
           | Some low \<Rightarrow> map_option (\<lambda>bs. (high * 16 + low) # bs) (decode_pairs ps)))"

definition hex_decode :: "utext \<Rightarrow> byte list option" where
  "hex_decode hex =
     (if length (as_bytes hex) mod 2 \<noteq> 0 then None else decode_pairs (pairs_of (as_bytes hex)))"

text \<open>The assertion on the length panics; the digits are written into a buffer of 64 bytes.\<close>

definition encode_object_id :: "byte list \<Rightarrow> utext run" where
  "encode_object_id bs =
     (if length bs \<noteq> 20 \<and> length bs \<noteq> 32 then Panic
      else (let buffer = concat (map hex_pair bs) @ replicate (64 - length bs * 2) 0
            in case utf8_decode (take (length bs * 2) buffer) of
                 None \<Rightarrow> Panic
               | Some t \<Rightarrow> Returns t))"

fun pair_matches :: "byte \<times> byte \<times> byte \<Rightarrow> bool" where
  "pair_matches (b, p, q) \<longleftrightarrow>
     (case (nibble p, nibble q) of (Some hi, Some lo) \<Rightarrow> b = hi * 16 + lo | _ \<Rightarrow> False)"

definition hex_matches :: "byte list \<Rightarrow> utext \<Rightarrow> bool" where
  "hex_matches bs hex \<longleftrightarrow>
     length (as_bytes hex) = length bs * 2 \<and>
     list_all pair_matches (zip bs (pairs_of (as_bytes hex)))"

section \<open>Facts\<close>

definition is_bytes :: "byte list \<Rightarrow> bool" where
  "is_bytes = list_all (\<lambda>b. b < 256)"

lemma is_bytes_simps [simp]:
  "is_bytes []" "is_bytes (b # bs) \<longleftrightarrow> b < 256 \<and> is_bytes bs"
  "is_bytes (bs @ cs) \<longleftrightarrow> is_bytes bs \<and> is_bytes cs" "is_bytes (rev bs) = is_bytes bs"
  by (auto simp: is_bytes_def)

lemma less_16: "(n :: nat) < 16 \<longleftrightarrow>
    n \<in> {0, 1, 2, 3, 4, 5, 6, 7, 8, 9, 10, 11, 12, 13, 14, 15}"
  unfolding insert_iff empty_iff by presburger

lemma nibble_bound: "nibble b = Some n \<Longrightarrow> n < 16"
  by (auto simp: nibble_def split: if_splits)

lemma hex_digit:
  assumes "n < 16"
  shows "nibble (hex_digits ! n) = Some n" "hex_digits ! n < 128" "ascii_lowercase (hex_digits ! n) = hex_digits ! n"
  using assms unfolding less_16 by (auto simp: hex_digits_def str_def nibble_def ascii_lowercase_def)

lemma nibble_lowercase: "nibble b = Some n \<longleftrightarrow> n < 16 \<and> ascii_lowercase b = hex_digits ! n"
proof
  assume n: "nibble b = Some n"
  have "b \<in> {48, 49, 50, 51, 52, 53, 54, 55, 56, 57} \<union> {97, 98, 99, 100, 101, 102} \<union> {65, 66, 67, 68, 69, 70}"
    unfolding Un_iff insert_iff empty_iff using n by (simp add: nibble_def split: if_splits) presburger+
  then show "n < 16 \<and> ascii_lowercase b = hex_digits ! n"
    using n by (auto simp: nibble_def hex_digits_def str_def ascii_lowercase_def)
next
  assume n: "n < 16 \<and> ascii_lowercase b = hex_digits ! n"
  then have "nibble (ascii_lowercase b) = Some n" by (simp add: hex_digit)
  then show "nibble b = Some n" by (auto simp: ascii_lowercase_def nibble_def split: if_splits)
qed

lemma is_bytes_sub [simp]:
  "is_bytes bs \<Longrightarrow> is_bytes (take n bs)" "is_bytes bs \<Longrightarrow> is_bytes (drop n bs)" "is_bytes bs \<Longrightarrow> is_bytes (slice bs i j)"
  by (auto simp: is_bytes_def list_all_iff slice_def dest: in_set_takeD in_set_dropD)

lemma ascii_bytes: "list_all (\<lambda>c. c < 128) t \<Longrightarrow> as_bytes t = t"
  by (induction t) (simp_all add: utf8_char_def)

lemma ascii_text: "list_all (\<lambda>c. c < 128) t \<Longrightarrow> utf8_decode t = Some t"
proof -
  assume ascii: "list_all (\<lambda>c. c < 128) t"
  then have "list_all scalar t" by (rule list.pred_mono_strong) (simp add: scalar_def)
  then show ?thesis using decode_encode [of t] ascii_bytes [OF ascii] by simp
qed

lemma hex_pair_simps [simp]:
  assumes "b < 256"
  shows "list_all (\<lambda>c. c < 128) (hex_pair b)"
  using assms by (simp add: hex_pair_def hex_digit)

lemma length_hex_pair [simp]: "length (hex_pair b) = 2"
  by (simp add: hex_pair_def)

lemma hex_encode_simps [simp]:
  "hex_encode [] = []" "hex_encode (b # bs) = hex_pair b @ hex_encode bs"
  by (simp_all add: hex_encode_def)

lemma length_hex_encode [simp]: "length (hex_encode bs) = 2 * length bs"
  by (induction bs) simp_all

lemma hex_encode_ascii: "is_bytes bs \<Longrightarrow> list_all (\<lambda>c. c < 128) (hex_encode bs)"
  by (induction bs) simp_all

lemma hex_encode_bytes [simp]: "is_bytes bs \<Longrightarrow> as_bytes (hex_encode bs) = hex_encode bs"
  by (simp add: ascii_bytes hex_encode_ascii)

lemma length_pairs_of [simp]: "length (pairs_of xs) = length xs div 2"
  by (induction xs rule: pairs_of.induct) simp_all

lemma decode_pairs_encode: "is_bytes bs \<Longrightarrow> decode_pairs (pairs_of (hex_encode bs)) = Some bs"
proof (induction bs)
  case (Cons b bs)
  then have "b div 16 < 16" "b mod 16 < 16" by auto
  then show ?case using Cons hex_digit(1) by (simp add: hex_pair_def)
qed simp

lemma decode_pairs_iff:
  "length bs = length ps \<Longrightarrow> decode_pairs ps = Some bs \<longleftrightarrow> list_all pair_matches (zip bs ps)"
proof (induction bs ps rule: list_induct2)
  case (Cons b bs p ps)
  then show ?case by (cases p) (auto split: option.splits)
qed simp

lemma decode_pairs_length: "decode_pairs ps = Some bs \<Longrightarrow> length bs = length ps"
  by (induction ps arbitrary: bs rule: decode_pairs.induct) (auto split: option.splits)

lemma hex_decode_encode: "is_bytes bs \<Longrightarrow> hex_decode (hex_encode bs) = Some bs"
  by (simp add: hex_decode_def decode_pairs_encode)

lemma hex_matches_iff: "hex_matches bs hex \<longleftrightarrow> hex_decode hex = Some bs"
proof (cases "length (as_bytes hex) = length bs * 2")
  case True
  then have "length bs = length (pairs_of (as_bytes hex))" by simp
  from decode_pairs_iff [OF this] True show ?thesis by (simp add: hex_matches_def hex_decode_def)
next
  case False
  have "hex_decode hex \<noteq> Some bs"
  proof
    assume "hex_decode hex = Some bs"
    then have "length (as_bytes hex) mod 2 = 0" "length bs = length (as_bytes hex) div 2"
      by (auto simp: hex_decode_def dest: decode_pairs_length split: if_splits)
    then show False using False by presburger
  qed
  then show ?thesis using False by (simp add: hex_matches_def)
qed

text \<open>A text decodes to \<open>bs\<close> exactly when it is the encoding of \<open>bs\<close> up to the case of its letters.\<close>

lemma decode_pairs_lowercase:
  "even (length t) \<Longrightarrow> decode_pairs (pairs_of t) = Some bs \<longleftrightarrow> is_bytes bs \<and> map ascii_lowercase t = hex_encode bs"
proof (induction t arbitrary: bs rule: pairs_of.induct)
  case (1 a b t)
  show ?case
  proof (cases bs)
    case Nil
    then show ?thesis by (auto split: option.splits)
  next
    case (Cons c cs)
    have "(\<exists>h l. nibble a = Some h \<and> nibble b = Some l \<and> c = h * 16 + l) \<longleftrightarrow>
        c < 256 \<and> [ascii_lowercase a, ascii_lowercase b] = hex_pair c"
      (is "?l = ?r")
    proof
      assume ?l
      then show ?r unfolding nibble_lowercase hex_pair_def by auto
    next
      assume ?r
      then show ?l unfolding nibble_lowercase hex_pair_def
        by (intro exI [of _ "c div 16"] exI [of _ "c mod 16"]) auto
    qed
    then show ?thesis using 1 Cons by (auto simp: hex_pair_def split: option.splits)
  qed
qed (auto simp: hex_encode_def hex_pair_def)

lemma encode_object_id_text:
  assumes "is_bytes bs"
  shows "encode_object_id bs = (if length bs = 20 \<or> length bs = 32 then Returns (hex_encode bs) else Panic)"
  using ascii_text [OF hex_encode_ascii [OF assms]]
  by (auto simp: encode_object_id_def hex_encode_def [symmetric] Let_def)

end
