(* ===== verification/Slice_Search.thy ===== *)
theory Slice_Search
  imports Strings "HOL-Library.List_Lexorder"
begin

text \<open>
  The searches of Rust's slices that the history index uses: \<open>binary_search_by\<close>, written with the loop
  of the standard library, and \<open>partition_point\<close> on top of it; and \<open>hex.rs\<close>, the hexadecimal texts
  that stand for object ids.
\<close>

section \<open>Binary search\<close>

datatype ordering = Less | Equal | Greater

definition compare :: "'a::linorder \<Rightarrow> 'a \<Rightarrow> ordering" where
  "compare x y = (if x < y then Less else if x = y then Equal else Greater)"

function search_base :: "('a \<Rightarrow> ordering) \<Rightarrow> 'a list \<Rightarrow> nat \<Rightarrow> nat \<Rightarrow> nat" where
  "search_base f xs size' base =
     (if size' \<le> 1 then base
      else (let half = size' div 2; mid = base + half
            in search_base f xs (size' - half) (if f (xs ! mid) = Greater then base else mid)))"
  by pat_completeness auto
termination
  by (relation "measure (\<lambda>(f, xs, n, base). n)") auto

declare search_base.simps [simp del]

text \<open>\<open>Inr i\<close> is \<open>Ok(i)\<close>, a position found; \<open>Inl i\<close> is \<open>Err(i)\<close>, where it could be inserted.\<close>

definition binary_search_by :: "('a \<Rightarrow> ordering) \<Rightarrow> 'a list \<Rightarrow> nat + nat" where
  "binary_search_by f xs =
     (if xs = [] then Inl 0
      else (let base = search_base f xs (length xs) 0
            in case f (xs ! base) of
                 Equal \<Rightarrow> Inr base
               | Less \<Rightarrow> Inl (base + 1)
               | Greater \<Rightarrow> Inl base))"

definition partition_point :: "('a \<Rightarrow> bool) \<Rightarrow> 'a list \<Rightarrow> nat" where
  "partition_point P xs = (case binary_search_by (\<lambda>x. if P x then Less else Greater) xs of Inl i \<Rightarrow> i | Inr i \<Rightarrow> i)"

text \<open>What the documentation asks of the comparison: the slice is ordered by it.\<close>

definition ordered_by :: "('a \<Rightarrow> ordering) \<Rightarrow> 'a list \<Rightarrow> bool" where
  "ordered_by f xs \<longleftrightarrow> sorted_wrt (\<lambda>x y. (f y = Less \<longrightarrow> f x = Less) \<and> (f x = Greater \<longrightarrow> f y = Greater)) xs"

lemma ordered_by_nth:
  assumes "ordered_by f xs" "i < j" "j < length xs"
  shows "f (xs ! j) = Less \<Longrightarrow> f (xs ! i) = Less" "f (xs ! i) = Greater \<Longrightarrow> f (xs ! j) = Greater"
  using sorted_wrt_nth_less [OF assms(1) [unfolded ordered_by_def] assms(2,3)] by auto

lemma search_base_spec:
  assumes "ordered_by f xs" "1 \<le> n" "base + n \<le> length xs"
    and "base = 0 \<or> f (xs ! base) \<noteq> Greater"
    and "\<forall>j. base + n \<le> j \<and> j < length xs \<longrightarrow> f (xs ! j) = Greater"
  shows "search_base f xs n base < length xs \<and>
    (search_base f xs n base = 0 \<or> f (xs ! search_base f xs n base) \<noteq> Greater) \<and>
    (\<forall>j. search_base f xs n base < j \<and> j < length xs \<longrightarrow> f (xs ! j) = Greater)"
  using assms
proof (induction f xs n base rule: search_base.induct)
  case (1 f xs n base)
  show ?case
  proof (cases "n \<le> 1")
    case True
    then show ?thesis using "1.prems" by (simp add: search_base.simps [of _ _ n] Suc_le_eq)
  next
    case False
    let ?half = "n div 2"
    let ?base = "if f (xs ! (base + ?half)) = Greater then base else base + ?half"
    have half: "0 < ?half" "?half < n" "?half \<le> n - ?half" using False by auto
    have step: "search_base f xs n base = search_base f xs (n - ?half) ?base"
      using False by (simp add: search_base.simps [of _ _ n] Let_def)
    have "1 \<le> n - ?half" "?base + (n - ?half) \<le> length xs" "?base = 0 \<or> f (xs ! ?base) \<noteq> Greater"
      using half "1.prems" by auto
    moreover have "\<forall>j. ?base + (n - ?half) \<le> j \<and> j < length xs \<longrightarrow> f (xs ! j) = Greater"
    proof (intro allI impI)
      fix j assume j: "?base + (n - ?half) \<le> j \<and> j < length xs"
      show "f (xs ! j) = Greater"
      proof (cases "f (xs ! (base + ?half)) = Greater")
        case True
        then have "base + ?half \<le> j" using j half by auto
        then show ?thesis
          using True j ordered_by_nth(2) [OF "1.prems"(1), of "base + ?half" j] by (cases "base + ?half = j") auto
      next
        case False
        then show ?thesis using j half "1.prems"(5) by auto
      qed
    qed
    ultimately show ?thesis
      unfolding step by (intro "1.IH" [OF False refl refl] "1.prems"(1))
  qed
qed

lemma binary_search_spec:
  assumes "ordered_by f xs"
  shows "case binary_search_by f xs of
      Inr i \<Rightarrow> i < length xs \<and> f (xs ! i) = Equal
    | Inl i \<Rightarrow> i \<le> length xs \<and> (\<forall>j<i. f (xs ! j) = Less) \<and> (\<forall>j. i \<le> j \<and> j < length xs \<longrightarrow> f (xs ! j) = Greater)"
proof (cases "xs = []")
  case True
  then show ?thesis by (simp add: binary_search_by_def)
next
  case False
  define b where "b = search_base f xs (length xs) 0"
  have b: "b < length xs" "b = 0 \<or> f (xs ! b) \<noteq> Greater" "\<forall>j. b < j \<and> j < length xs \<longrightarrow> f (xs ! j) = Greater"
    unfolding b_def using search_base_spec [OF assms, of "length xs" 0] False by (force simp: Suc_le_eq)+
  show ?thesis
  proof (cases "f (xs ! b)")
    case Less
    then have "f (xs ! j) = Less" if "j < b + 1" for j
      using that b(1) ordered_by_nth(1) [OF assms, of j b] by (cases "j = b") auto
    then show ?thesis using Less b False by (simp add: binary_search_by_def b_def [symmetric] Suc_le_eq)
  next
    case Equal
    then show ?thesis using b False by (simp add: binary_search_by_def b_def [symmetric])
  next
    case Greater
    then have "b = 0" using b(2) by simp
    moreover have "f (xs ! j) = Greater" if "j < length xs" for j
      using that b(3) Greater \<open>b = 0\<close> by (cases "j = 0") auto
    ultimately show ?thesis using Greater False by (simp add: binary_search_by_def b_def [symmetric])
  qed
qed

lemma binary_search_Inr:
  "ordered_by f xs \<Longrightarrow> binary_search_by f xs = Inr i \<Longrightarrow> i < length xs \<and> f (xs ! i) = Equal"
  using binary_search_spec [of f xs] by simp

lemma binary_search_Inl:
  "ordered_by f xs \<Longrightarrow> binary_search_by f xs = Inl i \<Longrightarrow> x \<in> set xs \<Longrightarrow> f x \<noteq> Equal"
  using binary_search_spec [of f xs] by (auto simp: in_set_conv_nth) (metis linorder_not_le ordering.distinct)

text \<open>A slice is partitioned by \<open>P\<close> when the elements that satisfy it come first.\<close>

lemma partition_point_spec:
  assumes "sorted_wrt (\<lambda>x y. P y \<longrightarrow> P x) xs"
  shows "partition_point P xs = length (takeWhile P xs)"
    and "partition_point P xs = length (filter P xs)"
proof -
  let ?f = "\<lambda>x. if P x then Less else Greater"
  have ord: "ordered_by ?f xs"
    unfolding ordered_by_def by (rule sorted_wrt_mono_rel [OF _ assms]) auto
  obtain i where i: "binary_search_by ?f xs = Inl i" "partition_point P xs = i"
    using binary_search_Inr [OF ord] by (cases "binary_search_by ?f xs") (auto simp: partition_point_def split: if_splits)
  then have "i \<le> length xs" "\<forall>j<i. P (xs ! j)" "\<forall>j. i \<le> j \<and> j < length xs \<longrightarrow> \<not> P (xs ! j)"
    using binary_search_spec [OF ord] by (auto split: if_splits)
  then have parts: "\<forall>x\<in>set (take i xs). P x" "\<forall>x\<in>set (drop i xs). \<not> P x" "i = length (take i xs)"
    by (auto simp: in_set_conv_nth)
  have "takeWhile P (take i xs @ drop i xs) = take i xs"
    using parts by (cases "drop i xs") (auto simp: takeWhile_append2 takeWhile_eq_all_conv)
  then show "partition_point P xs = length (takeWhile P xs)" using i(2) parts(3) by simp
  have "filter P (take i xs @ drop i xs) = take i xs"
    using parts(1,2) by (simp only: filter_append) (simp add: filter_id_conv filter_empty_conv)
  then show "partition_point P xs = length (filter P xs)" using i(2) parts(3) by simp
qed

text \<open>Searching a slice that is sorted by a key.\<close>

lemma ordered_by_compare:
  "sorted_wrt (\<lambda>x y. key x \<le> key y) xs \<Longrightarrow> ordered_by (\<lambda>x. compare (key x) k) xs"
  unfolding ordered_by_def by (rule sorted_wrt_mono_rel) (auto simp: compare_def split: if_splits)

lemma compare_Equal [simp]: "compare x y = Equal \<longleftrightarrow> x = y"
  by (simp add: compare_def)

lemma search_by_key:
  assumes "sorted_wrt (\<lambda>x y. key x \<le> key y) xs"
  shows "binary_search_by (\<lambda>x. compare (key x) k) xs = Inr i \<Longrightarrow> i < length xs \<and> key (xs ! i) = k"
    and "binary_search_by (\<lambda>x. compare (key x) k) xs = Inl i \<Longrightarrow> x \<in> set xs \<Longrightarrow> key x \<noteq> k"
  using binary_search_Inr [OF ordered_by_compare [OF assms]] binary_search_Inl [OF ordered_by_compare [OF assms]]
  by (auto simp: ordered_by_compare)

lemma search_by_key_distinct:
  assumes "sorted_wrt (\<lambda>x y. key x \<le> key y) xs" "inj_on key (set xs)" "x \<in> set xs" "key x = k"
  shows "\<exists>i. binary_search_by (\<lambda>x. compare (key x) k) xs = Inr i \<and> xs ! i = x"
proof (cases "binary_search_by (\<lambda>x. compare (key x) k) xs")
  case (Inl i)
  then show ?thesis using search_by_key(2) [OF assms(1)] assms(3,4) by blast
next
  case (Inr i)
  then show ?thesis using search_by_key(1) [OF assms(1)] assms(2-4) by (metis inj_onD nth_mem)
qed

end
