(* ===== verification/History_Index.thy ===== *)
theory History_Index
  imports Hex Slice_Search
begin

text \<open>
  The compact topology of a commit history (\<open>history_index.rs\<close>): a builder that takes commits in walk
  order, the index it finishes to, and the lookups by id, by an abbreviated id and by row. Object ids
  are byte strings of one length in a flat table; row numbers and edge numbers are \<open>u32\<close>, and the
  largest one marks a parent outside the history. A \<open>CancellationToken\<close> is shared with other threads:
  \<open>cancelled k\<close> is what the \<open>k\<close>-th check finds. Capacities and the estimates of storage are left out.

  \<open>sort_unstable_by\<close> is \<open>sort_key\<close> with the lexicographic order of bytes. Rows with distinct
  ids have only one order, so the choice among equal elements does not show in the theorems.
\<close>

section \<open>Errors\<close>

datatype history_error = Backend utext | Cancelled

definition invalid_index :: "utext \<Rightarrow> history_error" where
  "invalid_index message = Backend (str ''history index: '' @ message)"

definition check_cancelled :: "(nat \<Rightarrow> bool) \<Rightarrow> nat \<Rightarrow> history_error + nat" where
  "check_cancelled cancelled k = (if cancelled k then Inl Cancelled else Inr (k + 1))"

text \<open>The operator \<open>?\<close> on a result.\<close>

fun try_then :: "'e + 'a \<Rightarrow> ('a \<Rightarrow> 'e + 'b) \<Rightarrow> 'e + 'b" where
  "try_then (Inl e) f = Inl e"
| "try_then (Inr x) f = f x"

definition check_every_1024 :: "(nat \<Rightarrow> bool) \<Rightarrow> nat \<Rightarrow> nat \<Rightarrow> history_error + nat" where
  "check_every_1024 cancelled ix k = (if ix mod 1024 = 0 then check_cancelled cancelled k else Inr k)"

section \<open>The index\<close>

datatype history_mode = FullReachable | FirstParent | NoMerges | MergesOnly | AllBranches

record history_index =
  hi_snapshot :: utext
  hi_mode :: history_mode
  hi_hash_len :: nat
  hi_ids :: "byte list"
  hi_sorted_rows :: "nat list"
  hi_parent_offsets :: "nat list"
  hi_parents :: "nat list"
  hi_external_edges :: "nat list"
  hi_external_ids :: "byte list"
  hi_fanout :: "nat list"
  hi_probable_stashes :: "nat list"

definition missing_parent :: nat where
  "missing_parent = u32_max"

definition u32_cast :: "nat \<Rightarrow> nat" where
  "u32_cast n = n mod 2 ^ 32"

definition checked_mul :: "nat \<Rightarrow> nat \<Rightarrow> nat option" where
  "checked_mul a b = (if a * b \<le> usize_max then Some (a * b) else None)"

definition checked_add :: "nat \<Rightarrow> nat \<Rightarrow> nat option" where
  "checked_add a b = (if a + b \<le> usize_max then Some (a + b) else None)"

definition get_range :: "'a list \<Rightarrow> nat \<Rightarrow> nat \<Rightarrow> 'a list option" where
  "get_range xs i j = (if i \<le> j \<and> j \<le> length xs then Some (slice xs i j) else None)"

definition index_len :: "history_index \<Rightarrow> nat" where
  "index_len i = length (hi_parent_offsets i) - 1"

definition index_is_empty :: "history_index \<Rightarrow> bool" where
  "index_is_empty i \<longleftrightarrow> index_len i = 0"

definition id_bytes :: "history_index \<Rightarrow> nat \<Rightarrow> byte list option" where
  "id_bytes i row =
     Option.bind (checked_mul row (hi_hash_len i)) (\<lambda>start.
     Option.bind (checked_add start (hi_hash_len i)) (\<lambda>stop. get_range (hi_ids i) start stop))"

definition text_of_id :: "byte list option \<Rightarrow> utext option run" where
  "text_of_id bs =
     (case bs of None \<Rightarrow> Returns None | Some bs \<Rightarrow> bind_run (encode_object_id bs) (\<lambda>t. Returns (Some t)))"

definition index_commit_id :: "history_index \<Rightarrow> nat \<Rightarrow> utext option run" where
  "index_commit_id i row = text_of_id (id_bytes i row)"

definition position_bytes :: "history_index \<Rightarrow> byte list \<Rightarrow> nat option" where
  "position_bytes i ident =
     (if length ident \<noteq> hi_hash_len i then None
      else
        let rows = (if hi_fanout i = [] then hi_sorted_rows i
                    else let bucket = ident ! 0 * 256 + ident ! 1
                         in slice (hi_sorted_rows i) (hi_fanout i ! bucket) (hi_fanout i ! (bucket + 1)))
        in case binary_search_by (\<lambda>row. compare (the (id_bytes i row)) ident) rows of
             Inl _ \<Rightarrow> None
           | Inr ix \<Rightarrow> Some (rows ! ix))"

definition index_position :: "history_index \<Rightarrow> utext \<Rightarrow> nat option" where
  "index_position i hex =
     (if length (as_bytes hex) \<noteq> hi_hash_len i * 2 then None
      else case decode_pairs (take 32 (pairs_of (as_bytes hex))) of
             None \<Rightarrow> None
           | Some bs \<Rightarrow> position_bytes i (take (hi_hash_len i) (bs @ replicate (32 - length bs) 0)))"

text \<open>The least and the greatest id with the digits of an abbreviated reference. The low half of a
  byte is still zero when its second digit is added.\<close>

fun prefix_bounds :: "nat \<Rightarrow> byte list \<Rightarrow> byte list \<Rightarrow> byte list \<Rightarrow> (byte list \<times> byte list) option" where
  "prefix_bounds ix [] lower upper = Some (lower, upper)"
| "prefix_bounds ix (b # bs) lower upper =
     (case nibble b of
        None \<Rightarrow> None
      | Some digit \<Rightarrow>
          if ix mod 2 = 0
          then prefix_bounds (ix + 1) bs (lower[ix div 2 := digit * 16]) (upper[ix div 2 := digit * 16 + 15])
          else let lower = lower[ix div 2 := lower ! (ix div 2) + digit]
               in prefix_bounds (ix + 1) bs lower (upper[ix div 2 := lower ! (ix div 2)]))"

definition resolve_reference :: "history_index \<Rightarrow> utext \<Rightarrow> nat option" where
  "resolve_reference i reference =
     (let len = length (as_bytes reference); h = hi_hash_len i
      in if len = h * 2 then index_position i reference
         else if \<not> (7 \<le> len \<and> len < h * 2) then None
         else case prefix_bounds 0 (as_bytes reference) (replicate 32 0) (replicate 32 255) of
           None \<Rightarrow> None
         | Some (lower, upper) \<Rightarrow>
             (let start = partition_point (\<lambda>row. the (id_bytes i row) < take h lower) (hi_sorted_rows i)
              in case nth_opt (hi_sorted_rows i) start of
                   None \<Rightarrow> None
                 | Some row \<Rightarrow>
                     (case id_bytes i row of
                        None \<Rightarrow> None
                      | Some bs \<Rightarrow>
                          if bs > take h upper then None
                          else (case nth_opt (hi_sorted_rows i) (start + 1) of
                                  Some r \<Rightarrow> if the (id_bytes i r) \<le> take h upper then None else Some row
                                | None \<Rightarrow> Some row))))"

definition u64_be :: "byte list \<Rightarrow> nat" where
  "u64_be bs = foldl (\<lambda>n b. n * 256 + b) 0 bs"

type_synonym keyed_row = "nat \<times> nat"

definition position_in_keyed :: "history_index \<Rightarrow> keyed_row list \<Rightarrow> byte list \<Rightarrow> nat option" where
  "position_in_keyed i keyed ident =
     (let pre = u64_be (take 8 ident);
          b = pre div 2 ^ 48;
          bucket = slice keyed (hi_fanout i ! b) (hi_fanout i ! (b + 1));
          first = partition_point (\<lambda>entry. fst entry < pre) bucket;
          candidates = drop first bucket;
          candidates = take (partition_point (\<lambda>entry. fst entry = pre) candidates) candidates
      in case binary_search_by (\<lambda>entry. compare (the (id_bytes i (snd entry))) ident) candidates of
           Inl _ \<Rightarrow> None
         | Inr ix \<Rightarrow> Some (snd (candidates ! ix)))"

definition index_parents :: "history_index \<Rightarrow> nat \<Rightarrow> nat list" where
  "index_parents i row =
     (case (nth_opt (hi_parent_offsets i) row,
            Option.bind (checked_add row 1) (nth_opt (hi_parent_offsets i))) of
        (Some start, Some stop) \<Rightarrow> slice (hi_parents i) start stop
      | _ \<Rightarrow> [])"

definition parent_id_bytes :: "history_index \<Rightarrow> nat \<Rightarrow> nat \<Rightarrow> byte list option" where
  "parent_id_bytes i row parent =
     Option.bind (nth_opt (index_parents i row) parent) (\<lambda>rank.
       if rank \<noteq> missing_parent then id_bytes i rank
       else
         Option.bind (nth_opt (hi_parent_offsets i) row) (\<lambda>offset.
           case binary_search_by (\<lambda>e. compare e (u32_cast (offset + parent))) (hi_external_edges i) of
             Inl _ \<Rightarrow> None
           | Inr ix \<Rightarrow> get_range (hi_external_ids i) (ix * hi_hash_len i) (ix * hi_hash_len i + hi_hash_len i)))"

definition parent_commit_id :: "history_index \<Rightarrow> nat \<Rightarrow> nat \<Rightarrow> utext option run" where
  "parent_commit_id i row parent = text_of_id (parent_id_bytes i row parent)"

definition row_matches_hex_id :: "history_index \<Rightarrow> nat \<Rightarrow> utext \<Rightarrow> bool" where
  "row_matches_hex_id i row hex = (case id_bytes i row of None \<Rightarrow> False | Some bs \<Rightarrow> hex_matches bs hex)"

definition is_probable_stash :: "history_index \<Rightarrow> nat \<Rightarrow> bool" where
  "is_probable_stash i row \<longleftrightarrow>
     row \<le> u32_max \<and>
     (case binary_search_by (\<lambda>e. compare e row) (hi_probable_stashes i) of Inl _ \<Rightarrow> False | Inr _ \<Rightarrow> True)"

section \<open>The builder\<close>

record history_index_builder =
  hb_index :: history_index
  hb_parent_ids :: "byte list"

definition history_builder_new :: "utext \<Rightarrow> history_mode \<Rightarrow> nat \<Rightarrow> history_error + history_index_builder" where
  "history_builder_new snapshot mode hash_len =
     (if hash_len \<noteq> 20 \<and> hash_len \<noteq> 32 then Inl (invalid_index (str ''unsupported object ID length''))
      else Inr \<lparr>hb_index = \<lparr>hi_snapshot = snapshot, hi_mode = mode, hi_hash_len = hash_len, hi_ids = [],
                   hi_sorted_rows = [], hi_parent_offsets = [0], hi_parents = [], hi_external_edges = [],
                   hi_external_ids = [], hi_fanout = [], hi_probable_stashes = []\<rparr>,
                 hb_parent_ids = []\<rparr>)"

definition builder_len :: "history_index_builder \<Rightarrow> nat" where
  "builder_len b = index_len (hb_index b)"

text \<open>The loop over the parents: whether all have the length of an id, and the table it leaves.\<close>

fun extend_parents :: "nat \<Rightarrow> byte list \<Rightarrow> byte list list \<Rightarrow> bool \<times> byte list" where
  "extend_parents hash_len parent_ids [] = (True, parent_ids)"
| "extend_parents hash_len parent_ids (p # ps) =
     (if length p \<noteq> hash_len then (False, parent_ids) else extend_parents hash_len (parent_ids @ p) ps)"

definition history_builder_push ::
  "history_index_builder \<Rightarrow> byte list \<Rightarrow> byte list list \<Rightarrow> bool \<Rightarrow> (history_error + unit) \<times> history_index_builder" where
  "history_builder_push b ident parents probable_stash =
     (let hash_len = hi_hash_len (hb_index b)
      in if length ident \<noteq> hash_len \<or> missing_parent \<le> builder_len b
         then (Inl (invalid_index (str ''invalid or oversized history'')), b)
         else
           let original_parents = length (hb_parent_ids b)
           in case extend_parents hash_len (hb_parent_ids b) parents of
                (False, parent_ids) \<Rightarrow>
                  (Inl (invalid_index (str ''inconsistent parent ID'')),
                   b\<lparr>hb_parent_ids := take original_parents parent_ids\<rparr>)
              | (True, parent_ids) \<Rightarrow>
                  (let b = b\<lparr>hb_parent_ids := parent_ids\<rparr>;
                       stop = length parent_ids div hash_len
                   in if u32_max < stop then (Inl (invalid_index (str ''too many history edges'')), b)
                      else
                        let i = (hb_index b)\<lparr>hi_ids := hi_ids (hb_index b) @ ident,
                                             hi_parent_offsets := hi_parent_offsets (hb_index b) @ [stop]\<rparr>;
                            i = (if probable_stash
                                 then i\<lparr>hi_probable_stashes := hi_probable_stashes i @ [u32_cast (index_len i - 1)]\<rparr>
                                 else i)
                        in (Inr (), b\<lparr>hb_index := i\<rparr>)))"

definition keyed_rows :: "nat \<Rightarrow> byte list \<Rightarrow> nat list \<Rightarrow> keyed_row list" where
  "keyed_rows hash_len ids rows =
     sort_key (\<lambda>(pre, row). pre # slice ids (row * hash_len) (row * hash_len + hash_len))
       (map (\<lambda>row. (u64_be (slice ids (row * hash_len) (row * hash_len + 8)), row)) rows)"

definition fanout_counts :: "keyed_row list \<Rightarrow> nat list" where
  "fanout_counts keyed =
     foldl (\<lambda>fanout (pre, row). fanout[pre div 2 ^ 48 + 1 := fanout ! (pre div 2 ^ 48 + 1) + 1])
       (replicate 65537 0) keyed"

definition running_sums :: "nat list \<Rightarrow> nat list" where
  "running_sums fanout = foldl (\<lambda>f k. f[k := f ! k + f ! (k - 1)]) fanout [1..<length fanout]"

definition sort_index :: "history_index \<Rightarrow> history_index \<times> keyed_row list option" where
  "sort_index i =
     (let hash_len = hi_hash_len i; rows = [0..<u32_cast (index_len i)]
      in if 65536 \<le> index_len i
         then let keyed = keyed_rows hash_len (hi_ids i) rows
              in (i\<lparr>hi_sorted_rows := map snd keyed, hi_fanout := running_sums (fanout_counts keyed)\<rparr>, Some keyed)
         else (i\<lparr>hi_sorted_rows :=
                  sort_key (\<lambda>row. slice (hi_ids i) (row * hash_len) (row * hash_len + hash_len)) rows\<rparr>, None))"

function chunks_exact :: "nat \<Rightarrow> 'a list \<Rightarrow> 'a list list" where
  "chunks_exact n xs = (if n = 0 \<or> length xs < n then [] else take n xs # chunks_exact n (drop n xs))"
  by pat_completeness auto
termination
  by (relation "measure (\<lambda>(n, xs). length xs)") auto

declare chunks_exact.simps [simp del]

definition parent_rank :: "history_index \<Rightarrow> keyed_row list option \<Rightarrow> byte list \<Rightarrow> nat" where
  "parent_rank i keyed parent =
     (case (case keyed of Some keyed \<Rightarrow> position_in_keyed i keyed parent | None \<Rightarrow> position_bytes i parent) of
        None \<Rightarrow> missing_parent
      | Some row \<Rightarrow> u32_cast row)"

fun resolve_parents ::
  "(nat \<Rightarrow> bool) \<Rightarrow> keyed_row list option \<Rightarrow> nat \<Rightarrow> byte list list \<Rightarrow> history_index \<Rightarrow> nat \<Rightarrow> history_error + history_index \<times> nat" where
  "resolve_parents cancelled keyed ix [] i k = Inr (i, k)"
| "resolve_parents cancelled keyed ix (parent # parents) i k =
     try_then (check_every_1024 cancelled ix k) (\<lambda>k.
       let rank = parent_rank i keyed parent;
           i = (if rank = missing_parent
                then i\<lparr>hi_external_edges := hi_external_edges i @ [u32_cast ix],
                       hi_external_ids := hi_external_ids i @ parent\<rparr>
                else i)
       in resolve_parents cancelled keyed (ix + 1) parents (i\<lparr>hi_parents := hi_parents i @ [rank]\<rparr>) k)"

definition history_builder_finish :: "(nat \<Rightarrow> bool) \<Rightarrow> history_index_builder \<Rightarrow> history_error + history_index" where
  "history_builder_finish cancelled b =
     try_then (check_cancelled cancelled 0) (\<lambda>k.
     case sort_index (hb_index b) of (i, keyed) \<Rightarrow>
     try_then (check_cancelled cancelled k) (\<lambda>k.
     try_then (resolve_parents cancelled keyed 0 (chunks_exact (hi_hash_len i) (hb_parent_ids b)) i k) (\<lambda>(i, k).
     try_then (check_cancelled cancelled k) (\<lambda>_. Inr i))))"

end
