(* ===== verification/History_Lookup.thy ===== *)
theory History_Lookup
  imports History_Index
begin

text \<open>
  The lookups of the history index are correct: both searches for a full id, the one over the sorted
  rows with its table of two-byte prefixes and the one over the prefix cache of the builder, find the
  row of an id exactly when there is one. They are the two providers of the interface
  \<open>row_lookup\<close>, from which the resolution of parents follows once.
\<close>

section \<open>The order of ids\<close>

lemma lex_take: "length xs = length ys \<Longrightarrow> xs \<le> ys \<Longrightarrow> take n xs \<le> take n (ys :: nat list)"
proof (induction xs ys arbitrary: n rule: list_induct2)
  case (Cons x xs y ys)
  then show ?case by (cases n) auto
qed simp

lemma u64_be_Cons: "u64_be (b # bs) = b * 256 ^ length bs + u64_be bs"
proof -
  have acc: "foldl (\<lambda>n b. n * 256 + b) a bs = a * 256 ^ length bs + u64_be bs" for a
    unfolding u64_be_def by (induction bs rule: rev_induct) (simp_all add: algebra_simps)
  show ?thesis using acc [of b] by (simp add: u64_be_def)
qed

lemma u64_be_Nil [simp]: "u64_be [] = 0"
  by (simp add: u64_be_def)

lemma u64_be_bound: "is_bytes bs \<Longrightarrow> u64_be bs < 256 ^ length bs"
proof (induction bs)
  case (Cons b bs)
  have "b * 256 ^ length bs + u64_be bs < (b + 1) * 256 ^ length bs" using Cons by simp
  also have "\<dots> \<le> 256 * 256 ^ length bs" using Cons.prems by (intro mult_right_mono) auto
  finally show ?case by (simp add: u64_be_Cons)
qed simp

lemma u64_be_less:
  "length xs = length ys \<Longrightarrow> is_bytes xs \<Longrightarrow> is_bytes ys \<Longrightarrow> u64_be xs < u64_be ys \<longleftrightarrow> xs < ys"
proof (induction xs ys rule: list_induct2)
  case (Cons x xs y ys)
  let ?p = "256 ^ length ys :: nat"
  have b: "u64_be xs < ?p" "u64_be ys < ?p" using Cons u64_be_bound by (metis is_bytes_simps(2))+
  have "x * ?p + u64_be xs < y * ?p + u64_be ys" if "x < y"
  proof -
    have "(x + 1) * ?p \<le> y * ?p" using that by (intro mult_right_mono) auto
    then show ?thesis using b(1) by simp
  qed
  moreover have "\<not> x * ?p + u64_be xs < y * ?p + u64_be ys" if "y < x"
  proof -
    have "(y + 1) * ?p \<le> x * ?p" using that by (intro mult_right_mono) auto
    then show ?thesis using b(2) by simp
  qed
  ultimately show ?case using Cons by (cases x y rule: linorder_cases) (simp_all add: u64_be_Cons)
qed simp

lemma u64_be_le:
  "length xs = length ys \<Longrightarrow> is_bytes xs \<Longrightarrow> is_bytes ys \<Longrightarrow> xs \<le> ys \<Longrightarrow> u64_be xs \<le> u64_be ys"
  using u64_be_less [of ys xs] by (simp add: linorder_not_less [symmetric])

text \<open>The two-byte prefix that the fan-out table is indexed by.\<close>

definition bucket_of :: "byte list \<Rightarrow> nat" where
  "bucket_of bs = u64_be (take 8 bs) div 2 ^ 48"

lemma bucket_of_bytes:
  assumes "is_bytes bs" "8 \<le> length bs"
  shows "bucket_of bs = bs ! 0 * 256 + bs ! 1"
proof -
  obtain a b cs where bs: "bs = a # b # cs" using assms(2) by (cases bs rule: pairs_of.cases) auto
  have "length (take 6 cs) = 6" "is_bytes (take 6 cs)" using assms bs by simp_all
  then have "u64_be (take 6 cs) < 256 ^ 6" using u64_be_bound [of "take 6 cs"] by metis
  moreover have "u64_be (take 8 bs) = (a * 256 + b) * 256 ^ 6 + u64_be (take 6 cs)"
    using \<open>length (take 6 cs) = 6\<close> by (simp add: bs u64_be_Cons take_Cons')
  ultimately show ?thesis unfolding bucket_of_def bs by (simp add: div_add1_eq)
qed

lemma bucket_of_le:
  "length xs = length ys \<Longrightarrow> is_bytes xs \<Longrightarrow> is_bytes ys \<Longrightarrow> xs \<le> ys \<Longrightarrow> bucket_of xs \<le> bucket_of ys"
  unfolding bucket_of_def by (intro div_le_mono u64_be_le lex_take) simp_all

lemma bucket_of_bound: "is_bytes bs \<Longrightarrow> bucket_of bs < 65536"
proof -
  assume "is_bytes bs"
  then have "u64_be (take 8 bs) < 256 ^ length (take 8 bs)" by (intro u64_be_bound) simp
  also have "\<dots> \<le> 256 ^ 8" by (rule power_increasing) simp_all
  finally show ?thesis by (simp add: bucket_of_def less_mult_imp_div_less)
qed

section \<open>Sorted lists cut at counts\<close>

lemma sorted_in_three:
  fixes g :: "'a \<Rightarrow> 'b::linorder"
  assumes "sorted_wrt (\<lambda>x y. g x \<le> g y) xs"
  shows "filter (\<lambda>x. g x < k) xs @ filter (\<lambda>x. g x = k) xs @ filter (\<lambda>x. k < g x) xs = xs"
  using assms
proof (induction xs)
  case (Cons x xs)
  have none: "filter P xs = []" if "\<And>y. g x \<le> g y \<Longrightarrow> \<not> P y" for P
    using that Cons.prems by (simp add: filter_empty_conv)
  show ?case
  proof (cases "g x" k rule: linorder_cases)
    case less
    then show ?thesis using Cons by auto
  next
    case equal
    then have "filter (\<lambda>y. g y < k) xs = []" by (auto intro!: none)
    then show ?thesis using Cons equal by auto
  next
    case greater
    then have "filter (\<lambda>y. g y < k) xs = []" "filter (\<lambda>y. g y = k) xs = []"
      by (auto intro!: none)
    then show ?thesis using Cons greater by auto
  qed
qed simp

lemma slice_of_count:
  assumes "sorted_wrt (\<lambda>x y. g x \<le> g y) xs"
  shows "slice xs (length (filter (\<lambda>x. g x < k) xs)) (length (filter (\<lambda>x. g x < Suc k) xs)) = filter (\<lambda>x. g x = k) xs"
proof -
  have "length (filter (\<lambda>x. g x < Suc k) xs) = length (filter (\<lambda>x. g x < k) xs) + length (filter (\<lambda>x. g x = k) xs)"
    by (induction xs) auto
  then show ?thesis
    by (subst (1) sorted_in_three [OF assms, of k, symmetric]) (simp add: slice_def)
qed

lemma run_of_key:
  fixes g :: "'a \<Rightarrow> 'b::linorder" and k :: 'b
  assumes "sorted_wrt (\<lambda>x y. g x \<le> g y) xs"
  defines "candidates \<equiv> drop (partition_point (\<lambda>x. g x < k) xs) xs"
  shows "take (partition_point (\<lambda>x. g x = k) candidates) candidates = filter (\<lambda>x. g x = k) xs"
proof -
  have "partition_point (\<lambda>x. g x < k) xs = length (filter (\<lambda>x. g x < k) xs)"
    by (rule partition_point_spec(2), rule sorted_wrt_mono_rel [OF _ assms(1)]) auto
  then have c: "candidates = filter (\<lambda>x. g x = k) xs @ filter (\<lambda>x. k < g x) xs"
    unfolding candidates_def by (subst (2) sorted_in_three [OF assms(1), of k, symmetric]) simp
  have "sorted_wrt (\<lambda>x y. g y = k \<longrightarrow> g x = k) candidates"
    unfolding c sorted_wrt_append
    by (auto intro: sorted_wrt_mono_rel [OF _ sorted_wrt_filter [OF assms(1)]])
  moreover have "filter (\<lambda>x. g x = k) candidates = filter (\<lambda>x. g x = k) xs"
    unfolding c by (auto simp: filter_empty_conv)
  ultimately show ?thesis
    using partition_point_spec(2) [of "\<lambda>x. g x = k" candidates] by (simp add: c)
qed

section \<open>The fan-out table\<close>

lemma counting:
  assumes "\<forall>x\<in>set xs. g x < length f"
  shows "length (foldl (\<lambda>f x. f[g x := f ! g x + 1]) f xs) = length f \<and>
    (\<forall>j<length f. foldl (\<lambda>f x. f[g x := f ! g x + 1]) f xs ! j = f ! j + length (filter (\<lambda>x. g x = j) xs))"
  using assms by (induction xs arbitrary: f) (auto simp: nth_list_update)

lemma running_sums_prefix:
  fixes f :: "nat list"
  shows
  "length (foldl (\<lambda>f k. f[k := f ! k + f ! (k - 1)]) f [1..<m]) = length f \<and>
    (\<forall>k<length f. m \<le> length f \<longrightarrow> foldl (\<lambda>f k. f[k := f ! k + f ! (k - 1)]) f [1..<m] ! k =
      (if k < m then sum_list (take (Suc k) f) else f ! k))"
proof (induction m)
  case 0
  then show ?case by simp
next
  case (Suc m)
  show ?case
  proof (cases "m = 0")
    case True
    then show ?thesis by (auto simp: take_Suc_conv_app_nth hd_conv_nth)
  next
    case False
    then have split: "[1..<Suc m] = [1..<m] @ [m]" by simp
    have "sum_list (take (Suc m) f) = f ! m + sum_list (take (Suc (m - 1)) f)" if "m < length f"
      using that False by (simp add: take_Suc_conv_app_nth)
    then show ?thesis
      using Suc False unfolding split by (auto simp: nth_list_update less_Suc_eq)
  qed
qed

lemma fanout_table:
  assumes "\<forall>e\<in>set keyed. fst e div 2 ^ 48 < 65536" "k \<le> 65536"
  shows "running_sums (fanout_counts keyed) ! k = length (filter (\<lambda>e. fst e div 2 ^ 48 < k) keyed)"
    and "length (running_sums (fanout_counts keyed)) = 65537"
proof -
  let ?g = "\<lambda>e :: keyed_row. fst e div 2 ^ 48 + 1"
  let ?c = "fanout_counts keyed"
  have c: "?c = foldl (\<lambda>f e. f[?g e := f ! ?g e + 1]) (replicate 65537 0) keyed"
    unfolding fanout_counts_def by (simp add: case_prod_unfold)
  have len: "length ?c = 65537" and nth: "j < 65537 \<Longrightarrow> ?c ! j = length (filter (\<lambda>e. ?g e = j) keyed)" for j
    using counting [of keyed ?g "replicate 65537 0"] assms(1) unfolding c by auto
  have sums: "sum_list (take (Suc j) ?c) = length (filter (\<lambda>e. fst e div 2 ^ 48 < j) keyed)" if "j < 65537" for j
    using that
  proof (induction j)
    case 0
    then show ?case using len nth [of 0] by (simp add: take_Suc_conv_app_nth)
  next
    case (Suc j)
    have "length (filter (\<lambda>e. fst e div 2 ^ 48 < Suc j) keyed) =
        length (filter (\<lambda>e. fst e div 2 ^ 48 < j) keyed) + length (filter (\<lambda>e. fst e div 2 ^ 48 = j) keyed)"
      by (induction keyed) auto
    then show ?case using Suc len nth [of "Suc j"] by (simp add: take_Suc_conv_app_nth)
  qed
  show "length (running_sums ?c) = 65537" "running_sums ?c ! k = length (filter (\<lambda>e. fst e div 2 ^ 48 < k) keyed)"
    using running_sums_prefix [of ?c "length ?c"] sums [of k] assms(2) len by (auto simp: running_sums_def)
qed

section \<open>The tables of an index\<close>

abbreviation row_key :: "history_index \<Rightarrow> nat \<Rightarrow> byte list" where
  "row_key i row \<equiv> the (id_bytes i row)"

definition ids_ok :: "history_index \<Rightarrow> bool" where
  "ids_ok i \<longleftrightarrow>
     (hi_hash_len i = 20 \<or> hi_hash_len i = 32) \<and> is_bytes (hi_ids i) \<and>
     length (hi_ids i) = index_len i * hi_hash_len i \<and> index_len i \<le> u32_max \<and> inj_on (row_key i) {..<index_len i}"

definition is_id :: "history_index \<Rightarrow> byte list \<Rightarrow> bool" where
  "is_id i ident \<longleftrightarrow> length ident = hi_hash_len i \<and> is_bytes ident"

definition index_ok :: "history_index \<Rightarrow> bool" where
  "index_ok i \<longleftrightarrow>
     ids_ok i \<and> distinct (hi_sorted_rows i) \<and> set (hi_sorted_rows i) = {..<index_len i} \<and>
     sorted_wrt (\<lambda>r s. row_key i r \<le> row_key i s) (hi_sorted_rows i) \<and>
     (hi_fanout i \<noteq> [] \<longrightarrow>
       (\<forall>k\<le>65536. hi_fanout i ! k = length (filter (\<lambda>r. bucket_of (row_key i r) < k) (hi_sorted_rows i))))"

definition keyed_ok :: "history_index \<times> keyed_row list \<Rightarrow> bool" where
  "keyed_ok t \<longleftrightarrow> (case t of (i, keyed) \<Rightarrow>
     ids_ok i \<and> set keyed = (\<lambda>r. (u64_be (take 8 (row_key i r)), r)) ` {..<index_len i} \<and>
     sorted_wrt (\<lambda>e f. fst e \<le> fst f \<and> (fst e = fst f \<longrightarrow> row_key i (snd e) \<le> row_key i (snd f))) keyed \<and>
     (\<forall>k\<le>65536. hi_fanout i ! k = length (filter (\<lambda>e. fst e div 2 ^ 48 < k) keyed)))"

lemma usize_rows: "n \<le> u32_max \<Longrightarrow> h \<le> 32 \<Longrightarrow> n * h \<le> usize_max"
  using mult_le_mono [of n u32_max h 32] by (simp add: u32_max_def usize_max_def)

lemma id_bytes_row:
  assumes "ids_ok i"
  shows "row < index_len i \<Longrightarrow>
      id_bytes i row = Some (slice (hi_ids i) (row * hi_hash_len i) (row * hi_hash_len i + hi_hash_len i))"
    and "index_len i \<le> row \<Longrightarrow> id_bytes i row = None"
proof -
  let ?h = "hi_hash_len i" and ?n = "index_len i"
  have h: "0 < ?h" "?h \<le> 32" "length (hi_ids i) = ?n * ?h" "?n * ?h \<le> usize_max"
    using assms usize_rows [of ?n ?h] by (auto simp: ids_ok_def)
  show "id_bytes i row = Some (slice (hi_ids i) (row * ?h) (row * ?h + ?h))" if "row < ?n"
  proof -
    have "(row + 1) * ?h \<le> ?n * ?h" using that by (intro mult_right_mono) auto
    then show ?thesis using h by (simp add: id_bytes_def checked_mul_def checked_add_def get_range_def)
  qed
  show "id_bytes i row = None" if "?n \<le> row"
  proof -
    have "?n * ?h \<le> row * ?h" using that by (intro mult_right_mono) auto
    then have "\<not> row * ?h + ?h \<le> ?n * ?h" using h(1) by linarith
    then show ?thesis using h by (simp add: id_bytes_def checked_mul_def checked_add_def get_range_def)
  qed
qed

lemma row_key_is_id:
  assumes "ids_ok i" "row < index_len i"
  shows "is_id i (row_key i row)" "id_bytes i row = Some (row_key i row)"
proof -
  have "(row + 1) * hi_hash_len i \<le> index_len i * hi_hash_len i" using assms by (intro mult_right_mono) auto
  then show "is_id i (row_key i row)" "id_bytes i row = Some (row_key i row)"
    using assms by (auto simp: id_bytes_row(1) [OF assms] is_id_def ids_ok_def)
qed

lemma is_id_bucket: "ids_ok i \<Longrightarrow> is_id i k \<Longrightarrow> bucket_of k = k ! 0 * 256 + k ! 1"
  by (rule bucket_of_bytes) (auto simp: ids_ok_def is_id_def)

section \<open>Searching by id\<close>

text \<open>What a lookup promises: an id it finds is the one of the row, and it finds every row.\<close>

locale row_lookup =
  fixes table_ok :: "'t \<Rightarrow> bool" and table :: "'t \<Rightarrow> history_index" and find_row :: "'t \<Rightarrow> byte list \<Rightarrow> nat option"
  assumes is_table: "table_ok t \<Longrightarrow> ids_ok (table t)"
    and sound: "table_ok t \<Longrightarrow> is_id (table t) k \<Longrightarrow> find_row t k = Some r \<Longrightarrow>
      r < index_len (table t) \<and> row_key (table t) r = k"
    and complete: "table_ok t \<Longrightarrow> r < index_len (table t) \<Longrightarrow> find_row t (row_key (table t) r) \<noteq> None"
begin

lemma finds_rows:
  assumes "table_ok t" "r < index_len (table t)"
  shows "find_row t (row_key (table t) r) = Some r"
proof -
  obtain s where s: "find_row t (row_key (table t) r) = Some s" using complete [OF assms] by blast
  have "s < index_len (table t) \<and> row_key (table t) s = row_key (table t) r"
    by (rule sound [OF assms(1) row_key_is_id(1) [OF is_table [OF assms(1)] assms(2)] s])
  moreover have "inj_on (row_key (table t)) {..<index_len (table t)}"
    using is_table [OF assms(1)] by (simp add: ids_ok_def)
  ultimately show ?thesis using s assms(2) by (metis inj_onD lessThan_iff)
qed

lemma finds_nothing_else:
  "table_ok t \<Longrightarrow> is_id (table t) k \<Longrightarrow> find_row t k = None \<longleftrightarrow> (\<forall>r<index_len (table t). row_key (table t) r \<noteq> k)"
  using finds_rows sound by (metis not_None_eq)

lemma finds_position:
  assumes "table_ok t" "is_id (table t) k"
  shows "find_row t k = position (\<lambda>r. row_key (table t) r = k) [0..<index_len (table t)]"
proof (cases "find_row t k")
  case None
  then have "position (\<lambda>r. row_key (table t) r = k) [0..<index_len (table t)] = None"
    using finds_nothing_else [OF assms] by (simp add: position_None)
  then show ?thesis using None by simp
next
  case (Some r)
  then have r: "r < index_len (table t)" "row_key (table t) r = k" using sound [OF assms] by blast+
  then have "position (\<lambda>r. row_key (table t) r = k) [0..<index_len (table t)] \<noteq> None"
    by (auto simp: position_None)
  then obtain j where j: "position (\<lambda>r. row_key (table t) r = k) [0..<index_len (table t)] = Some j" by blast
  then have "j < index_len (table t)" "row_key (table t) j = k" by (auto dest!: position_SomeD)
  then have "j = r" using is_table [OF assms(1)] r by (metis ids_ok_def inj_onD lessThan_iff)
  then show ?thesis using Some j by simp
qed

end

lemma search_rows:
  assumes "sorted_wrt (\<lambda>x y. key x \<le> key y) xs"
  shows "(case binary_search_by (\<lambda>x. compare (key x) k) xs of Inl _ \<Rightarrow> None | Inr ix \<Rightarrow> Some (f (xs ! ix))) = Some r \<Longrightarrow>
      \<exists>x\<in>set xs. key x = k \<and> f x = r"
    and "x \<in> set xs \<Longrightarrow> key x = k \<Longrightarrow>
      (case binary_search_by (\<lambda>x. compare (key x) k) xs of Inl _ \<Rightarrow> None | Inr ix \<Rightarrow> Some (f (xs ! ix))) \<noteq> None"
  using search_by_key [OF assms, of k] by (auto split: sum.splits)

lemma position_bytes_rows:
  assumes "index_ok i" "is_id i k"
  defines "rows \<equiv> (if hi_fanout i = [] then hi_sorted_rows i
    else filter (\<lambda>r. bucket_of (row_key i r) = bucket_of k) (hi_sorted_rows i))"
  shows "position_bytes i k =
      (case binary_search_by (\<lambda>r. compare (row_key i r) k) rows of Inl _ \<Rightarrow> None | Inr ix \<Rightarrow> Some (rows ! ix))"
    and "sorted_wrt (\<lambda>r s. row_key i r \<le> row_key i s) rows"
proof -
  note ok = assms(1) [unfolded index_ok_def]
  have ids: "ids_ok i" using ok by blast
  have "sorted_wrt (\<lambda>r s. bucket_of (row_key i r) \<le> bucket_of (row_key i s)) (hi_sorted_rows i)"
  proof (rule sorted_wrt_mono_rel [of "hi_sorted_rows i" "\<lambda>r s. row_key i r \<le> row_key i s"])
    fix r s assume "r \<in> set (hi_sorted_rows i)" "s \<in> set (hi_sorted_rows i)" "row_key i r \<le> row_key i s"
    then show "bucket_of (row_key i r) \<le> bucket_of (row_key i s)"
      using ok row_key_is_id(1) [OF ids] by (intro bucket_of_le) (auto simp: is_id_def)
  qed (use ok in blast)
  from slice_of_count [OF this, of "bucket_of k"]
  have "hi_fanout i \<noteq> [] \<Longrightarrow>
      slice (hi_sorted_rows i) (hi_fanout i ! bucket_of k) (hi_fanout i ! (bucket_of k + 1)) = rows"
    using ok bucket_of_bound [of k] assms(2) by (simp add: rows_def is_id_def)
  then have rows: "(if hi_fanout i = [] then hi_sorted_rows i
      else slice (hi_sorted_rows i) (hi_fanout i ! (k ! 0 * 256 + k ! 1)) (hi_fanout i ! (k ! 0 * 256 + k ! 1 + 1))) = rows"
    unfolding is_id_bucket [OF ids assms(2)] by (cases "hi_fanout i = []") (auto simp: rows_def)
  have "length k = hi_hash_len i" using assms(2) by (simp add: is_id_def)
  then show "position_bytes i k =
      (case binary_search_by (\<lambda>r. compare (row_key i r) k) rows of Inl _ \<Rightarrow> None | Inr ix \<Rightarrow> Some (rows ! ix))"
    unfolding position_bytes_def Let_def rows by simp
  show "sorted_wrt (\<lambda>r s. row_key i r \<le> row_key i s) rows"
    using ok by (auto simp: rows_def intro: sorted_wrt_filter)
qed

interpretation by_rows: row_lookup index_ok "\<lambda>i. i" position_bytes
proof
  fix i k r
  assume ok: "index_ok i"
  then show "ids_ok i" by (simp add: index_ok_def)
  show "r < index_len i \<and> row_key i r = k" if "is_id i k" "position_bytes i k = Some r"
    using that search_rows(1) [OF position_bytes_rows(2) [OF ok that(1)], where k = k and f = "\<lambda>r. r" and r = r] ok
    unfolding position_bytes_rows(1) [OF ok that(1)] by (auto simp: index_ok_def split: if_splits)
  show "position_bytes i (row_key i r) \<noteq> None" if r: "r < index_len i"
  proof -
    have k: "is_id i (row_key i r)" using row_key_is_id(1) r ok by (simp add: index_ok_def)
    show ?thesis
      unfolding position_bytes_rows(1) [OF ok k]
      by (rule search_rows(2) [OF position_bytes_rows(2) [OF ok k], where x = r]) (use ok r in \<open>auto simp: index_ok_def\<close>)
  qed
qed

text \<open>The prefix cache narrows the search to the entries with the first eight bytes of the id.\<close>

lemma position_in_keyed_rows:
  assumes "keyed_ok (i, keyed)" "is_id i k"
  defines "run \<equiv> filter (\<lambda>e. fst e = u64_be (take 8 k)) keyed"
  shows "position_in_keyed i keyed k =
      (case binary_search_by (\<lambda>e. compare (row_key i (snd e)) k) run of Inl _ \<Rightarrow> None | Inr ix \<Rightarrow> Some (snd (run ! ix)))"
    and "sorted_wrt (\<lambda>e f. row_key i (snd e) \<le> row_key i (snd f)) run"
proof -
  let ?pre = "u64_be (take 8 k)" and ?b = "\<lambda>e :: keyed_row. fst e div 2 ^ 48"
  note ok = assms(1) [unfolded keyed_ok_def prod.case]
  have pre: "?pre div 2 ^ 48 < 65536"
    using bucket_of_bound [of k] assms(2) by (simp add: bucket_of_def is_id_def)
  have sorted: "sorted_wrt (\<lambda>e f. fst e \<le> fst f) keyed"
    by (rule sorted_wrt_mono_rel [OF _ conjunct1 [OF conjunct2 [OF conjunct2 [OF ok]]]]) auto
  then have "sorted_wrt (\<lambda>e f. ?b e \<le> ?b f) keyed"
    by (rule sorted_wrt_mono_rel [rotated]) (auto intro: div_le_mono)
  from slice_of_count [OF this, of "?pre div 2 ^ 48"]
  have bucket: "slice keyed (hi_fanout i ! (?pre div 2 ^ 48)) (hi_fanout i ! (?pre div 2 ^ 48 + 1)) =
      filter (\<lambda>e. ?b e = ?pre div 2 ^ 48) keyed" (is "_ = ?bucket")
    using ok pre by simp
  have "filter (\<lambda>e. fst e = ?pre) ?bucket = run" unfolding run_def filter_filter by (rule filter_cong) auto
  then have narrow: "take (partition_point (\<lambda>e. fst e = ?pre) (drop (partition_point (\<lambda>e. fst e < ?pre) ?bucket) ?bucket))
      (drop (partition_point (\<lambda>e. fst e < ?pre) ?bucket) ?bucket) = run"
    using run_of_key [OF sorted_wrt_filter [OF sorted]] by metis
  show "position_in_keyed i keyed k =
      (case binary_search_by (\<lambda>e. compare (row_key i (snd e)) k) run of Inl _ \<Rightarrow> None | Inr ix \<Rightarrow> Some (snd (run ! ix)))"
    unfolding position_in_keyed_def Let_def bucket narrow ..
  show "sorted_wrt (\<lambda>e f. row_key i (snd e) \<le> row_key i (snd f)) run"
    by (rule sorted_wrt_mono_rel
        [OF _ sorted_wrt_filter [OF conjunct1 [OF conjunct2 [OF conjunct2 [OF ok]]], of "\<lambda>e. fst e = ?pre", folded run_def]])
      (auto simp: run_def)
qed

interpretation by_prefix: row_lookup keyed_ok fst "\<lambda>(i, keyed). position_in_keyed i keyed"
proof
  fix t :: "history_index \<times> keyed_row list" and k r
  obtain i keyed where t: "t = (i, keyed)" by fastforce
  assume "keyed_ok t"
  then have ok: "keyed_ok (i, keyed)" by (simp add: t)
  then show "ids_ok (fst t)" by (simp add: t keyed_ok_def)
  show "r < index_len (fst t) \<and> row_key (fst t) r = k"
    if "is_id (fst t) k" "(case t of (i, keyed) \<Rightarrow> position_in_keyed i keyed) k = Some r"
  proof -
    have k: "is_id i k" "position_in_keyed i keyed k = Some r" using that by (simp_all add: t)
    show ?thesis
      using search_rows(1) [OF position_in_keyed_rows(2) [OF ok k(1)], where k = k and f = snd and r = r] ok k(2)
      unfolding position_in_keyed_rows(1) [OF ok k(1)] by (auto simp: keyed_ok_def t)
  qed
  show "(case t of (i, keyed) \<Rightarrow> position_in_keyed i keyed) (row_key (fst t) r) \<noteq> None" if "r < index_len (fst t)"
  proof -
    have r: "r < index_len i" using that by (simp add: t)
    then have k: "is_id i (row_key i r)" using row_key_is_id(1) ok by (simp add: keyed_ok_def)
    have "position_in_keyed i keyed (row_key i r) \<noteq> None"
      unfolding position_in_keyed_rows(1) [OF ok k]
      by (rule search_rows(2) [OF position_in_keyed_rows(2) [OF ok k], where x = "(u64_be (take 8 (row_key i r)), r)"])
        (use ok r in \<open>auto simp: keyed_ok_def\<close>)
    then show ?thesis by (simp add: t)
  qed
qed

end
