(* ===== verification/History_Build.thy ===== *)
theory History_Build
  imports History_Lookup "HOL-Library.Multiset"
begin

text \<open>
  The history index gives back the history it was built from. The abstract history is the list of the
  walked commits; the builder keeps it in flat tables, sorting establishes the tables of
  \<open>History_Lookup\<close>, and the parents are resolved through its interface.
\<close>

section \<open>Sorting\<close>

lemma id_bytes_cong: "hi_ids j = hi_ids i \<Longrightarrow> hi_hash_len j = hi_hash_len i \<Longrightarrow> id_bytes j = id_bytes i"
  by (simp add: id_bytes_def fun_eq_iff)

lemma ids_ok_cong:
  "hi_ids j = hi_ids i \<Longrightarrow> hi_hash_len j = hi_hash_len i \<Longrightarrow> hi_parent_offsets j = hi_parent_offsets i \<Longrightarrow>
    ids_ok j = ids_ok i"
  by (simp add: ids_ok_def index_len_def id_bytes_cong [of j i])

lemma u32_cast_small [simp]: "n \<le> u32_max \<Longrightarrow> u32_cast n = n"
  by (simp add: u32_cast_def u32_max_def)

lemma sorted_by_key: "sorted_wrt (\<lambda>x y. f x \<le> f y) (sort_key f xs)"
  using sorted_sort_key [of f xs] by (simp add: sorted_map)

lemma row_key_slice:
  assumes "ids_ok i" "row < index_len i"
  shows "slice (hi_ids i) (row * hi_hash_len i) (row * hi_hash_len i + hi_hash_len i) = row_key i row"
    and "slice (hi_ids i) (row * hi_hash_len i) (row * hi_hash_len i + 8) = take 8 (row_key i row)"
proof -
  show "slice (hi_ids i) (row * hi_hash_len i) (row * hi_hash_len i + hi_hash_len i) = row_key i row"
    using id_bytes_row(1) [OF assms] by simp
  then show "slice (hi_ids i) (row * hi_hash_len i) (row * hi_hash_len i + 8) = take 8 (row_key i row)"
    using assms(1) by (auto simp: slice_def ids_ok_def min_def simp flip: \<open>_ = row_key i row\<close>)
qed

lemma sort_small:
  assumes "ids_ok i" "hi_fanout i = []" "index_len i < 65536"
  shows "snd (sort_index i) = None" "index_ok (fst (sort_index i))"
proof -
  let ?key = "\<lambda>row. slice (hi_ids i) (row * hi_hash_len i) (row * hi_hash_len i + hi_hash_len i)"
  let ?rows = "sort_key ?key [0..<index_len i]"
  have "index_len i \<le> u32_max" using assms(1) by (simp add: ids_ok_def)
  then have s: "sort_index i = (i\<lparr>hi_sorted_rows := ?rows\<rparr>, None)" using assms(3) by (simp add: sort_index_def Let_def)
  show "snd (sort_index i) = None" by (simp add: s)
  have "sorted_wrt (\<lambda>r s. row_key i r \<le> row_key i s) ?rows"
    by (rule sorted_wrt_mono_rel [OF _ sorted_by_key]) (simp add: row_key_slice(1) [OF assms(1)])
  moreover define j where "j = i\<lparr>hi_sorted_rows := ?rows\<rparr>"
  moreover have j: "hi_ids j = hi_ids i" "hi_hash_len j = hi_hash_len i" "hi_parent_offsets j = hi_parent_offsets i"
    "hi_sorted_rows j = ?rows" "hi_fanout j = []"
    by (simp_all add: j_def assms(2))
  moreover have "id_bytes j = id_bytes i" "index_len j = index_len i"
    by (rule id_bytes_cong) (simp_all add: j index_len_def)
  moreover have "ids_ok j" using assms(1) ids_ok_cong [OF j(1-3)] by blast
  ultimately show "index_ok (fst (sort_index i))"
    unfolding s index_ok_def j_def [symmetric] by (simp add: atLeast0LessThan)
qed

lemma keyed_rows_facts:
  assumes "ids_ok i"
  defines "keyed \<equiv> keyed_rows (hi_hash_len i) (hi_ids i) [0..<index_len i]"
  shows "set keyed = (\<lambda>r. (u64_be (take 8 (row_key i r)), r)) ` {..<index_len i}"
    and "distinct (map snd keyed)" "set (map snd keyed) = {..<index_len i}"
    and "sorted_wrt (\<lambda>e f. fst e \<le> fst f \<and> (fst e = fst f \<longrightarrow> row_key i (snd e) \<le> row_key i (snd f))) keyed"
    and "sorted_wrt (\<lambda>r s. row_key i r \<le> row_key i s) (map snd keyed)"
proof -
  let ?h = "hi_hash_len i"
  let ?key = "\<lambda>(pre, row). pre # slice (hi_ids i) (row * ?h) (row * ?h + ?h)"
  let ?es = "map (\<lambda>row. (u64_be (slice (hi_ids i) (row * ?h) (row * ?h + 8)), row)) [0..<index_len i]"
  have keyed: "keyed = sort_key ?key ?es" by (simp add: keyed_def keyed_rows_def)
  show set: "set keyed = (\<lambda>r. (u64_be (take 8 (row_key i r)), r)) ` {..<index_len i}"
    unfolding keyed using row_key_slice(2) [OF assms(1)] by (auto simp: image_iff)
  have "mset (map snd keyed) = mset (map snd ?es)" unfolding keyed by (simp only: mset_map mset_sort)
  also have "map snd ?es = [0..<index_len i]" by (simp add: comp_def)
  finally show "distinct (map snd keyed)" "set (map snd keyed) = {..<index_len i}"
    by (metis distinct_upt mset_eq_imp_distinct_iff, metis atLeast0LessThan atLeastLessThan_upt mset_eq_setD)
  have "sorted_wrt (\<lambda>e f. ?key e \<le> ?key f) keyed" unfolding keyed by (rule sorted_by_key)
  then show sorted: "sorted_wrt (\<lambda>e f. fst e \<le> fst f \<and> (fst e = fst f \<longrightarrow> row_key i (snd e) \<le> row_key i (snd f))) keyed"
    by (rule sorted_wrt_mono_rel [rotated]) (use set row_key_slice(1) [OF assms(1)] in auto)
  have "sorted_wrt (\<lambda>e f. row_key i (snd e) \<le> row_key i (snd f)) keyed"
  proof (rule sorted_wrt_mono_rel [OF _ sorted])
    fix e f assume ef: "e \<in> set keyed" "f \<in> set keyed"
      "fst e \<le> fst f \<and> (fst e = fst f \<longrightarrow> row_key i (snd e) \<le> row_key i (snd f))"
    have ids: "is_id i (row_key i (snd e))" "is_id i (row_key i (snd f))"
      using ef(1,2) set row_key_is_id(1) [OF assms(1)] by auto
    show "row_key i (snd e) \<le> row_key i (snd f)"
    proof (rule ccontr)
      assume greater: "\<not> row_key i (snd e) \<le> row_key i (snd f)"
      then have "take 8 (row_key i (snd f)) \<le> take 8 (row_key i (snd e))"
        using ids by (intro lex_take) (auto simp: is_id_def)
      then have "u64_be (take 8 (row_key i (snd f))) \<le> u64_be (take 8 (row_key i (snd e)))"
        using ids by (intro u64_be_le) (auto simp: is_id_def)
      then show False using ef set greater by auto
    qed
  qed
  then show "sorted_wrt (\<lambda>r s. row_key i r \<le> row_key i s) (map snd keyed)" by (simp add: sorted_wrt_map)
qed

lemma sort_large:
  assumes "ids_ok i" "65536 \<le> index_len i"
  shows "\<exists>keyed. snd (sort_index i) = Some keyed \<and> index_ok (fst (sort_index i)) \<and> keyed_ok (fst (sort_index i), keyed)"
proof -
  define keyed where "keyed = keyed_rows (hi_hash_len i) (hi_ids i) [0..<index_len i]"
  define j where "j = i\<lparr>hi_sorted_rows := map snd keyed, hi_fanout := running_sums (fanout_counts keyed)\<rparr>"
  note facts = keyed_rows_facts [OF assms(1), folded keyed_def]
  have "index_len i \<le> u32_max" using assms(1) by (simp add: ids_ok_def)
  then have s: "sort_index i = (j, Some keyed)"
    using assms(2) unfolding sort_index_def Let_def by (simp add: keyed_def j_def)
  have j: "hi_ids j = hi_ids i" "hi_hash_len j = hi_hash_len i" "hi_parent_offsets j = hi_parent_offsets i"
    "hi_sorted_rows j = map snd keyed" "hi_fanout j = running_sums (fanout_counts keyed)"
    by (simp_all add: j_def)
  have same: "id_bytes j = id_bytes i" "index_len j = index_len i"
    by (rule id_bytes_cong) (simp_all add: j index_len_def)
  have ids: "ids_ok j" using assms(1) ids_ok_cong [OF j(1-3)] by blast
  have bucket: "fst e div 2 ^ 48 = bucket_of (row_key i (snd e))" if "e \<in> set keyed" for e
    using that facts(1) by (auto simp: bucket_of_def)
  have "\<forall>e\<in>set keyed. fst e div 2 ^ 48 < 65536"
  proof
    fix e assume e: "e \<in> set keyed"
    then have "is_id i (row_key i (snd e))" using facts(1) row_key_is_id(1) [OF assms(1)] by auto
    then show "fst e div 2 ^ 48 < 65536" unfolding bucket [OF e] by (intro bucket_of_bound) (simp add: is_id_def)
  qed
  note fan = fanout_table(1) [OF this]
  have counts: "length (filter (\<lambda>r. bucket_of (row_key i r) < k) (map snd keyed)) =
      length (filter (\<lambda>e. fst e div 2 ^ 48 < k) keyed)" for k
    unfolding filter_map length_map comp_def by (rule arg_cong [of _ _ length], rule filter_cong) (simp_all only: bucket comp_def)
  have "index_ok j"
    using facts(2,3,5) ids fan counts unfolding index_ok_def j same by simp
  moreover have "keyed_ok (j, keyed)"
    using facts(1,4) ids fan unfolding keyed_ok_def prod.case j same by simp
  ultimately show ?thesis using s by simp
qed

section \<open>Resolving parents\<close>

definition row_of :: "history_index \<Rightarrow> byte list \<Rightarrow> nat option" where
  "row_of i k = position (\<lambda>r. row_key i r = k) [0..<index_len i]"

definition rank_of :: "history_index \<Rightarrow> byte list \<Rightarrow> nat" where
  "rank_of i k = (case row_of i k of None \<Rightarrow> missing_parent | Some r \<Rightarrow> r)"

lemma row_of_bound: "row_of i k = Some r \<Longrightarrow> r < index_len i \<and> row_key i r = k"
  by (auto simp: row_of_def dest!: position_SomeD)

lemma row_of_row:
  assumes "ids_ok i" "r < index_len i"
  shows "row_of i (row_key i r) = Some r"
proof (cases "row_of i (row_key i r)")
  case None
  then show ?thesis using assms(2) by (auto simp: row_of_def position_None)
next
  case (Some s)
  then show ?thesis
    using row_of_bound [OF Some] assms by (metis ids_ok_def inj_onD lessThan_iff)
qed

definition table_of :: "history_index \<times> keyed_row list option \<Rightarrow> bool" where
  "table_of s \<longleftrightarrow> (case s of (i, None) \<Rightarrow> index_ok i | (i, Some keyed) \<Rightarrow> keyed_ok (i, keyed))"

lemma sort_index_table:
  assumes "ids_ok i" "hi_fanout i = []"
  shows "table_of (sort_index i)" "index_ok (fst (sort_index i))"
proof -
  obtain j keyed where s: "sort_index i = (j, keyed)" by fastforce
  show "table_of (sort_index i)" "index_ok (fst (sort_index i))"
    using sort_small [OF assms] sort_large [OF assms(1)] s
    by (cases "index_len i < 65536"; auto simp: table_of_def)+
qed

lemma parent_rank_of:
  assumes "table_of (i, keyed)" "is_id i p"
  shows "parent_rank i keyed p = rank_of i p"
proof -
  have ids: "ids_ok i" using assms(1) by (auto simp: table_of_def index_ok_def keyed_ok_def split: option.splits)
  have "(case keyed of Some keyed \<Rightarrow> position_in_keyed i keyed p | None \<Rightarrow> position_bytes i p) = row_of i p"
  proof (cases keyed)
    case None
    then show ?thesis
      using by_rows.finds_position [of i p] assms by (simp add: table_of_def row_of_def)
  next
    case (Some ks)
    then show ?thesis
      using by_prefix.finds_position [of "(i, ks)" p] assms by (simp add: table_of_def row_of_def)
  qed
  then show ?thesis
    using ids row_of_bound [of i p] by (auto simp: parent_rank_def rank_of_def ids_ok_def split: option.splits)
qed

lemma parent_rank_cong:
  assumes "hi_ids j = hi_ids i" "hi_hash_len j = hi_hash_len i" "hi_sorted_rows j = hi_sorted_rows i" "hi_fanout j = hi_fanout i"
  shows "parent_rank j = parent_rank i"
proof (intro ext)
  fix keyed p
  note same = id_bytes_cong [OF assms(1,2)] assms
  show "parent_rank j keyed p = parent_rank i keyed p"
    by (cases keyed) (simp_all add: parent_rank_def position_in_keyed_def position_bytes_def same)
qed

definition missing_edges :: "(byte list \<Rightarrow> nat) \<Rightarrow> nat \<Rightarrow> byte list list \<Rightarrow> (nat \<times> byte list) list" where
  "missing_edges rank ix ps = filter (\<lambda>e. rank (snd e) = missing_parent) (zip [ix..<ix + length ps] ps)"

lemma missing_edges_simps [simp]:
  "missing_edges rank ix [] = []"
  "missing_edges rank ix (p # ps) =
    (if rank p = missing_parent then (ix, p) # missing_edges rank (Suc ix) ps else missing_edges rank (Suc ix) ps)"
proof -
  have "[ix..<ix + length (p # ps)] = ix # [Suc ix..<Suc ix + length ps]" by (simp add: upt_conv_Cons del: upt_Suc)
  then show "missing_edges rank ix (p # ps) =
      (if rank p = missing_parent then (ix, p) # missing_edges rank (Suc ix) ps else missing_edges rank (Suc ix) ps)"
    unfolding missing_edges_def by simp
qed (simp add: missing_edges_def)

lemma resolve_parents_result:
  assumes "resolve_parents cancelled keyed ix ps i k = Inr (j, k')" "ix + length ps \<le> u32_max"
  shows "j = i\<lparr>hi_parents := hi_parents i @ map (parent_rank i keyed) ps,
      hi_external_edges := hi_external_edges i @ map fst (missing_edges (parent_rank i keyed) ix ps),
      hi_external_ids := hi_external_ids i @ concat (map snd (missing_edges (parent_rank i keyed) ix ps))\<rparr>"
  using assms
proof (induction ps arbitrary: ix i k)
  case Nil
  then show ?case by simp
next
  case (Cons p ps)
  let ?rank = "parent_rank i keyed p"
  define i' where "i' = (let i = (if ?rank = missing_parent
      then i\<lparr>hi_external_edges := hi_external_edges i @ [u32_cast ix], hi_external_ids := hi_external_ids i @ p\<rparr> else i)
      in i\<lparr>hi_parents := hi_parents i @ [?rank]\<rparr>)"
  obtain k1 where "check_every_1024 cancelled ix k = Inr k1"
    using Cons.prems(1) by (cases "check_every_1024 cancelled ix k") auto
  then have "resolve_parents cancelled keyed (Suc ix) ps i' k1 = Inr (j, k')"
    using Cons.prems(1) by (simp add: i'_def Let_def)
  note j = Cons.IH [OF this]
  have "parent_rank i' = parent_rank i" by (rule parent_rank_cong) (simp_all add: i'_def Let_def)
  then show ?case
    using j Cons.prems(2) by (simp add: i'_def Let_def)
qed

section \<open>The builder\<close>

text \<open>A walked commit, and the tables the builder holds after a list of them.\<close>

record walked_commit =
  wc_id :: "byte list"
  wc_parents :: "byte list list"
  wc_stash :: bool

fun push_all :: "history_index_builder \<Rightarrow> walked_commit list \<Rightarrow> history_error + history_index_builder" where
  "push_all b [] = Inr b"
| "push_all b (c # cs) =
     (case history_builder_push b (wc_id c) (wc_parents c) (wc_stash c) of
        (Inl e, _) \<Rightarrow> Inl e
      | (Inr _, b) \<Rightarrow> push_all b cs)"

definition edges_of :: "walked_commit list \<Rightarrow> byte list list" where
  "edges_of cs = concat (map wc_parents cs)"

definition built :: "utext \<Rightarrow> history_mode \<Rightarrow> nat \<Rightarrow> walked_commit list \<Rightarrow> history_index_builder" where
  "built snapshot mode h cs =
     \<lparr>hb_index = \<lparr>hi_snapshot = snapshot, hi_mode = mode, hi_hash_len = h, hi_ids = concat (map wc_id cs),
        hi_sorted_rows = [], hi_parent_offsets = map (\<lambda>k. length (edges_of (take k cs))) [0..<Suc (length cs)],
        hi_parents = [], hi_external_edges = [], hi_external_ids = [], hi_fanout = [],
        hi_probable_stashes = filter (\<lambda>r. wc_stash (cs ! r)) [0..<length cs]\<rparr>,
      hb_parent_ids = concat (edges_of cs)\<rparr>"

definition lengths_ok :: "nat \<Rightarrow> walked_commit list \<Rightarrow> bool" where
  "lengths_ok h cs \<longleftrightarrow>
     (\<forall>c\<in>set cs. length (wc_id c) = h \<and> (\<forall>p\<in>set (wc_parents c). length p = h)) \<and>
     length cs \<le> u32_max \<and> length (edges_of cs) \<le> u32_max"

lemma edges_of_simps [simp]:
  "edges_of [] = []" "edges_of (c # cs) = wc_parents c @ edges_of cs" "edges_of (cs @ ds) = edges_of cs @ edges_of ds"
  by (simp_all add: edges_of_def)

lemma length_concat_const: "\<forall>x\<in>set xss. length x = h \<Longrightarrow> length (concat xss) = length xss * h"
  by (induction xss) auto

lemma slice_concat_const:
  "\<forall>x\<in>set xss. length x = h \<Longrightarrow> r < length xss \<Longrightarrow> slice (concat xss) (r * h) (r * h + h) = xss ! r"
proof (induction xss arbitrary: r)
  case (Cons xs xss)
  then show ?case by (cases r) (auto simp: slice_def)
qed simp

lemma slice_concat_flat:
  "r < length xss \<Longrightarrow> slice (concat xss) (length (concat (take r xss))) (length (concat (take (Suc r) xss))) = xss ! r"
proof (induction xss arbitrary: r)
  case (Cons xs xss)
  then show ?case by (cases r) (auto simp: slice_def)
qed simp

lemma chunks_exact_concat:
  "0 < h \<Longrightarrow> \<forall>x\<in>set xss. length x = h \<Longrightarrow> chunks_exact h (concat xss) = xss"
proof (induction xss)
  case Nil
  then show ?case by (simp add: chunks_exact.simps)
next
  case (Cons xs xss)
  then show ?case by (subst chunks_exact.simps) auto
qed

lemma extend_parents_True:
  "extend_parents h acc ps = (True, qs) \<Longrightarrow> (\<forall>p\<in>set ps. length p = h) \<and> qs = acc @ concat ps"
  by (induction h acc ps rule: extend_parents.induct) (auto split: if_splits)

lemma builder_new_built:
  "history_builder_new snapshot mode h = Inr b \<Longrightarrow> b = built snapshot mode h [] \<and> (h = 20 \<or> h = 32) \<and> lengths_ok h []"
  by (auto simp: history_builder_new_def built_def lengths_ok_def split: if_splits)

lemma offsets_snoc:
  "map (\<lambda>k. length (edges_of (take k (cs @ [c])))) [0..<Suc (length (cs @ [c]))] =
    map (\<lambda>k. length (edges_of (take k cs))) [0..<Suc (length cs)] @ [length (edges_of cs) + length (wc_parents c)]"
  by simp

lemma stashes_snoc:
  "filter (\<lambda>r. wc_stash ((cs @ [c]) ! r)) [0..<length (cs @ [c])] =
    filter (\<lambda>r. wc_stash (cs ! r)) [0..<length cs] @ (if wc_stash c then [length cs] else [])"
  by (auto simp: nth_append intro: filter_cong)

lemma built_snoc:
  "built snapshot mode h (cs @ [c]) =
    (let b = built snapshot mode h cs; i = hb_index b
     in b\<lparr>hb_index := i\<lparr>hi_ids := hi_ids i @ wc_id c,
            hi_parent_offsets := hi_parent_offsets i @ [length (edges_of cs) + length (wc_parents c)],
            hi_probable_stashes := hi_probable_stashes i @ (if wc_stash c then [length cs] else [])\<rparr>,
          hb_parent_ids := hb_parent_ids b @ concat (wc_parents c)\<rparr>)"
  unfolding built_def offsets_snoc stashes_snoc Let_def by simp

lemma push_built:
  assumes "history_builder_push (built snapshot mode h cs) (wc_id c) (wc_parents c) (wc_stash c) = (Inr (), b)"
    and ok: "lengths_ok h cs" and h: "0 < h"
  shows "b = built snapshot mode h (cs @ [c]) \<and> lengths_ok h (cs @ [c])"
proof -
  let ?b = "built snapshot mode h cs"
  have fields: "hi_hash_len (hb_index ?b) = h" "builder_len ?b = length cs" "hb_parent_ids ?b = concat (edges_of cs)"
    by (simp_all add: built_def builder_len_def index_len_def)
  have edges: "\<forall>p\<in>set (edges_of cs). length p = h" using ok by (auto simp: lengths_ok_def edges_of_def)
  obtain fine qs where ext: "extend_parents h (concat (edges_of cs)) (wc_parents c) = (fine, qs)" by fastforce
  have guards: "length (wc_id c) = h" "length cs < u32_max" fine "length qs div h \<le> u32_max"
    using assms(1) ext by (auto simp: history_builder_push_def fields missing_parent_def Let_def split: if_splits bool.splits)
  then have qs: "\<forall>p\<in>set (wc_parents c). length p = h" "qs = concat (edges_of (cs @ [c]))"
    using extend_parents_True [of h "concat (edges_of cs)" "wc_parents c" qs] ext by auto
  have "\<forall>p\<in>set (edges_of (cs @ [c])). length p = h" using edges qs(1) by (simp add: ball_Un)
  from length_concat_const [OF this] have "length qs = (length (edges_of cs) + length (wc_parents c)) * h"
    unfolding qs(2) by simp
  then have stop: "length qs div h = length (edges_of cs) + length (wc_parents c)" using h by simp
  have "b = built snapshot mode h (cs @ [c])"
    using assms(1) ext guards qs stop
    unfolding built_snoc history_builder_push_def fields Let_def
    by (auto simp: built_def index_len_def missing_parent_def split: if_splits)
  moreover have "lengths_ok h (cs @ [c])" using ok guards qs stop by (auto simp: lengths_ok_def)
  ultimately show ?thesis by simp
qed

lemma push_all_built:
  assumes "push_all (built snapshot mode h cs) ds = Inr b" "lengths_ok h cs" "0 < h"
  shows "b = built snapshot mode h (cs @ ds) \<and> lengths_ok h (cs @ ds)"
  using assms(1,2)
proof (induction ds arbitrary: cs)
  case Nil
  then show ?case by simp
next
  case (Cons d ds)
  obtain b' where p: "history_builder_push (built snapshot mode h cs) (wc_id d) (wc_parents d) (wc_stash d) = (Inr (), b')"
    "push_all b' ds = Inr b"
    using Cons.prems(1) by (auto split: prod.splits sum.splits)
  then show ?case
    using Cons.IH [of "cs @ [d]"] push_built [OF p(1) Cons.prems(2) assms(3)] by simp
qed

section \<open>The finished index\<close>

text \<open>The abstract lookups, on the list of commits.\<close>

definition commit_row :: "walked_commit list \<Rightarrow> byte list \<Rightarrow> nat option" where
  "commit_row cs ident = position (\<lambda>c. wc_id c = ident) cs"

definition commit_rank :: "walked_commit list \<Rightarrow> byte list \<Rightarrow> nat" where
  "commit_rank cs ident = (case commit_row cs ident of None \<Rightarrow> missing_parent | Some r \<Rightarrow> r)"

definition wc_bytes :: "walked_commit \<Rightarrow> bool" where
  "wc_bytes c \<longleftrightarrow> is_bytes (wc_id c) \<and> list_all is_bytes (wc_parents c)"

text \<open>An index that holds a history: every field is the one the abstract history prescribes.\<close>

definition holds :: "history_index \<Rightarrow> walked_commit list \<Rightarrow> bool" where
  "holds i cs \<longleftrightarrow>
     index_ok i \<and> lengths_ok (hi_hash_len i) cs \<and> list_all wc_bytes cs \<and> index_len i = length cs \<and>
     hi_parent_offsets i = map (\<lambda>k. length (edges_of (take k cs))) [0..<Suc (length cs)] \<and>
     (\<forall>r<length cs. row_key i r = wc_id (cs ! r)) \<and>
     hi_parents i = map (commit_rank cs) (edges_of cs) \<and>
     hi_external_edges i = map fst (missing_edges (commit_rank cs) 0 (edges_of cs)) \<and>
     hi_external_ids i = concat (map snd (missing_edges (commit_rank cs) 0 (edges_of cs))) \<and>
     hi_probable_stashes i = filter (\<lambda>r. wc_stash (cs ! r)) [0..<length cs]"

lemma position_map: "position P (map f xs) = position (\<lambda>x. P (f x)) xs"
  by (induction xs) simp_all

lemma position_cong: "(\<And>x. x \<in> set xs \<Longrightarrow> P x = Q x) \<Longrightarrow> position P xs = position Q xs"
  by (induction xs) simp_all

lemma row_of_commits:
  assumes "index_len i = length cs" "\<forall>r<length cs. row_key i r = wc_id (cs ! r)"
  shows "row_of i = commit_row cs" "rank_of i = commit_rank cs"
proof -
  show rows: "row_of i = commit_row cs"
  proof
    fix k
    have "commit_row cs k = position (\<lambda>c. wc_id c = k) (map (\<lambda>r. cs ! r) [0..<length cs])"
      by (simp add: commit_row_def map_nth)
    also have "\<dots> = row_of i k"
      unfolding position_map row_of_def assms(1) by (rule position_cong) (use assms(2) in simp)
    finally show "row_of i k = commit_row cs k" by simp
  qed
  show "rank_of i = commit_rank cs" by (simp add: fun_eq_iff rank_of_def commit_rank_def rows)
qed

lemma missing_edges_cong:
  "(\<And>p. p \<in> set ps \<Longrightarrow> f p = g p) \<Longrightarrow> missing_edges f ix ps = missing_edges g ix ps"
  unfolding missing_edges_def by (rule filter_cong) (auto dest!: set_zip_rightD)

lemma index_ok_cong:
  assumes "hi_ids j = hi_ids i" "hi_hash_len j = hi_hash_len i" "hi_parent_offsets j = hi_parent_offsets i"
    "hi_sorted_rows j = hi_sorted_rows i" "hi_fanout j = hi_fanout i"
  shows "index_ok j = index_ok i"
  unfolding index_ok_def id_bytes_cong [OF assms(1,2)] ids_ok_cong [OF assms(1-3)] assms index_len_def ..

lemma built_ids_ok:
  fixes snapshot :: utext and mode :: history_mode
  assumes "lengths_ok h cs" "h = 20 \<or> h = 32" "list_all wc_bytes cs" "distinct (map wc_id cs)"
  defines "i \<equiv> hb_index (built snapshot mode h cs)"
  shows "ids_ok i" "index_len i = length cs" "\<forall>r<length cs. row_key i r = wc_id (cs ! r)"
proof -
  have f: "hi_hash_len i = h" "hi_ids i = concat (map wc_id cs)" "index_len i = length cs"
    by (simp_all add: i_def built_def index_len_def)
  have h: "\<forall>x\<in>set (map wc_id cs). length x = h" using assms(1) by (auto simp: lengths_ok_def)
  have len: "length (hi_ids i) = index_len i * h" using length_concat_const [OF h] by (simp add: f)
  show "index_len i = length cs" by (fact f)
  show keys: "\<forall>r<length cs. row_key i r = wc_id (cs ! r)"
  proof (intro allI impI)
    fix r assume r: "r < length cs"
    have "length cs * h \<le> usize_max" using usize_rows [of "length cs" h] assms(1,2) by (auto simp: lengths_ok_def)
    moreover have "(r + 1) * h \<le> length cs * h" using r by (intro mult_right_mono) auto
    ultimately show "row_key i r = wc_id (cs ! r)"
      using slice_concat_const [OF h, of r] r len
      by (simp add: id_bytes_def checked_mul_def checked_add_def get_range_def f)
  qed
  have "is_bytes (hi_ids i)" using assms(3) by (auto simp: f is_bytes_def list_all_iff wc_bytes_def)
  moreover have "inj_on (row_key i) {..<index_len i}"
    using assms(4) keys by (auto simp: inj_on_def f distinct_conv_nth)
  ultimately show "ids_ok i" using assms(1,2) len by (auto simp: ids_ok_def f lengths_ok_def)
qed

lemma finish_holds:
  assumes "history_builder_finish cancelled (built snapshot mode h cs) = Inr i"
    and "lengths_ok h cs" "h = 20 \<or> h = 32" "list_all wc_bytes cs" "distinct (map wc_id cs)"
  shows "holds i cs" "hi_hash_len i = h"
proof -
  let ?b = "built snapshot mode h cs" and ?es = "edges_of cs"
  note built = built_ids_ok [OF assms(2-5), of snapshot mode]
  obtain j keyed where s: "sort_index (hb_index ?b) = (j, keyed)" by fastforce
  have fields: "hi_hash_len j = h" "hi_ids j = hi_ids (hb_index ?b)" "hi_hash_len j = hi_hash_len (hb_index ?b)"
    "hi_parent_offsets j = hi_parent_offsets (hb_index ?b)" "hi_parents j = []" "hi_external_edges j = []"
    "hi_external_ids j = []" "hi_probable_stashes j = hi_probable_stashes (hb_index ?b)"
    using s by (auto simp: sort_index_def built_def Let_def split: if_splits)
  have ok: "table_of (j, keyed)" "index_ok j"
    using sort_index_table [OF built(1)] s by (simp_all add: built_def)
  have keys: "index_len j = length cs" "\<forall>r<length cs. row_key j r = wc_id (cs ! r)"
    using built(2,3) fields id_bytes_cong [OF fields(2,3)] by (simp_all add: index_len_def)
  have lens: "\<forall>p\<in>set ?es. length p = h" "\<forall>p\<in>set ?es. is_id j p"
    using assms(2,4) fields(1) by (auto simp: lengths_ok_def edges_of_def is_id_def list_all_iff wc_bytes_def)
  then have chunks: "chunks_exact (hi_hash_len j) (hb_parent_ids ?b) = ?es"
    using chunks_exact_concat [of h ?es] assms(3) fields(1) by (auto simp: built_def)
  have rank: "parent_rank j keyed p = commit_rank cs p" if "p \<in> set ?es" for p
    using parent_rank_of [OF ok(1)] lens(2) that row_of_commits(2) [OF keys] by metis
  obtain k k' where r: "resolve_parents cancelled keyed 0 ?es j k = Inr (i, k')"
    using assms(1) unfolding history_builder_finish_def s prod.case chunks
    by (auto simp: check_cancelled_def split: if_splits elim!: try_then.elims)
  have "length ?es \<le> u32_max" using assms(2) by (simp add: lengths_ok_def)
  with resolve_parents_result [OF r] have i: "i = j\<lparr>hi_parents := map (commit_rank cs) ?es,
      hi_external_edges := map fst (missing_edges (commit_rank cs) 0 ?es),
      hi_external_ids := concat (map snd (missing_edges (commit_rank cs) 0 ?es))\<rparr>"
    using rank missing_edges_cong [OF rank] by (simp add: fields cong: map_cong)
  have "index_ok i" using ok(2) index_ok_cong [of i j] by (simp add: i)
  moreover have "id_bytes i = id_bytes j" by (rule id_bytes_cong) (simp_all add: i)
  ultimately show "holds i cs" "hi_hash_len i = h"
    using keys assms(2,4) fields by (simp_all add: holds_def i index_len_def built_def)
qed

end
