(* ===== verification/History_Queries.thy ===== *)
theory History_Queries
  imports History_Build
begin

text \<open>
  The queries of the history index answer from the abstract history: rows, parents, stashes, full ids
  and abbreviated references.
\<close>

section \<open>Rows and parents\<close>

lemma holds_rows:
  assumes "holds i cs" "r < length cs"
  shows "id_bytes i r = Some (wc_id (cs ! r))" "is_id i (wc_id (cs ! r))"
    and "index_commit_id i r = Returns (Some (hex_encode (wc_id (cs ! r))))"
proof -
  have ids: "ids_ok i" "r < index_len i" "row_key i r = wc_id (cs ! r)"
    using assms by (simp_all add: holds_def index_ok_def)
  show "id_bytes i r = Some (wc_id (cs ! r))" "is_id i (wc_id (cs ! r))"
    using row_key_is_id [OF ids(1,2)] by (simp_all add: ids(3))
  then show "index_commit_id i r = Returns (Some (hex_encode (wc_id (cs ! r))))"
    using ids(1) by (auto simp: index_commit_id_def text_of_id_def encode_object_id_text is_id_def ids_ok_def)
qed

lemma holds_offsets:
  assumes "holds i cs" "r \<le> length cs"
  shows "nth_opt (hi_parent_offsets i) r = Some (length (edges_of (take r cs)))"
  using assms by (simp add: holds_def nth_opt_Some nth_append del: upt_Suc)

lemma slice_edges:
  "r < length cs \<Longrightarrow> slice (edges_of cs) (length (edges_of (take r cs))) (length (edges_of (take (Suc r) cs))) = wc_parents (cs ! r)"
  using slice_concat_flat [of r "map wc_parents cs"] by (simp add: edges_of_def take_map)

lemma holds_parents:
  assumes "holds i cs" "r < length cs"
  shows "index_parents i r = map (commit_rank cs) (wc_parents (cs ! r))"
proof -
  have "r + 1 \<le> usize_max" using assms by (simp add: holds_def lengths_ok_def u32_max_def usize_max_def)
  then show ?thesis
    using holds_offsets [OF assms(1), of r] holds_offsets [OF assms(1), of "r + 1"] assms slice_edges [OF assms(2)]
    by (simp add: index_parents_def checked_add_def map_slice [symmetric] holds_def)
qed

lemma commit_row_bound: "commit_row cs k = Some r \<Longrightarrow> r < length cs \<and> wc_id (cs ! r) = k"
  by (auto simp: commit_row_def dest: position_SomeD)

lemma missing_edges_sorted: "sorted_wrt (\<lambda>e f. fst e < fst f) (missing_edges R n ps)"
proof -
  have "sorted_wrt (<) (map fst (zip [n..<n + length ps] ps))" by simp
  then show ?thesis unfolding missing_edges_def by (intro sorted_wrt_filter) (simp add: sorted_wrt_map del: map_fst_zip)
qed

lemma in_missing_edges: "(e, p) \<in> set (missing_edges R 0 ps) \<longleftrightarrow> e < length ps \<and> ps ! e = p \<and> R p = missing_parent"
proof -
  have "zip [0..<length ps] ps = map (\<lambda>n. (n, ps ! n)) [0..<length ps]"
    by (intro nth_equalityI) simp_all
  then show ?thesis by (auto simp: missing_edges_def)
qed

text \<open>An edge to a commit outside the history finds its id in the table of external ids.\<close>

lemma external_id:
  assumes "holds i cs" "e < length (edges_of cs)" "commit_rank cs (edges_of cs ! e) = missing_parent"
  shows "\<exists>ix. binary_search_by (\<lambda>x. compare x (u32_cast e)) (hi_external_edges i) = Inr ix \<and>
    get_range (hi_external_ids i) (ix * hi_hash_len i) (ix * hi_hash_len i + hi_hash_len i) = Some (edges_of cs ! e)"
proof -
  let ?h = "hi_hash_len i"
  define me where "me = missing_edges (commit_rank cs) 0 (edges_of cs)"
  have ext: "hi_external_edges i = map fst me" "hi_external_ids i = concat (map snd me)"
    using assms(1) by (simp_all add: holds_def me_def)
  have cast: "u32_cast e = e" using assms(1,2) by (simp add: holds_def lengths_ok_def)
  have sorted: "sorted_wrt (<) (map fst me)"
    using missing_edges_sorted by (simp add: me_def sorted_wrt_map)
  have "e \<in> set (map fst me)" using assms(2,3) in_missing_edges [of e] by (force simp: me_def)
  moreover have "sorted_wrt (\<lambda>x y. x \<le> y) (map fst me)" by (rule sorted_wrt_mono_rel [OF _ sorted]) simp
  ultimately obtain ix where ix: "binary_search_by (\<lambda>x. compare x e) (map fst me) = Inr ix"
    using search_by_key_distinct [of "\<lambda>x. x" "map fst me" e e] by auto
  have found: "ix < length me" "fst (me ! ix) = e"
    using search_by_key(1) [of "\<lambda>x. x", OF _ ix] \<open>sorted_wrt (\<lambda>x y. x \<le> y) (map fst me)\<close> by auto
  have "me ! ix \<in> set me" using found(1) by (rule nth_mem)
  then have snd: "snd (me ! ix) = edges_of cs ! e"
    using in_missing_edges [of "fst (me ! ix)" "snd (me ! ix)"] found(2) by (simp add: me_def)
  have "\<forall>p\<in>set (edges_of cs). length p = ?h" using assms(1) by (auto simp: holds_def lengths_ok_def edges_of_def)
  then have lens: "\<forall>p\<in>set (map snd me). length p = ?h"
    unfolding me_def missing_edges_def by (auto dest: set_zip_rightD)
  have "(ix + 1) * ?h \<le> length me * ?h" using found(1) by (intro mult_right_mono) auto
  then have "get_range (concat (map snd me)) (ix * ?h) (ix * ?h + ?h) = Some (edges_of cs ! e)"
    using slice_concat_const [OF lens, of ix] length_concat_const [OF lens] found(1) snd by (simp add: get_range_def)
  then show ?thesis using ix unfolding ext cast by blast
qed

lemma holds_parent_ids:
  assumes "holds i cs" "r < length cs"
  shows "parent_id_bytes i r k = nth_opt (wc_parents (cs ! r)) k"
proof (cases "k < length (wc_parents (cs ! r))")
  case False
  then show ?thesis using holds_parents [OF assms] by (simp add: parent_id_bytes_def)
next
  case True
  let ?p = "wc_parents (cs ! r) ! k" and ?off = "length (edges_of (take r cs))"
  have nth: "nth_opt (index_parents i r) k = Some (commit_rank cs ?p)" using True holds_parents [OF assms] by simp
  show ?thesis
  proof (cases "commit_rank cs ?p = missing_parent")
    case False
    then obtain s where s: "commit_row cs ?p = Some s" by (auto simp: commit_rank_def split: option.splits)
    then have "id_bytes i s = Some ?p" using commit_row_bound [OF s] holds_rows(1) [OF assms(1)] by auto
    then show ?thesis using nth True False s by (simp add: parent_id_bytes_def commit_rank_def)
  next
    case ext: True
    have "slice (edges_of cs) ?off (length (edges_of (take (Suc r) cs))) ! k = ?p"
      using slice_edges [OF assms(2)] by simp
    moreover have "k < length (slice (edges_of cs) ?off (length (edges_of (take (Suc r) cs))))"
      using slice_edges [OF assms(2)] True by simp
    ultimately have edge: "?off + k < length (edges_of cs)" "edges_of cs ! (?off + k) = ?p"
      by (auto simp: nth_slice)
    obtain ix where "binary_search_by (\<lambda>x. compare x (u32_cast (?off + k))) (hi_external_edges i) = Inr ix"
      "get_range (hi_external_ids i) (ix * hi_hash_len i) (ix * hi_hash_len i + hi_hash_len i) = Some ?p"
      using external_id [OF assms(1) edge(1)] ext edge(2) by auto
    then show ?thesis
      using nth ext True holds_offsets [OF assms(1), of r] assms(2) by (simp add: parent_id_bytes_def)
  qed
qed

lemma holds_stash:
  assumes "holds i cs" "r < length cs"
  shows "is_probable_stash i r = wc_stash (cs ! r)"
proof -
  let ?st = "filter (\<lambda>r. wc_stash (cs ! r)) [0..<length cs]"
  have st: "hi_probable_stashes i = ?st" "r \<le> u32_max" using assms by (simp_all add: holds_def lengths_ok_def)
  have sorted: "sorted_wrt (\<lambda>x y. x \<le> y) ?st" by (intro sorted_wrt_filter) simp
  show ?thesis
  proof (cases "binary_search_by (\<lambda>e. compare e r) ?st")
    case (Inl ix)
    then have "r \<notin> set ?st" using search_by_key(2) [OF sorted Inl] by blast
    then show ?thesis using Inl st assms(2) by (simp add: is_probable_stash_def)
  next
    case (Inr ix)
    then have "r \<in> set ?st" using search_by_key(1) [OF sorted Inr] by (metis nth_mem)
    then show ?thesis using Inr st by (simp add: is_probable_stash_def)
  qed
qed

section \<open>Full ids\<close>

lemma decode_pairs_bytes: "decode_pairs ps = Some bs \<Longrightarrow> is_bytes bs"
proof (induction ps arbitrary: bs rule: decode_pairs.induct)
  case (2 a b ps)
  then obtain h l cs where "nibble a = Some h" "nibble b = Some l" "decode_pairs ps = Some cs" "bs = (h * 16 + l) # cs"
    by (auto split: option.splits)
  then show ?case using "2.IH" nibble_bound [of a h] nibble_bound [of b l] by simp
qed simp

lemma hex_decode_facts: "hex_decode hex = Some bs \<Longrightarrow> is_bytes bs \<and> length (as_bytes hex) = length bs * 2"
  by (auto simp: hex_decode_def dest: decode_pairs_bytes decode_pairs_length split: if_splits)

lemma holds_position_bytes:
  assumes "holds i cs" "is_id i k"
  shows "position_bytes i k = commit_row cs k"
proof -
  have "position_bytes i k = row_of i k"
    using by_rows.finds_position [of i k] assms by (simp add: holds_def row_of_def)
  then show ?thesis using row_of_commits(1) [of i cs] assms(1) by (simp add: holds_def)
qed

lemma holds_position:
  assumes "holds i cs"
  shows "index_position i hex = Option.bind (hex_decode hex) (commit_row cs)"
proof (cases "length (as_bytes hex) = hi_hash_len i * 2")
  case False
  have "commit_row cs bs = None" if "hex_decode hex = Some bs" for bs
    using hex_decode_facts [OF that] False assms
    by (auto simp: commit_row_def position_None holds_def lengths_ok_def)
  then show ?thesis using False by (cases "hex_decode hex") (simp_all add: index_position_def)
next
  case True
  have h: "hi_hash_len i \<le> 32" using assms by (auto simp: holds_def index_ok_def ids_ok_def)
  then have decode: "decode_pairs (take 32 (pairs_of (as_bytes hex))) = hex_decode hex"
    using True by (simp add: hex_decode_def)
  show ?thesis
  proof (cases "hex_decode hex")
    case None
    then show ?thesis using True decode by (simp add: index_position_def)
  next
    case (Some bs)
    then have "is_id i bs" using hex_decode_facts [OF Some] True by (simp add: is_id_def)
    then show ?thesis
      using holds_position_bytes [OF assms, of bs] Some True decode by (simp add: index_position_def is_id_def)
  qed
qed

section \<open>Cancellation\<close>

definition checks_between :: "nat \<Rightarrow> nat \<Rightarrow> nat" where
  "checks_between ix n = length (filter (\<lambda>j. j mod 1024 = 0) [ix..<ix + n])"

lemma checks_between_simps [simp]:
  "checks_between ix 0 = 0"
  "checks_between ix (Suc n) = (if ix mod 1024 = 0 then Suc (checks_between (Suc ix) n) else checks_between (Suc ix) n)"
proof -
  have "[ix..<ix + Suc n] = ix # [Suc ix..<Suc ix + n]" by (simp add: upt_conv_Cons del: upt_Suc)
  then show "checks_between ix (Suc n) =
      (if ix mod 1024 = 0 then Suc (checks_between (Suc ix) n) else checks_between (Suc ix) n)"
    unfolding checks_between_def by simp
qed (simp add: checks_between_def)

lemma checks_from_0: "checks_between 0 n = (n + 1023) div 1024"
proof (induction n)
  case (Suc n)
  have "checks_between 0 (Suc n) = checks_between 0 n + (if n mod 1024 = 0 then 1 else 0)"
    by (simp add: checks_between_def)
  moreover have "(Suc n + 1023) div 1024 = (n + 1023) div 1024 + (if n mod 1024 = 0 then 1 else 0)"
  proof -
    obtain q r where n: "n = 1024 * q + r" "r < 1024"
      using mult_div_mod_eq [of 1024 n] mod_less_divisor [of 1024 n] by (metis zero_less_numeral)
    have d: "(1024 * a + b) div 1024 = a" if "b < 1024" for a b :: nat using that by simp
    show ?thesis
    proof (cases "r = 0")
      case True
      then have "n + 1023 = 1024 * q + 1023" "Suc n + 1023 = 1024 * (q + 1) + 0" "n mod 1024 = 0" using n by auto
      then show ?thesis by (simp only: d) simp
    next
      case False
      then have "n + 1023 = 1024 * (q + 1) + (r - 1)" "Suc n + 1023 = 1024 * (q + 1) + r" "n mod 1024 \<noteq> 0" "r - 1 < 1024"
        using n by auto
      then show ?thesis using n(2) by (simp only: d) simp
    qed
  qed
  ultimately show ?case using Suc by simp
qed (simp add: checks_between_def)

lemma resolve_parents_checks:
  "(case resolve_parents cancelled keyed ix ps i k of
      Inl e \<Rightarrow> e = Cancelled \<and> (\<exists>c. k \<le> c \<and> c < k + checks_between ix (length ps) \<and> cancelled c)
    | Inr (j, k') \<Rightarrow> k' = k + checks_between ix (length ps) \<and> (\<forall>c. k \<le> c \<and> c < k' \<longrightarrow> \<not> cancelled c))"
proof (induction ps arbitrary: ix i k)
  case Nil
  then show ?case by auto
next
  case (Cons p ps)
  define i' where "i' = (let rank = parent_rank i keyed p; i = (if rank = missing_parent
      then i\<lparr>hi_external_edges := hi_external_edges i @ [u32_cast ix], hi_external_ids := hi_external_ids i @ p\<rparr> else i)
      in i\<lparr>hi_parents := hi_parents i @ [rank]\<rparr>)"
  have step: "resolve_parents cancelled keyed ix (p # ps) i k =
      try_then (check_every_1024 cancelled ix k) (\<lambda>k. resolve_parents cancelled keyed (Suc ix) ps i' k)"
    by (simp add: i'_def Let_def)
  show ?case
  proof (cases "ix mod 1024 = 0")
    case False
    then show ?thesis
      unfolding step using Cons.IH [where ix = "Suc ix" and i = i' and k = k] by (simp add: check_every_1024_def split: sum.splits prod.splits)
  next
    case True
    show ?thesis
    proof (cases "cancelled k")
      case True
      then show ?thesis
        unfolding step using \<open>ix mod 1024 = 0\<close> by (auto simp: check_every_1024_def check_cancelled_def)
    next
      case False
      then have "k \<le> c \<and> c < n \<longrightarrow> \<not> cancelled c" if "Suc k \<le> c \<and> c < n \<longrightarrow> \<not> cancelled c" for c n
        using that by (cases "c = k") auto
      then show ?thesis
        unfolding step using False True Cons.IH [where ix = "Suc ix" and i = i' and k = "Suc k"]
        by (auto simp: check_every_1024_def check_cancelled_def split: sum.splits) (metis Suc_leD)
    qed
  qed
qed

lemma finish_checks:
  assumes n: "n = length (chunks_exact (hi_hash_len (hb_index b)) (hb_parent_ids b))"
  shows "(case history_builder_finish cancelled b of
      Inl e \<Rightarrow> e = Cancelled \<and> (\<exists>c<checks_between 0 n + 3. cancelled c)
    | Inr i \<Rightarrow> \<forall>c<checks_between 0 n + 3. \<not> cancelled c)"
proof -
  obtain j keyed where s: "sort_index (hb_index b) = (j, keyed)" by fastforce
  then have "hi_hash_len j = hi_hash_len (hb_index b)" by (auto simp: sort_index_def Let_def split: if_splits)
  then have n: "length (chunks_exact (hi_hash_len j) (hb_parent_ids b)) = n" using n by simp
  let ?r = "resolve_parents cancelled keyed 0 (chunks_exact (hi_hash_len j) (hb_parent_ids b)) j 2"
  have fin: "history_builder_finish cancelled b =
      (if cancelled 0 \<or> cancelled 1 then Inl Cancelled
       else try_then ?r (\<lambda>(i, k). if cancelled k then Inl Cancelled else Inr i))"
    unfolding history_builder_finish_def s prod.case
    by (cases ?r) (auto simp: check_cancelled_def numeral_2_eq_2)
  note checks = resolve_parents_checks [where cancelled = cancelled and keyed = keyed and ix = 0 and i = j and k = 2 and
      ps = "chunks_exact (hi_hash_len j) (hb_parent_ids b)", unfolded n]
  have split: "c = 0 \<or> c = 1 \<or> 2 \<le> c" for c :: nat by linarith
  show ?thesis
  proof (cases "cancelled 0 \<or> cancelled 1")
    case True
    then have "\<exists>c<checks_between 0 n + 3. cancelled c"
      by (intro exI [of _ "if cancelled 0 then 0 else 1"]) auto
    then show ?thesis unfolding fin using True by auto
  next
    case False
    show ?thesis
    proof (cases ?r)
      case (Inl e)
      then obtain c where "e = Cancelled" "c < 2 + checks_between 0 n" "cancelled c" using checks by auto
      then have "e = Cancelled" "\<exists>c<checks_between 0 n + 3. cancelled c" by (simp, intro exI [of _ c]) simp_all
      then show ?thesis using Inl False unfolding fin by auto
    next
      case (Inr q)
      then obtain i k where q: "?r = Inr (i, k)" "k = 2 + checks_between 0 n" "\<forall>c. 2 \<le> c \<and> c < k \<longrightarrow> \<not> cancelled c"
        using checks by (cases q) auto
      have "\<not> cancelled c" if "c < k" for c using split [of c] q(3) that False by auto
      then show ?thesis unfolding fin using False q(1,2) by (auto simp: less_Suc_eq eval_nat_numeral)
    qed
  qed
qed

section \<open>Properties\<close>

lemma finished_index_holds:
  assumes "history_builder_new snapshot mode h = Inr b" "push_all b cs = Inr b'" "history_builder_finish cancelled b' = Inr i"
    and "list_all wc_bytes cs" "distinct (map wc_id cs)"
  shows "holds i cs"
proof -
  note new = builder_new_built [OF assms(1)]
  then have "b' = built snapshot mode h cs \<and> lengths_ok h cs"
    using push_all_built [of snapshot mode h "[]" cs b'] assms(2) by auto
  then show ?thesis using finish_holds assms(3-5) new by blast
qed

text \<open>C21: an index built from a walk of commits with distinct ids gives the walk back: it has one row per
  commit, with its id in bytes and as text, the rows of its parents in order, the ids of all of its parents,
  also of those outside the history, and its stash mark; and a text is found exactly when it is the
  hexadecimal id, in either case, of a commit, at the row of the commit. This holds for small
  histories and for those whose lookups go through the table of prefixes.\<close>

theorem index_gives_the_history_back:
  assumes "history_builder_new snapshot mode h = Inr b" "push_all b cs = Inr b'" "history_builder_finish cancelled b' = Inr i"
    and "list_all wc_bytes cs" "distinct (map wc_id cs)"
  shows "index_len i = length cs \<and>
    (\<forall>r<length cs. id_bytes i r = Some (wc_id (cs ! r)) \<and>
      index_commit_id i r = Returns (Some (hex_encode (wc_id (cs ! r)))) \<and>
      index_parents i r = map (commit_rank cs) (wc_parents (cs ! r)) \<and>
      (\<forall>k. parent_id_bytes i r k = nth_opt (wc_parents (cs ! r)) k) \<and>
      is_probable_stash i r = wc_stash (cs ! r)) \<and>
    (\<forall>hex. index_position i hex = Option.bind (hex_decode hex) (commit_row cs))"
  using finished_index_holds [OF assms] holds_rows holds_parents holds_parent_ids holds_stash holds_position
  by (auto simp: holds_def)

text \<open>Two commits, the second the only parent of the first and itself with a parent outside.\<close>

definition example_walk :: "walked_commit list" where
  "example_walk =
     [\<lparr>wc_id = replicate 20 9, wc_parents = [replicate 20 5], wc_stash = False\<rparr>,
      \<lparr>wc_id = replicate 20 5, wc_parents = [replicate 20 1], wc_stash = True\<rparr>]"

definition example_builder :: history_index_builder where
  "example_builder = built [] FullReachable 20 example_walk"

lemma example_built:
  "history_builder_new [] FullReachable 20 = Inr (built [] FullReachable 20 [])"
  "push_all (built [] FullReachable 20 []) example_walk = Inr example_builder"
  "\<exists>i. history_builder_finish (\<lambda>_. False) example_builder = Inr i"
  "list_all wc_bytes example_walk" "distinct (map wc_id example_walk)"
proof -
  show "history_builder_new [] FullReachable 20 = Inr (built [] FullReachable 20 [])"
    by (simp add: history_builder_new_def built_def)
  show "push_all (built [] FullReachable 20 []) example_walk = Inr example_builder"
    by (simp add: example_walk_def example_builder_def built_def history_builder_push_def builder_len_def index_len_def
        missing_parent_def u32_max_def u32_cast_def edges_of_def Let_def)
  show "\<exists>i. history_builder_finish (\<lambda>_. False) example_builder = Inr i"
    using finish_checks [OF refl, where cancelled = "\<lambda>_. False" and b = example_builder] by (auto split: sum.splits)
  show "list_all wc_bytes example_walk" "distinct (map wc_id example_walk)"
    by (simp_all add: example_walk_def wc_bytes_def is_bytes_def list_all_iff)
qed

theorem index_gives_the_history_back_witness:
  "\<exists>i. history_builder_finish (\<lambda>_. False) example_builder = Inr i \<and> index_len i = 2 \<and>
    index_parents i 0 = [1] \<and> index_parents i 1 = [missing_parent] \<and> parent_id_bytes i 1 0 = Some (replicate 20 1)"
proof -
  obtain i where i: "history_builder_finish (\<lambda>_. False) example_builder = Inr i" using example_built(3) by blast
  note all = index_gives_the_history_back [OF example_built(1,2) i example_built(4,5)]
  have "commit_rank example_walk (replicate 20 5) = 1" "commit_rank example_walk (replicate 20 1) = missing_parent"
    by (simp_all add: commit_rank_def commit_row_def example_walk_def replicate_eq_replicate)
  then show ?thesis using all i by (auto simp: example_walk_def nth_opt_def less_Suc_eq numeral_2_eq_2)
qed

text \<open>C25: finishing an index fails only with the error of a cancelled request, exactly when one of its checks
  finds the token cancelled: two around the sort, one for every 1024 parents, and one at the end.\<close>

theorem finish_fails_when_cancelled:
  "history_builder_finish cancelled b = Inl e \<longleftrightarrow>
    e = Cancelled \<and>
    (\<exists>c<(length (chunks_exact (hi_hash_len (hb_index b)) (hb_parent_ids b)) + 1023) div 1024 + 3. cancelled c)"
  using finish_checks [OF refl, where cancelled = cancelled and b = b] unfolding checks_from_0 by (auto split: sum.splits)

end
