(* ===== verification/History_Projection.thy ===== *)
theory History_Projection
  imports History_Queries
begin

text \<open>
  The visibility projection of the history index (\<open>HistoryProjection\<close> of \<open>history_index.rs\<close>): the rows
  that are not hidden, numbered again, and the map from the rows of an old projection to the nearest
  surviving rows of a new one.
\<close>

section \<open>The projection\<close>

record history_projection =
  hp_index :: history_index
  hp_hidden :: "nat list"

definition projection_new :: "history_index \<Rightarrow> nat list \<Rightarrow> history_projection" where
  "projection_new i hidden =
     \<lparr>hp_index = i, hp_hidden = remdups_adj (sort (filter (\<lambda>row. row < index_len i) hidden))\<rparr>"

definition projection_len :: "history_projection \<Rightarrow> nat" where
  "projection_len p = index_len (hp_index p) - length (hp_hidden p)"

definition projection_is_empty :: "history_projection \<Rightarrow> bool" where
  "projection_is_empty p \<longleftrightarrow> projection_len p = 0"

definition visible_position :: "history_projection \<Rightarrow> nat \<Rightarrow> nat option" where
  "visible_position p raw =
     (if index_len (hp_index p) \<le> raw then None
      else let earlier = partition_point (\<lambda>hidden. hidden < raw) (hp_hidden p)
           in if nth_opt (hp_hidden p) earlier = Some raw then None else Some (raw - earlier))"

function displaced_rows :: "nat list \<Rightarrow> nat \<Rightarrow> nat \<Rightarrow> nat \<Rightarrow> nat" where
  "displaced_rows hidden visible lo hi =
     (if lo < hi
      then let mid = lo + (hi - lo) div 2
           in if hidden ! mid - mid \<le> visible then displaced_rows hidden visible (mid + 1) hi
              else displaced_rows hidden visible lo mid
      else lo)"
  by pat_completeness auto
termination
  by (relation "measure (\<lambda>(hidden, visible, lo, hi). hi - lo)") auto

declare displaced_rows.simps [simp del]

definition raw_position :: "history_projection \<Rightarrow> nat \<Rightarrow> nat option" where
  "raw_position p visible =
     (if projection_len p \<le> visible then None
      else Some (visible + displaced_rows (hp_hidden p) visible 0 (length (hp_hidden p))))"

definition visible_position_at_or_after :: "history_projection \<Rightarrow> nat \<Rightarrow> nat" where
  "visible_position_at_or_after p raw =
     (if index_len (hp_index p) \<le> raw then projection_len p
      else raw - partition_point (\<lambda>hidden. hidden < raw) (hp_hidden p))"

definition projection_position :: "history_projection \<Rightarrow> utext \<Rightarrow> nat option" where
  "projection_position p hex = Option.bind (index_position (hp_index p) hex) (visible_position p)"

definition projection_commit_id :: "history_projection \<Rightarrow> nat \<Rightarrow> utext option run" where
  "projection_commit_id p visible =
     (case raw_position p visible of None \<Rightarrow> Returns None | Some raw \<Rightarrow> index_commit_id (hp_index p) raw)"

definition projection_parents :: "history_projection \<Rightarrow> nat \<Rightarrow> nat list" where
  "projection_parents p visible =
     (case raw_position p visible of
        None \<Rightarrow> []
      | Some raw \<Rightarrow> filter_map (visible_position p) (index_parents (hp_index p) raw))"

section \<open>Survivors\<close>

text \<open>The walk over both sorted tables. The inner \<open>while\<close> skips the new rows with smaller ids.\<close>

definition skip_smaller :: "history_index \<Rightarrow> byte list \<Rightarrow> nat \<Rightarrow> nat" where
  "skip_smaller i ident right =
     right + length (takeWhile (\<lambda>row. row_key i row < ident) (drop right (hi_sorted_rows i)))"

fun map_survivors ::
  "(nat \<Rightarrow> bool) \<Rightarrow> history_projection \<Rightarrow> history_projection \<Rightarrow> nat \<Rightarrow> nat list \<Rightarrow> nat \<Rightarrow> nat list \<Rightarrow> nat \<Rightarrow>
    history_error + nat list \<times> nat" where
  "map_survivors cancelled p q ix [] right mapped k = Inr (mapped, k)"
| "map_survivors cancelled p q ix (left_row # rows) right mapped k =
     try_then (check_every_1024 cancelled ix k) (\<lambda>k.
       let ident = row_key (hp_index p) left_row;
           right = skip_smaller (hp_index q) ident right;
           mapped = (case nth_opt (hi_sorted_rows (hp_index q)) right of
               None \<Rightarrow> mapped
             | Some right_row \<Rightarrow>
                 if row_key (hp_index q) right_row = ident
                 then mapped[left_row := (case visible_position q right_row of
                        None \<Rightarrow> missing_parent | Some row \<Rightarrow> u32_cast row)]
                 else mapped)
       in map_survivors cancelled p q (ix + 1) rows right mapped k)"

definition gap_value :: "(nat \<times> nat) option \<Rightarrow> (nat \<times> nat) option \<Rightarrow> nat \<Rightarrow> nat" where
  "gap_value left right ix =
     (case (left, right) of
        (Some (a, row), Some (b, row')) \<Rightarrow> if ix - a < b - ix then row else row'
      | (None, Some (_, row)) \<Rightarrow> row
      | (Some (_, row), None) \<Rightarrow> row
      | (None, None) \<Rightarrow> missing_parent)"

fun fill_gap ::
  "(nat \<Rightarrow> bool) \<Rightarrow> (nat \<times> nat) option \<Rightarrow> (nat \<times> nat) option \<Rightarrow> nat list \<Rightarrow> nat list \<Rightarrow> nat \<Rightarrow>
    history_error + nat list \<times> nat" where
  "fill_gap cancelled left right [] mapped k = Inr (mapped, k)"
| "fill_gap cancelled left right (ix # ixs) mapped k =
     try_then (check_every_1024 cancelled ix k) (\<lambda>k.
       fill_gap cancelled left right ixs (mapped[ix := gap_value left right ix]) k)"

text \<open>The bound \<open>n\<close> is \<open>mapped.len()\<close>, which the loop does not change.\<close>

function fill_gaps :: "(nat \<Rightarrow> bool) \<Rightarrow> nat \<Rightarrow> nat list \<Rightarrow> nat \<Rightarrow> nat \<Rightarrow> history_error + nat list \<times> nat" where
  "fill_gaps cancelled n mapped start k =
     (if n \<le> start then Inr (mapped, k)
      else
        try_then (check_every_1024 cancelled start k) (\<lambda>k.
          if mapped ! start \<noteq> missing_parent then fill_gaps cancelled n mapped (start + 1) k
          else
            let stop = start + 1 + length (takeWhile (\<lambda>row. row = missing_parent) (drop (start + 1) mapped));
                left = (if start = 0 then None else Some (start - 1, mapped ! (start - 1)));
                right = map_option (\<lambda>row. (stop, row)) (nth_opt mapped stop)
            in try_then (fill_gap cancelled left right [start..<stop] mapped k) (\<lambda>(mapped, k).
                 fill_gaps cancelled n mapped stop k)))"
  by pat_completeness auto
termination
  by (relation "measure (\<lambda>(cancelled, n, mapped, start, k). n - start)") auto

declare fill_gaps.simps [simp del]

definition nearest_survivors ::
  "(nat \<Rightarrow> bool) \<Rightarrow> history_projection \<Rightarrow> history_projection \<Rightarrow> history_error + nat list" where
  "nearest_survivors cancelled p q =
     try_then (map_survivors cancelled p q 0 (hi_sorted_rows (hp_index p)) 0
                 (replicate (index_len (hp_index p)) missing_parent) 0) (\<lambda>(mapped, k).
     let mapped = map snd (filter (\<lambda>(raw, _). visible_position p raw \<noteq> None) (zip [0..<length mapped] mapped))
     in try_then (fill_gaps cancelled (length mapped) mapped 0 k) (\<lambda>(mapped, k).
        try_then (check_cancelled cancelled k) (\<lambda>_. Inr mapped)))"

section \<open>Visible rows\<close>

definition hidden_ok :: "history_projection \<Rightarrow> bool" where
  "hidden_ok p \<longleftrightarrow> sorted_wrt (<) (hp_hidden p) \<and> set (hp_hidden p) \<subseteq> {..<index_len (hp_index p)}"

definition visible_rows :: "history_projection \<Rightarrow> nat list" where
  "visible_rows p = filter (\<lambda>r. r \<notin> set (hp_hidden p)) [0..<index_len (hp_index p)]"

lemma strict_remdups_adj: "sorted xs \<Longrightarrow> sorted_wrt (<) (remdups_adj (xs :: nat list))"
  by (induction xs rule: remdups_adj.induct) auto

lemma in_visible_rows: "r \<in> set (visible_rows p) \<longleftrightarrow> r < index_len (hp_index p) \<and> r \<notin> set (hp_hidden p)"
  by (auto simp: visible_rows_def)

lemma projection_new_index [simp]: "hp_index (projection_new i hidden) = i"
  by (simp add: projection_new_def)

lemma projection_new_ok:
  "hidden_ok (projection_new i hidden)" "hp_index (projection_new i hidden) = i"
  "set (hp_hidden (projection_new i hidden)) = set hidden \<inter> {..<index_len i}"
proof -
  let ?s = "sort (filter (\<lambda>row. row < index_len i) hidden)"
  have "sorted_wrt (<) (remdups_adj ?s)" by (rule strict_remdups_adj) simp
  then show "hidden_ok (projection_new i hidden)" by (auto simp: hidden_ok_def projection_new_def)
  show "hp_index (projection_new i hidden) = i" by (simp add: projection_new_def)
  show "set (hp_hidden (projection_new i hidden)) = set hidden \<inter> {..<index_len i}"
    by (auto simp: projection_new_def)
qed

lemma visible_rows_sorted: "sorted_wrt (<) (visible_rows p)"
  unfolding visible_rows_def by (intro sorted_wrt_filter) simp

lemma count_below:
  assumes "hidden_ok p" "r \<le> index_len (hp_index p)"
  shows "length (filter (\<lambda>x. x < r) (visible_rows p)) + length (filter (\<lambda>x. x < r) (hp_hidden p)) = r"
proof -
  let ?h = "hp_hidden p" and ?n = "index_len (hp_index p)"
  have d: "distinct ?h" using assms(1) by (simp add: hidden_ok_def strict_sorted_iff)
  have "length (filter (\<lambda>x. x < r) ?h) = card ({..<r} \<inter> set ?h)"
    using distinct_card [of "filter (\<lambda>x. x < r) ?h"] d by (simp add: Int_def lessThan_def conj_commute)
  moreover have "length (filter (\<lambda>x. x < r) (visible_rows p)) = card ({..<r} - set ?h)"
  proof -
    have "set (filter (\<lambda>x. x < r) (visible_rows p)) = {..<r} - set ?h"
      using assms(2) by (auto simp: visible_rows_def)
    then show ?thesis using distinct_card [of "filter (\<lambda>x. x < r) (visible_rows p)"] by (simp add: visible_rows_def)
  qed
  ultimately show ?thesis using card_Diff_subset_Int [of "{..<r}" "set ?h"] card_mono [of "{..<r}" "{..<r} \<inter> set ?h"] by simp
qed

lemma length_visible_rows:
  assumes "hidden_ok p"
  shows "projection_len p = length (visible_rows p)"
proof -
  have "filter (\<lambda>x. x < index_len (hp_index p)) (visible_rows p) = visible_rows p"
    "filter (\<lambda>x. x < index_len (hp_index p)) (hp_hidden p) = hp_hidden p"
    using assms by (auto simp: hidden_ok_def in_visible_rows intro!: filter_True)
  then show ?thesis using count_below [OF assms order.refl] by (simp add: projection_len_def)
qed

text \<open>In a strictly ordered list, the number of smaller elements is the position of an element.\<close>

lemma strict_sorted_position:
  "sorted_wrt (<) (xs :: nat list) \<Longrightarrow>
    position (\<lambda>x. x = r) xs = (if r \<in> set xs then Some (length (filter (\<lambda>x. x < r) xs)) else None)"
proof (induction xs)
  case (Cons y ys)
  have "r \<in> set ys \<Longrightarrow> y < r" using Cons.prems by simp
  moreover have "filter (\<lambda>x. x < y) ys = []" using Cons.prems by (auto simp: filter_empty_conv)
  ultimately show ?case using Cons by auto
qed simp

lemma strict_sorted_nth:
  "sorted_wrt (<) (xs :: nat list) \<Longrightarrow> r \<in> set xs \<Longrightarrow> nth_opt xs (length (filter (\<lambda>x. x < r) xs)) = Some r"
  using strict_sorted_position [of xs r] by (auto dest: position_SomeD simp: nth_opt_Some)

lemma hidden_count:
  assumes "hidden_ok p"
  shows "partition_point (\<lambda>h. h < r) (hp_hidden p) = length (filter (\<lambda>h. h < r) (hp_hidden p))"
  by (rule partition_point_spec(2), rule sorted_wrt_mono_rel [of _ "(<)"]) (use assms in \<open>auto simp: hidden_ok_def\<close>)

lemma visible_position_rows:
  assumes "hidden_ok p"
  shows "visible_position p r = position (\<lambda>x. x = r) (visible_rows p)"
proof (cases "r < index_len (hp_index p)")
  case False
  then have "position (\<lambda>x. x = r) (visible_rows p) = None" by (auto simp: position_None in_visible_rows)
  then show ?thesis using False by (simp add: visible_position_def)
next
  case True
  let ?c = "length (filter (\<lambda>h. h < r) (hp_hidden p))"
  have s: "sorted_wrt (<) (hp_hidden p)" using assms by (simp add: hidden_ok_def)
  have "nth_opt (hp_hidden p) ?c = Some r \<longleftrightarrow> r \<in> set (hp_hidden p)"
    using strict_sorted_nth [OF s] nth_mem by (metis nth_opt_Some)
  moreover have "r \<in> set (visible_rows p) \<longleftrightarrow> r \<notin> set (hp_hidden p)" using True by (simp add: visible_rows_def)
  moreover have "r - ?c = length (filter (\<lambda>x. x < r) (visible_rows p))"
    using count_below [OF assms, of r] True by simp
  ultimately show ?thesis
    using True by (simp add: visible_position_def Let_def hidden_count [OF assms]
        strict_sorted_position [OF visible_rows_sorted])
qed

lemma visible_at_or_after_rows:
  assumes "hidden_ok p"
  shows "visible_position_at_or_after p r = length (filter (\<lambda>x. x < r) (visible_rows p))"
proof (cases "r < index_len (hp_index p)")
  case True
  then show ?thesis
    using count_below [OF assms, of r] by (simp add: visible_position_at_or_after_def hidden_count [OF assms])
next
  case False
  then have "filter (\<lambda>x. x < r) (visible_rows p) = visible_rows p" by (auto simp: in_visible_rows intro!: filter_True)
  then show ?thesis using False length_visible_rows [OF assms] by (simp add: visible_position_at_or_after_def)
qed

lemma strictly_increasing_gap:
  assumes "sorted_wrt (<) (xs :: nat list)" "i \<le> j" "j < length xs"
  shows "xs ! i + (j - i) \<le> xs ! j"
  using assms(2,3)
proof (induction j rule: dec_induct)
  case (step j)
  have "xs ! j < xs ! Suc j" using assms(1) step.prems by (simp add: sorted_wrt_nth_less)
  then show ?case using step by simp
qed simp

lemma displaced_rows_spec:
  assumes "sorted_wrt (<) hidden" "hi \<le> length hidden" "lo \<le> hi"
    and "\<forall>k<lo. hidden ! k \<le> v + k" "\<forall>k. hi \<le> k \<and> k < length hidden \<longrightarrow> v + k < hidden ! k"
  shows "displaced_rows hidden v lo hi \<le> length hidden \<and>
    (\<forall>k<displaced_rows hidden v lo hi. hidden ! k \<le> v + k) \<and>
    (\<forall>k. displaced_rows hidden v lo hi \<le> k \<and> k < length hidden \<longrightarrow> v + k < hidden ! k)"
  using assms
proof (induction hidden v lo hi rule: displaced_rows.induct)
  case (1 hidden v lo hi)
  show ?case
  proof (cases "lo < hi")
    case False
    then show ?thesis using "1.prems" by (simp add: displaced_rows.simps [of _ _ hi])
  next
    case True
    define mid where "mid = lo + (hi - lo) div 2"
    have mid: "lo \<le> mid" "mid < hi" using True by (auto simp: mid_def)
    show ?thesis
    proof (cases "hidden ! mid - mid \<le> v")
      case le: True
      have "hidden ! k \<le> v + k" if "k < mid + 1" for k
      proof -
        have "hidden ! k + (mid - k) \<le> hidden ! mid"
          using strictly_increasing_gap [OF "1.prems"(1), of k mid] that mid "1.prems"(2) by simp
        then show ?thesis using le that by linarith
      qed
      moreover have "displaced_rows hidden v lo hi = displaced_rows hidden v (mid + 1) hi"
        using True le by (simp add: displaced_rows.simps [of _ _ lo] mid_def Let_def)
      ultimately show ?thesis
        using "1.IH"(1) [OF True mid_def le "1.prems"(1,2) _ _ "1.prems"(5)] mid by simp
    next
      case gt: False
      have "v + k < hidden ! k" if "mid \<le> k" "k < length hidden" for k
        using strictly_increasing_gap [OF "1.prems"(1), of mid k] that gt by linarith
      moreover have "displaced_rows hidden v lo hi = displaced_rows hidden v lo mid"
        using True gt by (simp add: displaced_rows.simps [of _ _ lo] mid_def Let_def)
      ultimately show ?thesis
        using "1.IH"(2) [OF True mid_def gt "1.prems"(1) _ _ "1.prems"(4)] "1.prems"(2) mid by simp
    qed
  qed
qed

lemma raw_position_rows:
  assumes "hidden_ok p"
  shows "raw_position p v = nth_opt (visible_rows p) v"
proof (cases "v < projection_len p")
  case False
  then show ?thesis using length_visible_rows [OF assms] by (simp add: raw_position_def)
next
  case True
  let ?h = "hp_hidden p" and ?n = "index_len (hp_index p)"
  define d where "d = displaced_rows ?h v 0 (length ?h)"
  have s: "sorted_wrt (<) ?h" using assms by (simp add: hidden_ok_def)
  have d: "d \<le> length ?h" "\<forall>k<d. ?h ! k \<le> v + k" "\<forall>k. d \<le> k \<and> k < length ?h \<longrightarrow> v + k < ?h ! k"
    using displaced_rows_spec [OF s, of "length ?h" 0 v] by (simp_all add: d_def)
  have split: "?h ! k < v + d \<and> k < d \<or> v + d < ?h ! k \<and> d \<le> k" if "k < length ?h" for k
  proof (cases "k < d")
    case True
    then have "?h ! k \<le> v + k" using d(2) by simp
    then show ?thesis using True by linarith
  next
    case False
    then have "v + k < ?h ! k" using d(3) that by simp
    then show ?thesis using False by linarith
  qed
  have take: "x < v + d" if x: "x \<in> set (take d ?h)" for x
  proof -
    obtain k where "k < d" "k < length ?h" "x = ?h ! k" using x d(1) by (auto simp: in_set_conv_nth)
    then show ?thesis using split [of k] by linarith
  qed
  have drop: "v + d < x" if x: "x \<in> set (drop d ?h)" for x
  proof -
    obtain k where k: "k < length ?h - d" "x = ?h ! (d + k)" using x by (auto simp: in_set_conv_nth)
    then have "d + k < length ?h" by simp
    then show ?thesis using split [of "d + k"] k(2) by linarith
  qed
  have lows: "filter (\<lambda>x. x < v + d) (take d ?h) = take d ?h" using take by (simp add: filter_id_conv)
  have highs: "filter (\<lambda>x. x < v + d) (drop d ?h) = []" using drop by (fastforce simp: filter_empty_conv)
  have "filter (\<lambda>x. x < v + d) (take d ?h @ drop d ?h) = take d ?h" by (simp only: filter_append lows highs append_Nil2)
  then have count: "length (filter (\<lambda>x. x < v + d) ?h) = d" using d(1) by simp
  have "v + d \<notin> set (take d ?h)" "v + d \<notin> set (drop d ?h)" using take [of "v + d"] drop [of "v + d"] by auto
  then have "v + d \<notin> set (take d ?h @ drop d ?h)" by (simp only: set_append Un_iff simp_thms)
  then have "v + d \<notin> set ?h" by simp
  moreover have "v + d < ?n" using True d(1) by (simp add: projection_len_def)
  ultimately have "v + d \<in> set (visible_rows p)" "length (filter (\<lambda>x. x < v + d) (visible_rows p)) = v"
    using count_below [OF assms, of "v + d"] count by (simp_all add: visible_rows_def)
  then have "nth_opt (visible_rows p) v = Some (v + d)"
    using strict_sorted_nth [OF visible_rows_sorted, of "v + d" p] by simp
  then show ?thesis using True by (simp add: raw_position_def d_def)
qed

section \<open>The walk over both tables\<close>

definition survivor :: "history_projection \<Rightarrow> history_projection \<Rightarrow> nat \<Rightarrow> nat" where
  "survivor p q raw =
     (case Option.bind (row_of (hp_index q) (row_key (hp_index p) raw)) (visible_position q) of
        None \<Rightarrow> missing_parent
      | Some row \<Rightarrow> row)"

lemma skip_smaller_spec:
  assumes "\<forall>s<right. row_key i (hi_sorted_rows i ! s) < ident"
  defines "right' \<equiv> skip_smaller i ident right"
  shows "s < right' \<Longrightarrow> row_key i (hi_sorted_rows i ! s) < ident"
    and "right' < length (hi_sorted_rows i) \<Longrightarrow> \<not> row_key i (hi_sorted_rows i ! right') < ident"
proof -
  let ?P = "\<lambda>row. row_key i row < ident" and ?d = "drop right (hi_sorted_rows i)"
  have r: "right' = right + length (takeWhile ?P ?d)" by (simp add: right'_def skip_smaller_def)
  show "row_key i (hi_sorted_rows i ! s) < ident" if "s < right'"
  proof (cases "s < right")
    case False
    then have k: "s - right < length (takeWhile ?P ?d)" using that r by simp
    then have "takeWhile ?P ?d ! (s - right) = hi_sorted_rows i ! s"
      using False length_takeWhile_le [of ?P ?d] by (simp add: takeWhile_nth)
    then show ?thesis using nth_mem [OF k] set_takeWhileD by metis
  qed (use assms in simp)
  show "\<not> row_key i (hi_sorted_rows i ! right') < ident" if "right' < length (hi_sorted_rows i)"
    using nth_length_takeWhile [of ?P ?d] that r by simp
qed

text \<open>Where the walk stops is the row with the id, if there is one.\<close>

lemma stops_at_row:
  assumes ok: "index_ok i" and before: "\<forall>s<right. row_key i (hi_sorted_rows i ! s) < ident"
    and stop: "right < length (hi_sorted_rows i) \<Longrightarrow> \<not> row_key i (hi_sorted_rows i ! right) < ident"
  shows "(nth_opt (hi_sorted_rows i) right = Some r \<and> row_key i r = ident) \<longleftrightarrow> row_of i ident = Some r"
proof
  note tables = ok [unfolded index_ok_def]
  assume r: "nth_opt (hi_sorted_rows i) right = Some r \<and> row_key i r = ident"
  then have "r < index_len i" using tables by (auto simp: nth_opt_Some dest!: nth_mem)
  then show "row_of i ident = Some r" using row_of_row [of i r] r tables by simp
next
  note tables = ok [unfolded index_ok_def]
  assume "row_of i ident = Some r"
  then have r: "r < index_len i" "row_key i r = ident" using row_of_bound by blast+
  then obtain s where s: "s < length (hi_sorted_rows i)" "hi_sorted_rows i ! s = r"
    using tables by (metis in_set_conv_nth lessThan_iff)
  have "\<not> s < right" using before r(2) s(2) by fastforce
  then have right: "right < length (hi_sorted_rows i)" using s(1) by linarith
  have "row_key i (hi_sorted_rows i ! right) \<le> ident"
  proof (cases "s = right")
    case False
    then have "right < s" using \<open>\<not> s < right\<close> by simp
    moreover have "sorted_wrt (\<lambda>r s. row_key i r \<le> row_key i s) (hi_sorted_rows i)" using tables by blast
    ultimately have "row_key i (hi_sorted_rows i ! right) \<le> row_key i (hi_sorted_rows i ! s)"
      using sorted_wrt_nth_less s(1) by metis
    then show ?thesis using s(2) r(2) by simp
  qed (use s r in simp)
  then have "row_key i (hi_sorted_rows i ! right) = ident" using stop [OF right] by simp
  moreover have "hi_sorted_rows i ! right \<in> set (hi_sorted_rows i)" using right by simp
  ultimately have "hi_sorted_rows i ! right = r"
    using tables r unfolding ids_ok_def by (metis inj_onD lessThan_iff)
  then show "nth_opt (hi_sorted_rows i) right = Some r \<and> row_key i r = ident" using right r(2) by simp
qed

lemma map_survivors_result:
  assumes "index_ok (hp_index q)" "map_survivors cancelled p q ix rows right mapped k = Inr (m, k')"
    and "sorted_wrt (\<lambda>r s. row_key (hp_index p) r \<le> row_key (hp_index p) s) rows" "distinct rows"
    and "\<forall>l\<in>set rows. l < length mapped \<and> mapped ! l = missing_parent"
    and "\<forall>l\<in>set rows. \<forall>s<right. row_key (hp_index q) (hi_sorted_rows (hp_index q) ! s) < row_key (hp_index p) l"
  shows "length m = length mapped \<and>
    (\<forall>l<length mapped. m ! l = (if l \<in> set rows then survivor p q l else mapped ! l))"
  using assms(2-)
proof (induction rows arbitrary: ix right mapped k)
  case Nil
  then show ?case by simp
next
  case (Cons l rows)
  let ?i = "hp_index q"
  define ident where "ident = row_key (hp_index p) l"
  define right' where "right' = skip_smaller ?i ident right"
  define mapped' where "mapped' = (case nth_opt (hi_sorted_rows ?i) right' of
      None \<Rightarrow> mapped
    | Some r \<Rightarrow> if row_key ?i r = ident then mapped[l := (case visible_position q r of
        None \<Rightarrow> missing_parent | Some row \<Rightarrow> u32_cast row)] else mapped)"
  have "\<forall>s<right. row_key ?i (hi_sorted_rows ?i ! s) < ident" using Cons.prems(5) by (simp add: ident_def)
  note skip = skip_smaller_spec [OF this, folded right'_def]
  have found: "(nth_opt (hi_sorted_rows ?i) right' = Some r \<and> row_key ?i r = ident) \<longleftrightarrow> row_of ?i ident = Some r" for r
    by (rule stops_at_row [OF assms(1)]) (use skip in auto)
  have cast: "u32_cast row = row" if "visible_position q r = Some row" for r row
    using that assms(1) by (auto simp: visible_position_def index_ok_def ids_ok_def Let_def split: if_splits)
  have mapped': "mapped' = mapped[l := survivor p q l]"
  proof (cases "row_of ?i ident")
    case None
    then have "mapped' = mapped" using found by (auto simp: mapped'_def split: option.splits)
    moreover have "survivor p q l = missing_parent" using None by (simp add: survivor_def ident_def)
    moreover have "mapped ! l = missing_parent" using Cons.prems(4) by simp
    ultimately show ?thesis by (metis list_update_id)
  next
    case (Some r)
    then have "nth_opt (hi_sorted_rows ?i) right' = Some r" "row_key ?i r = ident" using found by blast+
    moreover have "survivor p q l = (case visible_position q r of None \<Rightarrow> missing_parent | Some row \<Rightarrow> row)"
      using Some by (simp add: survivor_def ident_def)
    ultimately show ?thesis using cast by (auto simp: mapped'_def split: option.splits)
  qed
  obtain k1 where k1: "check_every_1024 cancelled ix k = Inr k1"
    using Cons.prems(1) by (cases "check_every_1024 cancelled ix k") auto
  then have rest: "map_survivors cancelled p q (Suc ix) rows right' mapped' k1 = Inr (m, k')"
    using Cons.prems(1) unfolding mapped'_def right'_def ident_def by (simp add: Let_def)
  have "\<forall>l'\<in>set rows. \<forall>s<right'. row_key ?i (hi_sorted_rows ?i ! s) < row_key (hp_index p) l'"
    using skip(1) Cons.prems(2) by (fastforce simp: ident_def intro: order.strict_trans2)
  moreover have "\<forall>l'\<in>set rows. l' < length mapped' \<and> mapped' ! l' = missing_parent"
    using Cons.prems(3,4) by (auto simp: mapped' nth_list_update)
  ultimately have "length m = length mapped' \<and>
      (\<forall>l<length mapped'. m ! l = (if l \<in> set rows then survivor p q l else mapped' ! l))"
    using Cons.IH [OF rest] Cons.prems(2,3) by simp
  then show ?case using Cons.prems(3,4) by (auto simp: mapped' nth_list_update)
qed

section \<open>Filling the gaps\<close>

fun prev_kept :: "nat list \<Rightarrow> nat \<Rightarrow> nat option" where
  "prev_kept S 0 = None"
| "prev_kept S (Suc v) = (if S ! v \<noteq> missing_parent then Some v else prev_kept S v)"

definition next_kept :: "nat list \<Rightarrow> nat \<Rightarrow> nat option" where
  "next_kept S v = find (\<lambda>b. S ! b \<noteq> missing_parent) [Suc v..<length S]"

definition nearest_kept :: "nat list \<Rightarrow> nat \<Rightarrow> nat" where
  "nearest_kept S v =
     (if S ! v \<noteq> missing_parent then S ! v
      else gap_value (map_option (\<lambda>a. (a, S ! a)) (prev_kept S v)) (map_option (\<lambda>b. (b, S ! b)) (next_kept S v)) v)"

lemma prev_kept_gap:
  "\<forall>w. start \<le> w \<and> w < v \<longrightarrow> S ! w = missing_parent \<Longrightarrow> start \<le> v \<Longrightarrow> prev_kept S v = prev_kept S start"
proof (induction v)
  case (Suc v)
  then show ?case by (cases "start = Suc v") auto
qed simp

lemma prev_kept_spec:
  "case prev_kept S v of
     None \<Rightarrow> \<forall>w<v. S ! w = missing_parent
   | Some a \<Rightarrow> a < v \<and> S ! a \<noteq> missing_parent \<and> (\<forall>w. a < w \<and> w < v \<longrightarrow> S ! w = missing_parent)"
proof (induction v)
  case (Suc v)
  then show ?case by (auto split: option.splits simp: less_Suc_eq)
qed simp

lemma next_kept_spec:
  "case next_kept S v of
     None \<Rightarrow> \<forall>w. v < w \<and> w < length S \<longrightarrow> S ! w = missing_parent
   | Some b \<Rightarrow> v < b \<and> b < length S \<and> S ! b \<noteq> missing_parent \<and> (\<forall>w. v < w \<and> w < b \<longrightarrow> S ! w = missing_parent)"
proof (cases "next_kept S v")
  case None
  then have "\<forall>w. v < w \<and> w < length S \<longrightarrow> S ! w = missing_parent" by (auto simp: next_kept_def find_None_iff)
  then show ?thesis using None by simp
next
  case (Some b)
  then obtain j where j: "j < length [Suc v..<length S]" "S ! ([Suc v..<length S] ! j) \<noteq> missing_parent"
    "b = [Suc v..<length S] ! j" "\<forall>i<j. S ! ([Suc v..<length S] ! i) = missing_parent"
    by (auto simp: next_kept_def find_Some_iff simp del: upt_Suc)
  have "S ! w = missing_parent" if "v < w" "w < b" for w
  proof -
    have "w - Suc v < j" "[Suc v..<length S] ! (w - Suc v) = w" using that j(1,3) by auto
    then show ?thesis using j(4) by metis
  qed
  then show ?thesis using Some j by auto
qed

lemma fill_gap_result:
  "fill_gap cancelled left right ixs mapped k = Inr (m, k') \<Longrightarrow> distinct ixs \<Longrightarrow> \<forall>x\<in>set ixs. x < length mapped \<Longrightarrow>
    length m = length mapped \<and> (\<forall>v<length mapped. m ! v = (if v \<in> set ixs then gap_value left right v else mapped ! v))"
proof (induction ixs arbitrary: mapped k)
  case (Cons ix ixs)
  obtain k1 where "check_every_1024 cancelled ix k = Inr k1"
    using Cons.prems(1) by (cases "check_every_1024 cancelled ix k") auto
  then have "fill_gap cancelled left right ixs (mapped[ix := gap_value left right ix]) k1 = Inr (m, k')"
    using Cons.prems(1) by simp
  from Cons.IH [OF this] show ?case using Cons.prems(2,3) by (auto simp: nth_list_update)
qed simp

lemma gap_end:
  assumes "start < length xs" "xs ! start = missing_parent"
  defines "stop \<equiv> start + 1 + length (takeWhile (\<lambda>row. row = missing_parent) (drop (start + 1) xs))"
  shows "start < stop" "stop \<le> length xs" "start \<le> v \<Longrightarrow> v < stop \<Longrightarrow> xs ! v = missing_parent"
    and "stop < length xs \<Longrightarrow> xs ! stop \<noteq> missing_parent"
proof -
  let ?P = "\<lambda>row. row = missing_parent" and ?d = "drop (start + 1) xs"
  show "start < stop" by (simp add: stop_def)
  show "stop \<le> length xs" using length_takeWhile_le [of ?P ?d] assms(1) by (simp add: stop_def)
  show "xs ! v = missing_parent" if "start \<le> v" "v < stop"
  proof (cases "v = start")
    case False
    then have k: "v - (start + 1) < length (takeWhile ?P ?d)" using that by (simp add: stop_def)
    then have "takeWhile ?P ?d ! (v - (start + 1)) = xs ! v"
      using that False length_takeWhile_le [of ?P ?d] by (simp add: takeWhile_nth)
    then show ?thesis using nth_mem [OF k] set_takeWhileD by metis
  qed (use assms(2) in simp)
  show "xs ! stop \<noteq> missing_parent" if "stop < length xs"
    using nth_length_takeWhile [of ?P ?d] that by (simp add: stop_def)
qed

lemma next_kept_gap:
  assumes "v < stop" "\<forall>w. v \<le> w \<and> w < stop \<longrightarrow> S ! w = missing_parent" "stop \<le> length S"
    and "stop < length S \<Longrightarrow> S ! stop \<noteq> missing_parent"
  shows "next_kept S v = (if stop < length S then Some stop else None)"
proof (cases "next_kept S v")
  case None
  then show ?thesis using next_kept_spec [where S = S and v = v] assms by (cases "stop < length S") auto
next
  case (Some b)
  then have b: "v < b" "b < length S" "S ! b \<noteq> missing_parent" "\<forall>w. v < w \<and> w < b \<longrightarrow> S ! w = missing_parent"
    using next_kept_spec [where S = S and v = v] by simp_all
  then have "\<not> b < stop" using assms(2) by auto
  moreover have "\<not> stop < b" using b assms(1,4) by auto
  ultimately have "b = stop" by simp
  then show ?thesis using Some b(2) by simp
qed

lemma fill_gaps_result:
  assumes "fill_gaps cancelled n mapped start k = Inr (m, k')" "length mapped = n" "length S = n"
    and "\<forall>v<n. mapped ! v = (if v < start then nearest_kept S v else S ! v)"
    and "start = 0 \<or> n \<le> start \<or> S ! (start - 1) \<noteq> missing_parent \<or> S ! start \<noteq> missing_parent"
  shows "length m = n \<and> (\<forall>v<n. m ! v = nearest_kept S v)"
  using assms(1,2,4,5)
proof (induction "n - start" arbitrary: mapped start k rule: less_induct)
  case less
  show ?case
  proof (cases "n \<le> start")
    case True
    then show ?thesis using less.prems by (simp add: fill_gaps.simps [of _ n])
  next
    case False
    then obtain k1 where k1: "check_every_1024 cancelled start k = Inr k1"
      using less.prems(1) by (cases "check_every_1024 cancelled start k") (auto simp: fill_gaps.simps [of _ n])
    have here: "mapped ! start = S ! start" using less.prems(3) False by simp
    show ?thesis
    proof (cases "S ! start = missing_parent")
      case kept: False
      then have "fill_gaps cancelled n mapped (Suc start) k1 = Inr (m, k')"
        using less.prems(1) k1 False here by (simp add: fill_gaps.simps [of _ n _ start])
      moreover have "\<forall>v<n. mapped ! v = (if v < Suc start then nearest_kept S v else S ! v)"
        using less.prems(3) kept by (auto simp: less_Suc_eq nearest_kept_def)
      ultimately show ?thesis using less.hyps [of "Suc start" mapped k1] less.prems(2) False kept by simp
    next
      case gap: True
      define stop where "stop = start + 1 + length (takeWhile (\<lambda>row. row = missing_parent) (drop (start + 1) mapped))"
      define left where "left = (if start = 0 then None else Some (start - 1, mapped ! (start - 1)))"
      define right where "right = map_option (\<lambda>row. (stop, row)) (nth_opt mapped stop)"
      have ends: "start < stop" "stop \<le> n" "stop < n \<Longrightarrow> S ! stop \<noteq> missing_parent"
        "\<And>v. start \<le> v \<Longrightarrow> v < stop \<Longrightarrow> S ! v = missing_parent"
        using gap_end [of start mapped, folded stop_def] False gap here less.prems(2,3) by auto
      obtain m1 k2 where m1: "fill_gap cancelled left right [start..<stop] mapped k1 = Inr (m1, k2)"
        "fill_gaps cancelled n m1 stop k2 = Inr (m, k')"
        using less.prems(1) k1 False here gap
        by (cases "fill_gap cancelled left right [start..<stop] mapped k1")
          (auto simp: fill_gaps.simps [of _ n _ start] Let_def stop_def left_def right_def)
      have filled: "length m1 = n" "v < n \<Longrightarrow> m1 ! v = (if start \<le> v \<and> v < stop then gap_value left right v else mapped ! v)" for v
        using fill_gap_result [OF m1(1)] ends(2) less.prems(2) by auto
      have left: "left = map_option (\<lambda>a. (a, S ! a)) (prev_kept S start)"
        using less.prems(3,4) gap False by (cases start) (auto simp: left_def nearest_kept_def)
      have near: "nearest_kept S v = gap_value left right v" if v: "start \<le> v" "v < stop" for v
      proof -
        have "prev_kept S v = prev_kept S start" by (rule prev_kept_gap) (use ends(4) v in auto)
        moreover have "next_kept S v = (if stop < length S then Some stop else None)"
          by (rule next_kept_gap) (use ends v assms(3) in auto)
        moreover have "right = (if stop < n then Some (stop, S ! stop) else None)"
          using less.prems(2,3) ends(1) by (simp add: right_def)
        ultimately show ?thesis using ends(4) [OF v] assms(3) by (simp add: nearest_kept_def left)
      qed
      have "\<forall>v<n. m1 ! v = (if v < stop then nearest_kept S v else S ! v)"
        using filled(2) near less.prems(3) ends(1) by auto
      moreover have "n - stop < n - start" using ends(1) False by linarith
      moreover have "stop = 0 \<or> n \<le> stop \<or> S ! (stop - 1) \<noteq> missing_parent \<or> S ! stop \<noteq> missing_parent"
        using ends(3) by (cases "stop < n") auto
      ultimately show ?thesis using less.hyps [OF _ m1(2) filled(1)] by blast
    qed
  qed
qed

lemma nearest_survivors_result:
  assumes "index_ok (hp_index p)" "index_ok (hp_index q)" "hidden_ok p" "nearest_survivors cancelled p q = Inr m"
  defines "S \<equiv> map (survivor p q) (visible_rows p)"
  shows "length m = length S \<and> (\<forall>v<length S. m ! v = nearest_kept S v)"
proof -
  let ?n = "index_len (hp_index p)" and ?sr = "hi_sorted_rows (hp_index p)"
  note tables = assms(1) [unfolded index_ok_def]
  obtain mapped k where ms: "map_survivors cancelled p q 0 ?sr 0 (replicate ?n missing_parent) 0 = Inr (mapped, k)"
    using assms(4) by (cases "map_survivors cancelled p q 0 ?sr 0 (replicate ?n missing_parent) 0")
      (auto simp: nearest_survivors_def)
  have mapped: "length mapped = ?n" "\<forall>l<?n. mapped ! l = survivor p q l"
    using map_survivors_result [OF assms(2) ms] tables by auto
  define kept where "kept = map snd (filter (\<lambda>(raw, _). visible_position p raw \<noteq> None) (zip [0..<length mapped] mapped))"
  have "zip [0..<length mapped] mapped = map (\<lambda>r. (r, mapped ! r)) [0..<?n]"
    by (rule nth_equalityI) (simp_all add: mapped(1))
  moreover have "visible_position p r \<noteq> None \<longleftrightarrow> r \<in> set (visible_rows p)" for r
    unfolding visible_position_rows [OF assms(3)] by (simp add: position_None)
  ultimately have "kept = map (\<lambda>r. mapped ! r) (filter (\<lambda>r. r \<in> set (visible_rows p)) [0..<?n])"
    unfolding kept_def by (simp add: filter_map comp_def)
  also have "filter (\<lambda>r. r \<in> set (visible_rows p)) [0..<?n] = visible_rows p"
    unfolding visible_rows_def by (rule filter_cong) auto
  also have "map (\<lambda>r. mapped ! r) (visible_rows p) = S"
    unfolding S_def by (rule map_cong) (use mapped(2) in \<open>auto simp: in_visible_rows\<close>)
  finally have kept: "kept = S" .
  have "nearest_survivors cancelled p q = try_then (fill_gaps cancelled (length S) S 0 k)
      (\<lambda>(mapped, k). try_then (check_cancelled cancelled k) (\<lambda>_. Inr mapped))"
    unfolding nearest_survivors_def ms try_then.simps prod.case Let_def kept_def [symmetric] kept ..
  then obtain k' where "fill_gaps cancelled (length S) S 0 k = Inr (m, k')"
    using assms(4) by (cases "fill_gaps cancelled (length S) S 0 k") (auto simp: check_cancelled_def split: if_splits)
  then show ?thesis by (rule fill_gaps_result) simp_all
qed

definition abs_diff :: "nat \<Rightarrow> nat \<Rightarrow> nat" where
  "abs_diff a b = (a - b) + (b - a)"

lemma nearest_kept_nearest:
  assumes "v < length S" "u0 < length S" "S ! u0 \<noteq> missing_parent"
  shows "\<exists>u<length S. S ! u \<noteq> missing_parent \<and> nearest_kept S v = S ! u \<and>
    (\<forall>w<length S. S ! w \<noteq> missing_parent \<longrightarrow> abs_diff v u < abs_diff v w \<or> abs_diff v u = abs_diff v w \<and> w \<le> u)"
proof (cases "S ! v = missing_parent")
  case False
  then show ?thesis using assms(1) by (intro exI [of _ v]) (auto simp: nearest_kept_def abs_diff_def)
next
  case True
  have sides: "w < v \<or> v < w" if "S ! w \<noteq> missing_parent" for w using that True by (cases w v rule: linorder_cases) auto
  show ?thesis
  proof (cases "prev_kept S v"; cases "next_kept S v")
    assume "prev_kept S v = None" "next_kept S v = None"
    then show ?thesis using prev_kept_spec [where S = S and v = v] next_kept_spec [where S = S and v = v] sides [OF assms(3)] assms(2,3) by auto
  next
    fix b assume p: "prev_kept S v = None" "next_kept S v = Some b"
    then have "v < b" "b < length S" "S ! b \<noteq> missing_parent" "\<And>w. S ! w \<noteq> missing_parent \<Longrightarrow> b \<le> w"
      using prev_kept_spec [where S = S and v = v] next_kept_spec [where S = S and v = v] sides by (auto, metis linorder_not_le)
    then show ?thesis using p True by (intro exI [of _ b]) (force simp: nearest_kept_def gap_value_def abs_diff_def)
  next
    fix a assume p: "prev_kept S v = Some a" "next_kept S v = None"
    then have "a < v" "S ! a \<noteq> missing_parent" "\<And>w. w < length S \<Longrightarrow> S ! w \<noteq> missing_parent \<Longrightarrow> w \<le> a"
      using prev_kept_spec [where S = S and v = v] next_kept_spec [where S = S and v = v] sides by (auto, metis linorder_not_le)
    then show ?thesis using p True assms(1) by (intro exI [of _ a]) (force simp: nearest_kept_def gap_value_def abs_diff_def)
  next
    fix a b assume p: "prev_kept S v = Some a" "next_kept S v = Some b"
    then have ab: "a < v" "S ! a \<noteq> missing_parent" "v < b" "b < length S" "S ! b \<noteq> missing_parent"
      "\<And>w. S ! w \<noteq> missing_parent \<Longrightarrow> w \<le> a \<or> b \<le> w"
      using prev_kept_spec [where S = S and v = v] next_kept_spec [where S = S and v = v] sides by (auto, metis linorder_not_le)
    define u where "u = (if v - a < b - v then a else b)"
    have "nearest_kept S v = S ! u" using p True by (simp add: nearest_kept_def gap_value_def u_def)
    moreover have "abs_diff v u < abs_diff v w \<or> abs_diff v u = abs_diff v w \<and> w \<le> u" if "S ! w \<noteq> missing_parent" for w
      using ab(6) [OF that] ab(1,3) by (auto simp: abs_diff_def u_def)
    ultimately show ?thesis using ab by (intro exI [of _ u]) (auto simp: u_def)
  qed
qed

lemma nearest_kept_nothing: "\<forall>u<length S. S ! u = missing_parent \<Longrightarrow> v < length S \<Longrightarrow> nearest_kept S v = missing_parent"
  using prev_kept_spec [where S = S and v = v] next_kept_spec [where S = S and v = v]
  by (cases "prev_kept S v"; cases "next_kept S v") (auto simp: nearest_kept_def gap_value_def)

lemma check_every_error: "check_every_1024 cancelled ix k = Inl e \<Longrightarrow> e = Cancelled \<and> (\<exists>k. cancelled k)"
  by (auto simp: check_every_1024_def check_cancelled_def split: if_splits)

lemma map_survivors_error:
  "map_survivors cancelled p q ix rows right mapped k = Inl e \<Longrightarrow> e = Cancelled \<and> (\<exists>k. cancelled k)"
proof (induction rows arbitrary: ix right mapped k)
  case (Cons l rows)
  then show ?case by (cases "check_every_1024 cancelled ix k") (auto simp: Let_def dest: check_every_error)
qed simp

lemma fill_gap_error: "fill_gap cancelled left right ixs mapped k = Inl e \<Longrightarrow> e = Cancelled \<and> (\<exists>k. cancelled k)"
proof (induction ixs arbitrary: mapped k)
  case (Cons ix ixs)
  then show ?case by (cases "check_every_1024 cancelled ix k") (auto dest: check_every_error)
qed simp

lemma fill_gaps_error: "fill_gaps cancelled n mapped start k = Inl e \<Longrightarrow> e = Cancelled \<and> (\<exists>k. cancelled k)"
proof (induction "n - start" arbitrary: mapped start k rule: less_induct)
  case less
  then have n: "\<not> n \<le> start" by (auto simp: fill_gaps.simps [of _ n])
  show ?case
  proof (cases "check_every_1024 cancelled start k")
    case (Inl e')
    then show ?thesis using less.prems n check_every_error by (simp add: fill_gaps.simps [of _ n _ start])
  next
    case (Inr k1)
    define stop where "stop = start + 1 + length (takeWhile (\<lambda>row. row = missing_parent) (drop (start + 1) mapped))"
    have smaller: "n - Suc start < n - start" "n - stop < n - start" using n by (auto simp: stop_def)
    show ?thesis
    proof (cases "mapped ! start = missing_parent")
      case False
      then have "fill_gaps cancelled n mapped (Suc start) k1 = Inl e"
        using less.prems n Inr by (simp add: fill_gaps.simps [of _ n _ start])
      then show ?thesis using less.hyps smaller(1) by blast
    next
      case True
      define filled where "filled = fill_gap cancelled (if start = 0 then None else Some (start - 1, mapped ! (start - 1)))
        (map_option (\<lambda>row. (stop, row)) (nth_opt mapped stop)) [start..<stop] mapped k1"
      have "try_then filled (\<lambda>(mapped, k). fill_gaps cancelled n mapped stop k) = Inl e"
        using less.prems n Inr True by (simp add: fill_gaps.simps [of _ n _ start] Let_def filled_def stop_def)
      then show ?thesis
        using less.hyps smaller(2) fill_gap_error by (cases filled) (auto simp: filled_def [symmetric], (metis filled_def)+)
    qed
  qed
qed

lemma nearest_survivors_error:
  assumes "nearest_survivors cancelled p q = Inl e"
  shows "e = Cancelled \<and> (\<exists>k. cancelled k)"
proof (cases "map_survivors cancelled p q 0 (hi_sorted_rows (hp_index p)) 0 (replicate (index_len (hp_index p)) missing_parent) 0")
  case (Inl e')
  then show ?thesis using assms map_survivors_error [OF Inl] by (simp add: nearest_survivors_def)
next
  case (Inr r)
  obtain mapped k where r: "r = (mapped, k)" by fastforce
  define kept where "kept = map snd (filter (\<lambda>(raw, _). visible_position p raw \<noteq> None) (zip [0..<length mapped] mapped))"
  have "nearest_survivors cancelled p q = try_then (fill_gaps cancelled (length kept) kept 0 k)
      (\<lambda>(mapped, k). try_then (check_cancelled cancelled k) (\<lambda>_. Inr mapped))"
    unfolding nearest_survivors_def Inr r try_then.simps prod.case Let_def kept_def [symmetric] ..
  then show ?thesis
    using assms fill_gaps_error [of cancelled "length kept" kept 0 k e]
    by (cases "fill_gaps cancelled (length kept) kept 0 k") (auto simp: check_cancelled_def split: if_splits)
qed

section \<open>Commits in a projection\<close>

lemma position_distinct: "distinct xs \<Longrightarrow> v < length xs \<Longrightarrow> position (\<lambda>x. x = xs ! v) xs = Some v"
proof (induction xs arbitrary: v)
  case (Cons x xs)
  then show ?case by (cases v) (auto simp: nth_mem)
qed simp

text \<open>A shown commit is found by its text at the index that shows it.\<close>

lemma projection_finds_commits:
  assumes "holds i cs" "hidden_ok p" "hp_index p = i" "v < projection_len p"
  shows "\<exists>hex. projection_commit_id p v = Returns (Some hex) \<and> projection_position p hex = Some v"
proof -
  let ?r = "visible_rows p ! v"
  have v: "v < length (visible_rows p)" using length_visible_rows [OF assms(2)] assms(4) by simp
  then have r: "?r < length cs" "?r \<in> set (visible_rows p)"
    using in_visible_rows [of ?r p] nth_mem [OF v] assms(1,3) by (simp_all add: holds_def)
  let ?hex = "hex_encode (wc_id (cs ! ?r))"
  have "is_bytes (wc_id (cs ! ?r))" using holds_rows(2) [OF assms(1) r(1)] by (simp add: is_id_def)
  moreover have "commit_row cs (wc_id (cs ! ?r)) = Some ?r"
    using row_of_row [of i ?r] row_of_commits(1) [of i cs] assms(1) r(1) by (simp add: holds_def index_ok_def)
  ultimately have "index_position i ?hex = Some ?r" using holds_position [OF assms(1)] by (simp add: hex_decode_encode)
  moreover have "visible_position p ?r = Some v"
    unfolding visible_position_rows [OF assms(2)] using visible_rows_sorted v
    by (intro position_distinct) (simp_all add: strict_sorted_iff)
  ultimately show ?thesis
    using holds_rows(3) [OF assms(1) r(1)] raw_position_rows [OF assms(2), of v] v assms(3)
    by (intro exI [of _ ?hex]) (simp add: projection_commit_id_def projection_position_def)
qed

section \<open>Properties\<close>

text \<open>C23: a projection numbers the rows that are not hidden in order: its length is their number, the raw
  position of a visible index is the row with that number, the visible position of a row is its number,
  or nothing when it is hidden or not a row, and the visible position at or after a row counts the visible
  rows before it. So the two positions are inverse to each other.\<close>

theorem projection_numbers_visible_rows:
  fixes i hidden
  defines "p \<equiv> projection_new i hidden" and "rows \<equiv> filter (\<lambda>r. r \<notin> set hidden) [0..<index_len i]"
  shows "projection_len p = length rows \<and>
    raw_position p = nth_opt rows \<and>
    visible_position p = (\<lambda>raw. position (\<lambda>r. r = raw) rows) \<and>
    visible_position_at_or_after p = (\<lambda>raw. length (filter (\<lambda>r. r < raw) rows))"
proof -
  note ok = projection_new_ok [of i hidden, folded p_def]
  have rows: "visible_rows p = rows" unfolding visible_rows_def rows_def ok(2,3) by (rule filter_cong) auto
  show ?thesis
    using length_visible_rows [OF ok(1)] raw_position_rows [OF ok(1)] visible_position_rows [OF ok(1)]
      visible_at_or_after_rows [OF ok(1)] by (simp add: rows fun_eq_iff)
qed

text \<open>C22: when a history is refreshed, every visible row of the old projection is mapped to the visible
  row of the same commit in the new one, and when that commit is gone or hidden, to the new row of the nearest
  old row that survives, the later one of two at the same distance; only when none survives is it
  mapped to nothing. The map is refused only when the request is cancelled.\<close>

theorem rows_move_to_nearest_survivors:
  assumes "index_ok (hp_index p)" "index_ok (hp_index q)" "hidden_ok p"
  defines "S \<equiv> map (survivor p q) (visible_rows p)"
  shows "case nearest_survivors cancelled p q of
      Inl e \<Rightarrow> e = Cancelled \<and> (\<exists>k. cancelled k)
    | Inr m \<Rightarrow> length m = projection_len p \<and>
        (\<forall>v<projection_len p.
          if \<forall>u<projection_len p. S ! u = missing_parent then m ! v = missing_parent
          else \<exists>u<projection_len p. S ! u \<noteq> missing_parent \<and> m ! v = S ! u \<and>
            (\<forall>w<projection_len p. S ! w \<noteq> missing_parent \<longrightarrow>
              abs_diff v u < abs_diff v w \<or> abs_diff v u = abs_diff v w \<and> w \<le> u))"
proof -
  have len: "length S = projection_len p" using length_visible_rows [OF assms(3)] by (simp add: S_def)
  show ?thesis
  proof (cases "nearest_survivors cancelled p q")
    case (Inl e)
    then show ?thesis using nearest_survivors_error by auto
  next
    case (Inr m)
    note result = nearest_survivors_result [OF assms(1-3) Inr, folded S_def, unfolded len]
    show ?thesis
    proof (cases "\<forall>u<projection_len p. S ! u = missing_parent")
      case True
      then show ?thesis using Inr result nearest_kept_nothing [of S] len by simp
    next
      case False
      then obtain u0 where "u0 < length S" "S ! u0 \<noteq> missing_parent" using len by auto
      note near = nearest_kept_nearest [OF _ this, unfolded len]
      show ?thesis unfolding Inr sum.case if_not_P [OF False] using result near by metis
    qed
  qed
qed

text \<open>Two rows, of which the new projection hides the second.\<close>

theorem rows_move_to_nearest_survivors_witness:
  "\<exists>i. history_builder_finish (\<lambda>_. False) example_builder = Inr i \<and>
    nearest_survivors (\<lambda>_. False) (projection_new i []) (projection_new i [1]) = Inr [0, 0]"
proof -
  obtain i where i: "history_builder_finish (\<lambda>_. False) example_builder = Inr i" using example_built(3) by blast
  have "holds i example_walk" by (rule finished_index_holds [OF example_built(1,2) i example_built(4,5)])
  then have ok: "index_ok i" "index_len i = 2" by (simp_all add: holds_def example_walk_def)
  let ?p = "projection_new i []" and ?q = "projection_new i [1]"
  note p = projection_new_ok [of i "[]"] and q = projection_new_ok [of i "[1]"]
  have rows: "visible_rows ?p = [0, 1]" "visible_rows ?q = [0]"
    using p(2,3) q(2,3) by (simp_all add: visible_rows_def ok(2) numeral_2_eq_2)
  have "row_of i (row_key i 0) = Some 0" "row_of i (row_key i 1) = Some 1"
    using row_of_row [of i] ok by (simp_all add: index_ok_def)
  moreover have "visible_position ?q 0 = Some 0" "visible_position ?q 1 = None"
    unfolding visible_position_rows [OF q(1)] rows by simp_all
  ultimately have S: "map (survivor ?p ?q) (visible_rows ?p) = [0, missing_parent]"
    unfolding rows by (simp add: survivor_def)
  have len: "projection_len ?p = 2" using length_visible_rows [OF p(1)] rows(1) by simp
  have missing: "missing_parent \<noteq> 0" by (simp add: missing_parent_def u32_max_def)
  obtain m where m: "nearest_survivors (\<lambda>_. False) ?p ?q = Inr m"
    using nearest_survivors_error [of "\<lambda>_. False" ?p ?q] by (cases "nearest_survivors (\<lambda>_. False) ?p ?q") auto
  have two: "(\<forall>v<2. P v) = (P 0 \<and> P 1)" "(\<exists>v<2. P v) = (P 0 \<or> P 1)" for P :: "nat \<Rightarrow> bool"
    by (auto simp: less_2_cases_iff)
  have "length m = 2 \<and> m ! 0 = 0 \<and> m ! 1 = 0"
    using rows_move_to_nearest_survivors [OF _ _ p(1), where q = ?q and cancelled = "\<lambda>_. False",
        unfolded S len m sum.case two projection_new_index, OF ok(1) ok(1)] missing by simp
  then have "m = [0, 0]" by (intro nth_equalityI) (auto simp: less_2_cases_iff)
  then show ?thesis using i m by blast
qed

end
