(* ===== verification/History_Reference.thy ===== *)
theory History_Reference
  imports History_Queries
begin

text \<open>
  Abbreviated references of the history index (\<open>HistoryIndex::resolve_reference\<close>): the least and the
  greatest id with the given digits enclose exactly the ids that start with them, so the two probes
  of the sorted rows decide whether there is exactly one.
\<close>

section \<open>Bounds of a prefix\<close>

lemma zeros_least: "length k = n \<Longrightarrow> replicate n 0 \<le> (k :: nat list)"
proof (induction n arbitrary: k)
  case (Suc n)
  then show ?case by (cases k) auto
qed simp

lemma ones_greatest: "length k = n \<Longrightarrow> is_bytes k \<Longrightarrow> k \<le> replicate n 255"
proof (induction n arbitrary: k)
  case (Suc n)
  then show ?case by (cases k) auto
qed simp

text \<open>Between two lists with a common prefix are the lists with that prefix and a rest in between.\<close>

lemma between_prefix:
  assumes "length P \<le> length k"
  shows "P @ xs \<le> k \<and> k \<le> P @ ys \<longleftrightarrow>
    take (length P) k = P \<and> xs \<le> drop (length P) k \<and> drop (length P) k \<le> (ys :: nat list)"
  using assms
proof (induction P arbitrary: k)
  case (Cons b P)
  then show ?case by (cases k) auto
qed simp

definition has_digits :: "byte list \<Rightarrow> byte list \<Rightarrow> bool" where
  "has_digits k digits \<longleftrightarrow> starts_with (hex_encode k) (map ascii_lowercase digits)"

lemma pair_value:
  assumes "b < 256"
  shows "hex_pair b = [ascii_lowercase x, ascii_lowercase y] \<longleftrightarrow>
    (\<exists>h l. nibble x = Some h \<and> nibble y = Some l \<and> b = h * 16 + l)" (is "?l = ?r")
proof
  assume ?l
  then show ?r unfolding nibble_lowercase hex_pair_def using assms
    by (intro exI [of _ "b div 16"] exI [of _ "b mod 16"]) auto
next
  assume ?r
  then show ?l unfolding nibble_lowercase hex_pair_def by auto
qed

lemma has_digits_simps:
  "has_digits k []"
  "has_digits [] (x # ds) = False"
  "b < 256 \<Longrightarrow> has_digits (b # k) [x] \<longleftrightarrow> nibble x = Some (b div 16)"
  "b < 256 \<Longrightarrow> has_digits (b # k) (x # y # ds) \<longleftrightarrow>
    (\<exists>h l. nibble x = Some h \<and> nibble y = Some l \<and> b = h * 16 + l) \<and> has_digits k ds"
proof -
  show "has_digits (b # k) [x] \<longleftrightarrow> nibble x = Some (b div 16)" if "b < 256"
    using that by (auto simp: has_digits_def starts_with_prefix hex_pair_def nibble_lowercase)
  show "has_digits (b # k) (x # y # ds) \<longleftrightarrow>
      (\<exists>h l. nibble x = Some h \<and> nibble y = Some l \<and> b = h * 16 + l) \<and> has_digits k ds" if "b < 256"
    unfolding pair_value [OF that, symmetric]
    by (auto simp: has_digits_def starts_with_prefix hex_pair_def)
qed (simp_all add: has_digits_def starts_with_prefix)

lemma pairs_induct [case_names pair empty single]:
  assumes "\<And>x y xs. P xs \<Longrightarrow> P (x # y # xs)" "P []" "\<And>x. P [x]"
  shows "P xs"
  by (induction xs rule: pairs_of.induct) (use assms in auto)

lemma prefix_bounds_spec:
  assumes "length P = j" "is_bytes P" "2 * j + length ds < 2 * h" "h \<le> 32" "length k = h" "is_bytes k"
  shows "case prefix_bounds (2 * j) ds (P @ replicate (32 - j) 0) (P @ replicate (32 - j) 255) of
      None \<Rightarrow> \<not> has_digits (drop j k) ds
    | Some (lower, upper) \<Rightarrow>
        take h lower \<le> k \<and> k \<le> take h upper \<longleftrightarrow> take j k = P \<and> has_digits (drop j k) ds"
  using assms
proof (induction ds arbitrary: P j rule: pairs_induct)
  case (pair x y ds)
  have j: "j < h" "32 - j = Suc (32 - Suc j)" using pair.prems by auto
  obtain b k' where k': "drop j k = b # k'" "drop (Suc j) k = k'" "k ! j = b"
    using j(1) pair.prems(5) by (metis Cons_nth_drop_Suc)
  have b: "b < 256" using pair.prems(6) k'(1) by (metis is_bytes_simps(2) is_bytes_sub(2))
  show ?case
  proof (cases "nibble x"; cases "nibble y")
    fix h' l' assume n: "nibble x = Some h'" "nibble y = Some l'"
    let ?P = "P @ [h' * 16 + l']"
    have step: "prefix_bounds (2 * j) (x # y # ds) (P @ replicate (32 - j) 0) (P @ replicate (32 - j) 255) =
        prefix_bounds (2 * Suc j) ds (?P @ replicate (32 - Suc j) 0) (?P @ replicate (32 - Suc j) 255)"
      using n pair.prems(1) j(2) by (simp add: list_update_append nth_append)
    have "h' * 16 + l' < 256" using nibble_bound [OF n(1)] nibble_bound [OF n(2)] by simp
    moreover have "take (Suc j) k = ?P \<and> has_digits (drop (Suc j) k) ds \<longleftrightarrow>
        take j k = P \<and> has_digits (drop j k) (x # y # ds)"
      using j(1) pair.prems(1,5) k' n b by (auto simp: has_digits_simps take_Suc_conv_app_nth)
    ultimately show ?thesis
      using pair.IH [of ?P "Suc j"] pair.prems n k' b unfolding step
      by (auto simp: has_digits_simps split: option.splits)
  qed (use k' b in \<open>auto simp: has_digits_simps\<close>)
next
  case empty
  have "take h (P @ replicate (32 - j) c) = P @ replicate (h - j) (c :: nat)" for c
    using empty.prems by (simp add: min_def)
  then show ?case
    using empty.prems between_prefix [of P k "replicate (h - j) 0" "replicate (h - j) 255"]
      zeros_least [of "drop j k" "h - j"] ones_greatest [of "drop j k" "h - j"]
    by (simp add: has_digits_simps)
next
  case (single x)
  have j: "j < h" "32 - j = Suc (32 - Suc j)" "h - j = Suc (h - Suc j)" using single.prems by auto
  obtain b k' where k': "drop j k = b # k'" "length k' = h - Suc j"
    using j(1) single.prems(5) by (metis Cons_nth_drop_Suc length_drop)
  have b: "b < 256" "is_bytes k'" using single.prems(6) k'(1) by (metis is_bytes_simps(2) is_bytes_sub(2))+
  show ?case
  proof (cases "nibble x")
    case None
    then show ?thesis using k' b by (simp add: has_digits_simps)
  next
    case (Some d)
    have take: "take h (P @ c # replicate (32 - Suc j) e) = P @ c # replicate (h - Suc j) (e :: nat)" for c e
      using single.prems(1,4) j by (simp add: min_def)
    have "d * 16 \<le> b \<and> b \<le> d * 16 + 15 \<longleftrightarrow> b div 16 = d" by (auto simp: div_nat_eqI)
    then have "d * 16 # replicate (h - Suc j) 0 \<le> b # k' \<and> b # k' \<le> (d * 16 + 15) # replicate (h - Suc j) 255 \<longleftrightarrow>
        b div 16 = d"
      using zeros_least [OF k'(2)] ones_greatest [OF k'(2) b(2)] by auto
    then have between: "P @ d * 16 # replicate (h - Suc j) 0 \<le> k \<and> k \<le> P @ (d * 16 + 15) # replicate (h - Suc j) 255 \<longleftrightarrow>
        take j k = P \<and> b div 16 = d"
      using between_prefix [of P k "d * 16 # replicate (h - Suc j) 0" "(d * 16 + 15) # replicate (h - Suc j) 255"]
        single.prems(1,5) j(1) unfolding single.prems(1) k'(1) by simp
    have "prefix_bounds (2 * j) [x] (P @ replicate (32 - j) 0) (P @ replicate (32 - j) 255) =
        Some (P @ d * 16 # replicate (32 - Suc j) 0, P @ (d * 16 + 15) # replicate (32 - Suc j) 255)"
      using Some single.prems(1) j(2) by (simp add: list_update_append)
    moreover have "has_digits (drop j k) [x] \<longleftrightarrow> b div 16 = d"
      unfolding k'(1) has_digits_simps(3) [OF b(1)] Some by auto
    ultimately show ?thesis using between by (simp only: option.case prod.case take)
  qed
qed

section \<open>The only row between two bounds\<close>

lemma only_between:
  fixes key :: "nat \<Rightarrow> byte list" and lo up :: "byte list"
  assumes "sorted_wrt (\<lambda>r s. key r \<le> key s) rows"
  defines "start \<equiv> partition_point (\<lambda>r. key r < lo) rows"
  shows "(case nth_opt rows start of
      None \<Rightarrow> None
    | Some r \<Rightarrow>
        if key r > up then None
        else (case nth_opt rows (start + 1) of
                Some s \<Rightarrow> if key s \<le> up then None else Some r
              | None \<Rightarrow> Some r)) =
    (case filter (\<lambda>r. lo \<le> key r \<and> key r \<le> up) rows of [r] \<Rightarrow> Some r | _ \<Rightarrow> None)"
proof -
  let ?low = "filter (\<lambda>r. key r < lo) rows" and ?high = "filter (\<lambda>r. lo \<le> key r) rows"
  have "start = length ?low"
    unfolding start_def by (rule partition_point_spec(2), rule sorted_wrt_mono_rel [OF _ assms(1)]) auto
  moreover have rows: "rows = ?low @ ?high"
    using assms(1)
  proof (induction rows)
    case (Cons r rows)
    show ?case
    proof (cases "key r < lo")
      case False
      then have "filter (\<lambda>r. key r < lo) rows = []" using Cons.prems by (auto simp: filter_empty_conv)
      then show ?thesis using False Cons by (auto simp: filter_id_conv linorder_not_less)
    qed (use Cons in auto)
  qed simp
  ultimately have nth: "nth_opt rows (start + n) = nth_opt ?high n" for n
    by (metis (no_types, lifting) length_append nat_add_left_cancel_less nth_append_length_plus nth_opt_def)
  have filter: "filter (\<lambda>r. lo \<le> key r \<and> key r \<le> up) rows = filter (\<lambda>r. key r \<le> up) ?high"
    by (simp add: conj_commute)
  have sorted: "sorted_wrt (\<lambda>r s. key r \<le> key s) ?high" using assms(1) by (rule sorted_wrt_filter)
  show ?thesis
  proof (cases ?high)
    case Nil
    then show ?thesis using nth [of 0] filter by simp
  next
    case (Cons r high)
    have none: "filter (\<lambda>r. key r \<le> up) xs = []" if "\<And>s. s \<in> set xs \<Longrightarrow> up < key s" for xs
      using that by (auto simp: filter_empty_conv linorder_not_le)
    have above: "filter (\<lambda>r. key r \<le> up) high = []" if "up < key r"
      by (rule none) (use that sorted Cons in \<open>auto intro: order.strict_trans2\<close>)
    show ?thesis
    proof (cases high)
      case Nil
      then show ?thesis using nth [of 0] nth [of 1] filter Cons by (auto simp: linorder_not_less)
    next
      case more: (Cons s high')
      have "filter (\<lambda>r. key r \<le> up) high' = []" if "up < key s"
        by (rule none) (use that sorted Cons more in \<open>auto intro: order.strict_trans2\<close>)
      then show ?thesis
        using nth [of 0] nth [of 1] filter Cons more above by (auto simp: linorder_not_less)
    qed
  qed
qed

definition the_only :: "'a list \<Rightarrow> 'a option" where
  "the_only xs = (case xs of [x] \<Rightarrow> Some x | _ \<Rightarrow> None)"

lemma the_only_set: "distinct xs \<Longrightarrow> distinct ys \<Longrightarrow> set xs = set ys \<Longrightarrow> the_only xs = the_only ys"
proof -
  assume d: "distinct xs" "distinct ys" "set xs = set ys"
  then have "length xs = length ys" using distinct_card by metis
  then show ?thesis using d(3) by (auto simp: the_only_def split: list.splits)
qed

lemma the_only_filter:
  assumes "distinct xs" "x \<in> set xs" "\<And>y. y \<in> set xs \<Longrightarrow> P y \<longleftrightarrow> y = x"
  shows "the_only (filter P xs) = Some x"
proof -
  have "the_only (filter P xs) = the_only [x]" by (rule the_only_set) (use assms in auto)
  then show ?thesis by (simp add: the_only_def)
qed

lemma full_id_digits:
  assumes "is_bytes k" "length (as_bytes hex) = 2 * length k"
  shows "has_digits k (as_bytes hex) \<longleftrightarrow> hex_decode hex = Some k"
proof -
  have "has_digits k (as_bytes hex) \<longleftrightarrow> map ascii_lowercase (as_bytes hex) = hex_encode k"
    using assms(2) by (auto simp: has_digits_def starts_with_def)
  then show ?thesis
    using decode_pairs_lowercase [of "as_bytes hex" k] assms by (simp add: hex_decode_def)
qed

lemma resolve_full_id:
  assumes "holds i cs" "length (as_bytes reference) = 2 * hi_hash_len i"
  shows "index_position i reference =
    the_only (filter (\<lambda>r. has_digits (wc_id (cs ! r)) (as_bytes reference)) [0..<length cs])"
proof -
  let ?P = "\<lambda>r. has_digits (wc_id (cs ! r)) (as_bytes reference)"
  have P: "?P r \<longleftrightarrow> hex_decode reference = Some (wc_id (cs ! r))" if "r < length cs" for r
    using holds_rows(2) [OF assms(1) that] assms(2) by (intro full_id_digits) (simp_all add: is_id_def)
  have rows: "commit_row cs (wc_id (cs ! r)) = Some r" if "r < length cs" for r
    using row_of_row [of i r] row_of_commits(1) [of i cs] assms(1) that by (simp add: holds_def index_ok_def)
  show ?thesis
  proof (cases "Option.bind (hex_decode reference) (commit_row cs)")
    case None
    then have "filter ?P [0..<length cs] = []" using P rows by (auto simp: filter_empty_conv)
    then show ?thesis using None holds_position [OF assms(1)] by (simp add: the_only_def)
  next
    case (Some r)
    then obtain bs where bs: "hex_decode reference = Some bs" "r < length cs" "wc_id (cs ! r) = bs"
      using commit_row_bound by (auto simp: bind_eq_Some_conv)
    have "the_only (filter ?P [0..<length cs]) = Some r"
      by (rule the_only_filter) (use P rows bs in \<open>auto, metis option.inject\<close>)
    then show ?thesis using Some holds_position [OF assms(1)] by simp
  qed
qed

lemma resolve_abbreviation:
  assumes "holds i cs" "7 \<le> length (as_bytes reference)" "length (as_bytes reference) < 2 * hi_hash_len i"
  shows "resolve_reference i reference =
    the_only (filter (\<lambda>r. has_digits (wc_id (cs ! r)) (as_bytes reference)) [0..<length cs])"
proof -
  let ?h = "hi_hash_len i" and ?ds = "as_bytes reference" and ?sr = "hi_sorted_rows i"
  have tables: "index_ok i" "index_len i = length cs" "\<forall>r<length cs. row_key i r = wc_id (cs ! r)" "?h \<le> 32"
    using assms(1) by (auto simp: holds_def index_ok_def ids_ok_def)
  note ok = tables(1) [unfolded index_ok_def]
  have id: "is_id i (wc_id (cs ! r))" "id_bytes i r = Some (wc_id (cs ! r))" if "r < length cs" for r
    using holds_rows [OF assms(1) that] by simp_all
  let ?b = "prefix_bounds 0 ?ds (replicate 32 0) (replicate 32 255)"
  have bounds: "case ?b of None \<Rightarrow> \<not> has_digits (wc_id (cs ! r)) ?ds
      | Some (lower, upper) \<Rightarrow> take ?h lower \<le> wc_id (cs ! r) \<and> wc_id (cs ! r) \<le> take ?h upper \<longleftrightarrow>
          has_digits (wc_id (cs ! r)) ?ds" if "r < length cs" for r
    using prefix_bounds_spec [of "[]" 0 ?ds ?h "wc_id (cs ! r)"] id(1) [OF that] assms(3) tables(4)
    by (auto simp: is_id_def split: option.splits)
  show ?thesis
  proof (cases ?b)
    case None
    then have "filter (\<lambda>r. has_digits (wc_id (cs ! r)) ?ds) [0..<length cs] = []"
      using bounds by (auto simp: filter_empty_conv)
    then show ?thesis using None assms(2,3) by (simp add: resolve_reference_def Let_def the_only_def)
  next
    case (Some b)
    obtain lower upper where b: "b = (lower, upper)" by fastforce
    let ?lo = "take ?h lower" and ?up = "take ?h upper"
    have same: "\<exists>k. id_bytes i r = Some k" if "nth_opt ?sr n = Some r" for n r
    proof -
      have "r \<in> set ?sr" using that by (auto simp: nth_opt_Some)
      then show ?thesis using ok row_key_is_id(2) [of i r] by auto
    qed
    have "resolve_reference i reference =
        (let start = partition_point (\<lambda>r. row_key i r < ?lo) ?sr
         in case nth_opt ?sr start of
              None \<Rightarrow> None
            | Some r \<Rightarrow>
                if row_key i r > ?up then None
                else (case nth_opt ?sr (start + 1) of
                        Some s \<Rightarrow> if row_key i s \<le> ?up then None else Some r
                      | None \<Rightarrow> Some r))"
      using assms(2,3) by (auto simp: resolve_reference_def Let_def Some b dest: same split: option.split)
    also have "\<dots> = the_only (filter (\<lambda>r. ?lo \<le> row_key i r \<and> row_key i r \<le> ?up) ?sr)"
      unfolding Let_def the_only_def by (rule only_between) (use ok in blast)
    also have "\<dots> = the_only (filter (\<lambda>r. has_digits (wc_id (cs ! r)) ?ds) [0..<length cs])"
    proof (rule the_only_set)
      show "set (filter (\<lambda>r. ?lo \<le> row_key i r \<and> row_key i r \<le> ?up) ?sr) =
          set (filter (\<lambda>r. has_digits (wc_id (cs ! r)) ?ds) [0..<length cs])"
      proof -
        have "set ?sr = {..<length cs}" using ok tables(2) by simp
        moreover have "?lo \<le> row_key i r \<and> row_key i r \<le> ?up \<longleftrightarrow> has_digits (wc_id (cs ! r)) ?ds" if "r < length cs" for r
          using bounds [OF that] tables(3) that by (simp add: Some b)
        ultimately show ?thesis by auto
      qed
    qed (use ok in auto)
    finally show ?thesis .
  qed
qed

section \<open>Properties\<close>

text \<open>C24: a reference of at least seven bytes and at most the length of a full id resolves to a row
  exactly when the commit of that row is the only one whose hexadecimal id starts with it, in either
  case; every shorter or longer reference, every ambiguous one and every one with another character
  resolves to nothing.\<close>

theorem references_resolve_to_the_only_commit:
  assumes "history_builder_new snapshot mode h = Inr b" "push_all b cs = Inr b'" "history_builder_finish cancelled b' = Inr i"
    and "list_all wc_bytes cs" "distinct (map wc_id cs)"
  shows "resolve_reference i reference =
    (if 7 \<le> length (as_bytes reference) \<and> length (as_bytes reference) \<le> 2 * h
     then the_only (filter (\<lambda>r. starts_with (hex_encode (wc_id (cs ! r))) (map ascii_lowercase (as_bytes reference)))
            [0..<length cs])
     else None)"
proof -
  have "holds i cs" by (rule finished_index_holds [OF assms])
  note new = builder_new_built [OF assms(1)]
  then have "b' = built snapshot mode h cs \<and> lengths_ok h cs"
    using push_all_built [of snapshot mode h "[]" cs b'] assms(2) by auto
  then have h: "hi_hash_len i = h" "h = 20 \<or> h = 32" using finish_holds(2) assms(3-5) new by blast+
  show ?thesis
    using resolve_full_id [OF \<open>holds i cs\<close>, of reference] resolve_abbreviation [OF \<open>holds i cs\<close>, of reference] h
    by (cases "length (as_bytes reference) = 2 * h") (auto simp: resolve_reference_def Let_def has_digits_def)
qed

theorem references_resolve_to_the_only_commit_witness:
  "\<exists>i. history_builder_finish (\<lambda>_. False) example_builder = Inr i \<and>
    resolve_reference i (str ''0909090'') = Some 0 \<and> resolve_reference i (str ''0a09090'') = None"
proof -
  obtain i where i: "history_builder_finish (\<lambda>_. False) example_builder = Inr i" using example_built(3) by blast
  note resolve = references_resolve_to_the_only_commit [OF example_built(1,2) i example_built(4,5)]
  have bytes: "as_bytes (str ''0909090'') = str ''0909090''" "as_bytes (str ''0a09090'') = str ''0a09090''"
    by code_simp+
  have rows: "[0..<length example_walk] = [0, 1]" by (simp add: example_walk_def)
  have first: "starts_with (hex_encode (wc_id (example_walk ! 0))) (map ascii_lowercase (str ''0909090''))"
    "\<not> starts_with (hex_encode (wc_id (example_walk ! 1))) (map ascii_lowercase (str ''0909090''))"
    by code_simp+
  have other: "\<not> starts_with (hex_encode (wc_id (example_walk ! 0))) (map ascii_lowercase (str ''0a09090''))"
    "\<not> starts_with (hex_encode (wc_id (example_walk ! 1))) (map ascii_lowercase (str ''0a09090''))"
    by code_simp+
  have len: "length (str ''0909090'') = 7" "length (str ''0a09090'') = 7" by (simp_all add: str_def)
  show ?thesis
    using i resolve [of "str ''0909090''", unfolded bytes rows len] resolve [of "str ''0a09090''", unfolded bytes rows len] first other
    by (simp add: the_only_def)
qed

end
