(* ===== verification/Spec2Isabelle.thy ===== *)
theory Spec2Isabelle
  imports Session_Props Side_Anchors Aligned_Runs History_Projection History_Reference
begin

text \<open>
  The merge and diff engine of GitComet, and its history index.

  GitComet is a git client in Rust. What it decides itself, rather than asks of git, is in the crate
  \<open>src/crates/gitcomet-core/src\<close>, and all paths below are relative to it: three-way merging of texts, the
  resolution of conflicts, two-way diffs for display, and an index of the commit history. The other
  crates call this one: the state crate keeps repositories, the git crate talks to git, the interface
  crate draws. This development models that core as pure functions and states what it promises.

  \<^bold>\<open>How the parts work together.\<close> A diff algorithm turns two lists of lines into an edit script. The merge
  planner aligns three texts by two or three such diffs into rows, and groups rows into blocks, each
  resolved or open. The renderer writes a plan out as text, with conflict markers for open blocks. The
  marker parser reads such texts, whether they come from the renderer, from git or from a user. A
  conflict session holds one conflicted file: its plan, the regions the parser finds in the rendered
  plan, and the mapping between the two, on which the user's choices and the automatic rules work. The
  side-by-side diff is built on the same edit scripts. The history index is a separate structure.

  \<^bold>\<open>Which theory models what.\<close>

  \<^item> \<open>Prelude\<close>, \<open>Strings\<close>: sizes, slices, ranges; texts as lists of code points, UTF-8, lines and line endings
    (\<open>text_utils.rs\<close>, \<open>split_lines\<close> of \<open>file_diff.rs\<close>).
  \<^item> \<open>Edits\<close>, \<open>Myers\<close>, \<open>Myers_Correct\<close>, \<open>Patience\<close>: edit scripts and hunks, \<open>myers_edits\<close> with its frontier and
    compact trace, \<open>histogram_edits\<close> (\<open>file_diff.rs\<close>).
  \<^item> \<open>Selection\<close>, \<open>Chunks\<close>, \<open>Rows\<close>, \<open>Integrate\<close>, \<open>Trim\<close>, \<open>Blocks\<close>, \<open>Plan_Ops\<close>, \<open>Plan\<close>: \<open>merge/plan.rs\<close> in its own order:
    source selections and manual alignments, chunks of a diff, the linked list of rows, the third side,
    trimming, classification into blocks, the operations on a plan, its construction.
  \<^item> \<open>Render\<close>, \<open>Aligned_Runs\<close>: \<open>merge.rs\<close>: options, the merged text in the three marker styles, the merge of
    raw bytes, and the runs shown beside each other.
  \<^item> \<open>Markers\<close>, \<open>Marker_Facts\<close>: the marker parser and the streaming scan (\<open>conflict_session/marker_parse.rs\<close>).
    \<open>Output\<close>: text generated from choices (\<open>conflict_output.rs\<close>). \<open>Marker_Output\<close>: the renderer against the parser.
    \<open>Region_Edit\<close>: splitting and joining regions in a marked text (\<open>conflict_session/region_edit.rs\<close>).
  \<^item> \<open>Subchunks\<close>, \<open>Autosolve\<close>, \<open>History\<close>: the automatic rules (\<open>conflict_session/subchunk.rs\<close>, \<open>autosolve.rs\<close>,
    \<open>history.rs\<close>).
  \<^item> \<open>Payload\<close>, \<open>Session\<close>, \<open>Session_Facts\<close>, \<open>Session_Props\<close>: what a side holds, and the session
    (\<open>conflict_session.rs\<close>).
  \<^item> \<open>Levenshtein\<close>, \<open>Replacement\<close>, \<open>Side_Plan\<close>, \<open>Side_Rows\<close>, \<open>Side_Anchors\<close>: the side-by-side diff of \<open>file_diff.rs\<close>:
    distances of lines, pairing of replaced lines, the plan, its rows and line tables, its regions.
  \<^item> \<open>Slice_Search\<close>, \<open>Hex\<close>, \<open>History_Index\<close>, \<open>History_Lookup\<close>, \<open>History_Build\<close>, \<open>History_Queries\<close>, \<open>History_Projection\<close>,
    \<open>History_Reference\<close>: Rust's searches in sorted slices, \<open>hex.rs\<close>, and \<open>history_index.rs\<close>.
\<close>

text \<open>
  \<^bold>\<open>How the code is represented.\<close> A struct is a record with its fields prefixed, an enum a datatype with the
  source's variants, a function of the source a definition of its name where HOL leaves it free. State
  that a method changes is passed in and returned. A loop is a recursive function with its termination proved. The one
  function with fuel is the walk along the back links of the histogram algorithm (\<open>lis_chain\<close>); each
  link leads to a smaller index, so as much fuel as there are pairs is enough, and it is given that much. A failed \<open>expect\<close> or an index out of range is the value \<open>None\<close> or
  \<open>Panic\<close>, an error an \<open>Inl\<close>, and no claim holds by such a value being left out: the
  claims that something is built say so. A \<open>usize\<close> is a natural number, with saturation and the bound
  \<open>usize_max\<close> of a 64-bit target written where the code depends on them (the byte-wise skip of equal
  prefixes takes eight bytes at a time); an index into a list in memory is below it and is not cast.
  Where the code stores 32-bit numbers the cast is written (\<open>u32_cast\<close>, \<open>u32_max\<close>), and the bit-parallel
  distance works on machine words.

  \<^bold>\<open>Interfaces.\<close> \<open>diff_algorithm\<close> (\<open>Edits\<close>) is what the rest asks of a diff: a script for its two sides. Myers,
  the histogram algorithm, its two fallbacks and the choice among them are its interpretations, so that
  reconstructing a side from hunks is proved once. \<open>source_selection\<close> (\<open>Selection\<close>) is the ordered set of sources
  in which decisions are kept; the selection of a block and the array of \<open>conflict_output.rs\<close> both provide it.
  \<open>row_lookup\<close> (\<open>History_Lookup\<close>) is finding the row of an id; the search in the sorted rows with its
  table of 65,536 prefixes and the search over the builder's cached prefixes provide it.

  \<^bold>\<open>What the lemmas show.\<close>

  \<^item> Plans: every line once and in order, blocks partition the rows, decisions are the rule of a three-way
    merge, every operation keeps the invariant \<open>plan_ok\<close>; a one-sided change is taken over as it is.
  \<^item> Markers: the parser computes a grammar of whole lines (\<open>segments_of\<close>); what is rendered is parsed back, as
    many conflicts as were counted; splitting and joining keep the sides.
  \<^item> Automatic rules: the line merge of a block is one determined three-way merge. Its parts are
    specified without the loops, as longest runs of equal comparison or as connected components of the hunks that
    touch (\<open>three_way_parts\<close>), and are unique; the auto-solver returns a text exactly when every block is
    justified, and then that text.
  \<^item> Sessions: regions and plan blocks carry the same decisions (\<open>in_step\<close>), and so counters, gate and navigation
    are right.
  \<^item> Diffs: Myers' script is a shortest one, the distances agree with the least edit cost, the pairing of
    replaced lines is a cheapest one; the side-by-side plan shows both files and its tables agree with its rows.
  \<^item> History: the index is a round trip of the walked commits, references resolve exactly to unique prefixes, the
    projection is the list of visible rows, and a refresh moves each row to the nearest surviving one.

  \<^bold>\<open>Parameters.\<close> The regex engine (compilation, matching, replacement) is not part of the repository and is an argument
  of the rules that use it, as is the answer sequence of a cancellation token that other threads set.

  \<^bold>\<open>Bounds.\<close> Optimality of Myers' script holds for at most \<open>u32_max\<close> lines together, the guard of the code; the
  subchunk rule works on at most 500 lines a side; the side-by-side diff uses Myers' script below 1024 lines
  together, the histogram algorithm up to its next threshold, and linear fallbacks beyond; the replaced blocks are aligned within the code's budget of cells; the bit-parallel distance takes
  patterns of at most 128 bytes.

  \<^bold>\<open>Conditions that matter.\<close> Several claims need texts without stray carriage returns, marker-like lines or a blank
  last line. They are premises of the theorems, each is named in the text of its claim, and lemmas such as
  \<open>appended_blank_line_is_lost\<close>, \<open>stray_carriage_return_hides_the_conflict\<close>, \<open>mixed_endings_grow_the_block\<close> and
  \<open>empty_file_is_marked\<close> show what the code does without them.

  \<^bold>\<open>What is not modelled.\<close> Sharing of text buffers, capacities and size estimates, debug output and messages; the
  byte and text accessors of a session's sides; of this crate \<open>squash.rs\<close>, \<open>merge/minimap.rs\<close>, \<open>conflict_labels.rs\<close>,
  \<open>merge_extraction.rs\<close>, \<open>diff.rs\<close>, \<open>gitignore.rs\<close>, \<open>tag_push.rs\<close>, the service and domain records, and everything
  that runs programs or touches files, credentials and the environment; the other crates, which are state
  management, bindings to git and the operating system, and the user interface.
\<close>

end
